(* ===== verification/Prelude.thy ===== *)
theory Prelude
  imports Main "HOL-Library.Word" "HOL-Library.AList" "HOL-Library.Multiset"
begin

text \<open>
  Shared vocabulary of the development: Go's fixed-width integers as words, byte strings,
  the little-endian accessors of \<^verbatim>\<open>encoding/binary\<close>, and the interfaces that several
  components share: a machine, or a step relation, whose every step keeps an invariant, and a self-delimiting
  codec.
\<close>

unbundle bit_operations_syntax

section \<open>Machine types\<close>

type_synonym byte = "8 word"
type_synonym u16 = "16 word"
type_synonym u32 = "32 word"
type_synonym bytes = "byte list"

named_theorems step_simps \<open>unfolding rules of the operations of a component\<close>
named_theorems inv_intros \<open>invariant preservation lemmas of single operations\<close>

section \<open>Little-endian accessors (encoding/binary)\<close>

definition PutUint16 :: "u16 \<Rightarrow> bytes" where
  "PutUint16 v = [ucast v, ucast (drop_bit 8 v)]"

definition PutUint32 :: "u32 \<Rightarrow> bytes" where
  "PutUint32 v = [ucast v, ucast (drop_bit 8 v), ucast (drop_bit 16 v), ucast (drop_bit 24 v)]"

definition Uint16 :: "bytes \<Rightarrow> u16" where
  "Uint16 b = ucast (b ! 0) OR push_bit 8 (ucast (b ! 1))"

definition Uint32 :: "bytes \<Rightarrow> u32" where
  "Uint32 b = ucast (b ! 0) OR push_bit 8 (ucast (b ! 1)) OR
     push_bit 16 (ucast (b ! 2)) OR push_bit 24 (ucast (b ! 3))"

lemma length_PutUint16 [simp]: "length (PutUint16 v) = 2"
  by (simp add: PutUint16_def)

lemma length_PutUint32 [simp]: "length (PutUint32 v) = 4"
  by (simp add: PutUint32_def)

lemma Uint16_PutUint16 [simp]: "Uint16 (PutUint16 v) = v"
proof (rule bit_word_eqI)
  fix n assume "n < LENGTH(16)"
  then show "bit (Uint16 (PutUint16 v)) n = bit v n"
    by (cases "n < 8") (auto simp: Uint16_def PutUint16_def bit_simps)
qed

lemma Uint32_PutUint32 [simp]: "Uint32 (PutUint32 v) = v"
proof (rule bit_word_eqI)
  fix n assume "n < LENGTH(32)"
  then show "bit (Uint32 (PutUint32 v)) n = bit v n"
    by (cases "n < 8"; cases "n < 16"; cases "n < 24")
      (auto simp: Uint32_def PutUint32_def bit_simps)
qed

lemma Uint16_append [simp]: "2 \<le> length xs \<Longrightarrow> Uint16 (xs @ ys) = Uint16 xs"
  by (cases xs) (auto simp: Uint16_def nth_append)

lemma Uint32_append [simp]: "4 \<le> length xs \<Longrightarrow> Uint32 (xs @ ys) = Uint32 xs"
  by (cases xs) (auto simp: Uint32_def nth_append)

section \<open>Strings as bytes\<close>

definition bytes_str :: "bytes \<Rightarrow> string" where
  "bytes_str b = map (\<lambda>x. char_of (unat x)) b"

definition str_bytes :: "string \<Rightarrow> bytes" where
  "str_bytes s = map of_char s"

lemma bytes_str_bytes [simp]: "bytes_str (str_bytes s) = s"
proof -
  have "unat (of_char c :: byte) = of_char c" for c :: char
  proof -
    have "(of_char c :: byte) = of_nat (of_char c)" by (rule of_nat_of_char [symmetric])
    then show ?thesis by (simp only: unat_of_nat) simp
  qed
  then show ?thesis by (simp add: bytes_str_def str_bytes_def o_def)
qed

section \<open>Lists updated by index\<close>

lemma length_filter_update:
  "i < length xs \<Longrightarrow>
   length (filter P (xs[i := x])) + (if P (xs ! i) then 1 else 0) = length (filter P xs) + (if P x then 1 else 0)"
proof (induction xs arbitrary: i)
  case (Cons y xs)
  then show ?case by (cases i) auto
qed simp

section \<open>A machine whose every step keeps an invariant\<close>

text \<open>
  Several components are a state, a type of events and a step function. What one step keeps,
  every run keeps: proved once here, and used through an interpretation per component.
\<close>

locale inv_machine =
  fixes step :: "'s \<Rightarrow> 'e \<Rightarrow> 's"
    and inv :: "'s \<Rightarrow> bool"
  assumes step_inv: "inv s \<Longrightarrow> inv (step s e)"
begin

lemma run_inv: "inv s \<Longrightarrow> inv (foldl step s es)"
  by (induction es arbitrary: s) (simp_all add: step_inv)

end

text \<open>The same for a step relation, where what happens next is not an argument.\<close>

locale inv_relation =
  fixes rel :: "'s \<Rightarrow> 's \<Rightarrow> bool"
    and inv :: "'s \<Rightarrow> bool"
  assumes rel_inv: "rel s s' \<Longrightarrow> inv s \<Longrightarrow> inv s'"
begin

lemma path_inv: "rel\<^sup>*\<^sup>* s s' \<Longrightarrow> inv s \<Longrightarrow> inv s'"
  by (induction rule: rtranclp_induct) (auto intro: rel_inv)

end

section \<open>Refinement of a machine\<close>

text \<open>The state after a list of events, each of which has to be possible.\<close>

fun run_steps :: "('e \<Rightarrow> 's \<Rightarrow> 's option) \<Rightarrow> 'e list \<Rightarrow> 's \<Rightarrow> 's option" where
  "run_steps step [] s = Some s"
| "run_steps step (e # es) s = (case step e s of None \<Rightarrow> None | Some s' \<Rightarrow> run_steps step es s')"

fun seen :: "('e \<Rightarrow> 'a option) \<Rightarrow> 'e list \<Rightarrow> 'a list" where
  "seen ev [] = []"
| "seen ev (e # es) = (case ev e of None \<Rightarrow> seen ev es | Some a \<Rightarrow> a # seen ev es)"

text \<open>A step of the detailed machine is a step of the abstract one, or none of its concern.\<close>

locale machine_refines =
  fixes step :: "'e \<Rightarrow> 's \<Rightarrow> 's option"
    and astep :: "'a \<Rightarrow> 't \<Rightarrow> 't option"
    and abst :: "'s \<Rightarrow> 't"
    and ev :: "'e \<Rightarrow> 'a option"
  assumes simulates: "step e s = Some s' \<Longrightarrow> (case ev e of None \<Rightarrow> abst s' = abst s | Some a \<Rightarrow> astep a (abst s) = Some (abst s'))"
begin

lemma run_refines: "run_steps step es s = Some s' \<Longrightarrow> run_steps astep (seen ev es) (abst s) = Some (abst s')"
proof (induction es arbitrary: s)
  case (Cons e es)
  then obtain s1 where "step e s = Some s1" "run_steps step es s1 = Some s'" by (auto split: option.splits)
  with Cons.IH [of s1] simulates [of e s s1] show ?case by (cases "ev e") simp_all
qed simp

end

section \<open>A self-delimiting codec\<close>

text \<open>
  A wire format whose decoder takes one message off the front of a byte string. The client
  (a receive loop) needs only that decoding an encoded message gives it back with the rest of
  the input untouched, and that no message is empty.
\<close>

fun decode_all :: "(bytes \<Rightarrow> ('a \<times> bytes) option) \<Rightarrow> nat \<Rightarrow> bytes \<Rightarrow> 'a list \<times> bytes" where
  "decode_all dec 0 bs = ([], bs)"
| "decode_all dec (Suc n) bs =
     (case dec bs of
        None \<Rightarrow> ([], bs)
      | Some (x, rest) \<Rightarrow> (let (xs, rest') = decode_all dec n rest in (x # xs, rest')))"

locale codec =
  fixes enc :: "'a \<Rightarrow> bytes"
    and dec :: "bytes \<Rightarrow> ('a \<times> bytes) option"
    and ok :: "'a \<Rightarrow> bool"
  assumes dec_enc: "ok x \<Longrightarrow> dec (enc x @ rest) = Some (x, rest)"
begin

lemma decode_all_concat:
  "list_all ok xs \<Longrightarrow> decode_all dec (length xs) (concat (map enc xs) @ rest) = (xs, rest)"
  by (induction xs) (simp_all add: dec_enc)

lemma enc_inj: "ok x \<Longrightarrow> ok y \<Longrightarrow> enc x = enc y \<Longrightarrow> x = y"
  using dec_enc [of x "[]"] dec_enc [of y "[]"] by simp

lemma concat_enc_inj:
  assumes "list_all ok xs" "list_all ok ys" "length xs = length ys"
    and "concat (map enc xs) = concat (map enc ys)"
  shows "xs = ys"
  using decode_all_concat [OF assms(1), of "[]"] decode_all_concat [OF assms(2), of "[]"]
    assms(3,4) by simp

end

end
