(* ===== verification/Smux_Alloc.thy ===== *)
theory Smux_Alloc
  imports Prelude
begin

text \<open>
  The buffer allocator of \<^verbatim>\<open>smux/alloc.go\<close>: \<^verbatim>\<open>msb\<close> finds the most significant bit with a
  de Bruijn multiplication, and \<^verbatim>\<open>Allocator\<close> keeps one pool of recycled buffers per power of
  two up to 64K. A buffer is represented by its length and its capacity; what it holds is
  overwritten by the receive loop before anyone reads it. A \<^verbatim>\<open>sync.Pool\<close> may drop what was put
  into it at any time, so whether a \<^verbatim>\<open>Get\<close> finds a recycled buffer is an argument.
\<close>

section \<open>msb\<close>

definition debruijinPos :: "nat list" where
  "debruijinPos = [0, 9, 1, 10, 13, 21, 2, 29, 11, 14, 16, 18, 22, 25, 3, 30,
                   8, 12, 20, 28, 15, 17, 24, 7, 19, 27, 23, 6, 26, 5, 4, 31]"

definition or_shift :: "nat \<Rightarrow> u32 \<Rightarrow> u32" where
  "or_shift k v = v OR drop_bit k v"

definition msb_smear :: "u32 \<Rightarrow> u32" where
  "msb_smear v = or_shift 16 (or_shift 8 (or_shift 4 (or_shift 2 (or_shift 1 v))))"

definition go_msb :: "int \<Rightarrow> nat" where
  "go_msb sz =
     (let v = msb_smear (word_of_int sz)
      in debruijinPos ! unat (drop_bit 27 (v * 0x07C4ACDD)))"

text \<open>
  \<open>smeared d v w\<close>: bit \<open>i\<close> of \<open>w\<close> is set when one of the bits \<open>i, \<dots>, i + d - 1\<close> of \<open>v\<close> is.
  Each \<^verbatim>\<open>v |= v >> d\<close> doubles \<open>d\<close>.
\<close>

definition smeared :: "nat \<Rightarrow> u32 \<Rightarrow> u32 \<Rightarrow> bool" where
  "smeared d v w \<longleftrightarrow> (\<forall>i<32. bit w i \<longleftrightarrow> (\<exists>j. i \<le> j \<and> j < i + d \<and> bit v j))"

lemma smeared_1: "smeared 1 v v"
proof -
  have "i \<le> j \<and> j < i + 1 \<longleftrightarrow> j = i" for i j :: nat by auto
  then show ?thesis by (auto simp: smeared_def conj_assoc [symmetric])
qed

lemma smeared_step: "smeared d v w \<Longrightarrow> smeared (d + d) v (or_shift d w)"
  unfolding smeared_def
proof (intro allI impI)
  fix i :: nat
  assume w: "\<forall>i<32. bit w i = (\<exists>j. i \<le> j \<and> j < i + d \<and> bit v j)" and i: "i < 32"
  have high: "bit w n \<Longrightarrow> n < 32" "bit v n \<Longrightarrow> n < 32" for n
    by (auto dest: bit_imp_le_length)
  have or: "bit (or_shift d w) i \<longleftrightarrow> bit w i \<or> bit w (d + i)"
    by (auto simp: or_shift_def bit_simps)
  have lo: "bit w i \<longleftrightarrow> (\<exists>j. i \<le> j \<and> j < i + d \<and> bit v j)"
    using w i by blast
  have hi: "bit w (d + i) \<longleftrightarrow> (\<exists>j. d + i \<le> j \<and> j < d + i + d \<and> bit v j)"
  proof (cases "d + i < 32")
    case True
    then show ?thesis using w by blast
  next
    case False
    then show ?thesis using high by (meson le_less_trans)
  qed
  show "bit (or_shift d w) i = (\<exists>j\<ge>i. j < i + (d + d) \<and> bit v j)" (is "?l = ?r")
  proof
    assume ?l
    then consider j where "i \<le> j" "j < i + d" "bit v j"
      | j where "d + i \<le> j" "j < d + i + d" "bit v j"
      unfolding or lo hi by blast
    then show ?r
    proof cases
      case (1 j)
      then show ?thesis by (auto intro!: exI [of _ j])
    next
      case (2 j)
      then show ?thesis by (auto intro!: exI [of _ j])
    qed
  next
    assume ?r
    then obtain j where j: "i \<le> j" "j < i + (d + d)" "bit v j" by blast
    show ?l unfolding or lo hi
      by (cases "j < i + d") (use j in \<open>auto intro!: exI [of _ j]\<close>)
  qed
qed

lemma smeared_msb_smear: "smeared 32 v (msb_smear v)"
proof -
  have "smeared (1 + 1) v (or_shift 1 v)" by (rule smeared_step [OF smeared_1])
  then have "smeared 2 v (or_shift 1 v)" by (simp add: numeral_2_eq_2)
  from smeared_step [OF this] have "smeared 4 v (or_shift 2 (or_shift 1 v))" by simp
  from smeared_step [OF this] have "smeared 8 v (or_shift 4 (or_shift 2 (or_shift 1 v)))" by simp
  from smeared_step [OF this]
  have "smeared 16 v (or_shift 8 (or_shift 4 (or_shift 2 (or_shift 1 v))))" by simp
  from smeared_step [OF this] show ?thesis by (simp add: msb_smear_def)
qed

lemma bit_smear_iff: "i < 32 \<Longrightarrow> bit (msb_smear v) i \<longleftrightarrow> (\<exists>j\<ge>i. bit v j)"
proof -
  assume i: "i < 32"
  have "j < i + 32" if "bit v j" for j
    using bit_imp_le_length [OF that] by simp
  with smeared_msb_smear [of v] i show ?thesis
    unfolding smeared_def by blast
qed

text \<open>A value between \<open>2 ^ k\<close> and \<open>2 ^ (k + 1)\<close> has \<open>k\<close> as its highest bit.\<close>

lemma bit_nat_top:
  assumes "2 ^ k \<le> n" "n < (2::nat) ^ Suc k"
  shows "bit n k" and "bit n j \<Longrightarrow> j \<le> (k :: nat)"
proof -
  have "n div 2 ^ k = 1"
    using assms by (simp add: div_nat_eqI)
  then show "bit n k" by (simp add: bit_iff_odd)
  assume b: "bit n j"
  show "j \<le> k"
  proof (rule ccontr)
    assume "\<not> j \<le> k"
    then have "(2::nat) ^ Suc k \<le> 2 ^ j" by (intro power_increasing) auto
    then have "n div 2 ^ j = 0" using assms(2) by simp
    with b show False by (simp add: bit_iff_odd)
  qed
qed

lemma smear_mask:
  assumes "k < 32" "2 ^ k \<le> n" "n < (2::nat) ^ Suc k"
  shows "msb_smear (word_of_nat n) = mask (Suc k)"
proof (rule bit_word_eqI)
  fix i assume "i < LENGTH(32)"
  then have i: "i < 32" by simp
  have w: "bit (word_of_nat n :: u32) j \<longleftrightarrow> j < 32 \<and> bit n j" for j
    by (simp add: bit_of_nat_iff_bit bit_simps)
  have "(\<exists>j\<ge>i. j < 32 \<and> bit n j) \<longleftrightarrow> i \<le> k"
    using bit_nat_top [OF assms(2,3)] assms(1) by (meson le_trans)
  with i show "bit (msb_smear (word_of_nat n)) i = bit (mask (Suc k) :: u32) i"
    by (simp add: bit_smear_iff w bit_mask_iff less_Suc_eq_le)
qed

lemma debruijin_table:
  assumes "k < 32"
  shows "debruijinPos ! unat (drop_bit 27 ((mask (Suc k) :: u32) * 0x07C4ACDD)) = k"
proof -
  have "list_all (\<lambda>k. debruijinPos ! unat (drop_bit 27 ((mask (Suc k) :: u32) * 0x07C4ACDD)) = k)
          [0..<32]"
    by code_simp
  with assms show ?thesis by (simp add: list_all_iff)
qed

lemma go_msb_eq:
  assumes "k < 32" "2 ^ k \<le> n" "n < (2::nat) ^ Suc k"
  shows "go_msb (int n) = k"
  using smear_mask [OF assms] debruijin_table [OF assms(1)]
  by (simp add: go_msb_def Let_def)

text \<open>Every positive value has such a \<open>k\<close>.\<close>

lemma pow2_between:
  assumes "0 < n"
  obtains k where "2 ^ k \<le> n" "n < (2::nat) ^ Suc k"
proof -
  obtain m where m: "n < (2::nat) ^ m" using less_exp by blast
  define k where "k = (LEAST m. n < (2::nat) ^ m)"
  have k: "n < 2 ^ k" and least: "\<And>j. j < k \<Longrightarrow> 2 ^ j \<le> n"
    unfolding k_def using m by (auto intro: LeastI dest: not_less_Least simp: not_less [symmetric])
  from k assms obtain j where "k = Suc j" by (cases k) auto
  with k least [of j] that show thesis by auto
qed

lemma go_msb_bounds:
  assumes "0 < n" "n < 2 ^ 32"
  shows "2 ^ go_msb (int n) \<le> n" "n < (2::nat) ^ Suc (go_msb (int n))"
proof -
  obtain k where k: "2 ^ k \<le> n" "n < (2::nat) ^ Suc k" using pow2_between [OF assms(1)] .
  with assms(2) have "(2::nat) ^ k < 2 ^ 32" by linarith
  then have "k < 32" by (rule power_less_imp_less_exp [rotated]) simp
  with k show "2 ^ go_msb (int n) \<le> n" "n < (2::nat) ^ Suc (go_msb (int n))"
    by (simp_all add: go_msb_eq del: power_Suc)
qed

lemma go_msb_pow2 [simp]: "k < 32 \<Longrightarrow> go_msb (2 ^ k) = k"
  using go_msb_eq [of k "2 ^ k"] by simp

lemma go_msb_le:
  assumes "0 < n" "n \<le> (2::nat) ^ k" "k < 32"
  shows "go_msb (int n) \<le> k"
proof -
  have "(2::nat) ^ k < 2 ^ 32" using assms(3) by (rule power_strict_increasing) simp
  with assms(1,2) have "2 ^ go_msb (int n) \<le> n" by (intro go_msb_bounds(1)) linarith+
  with assms(2) have "(2::nat) ^ go_msb (int n) \<le> 2 ^ k" by linarith
  then show ?thesis by simp
qed

section \<open>The pools\<close>

text \<open>The capacities of the buffers each of the 17 pools holds.\<close>

type_synonym alloc = "nat list list"

record slice =
  slen :: nat
  scap :: nat

datatype get_result = GNil | GSlice slice | GPanic

definition NewAllocator :: alloc where
  "NewAllocator = replicate 17 []"

text \<open>
  \<^verbatim>\<open>sync.Pool.Get\<close>: a pooled buffer when there is one and the pool still has it (\<open>hit\<close>), else
  the buffer the pool's \<^verbatim>\<open>New\<close> makes, of capacity \<^verbatim>\<open>1<<i\<close>.
\<close>

definition pool_take :: "bool \<Rightarrow> nat \<Rightarrow> alloc \<Rightarrow> nat \<times> alloc" where
  "pool_take hit k a =
     (case a ! k of
        c # cs \<Rightarrow> if hit then (c, a[k := cs]) else (2 ^ k, a)
      | [] \<Rightarrow> (2 ^ k, a))"

text \<open>Re-slicing \<^verbatim>\<open>[:size]\<close> panics beyond the capacity.\<close>

definition reslice :: "nat \<Rightarrow> nat \<Rightarrow> get_result" where
  "reslice n c = (if n \<le> c then GSlice \<lparr>slen = n, scap = c\<rparr> else GPanic)"

definition alloc_Get :: "bool \<Rightarrow> int \<Rightarrow> alloc \<Rightarrow> get_result \<times> alloc" where
  "alloc_Get hit sz a =
     (if sz \<le> 0 \<or> sz > 65536 then (GNil, a)
      else let bits = go_msb sz;
               k = (if sz = 2 ^ bits then bits else bits + 1);
               (c, a') = pool_take hit k a
           in (reslice (nat sz) c, a'))"

text \<open>\<^verbatim>\<open>Put\<close> of a buffer of capacity \<open>c\<close>: false when it returns an error.\<close>

definition alloc_Put :: "nat \<Rightarrow> alloc \<Rightarrow> bool \<times> alloc" where
  "alloc_Put c a =
     (let bits = go_msb (int c)
      in if c = 0 \<or> c > 65536 \<or> c \<noteq> 2 ^ bits then (False, a)
         else (True, a[bits := c # a ! bits]))"

section \<open>The pool invariant\<close>

definition alloc_inv :: "alloc \<Rightarrow> bool" where
  "alloc_inv a \<longleftrightarrow> length a = 17 \<and> (\<forall>k<17. \<forall>c\<in>set (a ! k). c = 2 ^ k)"

datatype alloc_op = OGet bool int | OPut nat

fun alloc_step :: "alloc \<Rightarrow> alloc_op \<Rightarrow> alloc" where
  "alloc_step a (OGet hit sz) = snd (alloc_Get hit sz a)"
| "alloc_step a (OPut c) = snd (alloc_Put c a)"

lemma alloc_inv_New: "alloc_inv NewAllocator"
  by (simp add: alloc_inv_def NewAllocator_def)

lemma pool_take_inv:
  assumes "alloc_inv a" "k < 17"
  shows "fst (pool_take hit k a) = 2 ^ k" "alloc_inv (snd (pool_take hit k a))"
proof -
  have m: "\<And>c. c \<in> set (a ! k) \<Longrightarrow> c = 2 ^ k" using assms by (simp add: alloc_inv_def)
  then show "fst (pool_take hit k a) = 2 ^ k"
    by (auto simp: pool_take_def split: list.split)
  show "alloc_inv (snd (pool_take hit k a))"
    using assms m by (auto simp: pool_take_def alloc_inv_def nth_list_update split: list.split)
qed

text \<open>The class \<^verbatim>\<open>Get\<close> picks is the least power of two that holds the request.\<close>

definition size_class :: "int \<Rightarrow> nat" where
  "size_class sz = (if sz = 2 ^ go_msb sz then go_msb sz else go_msb sz + 1)"

lemma size_class_bounds:
  assumes "0 < sz" "sz \<le> 65536"
  shows "sz \<le> 2 ^ size_class sz" "2 ^ size_class sz < 2 * sz" "size_class sz < 17"
proof -
  define n where "n = nat sz"
  have sz: "sz = int n" and n: "0 < n" "n \<le> 65536" using assms by (auto simp: n_def)
  have lo: "2 ^ go_msb sz \<le> n" and hi: "n < 2 ^ Suc (go_msb sz)"
    using go_msb_bounds [of n] n by (simp_all add: sz)
  have le: "go_msb sz \<le> 16" using go_msb_le [of n 16] n by (simp add: sz)
  define m where "m = go_msb sz"
  have "int (2 ^ m) \<le> int n" "int n < int (2 ^ Suc m)"
    using lo hi unfolding m_def [symmetric] by (simp_all only: of_nat_le_iff of_nat_less_iff)
  then have "2 ^ go_msb sz \<le> sz" "sz < 2 * 2 ^ go_msb sz"
    unfolding m_def [symmetric] sz [symmetric] by simp_all
  then show "sz \<le> 2 ^ size_class sz" "2 ^ size_class sz < 2 * sz"
    using assms(1) by (auto simp: size_class_def)
  have "sz = 2 ^ go_msb sz" if "go_msb sz = 16" using that lo n(2) by (simp add: sz)
  with le show "size_class sz < 17"
    by (cases "go_msb sz = 16") (auto simp: size_class_def)
qed

lemma alloc_Get_eq:
  assumes "alloc_inv a" "0 < sz" "sz \<le> 65536"
  shows "fst (alloc_Get hit sz a) = GSlice \<lparr>slen = nat sz, scap = 2 ^ size_class sz\<rparr>"
    and "alloc_inv (snd (alloc_Get hit sz a))"
proof -
  note c = size_class_bounds [OF assms(2,3)]
  note t = pool_take_inv [OF assms(1) c(3), of hit]
  obtain v a' where va: "pool_take hit (size_class sz) a = (v, a')" by fastforce
  have "int (nat sz) \<le> int (2 ^ size_class sz)" using c(1) assms(2) by simp
  then have le: "nat sz \<le> 2 ^ size_class sz" by linarith
  show "fst (alloc_Get hit sz a) = GSlice \<lparr>slen = nat sz, scap = 2 ^ size_class sz\<rparr>"
    using assms(2,3) t va le by (simp add: alloc_Get_def size_class_def [symmetric] reslice_def Let_def)
  show "alloc_inv (snd (alloc_Get hit sz a))"
    using assms(2,3) t va by (simp add: alloc_Get_def size_class_def [symmetric] Let_def)
qed

lemma alloc_Get_inv [inv_intros]: "alloc_inv a \<Longrightarrow> alloc_inv (snd (alloc_Get hit sz a))"
  using alloc_Get_eq(2) by (cases "0 < sz \<and> sz \<le> 65536") (auto simp: alloc_Get_def)

lemma alloc_Put_ok_iff:
  "fst (alloc_Put c a) \<longleftrightarrow> (\<exists>k\<le>16. c = 2 ^ k)"
proof
  assume "fst (alloc_Put c a)"
  then have c: "0 < c" "c \<le> 65536" "c = 2 ^ go_msb (int c)"
    by (auto simp: alloc_Put_def Let_def split: if_splits)
  from c have "go_msb (int c) \<le> 16" by (intro go_msb_le) auto
  with c(3) show "\<exists>k\<le>16. c = 2 ^ k" by blast
next
  assume "\<exists>k\<le>16. c = 2 ^ k"
  then obtain k where k: "k \<le> 16" "c = 2 ^ k" by blast
  have "(2::nat) ^ k \<le> 2 ^ 16" using k(1) by (rule power_increasing) simp
  with k show "fst (alloc_Put c a)" by (simp add: alloc_Put_def Let_def)
qed

lemma alloc_Put_inv [inv_intros]:
  assumes "alloc_inv a" shows "alloc_inv (snd (alloc_Put c a))"
proof (cases "\<exists>k\<le>16. c = 2 ^ k")
  case True
  then obtain k where k: "k \<le> 16" "c = 2 ^ k" by blast
  with assms show ?thesis
    by (auto simp: alloc_Put_def alloc_inv_def nth_list_update Let_def)
next
  case False
  then have "\<not> fst (alloc_Put c a)" by (simp add: alloc_Put_ok_iff)
  with assms show ?thesis by (auto simp: alloc_Put_def Let_def split: if_splits)
qed

interpretation alloc: inv_machine alloc_step alloc_inv
proof
  fix a and e
  assume "alloc_inv a"
  then show "alloc_inv (alloc_step a e)"
    by (cases e) (simp_all add: inv_intros)
qed

section \<open>Properties\<close>

text \<open>
  The de Bruijn multiplication is right on every positive 32-bit size: \<^verbatim>\<open>msb\<close> is the
  position of the most significant bit, so the size lies in
  \<open>[2 ^ msb, 2 ^ (msb + 1))\<close>.
\<close>

theorem msb_correct:
  assumes "0 < sz" "sz < 2 ^ 32"
  shows "2 ^ go_msb sz \<le> sz \<and> sz < 2 ^ (go_msb sz + 1)"
proof -
  obtain n where n: "sz = int n" using assms(1) by (metis less_imp_le nonneg_int_cases)
  from assms n have "0 < n" "n < 2 ^ 32" by simp_all
  note b = go_msb_bounds [OF this]
  have "int (2 ^ go_msb sz) \<le> int n" "int n < int (2 ^ Suc (go_msb sz))"
    using b unfolding n by (simp_all only: of_nat_le_iff of_nat_less_iff)
  then show ?thesis by (simp add: n)
qed

theorem msb_correct_witness:
  "(2::int) ^ go_msb 1500 \<le> 1500 \<and> (1500::int) < 2 ^ (go_msb 1500 + 1)"
  using msb_correct [of 1500] by simp

text \<open>
  C11: after any sequence of \<^verbatim>\<open>Get\<close>s and \<^verbatim>\<open>Put\<close>s from a fresh allocator, whatever the pools have
  dropped, a \<^verbatim>\<open>Get\<close> of 1 to 65536 bytes does not panic: it returns a buffer of exactly the
  requested length whose capacity is a power of two, large enough, and less than twice the
  request (at most half of it is wasted); any other size gives nil and leaves the pools alone.
\<close>

theorem alloc_Get_fits:
  "(0 < sz \<and> sz \<le> 65536 \<longrightarrow>
     (\<exists>k\<le>16. fst (alloc_Get hit sz (foldl alloc_step NewAllocator ops)) =
               GSlice \<lparr>slen = nat sz, scap = 2 ^ k\<rparr> \<and> sz \<le> 2 ^ k \<and> 2 ^ k < 2 * sz)) \<and>
   (\<not> (0 < sz \<and> sz \<le> 65536) \<longrightarrow>
     alloc_Get hit sz (foldl alloc_step NewAllocator ops) = (GNil, foldl alloc_step NewAllocator ops))"
proof -
  have inv: "alloc_inv (foldl alloc_step NewAllocator ops)"
    by (rule alloc.run_inv) (rule alloc_inv_New)
  show ?thesis
    using alloc_Get_eq(1) [OF inv, of sz hit] size_class_bounds [of sz]
    by (auto simp: alloc_Get_def less_Suc_eq_le intro!: exI [of _ "size_class sz"])
qed

theorem alloc_Get_fits_witness:
  "\<exists>k\<le>16. fst (alloc_Get True 3 (foldl alloc_step NewAllocator [OPut 4, OPut 3])) =
     GSlice \<lparr>slen = 3, scap = 2 ^ k\<rparr> \<and> (3::int) \<le> 2 ^ k \<and> (2::int) ^ k < 6"
  using alloc_Get_fits [of 3 True "[OPut 4, OPut 3]"] by simp

end
