(* ===== verification/Go_Heap.thy ===== *)
theory Go_Heap
  imports Prelude
begin

text \<open>
  Go's \<^verbatim>\<open>container/heap\<close>, which the shaper uses: \<^verbatim>\<open>up\<close>, \<^verbatim>\<open>down\<close>, \<^verbatim>\<open>Push\<close> and \<^verbatim>\<open>Pop\<close> on a list
  with a \<^verbatim>\<open>Less\<close> function, and the interface a client may rely on: if \<^verbatim>\<open>Less\<close> is a strict weak
  order on the elements that are in the heap, a pop returns a minimal one.
\<close>

section \<open>The operations\<close>

definition list_swap :: "'a list \<Rightarrow> nat \<Rightarrow> nat \<Rightarrow> 'a list" where
  "list_swap xs i j = xs[i := xs ! j, j := xs ! i]"

lemma length_list_swap [simp]: "length (list_swap xs i j) = length xs"
  by (simp add: list_swap_def)

lemma mset_list_swap [simp]:
  "i < length xs \<Longrightarrow> j < length xs \<Longrightarrow> mset (list_swap xs i j) = mset xs"
  by (simp add: list_swap_def mset_swap)

lemma nth_list_swap:
  "i < length xs \<Longrightarrow> j < length xs \<Longrightarrow> k < length xs \<Longrightarrow>
   list_swap xs i j ! k = (if k = i then xs ! j else if k = j then xs ! i else xs ! k)"
  by (auto simp: list_swap_def nth_list_update)

text \<open>The parent of \<open>j\<close> is \<^verbatim>\<open>(j - 1) / 2\<close>, which is 0 at the root in Go and in HOL.\<close>

fun heap_up :: "('a \<Rightarrow> 'a \<Rightarrow> bool) \<Rightarrow> 'a list \<Rightarrow> nat \<Rightarrow> 'a list" where
  "heap_up lt xs j =
     (let i = (j - 1) div 2
      in if i = j \<or> \<not> lt (xs ! j) (xs ! i) then xs
         else heap_up lt (list_swap xs i j) i)"

declare heap_up.simps [simp del]

text \<open>The child \<^verbatim>\<open>down\<close> compares with: the right one only when it exists and is less.\<close>

definition heap_child :: "('a \<Rightarrow> 'a \<Rightarrow> bool) \<Rightarrow> 'a list \<Rightarrow> nat \<Rightarrow> nat \<Rightarrow> nat" where
  "heap_child lt xs i n =
     (let j1 = 2 * i + 1; j2 = j1 + 1
      in if j2 < n \<and> lt (xs ! j2) (xs ! j1) then j2 else j1)"

function heap_down :: "('a \<Rightarrow> 'a \<Rightarrow> bool) \<Rightarrow> 'a list \<Rightarrow> nat \<Rightarrow> nat \<Rightarrow> 'a list" where
  "heap_down lt xs i n =
     (if 2 * i + 1 \<ge> n then xs
      else let j = heap_child lt xs i n
           in if \<not> lt (xs ! j) (xs ! i) then xs
              else heap_down lt (list_swap xs i j) j n)"
  by pat_completeness auto
termination
  by (relation "measure (\<lambda>(lt, xs, i, n). n - i)") (auto simp: heap_child_def Let_def)

declare heap_down.simps [simp del]

definition heap_Push :: "('a \<Rightarrow> 'a \<Rightarrow> bool) \<Rightarrow> 'a \<Rightarrow> 'a list \<Rightarrow> 'a list" where
  "heap_Push lt x xs = heap_up lt (xs @ [x]) (length xs)"

text \<open>Popping an empty heap indexes out of range and panics: \<open>None\<close>.\<close>

definition heap_Pop :: "('a \<Rightarrow> 'a \<Rightarrow> bool) \<Rightarrow> 'a list \<Rightarrow> ('a \<times> 'a list) option" where
  "heap_Pop lt xs =
     (if xs = [] then None
      else let n = length xs - 1;
               ys = heap_down lt (list_swap xs 0 n) 0 n
           in Some (last ys, butlast ys))"

lemma heap_child_cases: "heap_child lt xs i n = 2 * i + 1 \<or> heap_child lt xs i n = 2 * i + 2"
  by (simp add: heap_child_def Let_def)

lemma heap_child_less: "2 * i + 1 < n \<Longrightarrow> heap_child lt xs i n < n"
  by (auto simp: heap_child_def Let_def)

section \<open>What holds for any comparison\<close>

lemma mset_heap_up [simp]: "j < length xs \<Longrightarrow> mset (heap_up lt xs j) = mset xs"
proof (induction lt xs j rule: heap_up.induct)
  case (1 lt xs j)
  then show ?case by (subst heap_up.simps) (auto simp: Let_def)
qed

lemma length_heap_up [simp]: "j < length xs \<Longrightarrow> length (heap_up lt xs j) = length xs"
  by (rule mset_eq_length) simp

text \<open>\<open>down\<close> with bound \<open>n\<close> permutes the first \<open>n\<close> entries and leaves the others alone.\<close>

lemma heap_down_frame:
  "n \<le> length xs \<Longrightarrow> i < n \<Longrightarrow>
   length (heap_down lt xs i n) = length xs \<and> mset (heap_down lt xs i n) = mset xs \<and>
   (\<forall>k. n \<le> k \<longrightarrow> k < length xs \<longrightarrow> heap_down lt xs i n ! k = xs ! k)"
proof (induction lt xs i n rule: heap_down.induct)
  case (1 lt xs i n)
  show ?case
  proof (cases "2 * i + 1 \<ge> n \<or> \<not> lt (xs ! heap_child lt xs i n) (xs ! i)")
    case True
    then show ?thesis by (subst heap_down.simps, subst heap_down.simps, subst heap_down.simps)
        (auto simp: Let_def)
  next
    case False
    let ?j = "heap_child lt xs i n"
    let ?ys = "list_swap xs i ?j"
    have j: "?j < n" using False by (simp add: heap_child_less)
    have eq: "heap_down lt xs i n = heap_down lt ?ys ?j n"
      using False by (subst heap_down.simps) (simp add: Let_def)
    have "length (heap_down lt ?ys ?j n) = length ?ys \<and> mset (heap_down lt ?ys ?j n) = mset ?ys \<and>
      (\<forall>k. n \<le> k \<longrightarrow> k < length ?ys \<longrightarrow> heap_down lt ?ys ?j n ! k = ?ys ! k)"
      by (rule "1.IH") (use False j 1 in auto)
    with j "1.prems" show ?thesis unfolding eq by (auto simp: nth_list_swap)
  qed
qed

lemmas heap_down_facts [simp] =
  heap_down_frame [THEN conjunct1]
  heap_down_frame [THEN conjunct2, THEN conjunct1]

lemma heap_Push_mset [simp]: "mset (heap_Push lt x xs) = add_mset x (mset xs)"
  by (simp add: heap_Push_def)

lemma heap_Push_length [simp]: "length (heap_Push lt x xs) = Suc (length xs)"
  by (simp add: heap_Push_def)

lemma heap_Push_Nil [simp]: "heap_Push lt x [] = [x]"
  by (simp add: heap_Push_def heap_up.simps)

lemma heap_Pop_empty [simp]: "heap_Pop lt [] = None"
  by (simp add: heap_Pop_def)

lemma heap_Pop_None_iff [simp]: "heap_Pop lt xs = None \<longleftrightarrow> xs = []"
  by (simp add: heap_Pop_def Let_def)

text \<open>A pop takes the first entry out, and returns the others.\<close>

lemma heap_Pop_SomeD:
  assumes "heap_Pop lt xs = Some (x, xs')"
  shows "x = xs ! 0" "mset xs = add_mset x (mset xs')" "length xs = Suc (length xs')"
proof -
  let ?n = "length xs - 1"
  let ?ys = "list_swap xs 0 ?n"
  let ?zs = "heap_down lt ?ys 0 ?n"
  from assms have ne: "xs \<noteq> []" by auto
  with assms have x: "x = last ?zs" and xs': "xs' = butlast ?zs"
    by (auto simp: heap_Pop_def Let_def)
  have fr: "length ?zs = length xs" "mset ?zs = mset xs" "?zs ! ?n = xs ! 0"
    using ne heap_down_frame [of ?n ?ys 0 lt]
    by (cases "?n = 0"; auto simp: heap_down.simps nth_list_swap)+
  have zne: "?zs \<noteq> []" using fr(1) ne by auto
  show "x = xs ! 0" using fr(1,3) zne by (simp add: x last_conv_nth)
  have "?zs = xs' @ [x]" using zne by (simp add: x xs')
  with fr(1,2) show "mset xs = add_mset x (mset xs')" "length xs = Suc (length xs')"
    by (metis mset.simps add_mset_add_single mset_append union_commute mset_single_iff_right, simp)
qed

section \<open>The heap order\<close>

definition heap_inv :: "('a \<Rightarrow> 'a \<Rightarrow> bool) \<Rightarrow> 'a list \<Rightarrow> nat \<Rightarrow> bool" where
  "heap_inv lt xs n \<longleftrightarrow> (\<forall>k. 0 < k \<and> k < n \<longrightarrow> \<not> lt (xs ! k) (xs ! ((k - 1) div 2)))"

text \<open>One defect, at \<open>j\<close>, which \<open>up\<close> repairs; one defect below \<open>i\<close>, which \<open>down\<close> repairs.\<close>

definition up_inv :: "('a \<Rightarrow> 'a \<Rightarrow> bool) \<Rightarrow> 'a list \<Rightarrow> nat \<Rightarrow> bool" where
  "up_inv lt xs j \<longleftrightarrow>
     (\<forall>k. 0 < k \<and> k < length xs \<and> k \<noteq> j \<longrightarrow> \<not> lt (xs ! k) (xs ! ((k - 1) div 2))) \<and>
     (\<forall>k. 0 < k \<and> k < length xs \<and> (k - 1) div 2 = j \<and> 0 < j \<longrightarrow>
        \<not> lt (xs ! k) (xs ! ((j - 1) div 2)))"

definition down_inv :: "('a \<Rightarrow> 'a \<Rightarrow> bool) \<Rightarrow> 'a list \<Rightarrow> nat \<Rightarrow> nat \<Rightarrow> bool" where
  "down_inv lt xs i n \<longleftrightarrow>
     (\<forall>k. 0 < k \<and> k < n \<and> (k - 1) div 2 \<noteq> i \<longrightarrow> \<not> lt (xs ! k) (xs ! ((k - 1) div 2))) \<and>
     (\<forall>k. 0 < k \<and> k < n \<and> (k - 1) div 2 = i \<and> 0 < i \<longrightarrow>
        \<not> lt (xs ! k) (xs ! ((i - 1) div 2)))"

lemma children_of: "0 < k \<Longrightarrow> (k - 1) div 2 = i \<longleftrightarrow> k = 2 * i + 1 \<or> k = 2 * i + (2::nat)"
  by presburger

lemma parent_less: "0 < k \<Longrightarrow> (k - 1) div 2 < (k::nat)"
  by presburger

lemma all_nth_swap:
  "list_all P xs \<Longrightarrow> i < length xs \<Longrightarrow> j < length xs \<Longrightarrow> list_all P (list_swap xs i j)"
  by (auto simp: list_all_length nth_list_swap)

locale heap_order =
  fixes lt :: "'a \<Rightarrow> 'a \<Rightarrow> bool"
    and S :: "'a \<Rightarrow> bool"
  assumes lt_irrefl: "S x \<Longrightarrow> \<not> lt x x"
    and lt_trans: "S x \<Longrightarrow> S y \<Longrightarrow> S z \<Longrightarrow> lt x y \<Longrightarrow> lt y z \<Longrightarrow> lt x z"
    and not_lt_trans: "S x \<Longrightarrow> S y \<Longrightarrow> S z \<Longrightarrow> \<not> lt x y \<Longrightarrow> \<not> lt y z \<Longrightarrow> \<not> lt x z"
begin

lemma lt_asym: "S x \<Longrightarrow> S y \<Longrightarrow> lt x y \<Longrightarrow> \<not> lt y x"
  using lt_irrefl lt_trans by blast

lemma all_S_nth: "list_all S xs \<Longrightarrow> k < length xs \<Longrightarrow> S (xs ! k)"
  by (simp add: list_all_length)

lemma up_inv_swap:
  assumes "list_all S xs" "j < length xs" "up_inv lt xs j"
    and i: "i = (j - 1) div 2" "i \<noteq> j" and lt: "lt (xs ! j) (xs ! i)"
  shows "up_inv lt (list_swap xs i j) i"
proof -
  let ?ys = "list_swap xs i j"
  have ij: "i < j" "0 < j" "i < length xs" using i assms(2) by auto
  note nth = nth_list_swap [OF ij(3) assms(2)]
  note sn = all_S_nth [OF assms(1)]
  have up1: "\<And>k. 0 < k \<Longrightarrow> k < length xs \<Longrightarrow> k \<noteq> j \<Longrightarrow> \<not> lt (xs ! k) (xs ! ((k - 1) div 2))"
    and up2: "\<And>k. 0 < k \<Longrightarrow> k < length xs \<Longrightarrow> (k - 1) div 2 = j \<Longrightarrow> \<not> lt (xs ! k) (xs ! i)"
    using assms(3) ij(2) i(1) by (auto simp: up_inv_def)
  have ji: "\<not> lt (xs ! i) (xs ! j)" using lt_asym lt sn ij assms(2) by blast
  have par: "\<And>k. 0 < k \<Longrightarrow> k < length xs \<Longrightarrow> (k - 1) div 2 < length xs" by auto
  have "\<not> lt (?ys ! k) (?ys ! ((k - 1) div 2))" if k: "0 < k" "k < length xs" "k \<noteq> i" for k
  proof (cases "k = j")
    case True
    then show ?thesis
      using ji ij assms(2) by (simp add: i(1) [symmetric] nth del: One_nat_def)
  next
    case False
    show ?thesis
      using up1 [OF k(1,2) False] up2 [OF k(1,2)] False k par [OF k(1,2)] ji
        not_lt_trans [of "xs ! k" "xs ! i" "xs ! j"] sn assms(2) ij
      by (auto simp: nth)
  qed
  moreover have "\<not> lt (?ys ! k) (?ys ! ((i - 1) div 2))"
    if k: "0 < k" "k < length xs" "(k - 1) div 2 = i" "0 < i" for k
  proof -
    let ?p = "(i - 1) div 2"
    have p: "?p < i" "?p < length xs" using k(4) ij by auto
    have ip: "\<not> lt (xs ! i) (xs ! ?p)" using up1 [of i] k(4) ij by auto
    have ki: "k \<noteq> i" using k(1,3,4) by auto
    have "k \<noteq> j \<Longrightarrow> \<not> lt (xs ! k) (xs ! ?p)"
      using up1 [OF k(1,2)] k(3) ip not_lt_trans [of "xs ! k" "xs ! i" "xs ! ?p"]
        sn [OF k(2)] sn [OF ij(3)] sn [OF p(2)] by auto
    then show ?thesis using p ip ki k(2) ij by (auto simp: nth)
  qed
  ultimately show ?thesis by (simp add: up_inv_def)
qed

lemma heap_up_heap:
  "list_all S xs \<Longrightarrow> j < length xs \<Longrightarrow> up_inv lt xs j \<Longrightarrow>
   heap_inv lt (heap_up lt xs j) (length xs)"
proof (induction j arbitrary: xs rule: less_induct)
  case (less j)
  let ?i = "(j - 1) div 2"
  show ?case
  proof (cases "?i = j \<or> \<not> lt (xs ! j) (xs ! ?i)")
    case True
    then have "heap_up lt xs j = xs" by (simp add: heap_up.simps Let_def)
    with True less.prems(3) show ?thesis
      by (cases "j = 0") (auto simp: heap_inv_def up_inv_def)
  next
    case False
    then have i: "?i < j" "?i < length xs" using less.prems(2) by auto
    have "heap_inv lt (heap_up lt (list_swap xs ?i j) ?i) (length (list_swap xs ?i j))"
    proof (rule less.IH [OF i(1)])
      show "up_inv lt (list_swap xs ?i j) ?i"
        by (rule up_inv_swap) (use less.prems False in auto)
    qed (use i less.prems in \<open>auto intro: all_nth_swap\<close>)
    moreover have "heap_up lt xs j = heap_up lt (list_swap xs ?i j) ?i"
      using False by (subst heap_up.simps) (simp add: Let_def)
    ultimately show ?thesis by simp
  qed
qed

lemma heap_child_min:
  assumes "list_all S xs" "n \<le> length xs" "2 * i + 1 < n"
    and "0 < k" "k < n" "(k - 1) div 2 = i"
  shows "\<not> lt (xs ! k) (xs ! heap_child lt xs i n)"
proof -
  have k: "k = 2 * i + 1 \<or> k = 2 * i + 2"
    using children_of [OF assms(4)] assms(6) by blast
  have S: "S (xs ! (2 * i + 1))" "S (xs ! k)" using all_S_nth assms by auto
  have asym: "lt (xs ! (2 * i + 2)) (xs ! (2 * i + 1)) \<Longrightarrow>
      \<not> lt (xs ! (2 * i + 1)) (xs ! (2 * i + 2))" if "2 * i + 2 < n"
    using lt_asym [OF all_S_nth [OF assms(1)] S(1), of "2 * i + 2"] assms(2) that by simp
  show ?thesis
  proof (cases "2 * i + 2 < n \<and> lt (xs ! (2 * i + 2)) (xs ! (2 * i + 1))")
    case True
    then have "heap_child lt xs i n = 2 * i + 2" by (simp add: heap_child_def Let_def)
    then show ?thesis using k True asym lt_irrefl [OF S(2)] by metis
  next
    case False
    then have "heap_child lt xs i n = 2 * i + 1" by (auto simp: heap_child_def Let_def)
    then show ?thesis using k False assms(5) lt_irrefl [OF S(1)] by metis
  qed
qed

lemma down_inv_swap:
  assumes S: "list_all S xs" and n: "n \<le> length xs" "2 * i + 1 < n" and inv: "down_inv lt xs i n"
    and j: "j = heap_child lt xs i n" and lt: "lt (xs ! j) (xs ! i)"
  shows "down_inv lt (list_swap xs i j) j n"
proof -
  let ?ys = "list_swap xs i j"
  have jc: "j = 2 * i + 1 \<or> j = 2 * i + 2" using heap_child_cases j by metis
  have jn: "j < n" using heap_child_less n(2) j by metis
  have pj: "(j - 1) div 2 = i" "0 < j" "i < j" using jc by auto
  have len: "i < length xs" "j < length xs" using jn n pj by auto
  note nth = nth_list_swap [OF len]
  note sn = all_S_nth [OF S]
  have d1: "\<And>k. 0 < k \<Longrightarrow> k < n \<Longrightarrow> (k - 1) div 2 \<noteq> i \<Longrightarrow> \<not> lt (xs ! k) (xs ! ((k - 1) div 2))"
    and d2: "\<And>k. 0 < k \<Longrightarrow> k < n \<Longrightarrow> (k - 1) div 2 = i \<Longrightarrow> 0 < i \<Longrightarrow> \<not> lt (xs ! k) (xs ! ((i - 1) div 2))"
    using inv by (auto simp: down_inv_def)
  have min: "\<And>k. 0 < k \<Longrightarrow> k < n \<Longrightarrow> (k - 1) div 2 = i \<Longrightarrow> \<not> lt (xs ! k) (xs ! j)"
    using heap_child_min [OF S n] j by blast
  have ij: "\<not> lt (xs ! i) (xs ! j)" using lt_asym lt sn len by blast
  have "\<not> lt (?ys ! k) (?ys ! ((k - 1) div 2))" if k: "0 < k" "k < n" "(k - 1) div 2 \<noteq> j" for k
  proof -
    have kl: "k < length xs" "(k - 1) div 2 < length xs" using k n by auto
    consider "k = j" | "k \<noteq> j" "(k - 1) div 2 = i" | "k = i" | "k \<noteq> i" "k \<noteq> j" "(k - 1) div 2 \<noteq> i"
      by blast
    then show ?thesis
    proof cases
      case 1
      then show ?thesis using ij pj len by (simp add: nth)
    next
      case 2
      then have "k \<noteq> i" using k(1) by auto
      with 2 show ?thesis using min [OF k(1,2)] kl len by (simp add: nth)
    next
      case 3
      have "\<not> lt (xs ! j) (xs ! ((i - 1) div 2))" using d2 [OF pj(2) jn pj(1)] k(1) 3 by simp
      moreover have "(i - 1) div 2 \<noteq> i" "(i - 1) div 2 \<noteq> j" using k(1) 3 pj(3) by auto
      ultimately show ?thesis using 3 kl len pj(3) by (simp add: nth)
    next
      case 4
      then show ?thesis using d1 [OF k(1,2)] k(3) kl by (simp add: nth)
    qed
  qed
  moreover have "\<not> lt (?ys ! k) (?ys ! ((j - 1) div 2))"
    if k: "0 < k" "k < n" "(k - 1) div 2 = j" for k
  proof -
    have "k \<noteq> j" "k \<noteq> i" "(k - 1) div 2 \<noteq> i" using k pj by auto
    then show ?thesis using d1 [OF k(1,2)] k n len pj by (simp add: nth)
  qed
  ultimately show ?thesis by (simp add: down_inv_def)
qed

lemma heap_down_heap:
  "list_all S xs \<Longrightarrow> n \<le> length xs \<Longrightarrow> i < n \<Longrightarrow> down_inv lt xs i n \<Longrightarrow>
   heap_inv lt (heap_down lt xs i n) n"
proof (induction "n - i" arbitrary: xs i rule: less_induct)
  case less
  let ?j = "heap_child lt xs i n"
  consider "n \<le> 2 * i + 1" | "2 * i + 1 < n" "\<not> lt (xs ! ?j) (xs ! i)"
    | "2 * i + 1 < n" "lt (xs ! ?j) (xs ! i)" by fastforce
  then show ?case
  proof cases
    case 1
    then have "heap_down lt xs i n = xs" by (simp add: heap_down.simps)
    moreover have "k < n \<Longrightarrow> 0 < k \<Longrightarrow> (k - 1) div 2 \<noteq> i" for k using 1 by auto
    ultimately show ?thesis using less.prems(4) by (simp add: heap_inv_def down_inv_def)
  next
    case 2
    then have "heap_down lt xs i n = xs" by (simp add: heap_down.simps Let_def)
    moreover have "\<not> lt (xs ! k) (xs ! i)" if "0 < k" "k < n" "(k - 1) div 2 = i" for k
      using heap_child_min [OF less.prems(1,2) 2(1) that] 2 not_lt_trans [of "xs ! k" "xs ! ?j" "xs ! i"]
        all_S_nth [OF less.prems(1)] heap_child_less [OF 2(1), of lt xs] less.prems(2,3) that
      by auto
    ultimately show ?thesis using less.prems(4) by (auto simp: heap_inv_def down_inv_def)
  next
    case 3
    have j: "?j < n" "i < ?j"
      using heap_child_less [OF 3(1)] heap_child_cases [of lt xs i n] by auto
    have "heap_inv lt (heap_down lt (list_swap xs i ?j) ?j n) n"
    proof (rule less.hyps)
      show "down_inv lt (list_swap xs i ?j) ?j n"
        by (rule down_inv_swap) (use less.prems 3 in auto)
    qed (use j less.prems in \<open>auto intro: all_nth_swap\<close>)
    moreover have "heap_down lt xs i n = heap_down lt (list_swap xs i ?j) ?j n"
      using 3 by (subst heap_down.simps) (simp add: Let_def)
    ultimately show ?thesis by simp
  qed
qed

lemma heap_Push_heap:
  assumes "list_all S xs" "S x" "heap_inv lt xs (length xs)"
  shows "heap_inv lt (heap_Push lt x xs) (Suc (length xs))"
proof -
  have "\<not> lt ((xs @ [x]) ! k) ((xs @ [x]) ! ((k - 1) div 2))" if "0 < k" "k < length xs" for k
    using assms(3) that parent_less [OF that(1)] by (simp add: heap_inv_def nth_append)
  moreover have "(k - 1) div 2 \<noteq> length xs" if "0 < k" "k < Suc (length xs)" for k
    using parent_less [OF that(1)] that(2) by simp
  ultimately have "up_inv lt (xs @ [x]) (length xs)"
    by (auto simp: up_inv_def)
  then show ?thesis
    using heap_up_heap [of "xs @ [x]" "length xs"] assms(1,2) by (simp add: heap_Push_def)
qed

lemma heap_root_min:
  assumes "list_all S xs" "heap_inv lt xs (length xs)" "k < length xs"
  shows "\<not> lt (xs ! k) (xs ! 0)"
  using assms(3)
proof (induction k rule: less_induct)
  case (less k)
  show ?case
  proof (cases "k = 0")
    case True
    then show ?thesis using lt_irrefl all_S_nth [OF assms(1) less.prems] by simp
  next
    case False
    let ?p = "(k - 1) div 2"
    have p: "?p < k" "?p < length xs" "0 < length xs" using False less.prems by auto
    have "\<not> lt (xs ! ?p) (xs ! 0)" by (rule less.IH [OF p(1,2)])
    moreover have "\<not> lt (xs ! k) (xs ! ?p)"
      using assms(2) False less.prems by (simp add: heap_inv_def)
    ultimately show ?thesis
      using not_lt_trans all_S_nth [OF assms(1)] less.prems p(2,3) by blast
  qed
qed

lemma heap_Pop_min:
  assumes "list_all S xs" "heap_inv lt xs (length xs)" "heap_Pop lt xs = Some (x, xs')"
  shows "\<forall>y\<in>set xs. \<not> lt y x"
  using heap_root_min [OF assms(1,2)] heap_Pop_SomeD(1) [OF assms(3)]
  by (auto simp: in_set_conv_nth)

lemma heap_Pop_heap:
  assumes S: "list_all S xs" and h: "heap_inv lt xs (length xs)"
    and pop: "heap_Pop lt xs = Some (x, xs')"
  shows "heap_inv lt xs' (length xs')"
proof -
  let ?n = "length xs - 1"
  let ?ys = "list_swap xs 0 ?n"
  let ?zs = "heap_down lt ?ys 0 ?n"
  have ne: "xs \<noteq> []" using pop by auto
  have xs': "xs' = butlast ?zs" and len: "length xs' = ?n"
    using pop ne heap_Pop_SomeD(3) [OF pop] by (auto simp: heap_Pop_def Let_def)
  show ?thesis
  proof (cases "?n = 0")
    case True
    then show ?thesis using len by (simp add: heap_inv_def)
  next
    case False
    have "\<not> lt (?ys ! k) (?ys ! ((k - 1) div 2))" if "0 < k" "k < ?n" "(k - 1) div 2 \<noteq> 0" for k
      using h that parent_less [OF that(1)] ne by (auto simp: heap_inv_def nth_list_swap)
    then have "down_inv lt ?ys 0 ?n" by (simp add: down_inv_def)
    then have "heap_inv lt ?zs ?n"
      using heap_down_heap [of ?ys ?n 0] S False ne by (simp add: all_nth_swap)
    moreover have "length ?zs = length xs" using False heap_down_frame [of ?n ?ys 0 lt] by simp
    ultimately show ?thesis by (auto simp: heap_inv_def xs' len nth_butlast)
  qed
qed

end

end
