(* ===== verification/Smux_Frame.thy ===== *)
theory Smux_Frame
  imports Prelude
begin

text \<open>
  The wire format of \<^verbatim>\<open>smux/frame.go\<close> and the encoder of \<^verbatim>\<open>sendLoop\<close> in \<^verbatim>\<open>smux/session.go\<close>:
  an 8-byte little-endian header (version, command, length, stream id) followed by the data.
  \<open>dec_frame\<close> states what a peer reads off the wire with the header accessors; the receive
  loop itself is in \<^verbatim>\<open>Smux_Session\<close>.
\<close>

section \<open>Commands and sizes\<close>

definition cmdSYN :: byte where "cmdSYN = 0"
definition cmdFIN :: byte where "cmdFIN = 1"
definition cmdPSH :: byte where "cmdPSH = 2"
definition cmdNOP :: byte where "cmdNOP = 3"
definition cmdUPD :: byte where "cmdUPD = 4"

lemmas cmd_defs = cmdSYN_def cmdFIN_def cmdPSH_def cmdNOP_def cmdUPD_def

lemma cmd_distinct [simp]:
  "cmdSYN \<noteq> cmdFIN" "cmdSYN \<noteq> cmdPSH" "cmdSYN \<noteq> cmdNOP" "cmdSYN \<noteq> cmdUPD"
  "cmdFIN \<noteq> cmdSYN" "cmdFIN \<noteq> cmdPSH" "cmdFIN \<noteq> cmdNOP" "cmdFIN \<noteq> cmdUPD"
  "cmdPSH \<noteq> cmdSYN" "cmdPSH \<noteq> cmdFIN" "cmdPSH \<noteq> cmdNOP" "cmdPSH \<noteq> cmdUPD"
  "cmdNOP \<noteq> cmdSYN" "cmdNOP \<noteq> cmdFIN" "cmdNOP \<noteq> cmdPSH" "cmdNOP \<noteq> cmdUPD"
  "cmdUPD \<noteq> cmdSYN" "cmdUPD \<noteq> cmdFIN" "cmdUPD \<noteq> cmdPSH" "cmdUPD \<noteq> cmdNOP"
  by (simp_all add: cmd_defs)

definition szCmdUPD :: nat where "szCmdUPD = 8"
definition initialPeerWindow :: u32 where "initialPeerWindow = 262144"
definition headerSize :: nat where "headerSize = 1 + 1 + 4 + 2"

lemma headerSize_eq [simp]: "headerSize = 8" by (simp add: headerSize_def)
lemma szCmdUPD_eq [simp]: "szCmdUPD = 8" by (simp add: szCmdUPD_def)

section \<open>Frames and headers\<close>

record frame =
  fver :: byte
  fcmd :: byte
  fsid :: u32
  fdata :: bytes

definition newFrame :: "byte \<Rightarrow> byte \<Rightarrow> u32 \<Rightarrow> frame" where
  "newFrame version cmd sid = \<lparr>fver = version, fcmd = cmd, fsid = sid, fdata = []\<rparr>"

text \<open>The accessors of \<^verbatim>\<open>rawHeader\<close> and \<^verbatim>\<open>updHeader\<close>; both are 8-byte arrays.\<close>

definition hdr_Version :: "bytes \<Rightarrow> byte" where "hdr_Version h = h ! 0"
definition hdr_Cmd :: "bytes \<Rightarrow> byte" where "hdr_Cmd h = h ! 1"
definition hdr_Length :: "bytes \<Rightarrow> u16" where "hdr_Length h = Uint16 (drop 2 h)"
definition hdr_StreamID :: "bytes \<Rightarrow> u32" where "hdr_StreamID h = Uint32 (drop 4 h)"
definition upd_Consumed :: "bytes \<Rightarrow> u32" where "upd_Consumed h = Uint32 h"
definition upd_Window :: "bytes \<Rightarrow> u32" where "upd_Window h = Uint32 (drop 4 h)"

lemmas hdr_defs = hdr_Version_def hdr_Cmd_def hdr_Length_def hdr_StreamID_def

section \<open>The encoder of sendLoop\<close>

text \<open>
  The header goes into the first 8 bytes of the send buffer; the length field is
  \<^verbatim>\<open>uint16(len(data))\<close>, so it wraps. Without \<^verbatim>\<open>WriteBuffers\<close> the data is copied into a buffer
  of \<open>2 ^ 16 + 8\<close> bytes and \<^verbatim>\<open>buf[:headerSize+len]\<close> panics beyond it: \<open>None\<close>.
\<close>

definition frame_header :: "frame \<Rightarrow> bytes" where
  "frame_header f =
     [fver f, fcmd f] @ PutUint16 (of_nat (length (fdata f))) @ PutUint32 (fsid f)"

definition frame_wire :: "bool \<Rightarrow> frame \<Rightarrow> bytes option" where
  "frame_wire has_writebuffers f =
     (if has_writebuffers \<or> length (fdata f) \<le> 2 ^ 16
      then Some (frame_header f @ fdata f) else None)"

text \<open>The 8 data bytes \<^verbatim>\<open>sendWindowUpdate\<close> puts into a \<^verbatim>\<open>cmdUPD\<close> frame.\<close>

definition upd_data :: "u32 \<Rightarrow> u32 \<Rightarrow> bytes" where
  "upd_data consumed window = PutUint32 consumed @ PutUint32 window"

lemma length_frame_header [simp]: "length (frame_header f) = 8"
  by (simp add: frame_header_def)

lemma length_upd_data [simp]: "length (upd_data c w) = 8"
  by (simp add: upd_data_def)

lemma hdr_frame_header [simp]:
  "hdr_Version (frame_header f) = fver f"
  "hdr_Cmd (frame_header f) = fcmd f"
  "hdr_Length (frame_header f) = of_nat (length (fdata f))"
  "hdr_StreamID (frame_header f) = fsid f"
proof -
  have "drop 4 (frame_header f) = PutUint32 (fsid f)"
    by (simp add: frame_header_def PutUint16_def)
  then show "hdr_StreamID (frame_header f) = fsid f"
    by (simp add: hdr_defs)
qed (simp_all add: frame_header_def hdr_defs)

lemma upd_upd_data [simp]:
  "upd_Consumed (upd_data c w) = c" "upd_Window (upd_data c w) = w"
proof -
  have "drop 4 (upd_data c w) = PutUint32 w" by (simp add: upd_data_def)
  then show "upd_Window (upd_data c w) = w" by (simp add: upd_Window_def)
qed (simp add: upd_Consumed_def upd_data_def)

section \<open>Reading frames off the wire\<close>

text \<open>
  What follows the header: \<^verbatim>\<open>Length()\<close> bytes of a \<^verbatim>\<open>cmdPSH\<close>, the 8 bytes of a \<^verbatim>\<open>cmdUPD\<close>,
  nothing for the other commands, whatever their length field says.
\<close>

definition body_len :: "bytes \<Rightarrow> nat" where
  "body_len h =
     (if hdr_Cmd h = cmdPSH then unat (hdr_Length h)
      else if hdr_Cmd h = cmdUPD then szCmdUPD else 0)"

definition dec_frame :: "bytes \<Rightarrow> (frame \<times> bytes) option" where
  "dec_frame bs =
     (let h = take headerSize bs; r = drop headerSize bs; n = body_len h
      in if length bs < headerSize \<or> length r < n then None
         else Some (\<lparr>fver = hdr_Version h, fcmd = hdr_Cmd h, fsid = hdr_StreamID h,
                     fdata = take n r\<rparr>, drop n r))"

text \<open>The frames the two ends exchange: data only where the receive loop takes it.\<close>

definition frame_ok :: "frame \<Rightarrow> bool" where
  "frame_ok f \<longleftrightarrow>
     (if fcmd f = cmdPSH then length (fdata f) < 2 ^ 16
      else if fcmd f = cmdUPD then length (fdata f) = szCmdUPD
      else fdata f = [])"

definition enc_frame :: "frame \<Rightarrow> bytes" where
  "enc_frame f = frame_header f @ fdata f"

lemma frame_wire_enc: "frame_ok f \<Longrightarrow> frame_wire b f = Some (enc_frame f)"
  by (auto simp: frame_wire_def enc_frame_def frame_ok_def split: if_splits)

lemma body_len_header: "frame_ok f \<Longrightarrow> body_len (frame_header f) = length (fdata f)"
  by (auto simp: body_len_def frame_ok_def unat_of_nat split: if_splits)

interpretation frame_codec: codec enc_frame dec_frame frame_ok
proof
  fix f rest
  assume "frame_ok f"
  then show "dec_frame (enc_frame f @ rest) = Some (f, rest)"
    by (simp add: dec_frame_def enc_frame_def body_len_header)
qed

section \<open>Properties\<close>

text \<open>
  C7: what \<^verbatim>\<open>sendLoop\<close> writes for a sequence of well-formed frames (data of a push shorter
  than 64K, 8 bytes in a window update, no data otherwise), on a connection with or without
  \<^verbatim>\<open>WriteBuffers\<close>, is read back by the header accessors as exactly these frames, with whatever
  follows on the connection left untouched.
\<close>

theorem frames_roundtrip:
  assumes "list_all frame_ok fs"
  shows "\<exists>ws. map (frame_wire wb) fs = map Some ws \<and>
     decode_all dec_frame (length fs) (concat ws @ rest) = (fs, rest)"
proof -
  have "map (frame_wire wb) fs = map Some (map enc_frame fs)"
    using assms by (simp add: list_all_iff frame_wire_enc)
  then show ?thesis using frame_codec.decode_all_concat [OF assms, of rest] by blast
qed

theorem frames_roundtrip_witness:
  "\<exists>ws. map (frame_wire False) [newFrame 1 cmdSYN 3, (newFrame 1 cmdPSH 3)\<lparr>fdata := [7, 8]\<rparr>]
     = map Some ws \<and>
   decode_all dec_frame 2 (concat ws @ [9]) =
     ([newFrame 1 cmdSYN 3, (newFrame 1 cmdPSH 3)\<lparr>fdata := [7, 8]\<rparr>], [9])"
proof -
  let ?fs = "[newFrame 1 cmdSYN 3, (newFrame 1 cmdPSH 3)\<lparr>fdata := [7, 8]\<rparr>]"
  have "list_all frame_ok ?fs" by (simp add: newFrame_def frame_ok_def)
  from frames_roundtrip [OF this, of False "[9]"] show ?thesis
    by (simp only: list.size(3,4) plus_1_eq_Suc One_nat_def numeral_2_eq_2 add_0 add_Suc)
qed

end
