(* ===== verification/Smux_Shaper.thy ===== *)
theory Smux_Shaper
  imports Go_Heap Smux_Frame
begin

text \<open>
  The write shaper: the order \<^verbatim>\<open>shaperHeap.Less\<close> of \<^verbatim>\<open>smux/shaper.go\<close> and the loop
  \<^verbatim>\<open>shaperLoop\<close> of \<^verbatim>\<open>smux/session.go\<close>, which takes write requests from any number of
  goroutines and hands them one by one to \<^verbatim>\<open>sendLoop\<close>. The channel on which a request's
  result comes back is not part of the order and is left out of the request.
\<close>

section \<open>Requests and their order\<close>

datatype classid = CLSCTRL | CLSDATA

text \<open>The classes are numbers in the source, control before data.\<close>

definition class_before :: "classid \<Rightarrow> classid \<Rightarrow> bool" where
  "class_before a b \<longleftrightarrow> a = CLSCTRL \<and> b = CLSDATA"

instantiation classid :: linorder
begin

definition less_classid :: "classid \<Rightarrow> classid \<Rightarrow> bool" where
  "less_classid = class_before"

definition less_eq_classid :: "classid \<Rightarrow> classid \<Rightarrow> bool" where
  "less_eq_classid a b \<longleftrightarrow> a = b \<or> a < b"

instance
  by standard (auto simp: less_classid_def class_before_def less_eq_classid_def, (metis classid.exhaust)+)

end

lemma class_before_less [simp]: "class_before a b \<longleftrightarrow> a < b"
  by (simp add: less_classid_def)

record writeRequest =
  wclass :: classid
  wframe :: frame
  wseq :: u32

definition itimediff :: "u32 \<Rightarrow> u32 \<Rightarrow> int" where
  "itimediff later earlier = sint (later - earlier)"

definition shaper_Less :: "writeRequest \<Rightarrow> writeRequest \<Rightarrow> bool" where
  "shaper_Less a b =
     (if wclass a \<noteq> wclass b then class_before (wclass a) (wclass b)
      else itimediff (wseq b) (wseq a) > 0)"

text \<open>
  Sequence numbers wrap. Counted from \<open>b\<close>, the requests of a window of \<open>2 ^ 31\<close> numbers are
  compared as their offsets.
\<close>

definition req_off :: "u32 \<Rightarrow> writeRequest \<Rightarrow> nat" where
  "req_off b r = unat (wseq r - b)"

definition in_window :: "u32 \<Rightarrow> writeRequest \<Rightarrow> bool" where
  "in_window b r \<longleftrightarrow> req_off b r < 2 ^ 31"

lemma sint_diff_small:
  assumes "unat x < 2 ^ 31" "unat y < 2 ^ 31"
  shows "sint (y - x :: u32) = int (unat y) - int (unat x)"
proof -
  have "y - x = word_of_int (int (unat y) - int (unat x))"
    by (simp add: uint_nat [symmetric])
  then have "sint (y - x) = sint (word_of_int (int (unat y) - int (unat x)) :: u32)"
    by (rule arg_cong)
  also have "\<dots> = signed_take_bit 31 (int (unat y) - int (unat x))"
    by (simp only: sint_sbintrunc') simp
  also have "\<dots> = int (unat y) - int (unat x)"
  proof -
    have "- (2 ^ 31) \<le> int n - int m \<and> int n - int m < 2 ^ 31"
      if "m < 2 ^ 31" "n < 2 ^ 31" for m n :: nat
      using that by simp
    from this [OF assms] show ?thesis by (intro signed_take_bit_int_eq_self) simp_all
  qed
  finally show ?thesis .
qed

lemma itimediff_window:
  assumes "in_window b r" "in_window b q"
  shows "itimediff (wseq q) (wseq r) > 0 \<longleftrightarrow> req_off b r < req_off b q"
proof -
  have "itimediff (wseq q) (wseq r) = sint ((wseq q - b) - (wseq r - b))"
    by (simp add: itimediff_def)
  also have "\<dots> = int (req_off b q) - int (req_off b r)"
    unfolding req_off_def
    by (rule sint_diff_small) (use assms in \<open>simp_all only: in_window_def req_off_def\<close>)
  finally show ?thesis by linarith
qed

text \<open>Inside a window \<^verbatim>\<open>Less\<close> is lexicographic: control before data, then by number.\<close>

lemma shaper_Less_window:
  "in_window b r \<Longrightarrow> in_window b q \<Longrightarrow>
   shaper_Less r q \<longleftrightarrow> wclass r < wclass q \<or> wclass r = wclass q \<and> req_off b r < req_off b q"
  by (auto simp: shaper_Less_def itimediff_window)

interpretation shp: heap_order shaper_Less "in_window b" for b
  by standard (auto simp: shaper_Less_window)

section \<open>shaperLoop\<close>

definition maxShaperSize :: nat where "maxShaperSize = 1024"

datatype sh_status = ShRunning | ShReturned | ShPanicked

text \<open>
  The heap at the top of the loop, and, for what follows, the requests taken from \<^verbatim>\<open>s.shaper\<close> and
  those handed to \<^verbatim>\<open>s.writes\<close> so far. A request popped into \<^verbatim>\<open>next\<close> is handed over or pushed
  back before the loop comes round.
\<close>

record shaper =
  sh_reqs :: "writeRequest list"
  sh_in :: "writeRequest list"
  sh_out :: "writeRequest list"
  sh_status :: sh_status

definition shaper_init :: shaper where
  "shaper_init = \<lparr>sh_reqs = [], sh_in = [], sh_out = [], sh_status = ShRunning\<rparr>"

text \<open>Which case of the \<^verbatim>\<open>select\<close> fires; a case that is not ready leaves the loop where it is.\<close>

datatype sh_event = ShDie | ShReq writeRequest | ShWrite

definition shaper_step :: "shaper \<Rightarrow> sh_event \<Rightarrow> shaper" where
  "shaper_step s ev =
     (if sh_status s \<noteq> ShRunning then s
      else let (next, reqs) = (case heap_Pop shaper_Less (sh_reqs s) of
                                 Some (x, xs) \<Rightarrow> (Some x, xs) | None \<Rightarrow> (None, sh_reqs s));
               chShaper = (length reqs < maxShaperSize)
           in if \<not> chShaper \<and> next = None then s\<lparr>sh_status := ShPanicked\<rparr>
              else case ev of
                ShDie \<Rightarrow> s\<lparr>sh_status := ShReturned\<rparr>
              | ShReq r \<Rightarrow>
                  if \<not> chShaper then s
                  else let reqs1 = (case next of Some x \<Rightarrow> heap_Push shaper_Less x reqs | None \<Rightarrow> reqs)
                       in s\<lparr>sh_reqs := heap_Push shaper_Less r reqs1, sh_in := sh_in s @ [r]\<rparr>
              | ShWrite \<Rightarrow>
                  (case next of
                     None \<Rightarrow> s
                   | Some x \<Rightarrow> s\<lparr>sh_reqs := reqs, sh_out := sh_out s @ [x]\<rparr>))"

section \<open>Bound and conservation\<close>

definition shaper_inv :: "shaper \<Rightarrow> bool" where
  "shaper_inv s \<longleftrightarrow> length (sh_reqs s) \<le> maxShaperSize + 1 \<and> sh_status s \<noteq> ShPanicked \<and>
     mset (sh_in s) = mset (sh_out s) + mset (sh_reqs s)"

lemma shaper_step_inv:
  assumes "shaper_inv s" shows "shaper_inv (shaper_step s ev)"
proof (cases "heap_Pop shaper_Less (sh_reqs s)")
  case None
  with assms show ?thesis
    by (cases ev) (auto simp: shaper_inv_def shaper_step_def maxShaperSize_def)
next
  case (Some p)
  obtain x xs where "p = (x, xs)" by fastforce
  with Some have pop: "heap_Pop shaper_Less (sh_reqs s) = Some (x, xs)" by simp
  note d = heap_Pop_SomeD(2,3) [OF pop]
  with assms pop show ?thesis
    by (cases ev) (auto simp: shaper_inv_def shaper_step_def Let_def)
qed

interpretation shaper: inv_machine shaper_step shaper_inv
  by standard (rule shaper_step_inv)

lemma shaper_init_inv: "shaper_inv shaper_init"
  by (simp add: shaper_inv_def shaper_init_def)

section \<open>Order\<close>

text \<open>
  The heap order holds for \<^verbatim>\<open>Less\<close> itself. \<^verbatim>\<open>Less\<close> is an order on requests whose numbers lie in
  some window of \<open>2 ^ 31\<close> numbers; the window may move on from step to step.
\<close>

definition sh_heap :: "shaper \<Rightarrow> bool" where
  "sh_heap s \<longleftrightarrow> heap_inv shaper_Less (sh_reqs s) (length (sh_reqs s))"

definition one_window :: "writeRequest list \<Rightarrow> bool" where
  "one_window rs \<longleftrightarrow> (\<exists>b. list_all (in_window b) rs)"

text \<open>
  In a run the numbers of the requests that wait, and of the one that is offered, lie in one
  window at each step.
\<close>

fun windowed :: "shaper \<Rightarrow> sh_event list \<Rightarrow> bool" where
  "windowed s [] = True"
| "windowed s (e # es) =
     (one_window (sh_reqs s @ (case e of ShReq r \<Rightarrow> [r] | _ \<Rightarrow> [])) \<and> windowed (shaper_step s e) es)"

lemma windowed_append [simp]:
  "windowed s (es @ fs) \<longleftrightarrow> windowed s es \<and> windowed (foldl shaper_step s es) fs"
  by (induction es arbitrary: s) auto

lemma mset_eq_set: "mset xs = mset ys \<Longrightarrow> set xs = set ys"
  by (rule mset_eq_setD)

lemma set_heap_Push [simp]: "set (heap_Push shaper_Less y ys) = insert y (set ys)"
  using mset_eq_set [of "heap_Push shaper_Less y ys" "y # ys"] by simp

lemma heap_Pop_set:
  "heap_Pop shaper_Less ys = Some (x, xs) \<Longrightarrow> set ys = insert x (set xs)"
  using mset_eq_set [of ys "x # xs"] heap_Pop_SomeD(2) by fastforce

lemma sh_pop_push:
  assumes "list_all (in_window b) (sh_reqs s)" "in_window b r"
    and "heap_inv shaper_Less (sh_reqs s) (length (sh_reqs s))"
  defines "t \<equiv> shaper_step s (ShReq r)"
  assumes "sh_reqs t \<noteq> sh_reqs s"
  shows "heap_inv shaper_Less (sh_reqs t) (length (sh_reqs t))"
    and "mset (sh_reqs t) = add_mset r (mset (sh_reqs s))" and "sh_out t = sh_out s"
proof -
  have "heap_inv shaper_Less (sh_reqs t) (length (sh_reqs t)) \<and>
    mset (sh_reqs t) = add_mset r (mset (sh_reqs s)) \<and> sh_out t = sh_out s"
  proof (cases "heap_Pop shaper_Less (sh_reqs s)")
    case None
    then show ?thesis
      using assms shp.heap_Push_heap [of b "sh_reqs s" r]
      by (auto simp: t_def shaper_step_def Let_def split: if_splits)
  next
    case (Some p)
    obtain x xs where "p = (x, xs)" by fastforce
    with Some have pop: "heap_Pop shaper_Less (sh_reqs s) = Some (x, xs)" by simp
    note m = heap_Pop_SomeD(2) [OF pop]
    have S: "list_all (in_window b) xs" "in_window b x"
      using assms(1) mset_eq_set [of "sh_reqs s" "x # xs"] m by (auto simp: list_all_iff)
    have h: "heap_inv shaper_Less xs (length xs)"
      by (rule shp.heap_Pop_heap [OF assms(1,3) pop])
    have h1: "heap_inv shaper_Less (heap_Push shaper_Less x xs) (Suc (length xs))"
      by (rule shp.heap_Push_heap [OF S h])
    have "list_all (in_window b) (heap_Push shaper_Less x xs)"
      using S mset_eq_set [of "heap_Push shaper_Less x xs" "x # xs"] by (auto simp: list_all_iff)
    from shp.heap_Push_heap [OF this assms(2)] h1
    have "heap_inv shaper_Less (heap_Push shaper_Less r (heap_Push shaper_Less x xs))
            (Suc (Suc (length xs)))" by simp
    then show ?thesis
      using pop assms(5) m
      by (auto simp: t_def shaper_step_def Let_def split: if_splits)
  qed
  then show "heap_inv shaper_Less (sh_reqs t) (length (sh_reqs t))"
    "mset (sh_reqs t) = add_mset r (mset (sh_reqs s))" "sh_out t = sh_out s" by blast+
qed

lemma sh_heap_req:
  assumes "sh_heap s" "one_window (sh_reqs s @ [r])"
  shows "sh_heap (shaper_step s (ShReq r))"
proof (cases "sh_reqs (shaper_step s (ShReq r)) = sh_reqs s")
  case False
  from assms(2) obtain b where "list_all (in_window b) (sh_reqs s)" "in_window b r"
    by (auto simp: one_window_def)
  from sh_pop_push(1) [OF this _ False] assms(1) show ?thesis by (simp add: sh_heap_def)
qed (use assms(1) in \<open>simp add: sh_heap_def\<close>)

lemma shaper_write_cases:
  obtains "sh_reqs (shaper_step s ShWrite) = sh_reqs s" "sh_out (shaper_step s ShWrite) = sh_out s"
  | x xs where "sh_status s = ShRunning" "heap_Pop shaper_Less (sh_reqs s) = Some (x, xs)"
    "shaper_step s ShWrite = s\<lparr>sh_reqs := xs, sh_out := sh_out s @ [x]\<rparr>"
proof (cases "sh_status s = ShRunning")
  case False
  then show ?thesis using that(1) by (simp add: shaper_step_def)
next
  case True
  show ?thesis
  proof (cases "heap_Pop shaper_Less (sh_reqs s)")
    case None
    then show ?thesis using that(1) by (auto simp: shaper_step_def Let_def)
  next
    case (Some p)
    with True show ?thesis
      using that(2) [of "fst p" "snd p"] by (cases p) (simp add: shaper_step_def Let_def)
  qed
qed

text \<open>The head of the heap is preceded by nothing that waits.\<close>

lemma sh_heap_pop:
  assumes "sh_heap s" "one_window (sh_reqs s)" "heap_Pop shaper_Less (sh_reqs s) = Some (x, xs)"
  shows "heap_inv shaper_Less xs (length xs)" "y \<in> set (sh_reqs s) \<Longrightarrow> \<not> shaper_Less y x"
    "set (sh_reqs s) = insert x (set xs)"
proof -
  from assms(2) obtain b where S: "list_all (in_window b) (sh_reqs s)" by (auto simp: one_window_def)
  have h: "heap_inv shaper_Less (sh_reqs s) (length (sh_reqs s))" using assms(1) by (simp add: sh_heap_def)
  show "heap_inv shaper_Less xs (length xs)" by (rule shp.heap_Pop_heap [OF S h assms(3)])
  show "y \<in> set (sh_reqs s) \<Longrightarrow> \<not> shaper_Less y x" using shp.heap_Pop_min [OF S h assms(3)] by auto
  show "set (sh_reqs s) = insert x (set xs)"
    by (rule heap_Pop_set [OF assms(3)])
qed

lemma sh_heap_step:
  assumes "sh_heap s" "one_window (sh_reqs s @ (case e of ShReq r \<Rightarrow> [r] | _ \<Rightarrow> []))"
  shows "sh_heap (shaper_step s e)"
proof (cases e)
  case ShDie
  then show ?thesis
    using assms(1) by (auto simp: shaper_step_def sh_heap_def Let_def split: prod.splits)
next
  case (ShReq r)
  with assms show ?thesis by (simp add: sh_heap_req)
next
  case ShWrite
  with assms have "one_window (sh_reqs s)" by simp
  with assms(1) show ?thesis
    unfolding ShWrite
    by (cases rule: shaper_write_cases [of s]) (simp_all add: sh_heap_def sh_heap_pop(1))
qed

lemma sh_heap_run: "sh_heap s \<Longrightarrow> windowed s es \<Longrightarrow> sh_heap (foldl shaper_step s es)"
  by (induction es arbitrary: s) (simp_all add: sh_heap_step)

lemma sh_heap_init: "sh_heap shaper_init"
  by (simp add: sh_heap_def shaper_init_def heap_inv_def)

lemma shaper_req_keeps:
  "sh_out (shaper_step s (ShReq r)) = sh_out s" "set (sh_reqs s) \<subseteq> set (sh_reqs (shaper_step s (ShReq r)))"
proof -
  show "sh_out (shaper_step s (ShReq r)) = sh_out s"
    by (auto simp: shaper_step_def Let_def split: option.splits prod.splits)
  show "set (sh_reqs s) \<subseteq> set (sh_reqs (shaper_step s (ShReq r)))"
  proof (cases "heap_Pop shaper_Less (sh_reqs s)")
    case None
    then show ?thesis by (auto simp: shaper_step_def Let_def)
  next
    case (Some p)
    obtain x xs where "p = (x, xs)" by fastforce
    with Some have pop: "heap_Pop shaper_Less (sh_reqs s) = Some (x, xs)" by simp
    from heap_Pop_set [OF pop] pop show ?thesis by (auto simp: shaper_step_def Let_def)
  qed
qed

lemma shaper_die_keeps [simp]:
  "sh_out (shaper_step s ShDie) = sh_out s" "sh_reqs (shaper_step s ShDie) = sh_reqs s"
  by (auto simp: shaper_step_def Let_def split: prod.splits)

text \<open>\<open>x\<close> still waits and \<open>y\<close> has not gone out, or \<open>x\<close> has gone out and \<open>y\<close> not before it.\<close>

definition ahead :: "writeRequest \<Rightarrow> writeRequest \<Rightarrow> shaper \<Rightarrow> bool" where
  "ahead x y s \<longleftrightarrow> x \<in> set (sh_reqs s) \<and> y \<notin> set (sh_out s) \<or>
     (\<exists>us vs. sh_out s = us @ x # vs \<and> y \<notin> set us)"

lemma ahead_step:
  assumes "ahead x y s" "shaper_Less x y" "x \<noteq> y" "sh_heap s"
    "one_window (sh_reqs s @ (case e of ShReq r \<Rightarrow> [r] | _ \<Rightarrow> []))"
  shows "ahead x y (shaper_step s e)"
proof (cases e)
  case ShDie
  with assms(1) show ?thesis by (simp add: ahead_def)
next
  case (ShReq r)
  with assms(1) shaper_req_keeps [of s r] show ?thesis by (auto simp: ahead_def)
next
  case ShWrite
  with assms(5) have w: "one_window (sh_reqs s)" by simp
  show ?thesis
    unfolding ShWrite
  proof (cases rule: shaper_write_cases [of s])
    case 1
    with assms(1) show "ahead x y (shaper_step s ShWrite)" by (simp add: ahead_def)
  next
    case (2 z xs)
    note pop = sh_heap_pop(2,3) [OF assms(4) w 2(2)]
    show "ahead x y (shaper_step s ShWrite)"
    proof (cases "\<exists>us vs. sh_out s = us @ x # vs \<and> y \<notin> set us")
      case True
      then obtain us vs where "sh_out s = us @ x # vs" "y \<notin> set us" by blast
      then have "sh_out (shaper_step s ShWrite) = us @ x # (vs @ [z])" using 2(3) by simp
      with \<open>y \<notin> set us\<close> show ?thesis unfolding ahead_def by blast
    next
      case False
      with assms(1) have x: "x \<in> set (sh_reqs s)" "y \<notin> set (sh_out s)" by (auto simp: ahead_def)
      then have "z \<noteq> y" using pop(1) assms(2) by blast
      with x pop(2) 2(3) show ?thesis by (cases "z = x") (auto simp: ahead_def)
    qed
  qed
qed

lemma ahead_run:
  "ahead x y s \<Longrightarrow> shaper_Less x y \<Longrightarrow> x \<noteq> y \<Longrightarrow> sh_heap s \<Longrightarrow> windowed s es \<Longrightarrow>
   ahead x y (foldl shaper_step s es)"
  by (induction es arbitrary: s) (simp_all add: ahead_step sh_heap_step)

text \<open>A run whose offered requests all lie in one window is such a run.\<close>

definition offered :: "sh_event list \<Rightarrow> writeRequest list" where
  "offered evs = concat (map (\<lambda>e. case e of ShReq r \<Rightarrow> [r] | _ \<Rightarrow> []) evs)"

lemma offered_simps [simp]:
  "offered [] = []" "offered (ShDie # es) = offered es" "offered (ShWrite # es) = offered es"
  "offered (ShReq r # es) = r # offered es"
  by (simp_all add: offered_def)

lemma shaper_step_sub:
  "set (sh_reqs (shaper_step s e)) \<subseteq> set (sh_reqs s) \<union> (case e of ShReq r \<Rightarrow> {r} | _ \<Rightarrow> {})"
proof (cases "heap_Pop shaper_Less (sh_reqs s)")
  case None
  then show ?thesis by (cases e) (auto simp: shaper_step_def Let_def)
next
  case (Some p)
  obtain x xs where "p = (x, xs)" by fastforce
  with Some have pop: "heap_Pop shaper_Less (sh_reqs s) = Some (x, xs)" by simp
  note set = heap_Pop_set [OF pop]
  with pop show ?thesis by (cases e) (auto simp: shaper_step_def Let_def)
qed

lemma windowed_offered:
  assumes "list_all (in_window b) (sh_reqs s @ offered es)"
  shows "windowed s es"
  using assms
proof (induction es arbitrary: s)
  case (Cons e es)
  have "list_all (in_window b) (sh_reqs s @ (case e of ShReq r \<Rightarrow> [r] | _ \<Rightarrow> []))"
    using Cons.prems by (cases e) simp_all
  then have "one_window (sh_reqs s @ (case e of ShReq r \<Rightarrow> [r] | _ \<Rightarrow> []))"
    unfolding one_window_def by blast
  moreover have "windowed (shaper_step s e) es"
    using Cons.prems shaper_step_sub [of s e]
    by (intro Cons.IH) (cases e; auto simp: list_all_iff)
  ultimately show ?case by simp
qed simp

section \<open>Properties\<close>

text \<open>
  C19: Whatever the goroutines, \<^verbatim>\<open>sendLoop\<close> and \<^verbatim>\<open>die\<close> do, \<^verbatim>\<open>shaperLoop\<close> never reaches its
  "both channel are nil" panic, its heap never holds more than 1025 requests (the 1024 of
  \<^verbatim>\<open>maxShaperSize\<close> and the one being offered), and no request is lost or duplicated: those it
  took are exactly those it handed to \<^verbatim>\<open>sendLoop\<close> and those still in the heap.
\<close>

theorem shaper_safe:
  "sh_status (foldl shaper_step shaper_init evs) \<noteq> ShPanicked \<and>
   length (sh_reqs (foldl shaper_step shaper_init evs)) \<le> 1025 \<and>
   mset (sh_in (foldl shaper_step shaper_init evs)) =
     mset (sh_out (foldl shaper_step shaper_init evs)) +
     mset (sh_reqs (foldl shaper_step shaper_init evs))"
  using shaper.run_inv [OF shaper_init_inv, of evs]
  by (auto simp: shaper_inv_def maxShaperSize_def)

text \<open>
  C6: the shaper puts requests in order, whatever order the goroutines offer them in: once it has
  taken a request, no request that comes after it (a data request after a control request, in a
  class the higher number, compared as the code compares wrapping numbers) and has not gone out
  yet is handed to \<^verbatim>\<open>sendLoop\<close> before it. The requests that wait at one time, and the one offered
  then, have numbers in some window of \<open>2 ^ 31\<close> numbers.
\<close>

theorem shaper_fifo:
  assumes "windowed shaper_init (evs @ later)"
  defines "s \<equiv> foldl shaper_step shaper_init evs"
    and "s' \<equiv> foldl shaper_step shaper_init (evs @ later)"
  assumes "x \<in> set (sh_in s)" "y \<notin> set (sh_out s)"
    "wclass x < wclass y \<or> wclass x = wclass y \<and> itimediff (wseq y) (wseq x) > 0"
    "y \<in> set (sh_out s')"
  shows "\<exists>us vs. sh_out s' = us @ x # vs \<and> y \<in> set vs \<and> y \<notin> set us"
proof -
  have "mset (sh_in s) = mset (sh_out s) + mset (sh_reqs s)"
    using shaper.run_inv [OF shaper_init_inv, of evs] by (simp add: s_def shaper_inv_def)
  then have "x \<in> set (sh_out s) \<or> x \<in> set (sh_reqs s)"
    using assms(4) by (metis set_mset_mset set_mset_union Un_iff)
  then have "ahead x y s"
  proof
    assume "x \<in> set (sh_out s)"
    then obtain us vs where "sh_out s = us @ x # vs" by (meson split_list)
    with assms(5) show ?thesis unfolding ahead_def by auto
  qed (use assms(5) in \<open>simp add: ahead_def\<close>)
  moreover have less: "shaper_Less x y"
    using assms(6) by (auto simp: shaper_Less_def)
  moreover have ne: "x \<noteq> y" using assms(6) by (auto simp: itimediff_def)
  moreover have "sh_heap s" "windowed s later"
    using assms(1) sh_heap_run [OF sh_heap_init] by (simp_all add: s_def)
  ultimately have "ahead x y s'" using ahead_run [of x y s later] by (simp add: s_def s'_def)
  with assms(7) obtain us vs where o: "sh_out s' = us @ x # vs" "y \<notin> set us"
    unfolding ahead_def by blast
  moreover have "y \<in> set vs" using o assms(7) ne by auto
  ultimately show ?thesis by blast
qed

text \<open>Three requests taken out of their order, with wrapping numbers, and handed over in it.\<close>

definition demo_req :: "classid \<Rightarrow> u32 \<Rightarrow> writeRequest" where
  "demo_req c n = \<lparr>wclass = c, wframe = newFrame 1 cmdNOP 0, wseq = n\<rparr>"

definition demo_events :: "sh_event list" where
  "demo_events = [ShReq (demo_req CLSDATA 0), ShReq (demo_req CLSDATA (-1)), ShReq (demo_req CLSCTRL 1)]"

lemma demo_windowed: "windowed shaper_init (demo_events @ [ShWrite, ShWrite, ShWrite])"
  by (rule windowed_offered [of "-1"])
    (simp add: shaper_init_def demo_events_def demo_req_def in_window_def req_off_def)

lemma demo_run:
  "demo_req CLSDATA (-1) \<in> set (sh_in (foldl shaper_step shaper_init demo_events))"
  "demo_req CLSDATA 0 \<notin> set (sh_out (foldl shaper_step shaper_init demo_events))"
  "demo_req CLSDATA 0 \<in>
     set (sh_out (foldl shaper_step shaper_init (demo_events @ [ShWrite, ShWrite, ShWrite])))"
proof -
  have "sh_in (foldl shaper_step shaper_init demo_events) =
      [demo_req CLSDATA 0, demo_req CLSDATA (-1), demo_req CLSCTRL 1]"
    by code_simp
  moreover have "sh_out (foldl shaper_step shaper_init demo_events) = []"
    by code_simp
  moreover have "sh_out (foldl shaper_step shaper_init (demo_events @ [ShWrite, ShWrite, ShWrite])) =
      [demo_req CLSCTRL 1, demo_req CLSDATA (-1), demo_req CLSDATA 0]"
    by code_simp
  ultimately show "demo_req CLSDATA (-1) \<in> set (sh_in (foldl shaper_step shaper_init demo_events))"
    "demo_req CLSDATA 0 \<notin> set (sh_out (foldl shaper_step shaper_init demo_events))"
    "demo_req CLSDATA 0 \<in>
       set (sh_out (foldl shaper_step shaper_init (demo_events @ [ShWrite, ShWrite, ShWrite])))"
    by simp_all
qed

theorem shaper_fifo_witness:
  "\<exists>us vs. sh_out (foldl shaper_step shaper_init (demo_events @ [ShWrite, ShWrite, ShWrite])) =
     us @ demo_req CLSDATA (-1) # vs \<and> demo_req CLSDATA 0 \<in> set vs \<and> demo_req CLSDATA 0 \<notin> set us"
  by (rule shaper_fifo [OF demo_windowed]) (use demo_run in \<open>simp_all add: demo_req_def itimediff_def\<close>)

end
