(* ===== verification/Smux_Config.thy ===== *)
theory Smux_Config
  imports Prelude
begin

text \<open>
  The session configuration of \<^verbatim>\<open>smux/mux.go\<close>. Go's \<^verbatim>\<open>int\<close> and \<^verbatim>\<open>time.Duration\<close> fields are
  only compared there, so they are unbounded integers here; where the session narrows one to
  32 bits the narrowing is written out (\<^verbatim>\<open>Smux_Session\<close>).
\<close>

record config =
  cVersion :: int
  cKeepAliveDisabled :: bool
  cKeepAliveInterval :: int
  cKeepAliveTimeout :: int
  cMaxFrameSize :: int
  cMaxReceiveBuffer :: int
  cMaxStreamBuffer :: int

text \<open>Durations in nanoseconds.\<close>

definition DefaultConfig :: config where
  "DefaultConfig =
     \<lparr>cVersion = 1, cKeepAliveDisabled = False,
      cKeepAliveInterval = 10 * 1000000000, cKeepAliveTimeout = 30 * 1000000000,
      cMaxFrameSize = 32768, cMaxReceiveBuffer = 4194304, cMaxStreamBuffer = 65536\<rparr>"

datatype config_error =
  UnsupportedVersion | IntervalNotPositive | TimeoutTooSmall | FrameNotPositive | FrameTooLarge |
  ReceiveNotPositive | StreamNotPositive | StreamLargerThanReceive | StreamTooLarge

definition VerifyConfig :: "config \<Rightarrow> config_error option" where
  "VerifyConfig c =
     (if \<not> (cVersion c = 1 \<or> cVersion c = 2) then Some UnsupportedVersion
      else if \<not> cKeepAliveDisabled c \<and> cKeepAliveInterval c = 0 then Some IntervalNotPositive
      else if \<not> cKeepAliveDisabled c \<and> cKeepAliveTimeout c < cKeepAliveInterval c
        then Some TimeoutTooSmall
      else if cMaxFrameSize c \<le> 0 then Some FrameNotPositive
      else if cMaxFrameSize c > 65535 then Some FrameTooLarge
      else if cMaxReceiveBuffer c \<le> 0 then Some ReceiveNotPositive
      else if cMaxStreamBuffer c \<le> 0 then Some StreamNotPositive
      else if cMaxStreamBuffer c > cMaxReceiveBuffer c then Some StreamLargerThanReceive
      else if cMaxStreamBuffer c > 2147483647 then Some StreamTooLarge
      else None)"

text \<open>The configuration \<^verbatim>\<open>Server\<close> and \<^verbatim>\<open>Client\<close> start a session with: the default for nil.\<close>

definition session_config :: "config option \<Rightarrow> config_error + config" where
  "session_config oc =
     (let c = (case oc of None \<Rightarrow> DefaultConfig | Some c \<Rightarrow> c)
      in case VerifyConfig c of Some e \<Rightarrow> Inl e | None \<Rightarrow> Inr c)"

lemma VerifyConfig_NoneD:
  assumes "VerifyConfig c = None"
  shows "cVersion c \<in> {1, 2}" "0 < cMaxFrameSize c" "cMaxFrameSize c \<le> 65535"
    "0 < cMaxReceiveBuffer c" "0 < cMaxStreamBuffer c"
    "cMaxStreamBuffer c \<le> cMaxReceiveBuffer c" "cMaxStreamBuffer c \<le> 2147483647"
  using assms by (auto simp: VerifyConfig_def split: if_splits)

lemma session_config_verified: "session_config oc = Inr c \<Longrightarrow> VerifyConfig c = None"
  by (auto simp: session_config_def Let_def split: option.splits)

lemma session_config_default: "session_config None = Inr DefaultConfig"
  by (simp add: session_config_def VerifyConfig_def DefaultConfig_def)

end
