(* ===== verification/Smux_State.thy ===== *)
theory Smux_State
  imports Smux_Alloc Smux_Shaper Smux_Config
begin

text \<open>
  The state of a \<^verbatim>\<open>smux\<close> session and of its streams (\<^verbatim>\<open>smux/session.go\<close>, \<^verbatim>\<open>smux/stream.go\<close>).
  Streams are shared by pointer between the session's map, the accept queue and the
  application, so they live in a store and are named by their index in it. A channel of
  capacity one that only carries a wake-up is a flag; a channel that is only ever closed is a
  flag, with the error stored beside it; a deadline is the instant its timer is set to, and
  the zero time is \<open>None\<close>. A section under a lock is one step of the model.
\<close>

section \<open>Errors\<close>

datatype smux_err =
  ErrEOF | ErrUnexpectedEOF | ErrClosedPipe | ErrInvalidProtocol | ErrConsumed | ErrGoAway |
  ErrTimeout | ErrWouldBlock | ErrConn nat

section \<open>Streams\<close>

text \<open>A byte slice: what it shows and its capacity. Slicing off the front gives up capacity.\<close>

type_synonym gobuf = "bytes \<times> nat"

definition buf_drop :: "nat \<Rightarrow> gobuf \<Rightarrow> gobuf" where
  "buf_drop n b = (drop n (fst b), snd b - n)"

record stream =
  st_id :: u32
  st_buffers :: "gobuf list"
  st_heads :: "gobuf list"
  st_frameSize :: int
  st_readEvent :: bool
  st_die :: bool
  st_fin :: bool
  st_readDeadline :: "int option"
  st_writeDeadline :: "int option"
  st_numRead :: u32
  st_numWritten :: u32
  st_incr :: u32
  st_peerConsumed :: u32
  st_peerWindow :: u32
  st_updateEvent :: bool

definition newStream :: "u32 \<Rightarrow> int \<Rightarrow> stream" where
  "newStream sid fs =
     \<lparr>st_id = sid, st_buffers = [], st_heads = [], st_frameSize = fs, st_readEvent = False,
      st_die = False, st_fin = False, st_readDeadline = None, st_writeDeadline = None,
      st_numRead = 0, st_numWritten = 0, st_incr = 0, st_peerConsumed = 0,
      st_peerWindow = initialPeerWindow, st_updateEvent = False\<rparr>"

text \<open>The bytes a stream holds for its reader.\<close>

definition st_content :: "stream \<Rightarrow> bytes" where
  "st_content st = concat (map fst (st_buffers st))"

definition st_size :: "stream \<Rightarrow> nat" where
  "st_size st = length (st_content st)"

definition notifyReadEvent :: "stream \<Rightarrow> stream" where
  "notifyReadEvent st = st\<lparr>st_readEvent := True\<rparr>"

definition pushBytes :: "gobuf \<Rightarrow> stream \<Rightarrow> stream" where
  "pushBytes b st = st\<lparr>st_buffers := st_buffers st @ [b], st_heads := st_heads st @ [b]\<rparr>"

definition stream_fin :: "stream \<Rightarrow> stream" where
  "stream_fin st = st\<lparr>st_fin := True\<rparr>"

definition stream_update :: "u32 \<Rightarrow> u32 \<Rightarrow> stream \<Rightarrow> stream" where
  "stream_update consumed window st =
     st\<lparr>st_peerConsumed := consumed, st_peerWindow := window, st_updateEvent := True\<rparr>"

definition sessionClose :: "stream \<Rightarrow> stream" where
  "sessionClose st = st\<lparr>st_die := True\<rparr>"

text \<open>The number of bytes given back, the heads to recycle, and the emptied stream.\<close>

definition recycleTokens :: "stream \<Rightarrow> nat \<times> gobuf list \<times> stream" where
  "recycleTokens st =
     (sum_list (map (length \<circ> fst) (st_buffers st)), st_heads st,
      st\<lparr>st_buffers := [], st_heads := []\<rparr>)"

section \<open>Sessions\<close>

text \<open>
  Where the receive loop stands: about to check the bucket, waiting for tokens, reading the
  payload of a push (stream id, length and capacity of the buffer) or of a window update,
  between pushing bytes to a stream and taking their tokens, handing a new stream to the
  accept queue (both with \<^verbatim>\<open>streamLock\<close> held), or gone.
\<close>

datatype recv_phase =
  RHeader | RWaitTokens | RPayload u32 nat nat | RPushed nat nat | RUpdate u32 | RAccept nat |
  RExited

record session =
  se_config :: config
  se_nextStreamID :: u32
  se_bucket :: u32
  se_bucketNotify :: bool
  se_store :: "stream list"
  se_streams :: "(u32 \<times> nat) list"
  se_die :: bool
  se_socketReadError :: "smux_err option"
  se_socketWriteError :: "smux_err option"
  se_protoError :: "smux_err option"
  se_accepts :: "nat list"
  se_dataReady :: bool
  se_goAway :: bool
  se_deadline :: "int option"
  se_requestID :: u32
  se_submitted :: "writeRequest list"
  se_alloc :: alloc
  se_input :: bytes
  se_inputEnd :: "smux_err option"
  se_connClosed :: bool
  se_phase :: recv_phase

text \<open>
  \<open>se_input\<close> is what the peer has sent and the receive loop has not read, \<open>se_inputEnd\<close> the
  error the connection gives after it (none while more may come), \<open>se_submitted\<close> the write
  requests the shaper has taken. \<open>se_bucket\<close> is an \<^verbatim>\<open>int32\<close>, read with \<^const>\<open>sint\<close>.
\<close>

definition defaultAcceptBacklog :: nat where "defaultAcceptBacklog = 1024"

definition newSession :: "config \<Rightarrow> bool \<Rightarrow> session" where
  "newSession c client =
     \<lparr>se_config = c, se_nextStreamID = (if client then 1 else 0),
      se_bucket = word_of_int (cMaxReceiveBuffer c), se_bucketNotify = False,
      se_store = [], se_streams = [], se_die = False,
      se_socketReadError = None, se_socketWriteError = None, se_protoError = None,
      se_accepts = [], se_dataReady = False, se_goAway = False, se_deadline = None,
      se_requestID = 0, se_submitted = [], se_alloc = NewAllocator,
      se_input = [], se_inputEnd = None, se_connClosed = False, se_phase = RHeader\<rparr>"

definition IsClosed :: "session \<Rightarrow> bool" where
  "IsClosed s = se_die s"

definition NumStreams :: "session \<Rightarrow> nat" where
  "NumStreams s = (if IsClosed s then 0 else length (se_streams s))"

definition upd_stream :: "nat \<Rightarrow> (stream \<Rightarrow> stream) \<Rightarrow> session \<Rightarrow> session" where
  "upd_stream r f s = s\<lparr>se_store := (se_store s)[r := f (se_store s ! r)]\<rparr>"

definition put_bufs :: "gobuf list \<Rightarrow> session \<Rightarrow> session" where
  "put_bufs bs s = s\<lparr>se_alloc := fold (\<lambda>b a. snd (alloc_Put (snd b) a)) bs (se_alloc s)\<rparr>"

definition notifyBucket :: "session \<Rightarrow> session" where
  "notifyBucket s = s\<lparr>se_bucketNotify := True\<rparr>"

definition returnTokens :: "nat \<Rightarrow> session \<Rightarrow> session" where
  "returnTokens n s =
     (let b = se_bucket s + of_nat n; s' = s\<lparr>se_bucket := b\<rparr>
      in if sint b > 0 then notifyBucket s' else s')"

text \<open>The once-only error notifications: the first error stays.\<close>

definition notifyReadError :: "smux_err \<Rightarrow> session \<Rightarrow> session" where
  "notifyReadError e s =
     (case se_socketReadError s of None \<Rightarrow> s\<lparr>se_socketReadError := Some e\<rparr> | Some _ \<Rightarrow> s)"

definition notifyWriteError :: "smux_err \<Rightarrow> session \<Rightarrow> session" where
  "notifyWriteError e s =
     (case se_socketWriteError s of None \<Rightarrow> s\<lparr>se_socketWriteError := Some e\<rparr> | Some _ \<Rightarrow> s)"

definition notifyProtoError :: "smux_err \<Rightarrow> session \<Rightarrow> session" where
  "notifyProtoError e s =
     (case se_protoError s of None \<Rightarrow> s\<lparr>se_protoError := Some e\<rparr> | Some _ \<Rightarrow> s)"

section \<open>Writing a frame\<close>

text \<open>
  \<^verbatim>\<open>writeFrameInternal\<close> blocks twice: until the shaper takes the request, and until
  \<^verbatim>\<open>sendLoop\<close> reports the result. Which case of each \<^verbatim>\<open>select\<close> fires is the event; a result
  carries what the connection's \<^verbatim>\<open>Write\<close> returned.
\<close>

datatype wf_event =
  Wf1Die | Wf1WriteErr smux_err | Wf1Deadline |
  Wf2Result int "smux_err option" | Wf2Die | Wf2WriteErr smux_err | Wf2Deadline

definition send_result :: "int \<Rightarrow> smux_err option \<Rightarrow> nat \<times> smux_err option" where
  "send_result n err = (nat (n - int headerSize), err)"

definition writeFrameInternal ::
  "wf_event \<Rightarrow> frame \<Rightarrow> classid \<Rightarrow> session \<Rightarrow> (nat \<times> smux_err option) \<times> session" where
  "writeFrameInternal ev f cls s =
     (let rid = se_requestID s + 1;
          s1 = s\<lparr>se_requestID := rid\<rparr>;
          s2 = s1\<lparr>se_submitted := se_submitted s @ [\<lparr>wclass = cls, wframe = f, wseq = rid\<rparr>]\<rparr>
      in case ev of
           Wf1Die \<Rightarrow> ((0, Some ErrClosedPipe), s1)
         | Wf1WriteErr e \<Rightarrow> ((0, Some e), s1)
         | Wf1Deadline \<Rightarrow> ((0, Some ErrTimeout), s1)
         | Wf2Result n err \<Rightarrow>
             (send_result n err,
              (case err of None \<Rightarrow> s2 | Some e \<Rightarrow> notifyWriteError e s2))
         | Wf2Die \<Rightarrow> ((0, Some ErrClosedPipe), s2)
         | Wf2WriteErr e \<Rightarrow> ((0, Some e), s2)
         | Wf2Deadline \<Rightarrow> ((0, Some ErrTimeout), s2))"

definition writeFrame :: "wf_event \<Rightarrow> frame \<Rightarrow> session \<Rightarrow> (nat \<times> smux_err option) \<times> session" where
  "writeFrame ev f s = writeFrameInternal ev f CLSCTRL s"

text \<open>The cases that can fire in a given state, and a connection that keeps \<^verbatim>\<open>io.Writer\<close>'s contract.\<close>

definition wf_ready :: "bool \<Rightarrow> session \<Rightarrow> frame \<Rightarrow> wf_event \<Rightarrow> bool" where
  "wf_ready timed s f ev =
     (case ev of
        Wf1Die \<Rightarrow> se_die s | Wf2Die \<Rightarrow> se_die s
      | Wf1WriteErr e \<Rightarrow> se_socketWriteError s = Some e
      | Wf2WriteErr e \<Rightarrow> se_socketWriteError s = Some e
      | Wf1Deadline \<Rightarrow> timed | Wf2Deadline \<Rightarrow> timed
      | Wf2Result n err \<Rightarrow>
          (let m = int (headerSize + length (fdata f))
           in n \<le> m \<and> (err = None \<longrightarrow> n = m)))"

section \<open>Frame facts\<close>

lemma length_upd_stream [simp]: "length (se_store (upd_stream r f s)) = length (se_store s)"
  by (simp add: upd_stream_def)

lemma returnTokens_simps [simp]:
  "se_bucket (returnTokens n s) = se_bucket s + of_nat n"
  "se_store (returnTokens n s) = se_store s"
  "se_streams (returnTokens n s) = se_streams s"
  "se_config (returnTokens n s) = se_config s"
  "se_phase (returnTokens n s) = se_phase s"
  "se_die (returnTokens n s) = se_die s"
  "se_connClosed (returnTokens n s) = se_connClosed s"
  "se_accepts (returnTokens n s) = se_accepts s"
  "se_alloc (returnTokens n s) = se_alloc s"
  "se_bucketNotify (returnTokens n s) \<longleftrightarrow> se_bucketNotify s \<or> sint (se_bucket s + of_nat n) > 0"
  by (simp_all add: returnTokens_def notifyBucket_def Let_def)

lemma st_size_simps [simp]:
  "st_size (newStream sid fs) = 0"
  "st_size (notifyReadEvent st) = st_size st"
  "st_size (stream_fin st) = st_size st"
  "st_size (stream_update c w st) = st_size st"
  "st_size (sessionClose st) = st_size st"
  "st_size (pushBytes b st) = st_size st + length (fst b)"
  by (simp_all add: st_size_def st_content_def newStream_def notifyReadEvent_def stream_fin_def
      stream_update_def sessionClose_def pushBytes_def)

lemma recycleTokens_size:
  "recycleTokens st = (n, hs, st') \<Longrightarrow> n = st_size st \<and> st_size st' = 0"
  by (auto simp: recycleTokens_def st_size_def st_content_def length_concat comp_def)

end
