(* ===== verification/Smux_Stream.thy ===== *)
theory Smux_Stream
  imports Smux_State
begin

text \<open>
  The operations of a stream (\<^verbatim>\<open>smux/stream.go\<close>). A blocking operation is given as its steps:
  the section under \<^verbatim>\<open>bufferLock\<close>, what follows it, and one step per \<^verbatim>\<open>select\<close>, whose event says
  which case fires (\<open>rd_ready\<close>, \<open>w2_ready\<close> and \<^const>\<open>wf_ready\<close> say when it can). A loop that
  waits consumes a list of events, one per turn, and is \<open>None\<close> when it still waits after the
  last of them.
\<close>

section \<open>Read\<close>

text \<open>
  Both \<^verbatim>\<open>tryRead\<close> and \<^verbatim>\<open>tryReadv2\<close> take bytes off the front buffer; when it is empty its
  head goes back to the allocator. The result: bytes read, buffers to put back, the stream.
\<close>

definition take_front :: "nat \<Rightarrow> stream \<Rightarrow> bytes \<times> gobuf list \<times> stream" where
  "take_front len st =
     (case st_buffers st of
        [] \<Rightarrow> ([], [], st)
      | b # bs \<Rightarrow>
          (let n = min len (length (fst b)); b' = buf_drop n b
           in if fst b' = []
              then (take n (fst b), [hd (st_heads st)],
                    st\<lparr>st_buffers := bs, st_heads := tl (st_heads st)\<rparr>)
              else (take n (fst b), [], st\<lparr>st_buffers := b' # bs\<rparr>)))"

text \<open>The consumption counters of version 2; the number to notify the peer of, 0 for none.\<close>

definition count_read :: "config \<Rightarrow> nat \<Rightarrow> stream \<Rightarrow> u32 \<times> stream" where
  "count_read c n st =
     (let nr = st_numRead st + of_nat n; ic = st_incr st + of_nat n
      in if ic \<ge> word_of_int (cMaxStreamBuffer c div 2) \<or> nr = of_nat n
         then (nr, st\<lparr>st_numRead := nr, st_incr := 0\<rparr>)
         else (0, st\<lparr>st_numRead := nr, st_incr := ic\<rparr>))"

definition sendWindowUpdate ::
  "wf_event \<Rightarrow> nat \<Rightarrow> u32 \<Rightarrow> session \<Rightarrow> smux_err option \<times> session" where
  "sendWindowUpdate ev r consumed s =
     (let c = se_config s;
          f = (newFrame (word_of_int (cVersion c)) cmdUPD (st_id (se_store s ! r)))
                \<lparr>fdata := upd_data consumed (word_of_int (cMaxStreamBuffer c))\<rparr>;
          ((_, err), s') = writeFrameInternal ev f CLSDATA s
      in (err, s'))"

text \<open>The locked sections, with the \<^verbatim>\<open>Put\<close> they make.\<close>

definition tryRead_lock :: "nat \<Rightarrow> nat \<Rightarrow> session \<Rightarrow> bytes \<times> session" where
  "tryRead_lock r len s =
     (let (out, hs, st') = take_front len (se_store s ! r)
      in (out, put_bufs hs (upd_stream r (\<lambda>_. st') s)))"

definition tryReadv2_lock :: "nat \<Rightarrow> nat \<Rightarrow> session \<Rightarrow> bytes \<times> u32 \<times> session" where
  "tryReadv2_lock r len s =
     (let (out, hs, st1) = take_front len (se_store s ! r);
          (notify, st2) = count_read (se_config s) (length out) st1
      in (out, notify, put_bufs hs (upd_stream r (\<lambda>_. st2) s)))"

definition read_empty :: "nat \<Rightarrow> session \<Rightarrow> smux_err option" where
  "read_empty r s = Some (if st_die (se_store s ! r) then ErrEOF else ErrWouldBlock)"

definition tryReadv2 ::
  "wf_event \<Rightarrow> nat \<Rightarrow> nat \<Rightarrow> session \<Rightarrow> (bytes \<times> smux_err option) \<times> session" where
  "tryReadv2 ev r len s =
     (if len = 0 then (([], None), s)
      else let (out, notify, s1) = tryReadv2_lock r len s
           in if out \<noteq> [] then
                let s2 = returnTokens (length out) s1
                in if notify > 0
                   then let (err, s3) = sendWindowUpdate ev r notify s2 in ((out, err), s3)
                   else ((out, None), s2)
              else (([], read_empty r s1), s1))"

definition tryRead ::
  "wf_event \<Rightarrow> nat \<Rightarrow> nat \<Rightarrow> session \<Rightarrow> (bytes \<times> smux_err option) \<times> session" where
  "tryRead ev r len s =
     (if cVersion (se_config s) = 2 then tryReadv2 ev r len s
      else if len = 0 then (([], None), s)
      else let (out, s1) = tryRead_lock r len s
           in if out \<noteq> [] then ((out, None), returnTokens (length out) s1)
              else (([], read_empty r s1), s1))"

datatype rd_event = RdNotify | RdFin | RdReadErr smux_err | RdProtoErr smux_err | RdDeadline | RdDie

definition rd_ready :: "nat \<Rightarrow> session \<Rightarrow> rd_event \<Rightarrow> bool" where
  "rd_ready r s ev =
     (let st = se_store s ! r
      in case ev of
           RdNotify \<Rightarrow> st_readEvent st
         | RdFin \<Rightarrow> st_fin st
         | RdReadErr e \<Rightarrow> se_socketReadError s = Some e
         | RdProtoErr e \<Rightarrow> se_protoError s = Some e
         | RdDeadline \<Rightarrow> st_readDeadline st \<noteq> None
         | RdDie \<Rightarrow> st_die st)"

definition waitRead :: "rd_event \<Rightarrow> nat \<Rightarrow> session \<Rightarrow> smux_err option \<times> session" where
  "waitRead ev r s =
     (case ev of
        RdNotify \<Rightarrow> (None, upd_stream r (\<lambda>st. st\<lparr>st_readEvent := False\<rparr>) s)
      | RdFin \<Rightarrow> (if st_buffers (se_store s ! r) \<noteq> [] then None else Some ErrEOF, s)
      | RdReadErr e \<Rightarrow> (Some e, s)
      | RdProtoErr e \<Rightarrow> (Some e, s)
      | RdDeadline \<Rightarrow> (Some ErrTimeout, s)
      | RdDie \<Rightarrow> (Some ErrClosedPipe, s))"

text \<open>
  \<^verbatim>\<open>Read\<close>, with the events of its waits. Each carries the session as the other goroutines left
  it by the time the wait is over, as a function of the session at its start.
\<close>

fun stream_Read ::
  "((session \<Rightarrow> session) \<times> rd_event) list \<Rightarrow> wf_event \<Rightarrow> nat \<Rightarrow> nat \<Rightarrow> session \<Rightarrow>
   ((bytes \<times> smux_err option) \<times> session) option" where
  "stream_Read evs wev r len s =
     (case tryRead wev r len s of
        ((out, err), s1) \<Rightarrow>
          if err \<noteq> Some ErrWouldBlock then Some ((out, err), s1)
          else case evs of
                 [] \<Rightarrow> None
               | (env, ev) # evs' \<Rightarrow>
                   (case waitRead ev r (env s1) of
                      (None, s2) \<Rightarrow> stream_Read evs' wev r len s2
                    | (Some ew, s2) \<Rightarrow> Some (([], Some ew), s2)))"

declare stream_Read.simps [simp del]

section \<open>WriteTo\<close>

text \<open>
  One turn of the loops of \<^verbatim>\<open>WriteTo\<close> and \<^verbatim>\<open>writeTov2\<close>: the front buffer is taken whole and
  written out (\<open>nw\<close> and \<open>ew\<close> are what \<^verbatim>\<open>w.Write\<close> returned); what is put back to the allocator
  is the buffer as it was taken, not its head. \<open>n\<close> counts the bytes written so far.
\<close>

definition take_buffer :: "stream \<Rightarrow> gobuf option \<times> stream" where
  "take_buffer st =
     (case st_buffers st of
        [] \<Rightarrow> (None, st)
      | b # bs \<Rightarrow> (Some b, st\<lparr>st_buffers := bs, st_heads := tl (st_heads st)\<rparr>))"

datatype wt_event = WtWrite int "smux_err option" wf_event | WtWait rd_event

datatype wt_result = WtAgain int | WtReturn int smux_err

definition wt_after_wait :: "int \<Rightarrow> smux_err option \<times> session \<Rightarrow> wt_result \<times> session" where
  "wt_after_wait n w = (case w of (None, s) \<Rightarrow> (WtAgain n, s) | (Some e, s) \<Rightarrow> (WtReturn n e, s))"

definition WriteTo_turn :: "wt_event \<Rightarrow> nat \<Rightarrow> int \<Rightarrow> session \<Rightarrow> (wt_result \<times> bytes \<times> session) option" where
  "WriteTo_turn ev r n s =
     (let (buf, st') = take_buffer (se_store s ! r); s1 = upd_stream r (\<lambda>_. st') s
      in case (buf, ev) of
           (Some b, WtWrite nw ew _) \<Rightarrow>
             (let s2 = put_bufs [b] (returnTokens (length (fst b)) s1);
                  n' = (if nw > 0 then n + nw else n)
              in Some (case ew of Some e \<Rightarrow> WtReturn n' e | None \<Rightarrow> WtAgain n', fst b, s2))
         | (None, WtWait rdev) \<Rightarrow>
             (let (res, s2) = wt_after_wait n (waitRead rdev r s1) in Some (res, [], s2))
         | _ \<Rightarrow> None)"

definition writeTov2_turn ::
  "wt_event \<Rightarrow> nat \<Rightarrow> int \<Rightarrow> session \<Rightarrow> (wt_result \<times> bytes \<times> session) option" where
  "writeTov2_turn ev r n s =
     (let (buf, st1) = take_buffer (se_store s ! r);
          (notify, st2) = count_read (se_config s) (case buf of None \<Rightarrow> 0 | Some b \<Rightarrow> length (fst b)) st1;
          s1 = upd_stream r (\<lambda>_. st2) s
      in case (buf, ev) of
           (Some b, WtWrite nw ew wev) \<Rightarrow>
             (let s2 = put_bufs [b] (returnTokens (length (fst b)) s1);
                  n' = (if nw > 0 then n + nw else n)
              in case ew of
                   Some e \<Rightarrow> Some (WtReturn n' e, fst b, s2)
                 | None \<Rightarrow>
                     if notify > 0
                     then (case sendWindowUpdate wev r notify s2 of
                             (Some e, s3) \<Rightarrow> Some (WtReturn n' e, fst b, s3)
                           | (None, s3) \<Rightarrow> Some (WtAgain n', fst b, s3))
                     else Some (WtAgain n', fst b, s2))
         | (None, WtWait rdev) \<Rightarrow>
             (let (res, s2) = wt_after_wait n (waitRead rdev r s1) in Some (res, [], s2))
         | _ \<Rightarrow> None)"

definition WriteTo :: "wt_event \<Rightarrow> nat \<Rightarrow> int \<Rightarrow> session \<Rightarrow> (wt_result \<times> bytes \<times> session) option" where
  "WriteTo ev r n s =
     (if cVersion (se_config s) = 2 then writeTov2_turn ev r n s else WriteTo_turn ev r n s)"

section \<open>Write\<close>

text \<open>
  The frame loop shared by \<^verbatim>\<open>Write\<close> and \<^verbatim>\<open>writeV2\<close>: one push frame of at most \<^verbatim>\<open>frameSize\<close>
  bytes per turn, then \<^verbatim>\<open>numWritten\<close> advances (by one in version 1, by the size of the frame in
  version 2), also when the frame failed. \<open>frameSize\<close> is positive in a verified configuration.
\<close>

fun send_chunks ::
  "(nat \<Rightarrow> u32) \<Rightarrow> wf_event list \<Rightarrow> nat \<Rightarrow> bytes \<Rightarrow> nat \<Rightarrow> session \<Rightarrow>
   ((nat \<times> smux_err option) \<times> session) option" where
  "send_chunks adv evs r bts sent s =
     (if bts = [] then Some ((sent, None), s)
      else case evs of
             [] \<Rightarrow> None
           | ev # evs' \<Rightarrow>
               (let st = se_store s ! r;
                    sz = (if int (length bts) > st_frameSize st then nat (st_frameSize st)
                          else length bts);
                    f = (newFrame (word_of_int (cVersion (se_config s))) cmdPSH (st_id st))
                          \<lparr>fdata := take sz bts\<rparr>;
                    ((n, err), s1) = writeFrameInternal ev f CLSDATA s;
                    s2 = upd_stream r (\<lambda>st. st\<lparr>st_numWritten := st_numWritten st + adv sz\<rparr>) s1
                in case err of
                     Some e \<Rightarrow> Some ((sent + n, Some e), s2)
                   | None \<Rightarrow> send_chunks adv evs' r (drop sz bts) (sent + n) s2))"

declare send_chunks.simps [simp del]

definition stream_WriteV1 ::
  "wf_event list \<Rightarrow> nat \<Rightarrow> bytes \<Rightarrow> session \<Rightarrow> ((nat \<times> smux_err option) \<times> session) option" where
  "stream_WriteV1 evs r b s =
     (if st_die (se_store s ! r) then Some ((0, Some ErrClosedPipe), s)
      else send_chunks (\<lambda>_. 1) evs r b 0 s)"

text \<open>The flow control of version 2, in the code's 32-bit arithmetic.\<close>

definition v2_inflight :: "stream \<Rightarrow> u32" where
  "v2_inflight st = st_numWritten st - st_peerConsumed st"

definition v2_win :: "stream \<Rightarrow> u32" where
  "v2_win st = st_peerWindow st - v2_inflight st"

definition v2_split :: "u32 \<Rightarrow> bytes \<Rightarrow> bytes \<times> bytes" where
  "v2_split win b =
     (if sint win > 0
      then if sint win > sint (of_nat (length b) :: u32) then (b, [])
           else (take (nat (sint win)) b, drop (nat (sint win)) b)
      else ([], b))"

text \<open>
  One turn of \<^verbatim>\<open>writeV2\<close>: it returns, or has sent what the window allows and waits with the
  rest. \<open>None\<close>: a frame of the turn is still in \<^verbatim>\<open>writeFrameInternal\<close>.
\<close>

datatype w2_result = W2Return nat "smux_err option" | W2Wait nat bytes

definition writeV2_turn ::
  "wf_event list \<Rightarrow> nat \<Rightarrow> nat \<Rightarrow> bytes \<Rightarrow> session \<Rightarrow> (w2_result \<times> session) option" where
  "writeV2_turn evs r sent b s =
     (let st = se_store s ! r
      in if sint (v2_inflight st) < 0 then Some (W2Return 0 (Some ErrConsumed), s)
         else let (bts, b') = v2_split (v2_win st) b
              in case send_chunks of_nat evs r bts sent s of
                   None \<Rightarrow> None
                 | Some ((sent', Some e), s') \<Rightarrow> Some (W2Return sent' (Some e), s')
                 | Some ((sent', None), s') \<Rightarrow>
                     if b' \<noteq> [] then Some (W2Wait sent' b', s')
                     else Some (W2Return sent' None, s'))"

datatype w2_event = W2Fin | W2Die | W2Deadline | W2WriteErr smux_err | W2Update

definition w2_ready :: "nat \<Rightarrow> session \<Rightarrow> w2_event \<Rightarrow> bool" where
  "w2_ready r s ev =
     (let st = se_store s ! r
      in case ev of
           W2Fin \<Rightarrow> st_fin st
         | W2Die \<Rightarrow> st_die st
         | W2Deadline \<Rightarrow> st_writeDeadline st \<noteq> None
         | W2WriteErr e \<Rightarrow> se_socketWriteError s = Some e
         | W2Update \<Rightarrow> st_updateEvent st)"

definition writeV2_wait ::
  "w2_event \<Rightarrow> nat \<Rightarrow> nat \<Rightarrow> session \<Rightarrow> (nat \<times> smux_err) option \<times> session" where
  "writeV2_wait ev r sent s =
     (case ev of
        W2Fin \<Rightarrow> (Some (0, ErrEOF), s)
      | W2Die \<Rightarrow> (Some (sent, ErrClosedPipe), s)
      | W2Deadline \<Rightarrow> (Some (sent, ErrTimeout), s)
      | W2WriteErr e \<Rightarrow> (Some (sent, e), s)
      | W2Update \<Rightarrow> (None, upd_stream r (\<lambda>st. st\<lparr>st_updateEvent := False\<rparr>) s))"

text \<open>
  The loop: for each turn the events of its frames, then what the other goroutines did to the
  session while it waits, and the case of the \<^verbatim>\<open>select\<close> that ends the wait.
\<close>

fun writeV2_loop ::
  "(wf_event list \<times> (session \<Rightarrow> session) \<times> w2_event) list \<Rightarrow> nat \<Rightarrow> nat \<Rightarrow> bytes \<Rightarrow> session \<Rightarrow>
   ((nat \<times> smux_err option) \<times> session) option" where
  "writeV2_loop [] r sent b s = None"
| "writeV2_loop ((evs, env, ev) # ts) r sent b s =
     (case writeV2_turn evs r sent b s of
        None \<Rightarrow> None
      | Some (W2Return n err, s1) \<Rightarrow> Some ((n, err), s1)
      | Some (W2Wait sent1 b1, s1) \<Rightarrow>
          (case writeV2_wait ev r sent1 (env s1) of
             (Some (n, e), s2) \<Rightarrow> Some ((n, Some e), s2)
           | (None, s2) \<Rightarrow> writeV2_loop ts r sent1 b1 s2))"

definition stream_WriteV2 ::
  "(wf_event list \<times> (session \<Rightarrow> session) \<times> w2_event) list \<Rightarrow> nat \<Rightarrow> bytes \<Rightarrow> session \<Rightarrow>
   ((nat \<times> smux_err option) \<times> session) option" where
  "stream_WriteV2 ts r b s =
     (if b = [] then Some ((0, None), s)
      else if st_die (se_store s ! r) then Some ((0, Some ErrClosedPipe), s)
      else writeV2_loop ts r 0 b s)"

section \<open>Close and deadlines\<close>

text \<open>
  \<^verbatim>\<open>streamClosed\<close> of the session: \<open>None\<close> when the id is not in the map, where the code calls
  \<^verbatim>\<open>recycleTokens\<close> on a nil stream and panics.
\<close>

definition streamClosed :: "u32 \<Rightarrow> session \<Rightarrow> session option" where
  "streamClosed sid s =
     (case map_of (se_streams s) sid of
        None \<Rightarrow> None
      | Some r \<Rightarrow>
          (let (n, hs, st') = recycleTokens (se_store s ! r);
               s1 = put_bufs hs (upd_stream r (\<lambda>_. st') s);
               s2 = (if n > 0 then returnTokens n s1 else s1)
           in Some (s2\<lparr>se_streams := AList.delete sid (se_streams s2)\<rparr>)))"

text \<open>\<^verbatim>\<open>dieOnce\<close>: the first half of \<^verbatim>\<open>Close\<close>, then the FIN frame, then \<^verbatim>\<open>streamClosed\<close>.\<close>

definition close_die :: "nat \<Rightarrow> session \<Rightarrow> bool \<times> session" where
  "close_die r s =
     (if st_die (se_store s ! r) then (False, s) else (True, upd_stream r sessionClose s))"

definition stream_Close :: "wf_event \<Rightarrow> nat \<Rightarrow> session \<Rightarrow> (smux_err option \<times> session) option" where
  "stream_Close ev r s =
     (case close_die r s of
        (False, s1) \<Rightarrow> Some (Some ErrClosedPipe, s1)
      | (True, s1) \<Rightarrow>
          (let sid = st_id (se_store s1 ! r);
               ((_, err), s2) =
                 writeFrame ev (newFrame (word_of_int (cVersion (se_config s1))) cmdFIN sid) s1
           in case streamClosed sid s2 of None \<Rightarrow> None | Some s3 \<Rightarrow> Some (err, s3)))"

definition SetReadDeadline :: "int option \<Rightarrow> nat \<Rightarrow> session \<Rightarrow> session" where
  "SetReadDeadline t r s = upd_stream r (\<lambda>st. notifyReadEvent (st\<lparr>st_readDeadline := t\<rparr>)) s"

definition SetWriteDeadline :: "int option \<Rightarrow> nat \<Rightarrow> session \<Rightarrow> session" where
  "SetWriteDeadline t r s = upd_stream r (\<lambda>st. st\<lparr>st_writeDeadline := t\<rparr>) s"

definition SetDeadline :: "int option \<Rightarrow> nat \<Rightarrow> session \<Rightarrow> session" where
  "SetDeadline t r s = SetWriteDeadline t r (SetReadDeadline t r s)"

section \<open>Session facts of the operations\<close>

lemma upd_stream_simps [simp]:
  "se_bucket (upd_stream r f s) = se_bucket s"
  "se_streams (upd_stream r f s) = se_streams s"
  "se_config (upd_stream r f s) = se_config s"
  "se_phase (upd_stream r f s) = se_phase s"
  "se_die (upd_stream r f s) = se_die s"
  "se_accepts (upd_stream r f s) = se_accepts s"
  "se_alloc (upd_stream r f s) = se_alloc s"
  "se_bucketNotify (upd_stream r f s) = se_bucketNotify s"
  "se_nextStreamID (upd_stream r f s) = se_nextStreamID s"
  "se_goAway (upd_stream r f s) = se_goAway s"
  "se_submitted (upd_stream r f s) = se_submitted s"
  "se_requestID (upd_stream r f s) = se_requestID s"
  "se_input (upd_stream r f s) = se_input s"
  "se_inputEnd (upd_stream r f s) = se_inputEnd s"
  by (simp_all add: upd_stream_def)

lemma store_upd_stream: "se_store (upd_stream r f s) = (se_store s)[r := f (se_store s ! r)]"
  by (simp add: upd_stream_def)

lemma put_bufs_simps [simp]:
  "se_bucket (put_bufs bs s) = se_bucket s"
  "se_store (put_bufs bs s) = se_store s"
  "se_streams (put_bufs bs s) = se_streams s"
  "se_config (put_bufs bs s) = se_config s"
  "se_phase (put_bufs bs s) = se_phase s"
  "se_die (put_bufs bs s) = se_die s"
  "se_accepts (put_bufs bs s) = se_accepts s"
  "se_bucketNotify (put_bufs bs s) = se_bucketNotify s"
  "se_nextStreamID (put_bufs bs s) = se_nextStreamID s"
  "se_goAway (put_bufs bs s) = se_goAway s"
  "se_submitted (put_bufs bs s) = se_submitted s"
  "se_requestID (put_bufs bs s) = se_requestID s"
  "se_input (put_bufs bs s) = se_input s"
  "se_inputEnd (put_bufs bs s) = se_inputEnd s"
  by (simp_all add: put_bufs_def)

lemma fold_alloc_Put_inv:
  "alloc_inv a \<Longrightarrow> alloc_inv (fold (\<lambda>b a. snd (alloc_Put (snd b) a)) bs a)"
  by (induction bs arbitrary: a) (simp_all add: alloc_Put_inv)

lemma put_bufs_inv: "alloc_inv (se_alloc s) \<Longrightarrow> alloc_inv (se_alloc (put_bufs bs s))"
  by (simp add: put_bufs_def fold_alloc_Put_inv)

lemma notifyWriteError_simps [simp]:
  "se_bucket (notifyWriteError e s) = se_bucket s"
  "se_store (notifyWriteError e s) = se_store s"
  "se_streams (notifyWriteError e s) = se_streams s"
  "se_config (notifyWriteError e s) = se_config s"
  "se_phase (notifyWriteError e s) = se_phase s"
  "se_die (notifyWriteError e s) = se_die s"
  "se_accepts (notifyWriteError e s) = se_accepts s"
  "se_alloc (notifyWriteError e s) = se_alloc s"
  "se_bucketNotify (notifyWriteError e s) = se_bucketNotify s"
  "se_nextStreamID (notifyWriteError e s) = se_nextStreamID s"
  "se_goAway (notifyWriteError e s) = se_goAway s"
  "se_submitted (notifyWriteError e s) = se_submitted s"
  "se_requestID (notifyWriteError e s) = se_requestID s"
  by (simp_all add: notifyWriteError_def split: option.split)

text \<open>Writing a frame touches the request counter, the submitted requests and the write error.\<close>

lemma writeFrameInternal_simps [simp]:
  "se_bucket (snd (writeFrameInternal ev f c s)) = se_bucket s"
  "se_store (snd (writeFrameInternal ev f c s)) = se_store s"
  "se_streams (snd (writeFrameInternal ev f c s)) = se_streams s"
  "se_config (snd (writeFrameInternal ev f c s)) = se_config s"
  "se_phase (snd (writeFrameInternal ev f c s)) = se_phase s"
  "se_die (snd (writeFrameInternal ev f c s)) = se_die s"
  "se_accepts (snd (writeFrameInternal ev f c s)) = se_accepts s"
  "se_alloc (snd (writeFrameInternal ev f c s)) = se_alloc s"
  "se_bucketNotify (snd (writeFrameInternal ev f c s)) = se_bucketNotify s"
  "se_nextStreamID (snd (writeFrameInternal ev f c s)) = se_nextStreamID s"
  "se_goAway (snd (writeFrameInternal ev f c s)) = se_goAway s"
  by (simp_all add: writeFrameInternal_def Let_def split: wf_event.split option.split)

lemma writeFrameInternal_ok:
  assumes "writeFrameInternal (Wf2Result m None) f c s = ((n, err), s')"
    "m = int (headerSize + length (fdata f))"
  shows "n = length (fdata f)" "err = None"
    "se_submitted s' = se_submitted s @ [\<lparr>wclass = c, wframe = f, wseq = se_requestID s + 1\<rparr>]"
    "se_requestID s' = se_requestID s + 1"
  using assms by (auto simp: writeFrameInternal_def send_result_def Let_def)

lemma sendWindowUpdate_frame:
  "sendWindowUpdate ev r c s = (err, s') \<Longrightarrow> se_store s' = se_store s"
  "sendWindowUpdate ev r c s = (err, s') \<Longrightarrow> se_bucket s' = se_bucket s"
  "sendWindowUpdate ev r c s = (err, s') \<Longrightarrow> se_config s' = se_config s"
proof -
  let ?w = "writeFrameInternal ev ((newFrame (word_of_int (cVersion (se_config s))) cmdUPD
              (st_id (se_store s ! r)))
              \<lparr>fdata := upd_data c (word_of_int (cMaxStreamBuffer (se_config s)))\<rparr>) CLSDATA s"
  have *: "s' = snd ?w" if "sendWindowUpdate ev r c s = (err, s')"
    using that by (auto simp: sendWindowUpdate_def Let_def split: prod.splits)
  show "sendWindowUpdate ev r c s = (err, s') \<Longrightarrow> se_store s' = se_store s"
    "sendWindowUpdate ev r c s = (err, s') \<Longrightarrow> se_bucket s' = se_bucket s"
    "sendWindowUpdate ev r c s = (err, s') \<Longrightarrow> se_config s' = se_config s"
    by (auto dest!: *)
qed

section \<open>The buffers of a stream\<close>

text \<open>
  No buffer is empty, and each is what is left of its head, which came from the allocator.
\<close>

definition from_pool :: "gobuf \<Rightarrow> bool" where
  "from_pool h \<longleftrightarrow> (\<exists>k\<le>16. snd h = 2 ^ k) \<and> length (fst h) \<le> snd h"

definition buf_of_head :: "gobuf \<Rightarrow> gobuf \<Rightarrow> bool" where
  "buf_of_head b h \<longleftrightarrow> fst b \<noteq> [] \<and> from_pool h \<and> (\<exists>k. b = buf_drop k h)"

definition stream_ok :: "stream \<Rightarrow> bool" where
  "stream_ok st \<longleftrightarrow> list_all2 buf_of_head (st_buffers st) (st_heads st)"

lemma buf_drop_drop [simp]: "buf_drop m (buf_drop k h) = buf_drop (k + m) h"
  by (simp add: buf_drop_def add.commute)

lemma buf_drop_0 [simp]: "buf_drop 0 h = h"
  by (simp add: buf_drop_def)

lemma stream_ok_simps [simp, intro]:
  "stream_ok (newStream sid fs)"
  "stream_ok st \<Longrightarrow> stream_ok (notifyReadEvent st)"
  "stream_ok st \<Longrightarrow> stream_ok (stream_fin st)"
  "stream_ok st \<Longrightarrow> stream_ok (stream_update c w st)"
  "stream_ok st \<Longrightarrow> stream_ok (sessionClose st)"
  by (simp_all add: stream_ok_def newStream_def notifyReadEvent_def stream_fin_def
      stream_update_def sessionClose_def)

lemma pushBytes_ok [intro]:
  assumes "stream_ok st" "fst b \<noteq> []" "from_pool b"
  shows "stream_ok (pushBytes b st)"
proof -
  have "buf_of_head b b"
    using assms(2,3) by (auto simp: buf_of_head_def intro!: exI [of _ 0])
  with assms(1) show ?thesis
    by (simp add: stream_ok_def pushBytes_def list_all2_appendI)
qed

lemma stream_ok_content:
  "stream_ok st \<Longrightarrow> st_content st = [] \<longleftrightarrow> st_buffers st = []"
  by (cases "st_buffers st"; cases "st_heads st")
    (auto simp: stream_ok_def st_content_def buf_of_head_def)

lemma take_front_content:
  assumes "take_front len st = (out, hs, st')"
  shows "st_content st = out @ st_content st'" "length out \<le> len"
proof -
  show "st_content st = out @ st_content st'"
    using assms
    by (cases "st_buffers st")
      (auto simp: take_front_def st_content_def buf_drop_def Let_def min_def
        split: if_splits)
  show "length out \<le> len"
    using assms by (auto simp: take_front_def Let_def split: list.splits if_splits)
qed

lemma take_front_nonempty:
  assumes "take_front len st = (out, hs, st')" "stream_ok st" "st_content st \<noteq> []" "0 < len"
  shows "out \<noteq> []"
  using assms
  by (cases "st_buffers st"; cases "st_heads st")
    (auto simp: take_front_def st_content_def stream_ok_def buf_of_head_def Let_def min_def
      split: if_splits)

lemma take_front_ok:
  assumes "take_front len st = (out, hs, st')" "stream_ok st"
  shows "stream_ok st'" "list_all from_pool hs"
  using assms
  by (cases "st_buffers st"; cases "st_heads st";
      auto simp: take_front_def stream_ok_def buf_of_head_def Let_def split: if_splits)+

lemma take_front_simps:
  assumes "take_front len st = (out, hs, st')"
  shows "st_id st' = st_id st" "st_die st' = st_die st" "st_numRead st' = st_numRead st"
    "st_incr st' = st_incr st"
  using assms by (auto simp: take_front_def Let_def split: list.splits if_splits)

lemma count_read_simps:
  assumes "count_read c n st = (notify, st')"
  shows "st_content st' = st_content st" "st_die st' = st_die st" "st_id st' = st_id st"
    "stream_ok st' = stream_ok st" "st_size st' = st_size st"
  using assms
  by (auto simp: count_read_def st_content_def stream_ok_def st_size_def Let_def split: if_splits)

section \<open>What a read does\<close>

lemma returnTokens_die [simp]: "se_store (returnTokens n s) ! r = se_store s ! r"
  by simp

text \<open>Both versions: the stream's content, the bucket and the error of one \<^verbatim>\<open>tryRead\<close>.\<close>

definition reads_front :: "nat \<Rightarrow> nat \<Rightarrow> session \<Rightarrow> bytes \<Rightarrow> smux_err option \<Rightarrow> session \<Rightarrow> bool" where
  "reads_front r len s out err s' \<longleftrightarrow>
     st_content (se_store s ! r) = out @ st_content (se_store s' ! r) \<and>
     length out \<le> len \<and>
     (st_content (se_store s ! r) \<noteq> [] \<longrightarrow> out \<noteq> []) \<and>
     se_bucket s' = se_bucket s + of_nat (length out) \<and>
     (out = [] \<longrightarrow> err = Some (if st_die (se_store s ! r) then ErrEOF else ErrWouldBlock))"

lemma tryRead_lock_front:
  assumes "tryRead_lock r len s = (out, s')" "r < length (se_store s)"
    "stream_ok (se_store s ! r)" "0 < len"
  shows "st_content (se_store s ! r) = out @ st_content (se_store s' ! r)" "length out \<le> len"
    "st_content (se_store s ! r) \<noteq> [] \<longrightarrow> out \<noteq> []" "se_bucket s' = se_bucket s"
    "st_die (se_store s' ! r) = st_die (se_store s ! r)" "stream_ok (se_store s' ! r)"
proof -
  obtain hs st' where t: "take_front len (se_store s ! r) = (out, hs, st')"
    and s': "s' = put_bufs hs (upd_stream r (\<lambda>_. st') s)"
    using assms(1) by (auto simp: tryRead_lock_def Let_def split: prod.splits)
  have r: "se_store s' ! r = st'" using assms(2) by (simp add: s' store_upd_stream)
  show "st_content (se_store s ! r) = out @ st_content (se_store s' ! r)" "length out \<le> len"
    using take_front_content [OF t] by (simp_all add: r)
  show "st_content (se_store s ! r) \<noteq> [] \<longrightarrow> out \<noteq> []"
    using take_front_nonempty [OF t assms(3) _ assms(4)] by blast
  show "se_bucket s' = se_bucket s" by (simp add: s')
  show "st_die (se_store s' ! r) = st_die (se_store s ! r)"
    using take_front_simps [OF t] by (simp add: r)
  show "stream_ok (se_store s' ! r)"
    using take_front_ok [OF t assms(3)] by (simp add: r)
qed

lemma tryReadv2_lock_front:
  assumes "tryReadv2_lock r len s = (out, notify, s')" "r < length (se_store s)"
    "stream_ok (se_store s ! r)" "0 < len"
  shows "st_content (se_store s ! r) = out @ st_content (se_store s' ! r)" "length out \<le> len"
    "st_content (se_store s ! r) \<noteq> [] \<longrightarrow> out \<noteq> []" "se_bucket s' = se_bucket s"
    "st_die (se_store s' ! r) = st_die (se_store s ! r)" "stream_ok (se_store s' ! r)"
proof -
  obtain hs st1 st2 where t: "take_front len (se_store s ! r) = (out, hs, st1)"
    and c: "count_read (se_config s) (length out) st1 = (notify, st2)"
    and s': "s' = put_bufs hs (upd_stream r (\<lambda>_. st2) s)"
    using assms(1) by (auto simp: tryReadv2_lock_def Let_def split: prod.splits)
  have r: "se_store s' ! r = st2" using assms(2) by (simp add: s' store_upd_stream)
  note cs = count_read_simps [OF c]
  show "st_content (se_store s ! r) = out @ st_content (se_store s' ! r)" "length out \<le> len"
    using take_front_content [OF t] by (simp_all add: r cs)
  show "st_content (se_store s ! r) \<noteq> [] \<longrightarrow> out \<noteq> []"
    using take_front_nonempty [OF t assms(3) _ assms(4)] by blast
  show "se_bucket s' = se_bucket s" by (simp add: s')
  show "st_die (se_store s' ! r) = st_die (se_store s ! r)"
    using take_front_simps [OF t] by (simp add: r cs)
  show "stream_ok (se_store s' ! r)"
    using take_front_ok [OF t assms(3)] by (simp add: r cs)
qed

lemma tryRead_front:
  assumes "tryRead ev r len s = ((out, err), s')" "r < length (se_store s)"
    "stream_ok (se_store s ! r)" "0 < len"
  shows "reads_front r len s out err s'" "stream_ok (se_store s' ! r)"
proof -
  have "reads_front r len s out err s' \<and> stream_ok (se_store s' ! r)"
  proof (cases "cVersion (se_config s) = 2")
    case True
    obtain out' notify s1 where l: "tryReadv2_lock r len s = (out', notify, s1)"
      using prod_cases3 by blast
    note f = tryReadv2_lock_front [OF l assms(2-4)]
    show ?thesis
    proof (cases "out' = []")
      case empty: True
      with True assms(1,4) l have e: "out = [] \<and> err = read_empty r s1 \<and> s' = s1"
        by (auto simp: tryRead_def tryReadv2_def)
      with f(1,3,4,5) empty show ?thesis using f(6) by (simp add: reads_front_def read_empty_def)
    next
      case False
      obtain err3 s3 where u: "sendWindowUpdate ev r notify (returnTokens (length out') s1) = (err3, s3)"
        by fastforce
      from sendWindowUpdate_frame [OF u]
      have s3: "se_store s3 = se_store s1" "se_bucket s3 = se_bucket s1 + of_nat (length out')"
        by simp_all
      have "tryRead ev r len s =
          (if notify > 0 then ((out', err3), s3) else ((out', None), returnTokens (length out') s1))"
        using True False assms(4) l u by (simp add: tryRead_def tryReadv2_def)
      then have "out = out' \<and> (s' = s3 \<or> s' = returnTokens (length out') s1)"
        unfolding assms(1) by (cases "notify > 0") (simp_all only: if_True if_False prod.inject, blast+)
      then have o: "out = out'" and st: "se_store s' = se_store s1"
        and b: "se_bucket s' = se_bucket s + of_nat (length out')"
        using s3 f(4) by (elim conjE disjE; simp)+
      show ?thesis
        unfolding reads_front_def o st b using f(1,2,3,6) False by blast
    qed
  next
    case False
    obtain out' s1 where l: "tryRead_lock r len s = (out', s1)" by fastforce
    note f = tryRead_lock_front [OF l assms(2-4)]
    show ?thesis
    proof (cases "out' = []")
      case empty: True
      with False assms(1,4) l have e: "out = [] \<and> err = read_empty r s1 \<and> s' = s1"
        by (auto simp: tryRead_def)
      with f(1,3,4,5) empty show ?thesis using f(6) by (simp add: reads_front_def read_empty_def)
    next
      case ne: False
      with False assms(1,4) l have "out = out' \<and> s' = returnTokens (length out') s1"
        by (auto simp: tryRead_def)
      then have o: "out = out'" and st: "se_store s' = se_store s1"
        and b: "se_bucket s' = se_bucket s + of_nat (length out')"
        using f(4) by simp_all
      show ?thesis
        unfolding reads_front_def o st b using f(1,2,3,6) ne by blast
    qed
  qed
  then show "reads_front r len s out err s'" "stream_ok (se_store s' ! r)" by blast+
qed

text \<open>Reads one after the other, each into a buffer of its own length.\<close>

fun read_all :: "(wf_event \<times> nat) list \<Rightarrow> nat \<Rightarrow> session \<Rightarrow> bytes \<times> session" where
  "read_all [] r s = ([], s)"
| "read_all ((ev, len) # evs) r s =
     (case tryRead ev r len s of
        ((out, _), s1) \<Rightarrow> (case read_all evs r s1 of (outs, s2) \<Rightarrow> (out @ outs, s2)))"

lemma writeFrameInternal_len:
  "writeFrameInternal ev f c s = (x, s') \<Longrightarrow> length (se_store s') = length (se_store s)"
  using writeFrameInternal_simps(2) [of ev f c s] by simp

lemma tryRead_length:
  assumes "tryRead ev r len s = (x, s')"
  shows "length (se_store s') = length (se_store s)"
proof -
  have l1: "tryRead_lock r len s = (out, s1) \<Longrightarrow> length (se_store s1) = length (se_store s)" for out s1
    by (auto simp: tryRead_lock_def Let_def split: prod.splits)
  have l2: "tryReadv2_lock r len s = (out, n, s1) \<Longrightarrow> length (se_store s1) = length (se_store s)"
    for out n s1
    by (auto simp: tryReadv2_lock_def Let_def split: prod.splits)
  show ?thesis
    using assms sendWindowUpdate_frame(1)
    by (auto simp: tryRead_def tryReadv2_def Let_def dest!: l1 l2 split: if_splits prod.splits)
qed

lemma read_all_spec:
  assumes "r < length (se_store s)" "stream_ok (se_store s ! r)" "list_all (\<lambda>p. 0 < snd p) evs"
    "read_all evs r s = (out, s')"
  shows "st_content (se_store s ! r) = out @ st_content (se_store s' ! r) \<and>
    se_bucket s' = se_bucket s + of_nat (length out) \<and>
    (length out < length evs \<longrightarrow> st_content (se_store s' ! r) = [])"
  using assms
proof (induction evs arbitrary: s out s')
  case (Cons p evs)
  obtain ev len where p: "p = (ev, len)" by fastforce
  obtain o1 e1 s1 where t: "tryRead ev r len s = ((o1, e1), s1)" by (metis prod.collapse)
  obtain o2 s2 where ra: "read_all evs r s1 = (o2, s2)" by fastforce
  from Cons.prems t ra have out: "out = o1 @ o2" "s' = s2" by (auto simp: p)
  have f: "reads_front r len s o1 e1 s1" "stream_ok (se_store s1 ! r)"
    using tryRead_front [OF t] Cons.prems(1-3) by (simp_all add: p)
  have lr: "r < length (se_store s1)"
    using Cons.prems(1) unfolding tryRead_length [OF t] .
  have la: "list_all (\<lambda>p. 0 < snd p) evs"
    using Cons.prems(3) by (simp only: list.pred_inject)
  note ih = Cons.IH [OF lr f(2) la ra]
  have c: "st_content (se_store s ! r) = o1 @ o2 @ st_content (se_store s2 ! r)"
    using f(1) conjunct1 [OF ih] by (simp only: reads_front_def append_assoc)
  have b: "se_bucket s2 = se_bucket s + of_nat (length (o1 @ o2))"
    using f(1) conjunct1 [OF conjunct2 [OF ih]]
    by (simp only: reads_front_def length_append of_nat_add add.assoc)
  have "st_content (se_store s2 ! r) = []" if "length (o1 @ o2) < length (p # evs)"
  proof (cases "o1 = []")
    case True
    with f(1) have "st_content (se_store s ! r) = []" unfolding reads_front_def by blast
    then show ?thesis unfolding c by blast
  next
    case False
    then have "0 < length o1" by simp
    moreover have "length o1 + length o2 < Suc (length evs)" using that by simp
    ultimately have "length o2 < length evs" by linarith
    with ih show ?thesis by blast
  qed
  then show ?case unfolding out append_assoc using c b by blast
qed simp

text \<open>
  In version 1, when the stream has bytes, \<^verbatim>\<open>Read\<close> returns some of the first ones at once and
  no error, without waiting and without looking at deadlines, socket errors, FIN or \<^verbatim>\<open>Close\<close>.
\<close>

lemma Read_takes_data_first:
  assumes "r < length (se_store s)" "stream_ok (se_store s ! r)" "0 < len"
    "st_content (se_store s ! r) \<noteq> []" "cVersion (se_config s) = 1"
  shows "\<exists>out s'. stream_Read [] wev r len s = Some ((out, None), s') \<and> out \<noteq> [] \<and>
    st_content (se_store s ! r) = out @ st_content (se_store s' ! r)"
proof -
  obtain out err s' where t: "tryRead wev r len s = ((out, err), s')" by (metis prod.collapse)
  note f = tryRead_front(1) [OF t assms(1-3)]
  have "out \<noteq> []" using f assms(4) by (simp add: reads_front_def)
  moreover have "err = None"
    using t \<open>out \<noteq> []\<close> assms(3,5) by (auto simp: tryRead_def split: prod.splits if_splits)
  ultimately show ?thesis
    using t f by (subst stream_Read.simps) (simp add: reads_front_def)
qed

section \<open>Properties\<close>

text \<open>
  C4: reading is first in, first out. Over any sequence of reads with non-empty buffers, in
  either version, the bytes returned followed by what the stream still holds are what the stream
  held; as many reads as it holds bytes empty it; and the session's bucket has grown by exactly
  the bytes read.
\<close>

theorem stream_reads_fifo:
  assumes "r < length (se_store s)" "stream_ok (se_store s ! r)" "list_all (\<lambda>p. 0 < snd p) evs"
  shows "case read_all evs r s of (out, s') \<Rightarrow>
    st_content (se_store s ! r) = out @ st_content (se_store s' ! r) \<and>
    se_bucket s' = se_bucket s + of_nat (length out) \<and>
    (st_size (se_store s ! r) \<le> length evs \<longrightarrow> out = st_content (se_store s ! r))"
proof -
  obtain out s' where ra: "read_all evs r s = (out, s')" by fastforce
  note sp = read_all_spec [OF assms ra]
  have "st_content (se_store s' ! r) = []" if "st_size (se_store s ! r) \<le> length evs"
  proof (cases "length out < length evs")
    case False
    from sp have "st_size (se_store s ! r) = length out + length (st_content (se_store s' ! r))"
      by (simp add: st_size_def)
    with that False have "length (st_content (se_store s' ! r)) = 0" by linarith
    then show ?thesis by simp
  qed (use sp in blast)
  with sp ra show ?thesis by auto
qed

definition demo_stream :: stream where
  "demo_stream = pushBytes ([3], 4) (pushBytes ([1, 2], 2) (newStream 3 8))"

theorem stream_reads_fifo_witness:
  "case read_all [(Wf1Die, 1), (Wf1Die, 5), (Wf1Die, 5)] 0
      ((newSession DefaultConfig True)\<lparr>se_store := [demo_stream]\<rparr>) of (out, s') \<Rightarrow> out = [1, 2, 3]"
proof -
  have pool: "from_pool ([1, 2], 2)" "from_pool ([3], 4)"
    by (auto simp: from_pool_def intro: exI [of _ 1] exI [of _ 2])
  then have "stream_ok demo_stream"
    unfolding demo_stream_def by (intro pushBytes_ok stream_ok_simps) simp_all
  let ?s = "(newSession DefaultConfig True)\<lparr>se_store := [demo_stream]\<rparr>"
  obtain out s' where ra: "read_all [(Wf1Die, 1), (Wf1Die, 5), (Wf1Die, 5)] 0 ?s = (out, s')"
    by fastforce
  have c: "st_content (se_store ?s ! 0) = [1, 2, 3]" "st_size (se_store ?s ! 0) = 3"
    by (simp_all add: demo_stream_def st_size_def st_content_def pushBytes_def newStream_def)
  have l: "list_all (\<lambda>p. 0 < snd p) [(Wf1Die, 1), (Wf1Die, 5), (Wf1Die, 5 :: nat)]" by simp
  have "0 < length (se_store ?s)" "stream_ok (se_store ?s ! 0)"
    using \<open>stream_ok demo_stream\<close> by simp_all
  from stream_reads_fifo [OF this l] have "3 \<le> length [(Wf1Die, 1), (Wf1Die, 5), (Wf1Die, 5 :: nat)] \<longrightarrow> out = [1, 2, 3]"
    unfolding ra c prod.case by blast
  then show ?thesis unfolding ra prod.case by simp
qed

end
