(* ===== verification/Smux_Session.thy ===== *)
theory Smux_Session
  imports Smux_Stream
begin

text \<open>
  The operations of a session (\<^verbatim>\<open>smux/session.go\<close>): opening and accepting streams, closing, the
  receive loop, the keepalive and the send loop. Each loop is given by its turns, an operation
  that releases a lock on the way by its parts.
\<close>

section \<open>OpenStream\<close>

text \<open>Up to the release of \<^verbatim>\<open>nextStreamIDLock\<close>: an error, or the id of the new stream.\<close>

definition open_begin :: "session \<Rightarrow> (smux_err + u32) \<times> session" where
  "open_begin s =
     (if IsClosed s then (Inl ErrClosedPipe, s)
      else if se_goAway s then (Inl ErrGoAway, s)
      else let sid = se_nextStreamID s + 2; s1 = s\<lparr>se_nextStreamID := sid\<rparr>
           in if sid = sid mod 2 then (Inl ErrGoAway, s1\<lparr>se_goAway := True\<rparr>)
              else (Inr sid, s1))"

definition open_syn :: "wf_event \<Rightarrow> u32 \<Rightarrow> session \<Rightarrow> smux_err option \<times> session" where
  "open_syn ev sid s =
     (let ((_, err), s') =
            writeFrame ev (newFrame (word_of_int (cVersion (se_config s))) cmdSYN sid) s
      in (err, s'))"

text \<open>
  The section under \<^verbatim>\<open>streamLock\<close>: the errors whose channels are closed, one of which the
  \<^verbatim>\<open>select\<close> picks; when there is none, the stream enters the map.
\<close>

definition open_errors :: "session \<Rightarrow> smux_err list" where
  "open_errors s =
     (case se_socketReadError s of Some e \<Rightarrow> [e] | None \<Rightarrow> []) @
     (case se_socketWriteError s of Some e \<Rightarrow> [e] | None \<Rightarrow> []) @
     (if se_die s then [ErrClosedPipe] else [])"

definition add_stream :: "u32 \<Rightarrow> session \<Rightarrow> nat \<times> session" where
  "add_stream sid s =
     (let r = length (se_store s)
      in (r, s\<lparr>se_store := se_store s @ [newStream sid (cMaxFrameSize (se_config s))],
               se_streams := AList.update sid r (se_streams s)\<rparr>))"

definition open_finish :: "nat \<Rightarrow> u32 \<Rightarrow> session \<Rightarrow> (smux_err + nat) \<times> session" where
  "open_finish pick sid s =
     (let es = open_errors s
      in if es \<noteq> [] then (Inl (es ! (pick mod length es)), s)
         else let (r, s') = add_stream sid s in (Inr r, s'))"

definition OpenStream ::
  "wf_event \<Rightarrow> (session \<Rightarrow> session) \<Rightarrow> nat \<Rightarrow> session \<Rightarrow> (smux_err + nat) \<times> session" where
  "OpenStream ev env pick s =
     (case open_begin s of
        (Inl e, s1) \<Rightarrow> (Inl e, s1)
      | (Inr sid, s1) \<Rightarrow>
          (case open_syn ev sid s1 of
             (Some e, s2) \<Rightarrow> (Inl e, s2)
           | (None, s2) \<Rightarrow> open_finish pick sid (env s2)))"

section \<open>AcceptStream\<close>

datatype ac_event = AcStream | AcDeadline | AcReadErr smux_err | AcProtoErr smux_err | AcDie

definition ac_ready :: "session \<Rightarrow> ac_event \<Rightarrow> bool" where
  "ac_ready s ev =
     (case ev of
        AcStream \<Rightarrow> se_accepts s \<noteq> []
      | AcDeadline \<Rightarrow> se_deadline s \<noteq> None
      | AcReadErr e \<Rightarrow> se_socketReadError s = Some e
      | AcProtoErr e \<Rightarrow> se_protoError s = Some e
      | AcDie \<Rightarrow> se_die s)"

definition AcceptStream :: "ac_event \<Rightarrow> session \<Rightarrow> (smux_err + nat) \<times> session" where
  "AcceptStream ev s =
     (case ev of
        AcStream \<Rightarrow> (Inr (hd (se_accepts s)), s\<lparr>se_accepts := tl (se_accepts s)\<rparr>)
      | AcDeadline \<Rightarrow> (Inl ErrTimeout, s)
      | AcReadErr e \<Rightarrow> (Inl e, s)
      | AcProtoErr e \<Rightarrow> (Inl e, s)
      | AcDie \<Rightarrow> (Inl ErrClosedPipe, s))"

definition SetDeadline_session :: "int option \<Rightarrow> session \<Rightarrow> session" where
  "SetDeadline_session t s = s\<lparr>se_deadline := t\<rparr>"

section \<open>Close\<close>

definition close_once :: "session \<Rightarrow> bool \<times> session" where
  "close_once s = (if se_die s then (False, s) else (True, s\<lparr>se_die := True\<rparr>))"

text \<open>Under \<^verbatim>\<open>streamLock\<close>: every stream of the map; then the connection.\<close>

definition close_streams :: "session \<Rightarrow> session" where
  "close_streams s = fold (\<lambda>p. upd_stream (snd p) sessionClose) (se_streams s) s"

definition session_Close :: "smux_err option \<Rightarrow> session \<Rightarrow> smux_err option \<times> session" where
  "session_Close cerr s =
     (case close_once s of
        (False, s1) \<Rightarrow> (Some ErrClosedPipe, s1)
      | (True, s1) \<Rightarrow> (cerr, (close_streams s1)\<lparr>se_connClosed := True\<rparr>))"

section \<open>The receive loop\<close>

text \<open>
  \<^verbatim>\<open>io.ReadFull\<close> on the connection. Whether the bytes of an unfinished read have left the
  connection cannot be seen, so they stay until the read is complete.
\<close>

datatype io_result = IoOk bytes session | IoErr smux_err | IoBlock

definition read_full :: "nat \<Rightarrow> session \<Rightarrow> io_result" where
  "read_full n s =
     (if n \<le> length (se_input s)
      then IoOk (take n (se_input s)) (s\<lparr>se_input := drop n (se_input s)\<rparr>)
      else case se_inputEnd s of
             None \<Rightarrow> IoBlock
           | Some e \<Rightarrow> IoErr (if e = ErrEOF \<and> se_input s \<noteq> [] then ErrUnexpectedEOF else e))"

definition recv_fail :: "smux_err \<Rightarrow> session \<Rightarrow> session" where
  "recv_fail e s = (notifyReadError e s)\<lparr>se_phase := RExited\<rparr>"

definition recv_proto :: "session \<Rightarrow> session" where
  "recv_proto s = (notifyProtoError ErrInvalidProtocol s)\<lparr>se_phase := RExited\<rparr>"

text \<open>The \<^verbatim>\<open>switch\<close> on a complete header; \<open>hit\<close> is whether the buffer pool still has a buffer.\<close>

definition recv_header :: "bool \<Rightarrow> bytes \<Rightarrow> session \<Rightarrow> session" where
  "recv_header hit h s =
     (let sid = hdr_StreamID h; cmd = hdr_Cmd h
      in if hdr_Version h \<noteq> word_of_int (cVersion (se_config s)) then recv_proto s
         else if cmd = cmdNOP then s\<lparr>se_phase := RHeader\<rparr>
         else if cmd = cmdSYN then
           (case map_of (se_streams s) sid of
              Some _ \<Rightarrow> s\<lparr>se_phase := RHeader\<rparr>
            | None \<Rightarrow> (let (r, s1) = add_stream sid s in s1\<lparr>se_phase := RAccept r\<rparr>))
         else if cmd = cmdFIN then
           (case map_of (se_streams s) sid of
              Some r \<Rightarrow> (upd_stream r (\<lambda>st. notifyReadEvent (stream_fin st)) s)\<lparr>se_phase := RHeader\<rparr>
            | None \<Rightarrow> s\<lparr>se_phase := RHeader\<rparr>)
         else if cmd = cmdPSH then
           (if hdr_Length h > 0 then
              (case alloc_Get hit (int (unat (hdr_Length h))) (se_alloc s) of
                 (GSlice b, a) \<Rightarrow> s\<lparr>se_alloc := a, se_phase := RPayload sid (slen b) (scap b)\<rparr>
               | (_, a) \<Rightarrow> s\<lparr>se_alloc := a, se_phase := RExited\<rparr>)
            else s\<lparr>se_phase := RHeader\<rparr>)
         else if cmd = cmdUPD then s\<lparr>se_phase := RUpdate sid\<rparr>
         else recv_proto s)"

datatype recv_event = RvRun bool | RvDie

definition recv_step :: "recv_event \<Rightarrow> session \<Rightarrow> session" where
  "recv_step ev s =
     (case ev of
        RvRun hit \<Rightarrow>
          (case se_phase s of
             RHeader \<Rightarrow>
               if sint (se_bucket s) \<le> 0 \<and> \<not> IsClosed s then s\<lparr>se_phase := RWaitTokens\<rparr>
               else (case read_full headerSize s of
                       IoBlock \<Rightarrow> s
                     | IoErr e \<Rightarrow> recv_fail e s
                     | IoOk h s1 \<Rightarrow> recv_header hit h (s1\<lparr>se_dataReady := True\<rparr>))
           | RWaitTokens \<Rightarrow>
               if se_bucketNotify s then s\<lparr>se_bucketNotify := False, se_phase := RHeader\<rparr> else s
           | RPayload sid len cap \<Rightarrow>
               (case read_full len s of
                  IoBlock \<Rightarrow> s
                | IoErr e \<Rightarrow> recv_fail e s
                | IoOk data s1 \<Rightarrow>
                    (case map_of (se_streams s1) sid of
                       None \<Rightarrow> s1\<lparr>se_phase := RHeader\<rparr>
                     | Some r \<Rightarrow>
                         (upd_stream r (pushBytes (data, cap)) s1)\<lparr>se_phase := RPushed r len\<rparr>))
           | RPushed r n \<Rightarrow>
               (upd_stream r notifyReadEvent s)
                 \<lparr>se_bucket := se_bucket s - of_nat n, se_phase := RHeader\<rparr>
           | RUpdate sid \<Rightarrow>
               (case read_full szCmdUPD s of
                  IoBlock \<Rightarrow> s
                | IoErr e \<Rightarrow> recv_fail e s
                | IoOk h s1 \<Rightarrow>
                    (case map_of (se_streams s1) sid of
                       None \<Rightarrow> s1\<lparr>se_phase := RHeader\<rparr>
                     | Some r \<Rightarrow>
                         (upd_stream r (stream_update (upd_Consumed h) (upd_Window h)) s1)
                           \<lparr>se_phase := RHeader\<rparr>))
           | RAccept r \<Rightarrow>
               if length (se_accepts s) < defaultAcceptBacklog
               then s\<lparr>se_accepts := se_accepts s @ [r], se_phase := RHeader\<rparr> else s
           | RExited \<Rightarrow> s)
      | RvDie \<Rightarrow>
          if \<not> se_die s then s
          else (case se_phase s of
                  RWaitTokens \<Rightarrow> s\<lparr>se_phase := RExited\<rparr>
                | RAccept r \<Rightarrow> s\<lparr>se_phase := RHeader\<rparr>
                | _ \<Rightarrow> s))"

text \<open>\<^verbatim>\<open>streamLock\<close> is free for the others.\<close>

definition lock_free :: "session \<Rightarrow> bool" where
  "lock_free s = (case se_phase s of RPushed _ _ \<Rightarrow> False | RAccept _ \<Rightarrow> False | _ \<Rightarrow> True)"

section \<open>Keepalive\<close>

definition keepalive_ping :: "wf_event \<Rightarrow> session \<Rightarrow> session" where
  "keepalive_ping ev s =
     notifyBucket
       (snd (writeFrameInternal ev (newFrame (word_of_int (cVersion (se_config s))) cmdNOP 0)
               CLSCTRL s))"

text \<open>A tick of the timeout: whether the loop goes on.\<close>

definition keepalive_timeout :: "session \<Rightarrow> bool \<times> session" where
  "keepalive_timeout s =
     (if se_dataReady s then (True, s\<lparr>se_dataReady := False\<rparr>)
      else if sint (se_bucket s) > 0 then (False, snd (session_Close None s))
      else (True, s))"

section \<open>The send loop\<close>

text \<open>
  One turn of \<^verbatim>\<open>sendLoop\<close> on a request: what goes to the connection (none: the slice of the send
  buffer panics), the result sent back, given what \<^verbatim>\<open>Write\<close> returned, and whether the loop ends.
\<close>

definition sendLoop_turn ::
  "bool \<Rightarrow> frame \<Rightarrow> int \<Rightarrow> smux_err option \<Rightarrow> session \<Rightarrow>
   (bytes \<times> (nat \<times> smux_err option) \<times> bool \<times> session) option" where
  "sendLoop_turn writeBuffers f n err s =
     (case frame_wire writeBuffers f of
        None \<Rightarrow> None
      | Some w \<Rightarrow>
          Some (w, send_result n err, err \<noteq> None,
                (case err of None \<Rightarrow> s | Some e \<Rightarrow> notifyWriteError e s)))"

end
