(* ===== verification/Smux_Write.thy ===== *)
theory Smux_Write
  imports Smux_Stream "HOL-Library.Sublist"
begin

text \<open>
  What \<^verbatim>\<open>Write\<close> and \<^verbatim>\<open>writeV2\<close> of \<^verbatim>\<open>smux/stream.go\<close> send: the chunks a buffer is cut into, the
  frames submitted for them, and the flow control of version 2.
\<close>

section \<open>Chunks\<close>

function chunks :: "nat \<Rightarrow> bytes \<Rightarrow> bytes list" where
  "chunks fs b = (if b = [] then [] else if fs = 0 then [b] else take fs b # chunks fs (drop fs b))"
  by auto
termination by (relation "measure (length \<circ> snd)") auto

declare chunks.simps [simp del]

lemma chunks_Nil [simp]: "chunks fs [] = []"
  by (simp add: chunks.simps)

lemma chunks_Cons:
  "b \<noteq> [] \<Longrightarrow> 0 < fs \<Longrightarrow> chunks fs b = take fs b # chunks fs (drop fs b)"
  by (subst chunks.simps) simp

lemma chunks_0: "b \<noteq> [] \<Longrightarrow> chunks 0 b = [b]"
  by (subst chunks.simps) simp

lemma concat_chunks [simp]: "concat (chunks fs b) = b"
proof (induction fs b rule: chunks.induct)
  case (1 fs b)
  show ?case
  proof (cases "b = [] \<or> fs = 0")
    case True
    then show ?thesis by (cases "b = []") (auto simp: chunks_0)
  next
    case False
    with 1 show ?thesis by (simp add: chunks_Cons)
  qed
qed

lemma chunks_size: "0 < fs \<Longrightarrow> c \<in> set (chunks fs b) \<Longrightarrow> c \<noteq> [] \<and> length c \<le> fs"
proof (induction fs b rule: chunks.induct)
  case (1 fs b)
  show ?case
  proof (cases "b = []")
    case False
    with 1 have "c = take fs b \<or> c \<in> set (chunks fs (drop fs b))" by (simp add: chunks_Cons)
    with 1 False show ?thesis by auto
  qed (use 1 in simp)
qed

text \<open>The frames and requests a stream submits for chunks, numbered after \<open>q\<close>.\<close>

definition psh_frame :: "session \<Rightarrow> nat \<Rightarrow> bytes \<Rightarrow> frame" where
  "psh_frame s r c =
     (newFrame (word_of_int (cVersion (se_config s))) cmdPSH (st_id (se_store s ! r)))\<lparr>fdata := c\<rparr>"

fun data_requests :: "(bytes \<Rightarrow> frame) \<Rightarrow> u32 \<Rightarrow> bytes list \<Rightarrow> writeRequest list" where
  "data_requests mk q [] = []"
| "data_requests mk q (c # cs) =
     \<lparr>wclass = CLSDATA, wframe = mk c, wseq = q + 1\<rparr> # data_requests mk (q + 1) cs"

definition ok_results :: "bytes list \<Rightarrow> wf_event list" where
  "ok_results cs = map (\<lambda>c. Wf2Result (int (headerSize + length c)) None) cs"

text \<open>The bytes of the data frames among requests.\<close>

definition payload :: "writeRequest list \<Rightarrow> bytes" where
  "payload rs = concat (map (fdata \<circ> wframe) rs)"

lemma payload_append [simp]: "payload (xs @ ys) = payload xs @ payload ys"
  by (simp add: payload_def)

lemma payload_data_requests:
  "(\<And>c. fdata (mk c) = c) \<Longrightarrow> payload (data_requests mk q cs) = concat cs"
  by (induction cs arbitrary: q) (simp_all add: payload_def)

section \<open>The frame loop\<close>

text \<open>One turn of the loop on a non-empty buffer.\<close>

lemma send_chunks_turn:
  assumes "b \<noteq> []" "st_frameSize (se_store s ! r) = int fs" "0 < fs"
  shows "send_chunks adv (ev # evs) r b sent s =
    (let ((n, err), s1) = writeFrameInternal ev (psh_frame s r (take fs b)) CLSDATA s;
         s2 = upd_stream r (\<lambda>st. st\<lparr>st_numWritten := st_numWritten st + adv (length (take fs b))\<rparr>) s1
     in case err of Some e \<Rightarrow> Some ((sent + n, Some e), s2)
        | None \<Rightarrow> send_chunks adv evs r (drop fs b) (sent + n) s2)"
proof (cases "fs < length b")
  case True
  with assms(1,3) show ?thesis
    by (subst send_chunks.simps)
      (simp add: assms(2) psh_frame_def Let_def min_def split: prod.split option.split)
next
  case False
  then have "take fs b = b" "drop fs b = []" by simp_all
  with assms(1,3) False show ?thesis
    by (subst send_chunks.simps) (simp add: assms(2) psh_frame_def Let_def split: prod.split option.split)
qed

definition wrote :: "u32 \<Rightarrow> stream \<Rightarrow> stream" where
  "wrote k st = st\<lparr>st_numWritten := st_numWritten st + k\<rparr>"

lemma wrote_simps [simp]:
  "st_frameSize (wrote k st) = st_frameSize st" "st_id (wrote k st) = st_id st"
  "st_numWritten (wrote k st) = st_numWritten st + k"
  "st_peerConsumed (wrote k st) = st_peerConsumed st" "st_peerWindow (wrote k st) = st_peerWindow st"
  "wrote j (wrote k st) = wrote (k + j) st" "wrote 0 st = st"
  by (simp_all add: wrote_def add.assoc)

lemma psh_frame_simps [simp]:
  "fdata (psh_frame s r c) = c"
  "fcmd (psh_frame s r c) = cmdPSH"
  by (simp_all add: psh_frame_def newFrame_def)

lemma psh_frame_cong:
  "se_config s' = se_config s \<Longrightarrow> st_id (se_store s' ! r) = st_id (se_store s ! r) \<Longrightarrow>
   psh_frame s' r = psh_frame s r"
  by (simp add: psh_frame_def fun_eq_iff)

text \<open>
  When every frame is written, the loop returns the full length, submits one request per chunk
  in order, and only \<^verbatim>\<open>numWritten\<close> of the stream has moved.
\<close>

lemma send_chunks_ok:
  assumes "st_frameSize (se_store s ! r) = int fs" "0 < fs" "r < length (se_store s)"
  shows "\<exists>s'. send_chunks adv (ok_results (chunks fs b) @ evs) r b sent s
             = Some ((sent + length b, None), s') \<and>
     se_submitted s' = se_submitted s @ data_requests (psh_frame s r) (se_requestID s) (chunks fs b) \<and>
     se_store s' = (se_store s)
       [r := wrote (sum_list (map (\<lambda>c. adv (length c)) (chunks fs b))) (se_store s ! r)]"
  using assms
proof (induction fs b arbitrary: s sent rule: chunks.induct)
  case (1 fs b)
  show ?case
  proof (cases "b = []")
    case True
    then show ?thesis by (simp add: send_chunks.simps)
  next
    case False
    let ?c = "take fs b"
    obtain n err s1 where w: "writeFrameInternal (Wf2Result (int (headerSize + length ?c)) None)
        (psh_frame s r ?c) CLSDATA s = ((n, err), s1)"
      by (metis prod_cases3 prod.collapse)
    have "int (headerSize + length ?c) = int (headerSize + length (fdata (psh_frame s r ?c)))" by simp
    note ok = writeFrameInternal_ok [OF w this]
    have s1: "se_store s1 = se_store s" "se_config s1 = se_config s"
      using writeFrameInternal_simps(2,4) [of _ "psh_frame s r ?c" CLSDATA s] w
      by (metis snd_conv)+
    define s2 where "s2 = upd_stream r (\<lambda>st. st\<lparr>st_numWritten := st_numWritten st + adv (length ?c)\<rparr>) s1"
    have st2: "se_store s2 ! r = wrote (adv (length ?c)) (se_store s ! r)"
      using "1.prems"(3) by (simp add: s2_def store_upd_stream s1 wrote_def)
    have "psh_frame s2 r = psh_frame s r"
      by (rule psh_frame_cong) (simp_all add: st2, simp add: s2_def s1)
    moreover have "se_requestID s2 = se_requestID s + 1" "se_submitted s2 = se_submitted s1"
      using ok(4) by (simp_all add: s2_def)
    moreover have "se_store s2 = (se_store s)[r := wrote (adv (length ?c)) (se_store s ! r)]"
      by (simp add: s2_def store_upd_stream s1 wrote_def)
    ultimately obtain s' where s': "send_chunks adv (ok_results (chunks fs (drop fs b)) @ evs) r
          (drop fs b) (sent + n) s2 = Some ((sent + n + length (drop fs b), None), s')"
      "se_submitted s' = se_submitted s1 @
         data_requests (psh_frame s r) (se_requestID s + 1) (chunks fs (drop fs b))"
      "se_store s' = (se_store s)[r := wrote (adv (length ?c) +
         sum_list (map (\<lambda>c. adv (length c)) (chunks fs (drop fs b)))) (se_store s ! r)]"
      using "1.IH" [of s2 "sent + n"] False "1.prems" by (auto simp: st2)
    have n: "sent + n + length (drop fs b) = sent + length b"
      using ok(1) by simp
    have "send_chunks adv (ok_results (chunks fs b) @ evs) r b sent s =
        send_chunks adv (ok_results (chunks fs (drop fs b)) @ evs) r (drop fs b) (sent + n) s2"
      using send_chunks_turn [OF False "1.prems"(1,2)] w ok(2) "1.prems"(2)
      by (simp add: chunks_Cons [OF False] ok_results_def s2_def Let_def)
    with s' n ok(3) show ?thesis
      using "1.prems"(2) by (simp add: chunks_Cons [OF False])
  qed
qed

text \<open>
  Whatever happens to the frames, what was submitted for the stream is a prefix of the buffer,
  all of it when no error is returned; \<^verbatim>\<open>numWritten\<close> has moved by \<open>k\<close>, which counts the frame
  that failed too.
\<close>

definition sent_prefix :: "(nat \<Rightarrow> u32) \<Rightarrow> nat \<Rightarrow> bytes \<Rightarrow> session \<Rightarrow> smux_err option \<Rightarrow> session \<Rightarrow> nat \<Rightarrow> bool" where
  "sent_prefix adv r b s err s' k \<longleftrightarrow>
     (\<exists>new. se_submitted s' = se_submitted s @ new \<and> prefix (payload new) b \<and>
        length (payload new) \<le> k \<and> (err = None \<longrightarrow> payload new = b)) \<and>
     k \<le> length b \<and>
     (\<exists>x. se_store s' = (se_store s)[r := wrote x (se_store s ! r)] \<and> (adv = of_nat \<longrightarrow> x = of_nat k))"

lemma writeFrameInternal_new:
  assumes "writeFrameInternal ev f c s = ((n, err), s')"
  shows "\<exists>new. se_submitted s' = se_submitted s @ new \<and>
    (payload new = [] \<and> err \<noteq> None \<or> payload new = fdata f)"
proof -
  let ?q = "[\<lparr>wclass = c, wframe = f, wseq = se_requestID s + 1\<rparr>]"
  have "se_submitted s' = se_submitted s @ [] \<and> err \<noteq> None \<or> se_submitted s' = se_submitted s @ ?q"
    using assms
    by (auto simp: writeFrameInternal_def Let_def split: wf_event.splits option.splits)
  moreover have "payload [] = []" "payload ?q = fdata f" by (simp_all add: payload_def)
  ultimately show ?thesis by blast
qed

lemma send_chunks_any:
  assumes "st_frameSize (se_store s ! r) = int fs" "0 < fs" "r < length (se_store s)"
    "send_chunks adv evs r b sent s = Some ((n, err), s')"
  shows "\<exists>k. sent_prefix adv r b s err s' k"
  using assms
proof (induction fs b arbitrary: s sent evs rule: chunks.induct)
  case (1 fs b)
  show ?case
  proof (cases "b = []")
    case True
    with "1.prems" show ?thesis
      by (auto simp: send_chunks.simps sent_prefix_def payload_def intro!: exI [of _ 0])
  next
    case False
    let ?c = "take fs b"
    obtain ev evs' where evs: "evs = ev # evs'"
      using "1.prems"(4) False by (cases evs) (auto simp: send_chunks.simps)
    obtain n1 err1 s1 where w: "writeFrameInternal ev (psh_frame s r ?c) CLSDATA s = ((n1, err1), s1)"
      by (metis prod.collapse)
    have s1: "se_store s1 = se_store s"
      using writeFrameInternal_simps(2) [of ev "psh_frame s r ?c" CLSDATA s] w by simp
    obtain new where new: "se_submitted s1 = se_submitted s @ new"
        "payload new = [] \<and> err1 \<noteq> None \<or> payload new = ?c"
      using writeFrameInternal_new [OF w] by auto
    define s2 where "s2 = upd_stream r (\<lambda>st. st\<lparr>st_numWritten := st_numWritten st + adv (length ?c)\<rparr>) s1"
    have st2: "se_store s2 = (se_store s)[r := wrote (adv (length ?c)) (se_store s ! r)]"
      by (simp add: s2_def store_upd_stream s1 wrote_def)
    have sub2: "se_submitted s2 = se_submitted s @ new" by (simp add: s2_def new)
    have turn: "(case err1 of Some e \<Rightarrow> Some ((sent + n1, Some e), s2)
        | None \<Rightarrow> send_chunks adv evs' r (drop fs b) (sent + n1) s2) = Some ((n, err), s')"
      using send_chunks_turn [OF False "1.prems"(1,2), of adv ev evs' sent] w "1.prems"(4)
      by (simp only: evs w s2_def Let_def prod.case)
    show ?thesis
    proof (cases err1)
      case (Some e)
      with turn have "err = Some e" "s' = s2" by simp_all
      with new(2) st2 sub2 have "sent_prefix adv r b s err s' (length ?c)"
        by (auto simp: sent_prefix_def take_is_prefix intro!: exI [of _ "adv (length ?c)"])
      then show ?thesis ..
    next
      case None
      with turn have t: "send_chunks adv evs' r (drop fs b) (sent + n1) s2 = Some ((n, err), s')"
        by simp
      have "\<exists>k. sent_prefix adv r (drop fs b) s2 err s' k"
        by (rule "1.IH" [OF False _ _ _ _ t]) (use "1.prems" in \<open>simp_all add: st2\<close>)
      then obtain k new' x where k: "se_submitted s' = se_submitted s2 @ new'"
        "prefix (payload new') (drop fs b)" "length (payload new') \<le> k"
        "err = None \<Longrightarrow> payload new' = drop fs b" "k \<le> length (drop fs b)"
        "se_store s' = (se_store s2)[r := wrote x (se_store s2 ! r)]" "adv = of_nat \<Longrightarrow> x = of_nat k"
        unfolding sent_prefix_def by auto
      have "payload new = ?c" using new(2) None by auto
      then have "prefix (payload (new @ new')) (take fs b @ drop fs b)"
        using k(2) by (simp add: same_prefix_prefix del: append_take_drop_id)
      with k new(2) None sub2 st2 "1.prems"(3) \<open>payload new = ?c\<close>
      have "sent_prefix adv r b s err s' (length ?c + k)"
        by (auto simp: sent_prefix_def intro!: exI [of _ "new @ new'"] exI [of _ "adv (length ?c) + x"])
      then show ?thesis ..
    qed
  qed
qed

lemma send_chunks_returns:
  assumes "st_frameSize (se_store s ! r) = int fs" "0 < fs" "r < length (se_store s)"
    "length (chunks fs b) \<le> length evs"
  shows "send_chunks adv evs r b sent s \<noteq> None"
  using assms
proof (induction fs b arbitrary: s sent evs rule: chunks.induct)
  case (1 fs b)
  show ?case
  proof (cases "b = []")
    case True
    then show ?thesis by (simp add: send_chunks.simps)
  next
    case False
    let ?c = "take fs b"
    obtain ev evs' where evs: "evs = ev # evs'"
      using "1.prems"(2,4) False by (cases evs) (auto simp: chunks_Cons)
    obtain n1 err1 s1 where w: "writeFrameInternal ev (psh_frame s r ?c) CLSDATA s = ((n1, err1), s1)"
      by (metis prod.collapse)
    have s1: "se_store s1 = se_store s"
      using writeFrameInternal_simps(2) [of ev "psh_frame s r ?c" CLSDATA s] w by simp
    let ?s2 = "upd_stream r (\<lambda>st. st\<lparr>st_numWritten := st_numWritten st + adv (length ?c)\<rparr>) s1"
    have "send_chunks adv evs' r (drop fs b) (sent + n1) ?s2 \<noteq> None"
      using "1.prems" False
      by (intro "1.IH") (auto simp: store_upd_stream s1 evs chunks_Cons)
    with send_chunks_turn [OF False "1.prems"(1,2), of adv ev evs' sent] w show ?thesis
      by (auto simp: evs Let_def split: option.splits)
  qed
qed

section \<open>Version 2: the window\<close>

lemma sint_nonneg_unat: "0 \<le> sint (x::u32) \<Longrightarrow> unat x < 2 ^ 31"
proof -
  assume "0 \<le> sint x"
  then obtain k where k: "sint x = int k" by (metis nonneg_int_cases)
  have "k < 2 ^ 31" using sint_lt [of x] by (simp add: k)
  moreover have "x = word_of_int (sint x)" by simp
  then have "x = of_nat k" unfolding k by simp
  ultimately show "unat x < 2 ^ 31" by (simp add: unat_of_nat)
qed

lemma sint_unat: "unat x < 2 ^ 31 \<Longrightarrow> sint (x::u32) = int (unat x)"
  using sint_diff_small [of 0 x] by simp

lemma sint_of_nat: "n < 2 ^ 31 \<Longrightarrow> sint (of_nat n :: u32) = int n"
  by (subst sint_unat) (simp_all add: unat_of_nat)

text \<open>
  The window counted in plain numbers: with an honest window (below \<open>2 ^ 31\<close>) and a buffer
  below 2 GiB, the part sent now is the window less what is in flight.
\<close>

lemma v2_split_honest:
  assumes "unat (v2_inflight st) < 2 ^ 31" "unat (st_peerWindow st) < 2 ^ 31" "length b < 2 ^ 31"
  shows "v2_split (v2_win st) b =
    (let k = unat (st_peerWindow st) - unat (v2_inflight st) in (take k b, drop k b))"
proof -
  define w i where "w = unat (st_peerWindow st)" and "i = unat (v2_inflight st)"
  have win: "sint (v2_win st) = int w - int i"
    unfolding v2_win_def w_def i_def using sint_diff_small [OF assms(1,2)] .
  have len: "sint (of_nat (length b) :: u32) = int (length b)"
    using assms(3) by (rule sint_of_nat)
  have k: "nat (int w - int i) = w - i" by simp
  show ?thesis
    unfolding v2_split_def win len w_def [symmetric] i_def [symmetric] Let_def k
    by (cases "i < w") auto
qed

lemma v2_inflight_wrote: "v2_inflight (wrote k st) = v2_inflight st + k"
  by (simp add: v2_inflight_def)

section \<open>Version 2: the receiver's updates\<close>

text \<open>
  A run of reads of the given sizes on the receiving side, with the last value notified to the
  peer (\<open>None\<close>: no update yet).
\<close>

fun count_reads :: "config \<Rightarrow> nat list \<Rightarrow> stream \<times> u32 option \<Rightarrow> stream \<times> u32 option" where
  "count_reads c [] p = p"
| "count_reads c (n # ns) (st, ack) =
     (case count_read c n st of
        (notify, st') \<Rightarrow> count_reads c ns (st', if notify > 0 then Some notify else ack))"

text \<open>
  What is unacknowledged is exactly \<^verbatim>\<open>incr\<close>, and it is below half of the stream buffer.
\<close>

definition ack_inv :: "config \<Rightarrow> nat \<Rightarrow> stream \<times> u32 option \<Rightarrow> bool" where
  "ack_inv c tot p \<longleftrightarrow>
     (case p of (st, ack) \<Rightarrow>
        st_numRead st = of_nat tot \<and>
        (st_incr st = 0 \<or> unat (st_incr st) < nat (cMaxStreamBuffer c) div 2) \<and>
        (case ack of None \<Rightarrow> tot = 0 \<and> st_incr st = 0
         | Some a \<Rightarrow> a = st_numRead st - st_incr st))"

lemma count_read_ack:
  assumes inv: "ack_inv c tot (st, ack)" and n: "0 < n" "n \<le> 65536" "tot + n < 2 ^ 32"
    and c: "0 < cMaxStreamBuffer c" "cMaxStreamBuffer c < 2 ^ 31"
    and r: "count_read c n st = (notify, st')"
  shows "ack_inv c (tot + n) (st', if notify > 0 then Some notify else ack)"
proof -
  define m where "m = nat (cMaxStreamBuffer c) div 2"
  have m: "m < 2 ^ 30" "cMaxStreamBuffer c div 2 = int m" using c by (auto simp: m_def)
  have i: "st_incr st = 0 \<or> unat (st_incr st) < m"
    and nr: "st_numRead st = of_nat tot" using inv by (simp_all add: ack_inv_def m_def)
  let ?nr = "of_nat (tot + n) :: u32" and ?ic = "st_incr st + of_nat n"
  have nr0: "?nr > 0"
    using n by (simp only: word_less_nat_alt unat_of_nat) simp
  have "unat (st_incr st) < 2 ^ 30" using i m(1) by auto
  then have ic: "unat ?ic = unat (st_incr st) + n"
    using n(2) by (simp add: unat_word_ariths unat_of_nat)
  have um: "unat (word_of_int (int m) :: u32) = m"
    using m(1) by (simp add: unat_of_nat)
  show ?thesis
  proof (cases "?ic \<ge> word_of_int (int m) \<or> ?nr = of_nat n")
    case True
    with r nr have "notify = ?nr" "st' = st\<lparr>st_numRead := ?nr, st_incr := 0\<rparr>"
      by (auto simp: count_read_def m(2) Let_def split: if_splits)
    with nr0 show ?thesis by (simp add: ack_inv_def)
  next
    case False
    with r nr have "notify = 0" "st' = st\<lparr>st_numRead := ?nr, st_incr := ?ic\<rparr>"
      by (auto simp: count_read_def m(2) Let_def split: if_splits)
    moreover have "unat ?ic < m" using False um by (simp add: word_le_nat_alt)
    moreover from False have "tot \<noteq> 0" by (intro notI) simp
    ultimately show ?thesis
      using inv by (simp add: ack_inv_def m_def [symmetric] split: option.splits)
  qed
qed

lemma count_reads_ack:
  assumes "ack_inv c tot p" "list_all (\<lambda>n. 0 < n \<and> n \<le> 65536) ns" "tot + sum_list ns < 2 ^ 32"
    "0 < cMaxStreamBuffer c" "cMaxStreamBuffer c < 2 ^ 31"
  shows "ack_inv c (tot + sum_list ns) (count_reads c ns p)"
  using assms
proof (induction ns arbitrary: tot p)
  case (Cons n ns)
  obtain st ack where p: "p = (st, ack)" by fastforce
  obtain notify st' where r: "count_read c n st = (notify, st')" by fastforce
  have "ack_inv c (tot + n) (st', if notify > 0 then Some notify else ack)"
    using Cons.prems by (intro count_read_ack [OF _ _ _ _ _ _ r]) (auto simp: p)
  from Cons.IH [OF this] Cons.prems show ?case by (simp add: p r add.assoc)
qed simp

text \<open>The sender's view when its peer has read everything it wrote and sent the update \<open>ack\<close>.\<close>

definition sender_view :: "config \<Rightarrow> u32 \<Rightarrow> u32 option \<Rightarrow> stream \<Rightarrow> stream" where
  "sender_view c written ack st =
     (case ack of
        None \<Rightarrow> st\<lparr>st_numWritten := written\<rparr>
      | Some a \<Rightarrow> stream_update a (word_of_int (cMaxStreamBuffer c)) (st\<lparr>st_numWritten := written\<rparr>))"

lemma no_stall_view:
  assumes "ack_inv c tot (st, ack)" "0 < cMaxStreamBuffer c" "cMaxStreamBuffer c < 2 ^ 31"
    and w_def: "w = sender_view c (of_nat tot) ack (newStream sid fs)"
  shows "0 \<le> sint (v2_inflight w)" "0 < sint (v2_win w)"
proof -
  obtain M where M: "cMaxStreamBuffer c = int M" "0 < M" "M < 2 ^ 31"
    using assms(2,3) by (metis nonneg_int_cases less_imp_le of_nat_0_less_iff
        of_nat_less_iff of_nat_numeral of_nat_power)
  have "0 \<le> sint (v2_inflight w) \<and> 0 < sint (v2_win w)"
  proof (cases ack)
    case None
    with assms(1) have "tot = 0" by (simp add: ack_inv_def)
    with None show ?thesis
      by (simp add: w_def sender_view_def v2_inflight_def v2_win_def newStream_def initialPeerWindow_def)
  next
    case (Some a)
    define i where "i = unat (st_incr st)"
    have i: "i = 0 \<or> i < M div 2" using assms(1) by (auto simp: ack_inv_def M i_def)
    have infl: "v2_inflight w = st_incr st"
      using assms(1) Some
      by (simp add: w_def sender_view_def v2_inflight_def stream_update_def ack_inv_def)
    have "i < 2 ^ 31" "i < M" using i M by auto
    moreover have "sint (v2_win w) = int M - int i"
    proof -
      have "v2_win w = of_nat M - st_incr st"
        using Some infl by (simp add: v2_win_def, simp add: w_def sender_view_def stream_update_def M)
      moreover have "unat (of_nat M :: u32) = M" using M by (simp add: unat_of_nat)
      ultimately show ?thesis
        using sint_diff_small [of "st_incr st" "of_nat M"] \<open>i < 2 ^ 31\<close> M by (simp add: i_def)
    qed
    ultimately have "0 < sint (v2_win w)" by linarith
    moreover have "0 \<le> sint (v2_inflight w)"
      using sint_unat [of "st_incr st"] \<open>i < 2 ^ 31\<close> unfolding infl i_def by linarith
    ultimately show ?thesis by blast
  qed
  then show "0 \<le> sint (v2_inflight w)" "0 < sint (v2_win w)" by simp_all
qed

section \<open>Properties\<close>

text \<open>
  A version 1 \<^verbatim>\<open>Write\<close> on an open stream whose frames are all written returns the length of
  the buffer and no error; it has submitted, in order and numbered consecutively, one push frame
  per chunk of the buffer, each of 1 to \<^verbatim>\<open>frameSize\<close> bytes, and the chunks joined are the buffer.
\<close>

theorem writeV1_sends:
  assumes "st_frameSize (se_store s ! r) = int fs" "0 < fs" "r < length (se_store s)"
    "\<not> st_die (se_store s ! r)"
  shows "\<exists>s'. stream_WriteV1 (ok_results (chunks fs b)) r b s = Some ((length b, None), s') \<and>
    se_submitted s' = se_submitted s @ data_requests (psh_frame s r) (se_requestID s) (chunks fs b) \<and>
    concat (chunks fs b) = b \<and> list_all (\<lambda>c. 0 < length c \<and> length c \<le> fs) (chunks fs b)"
  using send_chunks_ok [OF assms(1-3), of "\<lambda>_. 1" b "[]" 0] chunks_size [OF assms(2)] assms(4)
  by (auto simp: stream_WriteV1_def list_all_iff)

theorem writeV1_sends_witness:
  "\<exists>s'. stream_WriteV1 (ok_results (chunks 2 [1, 2, 3])) 0 [1, 2, 3]
      ((newSession DefaultConfig True)\<lparr>se_store := [newStream 3 2]\<rparr>) = Some ((3, None), s')"
  using writeV1_sends [of "(newSession DefaultConfig True)\<lparr>se_store := [newStream 3 2]\<rparr>" 0 2 "[1, 2, 3]"]
  by (auto simp: newStream_def)

text \<open>
  A \<^verbatim>\<open>Write\<close> always comes to an end once each of its frames is answered in some way (written,
  failed, closed, timed out), and whatever the answers, what it submitted for the stream is a
  prefix of the buffer: no byte is reordered, duplicated or skipped, and all of them are submitted
  when it returns no error.
\<close>

theorem writeV1_prefix:
  assumes "st_frameSize (se_store s ! r) = int fs" "0 < fs" "r < length (se_store s)"
    "length (chunks fs b) \<le> length evs"
    "\<not> st_die (se_store s ! r)"
  shows "\<exists>n err s'. stream_WriteV1 evs r b s = Some ((n, err), s') \<and>
    (\<exists>new. se_submitted s' = se_submitted s @ new \<and> prefix (payload new) b \<and>
       (err = None \<longrightarrow> payload new = b))"
proof -
  obtain n err s' where r: "send_chunks (\<lambda>_. 1) evs r b 0 s = Some ((n, err), s')"
    using send_chunks_returns [OF assms(1-4)] by (metis not_None_eq prod.collapse)
  with assms(5) have "stream_WriteV1 evs r b s = Some ((n, err), s')"
    by (simp add: stream_WriteV1_def)
  with send_chunks_any [OF assms(1-3) r] show ?thesis
    unfolding sent_prefix_def by blast
qed

theorem writeV1_prefix_witness:
  "\<exists>n err s' new. stream_WriteV1 [Wf2Result 10 None, Wf1Die] 0 [1, 2, 3]
      ((newSession DefaultConfig True)\<lparr>se_store := [newStream 3 2]\<rparr>) = Some ((n, err), s') \<and>
    prefix (payload new) [1, 2, 3]"
  using writeV1_prefix [of "(newSession DefaultConfig True)\<lparr>se_store := [newStream 3 2]\<rparr>" 0 2
      "[1, 2, 3]" "[Wf2Result 10 None, Wf1Die]"]
  by (auto simp: newStream_def chunks_Cons)

lemma writeV2_turn_cases:
  assumes "writeV2_turn evs r sent b s = Some (res, s')"
  obtains "res = W2Return 0 (Some ErrConsumed)" "s' = s" "sint (v2_inflight (se_store s ! r)) < 0"
  | bts b' n err where "0 \<le> sint (v2_inflight (se_store s ! r))"
      "v2_split (v2_win (se_store s ! r)) b = (bts, b')"
      "send_chunks of_nat evs r bts sent s = Some ((n, err), s')"
      "res = (case err of Some e \<Rightarrow> W2Return n (Some e)
              | None \<Rightarrow> if b' \<noteq> [] then W2Wait n b' else W2Return n None)"
proof (cases "sint (v2_inflight (se_store s ! r)) < 0")
  case True
  with assms that(1) show ?thesis by (simp add: writeV2_turn_def Let_def)
next
  case False
  obtain bts b' where sp: "v2_split (v2_win (se_store s ! r)) b = (bts, b')" by fastforce
  from assms False sp obtain n err s1 where c: "send_chunks of_nat evs r bts sent s = Some ((n, err), s1)"
    by (cases "send_chunks of_nat evs r bts sent s") (auto simp: writeV2_turn_def Let_def)
  from assms False sp c show ?thesis
    by (intro that(2) [of bts b' n err])
      (cases err; simp add: writeV2_turn_def Let_def split: if_splits)+
qed

text \<open>
  C5: one turn of a version 2 \<^verbatim>\<open>Write\<close> (buffer below 2 GiB, peer's window below \<open>2 ^ 31\<close>) either
  reports \<^verbatim>\<open>ErrConsumed\<close> and sends nothing, which happens only when the peer claims to have
  consumed more than was sent; or it sends only what fits into the peer's window as last
  announced: if that many bytes or more are in flight already it sends nothing and changes
  nothing, otherwise no more than the window is in flight afterwards. When it then waits, it has
  sent exactly the part that fits and keeps the rest; when it returns without an error it has
  sent the whole buffer; after an error, a prefix of the part that fits.
\<close>

theorem writeV2_window:
  assumes "st_frameSize (se_store s ! r) = int fs" "0 < fs" "r < length (se_store s)"
    "unat (st_peerWindow (se_store s ! r)) < 2 ^ 31" "length b < 2 ^ 31"
    "writeV2_turn evs r sent b s = Some (res, s')"
  shows "(res = W2Return 0 (Some ErrConsumed) \<and> s' = s \<and> sint (v2_inflight (se_store s ! r)) < 0) \<or>
    (let i = unat (v2_inflight (se_store s ! r)); w = unat (st_peerWindow (se_store s ! r))
     in (if w \<le> i then s' = s else unat (v2_inflight (se_store s' ! r)) \<le> w) \<and>
        (\<exists>new. se_submitted s' = se_submitted s @ new \<and>
          (case res of
             W2Wait _ b' \<Rightarrow> payload new = take (w - i) b \<and> b' = drop (w - i) b \<and> b' \<noteq> []
           | W2Return _ None \<Rightarrow> payload new = b \<and> length b \<le> w - i
           | W2Return _ (Some _) \<Rightarrow> prefix (payload new) (take (w - i) b))))"
  using assms(6)
proof (cases rule: writeV2_turn_cases)
  case (2 bts b' n err)
  let ?st = "se_store s ! r"
  define i w where "i = unat (v2_inflight ?st)" and "w = unat (st_peerWindow ?st)"
  have i: "i < 2 ^ 31" using sint_nonneg_unat [OF 2(1)] by (simp add: i_def)
  have split: "bts = take (w - i) b" "b' = drop (w - i) b"
    using v2_split_honest [OF sint_nonneg_unat [OF 2(1)] assms(4,5)] 2(2)
    by (simp_all add: Let_def i_def w_def)
  obtain k where k: "sent_prefix of_nat r bts s err s' k" using send_chunks_any [OF assms(1-3) 2(3)] by blast
  then obtain new where new: "se_submitted s' = se_submitted s @ new" "prefix (payload new) bts"
      "err = None \<longrightarrow> payload new = bts" by (auto simp: sent_prefix_def)
  have le: "k \<le> w - i" using k split(1) by (auto simp: sent_prefix_def)
  have "unat (v2_inflight (se_store s' ! r)) = i + k"
  proof -
    have "v2_inflight (se_store s' ! r) = v2_inflight ?st + of_nat k"
      using k assms(3) by (simp add: sent_prefix_def v2_inflight_wrote)
    moreover have "k < 2 ^ 31" using le assms(4) unfolding w_def by linarith
    ultimately show ?thesis
      using i by (simp add: unat_word_ariths unat_of_nat i_def)
  qed
  moreover have "w \<le> i \<Longrightarrow> s' = s" using 2(3) split(1) by (simp add: send_chunks.simps)
  ultimately have "if w \<le> i then s' = s else unat (v2_inflight (se_store s' ! r)) \<le> w"
    using le by auto
  moreover have "case res of W2Wait _ b' \<Rightarrow> payload new = take (w - i) b \<and> b' = drop (w - i) b \<and> b' \<noteq> []
      | W2Return _ None \<Rightarrow> payload new = b \<and> length b \<le> w - i
      | W2Return _ (Some _) \<Rightarrow> prefix (payload new) (take (w - i) b)"
    using new(2,3) 2(4) split by (auto split: option.splits if_splits)
  ultimately show ?thesis
    using new(1) unfolding i_def [symmetric] w_def [symmetric] Let_def by blast
qed simp

theorem writeV2_window_witness:
  "\<exists>res s' new. writeV2_turn [Wf2Result 9 None] 0 0 [5, 6]
      ((newSession DefaultConfig True)\<lparr>se_store := [(newStream 3 8)\<lparr>st_peerWindow := 1\<rparr>]\<rparr>) = Some (res, s') \<and>
    unat (v2_inflight (se_store s' ! 0)) \<le> 1 \<and> se_submitted s' = new \<and>
    (case res of W2Wait _ b' \<Rightarrow> payload new = [5] \<and> b' = [6] | _ \<Rightarrow> False)"
proof -
  let ?s = "(newSession DefaultConfig True)\<lparr>se_store := [(newStream 3 8)\<lparr>st_peerWindow := 1\<rparr>]\<rparr>"
  have "(case writeV2_turn [Wf2Result 9 None] 0 0 [5, 6] ?s of
      Some (W2Wait _ _, _) \<Rightarrow> True | _ \<Rightarrow> False)" by code_simp
  then obtain n b' s' where t: "writeV2_turn [Wf2Result 9 None] 0 0 [5, 6] ?s = Some (W2Wait n b', s')"
    by (cases "writeV2_turn [Wf2Result 9 None] 0 0 [5, 6] ?s") (auto split: w2_result.splits)
  have e: "se_submitted ?s = []" by (simp add: newSession_def)
  have z: "unat (v2_inflight (se_store ?s ! 0)) = 0" "unat (st_peerWindow (se_store ?s ! 0)) = 1"
    by (simp_all add: v2_inflight_def newStream_def)
  have "st_frameSize (se_store ?s ! 0) = int 8" "(0::nat) < 8" "0 < length (se_store ?s)"
    "unat (st_peerWindow (se_store ?s ! 0)) < 2 ^ 31" "length [5, 6 :: byte] < 2 ^ 31"
    by (simp_all add: newStream_def)
  from writeV2_window [OF this t]
  have "unat (v2_inflight (se_store s' ! 0)) \<le> 1"
      "\<exists>new. se_submitted s' = se_submitted ?s @ new \<and>
        payload new = take (1 - 0) [5, 6] \<and> b' = drop (1 - 0) [5, 6]"
    by (simp_all only: z Let_def w2_result.case w2_result.distinct simp_thms if_False not_one_le_zero) auto
  with t e show ?thesis by auto
qed

text \<open>
  The window a stream starts with is larger than the one its peer announces with the default
  configuration: bytes sent before the first update can be four windows of the later kind, and
  the writer then waits until they have been consumed.
\<close>

lemma first_window_shrinks:
  "let st = stream_update 0 (word_of_int (cMaxStreamBuffer DefaultConfig)) ((newStream 3 1)\<lparr>st_numWritten := initialPeerWindow\<rparr>)
   in v2_win (newStream 3 1) = 262144 \<and> unat (v2_inflight st) = 262144 \<and> unat (st_peerWindow st) = 65536 \<and>
      sint (v2_win st) < 0"
  by (simp add: Let_def v2_win_def v2_inflight_def stream_update_def newStream_def
      initialPeerWindow_def DefaultConfig_def sint_uint)

text \<open>
  C8: version 2 does not stall below 4 GiB: after any reads (of 1 to 65536 bytes each) on the
  receiving side, if the sender has written exactly what was read and has received the last
  window update, its next \<^verbatim>\<open>Write\<close> finds no \<^verbatim>\<open>ErrConsumed\<close> and an open window.
\<close>

theorem v2_no_stall:
  assumes "list_all (\<lambda>n. 0 < n \<and> n \<le> 65536) ns" "sum_list ns < 2 ^ 32"
    "0 < cMaxStreamBuffer c" "cMaxStreamBuffer c < 2 ^ 31"
    "count_reads c ns (newStream sid fs, None) = (st, ack)"
  shows "0 \<le> sint (v2_inflight (sender_view c (of_nat (sum_list ns)) ack (newStream sid' fs'))) \<and>
    0 < sint (v2_win (sender_view c (of_nat (sum_list ns)) ack (newStream sid' fs')))"
proof -
  have "ack_inv c 0 (newStream sid fs, None)" by (simp add: ack_inv_def newStream_def)
  from count_reads_ack [OF this assms(1) _ assms(3,4)] assms(2,5)
  have "ack_inv c (sum_list ns) (st, ack)" by simp
  from no_stall_view [OF this assms(3,4) refl] show ?thesis by blast
qed

theorem v2_no_stall_witness:
  "0 < sint (v2_win (sender_view DefaultConfig 40000
      (snd (count_reads DefaultConfig [32768, 7232] (newStream 3 1, None))) (newStream 3 1)))"
proof -
  obtain st ack where r: "count_reads DefaultConfig [32768, 7232] (newStream 3 1, None) = (st, ack)"
    by fastforce
  from v2_no_stall [OF _ _ _ _ r, of 3 1] r show ?thesis
    by (simp add: DefaultConfig_def)
qed

lemma count_reads_append:
  "count_reads c (xs @ ys) p = count_reads c ys (count_reads c xs p)"
  by (induction xs arbitrary: p) (auto split: prod.splits)

text \<open>A configuration whose stream buffer is no larger than a frame.\<close>

definition small_window :: config where
  "small_window = DefaultConfig\<lparr>cVersion := 2, cMaxStreamBuffer := 4096\<rparr>"

text \<open>
  At 4 GiB it can stall. With \<^verbatim>\<open>MaxStreamBuffer\<close> 4096 and reads of 4096 bytes, each read is
  acknowledged until the count of bytes read wraps to 0: that update is taken for "nothing to
  notify" and is not sent. The sender then has a closed window although everything it wrote has
  been read, so that nothing is left to read and no further update will be sent.
\<close>

theorem v2_wrap_stall:
  "VerifyConfig small_window = None \<and>
    (case count_reads small_window (replicate (2 ^ 20) 4096) (newStream 3 32768, None) of
       (st, ack) \<Rightarrow> st_numRead st = 0 \<and> st_incr st = 0 \<and> ack = Some (- 4096) \<and>
         sint (v2_win (sender_view small_window (of_nat (2 ^ 20 * 4096)) ack (newStream 3 32768))) = 0)"
proof -
  have step: "count_read small_window 4096 st =
      (st_numRead st + 4096, st\<lparr>st_numRead := st_numRead st + 4096, st_incr := 0\<rparr>)"
    if "st_incr st = 0" for st
    using that by (simp add: count_read_def small_window_def DefaultConfig_def Let_def)
  define st0 where "st0 = newStream 3 32768"
  have run: "\<exists>st. count_reads small_window (replicate k 4096) (st0, None) =
        (st, if k = 0 then None else Some (of_nat (k * 4096))) \<and>
      st_numRead st = of_nat (k * 4096) \<and> st_incr st = 0" if "k < 2 ^ 20" for k
    using that
  proof (induction k)
    case 0
    then show ?case by (simp add: st0_def newStream_def)
  next
    case (Suc k)
    then obtain st where st: "count_reads small_window (replicate k 4096) (st0, None) =
        (st, if k = 0 then None else Some (of_nat (k * 4096)))"
      "st_numRead st = of_nat (k * 4096)" "st_incr st = 0" by auto
    have pos: "(of_nat (Suc k * 4096) :: u32) > 0"
      using Suc.prems by (simp only: word_less_nat_alt unat_of_nat) simp
    have add: "st_numRead st + 4096 = of_nat (Suc k * 4096)" by (simp add: st(2))
    have rep: "replicate (Suc k) 4096 = replicate k 4096 @ [4096]"
      by (simp add: replicate_append_same)
    show ?case
      unfolding rep count_reads_append st(1)
      using step [OF st(3)] pos by (simp add: add)
  qed
  define k :: nat where "k = 2 ^ 20 - 1"
  have k: "(2::nat) ^ 20 = Suc k" "k < 2 ^ 20" "k \<noteq> 0" by (simp_all add: k_def)
  from run [OF k(2)] k(3) obtain st where st:
      "count_reads small_window (replicate k 4096) (st0, None) = (st, Some (of_nat (k * 4096)))"
      "st_numRead st = of_nat (k * 4096)" "st_incr st = 0" by auto
  have wrap: "st_numRead st + 4096 = 0" and ack: "(of_nat (k * 4096) :: u32) = - 4096"
    by (simp_all add: st(2) k_def)
  have rep: "replicate (2 ^ 20) (4096::nat) = replicate k 4096 @ [4096]"
    unfolding k(1) by (simp add: replicate_append_same)
  have "count_reads small_window (replicate (2 ^ 20) 4096) (st0, None) =
      (st\<lparr>st_numRead := 0, st_incr := 0\<rparr>, Some (- 4096))"
    unfolding rep count_reads_append st(1) ack using step [OF st(3)] by (simp add: wrap)
  moreover have "sint (v2_win (sender_view small_window (of_nat (2 ^ 20 * 4096)) (Some (- 4096)) st0)) = 0"
    by (simp add: v2_win_def v2_inflight_def sender_view_def stream_update_def small_window_def)
  moreover have "VerifyConfig small_window = None"
    by (simp add: small_window_def DefaultConfig_def VerifyConfig_def)
  ultimately show ?thesis unfolding st0_def by simp
qed

text \<open>
  A version 2 \<^verbatim>\<open>Write\<close> of 2 GiB ignores the window: \<^verbatim>\<open>int32(len(b))\<close> is negative, so the whole
  buffer goes out whatever the peer allows.
\<close>

theorem v2_huge_write:
  assumes "length b = 2 ^ 31" "0 < sint win"
  shows "v2_split win b = (b, [])"
proof -
  have "sint (of_nat (length b) :: u32) < 0" by (simp add: assms(1))
  with assms(2) show ?thesis by (simp add: v2_split_def)
qed

theorem v2_huge_write_witness: "v2_split 1 (replicate (2 ^ 31) 0) = (replicate (2 ^ 31) 0, [])"
  by (rule v2_huge_write) simp_all

end
