(* ===== verification/Smux_System.thy ===== *)
theory Smux_System
  imports Smux_Session Smux_Write
begin

text \<open>
  A session with everything that runs on it: the receive loop, the keepalive and any number of
  goroutines that open, accept, read, write and close. Each event is one atomic section; what a
  goroutine has done halfway is kept beside the session, so that every interleaving is a run.
\<close>

section \<open>The system\<close>

text \<open>
  \<open>sy_tokens\<close>: readers that have taken bytes out of a stream and not yet returned their tokens
  (with the buffers \<^verbatim>\<open>WriteTo\<close> will put back). \<open>sy_opening\<close>: ids between the two halves of
  \<^verbatim>\<open>OpenStream\<close>. \<open>sy_closing\<close>: ids of streams whose \<^verbatim>\<open>Close\<close> has not reached \<^verbatim>\<open>streamClosed\<close>.
  \<open>sy_issued\<close>: every id \<^verbatim>\<open>OpenStream\<close> has drawn. \<open>sy_panicked\<close>: a nil stream was dereferenced.
\<close>

record sys =
  sy_sess :: session
  sy_tokens :: "(nat \<times> gobuf list) list"
  sy_opening :: "u32 list"
  sy_closing :: "u32 list"
  sy_issued :: "u32 list"
  sy_panicked :: bool

definition sys_init :: "config \<Rightarrow> bool \<Rightarrow> sys" where
  "sys_init c client =
     \<lparr>sy_sess = newSession c client, sy_tokens = [], sy_opening = [], sy_closing = [],
      sy_issued = [], sy_panicked = False\<rparr>"

datatype event =
  EvRecv recv_event | EvInput bytes | EvInputEnd smux_err |
  EvOpenBegin | EvOpenSyn wf_event u32 | EvOpenFinish nat nat |
  EvAccept ac_event |
  EvReadLock nat nat | EvTakeBuffer nat | EvReturn nat |
  EvUpdate wf_event nat u32 | EvWaitRead rd_event nat |
  EvFrame wf_event nat bytes u32 | EvWaitWrite w2_event nat nat |
  EvCloseDie nat | EvCloseFin wf_event u32 | EvStreamClosed nat |
  EvCloseOnce | EvCloseStreams |
  EvPing wf_event | EvTimeoutCheck |
  EvDeadline "int option" "int option" nat

definition remove_nth :: "nat \<Rightarrow> 'a list \<Rightarrow> 'a list" where
  "remove_nth i xs = take i xs @ drop (Suc i) xs"

text \<open>
  An event that is not enabled (a bad index, \<^verbatim>\<open>streamLock\<close> held by the receive loop, a channel
  that is not ready) leaves the system as it is.
\<close>

definition sys_step :: "sys \<Rightarrow> event \<Rightarrow> sys" where
  "sys_step y ev =
     (let s = sy_sess y
      in case ev of
           EvRecv rv \<Rightarrow> y\<lparr>sy_sess := recv_step rv s\<rparr>
         | EvInput bs \<Rightarrow> y\<lparr>sy_sess := s\<lparr>se_input := se_input s @ bs\<rparr>\<rparr>
         | EvInputEnd e \<Rightarrow> y\<lparr>sy_sess := s\<lparr>se_inputEnd := Some e\<rparr>\<rparr>
         | EvOpenBegin \<Rightarrow>
             (case open_begin s of
                (Inl e, s1) \<Rightarrow> y\<lparr>sy_sess := s1\<rparr>
              | (Inr sid, s1) \<Rightarrow>
                  y\<lparr>sy_sess := s1, sy_opening := sy_opening y @ [sid], sy_issued := sy_issued y @ [sid]\<rparr>)
         | EvOpenSyn wev sid \<Rightarrow> y\<lparr>sy_sess := snd (open_syn wev sid s)\<rparr>
         | EvOpenFinish i pick \<Rightarrow>
             if i < length (sy_opening y) \<and> lock_free s
             then y\<lparr>sy_sess := snd (open_finish pick (sy_opening y ! i) s),
                    sy_opening := remove_nth i (sy_opening y)\<rparr>
             else y
         | EvAccept aev \<Rightarrow> if ac_ready s aev then y\<lparr>sy_sess := snd (AcceptStream aev s)\<rparr> else y
         | EvReadLock r len \<Rightarrow>
             if r < length (se_store s) \<and> 0 < len
             then (if cVersion (se_config s) = 2
                   then (case tryReadv2_lock r len s of
                           (out, _, s1) \<Rightarrow> y\<lparr>sy_sess := s1, sy_tokens := (length out, []) # sy_tokens y\<rparr>)
                   else (case tryRead_lock r len s of
                           (out, s1) \<Rightarrow> y\<lparr>sy_sess := s1, sy_tokens := (length out, []) # sy_tokens y\<rparr>))
             else y
         | EvTakeBuffer r \<Rightarrow>
             if r < length (se_store s)
             then (case take_buffer (se_store s ! r) of
                     (None, _) \<Rightarrow> y
                   | (Some b, st) \<Rightarrow>
                       let st' = (if cVersion (se_config s) = 2
                                  then snd (count_read (se_config s) (length (fst b)) st) else st)
                       in y\<lparr>sy_sess := upd_stream r (\<lambda>_. st') s,
                            sy_tokens := (length (fst b), [b]) # sy_tokens y\<rparr>)
             else y
         | EvReturn i \<Rightarrow>
             if i < length (sy_tokens y)
             then (case sy_tokens y ! i of
                     (n, bs) \<Rightarrow> y\<lparr>sy_sess := put_bufs bs (if n > 0 then returnTokens n s else s),
                                  sy_tokens := remove_nth i (sy_tokens y)\<rparr>)
             else y
         | EvUpdate wev r consumed \<Rightarrow> y\<lparr>sy_sess := snd (sendWindowUpdate wev r consumed s)\<rparr>
         | EvWaitRead rdev r \<Rightarrow>
             if r < length (se_store s) \<and> rd_ready r s rdev
             then y\<lparr>sy_sess := snd (waitRead rdev r s)\<rparr> else y
         | EvFrame wev r data adv \<Rightarrow>
             if r < length (se_store s)
             then y\<lparr>sy_sess := upd_stream r (wrote adv)
                       (snd (writeFrameInternal wev (psh_frame s r data) CLSDATA s))\<rparr>
             else y
         | EvWaitWrite w2 r sent \<Rightarrow>
             if r < length (se_store s) \<and> w2_ready r s w2
             then y\<lparr>sy_sess := snd (writeV2_wait w2 r sent s)\<rparr> else y
         | EvCloseDie r \<Rightarrow>
             if r < length (se_store s)
             then (case close_die r s of
                     (once, s1) \<Rightarrow>
                       y\<lparr>sy_sess := s1,
                         sy_closing := (if once then [st_id (se_store s ! r)] else []) @ sy_closing y\<rparr>)
             else y
         | EvCloseFin wev sid \<Rightarrow>
             y\<lparr>sy_sess := snd (writeFrame wev (newFrame (word_of_int (cVersion (se_config s))) cmdFIN sid) s)\<rparr>
         | EvStreamClosed i \<Rightarrow>
             if i < length (sy_closing y) \<and> lock_free s
             then (case streamClosed (sy_closing y ! i) s of
                     None \<Rightarrow> y\<lparr>sy_panicked := True, sy_closing := remove_nth i (sy_closing y)\<rparr>
                   | Some s1 \<Rightarrow> y\<lparr>sy_sess := s1, sy_closing := remove_nth i (sy_closing y)\<rparr>)
             else y
         | EvCloseOnce \<Rightarrow> y\<lparr>sy_sess := snd (close_once s)\<rparr>
         | EvCloseStreams \<Rightarrow> if lock_free s \<and> se_die s then y\<lparr>sy_sess := (close_streams s)\<lparr>se_connClosed := True\<rparr>\<rparr> else y
         | EvPing wev \<Rightarrow> y\<lparr>sy_sess := keepalive_ping wev s\<rparr>
         | EvTimeoutCheck \<Rightarrow>
             if se_dataReady s then y\<lparr>sy_sess := s\<lparr>se_dataReady := False\<rparr>\<rparr>
             else if sint (se_bucket s) > 0 then y\<lparr>sy_sess := snd (close_once s)\<rparr> else y
         | EvDeadline rd wd r \<Rightarrow>
             y\<lparr>sy_sess := SetWriteDeadline wd r (SetReadDeadline rd r s)\<rparr>)"

section \<open>Events that leave the accounts alone\<close>

text \<open>
  Most events touch neither the bucket nor the buffers, the map, the ids or the receive loop:
  they are quiet, and every invariant below survives them for one and the same reason.
\<close>

definition same_stream :: "stream \<Rightarrow> stream \<Rightarrow> bool" where
  "same_stream a b \<longleftrightarrow>
     st_id b = st_id a \<and> st_buffers b = st_buffers a \<and> st_heads b = st_heads a \<and> st_fin b = st_fin a"

definition quiet :: "session \<Rightarrow> session \<Rightarrow> bool" where
  "quiet s s' \<longleftrightarrow>
     se_config s' = se_config s \<and> se_phase s' = se_phase s \<and>
     se_nextStreamID s' = se_nextStreamID s \<and> se_goAway s' = se_goAway s \<and>
     se_streams s' = se_streams s \<and> se_accepts s' = se_accepts s \<and>
     se_bucket s' = se_bucket s \<and> se_alloc s' = se_alloc s \<and>
     (se_die s \<longrightarrow> se_die s') \<and> (se_bucketNotify s \<longrightarrow> se_bucketNotify s') \<and>
     list_all2 same_stream (se_store s) (se_store s')"

lemma same_stream_refl [simp, intro]: "same_stream a a"
  by (simp add: same_stream_def)

lemma same_store_refl [simp]: "list_all2 same_stream xs xs"
  by (rule list_all2_refl) simp

lemma quiet_refl [simp, intro]: "quiet s s"
  by (simp add: quiet_def)

lemma quiet_trans: "quiet a b \<Longrightarrow> quiet b c \<Longrightarrow> quiet a c"
proof -
  assume q: "quiet a b" "quiet b c"
  then have "list_all2 same_stream (se_store a) (se_store c)"
    unfolding quiet_def
    by (elim conjE) (erule list_all2_trans [rotated], assumption, auto simp: same_stream_def)
  with q show ?thesis by (simp add: quiet_def)
qed

lemma quiet_upd_stream:
  assumes "\<And>st. same_stream st (f st)"
  shows "quiet s (upd_stream r f s)"
proof -
  have "same_stream (xs ! i) (xs[r := f (xs ! r)] ! i)" if "i < length xs" for i xs
    using that assms by (cases "i = r") simp_all
  then have "list_all2 same_stream (se_store s) (se_store (upd_stream r f s))"
    unfolding store_upd_stream by (simp add: list_all2_conv_all_nth)
  then show ?thesis by (simp add: quiet_def)
qed

lemma quiet_writeFrameInternal: "quiet s (snd (writeFrameInternal ev f c s))"
  by (simp add: quiet_def)

lemma quiet_sendWindowUpdate: "quiet s (snd (sendWindowUpdate ev r c s))"
proof -
  have "snd (sendWindowUpdate ev r c s) =
      snd (writeFrameInternal ev ((newFrame (word_of_int (cVersion (se_config s))) cmdUPD
        (st_id (se_store s ! r)))
        \<lparr>fdata := upd_data c (word_of_int (cMaxStreamBuffer (se_config s)))\<rparr>) CLSDATA s)"
    by (simp add: sendWindowUpdate_def Let_def split: prod.split)
  then show ?thesis by (simp only: quiet_writeFrameInternal)
qed

lemma quiet_open_syn: "quiet s (snd (open_syn ev sid s))"
proof -
  have "snd (open_syn ev sid s) =
      snd (writeFrame ev (newFrame (word_of_int (cVersion (se_config s))) cmdSYN sid) s)"
    by (simp add: open_syn_def Let_def split: prod.split)
  then show ?thesis by (simp only: writeFrame_def quiet_writeFrameInternal)
qed

lemma quiet_waitRead: "quiet s (snd (waitRead ev r s))"
  by (auto simp: waitRead_def same_stream_def intro!: quiet_upd_stream split: rd_event.split)

lemma quiet_writeV2_wait: "quiet s (snd (writeV2_wait ev r n s))"
  by (auto simp: writeV2_wait_def same_stream_def intro!: quiet_upd_stream split: w2_event.split)

lemma quiet_close_die: "quiet s (snd (close_die r s))"
  by (auto simp: close_die_def same_stream_def sessionClose_def intro!: quiet_upd_stream)

lemma quiet_close_once: "quiet s (snd (close_once s))"
  by (simp add: close_once_def quiet_def)

lemma quiet_close_streams: "quiet s (close_streams s)"
proof -
  have "quiet t (fold (\<lambda>p. upd_stream (snd p) sessionClose) ps t)" for ps t
  proof (induction ps arbitrary: t)
    case (Cons p ps)
    have "quiet t (upd_stream (snd p) sessionClose t)"
      by (rule quiet_upd_stream) (simp add: same_stream_def sessionClose_def)
    with Cons show ?case by (auto intro: quiet_trans)
  qed simp
  then show ?thesis by (simp add: close_streams_def)
qed

lemma quiet_ping: "quiet s (keepalive_ping ev s)"
  by (simp add: keepalive_ping_def notifyBucket_def quiet_def)

lemma quiet_deadlines: "quiet s (SetWriteDeadline w r (SetReadDeadline d r s))"
  unfolding SetWriteDeadline_def SetReadDeadline_def
  by (rule quiet_trans; rule quiet_upd_stream) (simp_all add: same_stream_def notifyReadEvent_def)

lemma quiet_wrote: "quiet s (upd_stream r (wrote k) s)"
  by (rule quiet_upd_stream) (simp add: same_stream_def wrote_def)

lemmas quiet_ops =
  quiet_writeFrameInternal quiet_sendWindowUpdate quiet_open_syn quiet_waitRead quiet_writeV2_wait
  quiet_close_die quiet_close_once quiet_close_streams quiet_ping quiet_deadlines

definition is_quiet :: "event \<Rightarrow> bool" where
  "is_quiet ev =
     (case ev of
        EvRecv _ \<Rightarrow> False | EvOpenBegin \<Rightarrow> False | EvOpenFinish _ _ \<Rightarrow> False | EvAccept _ \<Rightarrow> False
      | EvReadLock _ _ \<Rightarrow> False | EvTakeBuffer _ \<Rightarrow> False | EvReturn _ \<Rightarrow> False
      | EvStreamClosed _ \<Rightarrow> False | _ \<Rightarrow> True)"

lemma quiet_step:
  assumes "is_quiet ev"
  shows "quiet (sy_sess y) (sy_sess (sys_step y ev)) \<and> sy_tokens (sys_step y ev) = sy_tokens y \<and>
    sy_opening (sys_step y ev) = sy_opening y \<and> sy_issued (sys_step y ev) = sy_issued y"
proof (cases ev)
  case (EvInput x)
  then show ?thesis by (simp add: sys_step_def Let_def quiet_def)
next
  case (EvInputEnd x)
  then show ?thesis by (simp add: sys_step_def Let_def quiet_def)
next
  case (EvFrame w r d a)
  show ?thesis unfolding EvFrame sys_step_def Let_def
    using quiet_trans [OF quiet_writeFrameInternal quiet_wrote] by simp
next
  case (EvCloseDie r)
  then show ?thesis using quiet_close_die [of "sy_sess y" r]
    by (auto simp: sys_step_def Let_def split: prod.split)
next
  case EvCloseStreams
  then show ?thesis using quiet_close_streams [of "sy_sess y"]
    by (auto simp: sys_step_def Let_def quiet_def)
next
  case EvTimeoutCheck
  have "quiet (sy_sess y) ((sy_sess y)\<lparr>se_dataReady := False\<rparr>)" by (simp add: quiet_def)
  with EvTimeoutCheck show ?thesis by (simp add: sys_step_def Let_def quiet_ops)
qed (use assms in \<open>simp_all add: is_quiet_def sys_step_def quiet_ops Let_def writeFrame_def\<close>)

section \<open>The shape of a session\<close>

text \<open>
  Every reference is to a stream that exists, the map's keys are the ids of its streams, the
  buffers of every stream are in order, and the buffer the receive loop fills came from the pool.
\<close>

definition ref_ok :: "session \<Rightarrow> nat \<Rightarrow> bool" where
  "ref_ok s r \<longleftrightarrow> r < length (se_store s)"

definition phase_ok :: "session \<Rightarrow> bool" where
  "phase_ok s \<longleftrightarrow>
     (case se_phase s of
        RAccept r \<Rightarrow> ref_ok s r
      | RPushed r n \<Rightarrow> ref_ok s r
      | RPayload sid len cap \<Rightarrow> 0 < len \<and> len \<le> cap \<and> (\<exists>k\<le>16. cap = 2 ^ k)
      | _ \<Rightarrow> True)"

lemma phase_ok_mono:
  "phase_ok s \<Longrightarrow> se_phase s' = se_phase s \<Longrightarrow> length (se_store s) \<le> length (se_store s') \<Longrightarrow> phase_ok s'"
  by (auto simp: phase_ok_def ref_ok_def split: recv_phase.splits)

definition shape :: "session \<Rightarrow> bool" where
  "shape s \<longleftrightarrow>
     distinct (map fst (se_streams s)) \<and>
     (\<forall>p\<in>set (se_streams s). ref_ok s (snd p) \<and> st_id (se_store s ! snd p) = fst p) \<and>
     list_all (ref_ok s) (se_accepts s) \<and>
     list_all stream_ok (se_store s) \<and> alloc_inv (se_alloc s) \<and> phase_ok s"

lemma shape_newSession: "shape (newSession c cl)"
  by (simp add: shape_def newSession_def alloc_inv_New phase_ok_def)

lemma shape_nth: "shape s \<Longrightarrow> r < length (se_store s) \<Longrightarrow> stream_ok (se_store s ! r)"
  by (simp add: shape_def list_all_length)

lemma shape_map:
  assumes "shape s" "map_of (se_streams s) sid = Some r"
  shows "r < length (se_store s)" "st_id (se_store s ! r) = sid"
  using assms map_of_SomeD [OF assms(2)] by (fastforce simp: shape_def ref_ok_def)+

text \<open>Shape only depends on these fields, and survives a store of the same or greater length.\<close>

lemma shape_transfer:
  assumes "shape s" "se_streams s' = se_streams s" "se_accepts s' = se_accepts s"
    "length (se_store s) \<le> length (se_store s')"
    "\<And>r. r < length (se_store s) \<Longrightarrow> st_id (se_store s' ! r) = st_id (se_store s ! r)"
    "list_all stream_ok (se_store s')" "alloc_inv (se_alloc s')" "phase_ok s'"
  shows "shape s'"
  using assms by (fastforce simp: shape_def ref_ok_def list_all_iff)

lemma same_stream_ok: "same_stream a b \<Longrightarrow> stream_ok a \<Longrightarrow> stream_ok b"
  by (simp add: same_stream_def stream_ok_def)

lemma shape_quiet:
  assumes "quiet s s'" "shape s"
  shows "shape s'"
proof -
  have l: "list_all2 same_stream (se_store s) (se_store s')" using assms(1) by (simp add: quiet_def)
  then have len: "length (se_store s') = length (se_store s)" by (simp add: list_all2_lengthD)
  show ?thesis
  proof (rule shape_transfer [OF assms(2)])
    show "st_id (se_store s' ! r) = st_id (se_store s ! r)" if "r < length (se_store s)" for r
      using list_all2_nthD [OF l that] by (simp add: same_stream_def)
    show "list_all stream_ok (se_store s')"
      using list_all2_nthD [OF l] same_stream_ok len shape_nth [OF assms(2)]
      unfolding list_all_length by metis
    show "phase_ok s'"
      using assms len phase_ok_mono [of s s'] by (simp add: quiet_def shape_def)
  qed (use assms len in \<open>simp_all add: quiet_def shape_def\<close>)
qed

lemma shape_upd_stream:
  assumes "shape s" "stream_ok (f (se_store s ! r))" "st_id (f (se_store s ! r)) = st_id (se_store s ! r)"
  shows "shape (upd_stream r f s)"
proof (rule shape_transfer [OF assms(1)])
  show "st_id (se_store (upd_stream r f s) ! q) = st_id (se_store s ! q)"
    if "q < length (se_store s)" for q
    using assms(3) that by (cases "q = r") (simp_all add: store_upd_stream)
  show "list_all stream_ok (se_store (upd_stream r f s))"
    using assms(1,2) by (auto simp: store_upd_stream shape_def list_all_iff dest!: set_update_subset_insert [THEN subsetD])
  show "phase_ok (upd_stream r f s)"
    using assms(1) phase_ok_mono [of s "upd_stream r f s"] by (simp add: shape_def)
qed (use assms(1) in \<open>simp_all add: shape_def\<close>)

lemma shape_put_bufs: "shape s \<Longrightarrow> shape (put_bufs bs s)"
  by (rule shape_transfer, assumption)
    (simp_all add: shape_def put_bufs_inv phase_ok_mono [of s])

lemma shape_returnTokens: "shape s \<Longrightarrow> shape (returnTokens n s)"
  by (rule shape_transfer, assumption) (simp_all add: shape_def phase_ok_mono [of s])

text \<open>A change of phase, bucket, flags or input.\<close>

lemma shape_fields:
  assumes "shape s" "se_streams s' = se_streams s" "se_accepts s' = se_accepts s"
    "se_store s' = se_store s" "se_alloc s' = se_alloc s" "phase_ok s'"
  shows "shape s'"
  using assms by (intro shape_transfer [OF assms(1)]) (simp_all add: shape_def)

lemma shape_add_stream:
  assumes "shape s" "add_stream sid s = (r, s')"
  shows "shape s'" "r < length (se_store s')" "se_phase s' = se_phase s"
proof -
  have s': "r = length (se_store s)"
    "se_store s' = se_store s @ [newStream sid (cMaxFrameSize (se_config s))]"
    "se_streams s' = AList.update sid r (se_streams s)" "se_accepts s' = se_accepts s"
    "se_alloc s' = se_alloc s" "se_phase s' = se_phase s"
    using assms(2) by (auto simp: add_stream_def Let_def)
  have old: "ref_ok s' q \<and> st_id (se_store s' ! q) = st_id (se_store s ! q)" if "ref_ok s q" for q
    using that by (simp add: ref_ok_def s' nth_append)
  have "ref_ok s' (snd p) \<and> st_id (se_store s' ! snd p) = fst p" if "p \<in> set (se_streams s')" for p
  proof -
    obtain k q where p: "p = (k, q)" by fastforce
    have mo: "map_of (se_streams s') k = Some q"
      using that assms(1) unfolding p s' shape_def
      by (intro map_of_is_SomeI) (simp_all add: distinct_update)
    show ?thesis
    proof (cases "k = sid")
      case True
      with mo have "q = length (se_store s)" by (simp add: s' update_conv')
      with True show ?thesis by (simp add: p s' ref_ok_def newStream_def)
    next
      case False
      with mo have "map_of (se_streams s) k = Some q" by (simp add: s' update_conv')
      from shape_map [OF assms(1) this] old [of q] show ?thesis by (simp add: p ref_ok_def)
    qed
  qed
  moreover have "phase_ok s'"
    using assms(1) old by (auto simp: shape_def phase_ok_def s' split: recv_phase.splits)
  ultimately show "shape s'"
    using assms(1) old by (auto simp: shape_def s' distinct_update list_all_iff)
  show "r < length (se_store s')" "se_phase s' = se_phase s" by (simp_all add: s')
qed

lemma shape_sub:
  assumes "shape s" "distinct (map fst (se_streams s'))" "set (se_streams s') \<subseteq> set (se_streams s)"
    "set (se_accepts s') \<subseteq> set (se_accepts s)" "se_store s' = se_store s"
    "se_alloc s' = se_alloc s" "se_phase s' = se_phase s"
  shows "shape s'"
proof -
  have "phase_ok s'" using assms phase_ok_mono [of s s'] by (simp add: shape_def)
  with assms show ?thesis by (auto simp: shape_def ref_ok_def list_all_iff)
qed

lemma shape_distinct: "shape s \<Longrightarrow> distinct (map fst (se_streams s))"
  by (simp add: shape_def)

lemma take_buffer_ok:
  assumes "take_buffer st = (b, st')" "stream_ok st"
  shows "stream_ok st'" "st_id st' = st_id st"
  using assms
  by (cases "st_buffers st"; cases "st_heads st"; auto simp: take_buffer_def stream_ok_def)+

lemma shape_tryRead_lock:
  assumes "tryRead_lock r len s = (out, s')" "shape s" "r < length (se_store s)"
  shows "shape s'"
proof -
  obtain hs st' where t: "take_front len (se_store s ! r) = (out, hs, st')"
    and s': "s' = put_bufs hs (upd_stream r (\<lambda>_. st') s)"
    using assms(1) by (auto simp: tryRead_lock_def Let_def split: prod.splits)
  show ?thesis
    unfolding s' using take_front_ok [OF t shape_nth [OF assms(2,3)]] take_front_simps [OF t]
    by (intro shape_put_bufs shape_upd_stream [OF assms(2)]) simp_all
qed

lemma shape_tryReadv2_lock:
  assumes "tryReadv2_lock r len s = (out, n, s')" "shape s" "r < length (se_store s)"
  shows "shape s'"
proof -
  obtain hs st1 st2 where t: "take_front len (se_store s ! r) = (out, hs, st1)"
    and c: "count_read (se_config s) (length out) st1 = (n, st2)"
    and s': "s' = put_bufs hs (upd_stream r (\<lambda>_. st2) s)"
    using assms(1) by (auto simp: tryReadv2_lock_def Let_def split: prod.splits)
  show ?thesis
    unfolding s' using take_front_ok [OF t shape_nth [OF assms(2,3)]] take_front_simps [OF t]
      count_read_simps [OF c]
    by (intro shape_put_bufs shape_upd_stream [OF assms(2)]) simp_all
qed

lemma shape_open_finish: "shape s \<Longrightarrow> shape (snd (open_finish pick sid s))"
  using shape_add_stream(1)
  by (cases "add_stream sid s") (auto simp: open_finish_def Let_def)

lemma shape_Accept: "shape s \<Longrightarrow> ac_ready s ev \<Longrightarrow> shape (snd (AcceptStream ev s))"
proof (cases ev)
  case AcStream
  assume sh: "shape s" "ac_ready s ev"
  show ?thesis
    by (rule shape_sub [OF sh(1)])
      (use shape_distinct [OF sh(1)] sh(2) in
        \<open>auto simp: AcceptStream_def AcStream ac_ready_def neq_Nil_conv\<close>)
qed (simp_all add: AcceptStream_def)

lemma recycle_ok: "recycleTokens st = (n, hs, st') \<Longrightarrow> stream_ok st' \<and> st_id st' = st_id st"
  by (auto simp: recycleTokens_def stream_ok_def)

lemma shape_streamClosed:
  assumes "streamClosed sid s = Some s'" "shape s"
  shows "shape s'"
proof -
  obtain r n hs st' where r: "map_of (se_streams s) sid = Some r"
    and rec: "recycleTokens (se_store s ! r) = (n, hs, st')"
    and s': "s' = (let s1 = put_bufs hs (upd_stream r (\<lambda>_. st') s);
                      s2 = (if n > 0 then returnTokens n s1 else s1)
                  in s2\<lparr>se_streams := AList.delete sid (se_streams s2)\<rparr>)"
    using assms(1) by (auto simp: streamClosed_def Let_def split: option.splits prod.splits)
  define s2 where "s2 = (if n > 0 then returnTokens n (put_bufs hs (upd_stream r (\<lambda>_. st') s))
                         else put_bufs hs (upd_stream r (\<lambda>_. st') s))"
  have "shape s2"
    unfolding s2_def using recycle_ok [OF rec]
    by (auto intro!: shape_returnTokens shape_put_bufs shape_upd_stream assms(2))
  then show ?thesis
    unfolding s' Let_def s2_def [symmetric]
    by (rule shape_sub)
      (use shape_distinct [OF \<open>shape s2\<close>] in \<open>simp_all add: distinct_delete\<close>,
        auto simp: AList.delete_eq)
qed

lemma read_full_ok:
  assumes "read_full n s = IoOk bs s'"
  shows "length bs = n" "s' = s\<lparr>se_input := drop n (se_input s)\<rparr>"
  using assms by (auto simp: read_full_def split: if_splits option.splits)

lemma shape_same:
  assumes "se_streams s' = se_streams s" "se_accepts s' = se_accepts s"
    "se_store s' = se_store s" "se_alloc s' = se_alloc s" "se_phase s' = se_phase s"
  shows "shape s' = shape s"
proof -
  have "phase_ok s' = phase_ok s"
    using phase_ok_mono [of s s'] phase_ok_mono [of s' s] assms by auto
  moreover have "phase_ok t" if "shape t" for t using that by (simp add: shape_def)
  ultimately show ?thesis
    using shape_fields [OF _ assms(1-4)]
      shape_fields [OF _ assms(1) [symmetric] assms(2) [symmetric] assms(3) [symmetric] assms(4) [symmetric]]
    by blast
qed

lemma shape_input [simp]: "shape (s\<lparr>se_input := x\<rparr>) = shape s"
  by (rule shape_same) simp_all

lemma shape_dataReady [simp]: "shape (s\<lparr>se_dataReady := x\<rparr>) = shape s"
  by (rule shape_same) simp_all

lemma shape_readError [simp]: "shape (notifyReadError e s) = shape s"
  by (rule shape_same) (simp_all add: notifyReadError_def split: option.split)

lemma shape_protoError [simp]: "shape (notifyProtoError e s) = shape s"
  by (rule shape_same) (simp_all add: notifyProtoError_def split: option.split)

text \<open>Moving to a phase that is in order.\<close>

lemma shape_phase:
  "shape s \<Longrightarrow> phase_ok (s\<lparr>se_phase := p\<rparr>) \<Longrightarrow> shape (s\<lparr>se_phase := p\<rparr>)"
  by (rule shape_fields) simp_all

lemma phase_ok_idle [simp]:
  "phase_ok (s\<lparr>se_phase := RHeader\<rparr>)" "phase_ok (s\<lparr>se_phase := RWaitTokens\<rparr>)"
  "phase_ok (s\<lparr>se_phase := RExited\<rparr>)" "phase_ok (s\<lparr>se_phase := RUpdate sid\<rparr>)"
  by (simp_all add: phase_ok_def)

lemma shape_recv_fail: "shape s \<Longrightarrow> shape (recv_fail e s)"
  by (simp add: recv_fail_def shape_phase)

lemma shape_recv_proto: "shape s \<Longrightarrow> shape (recv_proto s)"
  by (simp add: recv_proto_def shape_phase)

lemma alloc_Get_cases:
  assumes "alloc_Get hit n a = (GSlice b, a')" "alloc_inv a" "0 < n" "n \<le> 65536"
  shows "0 < slen b" "slen b = nat n" "slen b \<le> scap b" "\<exists>k\<le>16. scap b = 2 ^ k"
proof -
  from alloc_Get_eq(1) [OF assms(2-4), of hit] assms(1)
  have b: "b = \<lparr>slen = nat n, scap = 2 ^ size_class n\<rparr>" by simp
  note c = size_class_bounds [OF assms(3,4)]
  show "slen b = nat n" "0 < slen b" using b assms(3) by simp_all
  have "int (nat n) \<le> int (2 ^ size_class n)" using c(1) assms(3) by simp
  then show "slen b \<le> scap b" unfolding b by (simp only: slice.simps of_nat_le_iff)
  show "\<exists>k\<le>16. scap b = 2 ^ k" using c(3) b by (auto intro!: exI [of _ "size_class n"])
qed

lemma shape_recv_header:
  assumes "shape s" shows "shape (recv_header hit h s)"
proof -
  let ?sid = "hdr_StreamID h" and ?n = "int (unat (hdr_Length h))"
  have idle: "shape (s\<lparr>se_phase := RHeader\<rparr>)" "shape (s\<lparr>se_phase := RUpdate ?sid\<rparr>)"
    using assms by (simp_all add: shape_phase)
  have fin: "shape ((upd_stream r (\<lambda>st. notifyReadEvent (stream_fin st)) s)\<lparr>se_phase := RHeader\<rparr>)"
    if "map_of (se_streams s) ?sid = Some r" for r
    using shape_nth [OF assms shape_map(1) [OF assms that]]
    by (intro shape_phase shape_upd_stream [OF assms])
      (simp_all add: stream_fin_def notifyReadEvent_def stream_ok_def)
  have syn: "shape (s1\<lparr>se_phase := RAccept r\<rparr>)" if "add_stream ?sid s = (r, s1)" for r s1
    using shape_add_stream [OF assms that] by (intro shape_phase) (simp_all add: phase_ok_def ref_ok_def)
  have psh: "shape (s\<lparr>se_alloc := a, se_phase := RPayload ?sid (slen b) (scap b)\<rparr>)"
    if g: "alloc_Get hit ?n (se_alloc s) = (GSlice b, a)" "hdr_Length h > 0" for a b
  proof -
    have "0 < unat (hdr_Length h)" using g(2) by (simp add: word_less_nat_alt)
    moreover have "unat (hdr_Length h) < 65536" using unsigned_less [of "hdr_Length h", where 'a = nat] by simp
    ultimately have n: "0 < ?n" "?n \<le> 65536" by linarith+
    have ai: "alloc_inv (se_alloc s)" using assms by (simp add: shape_def)
    have "alloc_inv a" using alloc_Get_inv [OF ai, of hit ?n] g(1) by simp
    with alloc_Get_cases [OF g(1) ai n] show ?thesis
      by (intro shape_transfer [OF assms]) (use assms in \<open>simp_all add: shape_def phase_ok_def\<close>)
  qed
  have exit: "shape (s\<lparr>se_alloc := snd (alloc_Get hit ?n (se_alloc s)), se_phase := RExited\<rparr>)"
    by (rule shape_transfer [OF assms])
      (use assms in \<open>simp_all add: shape_def phase_ok_def alloc_Get_inv\<close>)
  show ?thesis
    unfolding recv_header_def Let_def
    using assms idle fin syn psh exit shape_recv_proto [OF assms]
    by (auto split: option.splits prod.splits get_result.splits)
qed

lemma shape_recv_step:
  assumes "shape s" shows "shape (recv_step ev s)"
proof (cases ev)
  case (RvRun hit)
  show ?thesis
  proof (cases "se_phase s")
    case RHeader
    then show ?thesis
      using assms shape_recv_fail [OF assms]
      by (auto simp: recv_step_def RvRun shape_phase shape_recv_header dest!: read_full_ok(2)
          split: io_result.split)
  next
    case RWaitTokens
    have "shape (s\<lparr>se_bucketNotify := False, se_phase := RHeader\<rparr>)"
      by (rule shape_fields [OF assms]) (simp_all add: phase_ok_def)
    with RWaitTokens assms show ?thesis by (simp add: recv_step_def RvRun)
  next
    case (RPayload sid len cap)
    have p: "0 < len" "len \<le> cap" "\<exists>k\<le>16. cap = 2 ^ k"
      using assms RPayload by (simp_all add: shape_def phase_ok_def)
    have ok: "shape ((upd_stream r (pushBytes (data, cap)) s1)\<lparr>se_phase := RPushed r len\<rparr>)"
      if "read_full len s = IoOk data s1" "map_of (se_streams s1) sid = Some r" for data s1 r
    proof -
      have s1: "shape s1" "length data = len" using read_full_ok [OF that(1)] assms by simp_all
      have r: "r < length (se_store s1)" using shape_map(1) [OF s1(1) that(2)] .
      have "stream_ok (pushBytes (data, cap) (se_store s1 ! r))"
        using p s1(2) shape_nth [OF s1(1) r] by (intro pushBytes_ok) (auto simp: from_pool_def)
      then show ?thesis using r
        by (intro shape_phase shape_upd_stream [OF s1(1)]) (simp_all add: pushBytes_def phase_ok_def ref_ok_def)
    qed
    have none: "shape (s1\<lparr>se_phase := RHeader\<rparr>)" if "read_full len s = IoOk data s1" for data s1
      using read_full_ok [OF that] assms by (intro shape_phase) simp_all
    show ?thesis
      using RPayload assms ok none shape_recv_fail [OF assms]
      by (auto simp: recv_step_def RvRun split: io_result.split option.split)
  next
    case (RPushed r n)
    have "shape (upd_stream r notifyReadEvent s)"
      using assms RPushed
      by (intro shape_upd_stream) (auto simp: shape_def phase_ok_def ref_ok_def list_all_length notifyReadEvent_def stream_ok_def)
    then have "shape ((upd_stream r notifyReadEvent s)
        \<lparr>se_bucket := se_bucket s - of_nat n, se_phase := RHeader\<rparr>)"
      by (rule shape_fields) (simp_all add: phase_ok_def)
    with RPushed show ?thesis by (simp add: recv_step_def RvRun)
  next
    case (RUpdate sid)
    have ok: "shape ((upd_stream r (stream_update c w) s1)\<lparr>se_phase := RHeader\<rparr>)"
      if "shape s1" "map_of (se_streams s1) sid = Some r" for c w s1 r
      using shape_nth [OF that(1) shape_map(1) [OF that]]
      by (intro shape_phase shape_upd_stream [OF that(1)]) (simp_all add: stream_update_def stream_ok_def)
    have s1: "shape s1" if "read_full n s = IoOk h s1" for n h s1
      using read_full_ok [OF that] assms by simp
    show ?thesis
      using RUpdate assms ok s1 shape_recv_fail [OF assms]
      by (auto simp: recv_step_def RvRun shape_phase split: io_result.split option.split)
  next
    case (RAccept r)
    have "shape (s\<lparr>se_accepts := se_accepts s @ [r], se_phase := RHeader\<rparr>)"
      using assms RAccept by (auto simp: shape_def phase_ok_def ref_ok_def list_all_iff)
    with RAccept assms show ?thesis by (simp add: recv_step_def RvRun)
  next
    case RExited
    with assms show ?thesis by (simp add: recv_step_def RvRun)
  qed
next
  case RvDie
  then show ?thesis
    using assms by (auto simp: recv_step_def shape_phase split: recv_phase.split)
qed

section \<open>The books\<close>

text \<open>
  The bytes the streams hold, and the bytes pushed whose tokens are not taken yet.
\<close>

definition stored :: "session \<Rightarrow> nat" where
  "stored s = sum_list (map st_size (se_store s))"

definition pushed :: "session \<Rightarrow> nat" where
  "pushed s = (case se_phase s of RPushed _ n \<Rightarrow> n | _ \<Rightarrow> 0)"

text \<open>
  With \<open>M\<close> the size of the bucket and \<open>tok\<close> the tokens readers still hold: the bucket is what
  remains of \<open>M\<close> (in 32-bit arithmetic); as long as the session is open the bytes held are
  bounded; and the receive loop does not wait for tokens that are there.
\<close>

definition balance :: "nat \<Rightarrow> nat \<Rightarrow> session \<Rightarrow> bool" where
  "balance M tok s \<longleftrightarrow> se_bucket s + of_nat (stored s + tok) = of_nat (M + pushed s)"

definition bounded :: "nat \<Rightarrow> nat \<Rightarrow> session \<Rightarrow> bool" where
  "bounded M tok s \<longleftrightarrow>
     (case se_phase s of
        RPayload _ len _ \<Rightarrow> stored s + tok < M \<and> len \<le> 65535
      | RPushed _ n \<Rightarrow> stored s + tok < M + n \<and> n \<le> 65535
      | _ \<Rightarrow> stored s + tok \<le> M + 65534)"

definition awake :: "session \<Rightarrow> bool" where
  "awake s \<longleftrightarrow> (se_phase s = RWaitTokens \<and> sint (se_bucket s) > 0 \<longrightarrow> se_bucketNotify s)"

definition books :: "nat \<Rightarrow> nat \<Rightarrow> session \<Rightarrow> bool" where
  "books M tok s \<longleftrightarrow> balance M tok s \<and> (\<not> se_die s \<longrightarrow> bounded M tok s) \<and> awake s"

lemma sint_of_int_small:
  "- (2 ^ 31) \<le> k \<Longrightarrow> k < 2 ^ 31 \<Longrightarrow> sint (word_of_int k :: u32) = k"
  by (simp only: sint_sbintrunc') (simp add: signed_take_bit_int_eq_self)

text \<open>As long as nothing is between push and payment, the bucket read as an \<^verbatim>\<open>int32\<close> is exact.\<close>

lemma bucket_exact:
  assumes "balance M tok s" "pushed s = 0" "stored s + tok \<le> M + 65534" "M < 2 ^ 31"
  shows "sint (se_bucket s) = int M - int (stored s + tok)"
proof -
  define T where "T = stored s + tok"
  have "se_bucket s = of_nat M - of_nat T"
    using assms(1,2) unfolding balance_def T_def by (simp add: eq_diff_eq del: of_nat_add)
  then have "se_bucket s = word_of_int (int M - int T)" by simp
  moreover have "- (2 ^ 31) \<le> int M - int T" "int M - int T < 2 ^ 31"
    using assms(3,4) unfolding T_def [symmetric] by simp_all
  ultimately show ?thesis unfolding T_def [symmetric] by (simp only: sint_of_int_small)
qed

lemma sum_list_update_nat:
  "r < length xs \<Longrightarrow> sum_list (xs[r := v]) + xs ! r = sum_list xs + (v :: nat)"
proof (induction xs arbitrary: r)
  case (Cons x xs)
  then show ?case by (cases r) (auto simp: algebra_simps)
qed simp

lemma stored_upd_stream:
  assumes "r < length (se_store s)"
  shows "stored (upd_stream r f s) + st_size (se_store s ! r) = stored s + st_size (f (se_store s ! r))"
  using sum_list_update_nat [of r "map st_size (se_store s)" "st_size (f (se_store s ! r))"] assms
  by (simp add: stored_def store_upd_stream map_update)

lemma stored_upd_same:
  assumes "\<And>st. st_size (f st) = st_size st" shows "stored (upd_stream r f s) = stored s"
proof (cases "r < length (se_store s)")
  case True
  with stored_upd_stream [OF True, of f] assms show ?thesis by simp
next
  case False
  then have "(se_store s)[r := f (se_store s ! r)] = se_store s" by (intro list_update_beyond) simp
  then show ?thesis by (simp add: stored_def store_upd_stream)
qed

text \<open>The books only depend on these fields.\<close>

lemma books_same:
  assumes "books M tok s" "se_bucket s' = se_bucket s" "stored s' + tok' = stored s + tok"
    "se_phase s' = se_phase s" "se_die s \<longrightarrow> se_die s'" "se_bucketNotify s \<longrightarrow> se_bucketNotify s'"
  shows "books M tok' s'"
proof -
  have p: "pushed s' = pushed s" using assms(4) by (simp add: pushed_def)
  have "balance M tok' s'" using assms(1,2) p unfolding books_def balance_def assms(3) by simp
  moreover have "bounded M tok' s'" if "\<not> se_die s'"
    using assms(1,5) that unfolding books_def bounded_def assms(3,4) by blast
  moreover have "awake s'" using assms(1,2,4,6) by (simp add: books_def awake_def)
  ultimately show ?thesis by (simp add: books_def)
qed

lemma books_quiet:
  assumes "quiet s s'" "books M tok s" shows "books M tok s'"
proof (rule books_same [OF assms(2)])
  have "map st_size (se_store s') = map st_size (se_store s)"
    using assms(1)
    by (auto simp: quiet_def list_all2_conv_all_nth same_stream_def st_size_def st_content_def
        intro!: nth_equalityI)
  then show "stored s' + tok = stored s + tok" by (simp add: stored_def)
qed (use assms(1) in \<open>simp_all add: quiet_def\<close>)

text \<open>Returning tokens: the one operation that fills the bucket.\<close>

lemma books_returnTokens:
  assumes "books M (tok + n) s" shows "books M tok (returnTokens n s)"
proof -
  let ?s = "returnTokens n s"
  have st: "stored ?s = stored s" by (simp add: stored_def)
  have p: "pushed ?s = pushed s" by (simp add: pushed_def)
  have "balance M tok ?s"
    using assms by (simp add: books_def balance_def st p algebra_simps)
  moreover have "bounded M tok ?s" if "\<not> se_die s"
    using assms that by (auto simp: books_def bounded_def st split: recv_phase.splits)
  moreover have "awake ?s" by (simp add: awake_def)
  ultimately show ?thesis by (simp add: books_def)
qed

lemma books_put_bufs: "books M tok s \<Longrightarrow> books M tok (put_bufs bs s)"
  by (rule books_same [of M tok s]) (simp_all add: stored_def)

lemma take_front_size:
  "take_front len st = (out, hs, st') \<Longrightarrow> st_size st = length out + st_size st'"
  using take_front_content(1) by (fastforce simp: st_size_def)

lemma take_buffer_size:
  "take_buffer st = (b, st') \<Longrightarrow>
   st_size st = (case b of None \<Rightarrow> 0 | Some c \<Rightarrow> length (fst c)) + st_size st'"
  by (cases "st_buffers st") (auto simp: take_buffer_def st_size_def st_content_def)

lemma books_tryRead_lock:
  assumes "tryRead_lock r len s = (out, s')" "books M tok s" "r < length (se_store s)"
  shows "books M (length out + tok) s'"
proof -
  obtain hs st' where t: "take_front len (se_store s ! r) = (out, hs, st')"
    and s': "s' = put_bufs hs (upd_stream r (\<lambda>_. st') s)"
    using assms(1) by (auto simp: tryRead_lock_def Let_def split: prod.splits)
  have "stored (upd_stream r (\<lambda>_. st') s) + (length out + tok) = stored s + tok"
    using stored_upd_stream [OF assms(3), of "\<lambda>_. st'"] take_front_size [OF t] by simp
  then show ?thesis
    unfolding s' by (intro books_put_bufs books_same [OF assms(2)]) simp_all
qed

lemma books_tryReadv2_lock:
  assumes "tryReadv2_lock r len s = (out, n, s')" "books M tok s" "r < length (se_store s)"
  shows "books M (length out + tok) s'"
proof -
  obtain hs st1 st2 where t: "take_front len (se_store s ! r) = (out, hs, st1)"
    and c: "count_read (se_config s) (length out) st1 = (n, st2)"
    and s': "s' = put_bufs hs (upd_stream r (\<lambda>_. st2) s)"
    using assms(1) by (auto simp: tryReadv2_lock_def Let_def split: prod.splits)
  have "stored (upd_stream r (\<lambda>_. st2) s) + (length out + tok) = stored s + tok"
    using stored_upd_stream [OF assms(3), of "\<lambda>_. st2"] take_front_size [OF t] count_read_simps [OF c]
    by simp
  then show ?thesis
    unfolding s' by (intro books_put_bufs books_same [OF assms(2)]) simp_all
qed

lemma add_stream_simps:
  assumes "add_stream sid s = (r, s')"
  shows "stored s' = stored s" "se_bucket s' = se_bucket s" "se_phase s' = se_phase s"
    "se_die s' = se_die s" "se_bucketNotify s' = se_bucketNotify s" "se_config s' = se_config s"
    "se_nextStreamID s' = se_nextStreamID s" "se_goAway s' = se_goAway s"
  using assms by (auto simp: add_stream_def stored_def Let_def)

lemma books_open_finish: "books M tok s \<Longrightarrow> books M tok (snd (open_finish pick sid s))"
  using add_stream_simps
  by (cases "add_stream sid s") (auto simp: open_finish_def Let_def intro!: books_same [of M tok s])

lemma books_Accept: "books M tok s \<Longrightarrow> books M tok (snd (AcceptStream ev s))"
  by (rule books_same [of M tok s]) (auto simp: AcceptStream_def stored_def split: ac_event.split)

lemma books_streamClosed:
  assumes "streamClosed sid s = Some s'" "books M tok s" "shape s"
  shows "books M tok s'"
proof -
  obtain r n hs st' where r: "map_of (se_streams s) sid = Some r"
    and rec: "recycleTokens (se_store s ! r) = (n, hs, st')"
    and s': "s' = (let s1 = put_bufs hs (upd_stream r (\<lambda>_. st') s);
                      s2 = (if n > 0 then returnTokens n s1 else s1)
                  in s2\<lparr>se_streams := AList.delete sid (se_streams s2)\<rparr>)"
    using assms(1) by (auto simp: streamClosed_def Let_def split: option.splits prod.splits)
  have "stored (upd_stream r (\<lambda>_. st') s) + (tok + n) = stored s + tok"
    using stored_upd_stream [OF shape_map(1) [OF assms(3) r], of "\<lambda>_. st'"] recycleTokens_size [OF rec]
    by simp
  then have b: "books M (tok + n) (put_bufs hs (upd_stream r (\<lambda>_. st') s))"
    by (intro books_put_bufs books_same [OF assms(2)]) simp_all
  then have "books M tok (if n > 0 then returnTokens n (put_bufs hs (upd_stream r (\<lambda>_. st') s))
      else put_bufs hs (upd_stream r (\<lambda>_. st') s))"
    using books_returnTokens [OF b] by auto
  then show ?thesis
    unfolding s' Let_def by (rule books_same) (simp_all add: stored_def)
qed

section \<open>The receive loop keeps the books\<close>

definition resting :: "recv_phase \<Rightarrow> bool" where
  "resting p \<longleftrightarrow> (case p of RPayload _ _ _ \<Rightarrow> False | RPushed _ _ \<Rightarrow> False | RWaitTokens \<Rightarrow> False | _ \<Rightarrow> True)"

lemma books_rest:
  assumes "books M tok s" "pushed s = 0" "stored s' = stored s" "se_bucket s' = se_bucket s"
    "se_die s \<longrightarrow> se_die s'" "resting (se_phase s')"
  shows "books M tok s'"
proof -
  have "pushed s' = 0" using assms(6) by (simp add: pushed_def resting_def split: recv_phase.splits)
  then have "balance M tok s'" using assms by (simp add: books_def balance_def)
  moreover have "bounded M tok s'" if "\<not> se_die s'"
  proof -
    have "bounded M tok s" using assms(1,5) that by (auto simp: books_def)
    then have "stored s + tok \<le> M + 65534"
      using assms(2) by (auto simp: bounded_def pushed_def split: recv_phase.splits)
    then show ?thesis using assms(3,6) by (auto simp: bounded_def resting_def split: recv_phase.splits)
  qed
  moreover have "awake s'" using assms(6) by (auto simp: awake_def resting_def)
  ultimately show ?thesis by (simp add: books_def)
qed

lemma stored_fields [simp]:
  "stored (s\<lparr>se_phase := p\<rparr>) = stored s" "stored (s\<lparr>se_input := x\<rparr>) = stored s"
  "stored (s\<lparr>se_dataReady := d\<rparr>) = stored s" "stored (s\<lparr>se_alloc := a\<rparr>) = stored s"
  "stored (s\<lparr>se_bucketNotify := d\<rparr>) = stored s" "stored (s\<lparr>se_accepts := q\<rparr>) = stored s"
  "stored (s\<lparr>se_bucket := u\<rparr>) = stored s"
  by (simp_all add: stored_def)

lemma recv_end_simps [simp]:
  "stored (recv_fail e s) = stored s" "se_bucket (recv_fail e s) = se_bucket s"
  "se_phase (recv_fail e s) = RExited" "se_die (recv_fail e s) = se_die s"
  "stored (recv_proto s) = stored s" "se_bucket (recv_proto s) = se_bucket s"
  "se_phase (recv_proto s) = RExited" "se_die (recv_proto s) = se_die s"
  by (simp_all add: recv_fail_def recv_proto_def notifyReadError_def notifyProtoError_def stored_def
      split: option.split)

lemma resting_simps [simp]:
  "resting RHeader" "resting (RUpdate sid)" "resting (RAccept r)" "resting RExited"
  "\<not> resting RWaitTokens" "\<not> resting (RPayload sid l c)" "\<not> resting (RPushed r n)"
  by (simp_all add: resting_def)

lemma books_recv_header:
  assumes "books M tok s" "se_phase s = RHeader" "\<not> se_die s \<longrightarrow> stored s + tok < M" "shape s"
  shows "books M tok (recv_header hit h s)"
proof -
  let ?s' = "recv_header hit h s"
  have p: "pushed s = 0" using assms(2) by (simp add: pushed_def)
  note rest = books_rest [OF assms(1) p]
  let ?n = "int (unat (hdr_Length h))"
  have psh: "books M tok (s\<lparr>se_alloc := a, se_phase := RPayload (hdr_StreamID h) (slen b) (scap b)\<rparr>)"
    if g: "alloc_Get hit ?n (se_alloc s) = (GSlice b, a)" "hdr_Length h > 0" for a b
  proof -
    have "0 < unat (hdr_Length h)" using g(2) by (simp add: word_less_nat_alt)
    moreover have u: "unat (hdr_Length h) < 65536"
      using unsigned_less [of "hdr_Length h", where 'a = nat] by simp
    ultimately have n: "0 < ?n" "?n \<le> 65536" by linarith+
    have "slen b = unat (hdr_Length h)"
      using alloc_Get_cases(2) [OF g(1) _ n] assms(4) by (simp add: shape_def)
    with u assms p show ?thesis
      by (auto simp: books_def balance_def bounded_def awake_def stored_def pushed_def)
  qed
  have syn: "books M tok (s1\<lparr>se_phase := RAccept r\<rparr>)" if "add_stream (hdr_StreamID h) s = (r, s1)" for r s1
    using add_stream_simps [OF that] by (intro rest) simp_all
  have fin: "books M tok ((upd_stream r (\<lambda>st. notifyReadEvent (stream_fin st)) s)\<lparr>se_phase := RHeader\<rparr>)" for r
    by (rule rest) (simp_all add: stored_upd_same)
  have idle: "books M tok (s\<lparr>se_phase := RHeader\<rparr>)" "books M tok (s\<lparr>se_phase := RUpdate sid\<rparr>)"
    "books M tok (recv_proto s)" "books M tok (s\<lparr>se_alloc := a, se_phase := RExited\<rparr>)" for sid a
    by (rule rest; simp)+
  obtain g a where ga: "alloc_Get hit ?n (se_alloc s) = (g, a)" by fastforce
  obtain r s1 where rs: "add_stream (hdr_StreamID h) s = (r, s1)" by fastforce
  have g: "books M tok (case g of
        GSlice b \<Rightarrow> s\<lparr>se_alloc := a, se_phase := RPayload (hdr_StreamID h) (slen b) (scap b)\<rparr>
      | _ \<Rightarrow> s\<lparr>se_alloc := a, se_phase := RExited\<rparr>)" if "hdr_Length h > 0"
    using psh ga that idle(4) by (cases g) simp_all
  have m: "books M tok (case map_of (se_streams s) (hdr_StreamID h) of
        Some r \<Rightarrow> (upd_stream r (\<lambda>st. notifyReadEvent (stream_fin st)) s)\<lparr>se_phase := RHeader\<rparr>
      | None \<Rightarrow> s\<lparr>se_phase := RHeader\<rparr>)"
    "books M tok (case map_of (se_streams s) (hdr_StreamID h) of
        Some r \<Rightarrow> s\<lparr>se_phase := RHeader\<rparr> | None \<Rightarrow> s1\<lparr>se_phase := RAccept r\<rparr>)"
    using fin syn [OF rs] idle(1) by (simp_all split: option.split)
  show ?thesis
    unfolding recv_header_def Let_def ga rs prod.case using g m idle by simp
qed

lemma bucket_open:
  assumes "books M tok s" "\<not> se_die s" "resting (se_phase s)" "M < 2 ^ 31"
  shows "sint (se_bucket s) = int M - int (stored s + tok)"
proof (rule bucket_exact)
  show "balance M tok s" using assms(1) by (simp add: books_def)
  show "pushed s = 0" using assms(3) by (simp add: pushed_def resting_def split: recv_phase.splits)
  have "bounded M tok s" using assms(1,2) by (simp add: books_def)
  with assms(3) show "stored s + tok \<le> M + 65534"
    by (simp add: bounded_def resting_def split: recv_phase.splits)
qed (rule assms(4))

lemma stored_push:
  assumes "r < length (se_store s)"
  shows "stored (upd_stream r (pushBytes (data, cap)) s) = stored s + length data"
  using stored_upd_stream [OF assms, of "pushBytes (data, cap)"] by simp

lemma books_recv_step:
  assumes b: "books M tok s" and sh: "shape s" and M: "M < 2 ^ 31"
  shows "books M tok (recv_step ev s)"
proof (cases ev)
  case (RvRun hit)
  show ?thesis
  proof (cases "se_phase s")
    case RHeader
    have p: "pushed s = 0" using RHeader by (simp add: pushed_def)
    note rest = books_rest [OF b p]
    show ?thesis
    proof (cases "sint (se_bucket s) \<le> 0 \<and> \<not> se_die s")
      case True
      then have "books M tok (s\<lparr>se_phase := RWaitTokens\<rparr>)"
        using b RHeader by (auto simp: books_def balance_def bounded_def awake_def pushed_def)
      with True RHeader show ?thesis by (simp add: recv_step_def RvRun IsClosed_def)
    next
      case False
      then have lt: "\<not> se_die s \<longrightarrow> stored s + tok < M"
        using bucket_open [OF b _ _ M] RHeader by auto
      have ok: "books M tok (recv_header hit h (s1\<lparr>se_dataReady := True\<rparr>))"
        if "read_full headerSize s = IoOk h s1" for h s1
      proof (rule books_recv_header)
        note s1 = read_full_ok(2) [OF that]
        show "books M tok (s1\<lparr>se_dataReady := True\<rparr>)"
          by (rule books_same [OF b]) (simp_all add: s1)
      qed (use read_full_ok(2) [OF that] RHeader lt sh in simp_all)
      have "books M tok (recv_fail e s)" for e by (rule rest) simp_all
      with ok b False RHeader show ?thesis
        by (auto simp: recv_step_def RvRun IsClosed_def split: io_result.split)
    qed
  next
    case RWaitTokens
    have "books M tok (s\<lparr>se_bucketNotify := False, se_phase := RHeader\<rparr>)"
      by (rule books_rest [OF b]) (simp_all add: pushed_def RWaitTokens stored_def)
    with RWaitTokens b show ?thesis by (simp add: recv_step_def RvRun)
  next
    case (RPayload sid len cap)
    have p: "pushed s = 0" using RPayload by (simp add: pushed_def)
    note rest = books_rest [OF b p]
    have ok: "books M tok ((upd_stream r (pushBytes (data, cap)) s1)\<lparr>se_phase := RPushed r len\<rparr>)"
      if "read_full len s = IoOk data s1" "map_of (se_streams s1) sid = Some r" for data s1 r
    proof -
      note s1 = read_full_ok [OF that(1)]
      have r: "r < length (se_store s1)" using shape_map(1) [OF sh] that(2) s1(2) by auto
      have "stored (upd_stream r (pushBytes (data, cap)) s1) = stored s + len"
        using stored_push [OF r] s1 by simp
      then show ?thesis
        using b RPayload p s1(2) by (auto simp: books_def balance_def bounded_def awake_def pushed_def)
    qed
    have none: "books M tok (s1\<lparr>se_phase := RHeader\<rparr>)" if "read_full len s = IoOk data s1" for data s1
      using read_full_ok(2) [OF that] by (intro rest) simp_all
    have "books M tok (recv_fail e s)" for e by (rule rest) simp_all
    with ok none b RPayload show ?thesis
      by (auto simp: recv_step_def RvRun split: io_result.split option.split)
  next
    case (RPushed r n)
    let ?s' = "(upd_stream r notifyReadEvent s)\<lparr>se_bucket := se_bucket s - of_nat n, se_phase := RHeader\<rparr>"
    have st: "stored ?s' = stored s" by (simp add: stored_def store_upd_stream map_update [symmetric])
      (metis stored_def stored_upd_same store_upd_stream st_size_simps(2))
    have "se_bucket s + of_nat (stored s + tok) = of_nat M + of_nat n"
      using b RPushed by (simp add: books_def balance_def pushed_def)
    then have "balance M tok ?s'"
      unfolding balance_def st by (simp add: pushed_def algebra_simps)
    moreover have "bounded M tok ?s'" if "\<not> se_die s"
      using b RPushed that unfolding books_def bounded_def st by simp
    ultimately have "books M tok ?s'" by (simp add: books_def awake_def)
    with RPushed show ?thesis by (simp add: recv_step_def RvRun)
  next
    case (RUpdate sid)
    have p: "pushed s = 0" using RUpdate by (simp add: pushed_def)
    note rest = books_rest [OF b p]
    have ok: "books M tok ((upd_stream r (stream_update c w) s1)\<lparr>se_phase := RHeader\<rparr>)"
      "books M tok (s1\<lparr>se_phase := RHeader\<rparr>)"
      if "read_full m s = IoOk h s1" for m c w s1 r h
      using read_full_ok(2) [OF that] by (auto intro!: rest simp: stored_upd_same)
    have "books M tok (recv_fail e s)" for e by (rule rest) simp_all
    with ok b RUpdate show ?thesis
      by (auto simp: recv_step_def RvRun split: io_result.split option.split)
  next
    case (RAccept r)
    have "books M tok (s\<lparr>se_accepts := se_accepts s @ [r], se_phase := RHeader\<rparr>)"
      by (rule books_rest [OF b]) (simp_all add: pushed_def RAccept stored_def)
    with RAccept b show ?thesis by (simp add: recv_step_def RvRun)
  next
    case RExited
    with b show ?thesis by (simp add: recv_step_def RvRun)
  qed
next
  case RvDie
  show ?thesis
  proof (cases "se_die s \<and> (se_phase s = RWaitTokens \<or> (\<exists>r. se_phase s = RAccept r))")
    case True
    then have p: "pushed s = 0" by (auto simp: pushed_def)
    show ?thesis
      by (rule books_rest [OF b p]) (use True in \<open>auto simp: recv_step_def RvDie\<close>)
  next
    case False
    with b show ?thesis by (auto simp: recv_step_def RvDie split: recv_phase.split)
  qed
qed

section \<open>Stream ids\<close>

text \<open>
  The ids drawn so far count up in steps of two from the side's first id, and the counter stands
  at the last of them until it overflows.
\<close>

definition id_seq :: "nat \<Rightarrow> nat \<Rightarrow> u32 list" where
  "id_seq p k = map (\<lambda>i. of_nat (p + 2 * Suc i)) [0..<k]"

definition ids_ok :: "nat \<Rightarrow> sys \<Rightarrow> bool" where
  "ids_ok p y \<longleftrightarrow>
     sy_issued y = id_seq p (length (sy_issued y)) \<and> p + 2 * length (sy_issued y) < 2 ^ 32 \<and>
     (\<not> se_goAway (sy_sess y) \<longrightarrow> se_nextStreamID (sy_sess y) = of_nat (p + 2 * length (sy_issued y)))"

lemma id_mod2: "(sid::u32) = sid mod 2 \<longleftrightarrow> unat sid < 2"
proof -
  have "unat (sid mod 2) = unat sid mod 2" by (simp add: unat_mod)
  moreover have "unat sid = unat sid mod 2 \<longleftrightarrow> unat sid < 2" by presburger
  ultimately show ?thesis by (simp add: word_unat_eq_iff)
qed

lemma unat_of_nat_u32: "m < 2 ^ 32 \<Longrightarrow> unat (of_nat m :: u32) = m"
  by (simp add: unat_of_nat)

lemma open_begin_ids:
  assumes "ids_ok p y" "p < 2" "open_begin (sy_sess y) = (res, s1)"
  shows "case res of
      Inl e \<Rightarrow> ids_ok p (y\<lparr>sy_sess := s1\<rparr>)
    | Inr sid \<Rightarrow> ids_ok p (y\<lparr>sy_sess := s1, sy_opening := q, sy_issued := sy_issued y @ [sid]\<rparr>)"
proof (cases "IsClosed (sy_sess y) \<or> se_goAway (sy_sess y)")
  case True
  with assms show ?thesis by (auto simp: open_begin_def ids_ok_def split: if_splits)
next
  case False
  define k where "k = length (sy_issued y)"
  have k: "p + 2 * k < 2 ^ 32" "se_nextStreamID (sy_sess y) = of_nat (p + 2 * k)"
    "sy_issued y = id_seq p k"
    using assms(1) False by (simp_all add: ids_ok_def k_def)
  define sid where "sid = se_nextStreamID (sy_sess y) + 2"
  have sid: "sid = of_nat (p + 2 * Suc k)" by (simp add: sid_def k(2))
  have ob: "open_begin (sy_sess y) =
      (if unat sid < 2 then (Inl ErrGoAway, (sy_sess y)\<lparr>se_nextStreamID := sid, se_goAway := True\<rparr>)
       else (Inr sid, (sy_sess y)\<lparr>se_nextStreamID := sid\<rparr>))"
    using False by (simp add: open_begin_def sid_def [symmetric] Let_def id_mod2 [symmetric])
  show ?thesis
  proof (cases "p + 2 * Suc k < 2 ^ 32")
    case small: True
    then have "unat sid = p + 2 * Suc k" unfolding sid by (rule unat_of_nat_u32)
    with assms(3) have "res = Inr sid" "s1 = (sy_sess y)\<lparr>se_nextStreamID := sid\<rparr>"
      by (simp_all add: ob)
    moreover have app: "id_seq p k @ [sid] = id_seq p (Suc k)" by (simp add: id_seq_def sid)
    let ?Y = "y\<lparr>sy_sess := (sy_sess y)\<lparr>se_nextStreamID := sid\<rparr>, sy_opening := q,
        sy_issued := sy_issued y @ [sid]\<rparr>"
    have i: "sy_issued ?Y = id_seq p (Suc k)" using k(3) app by simp
    have l: "length (id_seq p (Suc k)) = Suc k" by (simp add: id_seq_def)
    have n: "se_nextStreamID (sy_sess ?Y) = of_nat (p + 2 * Suc k)" using sid by simp
    have "ids_ok p ?Y" unfolding ids_ok_def i l n using small by blast
    ultimately show ?thesis by simp
  next
    case large: False
    with k(1) assms(2) have "p + 2 * Suc k = 2 ^ 32 \<or> p + 2 * Suc k = 2 ^ 32 + 1" by arith
    then have "sid = of_nat (2 ^ 32) \<or> sid = of_nat (2 ^ 32 + 1)" unfolding sid by metis
    moreover have "(of_nat (2 ^ 32) :: u32) = 0" "(of_nat (2 ^ 32 + 1) :: u32) = 1" by simp_all
    ultimately have "sid = 0 \<or> sid = 1" by metis
    then have "unat sid < 2" by auto
    then have "open_begin (sy_sess y) =
        (Inl ErrGoAway, (sy_sess y)\<lparr>se_nextStreamID := sid, se_goAway := True\<rparr>)"
      unfolding ob by (rule if_P)
    then have r: "res = Inl ErrGoAway"
      and s1: "s1 = (sy_sess y)\<lparr>se_nextStreamID := sid, se_goAway := True\<rparr>"
      unfolding assms(3) by (simp_all only: prod.inject)
    have "ids_ok p (y\<lparr>sy_sess := (sy_sess y)\<lparr>se_nextStreamID := sid, se_goAway := True\<rparr>\<rparr>)"
      using assms(1) by (simp add: ids_ok_def)
    then show ?thesis unfolding r s1 by simp
  qed
qed

lemma ids_ok_same:
  assumes "ids_ok p y" "se_nextStreamID (sy_sess y') = se_nextStreamID (sy_sess y)"
    "se_goAway (sy_sess y') = se_goAway (sy_sess y)" "sy_issued y' = sy_issued y"
  shows "ids_ok p y'"
  using assms by (simp add: ids_ok_def)

lemma recv_header_ids:
  "se_nextStreamID (recv_header hit h s) = se_nextStreamID s"
  "se_goAway (recv_header hit h s) = se_goAway s"
  by (auto simp: recv_header_def recv_proto_def notifyProtoError_def Let_def add_stream_def
      split: option.split prod.split get_result.split)

lemma recv_fail_ids:
  "se_nextStreamID (recv_fail e s) = se_nextStreamID s" "se_goAway (recv_fail e s) = se_goAway s"
  by (simp_all add: recv_fail_def notifyReadError_def split: option.split)

lemma recv_step_ids:
  "se_nextStreamID (recv_step ev s) = se_nextStreamID s" "se_goAway (recv_step ev s) = se_goAway s"
  by (auto simp: recv_step_def recv_header_ids recv_fail_ids dest!: read_full_ok(2)
      split: recv_event.split recv_phase.split io_result.split option.split)

section \<open>The invariant\<close>

definition tokens_held :: "sys \<Rightarrow> nat" where
  "tokens_held y = sum_list (map fst (sy_tokens y))"

definition sys_inv :: "nat \<Rightarrow> nat \<Rightarrow> sys \<Rightarrow> bool" where
  "sys_inv M p y \<longleftrightarrow>
     M < 2 ^ 31 \<and> p < 2 \<and> shape (sy_sess y) \<and> books M (tokens_held y) (sy_sess y) \<and> ids_ok p y"

lemma tokens_remove:
  "i < length xs \<Longrightarrow> sum_list (map fst (remove_nth i xs)) + fst (xs ! i) = sum_list (map fst (xs :: (nat \<times> 'a) list))"
  by (subst (2) id_take_nth_drop [of i xs]) (simp_all add: remove_nth_def)

lemma sys_init_inv:
  assumes "VerifyConfig c = None" "cMaxReceiveBuffer c < 2 ^ 31"
  shows "sys_inv (nat (cMaxReceiveBuffer c)) (if client then 1 else 0) (sys_init c client)"
proof -
  obtain M where M: "cMaxReceiveBuffer c = int M"
    using VerifyConfig_NoneD(4) [OF assms(1)] by (metis less_imp_le nonneg_int_cases)
  have "books M 0 (newSession c client)"
    by (simp add: books_def balance_def bounded_def awake_def newSession_def stored_def pushed_def M)
  moreover have "ids_ok (if client then 1 else 0) (sys_init c client)"
    by (simp add: ids_ok_def id_seq_def sys_init_def newSession_def)
  ultimately show ?thesis
    using assms(2) shape_newSession [of c client]
    unfolding sys_inv_def by (simp add: sys_init_def tokens_held_def M)
qed

lemma tryRead_lock_ids:
  "tryRead_lock r len s = (out, s') \<Longrightarrow> se_nextStreamID s' = se_nextStreamID s \<and> se_goAway s' = se_goAway s"
  "tryReadv2_lock r len s = (out, n, s') \<Longrightarrow> se_nextStreamID s' = se_nextStreamID s \<and> se_goAway s' = se_goAway s"
  by (auto simp: tryRead_lock_def tryReadv2_lock_def Let_def split: prod.splits)

lemma returnTokens_ids [simp]:
  "se_nextStreamID (returnTokens n s) = se_nextStreamID s" "se_goAway (returnTokens n s) = se_goAway s"
  by (simp_all add: returnTokens_def notifyBucket_def Let_def)

lemma streamClosed_ids:
  "streamClosed sid s = Some s' \<Longrightarrow> se_nextStreamID s' = se_nextStreamID s \<and> se_goAway s' = se_goAway s"
  by (auto simp: streamClosed_def Let_def split: option.splits prod.splits if_splits)

lemma open_begin_quiet:
  assumes "open_begin s = (res, s1)"
  shows "shape s \<Longrightarrow> shape s1" "books M tok s \<Longrightarrow> books M tok s1"
proof -
  have f: "se_streams s1 = se_streams s" "se_accepts s1 = se_accepts s" "se_store s1 = se_store s"
    "se_alloc s1 = se_alloc s" "se_phase s1 = se_phase s" "se_bucket s1 = se_bucket s"
    "se_die s1 = se_die s" "se_bucketNotify s1 = se_bucketNotify s"
    using assms by (auto simp: open_begin_def Let_def split: if_splits)
  show "shape s \<Longrightarrow> shape s1" using shape_same [of s1 s] f by simp
  show "books M tok s \<Longrightarrow> books M tok s1" by (erule books_same) (simp_all add: f stored_def)
qed

lemma sys_step_inv:
  assumes "sys_inv M p y"
  shows "sys_inv M p (sys_step y ev)"
proof -
  note inv = assms [unfolded sys_inv_def]
  define s where "s = sy_sess y"
  have M: "M < 2 ^ 31" and p: "p < 2" and sh: "shape s" and b: "books M (tokens_held y) s"
    and ids: "ids_ok p y" using inv by (simp_all add: s_def)
  show ?thesis
  proof (cases "is_quiet ev")
    case True
    note q = quiet_step [OF True, of y]
    have "ids_ok p (sys_step y ev)"
      by (rule ids_ok_same [OF ids]) (use q in \<open>simp_all add: quiet_def\<close>)
    with q M p sh b show ?thesis
      by (auto simp: sys_inv_def s_def tokens_held_def intro: shape_quiet books_quiet)
  next
    case False
    then show ?thesis
    proof (cases ev)
      case (EvRecv rv)
      have "ids_ok p (y\<lparr>sy_sess := recv_step rv s\<rparr>)"
        by (rule ids_ok_same [OF ids]) (simp_all add: recv_step_ids s_def)
      with M p sh b show ?thesis
        by (simp add: EvRecv sys_step_def sys_inv_def s_def [symmetric] shape_recv_step books_recv_step
            tokens_held_def)
    next
      case EvOpenBegin
      obtain res s1 where o: "open_begin s = (res, s1)" by fastforce
      note oq = open_begin_quiet [OF o] and oi = open_begin_ids [OF ids p o [unfolded s_def]]
      show ?thesis
        using M p sh b oq oi [of "sy_opening y @ [projr res]"]
        by (auto simp: EvOpenBegin sys_step_def sys_inv_def s_def [symmetric] o tokens_held_def
            split: sum.splits)
    next
      case (EvOpenFinish i pick)
      have "se_nextStreamID (snd (open_finish pick sid s)) = se_nextStreamID s \<and>
          se_goAway (snd (open_finish pick sid s)) = se_goAway s" for sid
        using add_stream_simps(7,8)
        by (cases "add_stream sid s") (auto simp: open_finish_def Let_def)
      then show ?thesis
        using inv sh b shape_open_finish books_open_finish
        by (auto simp: EvOpenFinish sys_step_def sys_inv_def s_def [symmetric] tokens_held_def Let_def
            intro!: ids_ok_same [OF ids])
    next
      case (EvAccept aev)
      have "se_nextStreamID (snd (AcceptStream aev s)) = se_nextStreamID s \<and>
          se_goAway (snd (AcceptStream aev s)) = se_goAway s"
        by (auto simp: AcceptStream_def split: ac_event.split)
      then show ?thesis
        using inv sh b shape_Accept books_Accept
        by (auto simp: EvAccept sys_step_def sys_inv_def s_def [symmetric] tokens_held_def Let_def
            intro!: ids_ok_same [OF ids])
    next
      case (EvReadLock r len)
      obtain out s1 where t1: "tryRead_lock r len s = (out, s1)" by fastforce
      obtain out2 n s2 where t2: "tryReadv2_lock r len s = (out2, n, s2)" using prod_cases3 by blast
      show ?thesis
        using inv sh b shape_tryRead_lock [OF t1 sh] shape_tryReadv2_lock [OF t2 sh]
          books_tryRead_lock [OF t1 b] books_tryReadv2_lock [OF t2 b] tryRead_lock_ids(1) [OF t1]
          tryRead_lock_ids(2) [OF t2]
        by (auto simp: EvReadLock sys_step_def sys_inv_def s_def [symmetric] t1 t2 tokens_held_def Let_def
            intro!: ids_ok_same [OF ids])
    next
      case (EvTakeBuffer r)
      show ?thesis
      proof (cases "r < length (se_store s) \<and> (\<exists>c st. take_buffer (se_store s ! r) = (Some c, st))")
        case True
        then obtain c st where r: "r < length (se_store s)" and t: "take_buffer (se_store s ! r) = (Some c, st)"
          by blast
        define st' where "st' = (if cVersion (se_config s) = 2
            then snd (count_read (se_config s) (length (fst c)) st) else st)"
        have st': "stream_ok st' = stream_ok st" "st_size st' = st_size st" "st_id st' = st_id st"
        proof -
          obtain n st2 where cr: "count_read (se_config s) (length (fst c)) st = (n, st2)" by fastforce
          show "stream_ok st' = stream_ok st" "st_size st' = st_size st" "st_id st' = st_id st"
            using count_read_simps [OF cr] by (simp_all add: st'_def cr)
        qed
        have "shape (upd_stream r (\<lambda>_. st') s)"
          using take_buffer_ok [OF t shape_nth [OF sh r]] st' by (intro shape_upd_stream [OF sh]) simp_all
        moreover have "stored (upd_stream r (\<lambda>_. st') s) + (length (fst c) + tokens_held y) = stored s + tokens_held y"
          using stored_upd_stream [OF r, of "\<lambda>_. st'"] take_buffer_size [OF t] st' by simp
        then have "books M (length (fst c) + tokens_held y) (upd_stream r (\<lambda>_. st') s)"
          by (intro books_same [OF b]) simp_all
        ultimately show ?thesis
          using M p r t
          by (auto simp: EvTakeBuffer sys_step_def sys_inv_def s_def [symmetric] tokens_held_def Let_def
              st'_def [symmetric] intro!: ids_ok_same [OF ids])
      next
        case False
        then have "sys_step y ev = y"
          by (auto simp: EvTakeBuffer sys_step_def s_def Let_def split: prod.split option.split)
        with assms show ?thesis by simp
      qed
    next
      case (EvReturn i)
      show ?thesis
      proof (cases "i < length (sy_tokens y)")
        case True
        obtain n bs where e: "sy_tokens y ! i = (n, bs)" by fastforce
        have "tokens_held y = sum_list (map fst (remove_nth i (sy_tokens y))) + n"
          using tokens_remove [OF True] e by (simp add: tokens_held_def)
        with b have "books M (sum_list (map fst (remove_nth i (sy_tokens y))) + n) s" by simp
        from books_put_bufs [OF books_returnTokens [OF this], of bs] this
        have "books M (sum_list (map fst (remove_nth i (sy_tokens y))))
            (put_bufs bs (if n > 0 then returnTokens n s else s))"
          by (auto intro: books_put_bufs)
        moreover have "shape (put_bufs bs (if n > 0 then returnTokens n s else s))"
          using sh by (auto intro: shape_put_bufs shape_returnTokens)
        ultimately show ?thesis
          using M p True
          by (auto simp: EvReturn sys_step_def sys_inv_def s_def [symmetric] tokens_held_def Let_def e
              intro!: ids_ok_same [OF ids])
      qed (use assms in \<open>simp add: EvReturn sys_step_def Let_def\<close>)
    next
      case (EvStreamClosed i)
      have same: "sys_inv M p (y\<lparr>sy_panicked := a, sy_closing := q\<rparr>)" for a q
        using inv by (auto simp: sys_inv_def tokens_held_def intro!: ids_ok_same [OF ids])
      have "sys_inv M p (y\<lparr>sy_sess := s1, sy_closing := q\<rparr>)" if "streamClosed sid s = Some s1" for sid s1 q
        using M p shape_streamClosed [OF that sh] books_streamClosed [OF that b sh] streamClosed_ids [OF that]
        by (auto simp: sys_inv_def tokens_held_def s_def intro!: ids_ok_same [OF ids])
      with same assms show ?thesis
        by (auto simp: EvStreamClosed sys_step_def s_def [symmetric] Let_def split: option.split)
    qed (simp_all add: is_quiet_def)
  qed
qed

interpretation smux: inv_machine sys_step "sys_inv M p" for M p
  by unfold_locales (rule sys_step_inv)

section \<open>Properties\<close>

definition sys_run :: "config \<Rightarrow> bool \<Rightarrow> event list \<Rightarrow> sys" where
  "sys_run c client es = foldl sys_step (sys_init c client) es"

lemma sys_run_inv:
  assumes "VerifyConfig c = None" "cMaxReceiveBuffer c < 2 ^ 31"
  shows "sys_inv (nat (cMaxReceiveBuffer c)) (if client then 1 else 0) (sys_run c client es)"
  unfolding sys_run_def by (rule smux.run_inv) (rule sys_init_inv [OF assms])

lemma sys_run_parts:
  assumes "VerifyConfig c = None" "cMaxReceiveBuffer c < 2 ^ 31"
  shows "shape (sy_sess (sys_run c client es))"
    "books (nat (cMaxReceiveBuffer c)) (tokens_held (sys_run c client es)) (sy_sess (sys_run c client es))"
    "ids_ok (if client then 1 else 0) (sys_run c client es)"
  using sys_run_inv [OF assms, of client es] by (simp_all add: sys_inv_def)

lemma default_ok: "VerifyConfig DefaultConfig = None" "cMaxReceiveBuffer DefaultConfig < 2 ^ 31"
  by (simp_all add: VerifyConfig_def DefaultConfig_def)

text \<open>A run in which the loop waits: the bucket holds 4 bytes, a push of 4 empties it, and a read of 2 bytes fills it again.\<close>

definition tight_config :: config where
  "tight_config = DefaultConfig\<lparr>cMaxReceiveBuffer := 4, cMaxStreamBuffer := 4\<rparr>"

definition tight_run :: "event list" where
  "tight_run =
     [EvInput (enc_frame (newFrame 1 cmdSYN 2) @ enc_frame ((newFrame 1 cmdPSH 2)\<lparr>fdata := [1, 2, 3, 4]\<rparr>)),
      EvRecv (RvRun True), EvRecv (RvRun True), EvRecv (RvRun True), EvRecv (RvRun True),
      EvRecv (RvRun True), EvRecv (RvRun True), EvReadLock 0 2, EvReturn 0]"

text \<open>
  C1: the token bucket is exact. In every interleaving of the receive loop, readers, writers,
  openers, closers and the keepalive, under a verified configuration with a receive buffer below
  2 GiB: the bucket plus the bytes held by all streams plus the tokens readers have not returned
  yet is \<^verbatim>\<open>MaxReceiveBuffer\<close> (plus the bytes just pushed, until the loop has paid for them); no
  token is lost or made, by \<^verbatim>\<open>Read\<close>, \<^verbatim>\<open>WriteTo\<close>, \<^verbatim>\<open>Close\<close> or anything else.
\<close>

theorem smux_bucket_exact:
  assumes "VerifyConfig c = None" "cMaxReceiveBuffer c < 2 ^ 31"
  shows "se_bucket (sy_sess (sys_run c client es)) +
      of_nat (stored (sy_sess (sys_run c client es)) + tokens_held (sys_run c client es)) =
    of_nat (nat (cMaxReceiveBuffer c) + pushed (sy_sess (sys_run c client es)))"
  using sys_run_parts(2) [OF assms, of client es] by (simp add: books_def balance_def)

theorem smux_bucket_exact_witness:
  "stored (sy_sess (sys_run tight_config True tight_run)) = 2 \<and>
   se_bucket (sy_sess (sys_run tight_config True tight_run)) + 2 = 4"
proof -
  let ?y = "sys_run tight_config True tight_run"
  have "stored (sy_sess ?y) = 2" "tokens_held ?y = 0" "pushed (sy_sess ?y) = 0" by code_simp+
  moreover have "VerifyConfig tight_config = None" "cMaxReceiveBuffer tight_config < 2 ^ 31"
    "nat (cMaxReceiveBuffer tight_config) = 4"
    by (simp_all add: tight_config_def VerifyConfig_def DefaultConfig_def)
  ultimately show ?thesis using smux_bucket_exact [of tight_config True tight_run] by simp
qed

text \<open>
  C2: memory is bounded. In every such run, while the session is open, the bytes buffered for all
  streams together (with those of readers still at work) never exceed \<^verbatim>\<open>MaxReceiveBuffer\<close> by
  more than one maximal frame less a byte, whatever the peer sends.
\<close>

theorem smux_memory_bounded:
  assumes "VerifyConfig c = None" "cMaxReceiveBuffer c < 2 ^ 31"
    "\<not> se_die (sy_sess (sys_run c client es))"
  shows "stored (sy_sess (sys_run c client es)) + tokens_held (sys_run c client es)
    \<le> nat (cMaxReceiveBuffer c) + 65534"
proof -
  have "bounded (nat (cMaxReceiveBuffer c)) (tokens_held (sys_run c client es)) (sy_sess (sys_run c client es))"
    using sys_run_parts(2) [OF assms(1,2), of client es] assms(3) by (simp add: books_def)
  then show ?thesis by (auto simp: bounded_def split: recv_phase.splits)
qed

theorem smux_memory_bounded_witness:
  "stored (sy_sess (sys_run DefaultConfig True [EvInput [1, 2], EvRecv (RvRun True)])) +
     tokens_held (sys_run DefaultConfig True [EvInput [1, 2], EvRecv (RvRun True)])
    \<le> nat (cMaxReceiveBuffer DefaultConfig) + 65534"
proof (rule smux_memory_bounded [OF default_ok])
  show "\<not> se_die (sy_sess (sys_run DefaultConfig True [EvInput [1, 2], EvRecv (RvRun True)]))"
    by code_simp
qed

text \<open>
  C3: no lost wake-up. In every such run, when the receive loop waits for tokens and the bucket is
  positive, the notification is there and its next step resumes reading; and it cannot be left
  waiting on an open session whose streams have all been drained.
\<close>

theorem smux_no_lost_wakeup:
  assumes "VerifyConfig c = None" "cMaxReceiveBuffer c < 2 ^ 31"
    "se_phase (sy_sess (sys_run c client es)) = RWaitTokens"
    "sint (se_bucket (sy_sess (sys_run c client es))) > 0 \<or>
     stored (sy_sess (sys_run c client es)) + tokens_held (sys_run c client es) = 0"
  shows "se_phase (recv_step (RvRun hit) (sy_sess (sys_run c client es))) = RHeader"
proof -
  let ?y = "sys_run c client es" and ?M = "nat (cMaxReceiveBuffer c)"
  note b = sys_run_parts(2) [OF assms(1,2), of client es]
  have "sint (se_bucket (sy_sess ?y)) > 0"
  proof (cases "stored (sy_sess ?y) + tokens_held ?y = 0")
    case True
    have "pushed (sy_sess ?y) = 0" using assms(3) by (simp add: pushed_def)
    then have "sint (se_bucket (sy_sess ?y)) = int ?M - int (stored (sy_sess ?y) + tokens_held ?y)"
      using b True assms(1,2) by (intro bucket_exact) (simp_all add: books_def)
    with True VerifyConfig_NoneD(4) [OF assms(1)] show ?thesis by simp
  qed (use assms(4) in auto)
  with b assms(3) have "se_bucketNotify (sy_sess ?y)" by (simp add: books_def awake_def)
  with assms(3) show ?thesis by (simp add: recv_step_def)
qed

theorem smux_no_lost_wakeup_witness:
  "se_phase (recv_step (RvRun True) (sy_sess (sys_run tight_config True tight_run))) = RHeader"
proof (rule smux_no_lost_wakeup)
  show "VerifyConfig tight_config = None" "cMaxReceiveBuffer tight_config < 2 ^ 31"
    by (simp_all add: tight_config_def VerifyConfig_def DefaultConfig_def)
  show "se_phase (sy_sess (sys_run tight_config True tight_run)) = RWaitTokens" by code_simp
  show "sint (se_bucket (sy_sess (sys_run tight_config True tight_run))) > 0 \<or>
     stored (sy_sess (sys_run tight_config True tight_run)) + tokens_held (sys_run tight_config True tight_run) = 0"
    by code_simp
qed

text \<open>
  The ids \<^verbatim>\<open>OpenStream\<close> has drawn are, in order, 3, 5, 7, ... on a client and 2, 4, 6, ... on a
  server: \<^verbatim>\<open>nextStreamID\<close> is advanced before it is used, so that the first id is not the 1 or 0 the
  protocol description in \<^verbatim>\<open>smux/README.md\<close> names.
\<close>

lemma smux_id_values:
  assumes "VerifyConfig c = None" "cMaxReceiveBuffer c < 2 ^ 31"
  shows "map unat (sy_issued (sys_run c client es)) =
      map (\<lambda>i. (if client then 3 else 2) + 2 * i) [0..<length (sy_issued (sys_run c client es))] \<and>
    distinct (sy_issued (sys_run c client es)) \<and>
    (\<forall>sid\<in>set (sy_issued (sys_run c client es)). odd (unat sid) = client)"
proof -
  let ?p = "if client then 1 else 0 :: nat"
  define ids where "ids = sy_issued (sys_run c client es)"
  note i = sys_run_parts(3) [OF assms, of client es, unfolded ids_ok_def, folded ids_def]
  have u: "unat (of_nat (?p + 2 * Suc j) :: u32) = ?p + 2 * Suc j" if "j < length ids" for j
    using that i by (intro unat_of_nat_u32) simp
  have m: "map unat ids = map (\<lambda>i. (if client then 3 else 2) + 2 * i) [0..<length ids]"
  proof (rule nth_equalityI)
    fix j assume "j < length (map unat ids)"
    then have j: "j < length ids" by simp
    have "ids ! j = id_seq ?p (length ids) ! j" using i by metis
    also have "\<dots> = of_nat (?p + 2 * Suc j)" using j by (simp add: id_seq_def)
    finally show "map unat ids ! j = map (\<lambda>i. (if client then 3 else 2) + 2 * i) [0..<length ids] ! j"
      using u [OF j] j by (simp split: if_splits)
  qed simp
  have "distinct (map unat ids)" unfolding m by (auto simp: distinct_map inj_on_def)
  then have "distinct ids" by (simp only: distinct_map)
  moreover have "odd (unat sid) = client" if "sid \<in> set ids" for sid
  proof -
    have "unat sid \<in> set (map unat ids)" using that by simp
    then show ?thesis unfolding m by (auto split: if_splits)
  qed
  ultimately show ?thesis using m unfolding ids_def [symmetric] by blast
qed

text \<open>
  C10: stream ids. In every run of a client session and of a server session the ids \<^verbatim>\<open>OpenStream\<close>
  has drawn go up by 2, so that none is drawn twice (when the counter would overflow none is drawn
  any more); a client's are odd and a server's even, so that the two ends of a connection never
  draw the same one.
\<close>

theorem smux_stream_ids:
  fixes c c' :: config and es es' :: "event list"
  assumes "VerifyConfig c = None" "cMaxReceiveBuffer c < 2 ^ 31"
    "VerifyConfig c' = None" "cMaxReceiveBuffer c' < 2 ^ 31"
  defines "cl \<equiv> map unat (sy_issued (sys_run c True es))"
    and "sv \<equiv> map unat (sy_issued (sys_run c' False es'))"
  shows "sorted_wrt (<) cl \<and> sorted_wrt (<) sv \<and>
    (\<forall>i. Suc i < length cl \<longrightarrow> cl ! Suc i = cl ! i + 2) \<and>
    (\<forall>i. Suc i < length sv \<longrightarrow> sv ! Suc i = sv ! i + 2) \<and>
    (\<forall>n\<in>set cl. odd n) \<and> (\<forall>n\<in>set sv. even n) \<and> set cl \<inter> set sv = {}"
proof -
  have cl: "cl = map (\<lambda>i. 3 + 2 * i) [0..<length (sy_issued (sys_run c True es))]"
    using smux_id_values [OF assms(1,2), of True es] by (simp add: cl_def)
  have sv: "sv = map (\<lambda>i. 2 + 2 * i) [0..<length (sy_issued (sys_run c' False es'))]"
    using smux_id_values [OF assms(3,4), of False es'] by (simp add: sv_def)
  have odd: "\<forall>n\<in>set cl. odd n" "\<forall>n\<in>set sv. even n" unfolding cl sv by auto
  moreover have "sorted_wrt (<) cl" "sorted_wrt (<) sv"
    unfolding cl sv by (auto simp: sorted_wrt_iff_nth_less)
  moreover have "Suc i < length cl \<longrightarrow> cl ! Suc i = cl ! i + 2" "Suc i < length sv \<longrightarrow> sv ! Suc i = sv ! i + 2" for i
    unfolding cl sv by auto
  ultimately show ?thesis by blast
qed

theorem smux_stream_ids_witness:
  "let cl = map unat (sy_issued (sys_run DefaultConfig True [EvOpenBegin, EvOpenBegin]));
       sv = map unat (sy_issued (sys_run DefaultConfig False [EvOpenBegin]))
   in length cl = 2 \<and> length sv = 1 \<and> cl ! 1 = cl ! 0 + 2 \<and> (\<forall>n\<in>set cl. odd n) \<and> (\<forall>n\<in>set sv. even n)"
proof -
  have "length (sy_issued (sys_run DefaultConfig True [EvOpenBegin, EvOpenBegin])) = 2 \<and>
    length (sy_issued (sys_run DefaultConfig False [EvOpenBegin])) = 1" by code_simp
  then show ?thesis
    using smux_stream_ids [OF default_ok default_ok, of "[EvOpenBegin, EvOpenBegin]" "[EvOpenBegin]"]
    by (simp add: Let_def)
qed

text \<open>
  C9: the structures stay sound. In every such run each entry of the stream map names a stream
  that exists and carries that id, no id has two entries, every queued stream exists, every
  stream's buffers are non-empty suffixes of its heads, and every head is a buffer the allocator
  will take back when the stream is closed or read to its end.
\<close>

theorem smux_sound:
  assumes "VerifyConfig c = None" "cMaxReceiveBuffer c < 2 ^ 31"
  shows "distinct (map fst (se_streams (sy_sess (sys_run c client es)))) \<and>
    (\<forall>p\<in>set (se_streams (sy_sess (sys_run c client es))).
       snd p < length (se_store (sy_sess (sys_run c client es))) \<and>
       st_id (se_store (sy_sess (sys_run c client es)) ! snd p) = fst p) \<and>
    (\<forall>r\<in>set (se_accepts (sy_sess (sys_run c client es))).
       r < length (se_store (sy_sess (sys_run c client es)))) \<and>
    (\<forall>st\<in>set (se_store (sy_sess (sys_run c client es))).
       list_all2 (\<lambda>b h. fst b \<noteq> [] \<and> (\<exists>k. b = buf_drop k h)) (st_buffers st) (st_heads st) \<and>
       (\<forall>h\<in>set (st_heads st). fst (alloc_Put (snd h) (se_alloc (sy_sess (sys_run c client es))))))"
proof -
  note sh = sys_run_parts(1) [OF assms, of client es]
  have heads: "list_all2 (\<lambda>b h. fst b \<noteq> [] \<and> (\<exists>k. b = buf_drop k h)) (st_buffers st) (st_heads st) \<and>
      (\<forall>h\<in>set (st_heads st). fst (alloc_Put (snd h) a))" if "stream_ok st" for st a
  proof (intro conjI ballI)
    show "list_all2 (\<lambda>b h. fst b \<noteq> [] \<and> (\<exists>k. b = buf_drop k h)) (st_buffers st) (st_heads st)"
      using that by (auto simp: stream_ok_def buf_of_head_def elim!: list_all2_mono)
    fix h assume "h \<in> set (st_heads st)"
    with that obtain b where "buf_of_head b h"
      unfolding stream_ok_def list_all2_conv_all_nth by (metis in_set_conv_nth)
    then show "fst (alloc_Put (snd h) a)"
      by (auto simp: buf_of_head_def from_pool_def alloc_Put_ok_iff)
  qed
  have "\<forall>st\<in>set (se_store (sy_sess (sys_run c client es))). stream_ok st"
    using sh by (simp add: shape_def list_all_iff)
  with sh heads show ?thesis
    unfolding shape_def ref_ok_def list_all_iff by blast
qed

theorem smux_sound_witness:
  "distinct (map fst (se_streams (sy_sess (sys_run DefaultConfig True tight_run))))"
  using smux_sound [OF default_ok, of True tight_run] by blast

text \<open>
  A peer can crash the session. After the peer opens the id this side draws next, both
  streams share it; closing one removes the map's entry, and closing the other dereferences nil in
  \<^verbatim>\<open>streamClosed\<close>.
\<close>

theorem smux_panic_reachable:
  "sy_panicked (sys_run DefaultConfig True
     [EvInput (enc_frame (newFrame 1 cmdSYN 3)), EvRecv (RvRun True), EvRecv (RvRun True),
      EvAccept AcStream, EvOpenBegin, EvOpenFinish 0 0,
      EvCloseDie 0, EvStreamClosed 0, EvCloseDie 1, EvStreamClosed 0])"
  by code_simp

text \<open>
  A receive buffer of 2 GiB or more passes \<^verbatim>\<open>VerifyConfig\<close>, but \<^verbatim>\<open>int32(MaxReceiveBuffer)\<close> is
  negative (up to 4 GiB less a byte): the session never reads its first header.
\<close>

theorem smux_huge_buffer_stuck:
  "VerifyConfig (DefaultConfig\<lparr>cMaxReceiveBuffer := 2 ^ 31\<rparr>) = None \<and>
   sint (se_bucket (newSession (DefaultConfig\<lparr>cMaxReceiveBuffer := 2 ^ 31\<rparr>) client)) < 0 \<and>
   se_phase (recv_step (RvRun hit) (newSession (DefaultConfig\<lparr>cMaxReceiveBuffer := 2 ^ 31\<rparr>) client)) =
     RWaitTokens"
  by (simp add: VerifyConfig_def DefaultConfig_def newSession_def recv_step_def IsClosed_def)

text \<open>
  \<^verbatim>\<open>WriteTo\<close> does not recycle a buffer that was read from before: it puts back the rest of
  the slice, whose capacity is no power of two, and the allocator refuses it; read to its end by
  \<^verbatim>\<open>Read\<close>, the same buffer is taken back.
\<close>

theorem WriteTo_loses_buffer:
  "case take_front 1 (pushBytes ([1, 2, 3, 4], 4) (newStream 2 8)) of
     (out, hs, st) \<Rightarrow> out = [1] \<and>
       (case take_buffer st of (b, _) \<Rightarrow> b = Some ([2, 3, 4], 3) \<and> \<not> fst (alloc_Put 3 NewAllocator)) \<and>
       (case take_front 3 st of (_, hs', _) \<Rightarrow> hs' = [([1, 2, 3, 4], 4)] \<and> fst (alloc_Put 4 NewAllocator))"
proof -
  have "\<not> (\<exists>k\<le>16. (3::nat) = 2 ^ k)"
  proof
    assume "\<exists>k\<le>16. (3::nat) = 2 ^ k"
    then obtain k where k: "(3::nat) = 2 ^ k" by blast
    then show False by (cases k) (simp_all, presburger)
  qed
  moreover have "\<exists>k\<le>16. (4::nat) = 2 ^ k" by (rule exI [of _ 2]) simp
  ultimately show ?thesis
    by (simp add: take_front_def take_buffer_def pushBytes_def newStream_def buf_drop_def Let_def
        alloc_Put_ok_iff)
qed

end
