(* ===== verification/Smux_EndToEnd.thy ===== *)
theory Smux_EndToEnd
  imports Smux_System
begin

text \<open>
  What the receive loop computes, stated without its phases: a map from stream ids to the bytes
  received and whether FIN has come, updated frame by frame. The loop of \<^verbatim>\<open>Smux_Session\<close>
  refines it, and with the writer's frames this gives delivery from \<^verbatim>\<open>Write\<close> to \<^verbatim>\<open>Read\<close>.
\<close>

section \<open>The abstract receiver\<close>

type_synonym mailbox = "u32 \<Rightarrow> (bytes \<times> bool) option"

definition apply_frame :: "mailbox \<Rightarrow> frame \<Rightarrow> mailbox" where
  "apply_frame m f =
     (case m (fsid f) of
        None \<Rightarrow> if fcmd f = cmdSYN then m(fsid f \<mapsto> ([], False)) else m
      | Some (bs, fin) \<Rightarrow>
          if fcmd f = cmdPSH then m(fsid f \<mapsto> (bs @ fdata f, fin))
          else if fcmd f = cmdFIN then m(fsid f \<mapsto> (bs, True)) else m)"

definition mailbox_of :: "session \<Rightarrow> mailbox" where
  "mailbox_of s sid =
     map_option (\<lambda>r. (st_content (se_store s ! r), st_fin (se_store s ! r))) (map_of (se_streams s) sid)"

definition known_cmd :: "frame \<Rightarrow> bool" where
  "known_cmd f \<longleftrightarrow> fcmd f \<in> {cmdSYN, cmdFIN, cmdPSH, cmdNOP, cmdUPD}"

definition recv_run :: "bool \<Rightarrow> nat \<Rightarrow> session \<Rightarrow> session" where
  "recv_run hit n = recv_step (RvRun hit) ^^ n"

definition ready :: "session \<Rightarrow> bool" where
  "ready s \<longleftrightarrow> shape s \<and> se_phase s = RHeader \<and> \<not> se_die s"

lemma recv_run_Suc: "recv_run hit (Suc n) s = recv_run hit n (recv_step (RvRun hit) s)"
  by (simp add: recv_run_def funpow_swap1)

lemma recv_run_0 [simp]: "recv_run hit 0 s = s"
  by (simp add: recv_run_def)

lemma recv_run_add: "recv_run hit (m + n) s = recv_run hit n (recv_run hit m s)"
  by (induction m arbitrary: s) (simp_all add: recv_run_Suc)

section \<open>The mailbox of an updated session\<close>

lemma mailbox_cong:
  "se_streams s' = se_streams s \<Longrightarrow> se_store s' = se_store s \<Longrightarrow> mailbox_of s' = mailbox_of s"
  by (simp add: mailbox_of_def fun_eq_iff)

lemma shape_ref_inj:
  assumes "shape s" "map_of (se_streams s) a = Some r" "map_of (se_streams s) b = Some r"
  shows "a = b"
  using shape_map(2) [OF assms(1,2)] shape_map(2) [OF assms(1,3)] by simp

lemma mailbox_upd_stream:
  assumes "shape s" "map_of (se_streams s) sid = Some r"
  shows "mailbox_of (upd_stream r f s) =
    (mailbox_of s)(sid \<mapsto> (st_content (f (se_store s ! r)), st_fin (f (se_store s ! r))))"
proof
  fix q
  show "mailbox_of (upd_stream r f s) q =
    ((mailbox_of s)(sid \<mapsto> (st_content (f (se_store s ! r)), st_fin (f (se_store s ! r))))) q"
  proof (cases "q = sid")
    case True
    with assms shape_map(1) [OF assms] show ?thesis
      by (simp add: mailbox_of_def store_upd_stream)
  next
    case False
    have "p \<noteq> r" if "map_of (se_streams s) q = Some p" for p
      using shape_ref_inj [OF assms(1) that] assms(2) False by blast
    with False show ?thesis
      by (cases "map_of (se_streams s) q") (auto simp: mailbox_of_def store_upd_stream)
  qed
qed

lemma mailbox_upd_same:
  assumes "\<And>st. st_content (f st) = st_content st \<and> st_fin (f st) = st_fin st"
  shows "mailbox_of (upd_stream r f s) = mailbox_of s"
proof -
  have "st_content ((se_store s)[r := f (se_store s ! r)] ! q) = st_content (se_store s ! q) \<and>
      st_fin ((se_store s)[r := f (se_store s ! r)] ! q) = st_fin (se_store s ! q)" for q
  proof (cases "r < length (se_store s)")
    case True
    then show ?thesis by (cases "q = r") (simp_all add: assms)
  next
    case False
    then have "(se_store s)[r := f (se_store s ! r)] = se_store s" by (intro list_update_beyond) simp
    then show ?thesis by (simp only: simp_thms)
  qed
  then show ?thesis by (simp add: mailbox_of_def fun_eq_iff store_upd_stream)
qed

lemma mailbox_add_stream:
  assumes "shape s" "add_stream sid s = (r, s')"
  shows "mailbox_of s' = (mailbox_of s)(sid \<mapsto> ([], False))"
proof
  fix q
  show "mailbox_of s' q = ((mailbox_of s)(sid \<mapsto> ([], False))) q"
  proof (cases "q = sid")
    case True
    then show ?thesis
      using assms(2)
      by (auto simp: mailbox_of_def add_stream_def Let_def update_conv' newStream_def st_content_def)
  next
    case False
    then show ?thesis
      using assms shape_map(1) [OF assms(1), of q]
      by (cases "map_of (se_streams s) q")
        (auto simp: mailbox_of_def add_stream_def Let_def update_conv' nth_append)
  qed
qed

lemma mailbox_None: "mailbox_of s sid = None \<longleftrightarrow> map_of (se_streams s) sid = None"
  by (simp add: mailbox_of_def)

lemma mailbox_Some:
  "map_of (se_streams s) sid = Some r \<Longrightarrow>
   mailbox_of s sid = Some (st_content (se_store s ! r), st_fin (se_store s ! r))"
  by (simp add: mailbox_of_def)

section \<open>One frame\<close>

text \<open>What one frame does to the session, up to the next header.\<close>

definition after_frame :: "frame \<Rightarrow> bytes \<Rightarrow> session \<Rightarrow> session \<Rightarrow> bool" where
  "after_frame f rest s s' \<longleftrightarrow>
     ready s' \<and> se_input s' = rest \<and> mailbox_of s' = apply_frame (mailbox_of s) f \<and>
     se_config s' = se_config s \<and>
     sint (se_bucket s) - int (length (fdata f)) \<le> sint (se_bucket s') \<and>
     length (se_accepts s') \<le> length (se_accepts s) + (if fcmd f = cmdSYN then 1 else 0)"

text \<open>The header step: the loop has read the header of \<open>f\<close> and stands before its data.\<close>

lemma recv_step_header:
  assumes "ready s" "se_input s = enc_frame f @ rest" "0 < sint (se_bucket s)"
  shows "recv_step (RvRun hit) s =
    recv_header hit (frame_header f) (s\<lparr>se_input := fdata f @ rest, se_dataReady := True\<rparr>)"
  using assms by (simp add: ready_def recv_step_def read_full_def enc_frame_def)

lemma ready_idle:
  assumes "shape s" "\<not> se_die s" shows "ready (s\<lparr>se_phase := RHeader\<rparr>)"
  using assms by (simp add: ready_def shape_phase)

lemma mailbox_fields [simp]:
  "mailbox_of (s\<lparr>se_phase := p\<rparr>) = mailbox_of s" "mailbox_of (s\<lparr>se_input := x\<rparr>) = mailbox_of s"
  "mailbox_of (s\<lparr>se_dataReady := d\<rparr>) = mailbox_of s" "mailbox_of (s\<lparr>se_alloc := a\<rparr>) = mailbox_of s"
  "mailbox_of (s\<lparr>se_accepts := q\<rparr>) = mailbox_of s" "mailbox_of (s\<lparr>se_bucket := u\<rparr>) = mailbox_of s"
  by (simp_all add: mailbox_of_def fun_eq_iff)

lemma recv_frame_idle:
  assumes "ready s" "fcmd f = cmdNOP \<or> fcmd f = cmdFIN \<or>
      fcmd f = cmdSYN \<and> mailbox_of s (fsid f) \<noteq> None \<or> fcmd f = cmdPSH \<and> fdata f = []"
    "fver f = word_of_int (cVersion (se_config s))" "frame_ok f"
  shows "after_frame f rest s
    (recv_header hit (frame_header f) (s\<lparr>se_input := fdata f @ rest, se_dataReady := True\<rparr>))"
proof -
  let ?s = "s\<lparr>se_input := fdata f @ rest, se_dataReady := True\<rparr>"
  have sh: "shape ?s" "\<not> se_die ?s" using assms(1) by (simp_all add: ready_def)
  have empty: "fdata f = []" using assms(2,4) by (auto simp: frame_ok_def)
  show ?thesis
  proof (cases "fcmd f = cmdFIN \<and> mailbox_of s (fsid f) \<noteq> None")
    case True
    then obtain r where r: "map_of (se_streams s) (fsid f) = Some r" by (auto simp: mailbox_of_def)
    have mb: "mailbox_of (upd_stream r (\<lambda>st. notifyReadEvent (stream_fin st)) ?s) =
        (mailbox_of s)(fsid f \<mapsto> (st_content (se_store s ! r), True))"
      using mailbox_upd_stream [OF sh(1), of "fsid f" r] r
      by (simp add: notifyReadEvent_def stream_fin_def st_content_def)
    have "shape (upd_stream r (\<lambda>st. notifyReadEvent (stream_fin st)) ?s)"
      using shape_map(1) [OF sh(1)] r shape_nth [OF sh(1), of r]
      by (intro shape_upd_stream [OF sh(1)]) (simp_all add: stream_ok_def notifyReadEvent_def stream_fin_def)
    moreover have "recv_header hit (frame_header f) ?s =
        (upd_stream r (\<lambda>st. notifyReadEvent (stream_fin st)) ?s)\<lparr>se_phase := RHeader\<rparr>"
      using True r assms(3) by (simp add: recv_header_def Let_def)
    moreover have "apply_frame (mailbox_of s) f = (mailbox_of s)(fsid f \<mapsto> (st_content (se_store s ! r), True))"
      using True mailbox_Some [OF r] by (simp add: apply_frame_def)
    ultimately show ?thesis
      using True mb sh(2) empty by (simp add: after_frame_def ready_idle)
  next
    case False
    have ap: "apply_frame (mailbox_of s) f = mailbox_of s"
    proof (cases "mailbox_of s (fsid f)")
      case (Some p)
      obtain bs fin where p: "p = (bs, fin)" by fastforce
      have idem: "(mailbox_of s)(fsid f \<mapsto> (bs, fin)) = mailbox_of s"
        using Some p by (intro fun_upd_idem) simp
      have "fcmd f \<noteq> cmdFIN" using False Some by blast
      then show ?thesis
        by (cases "fcmd f = cmdPSH") (simp_all add: apply_frame_def Some p empty idem)
    next
      case None
      then have "fcmd f \<noteq> cmdSYN" using assms(2) by auto
      with None show ?thesis by (simp add: apply_frame_def)
    qed
    have "recv_header hit (frame_header f) ?s = ?s\<lparr>se_phase := RHeader\<rparr>"
    proof -
      consider "fcmd f = cmdNOP" | "fcmd f = cmdFIN" "mailbox_of s (fsid f) = None"
        | r where "fcmd f = cmdSYN" "map_of (se_streams s) (fsid f) = Some r" | "fcmd f = cmdPSH"
        using assms(2) False by (auto simp: mailbox_None)
      then show ?thesis
        by cases (simp_all add: recv_header_def Let_def assms(3) mailbox_None empty)
    qed
    with ap sh empty show ?thesis by (simp add: after_frame_def ready_idle)
  qed
qed

lemma recv_frame_syn:
  assumes "ready s" "fcmd f = cmdSYN" "mailbox_of s (fsid f) = None"
    "fver f = word_of_int (cVersion (se_config s))" "frame_ok f"
    "length (se_accepts s) < defaultAcceptBacklog"
  shows "after_frame f rest s (recv_step (RvRun hit)
    (recv_header hit (frame_header f) (s\<lparr>se_input := fdata f @ rest, se_dataReady := True\<rparr>)))"
proof -
  let ?s = "s\<lparr>se_input := fdata f @ rest, se_dataReady := True\<rparr>"
  have sh: "shape ?s" using assms(1) by (simp add: ready_def)
  have empty: "fdata f = []" using assms(2,5) by (auto simp: frame_ok_def)
  obtain r s1 where a: "add_stream (fsid f) ?s = (r, s1)" by fastforce
  note sa = shape_add_stream [OF sh a] and as = add_stream_simps [OF a]
  have acc: "se_accepts s1 = se_accepts s" "se_input s1 = rest"
    using a empty by (auto simp: add_stream_def Let_def)
  have h: "recv_header hit (frame_header f) ?s = s1\<lparr>se_phase := RAccept r\<rparr>"
    using assms(2,3,4) a by (simp add: recv_header_def Let_def mailbox_None)
  have "shape (s1\<lparr>se_accepts := se_accepts s1 @ [r], se_phase := RHeader\<rparr>)"
    using sa by (auto simp: shape_def phase_ok_def ref_ok_def list_all_iff)
  moreover have "mailbox_of s1 = apply_frame (mailbox_of s) f"
    using mailbox_add_stream [OF sh a] assms(2,3) by (simp add: apply_frame_def)
  ultimately show ?thesis
    using assms(1,6) as acc empty assms(2) unfolding h
    by (simp add: recv_step_def after_frame_def ready_def)
qed

lemma recv_frame_upd:
  assumes "ready s" "fcmd f = cmdUPD" "fver f = word_of_int (cVersion (se_config s))" "frame_ok f"
  shows "after_frame f rest s (recv_step (RvRun hit)
    (recv_header hit (frame_header f) (s\<lparr>se_input := fdata f @ rest, se_dataReady := True\<rparr>)))"
proof -
  let ?s = "s\<lparr>se_input := fdata f @ rest, se_dataReady := True\<rparr>"
  let ?u = "stream_update (upd_Consumed (fdata f)) (upd_Window (fdata f))"
  have sh: "shape s" "\<not> se_die s" using assms(1) by (simp_all add: ready_def)
  have len: "length (fdata f) = 8" using assms(2,4) by (auto simp: frame_ok_def)
  define t where "t = s\<lparr>se_input := rest, se_dataReady := True, se_phase := RUpdate (fsid f)\<rparr>"
  have h: "recv_header hit (frame_header f) ?s = ?s\<lparr>se_phase := RUpdate (fsid f)\<rparr>"
    using assms(2,3) by (simp add: recv_header_def Let_def)
  have rf: "read_full szCmdUPD (?s\<lparr>se_phase := RUpdate (fsid f)\<rparr>) = IoOk (fdata f) t"
    using len by (simp add: read_full_def t_def)
  have st: "shape t" using sh(1) by (simp add: t_def shape_phase)
  have tf: "se_streams t = se_streams s" "se_store t = se_store s" "se_die t = se_die s"
    "se_config t = se_config s" "se_bucket t = se_bucket s" "se_accepts t = se_accepts s"
    "se_input t = rest" "mailbox_of t = mailbox_of s"
    by (simp_all add: t_def)
  show ?thesis
  proof (cases "map_of (se_streams s) (fsid f)")
    case None
    with h rf tf st sh(2) assms(2) show ?thesis
      by (simp add: recv_step_def after_frame_def ready_idle apply_frame_def mailbox_of_def)
  next
    case (Some r)
    have "shape (upd_stream r ?u t)"
      using shape_nth [OF st, of r] shape_map(1) [OF st, of "fsid f" r] Some tf(1)
      by (intro shape_upd_stream [OF st]) (simp_all add: stream_ok_def stream_update_def)
    moreover have "mailbox_of (upd_stream r ?u t) = mailbox_of s"
      using mailbox_upd_stream [OF st, of "fsid f" r ?u] Some tf
      by (simp add: stream_update_def st_content_def mailbox_of_def fun_eq_iff)
    moreover have "apply_frame (mailbox_of s) f = mailbox_of s"
      using Some assms(2) by (simp add: apply_frame_def mailbox_Some)
    ultimately show ?thesis
      using Some h rf tf sh(2) assms(2)
      by (simp add: recv_step_def after_frame_def ready_idle)
  qed
qed

lemma bucket_pay:
  assumes "int n < sint (b :: u32)" "n < 65536"
  shows "sint (b - of_nat n) = sint b - int n"
proof -
  have b: "unat b < 2 ^ 31" using assms(1) by (intro sint_nonneg_unat) linarith
  have n: "unat (of_nat n :: u32) = n" using assms(2) by (intro unat_of_nat_u32) simp
  have "sint (b - of_nat n) = int (unat b) - int (unat (of_nat n :: u32))"
    using assms(2) n b by (intro sint_diff_small) simp_all
  with sint_unat [OF b] n show ?thesis by simp
qed

lemma recv_frame_psh:
  assumes "ready s" "fcmd f = cmdPSH" "fdata f \<noteq> []"
    "fver f = word_of_int (cVersion (se_config s))" "frame_ok f"
    "int (length (fdata f)) < sint (se_bucket s)"
  shows "\<exists>n. after_frame f rest s (recv_run hit n
    (recv_header hit (frame_header f) (s\<lparr>se_input := fdata f @ rest, se_dataReady := True\<rparr>)))"
proof -
  let ?s = "s\<lparr>se_input := fdata f @ rest, se_dataReady := True\<rparr>" and ?d = "fdata f"
  let ?h = "recv_header hit (frame_header f) ?s"
  have sh: "shape s" "\<not> se_die s" using assms(1) by (simp_all add: ready_def)
  have shs: "shape ?s" using sh(1) by simp
  have len: "length ?d < 65536" "0 < length ?d" using assms(2,3,5) by (auto simp: frame_ok_def)
  have ul: "unat (of_nat (length ?d) :: u16) = length ?d" using len by (simp add: unat_of_nat)
  then have pos: "(of_nat (length ?d) :: u16) > 0" using len by (simp only: word_less_nat_alt) simp
  obtain g a where ga: "alloc_Get hit (int (length ?d)) (se_alloc s) = (g, a)" by fastforce
  have "g = GSlice \<lparr>slen = nat (int (length ?d)), scap = 2 ^ size_class (int (length ?d))\<rparr>"
    using alloc_Get_eq(1) [of "se_alloc s" "int (length ?d)" hit] sh(1) len ga
    by (simp add: shape_def)
  then obtain cap where g: "g = GSlice \<lparr>slen = length ?d, scap = cap\<rparr>" by simp
  have h: "?h = ?s\<lparr>se_alloc := a, se_phase := RPayload (fsid f) (length ?d) cap\<rparr>"
    using assms(2,4) pos ul ga g by (simp add: recv_header_def Let_def)
  define t where "t = s\<lparr>se_input := rest, se_dataReady := True, se_alloc := a,
      se_phase := RPayload (fsid f) (length ?d) cap\<rparr>"
  have rf: "read_full (length ?d) ?h = IoOk ?d t" unfolding h by (simp add: read_full_def t_def)
  have tf: "se_streams t = se_streams s" "se_store t = se_store s" "se_die t = se_die s"
    "se_config t = se_config s" "se_bucket t = se_bucket s" "se_accepts t = se_accepts s"
    "se_input t = rest" "mailbox_of t = mailbox_of s"
    by (simp_all add: t_def)
  have shh: "shape ?h" by (rule shape_recv_header [OF shs])
  have st: "shape t" using shh unfolding h by (subst shape_same [of _ "?s\<lparr>se_alloc := a, se_phase := RPayload (fsid f) (length ?d) cap\<rparr>"]) (simp_all add: t_def)
  have ph: "se_phase ?h = RPayload (fsid f) (length ?d) cap" unfolding h by simp
  have sh1: "shape (recv_step (RvRun hit) ?h)" by (rule shape_recv_step [OF shh])
  show ?thesis
  proof (cases "map_of (se_streams s) (fsid f)")
    case None
    have step: "recv_step (RvRun hit) ?h = t\<lparr>se_phase := RHeader\<rparr>"
      using ph rf None tf(1) by (simp add: recv_step_def)
    have "apply_frame (mailbox_of s) f = mailbox_of s"
      using None assms(2) by (simp add: apply_frame_def mailbox_of_def)
    then have "after_frame f rest s (recv_step (RvRun hit) ?h)"
      using st sh(2) tf assms(2) unfolding step by (simp add: after_frame_def ready_idle)
    then have "after_frame f rest s (recv_run hit 1 ?h)" by (simp add: recv_run_def)
    then show ?thesis ..
  next
    case (Some r)
    let ?p = "upd_stream r (pushBytes (?d, cap)) t"
    have step1: "recv_step (RvRun hit) ?h = ?p\<lparr>se_phase := RPushed r (length ?d)\<rparr>"
      using ph rf Some tf(1) by (simp add: recv_step_def)
    let ?q = "(upd_stream r notifyReadEvent (?p\<lparr>se_phase := RPushed r (length ?d)\<rparr>))
      \<lparr>se_bucket := se_bucket s - of_nat (length ?d), se_phase := RHeader\<rparr>"
    have step2: "recv_step (RvRun hit) (recv_step (RvRun hit) ?h) = ?q"
      unfolding step1 by (simp add: recv_step_def tf)
    have "shape ?q" using shape_recv_step [OF sh1, of "RvRun hit"] unfolding step2 .
    moreover have "mailbox_of ?q = apply_frame (mailbox_of s) f"
    proof -
      have r: "r < length (se_store s)" using shape_map(1) [OF sh(1) Some] .
      have "mailbox_of ?p = (mailbox_of s)(fsid f \<mapsto> (st_content (se_store s ! r) @ ?d, st_fin (se_store s ! r)))"
        using mailbox_upd_stream [OF st, of "fsid f" r] Some tf
        by (simp add: pushBytes_def st_content_def)
      moreover have "mailbox_of (upd_stream r notifyReadEvent (?p\<lparr>se_phase := RPushed r (length ?d)\<rparr>)) = mailbox_of ?p"
        by (subst mailbox_upd_same) (simp_all add: notifyReadEvent_def st_content_def)
      ultimately show ?thesis
        using Some assms(2) by (simp add: apply_frame_def mailbox_Some)
    qed
    moreover have "sint (se_bucket s) - int (length ?d) \<le> sint (se_bucket ?q)"
      using bucket_pay [OF assms(6) len(1)] by simp
    ultimately have "after_frame f rest s ?q"
      using sh(2) tf assms(2) by (simp add: after_frame_def ready_def)
    then have "after_frame f rest s (recv_run hit (Suc (Suc 0)) ?h)"
      by (simp only: recv_run_Suc recv_run_0 step2)
    then show ?thesis ..
  qed
qed

lemma recv_frame:
  assumes "ready s" "known_cmd f" "fver f = word_of_int (cVersion (se_config s))" "frame_ok f"
    "se_input s = enc_frame f @ rest" "int (length (fdata f)) < sint (se_bucket s)"
    "length (se_accepts s) < defaultAcceptBacklog"
  shows "\<exists>n. after_frame f rest s (recv_run hit n s)"
proof -
  let ?h = "recv_header hit (frame_header f) (s\<lparr>se_input := fdata f @ rest, se_dataReady := True\<rparr>)"
  have "\<exists>n. after_frame f rest s (recv_run hit n ?h)"
  proof -
    have one: "recv_run hit 1 ?h = recv_step (RvRun hit) ?h" by (simp add: recv_run_def)
    consider "fcmd f = cmdNOP \<or> fcmd f = cmdFIN \<or>
        fcmd f = cmdSYN \<and> mailbox_of s (fsid f) \<noteq> None \<or> fcmd f = cmdPSH \<and> fdata f = []"
      | "fcmd f = cmdSYN" "mailbox_of s (fsid f) = None" | "fcmd f = cmdUPD"
      | "fcmd f = cmdPSH" "fdata f \<noteq> []"
      using assms(2) unfolding known_cmd_def by blast
    then show ?thesis
    proof cases
      case 1
      from recv_frame_idle [OF assms(1) 1 assms(3,4)] have "after_frame f rest s (recv_run hit 0 ?h)" by simp
      then show ?thesis ..
    next
      case 2
      from recv_frame_syn [OF assms(1) 2 assms(3,4,7)] one show ?thesis by metis
    next
      case 3
      from recv_frame_upd [OF assms(1) 3 assms(3,4)] one show ?thesis by metis
    next
      case 4
      from recv_frame_psh [OF assms(1) 4 assms(3,4,6)] show ?thesis .
    qed
  qed
  then obtain n where "after_frame f rest s (recv_run hit n ?h)" ..
  moreover have "recv_step (RvRun hit) s = ?h"
    using assms(1,5,6) by (intro recv_step_header) simp_all
  ultimately have "after_frame f rest s (recv_run hit (Suc n) s)" by (simp add: recv_run_Suc)
  then show ?thesis ..
qed

section \<open>Any number of frames\<close>

definition data_len :: "frame list \<Rightarrow> nat" where
  "data_len fs = sum_list (map (length \<circ> fdata) fs)"

definition syn_count :: "frame list \<Rightarrow> nat" where
  "syn_count fs = length (filter (\<lambda>f. fcmd f = cmdSYN) fs)"

definition acceptable :: "session \<Rightarrow> frame list \<Rightarrow> bool" where
  "acceptable s fs \<longleftrightarrow>
     list_all (\<lambda>f. known_cmd f \<and> frame_ok f \<and> fver f = word_of_int (cVersion (se_config s))) fs \<and>
     int (data_len fs) < sint (se_bucket s) \<and>
     length (se_accepts s) + syn_count fs < defaultAcceptBacklog"

lemma recv_frames:
  assumes "ready s" "acceptable s fs" "se_input s = concat (map enc_frame fs) @ rest"
  shows "\<exists>n. ready (recv_run hit n s) \<and> se_input (recv_run hit n s) = rest \<and>
    mailbox_of (recv_run hit n s) = foldl apply_frame (mailbox_of s) fs"
  using assms
proof (induction fs arbitrary: s)
  case Nil
  then have "ready (recv_run hit 0 s) \<and> se_input (recv_run hit 0 s) = rest \<and>
    mailbox_of (recv_run hit 0 s) = foldl apply_frame (mailbox_of s) []" by simp
  then show ?case ..
next
  case (Cons f fs)
  let ?rest = "concat (map enc_frame fs) @ rest"
  from Cons.prems(2) have f: "known_cmd f" "frame_ok f" "fver f = word_of_int (cVersion (se_config s))"
    "int (length (fdata f)) < sint (se_bucket s)" "length (se_accepts s) < defaultAcceptBacklog"
    by (auto simp: acceptable_def data_len_def)
  have "se_input s = enc_frame f @ ?rest" using Cons.prems(3) by simp
  then obtain n where n: "after_frame f ?rest s (recv_run hit n s)"
    using recv_frame [OF Cons.prems(1) f(1,3,2) _ f(4,5)] by blast
  let ?s = "recv_run hit n s"
  have acc: "length (se_accepts ?s) + syn_count fs \<le> length (se_accepts s) + syn_count (f # fs)"
    using n by (auto simp: after_frame_def syn_count_def split: if_splits)
  have b: "int (data_len fs) < sint (se_bucket ?s)"
  proof -
    have "int (data_len (f # fs)) < sint (se_bucket s)" using Cons.prems(2) by (simp add: acceptable_def)
    then have "int (data_len fs) < sint (se_bucket s) - int (length (fdata f))" by (simp add: data_len_def)
    moreover have "sint (se_bucket s) - int (length (fdata f)) \<le> sint (se_bucket ?s)"
      using n by (simp add: after_frame_def)
    ultimately show ?thesis by linarith
  qed
  have "acceptable ?s fs"
    using acc b Cons.prems(2) n by (auto simp: acceptable_def after_frame_def)
  then obtain m where "ready (recv_run hit m ?s) \<and> se_input (recv_run hit m ?s) = rest \<and>
    mailbox_of (recv_run hit m ?s) = foldl apply_frame (mailbox_of ?s) fs"
    using Cons.IH [of ?s] n by (auto simp: after_frame_def)
  moreover have "mailbox_of ?s = apply_frame (mailbox_of s) f" using n by (simp add: after_frame_def)
  ultimately show ?case by (intro exI [of _ "n + m"]) (simp add: recv_run_add)
qed

text \<open>The data frames of one stream among the frames on a connection.\<close>

definition stream_data :: "u32 \<Rightarrow> frame list \<Rightarrow> bytes" where
  "stream_data sid fs = concat (map fdata (filter (\<lambda>f. fcmd f = cmdPSH \<and> fsid f = sid) fs))"

lemma mailbox_stream_data:
  assumes "m sid = Some (bs, fin)"
  shows "\<exists>fin'. foldl apply_frame m fs sid = Some (bs @ stream_data sid fs, fin')"
  using assms
proof (induction fs arbitrary: m bs fin)
  case Nil
  then show ?case by (simp add: stream_data_def)
next
  case (Cons f fs)
  have "\<exists>fin'. apply_frame m f sid =
      Some (bs @ (if fcmd f = cmdPSH \<and> fsid f = sid then fdata f else []), fin')"
    using Cons.prems by (cases "m (fsid f)") (auto simp: apply_frame_def)
  then obtain fin' where "apply_frame m f sid =
      Some (bs @ (if fcmd f = cmdPSH \<and> fsid f = sid then fdata f else []), fin')" ..
  from Cons.IH [where m = "apply_frame m f", OF this] show ?case by (auto simp: stream_data_def)
qed

lemma data_requests_frames: "map wframe (data_requests mk q cs) = map mk cs"
  by (induction cs arbitrary: q) simp_all

section \<open>Properties\<close>

definition demo_frames :: "frame list" where
  "demo_frames = [newFrame 1 cmdSYN 3, (newFrame 1 cmdPSH 3)\<lparr>fdata := [7, 8]\<rparr>, newFrame 1 cmdFIN 3]"

text \<open>
  C13: delivery. A version 1 \<^verbatim>\<open>Write\<close> of \<open>b\<close> submits data frames for its stream; whatever frames of
  other streams and whatever control frames the connection carries around them, once the peer's
  receive loop has consumed the connection, its reader gets exactly the bytes it had not read yet
  followed by \<open>b\<close>, in as many reads as there are bytes.
\<close>

theorem smux_delivery:
  assumes sender: "st_frameSize (se_store s ! r) = int fs" "0 < fs" "r < length (se_store s)"
      "\<not> st_die (se_store s ! r)"
      "stream_WriteV1 (ok_results (chunks fs b)) r b s = Some ((n, err), s')"
      "se_submitted s' = se_submitted s @ new"
    and wire: "filter (\<lambda>f. fcmd f = cmdPSH \<and> fsid f = sid) frames = map wframe new"
    and receiver: "ready t" "acceptable t frames" "se_input t = concat (map enc_frame frames) @ rest"
      "map_of (se_streams t) sid = Some q"
    and reads: "list_all (\<lambda>p. 0 < snd p) evs"
      "length (st_content (se_store t ! q)) + length b \<le> length evs"
  shows "\<exists>k p. map_of (se_streams (recv_run hit k t)) sid = Some p \<and>
    fst (read_all evs p (recv_run hit k t)) = st_content (se_store t ! q) @ b"
proof -
  obtain s2 where s2: "send_chunks (\<lambda>_. 1) (ok_results (chunks fs b) @ []) r b 0 s = Some ((0 + length b, None), s2)"
    "se_submitted s2 = se_submitted s @ data_requests (psh_frame s r) (se_requestID s) (chunks fs b)"
    using send_chunks_ok [OF sender(1-3)] by blast
  have "s2 = s'" using s2(1) sender(4,5) by (simp add: stream_WriteV1_def)
  with s2(2) sender(6) have "new = data_requests (psh_frame s r) (se_requestID s) (chunks fs b)" by simp
  then have "map fdata (map wframe new) = chunks fs b"
    by (simp add: data_requests_frames comp_def)
  then have data: "stream_data sid frames = b" by (simp add: stream_data_def wire)
  obtain k where k: "ready (recv_run hit k t)"
    "mailbox_of (recv_run hit k t) = foldl apply_frame (mailbox_of t) frames"
    using recv_frames [OF receiver(1-3)] by blast
  obtain fin where "mailbox_of (recv_run hit k t) sid = Some (st_content (se_store t ! q) @ b, fin)"
    using mailbox_stream_data [where m = "mailbox_of t", OF mailbox_Some [OF receiver(4)], of frames] data k(2) by auto
  then obtain p where p: "map_of (se_streams (recv_run hit k t)) sid = Some p"
    "st_content (se_store (recv_run hit k t) ! p) = st_content (se_store t ! q) @ b"
    by (auto simp: mailbox_of_def)
  have sh: "shape (recv_run hit k t)" using k(1) by (simp add: ready_def)
  obtain out t' where ra: "read_all evs p (recv_run hit k t) = (out, t')" by fastforce
  have lp: "p < length (se_store (recv_run hit k t))" by (rule shape_map(1) [OF sh p(1)])
  note rd = read_all_spec [OF lp shape_nth [OF sh lp] reads(1) ra]
  have "out = st_content (se_store t ! q) @ b"
  proof (cases "length out < length evs")
    case True
    with rd p(2) show ?thesis by simp
  next
    case False
    have "length (st_content (se_store t ! q)) + length b = length out + length (st_content (se_store t' ! p))"
      using rd p(2) by (metis length_append)
    with reads(2) False have "length (st_content (se_store t' ! p)) = 0" by linarith
    with rd p(2) show ?thesis by simp
  qed
  with ra have "fst (read_all evs p (recv_run hit k t)) = st_content (se_store t ! q) @ b" by simp
  with p(1) show ?thesis by blast
qed

definition demo_sender :: session where
  "demo_sender = (newSession DefaultConfig True)\<lparr>se_store := [newStream 3 2]\<rparr>"

definition demo_wire :: "frame list" where
  "demo_wire = [(newFrame 1 cmdPSH 3)\<lparr>fdata := [7, 8]\<rparr>, newFrame 1 cmdSYN 5,
     (newFrame 1 cmdPSH 3)\<lparr>fdata := [9]\<rparr>]"

definition demo_receiver :: session where
  "demo_receiver =
     (snd (add_stream 3 (newSession DefaultConfig False)))\<lparr>se_input := concat (map enc_frame demo_wire)\<rparr>"

lemma demo_receiver_ready:
  "ready demo_receiver" "acceptable demo_receiver demo_wire"
  "se_input demo_receiver = concat (map enc_frame demo_wire) @ []"
  "map_of (se_streams demo_receiver) 3 = Some 0" "st_content (se_store demo_receiver ! 0) = []"
proof -
  obtain r s' where a: "add_stream 3 (newSession DefaultConfig False) = (r, s')" by fastforce
  have "se_phase s' = RHeader" "\<not> se_die s'"
    using a by (auto simp: add_stream_def Let_def newSession_def)
  with shape_add_stream(1) [OF shape_newSession a] show "ready demo_receiver"
    by (simp add: demo_receiver_def a ready_def)
  show "acceptable demo_receiver demo_wire"
    by (simp add: acceptable_def demo_wire_def demo_receiver_def newSession_def newFrame_def add_stream_def
        Let_def known_cmd_def frame_ok_def data_len_def syn_count_def defaultAcceptBacklog_def
        DefaultConfig_def)
qed (simp_all add: demo_receiver_def add_stream_def Let_def newSession_def newStream_def st_content_def)

theorem smux_delivery_witness:
  "\<exists>k p. map_of (se_streams (recv_run True k demo_receiver)) 3 = Some p \<and>
    fst (read_all [(Wf1Die, 2), (Wf1Die, 2), (Wf1Die, 2)] p (recv_run True k demo_receiver)) = [7, 8, 9]"
proof -
  have fs: "st_frameSize (se_store demo_sender ! 0) = int 2" "0 < length (se_store demo_sender)"
    "\<not> st_die (se_store demo_sender ! 0)"
    by (simp_all add: demo_sender_def newStream_def)
  obtain s' where w: "send_chunks (\<lambda>_. 1) (ok_results (chunks 2 [7, 8, 9]) @ []) 0 [7, 8, 9] 0 demo_sender
      = Some ((0 + length [7, 8, 9 :: byte], None), s')"
    "se_submitted s' = se_submitted demo_sender @
      data_requests (psh_frame demo_sender 0) (se_requestID demo_sender) (chunks 2 [7, 8, 9])"
    using send_chunks_ok [OF fs(1) _ fs(2)] by (metis zero_less_numeral)
  have w1: "stream_WriteV1 (ok_results (chunks 2 [7, 8, 9])) 0 [7, 8, 9] demo_sender = Some ((3, None), s')"
    using w(1) fs(3) by (simp add: stream_WriteV1_def)
  have "filter (\<lambda>f. fcmd f = cmdPSH \<and> fsid f = 3) demo_wire = map wframe
      (data_requests (psh_frame demo_sender 0) (se_requestID demo_sender) (chunks 2 [7, 8, 9]))"
    by (simp add: demo_wire_def data_requests_frames chunks_Cons psh_frame_def newFrame_def demo_sender_def
        newSession_def newStream_def DefaultConfig_def)
  from smux_delivery [OF fs(1) _ fs(2,3) w1 w(2) this demo_receiver_ready(1-4),
      of "[(Wf1Die, 2), (Wf1Die, 2), (Wf1Die, 2)]" True] demo_receiver_ready(5)
  show ?thesis by simp
qed

end
