(* ===== verification/Smux_Receiver.thy ===== *)
theory Smux_Receiver
  imports Smux_EndToEnd
begin

text \<open>
  The receive loop among everything else that runs on a session: every run of the system of
  \<^verbatim>\<open>Smux_System\<close> is a run of the mailbox machine, which delivers one frame at a time, takes
  bytes from the front of a stream, opens and closes streams. The simulation also says where the
  loop stands in the byte stream: what has arrived is the frames delivered, the part of the next
  frame the loop has read, and what it has not read.
\<close>

section \<open>What the other events leave alone\<close>

definition wire_same :: "session \<Rightarrow> session \<Rightarrow> bool" where
  "wire_same s s' \<longleftrightarrow>
     se_input s' = se_input s \<and> se_inputEnd s' = se_inputEnd s \<and> se_phase s' = se_phase s \<and>
     se_config s' = se_config s \<and> (se_die s \<longrightarrow> se_die s')"

lemma wire_same_refl [simp, intro]: "wire_same s s"
  by (simp add: wire_same_def)

lemma wire_same_trans [trans]: "wire_same a b \<Longrightarrow> wire_same b c \<Longrightarrow> wire_same a c"
  by (simp add: wire_same_def)

lemma wire_upd_stream [simp]: "wire_same s (upd_stream r f s)"
  by (simp add: wire_same_def)

lemma wire_put_bufs [simp]: "wire_same s (put_bufs bs s)"
  by (simp add: wire_same_def)

lemma wire_returnTokens [simp]: "wire_same s (returnTokens n s)"
  by (simp add: wire_same_def returnTokens_def notifyBucket_def Let_def)

lemma wire_writeFrameInternal [simp]: "wire_same s (snd (writeFrameInternal ev f c s))"
  by (simp add: wire_same_def writeFrameInternal_def Let_def notifyWriteError_def split: wf_event.split option.split)

lemma wire_writeFrame [simp]: "wire_same s (snd (writeFrame ev f s))"
  by (simp add: writeFrame_def)

lemma wire_sendWindowUpdate [simp]: "wire_same s (snd (sendWindowUpdate ev r c s))"
proof -
  have "snd (sendWindowUpdate ev r c s) =
      snd (writeFrameInternal ev ((newFrame (word_of_int (cVersion (se_config s))) cmdUPD
        (st_id (se_store s ! r)))
        \<lparr>fdata := upd_data c (word_of_int (cMaxStreamBuffer (se_config s)))\<rparr>) CLSDATA s)"
    by (simp add: sendWindowUpdate_def Let_def split: prod.split)
  then show ?thesis by simp
qed

lemma wire_open_syn [simp]: "wire_same s (snd (open_syn ev sid s))"
proof -
  have "snd (open_syn ev sid s) =
      snd (writeFrame ev (newFrame (word_of_int (cVersion (se_config s))) cmdSYN sid) s)"
    by (simp add: open_syn_def Let_def split: prod.split)
  then show ?thesis by simp
qed

lemma wire_close_streams [simp]: "wire_same s (close_streams s)"
proof -
  have "wire_same t (fold (\<lambda>p. upd_stream (snd p) sessionClose) ps t)" for ps t
  proof (induction ps arbitrary: t)
    case (Cons p ps)
    from wire_same_trans [OF wire_upd_stream Cons] show ?case by simp
  qed simp
  then show ?thesis by (simp add: close_streams_def)
qed

lemma wire_misc [simp]:
  "wire_same s (snd (waitRead rd r s))" "wire_same s (snd (writeV2_wait w2 r n s))"
  "wire_same s (snd (close_die r s))" "wire_same s (snd (close_once s))"
  "wire_same s (SetWriteDeadline w r (SetReadDeadline d r s))" "wire_same s (keepalive_ping ev s)"
  "wire_same s (snd (open_begin s))" "wire_same s (snd (open_finish p sid s))"
  "wire_same s (snd (AcceptStream aev s))"
  using wire_writeFrameInternal [of s ev "newFrame (word_of_int (cVersion (se_config s))) cmdNOP 0" CLSCTRL]
  by (auto simp: wire_same_def waitRead_def writeV2_wait_def close_die_def close_once_def
      SetWriteDeadline_def SetReadDeadline_def keepalive_ping_def notifyBucket_def open_begin_def
      open_finish_def add_stream_def AcceptStream_def Let_def
      split: rd_event.split w2_event.split ac_event.split)

lemma wire_reads:
  "tryRead_lock r len s = (out, s') \<Longrightarrow> wire_same s s'"
  "tryReadv2_lock r len s = (out, n, s') \<Longrightarrow> wire_same s s'"
  by (auto simp: tryRead_lock_def tryReadv2_lock_def Let_def wire_same_def split: prod.splits)

lemma wire_streamClosed: "streamClosed sid s = Some s' \<Longrightarrow> wire_same s s'"
  by (auto simp: streamClosed_def Let_def wire_same_def returnTokens_def notifyBucket_def
      split: option.splits prod.splits if_splits)

definition on_wire :: "event \<Rightarrow> bool" where
  "on_wire ev = (case ev of EvRecv _ \<Rightarrow> True | EvInput _ \<Rightarrow> True | EvInputEnd _ \<Rightarrow> True | _ \<Rightarrow> False)"

lemma wire_step:
  assumes "\<not> on_wire ev"
  shows "wire_same (sy_sess y) (sy_sess (sys_step y ev))"
proof (cases ev)
  case EvOpenBegin
  obtain res s1 where o: "open_begin (sy_sess y) = (res, s1)" by fastforce
  have "wire_same (sy_sess y) s1" using wire_misc(7) [of "sy_sess y"] unfolding o by simp
  with EvOpenBegin o show ?thesis by (simp add: sys_step_def Let_def split: sum.split)
next
  case (EvReadLock r len)
  then show ?thesis using wire_reads [of r len "sy_sess y"]
    by (auto simp: sys_step_def Let_def split: prod.splits)
next
  case (EvTakeBuffer r)
  then show ?thesis by (auto simp: sys_step_def Let_def split: prod.splits option.splits)
next
  case (EvReturn i)
  obtain n bs where nb: "sy_tokens y ! i = (n, bs)" by fastforce
  have "wire_same (sy_sess y) (put_bufs bs (if n > 0 then returnTokens n (sy_sess y) else sy_sess y))"
    using wire_same_trans [OF wire_returnTokens wire_put_bufs] by simp
  with EvReturn nb show ?thesis by (simp add: sys_step_def Let_def)
next
  case (EvFrame w r d a)
  show ?thesis unfolding EvFrame sys_step_def Let_def
    using wire_same_trans [OF wire_writeFrameInternal wire_upd_stream] by simp
next
  case (EvCloseDie r)
  obtain once s1 where c: "close_die r (sy_sess y) = (once, s1)" by fastforce
  have "wire_same (sy_sess y) s1" using wire_misc(3) [of "sy_sess y" r] unfolding c by simp
  with EvCloseDie c show ?thesis by (simp add: sys_step_def Let_def)
next
  case (EvStreamClosed i)
  then show ?thesis using wire_streamClosed [of "sy_closing y ! i" "sy_sess y"]
    by (auto simp: sys_step_def Let_def split: option.split)
next
  case EvCloseStreams
  then show ?thesis using wire_close_streams [of "sy_sess y"]
    by (auto simp: sys_step_def Let_def wire_same_def)
next
  case EvTimeoutCheck
  have "wire_same (sy_sess y) ((sy_sess y)\<lparr>se_dataReady := False\<rparr>)" by (simp add: wire_same_def)
  with EvTimeoutCheck show ?thesis by (simp add: sys_step_def Let_def)
qed (use assms in \<open>simp_all add: on_wire_def sys_step_def Let_def\<close>)

section \<open>The mailbox machine\<close>

text \<open>
  Its state: the streams' contents and FIN marks, and the frames still to come. A step belongs to
  an event of the system.
\<close>

inductive mail_step :: "event \<Rightarrow> mailbox \<times> frame list \<Rightarrow> mailbox \<times> frame list \<Rightarrow> bool" where
  deliver: "mail_step (EvRecv rv) (m, f # fs) (apply_frame m f, fs)"
| take_read: "m sid = Some (b1 @ b2, fin) \<Longrightarrow> length b1 \<le> len \<Longrightarrow>
    mail_step (EvReadLock r len) (m, fs) (m(sid \<mapsto> (b2, fin)), fs)"
| take_buf: "m sid = Some (b1 @ b2, fin) \<Longrightarrow> mail_step (EvTakeBuffer r) (m, fs) (m(sid \<mapsto> (b2, fin)), fs)"
| opened: "mail_step (EvOpenFinish i p) (m, fs) (m(sid \<mapsto> ([], False)), fs)"
| closed: "mail_step (EvStreamClosed i) (m, fs) (m(sid := None), fs)"
| stutter: "mail_step ev (m, fs) (m, fs)"

inductive mail_run :: "event list \<Rightarrow> mailbox \<times> frame list \<Rightarrow> mailbox \<times> frame list \<Rightarrow> bool" where
  none: "mail_run [] a a"
| more: "mail_run es a b \<Longrightarrow> mail_step e b c \<Longrightarrow> mail_run (es @ [e]) a c"

inductive_simps mail_run_Nil: "mail_run [] a b"

text \<open>Where the loop stands: \<open>done\<close> has been delivered, \<open>rest\<close> has not.\<close>

definition recv_at :: "frame list \<Rightarrow> frame list \<Rightarrow> bytes \<Rightarrow> session \<Rightarrow> bool" where
  "recv_at done rest arrived s \<longleftrightarrow>
     (case se_phase s of
        RExited \<Rightarrow> se_inputEnd s \<noteq> None \<or> se_die s
      | RPayload sid len cap \<Rightarrow>
          (\<exists>f fs. rest = f # fs \<and> fcmd f = cmdPSH \<and> fsid f = sid \<and> length (fdata f) = len \<and>
             arrived = concat (map enc_frame done) @ frame_header f @ se_input s)
      | RUpdate sid \<Rightarrow>
          (\<exists>f fs. rest = f # fs \<and> fcmd f = cmdUPD \<and> fsid f = sid \<and>
             arrived = concat (map enc_frame done) @ frame_header f @ se_input s)
      | _ \<Rightarrow> arrived = concat (map enc_frame done) @ se_input s)"

lemma recv_at_same:
  "recv_at ds rs arr s \<Longrightarrow> wire_same s s' \<Longrightarrow> recv_at ds rs arr s'"
  by (auto simp: recv_at_def wire_same_def split: recv_phase.splits)

lemma recv_at_input:
  "recv_at ds rs arr s \<Longrightarrow> recv_at ds rs (arr @ bs) (s\<lparr>se_input := se_input s @ bs\<rparr>)"
  by (auto simp: recv_at_def split: recv_phase.splits)

lemma recv_at_inputEnd: "recv_at ds rs arr s \<Longrightarrow> recv_at ds rs arr (s\<lparr>se_inputEnd := Some e\<rparr>)"
  by (auto simp: recv_at_def split: recv_phase.splits)

section \<open>Events of the others\<close>

lemma mailbox_at:
  "map_of (se_streams s') q = map_of (se_streams s) q \<Longrightarrow>
   (\<And>p. map_of (se_streams s) q = Some p \<Longrightarrow> se_store s' ! p = se_store s ! p) \<Longrightarrow>
   mailbox_of s' q = mailbox_of s q"
  by (cases "map_of (se_streams s) q") (simp_all add: mailbox_of_def)

lemma mailbox_set_stream:
  assumes "shape s" "r < length (se_store s)"
    "se_streams s' = se_streams s" "se_store s' = (se_store s)[r := st]"
  shows "mailbox_of s' =
    (let sid = st_id (se_store s ! r)
     in if map_of (se_streams s) sid = Some r
        then (mailbox_of s)(sid \<mapsto> (st_content st, st_fin st)) else mailbox_of s)"
proof (cases "map_of (se_streams s) (st_id (se_store s ! r)) = Some r")
  case True
  have "mailbox_of s' = mailbox_of (upd_stream r (\<lambda>_. st) s)"
    using assms(3,4) by (simp add: mailbox_of_def store_upd_stream fun_eq_iff)
  with mailbox_upd_stream [OF assms(1) True, of "\<lambda>_. st"] True show ?thesis by (simp add: Let_def)
next
  case False
  have "mailbox_of s' q = mailbox_of s q" for q
  proof (rule mailbox_at)
    fix p assume p: "map_of (se_streams s) q = Some p"
    then have "p \<noteq> r" using shape_map(2) [OF assms(1) p] False by auto
    then show "se_store s' ! p = se_store s ! p" by (simp add: assms(4))
  qed (simp add: assms(3))
  with False show ?thesis by (simp add: Let_def fun_eq_iff)
qed

lemma mailbox_quiet:
  assumes "shape s" "quiet s s'"
  shows "mailbox_of s' = mailbox_of s"
proof
  fix q
  show "mailbox_of s' q = mailbox_of s q"
  proof (cases "map_of (se_streams s) q")
    case (Some p)
    then have "p < length (se_store s)" using shape_map(1) [OF assms(1)] by blast
    with assms(2) have "same_stream (se_store s ! p) (se_store s' ! p)"
      by (auto simp: quiet_def dest: list_all2_nthD)
    with Some assms(2) show ?thesis by (simp add: mailbox_of_def quiet_def same_stream_def st_content_def)
  qed (use assms(2) in \<open>simp add: mailbox_of_def quiet_def\<close>)
qed

lemma mail_read:
  assumes "shape s" "r < length (se_store s)"
    "se_streams s' = se_streams s" "se_store s' = (se_store s)[r := st]"
    "st_content (se_store s ! r) = out @ st_content st" "st_fin st = st_fin (se_store s ! r)"
  shows "mailbox_of s' = mailbox_of s \<or>
    (\<exists>sid fin. mailbox_of s sid = Some (out @ st_content st, fin) \<and>
       mailbox_of s' = (mailbox_of s)(sid \<mapsto> (st_content st, fin)))"
  using mailbox_set_stream [OF assms(1-4)] mailbox_Some [of s "st_id (se_store s ! r)" r] assms(5,6)
  by (auto simp: Let_def)

lemma mailbox_streamClosed:
  assumes "streamClosed sid s = Some s'" "shape s"
  shows "mailbox_of s' = (mailbox_of s)(sid := None)"
proof -
  obtain r n hs st' where r: "map_of (se_streams s) sid = Some r"
    and st: "se_streams s' = AList.delete sid (se_streams s)" "se_store s' = (se_store s)[r := st']"
    using assms(1)
    by (auto simp: streamClosed_def Let_def returnTokens_def notifyBucket_def store_upd_stream
        split: option.splits prod.splits if_splits)
  have "mailbox_of s' q = mailbox_of s q" if "q \<noteq> sid" for q
  proof (rule mailbox_at)
    fix p assume p: "map_of (se_streams s) q = Some p"
    then have "p \<noteq> r" using shape_ref_inj [OF assms(2) p, of sid] r that by auto
    then show "se_store s' ! p = se_store s ! p" by (simp add: st)
  qed (simp add: st that delete_conv')
  moreover have "mailbox_of s' sid = None" by (simp add: mailbox_of_def st delete_conv')
  ultimately show ?thesis by (simp add: fun_eq_iff)
qed

lemma take_front_fin: "take_front len st = (out, hs, st') \<Longrightarrow> st_fin st' = st_fin st"
  by (auto simp: take_front_def Let_def split: list.splits if_splits)

lemma count_read_fin: "count_read c n st = (k, st') \<Longrightarrow> st_fin st' = st_fin st"
  by (auto simp: count_read_def Let_def split: if_splits)

lemma take_buffer_content:
  "take_buffer st = (Some b, st') \<Longrightarrow> st_content st = fst b @ st_content st' \<and> st_fin st' = st_fin st"
  by (auto simp: take_buffer_def st_content_def split: list.splits)

lemma mail_same: "mailbox_of s' = mailbox_of s \<Longrightarrow> mail_step ev (mailbox_of s, fs) (mailbox_of s', fs)"
  by (simp add: mail_step.stutter)

lemma mail_others:
  assumes "shape (sy_sess y)" "\<And>rv. ev \<noteq> EvRecv rv"
  shows "mail_step ev (mailbox_of (sy_sess y), fs) (mailbox_of (sy_sess (sys_step y ev)), fs)"
proof (cases "is_quiet ev")
  case True
  then show ?thesis using mailbox_quiet [OF assms(1)] quiet_step by (intro mail_same) blast
next
  case False
  let ?s = "sy_sess y"
  consider "ev = EvOpenBegin" | i p where "ev = EvOpenFinish i p" | aev where "ev = EvAccept aev"
    | r len where "ev = EvReadLock r len" | r where "ev = EvTakeBuffer r" | i where "ev = EvReturn i"
    | i where "ev = EvStreamClosed i"
    using False assms(2) by (cases ev) (auto simp: is_quiet_def)
  then show ?thesis
  proof cases
    case 1
    obtain res s1 where o: "open_begin ?s = (res, s1)" by fastforce
    then have "mailbox_of s1 = mailbox_of ?s"
      by (intro mailbox_cong) (auto simp: open_begin_def Let_def split: if_splits)
    with 1 o show ?thesis by (intro mail_same) (simp add: sys_step_def Let_def split: sum.split)
  next
    case (2 i p)
    show ?thesis
    proof (cases "i < length (sy_opening y) \<and> lock_free ?s \<and> open_errors ?s = []")
      case True
      obtain r s' where a: "add_stream (sy_opening y ! i) ?s = (r, s')" by fastforce
      with True 2 have "sy_sess (sys_step y ev) = s'"
        by (simp add: sys_step_def Let_def open_finish_def)
      with mailbox_add_stream [OF assms(1) a] show ?thesis by (simp add: 2 mail_step.opened)
    next
      case False
      with 2 show ?thesis
        by (intro mail_same) (auto simp: sys_step_def Let_def open_finish_def)
    qed
  next
    case (3 aev)
    have "mailbox_of (snd (AcceptStream aev ?s)) = mailbox_of ?s"
      by (intro mailbox_cong) (simp_all add: AcceptStream_def split: ac_event.split)
    with 3 show ?thesis by (intro mail_same) (simp add: sys_step_def Let_def)
  next
    case (4 r len)
    show ?thesis
    proof (cases "r < length (se_store ?s) \<and> 0 < len")
      case True
      obtain out hs st1 where t: "take_front len (se_store ?s ! r) = (out, hs, st1)" by (metis prod_cases3)
      obtain n st2 where c: "count_read (se_config ?s) (length out) st1 = (n, st2)" by fastforce
      define st where "st = (if cVersion (se_config ?s) = 2 then st2 else st1)"
      have "sy_sess (sys_step y ev) = put_bufs hs (upd_stream r (\<lambda>_. st) ?s)"
        using True t c
        by (simp add: 4 sys_step_def Let_def tryRead_lock_def tryReadv2_lock_def st_def)
      then have "se_streams (sy_sess (sys_step y ev)) = se_streams ?s"
        "se_store (sy_sess (sys_step y ev)) = (se_store ?s)[r := st]"
        by (simp_all add: store_upd_stream)
      from mail_read [OF assms(1) _ this] True take_front_content [OF t] take_front_fin [OF t]
        count_read_simps(1) [OF c] count_read_fin [OF c]
      have "mailbox_of (sy_sess (sys_step y ev)) = mailbox_of ?s \<or>
          (\<exists>sid fin. mailbox_of ?s sid = Some (out @ st_content st, fin) \<and>
            mailbox_of (sy_sess (sys_step y ev)) = (mailbox_of ?s)(sid \<mapsto> (st_content st, fin)))"
        by (simp add: st_def)
      then show ?thesis
        using take_front_content(2) [OF t] mail_step.take_read [of "mailbox_of ?s" _ out] mail_same
        unfolding 4 by metis
    qed (use 4 in \<open>auto intro!: mail_same simp: sys_step_def Let_def\<close>)
  next
    case (5 r)
    show ?thesis
    proof (cases "r < length (se_store ?s) \<and> fst (take_buffer (se_store ?s ! r)) \<noteq> None")
      case True
      then obtain b st1 where t: "take_buffer (se_store ?s ! r) = (Some b, st1)"
        by (cases "take_buffer (se_store ?s ! r)") auto
      obtain n st2 where c: "count_read (se_config ?s) (length (fst b)) st1 = (n, st2)" by fastforce
      define st where "st = (if cVersion (se_config ?s) = 2 then st2 else st1)"
      have "sy_sess (sys_step y ev) = upd_stream r (\<lambda>_. st) ?s"
        using True t c by (simp add: 5 sys_step_def Let_def st_def)
      then have "se_streams (sy_sess (sys_step y ev)) = se_streams ?s"
        "se_store (sy_sess (sys_step y ev)) = (se_store ?s)[r := st]"
        by (simp_all add: store_upd_stream)
      from mail_read [OF assms(1) _ this] True take_buffer_content [OF t]
        count_read_simps(1) [OF c] count_read_fin [OF c]
      have "mailbox_of (sy_sess (sys_step y ev)) = mailbox_of ?s \<or>
          (\<exists>sid fin. mailbox_of ?s sid = Some (fst b @ st_content st, fin) \<and>
            mailbox_of (sy_sess (sys_step y ev)) = (mailbox_of ?s)(sid \<mapsto> (st_content st, fin)))"
        by (simp add: st_def)
      then show ?thesis
        using mail_step.take_buf [of "mailbox_of ?s" _ "fst b"] mail_same unfolding 5 by metis
    next
      case False
      with 5 show ?thesis
        by (intro mail_same) (auto simp: sys_step_def Let_def split: prod.split option.split)
    qed
  next
    case (6 i)
    have "mailbox_of (put_bufs bs (if 0 < n then returnTokens n ?s else ?s)) = mailbox_of ?s" for n bs
      by (intro mailbox_cong) (simp_all add: returnTokens_def notifyBucket_def Let_def)
    with 6 show ?thesis by (intro mail_same) (simp add: sys_step_def Let_def split: prod.split)
  next
    case (7 i)
    show ?thesis
    proof (cases "i < length (sy_closing y) \<and> lock_free ?s \<and> streamClosed (sy_closing y ! i) ?s \<noteq> None")
      case True
      then obtain s' where c: "streamClosed (sy_closing y ! i) ?s = Some s'" by blast
      with True 7 have "sy_sess (sys_step y ev) = s'" by (simp add: sys_step_def Let_def)
      with mailbox_streamClosed [OF c assms(1)] show ?thesis by (simp add: 7 mail_step.closed)
    next
      case False
      with 7 show ?thesis by (intro mail_same) (auto simp: sys_step_def Let_def)
    qed
  qed
qed

section \<open>The receive loop\<close>

definition frame_good :: "config \<Rightarrow> frame \<Rightarrow> bool" where
  "frame_good c f \<longleftrightarrow> known_cmd f \<and> frame_ok f \<and> fver f = word_of_int (cVersion c)"

lemma frames_head:
  assumes "prefix inp (concat (map enc_frame rest))" "headerSize \<le> length inp"
  obtains f fs where "rest = f # fs" "inp = frame_header f @ drop headerSize inp"
    "take headerSize inp = frame_header f"
proof (cases rest)
  case Nil
  with assms show ?thesis by (simp add: headerSize_def)
next
  case (Cons f fs)
  from assms(1) obtain zs where z: "frame_header f @ fdata f @ concat (map enc_frame fs) = inp @ zs"
    by (auto simp: Cons enc_frame_def prefix_def)
  have l: "length (frame_header f) = headerSize" by simp
  have "take headerSize (inp @ zs) = frame_header f" unfolding z [symmetric] by (simp add: l)
  then have "take headerSize inp = frame_header f" using assms(2) by simp
  then show ?thesis using that [OF Cons] by (metis append_take_drop_id)
qed

lemma apply_frame_idle:
  assumes "fcmd f = cmdNOP \<or> fcmd f = cmdUPD \<or> fcmd f = cmdSYN \<and> m (fsid f) \<noteq> None \<or>
    fcmd f = cmdFIN \<and> m (fsid f) = None \<or> fcmd f = cmdPSH \<and> (fdata f = [] \<or> m (fsid f) = None)"
  shows "apply_frame m f = m"
proof (cases "m (fsid f)")
  case None
  with assms show ?thesis by (auto simp: apply_frame_def)
next
  case (Some p)
  obtain bs fin where p: "p = (bs, fin)" by fastforce
  have "m(fsid f \<mapsto> (bs, fin)) = m" using Some p by (intro fun_upd_idem) simp
  with assms Some p show ?thesis by (auto simp: apply_frame_def)
qed

text \<open>A header moves the loop to the next header, with the frame delivered, or to its data.\<close>

definition header_moves :: "mailbox \<Rightarrow> frame list \<Rightarrow> frame \<Rightarrow> frame list \<Rightarrow> bytes \<Rightarrow> session \<Rightarrow> bool" where
  "header_moves m ds f fs arr s' \<longleftrightarrow>
     mailbox_of s' = m \<and> recv_at ds (f # fs) arr s' \<or>
     mailbox_of s' = apply_frame m f \<and> recv_at (ds @ [f]) fs arr s'"

lemma header_syn:
  assumes "shape t" "fcmd f = cmdSYN" "frame_good (se_config t) f"
    "arr = concat (map enc_frame ds) @ frame_header f @ se_input t"
  shows "header_moves (mailbox_of t) ds f fs arr (recv_header hit (frame_header f) t)"
proof -
  have e: "fdata f = []" using assms(2,3) by (simp add: frame_good_def frame_ok_def)
  show ?thesis
  proof (cases "map_of (se_streams t) (fsid f)")
    case (Some r)
    with assms(2,3) have "recv_header hit (frame_header f) t = t\<lparr>se_phase := RHeader\<rparr>"
      by (simp add: recv_header_def Let_def frame_good_def)
    moreover have "apply_frame (mailbox_of t) f = mailbox_of t"
      using Some assms(2) by (intro apply_frame_idle) (simp add: mailbox_Some)
    ultimately show ?thesis by (simp add: header_moves_def recv_at_def assms(4) enc_frame_def e)
  next
    case None
    obtain r s1 where a: "add_stream (fsid f) t = (r, s1)" by fastforce
    have h: "recv_header hit (frame_header f) t = s1\<lparr>se_phase := RAccept r\<rparr>"
      using assms(2,3) None a by (simp add: recv_header_def Let_def frame_good_def)
    have "mailbox_of t (fsid f) = None" using None by (simp only: mailbox_None)
    then have "mailbox_of s1 = apply_frame (mailbox_of t) f"
      using mailbox_add_stream [OF assms(1) a] assms(2) by (simp add: apply_frame_def)
    moreover have "se_input s1 = se_input t" using a by (auto simp: add_stream_def Let_def)
    ultimately show ?thesis by (simp add: h header_moves_def recv_at_def assms(4) enc_frame_def e)
  qed
qed

lemma header_fin:
  assumes "shape t" "fcmd f = cmdFIN" "frame_good (se_config t) f"
    "arr = concat (map enc_frame ds) @ frame_header f @ se_input t"
  shows "header_moves (mailbox_of t) ds f fs arr (recv_header hit (frame_header f) t)"
proof -
  have e: "fdata f = []" using assms(2,3) by (simp add: frame_good_def frame_ok_def)
  show ?thesis
  proof (cases "map_of (se_streams t) (fsid f)")
    case None
    with assms(2,3) have "recv_header hit (frame_header f) t = t\<lparr>se_phase := RHeader\<rparr>"
      by (simp add: recv_header_def Let_def frame_good_def)
    moreover have "apply_frame (mailbox_of t) f = mailbox_of t"
      using None assms(2) by (intro apply_frame_idle) (simp add: mailbox_None)
    ultimately show ?thesis by (simp add: header_moves_def recv_at_def assms(4) enc_frame_def e)
  next
    case (Some r)
    let ?u = "upd_stream r (\<lambda>st. notifyReadEvent (stream_fin st)) t"
    have "recv_header hit (frame_header f) t = ?u\<lparr>se_phase := RHeader\<rparr>"
      using assms(2,3) Some by (simp add: recv_header_def Let_def frame_good_def)
    moreover have "mailbox_of ?u = apply_frame (mailbox_of t) f"
      using mailbox_upd_stream [OF assms(1) Some] assms(2) mailbox_Some [OF Some]
      by (simp add: apply_frame_def notifyReadEvent_def stream_fin_def st_content_def)
    ultimately show ?thesis by (simp add: header_moves_def recv_at_def assms(4) enc_frame_def e)
  qed
qed

lemma header_psh:
  assumes "shape t" "fcmd f = cmdPSH" "frame_good (se_config t) f"
    "arr = concat (map enc_frame ds) @ frame_header f @ se_input t"
  shows "header_moves (mailbox_of t) ds f fs arr (recv_header hit (frame_header f) t)"
proof (cases "fdata f = []")
  case True
  with assms(2,3) have "recv_header hit (frame_header f) t = t\<lparr>se_phase := RHeader\<rparr>"
    by (simp add: recv_header_def Let_def frame_good_def)
  moreover have "apply_frame (mailbox_of t) f = mailbox_of t"
    using True assms(2) by (intro apply_frame_idle) simp
  ultimately show ?thesis by (simp add: header_moves_def recv_at_def assms(4) enc_frame_def True)
next
  case False
  let ?d = "fdata f"
  have len: "length ?d < 65536" "0 < length ?d" using assms(2,3) False by (auto simp: frame_good_def frame_ok_def)
  have ul: "unat (of_nat (length ?d) :: u16) = length ?d" using len by (simp add: unat_of_nat)
  then have pos: "(of_nat (length ?d) :: u16) > 0" using len by (simp only: word_less_nat_alt) simp
  obtain g a where ga: "alloc_Get hit (int (length ?d)) (se_alloc t) = (g, a)" by fastforce
  have "g = GSlice \<lparr>slen = nat (int (length ?d)), scap = 2 ^ size_class (int (length ?d))\<rparr>"
    using alloc_Get_eq(1) [of "se_alloc t" "int (length ?d)" hit] assms(1) len ga
    by (simp add: shape_def)
  then obtain cap where g: "g = GSlice \<lparr>slen = length ?d, scap = cap\<rparr>" by simp
  have "recv_header hit (frame_header f) t = t\<lparr>se_alloc := a, se_phase := RPayload (fsid f) (length ?d) cap\<rparr>"
    using assms(2,3) pos ul ga g by (simp add: recv_header_def Let_def frame_good_def)
  then show ?thesis using assms(2) by (simp add: header_moves_def recv_at_def assms(4))
qed

lemma header_sim:
  assumes "shape t" "frame_good (se_config t) f"
    "arr = concat (map enc_frame ds) @ frame_header f @ se_input t"
  shows "header_moves (mailbox_of t) ds f fs arr (recv_header hit (frame_header f) t)"
proof -
  consider "fcmd f = cmdSYN" | "fcmd f = cmdFIN" | "fcmd f = cmdPSH" | "fcmd f = cmdNOP" | "fcmd f = cmdUPD"
    using assms(2) by (auto simp: frame_good_def known_cmd_def)
  then show ?thesis
  proof cases
    case 4
    then have "fdata f = []" using assms(2) by (simp add: frame_good_def frame_ok_def)
    moreover have "recv_header hit (frame_header f) t = t\<lparr>se_phase := RHeader\<rparr>"
      using 4 assms(2) by (simp add: recv_header_def Let_def frame_good_def)
    ultimately show ?thesis
      using 4 by (simp add: header_moves_def recv_at_def assms(3) enc_frame_def apply_frame_idle)
  next
    case 5
    then have "recv_header hit (frame_header f) t = t\<lparr>se_phase := RUpdate (fsid f)\<rparr>"
      using assms(2) by (simp add: recv_header_def Let_def frame_good_def)
    then show ?thesis using 5 by (simp add: header_moves_def recv_at_def assms(3))
  qed (use assms header_syn header_fin header_psh in blast)+
qed

lemma read_full_end: "read_full n s = IoErr e \<Longrightarrow> se_inputEnd s \<noteq> None"
  by (auto simp: read_full_def split: if_splits option.splits)

lemma read_full_take: "read_full n s = IoOk bs s' \<Longrightarrow> bs = take n (se_input s) \<and> n \<le> length (se_input s)"
  by (auto simp: read_full_def split: if_splits option.splits)

lemma recv_fail_keeps [simp]:
  "mailbox_of (recv_fail e s) = mailbox_of s" "se_inputEnd (recv_fail e s) = se_inputEnd s"
  "se_phase (recv_fail e s) = RExited"
  by (simp_all add: recv_fail_def notifyReadError_def mailbox_of_def fun_eq_iff split: option.split)

text \<open>The outcome of a step: nothing delivered, or the next frame.\<close>

definition recv_moves :: "recv_event \<Rightarrow> session \<Rightarrow> frame list \<Rightarrow> frame list \<Rightarrow> bytes \<Rightarrow> bool" where
  "recv_moves ev s ds rs arr \<longleftrightarrow>
     (\<exists>ds' rs'. ds @ rs = ds' @ rs' \<and>
        mail_step (EvRecv ev) (mailbox_of s, rs) (mailbox_of (recv_step ev s), rs') \<and>
        recv_at ds' rs' arr (recv_step ev s))"

lemma recv_moves_same:
  "mailbox_of (recv_step ev s) = mailbox_of s \<Longrightarrow> recv_at ds rs arr (recv_step ev s) \<Longrightarrow>
   recv_moves ev s ds rs arr"
  unfolding recv_moves_def using mail_step.stutter by fastforce

lemma recv_moves_deliver:
  assumes "rs = f # fs" "mailbox_of (recv_step ev s) = apply_frame (mailbox_of s) f"
    "recv_at (ds @ [f]) fs arr (recv_step ev s)"
  shows "recv_moves ev s ds rs arr"
  unfolding recv_moves_def assms(1)
  by (rule exI [of _ "ds @ [f]"], rule exI [of _ fs]) (simp add: assms(2,3) mail_step.deliver)

lemma recv_sim_header:
  assumes "se_phase s = RHeader" "shape s" "list_all (frame_good (se_config s)) rs" "recv_at ds rs arr s"
    "prefix arr (concat (map enc_frame (ds @ rs)))"
  shows "recv_moves (RvRun hit) s ds rs arr"
proof (cases "sint (se_bucket s) \<le> 0 \<and> \<not> IsClosed s")
  case True
  with assms(1,4) show ?thesis by (intro recv_moves_same) (auto simp: recv_step_def recv_at_def)
next
  case False
  have arr: "arr = concat (map enc_frame ds) @ se_input s" using assms(1,4) by (simp add: recv_at_def)
  show ?thesis
  proof (cases "read_full headerSize s")
    case (IoOk h s1)
    note r = read_full_ok(2) [OF IoOk] read_full_take [OF IoOk]
    have "prefix (se_input s) (concat (map enc_frame rs))" using assms(5) by (simp add: arr)
    then obtain f fs where f: "rs = f # fs" "se_input s = frame_header f @ drop headerSize (se_input s)"
      "h = frame_header f"
      using frames_head r(2) by metis
    let ?t = "s1\<lparr>se_dataReady := True\<rparr>"
    have t: "shape ?t" "se_config ?t = se_config s" "se_input ?t = drop headerSize (se_input s)"
      "mailbox_of ?t = mailbox_of s" using assms(2) by (simp_all add: r(1))
    have step: "recv_step (RvRun hit) s = recv_header hit (frame_header f) ?t"
      using False assms(1) IoOk by (auto simp: recv_step_def f(3))
    have "header_moves (mailbox_of ?t) ds f fs arr (recv_header hit (frame_header f) ?t)"
      using assms(3) f(1,2) t by (intro header_sim) (simp_all add: arr)
    then show ?thesis
      unfolding header_moves_def t(4) step [symmetric]
      using recv_moves_same recv_moves_deliver [OF f(1)] f(1) by blast
  next
    case (IoErr e)
    with False assms(1) read_full_end [OF IoErr] show ?thesis
      by (intro recv_moves_same) (auto simp: recv_step_def recv_at_def)
  next
    case IoBlock
    with False assms(1,4) show ?thesis by (intro recv_moves_same) (auto simp: recv_step_def)
  qed
qed

lemma recv_sim_payload:
  assumes "se_phase s = RPayload sid len cap" "shape s" "recv_at ds rs arr s"
    "prefix arr (concat (map enc_frame (ds @ rs)))"
  shows "recv_moves (RvRun hit) s ds rs arr"
proof (cases "read_full len s")
  case (IoOk h s1)
  note r = read_full_ok(2) [OF IoOk] read_full_take [OF IoOk]
  obtain f fs where f: "rs = f # fs" "fcmd f = cmdPSH" "fsid f = sid" "length (fdata f) = len"
    "arr = concat (map enc_frame ds) @ frame_header f @ se_input s"
    using assms(1,3) by (auto simp: recv_at_def)
  have "prefix (se_input s) (fdata f @ concat (map enc_frame fs))"
    using assms(4) by (simp add: f(1,5) enc_frame_def)
  then obtain zs where "fdata f @ concat (map enc_frame fs) = se_input s @ zs" by (auto simp: prefix_def)
  then have "take len (fdata f @ concat (map enc_frame fs)) = take len (se_input s @ zs)" by simp
  then have h: "h = fdata f" using r(2) f(4) by simp
  have inp: "se_input s = fdata f @ se_input s1"
    using append_take_drop_id [of len "se_input s"] r(2) h by (simp add: r(1))
  have s1: "shape s1" "se_streams s1 = se_streams s" "se_store s1 = se_store s" "mailbox_of s1 = mailbox_of s"
    using assms(2) by (simp_all add: r(1))
  have arr: "arr = concat (map enc_frame (ds @ [f])) @ se_input s1"
    by (simp add: f(5) inp enc_frame_def)
  show ?thesis
  proof (cases "map_of (se_streams s) sid")
    case None
    have "recv_step (RvRun hit) s = s1\<lparr>se_phase := RHeader\<rparr>"
      using assms(1) IoOk None s1(2) by (simp add: recv_step_def)
    moreover have "mailbox_of s sid = None" using None by (simp only: mailbox_None)
    then have "apply_frame (mailbox_of s) f = mailbox_of s"
      using f(2,3) by (intro apply_frame_idle) simp
    ultimately show ?thesis
      using s1 by (intro recv_moves_deliver [OF f(1)]) (simp_all add: recv_at_def arr)
  next
    case (Some q)
    let ?p = "upd_stream q (pushBytes (fdata f, cap)) s1"
    have "recv_step (RvRun hit) s = ?p\<lparr>se_phase := RPushed q len\<rparr>"
      using assms(1) IoOk Some s1(2) by (simp add: recv_step_def h)
    moreover have "mailbox_of ?p = apply_frame (mailbox_of s) f"
      using mailbox_upd_stream [OF s1(1), of sid q] Some s1 f(2,3)
      by (simp add: apply_frame_def mailbox_Some pushBytes_def st_content_def)
    ultimately show ?thesis
      by (intro recv_moves_deliver [OF f(1)]) (simp_all add: recv_at_def arr)
  qed
next
  case (IoErr e)
  with assms(1) read_full_end [OF IoErr] show ?thesis
    by (intro recv_moves_same) (auto simp: recv_step_def recv_at_def)
next
  case IoBlock
  with assms(1,3) show ?thesis by (intro recv_moves_same) (auto simp: recv_step_def)
qed

lemma recv_sim_update:
  assumes "se_phase s = RUpdate sid" "shape s" "list_all (frame_good (se_config s)) rs" "recv_at ds rs arr s"
    "prefix arr (concat (map enc_frame (ds @ rs)))"
  shows "recv_moves (RvRun hit) s ds rs arr"
proof (cases "read_full szCmdUPD s")
  case (IoOk h s1)
  note r = read_full_ok(2) [OF IoOk] read_full_take [OF IoOk]
  obtain f fs where f: "rs = f # fs" "fcmd f = cmdUPD" "fsid f = sid"
    "arr = concat (map enc_frame ds) @ frame_header f @ se_input s"
    using assms(1,4) by (auto simp: recv_at_def)
  have len: "length (fdata f) = szCmdUPD" using assms(3) f(1,2) by (simp add: frame_good_def frame_ok_def)
  have "prefix (se_input s) (fdata f @ concat (map enc_frame fs))"
    using assms(5) by (simp add: f(1,4) enc_frame_def)
  then obtain zs where "fdata f @ concat (map enc_frame fs) = se_input s @ zs" by (auto simp: prefix_def)
  then have "take szCmdUPD (fdata f @ concat (map enc_frame fs)) = take szCmdUPD (se_input s @ zs)" by simp
  then have h: "h = fdata f" using r(2) len by simp
  have inp: "se_input s = fdata f @ se_input s1"
    using append_take_drop_id [of szCmdUPD "se_input s"] r(2) h by (simp add: r(1))
  have s1: "se_streams s1 = se_streams s" "mailbox_of s1 = mailbox_of s" by (simp_all add: r(1))
  have arr: "arr = concat (map enc_frame (ds @ [f])) @ se_input s1" by (simp add: f(4) inp enc_frame_def)
  have "apply_frame (mailbox_of s) f = mailbox_of s" using f(2) by (intro apply_frame_idle) simp
  moreover have "mailbox_of (recv_step (RvRun hit) s) = mailbox_of s"
    "se_phase (recv_step (RvRun hit) s) = RHeader" "se_input (recv_step (RvRun hit) s) = se_input s1"
    using assms(1) IoOk s1
      mailbox_upd_same [of "stream_update (upd_Consumed h) (upd_Window h)" _ s1]
    by (auto simp: recv_step_def stream_update_def st_content_def split: option.split)
  ultimately show ?thesis
    by (intro recv_moves_deliver [OF f(1)]) (simp_all add: recv_at_def arr)
next
  case (IoErr e)
  with assms(1) read_full_end [OF IoErr] show ?thesis
    by (intro recv_moves_same) (auto simp: recv_step_def recv_at_def)
next
  case IoBlock
  with assms(1,4) show ?thesis by (intro recv_moves_same) (auto simp: recv_step_def)
qed

lemma recv_sim:
  assumes "shape s" "list_all (frame_good (se_config s)) rs" "recv_at ds rs arr s"
    "prefix arr (concat (map enc_frame (ds @ rs)))"
  shows "recv_moves ev s ds rs arr"
proof (cases ev)
  case RvDie
  have "mailbox_of (recv_step RvDie s) = mailbox_of s"
    by (simp add: recv_step_def split: recv_phase.split)
  moreover have "recv_at ds rs arr (recv_step RvDie s)"
    using assms(3) by (auto simp: recv_step_def recv_at_def split: recv_phase.splits)
  ultimately show ?thesis unfolding RvDie by (rule recv_moves_same)
next
  case (RvRun hit)
  show ?thesis
  proof (cases "se_phase s")
    case RHeader
    from recv_sim_header [OF this assms] show ?thesis by (simp add: RvRun)
  next
    case (RPayload sid len cap)
    from recv_sim_payload [OF this assms(1,3,4)] show ?thesis by (simp add: RvRun)
  next
    case (RUpdate sid)
    from recv_sim_update [OF this assms] show ?thesis by (simp add: RvRun)
  next
    case (RPushed r n)
    have "mailbox_of (upd_stream r notifyReadEvent s) = mailbox_of s"
      by (rule mailbox_upd_same) (simp add: notifyReadEvent_def st_content_def)
    with RPushed assms(3) show ?thesis
      unfolding RvRun by (intro recv_moves_same) (simp_all add: recv_step_def recv_at_def)
  next
    case RWaitTokens
    have "mailbox_of (s\<lparr>se_bucketNotify := False, se_phase := RHeader\<rparr>) = mailbox_of s"
      by (rule mailbox_cong) simp_all
    with RWaitTokens assms(3) show ?thesis
      unfolding RvRun by (intro recv_moves_same) (simp_all add: recv_step_def recv_at_def)
  next
    case (RAccept r)
    with assms(3) show ?thesis
      unfolding RvRun by (intro recv_moves_same) (simp_all add: recv_step_def recv_at_def)
  next
    case RExited
    with assms(3) show ?thesis
      unfolding RvRun by (intro recv_moves_same) (simp_all add: recv_step_def recv_at_def)
  qed
qed

section \<open>Every run\<close>

definition arrived :: "event list \<Rightarrow> bytes" where
  "arrived es = concat (map (\<lambda>e. case e of EvInput bs \<Rightarrow> bs | _ \<Rightarrow> []) es)"

lemma arrived_snoc [simp]:
  "arrived [] = []" "arrived (es @ [e]) = arrived es @ (case e of EvInput bs \<Rightarrow> bs | _ \<Rightarrow> [])"
  by (simp_all add: arrived_def)

lemma sys_run_snoc: "sys_run c client (es @ [e]) = sys_step (sys_run c client es) e"
  by (simp add: sys_run_def)

lemma recv_end_config [simp]:
  "se_config (recv_fail e s) = se_config s" "se_config (recv_proto s) = se_config s"
  by (simp_all add: recv_fail_def recv_proto_def notifyReadError_def notifyProtoError_def split: option.split)

lemma recv_header_config [simp]: "se_config (recv_header hit h s) = se_config s"
  by (simp add: recv_header_def add_stream_def Let_def split: option.split get_result.split prod.split)

lemma read_full_config: "read_full n s = IoOk bs s' \<Longrightarrow> se_config s' = se_config s"
  using read_full_ok(2) by fastforce

lemma recv_step_config [simp]: "se_config (recv_step ev s) = se_config s"
proof (cases ev)
  case (RvRun hit)
  then show ?thesis
    by (cases "se_phase s")
      (auto simp: recv_step_def dest: read_full_config split: io_result.split option.split)
next
  case RvDie
  then show ?thesis by (simp add: recv_step_def split: recv_phase.split)
qed

lemma sys_run_config: "se_config (sy_sess (sys_run c client es)) = c"
proof (induction es rule: rev_induct)
  case Nil
  then show ?case by (simp add: sys_run_def sys_init_def newSession_def)
next
  case (snoc e es)
  show ?case
  proof (cases "on_wire e")
    case True
    with snoc show ?thesis
      by (cases e) (simp_all add: sys_run_snoc sys_step_def on_wire_def Let_def)
  next
    case False
    from wire_step [OF this, of "sys_run c client es"] snoc show ?thesis
      by (simp add: sys_run_snoc wire_same_def)
  qed
qed

lemma mail_sim:
  assumes "VerifyConfig c = None" "cMaxReceiveBuffer c < 2 ^ 31"
    "list_all (frame_good c) frames" "prefix (arrived es) (concat (map enc_frame frames))"
  shows "\<exists>ds rs. frames = ds @ rs \<and>
    mail_run es (Map.empty, frames) (mailbox_of (sy_sess (sys_run c client es)), rs) \<and>
    recv_at ds rs (arrived es) (sy_sess (sys_run c client es))"
  using assms(4)
proof (induction es rule: rev_induct)
  case Nil
  have "mailbox_of (sy_sess (sys_run c client [])) = Map.empty"
    "recv_at [] frames [] (sy_sess (sys_run c client []))"
    by (simp_all add: sys_run_def sys_init_def newSession_def mailbox_of_def recv_at_def fun_eq_iff)
  then show ?case using mail_run.none by fastforce
next
  case (snoc e es)
  let ?y = "sys_run c client es"
  let ?s = "sy_sess ?y" and ?s' = "sy_sess (sys_step ?y e)"
  have "prefix (arrived es) (concat (map enc_frame frames))"
    using snoc.prems by (auto simp: prefix_def)
  from snoc.IH [OF this] obtain ds rs where i: "frames = ds @ rs"
    "mail_run es (Map.empty, frames) (mailbox_of ?s, rs)" "recv_at ds rs (arrived es) ?s" by blast
  note sh = sys_run_parts(1) [OF assms(1,2), of client es]
  have "\<exists>ds' rs'. ds @ rs = ds' @ rs' \<and> mail_step e (mailbox_of ?s, rs) (mailbox_of ?s', rs') \<and>
      recv_at ds' rs' (arrived (es @ [e])) ?s'"
  proof (cases "\<exists>rv. e = EvRecv rv")
    case True
    then obtain rv where e: "e = EvRecv rv" ..
    have "list_all (frame_good (se_config ?s)) rs" using assms(3) by (simp add: i(1) sys_run_config)
    moreover have "prefix (arrived es) (concat (map enc_frame (ds @ rs)))"
      using snoc.prems unfolding i(1) [symmetric] by (simp add: e)
    ultimately have "recv_moves rv ?s ds rs (arrived es)" using recv_sim [OF sh _ i(3)] by blast
    then show ?thesis unfolding recv_moves_def by (simp add: e sys_step_def Let_def)
  next
    case False
    then have "mail_step e (mailbox_of ?s, rs) (mailbox_of ?s', rs)"
      using mail_others [OF sh] by blast
    moreover have "recv_at ds rs (arrived (es @ [e])) ?s'"
    proof (cases "on_wire e")
      case True
      with False i(3) show ?thesis
        by (cases e) (simp_all add: on_wire_def sys_step_def Let_def recv_at_input recv_at_inputEnd)
    next
      case nw: False
      then have "arrived (es @ [e]) = arrived es" by (cases e) (simp_all add: on_wire_def)
      with recv_at_same [OF i(3) wire_step [OF nw]] show ?thesis by simp
    qed
    ultimately show ?thesis by blast
  qed
  then obtain ds' rs' where n: "frames = ds' @ rs'" "mail_step e (mailbox_of ?s, rs) (mailbox_of ?s', rs')"
    "recv_at ds' rs' (arrived (es @ [e])) ?s'"
    using i(1) by metis
  from mail_run.more [OF i(2) n(2)] n(1,3) show ?case unfolding sys_run_snoc by blast
qed

section \<open>Properties\<close>

text \<open>
  C12: the receive loop implements the mailbox specification in every interleaving. Let the bytes
  that have arrived be the beginning of any sequence of well-formed frames of the session's
  version. Whatever receive-loop steps, readers, writers, openers, closers, time-outs and
  connection errors have run, in any order: the contents and FIN marks of the streams are those
  the mailbox machine reaches by steps of the same events, delivering the frames one at a time
  and in order, and the loop stands in the bytes where the frames delivered end (or after the
  header of the next one), with the rest of what has arrived unread. It leaves only when the
  connection has failed or the session is closed, never because of such frames.
\<close>

theorem recv_loop_refines:
  assumes "VerifyConfig c = None" "cMaxReceiveBuffer c < 2 ^ 31"
    "list_all (frame_good c) frames" "prefix (arrived es) (concat (map enc_frame frames))"
  shows "\<exists>ds rs. frames = ds @ rs \<and>
    mail_run es (Map.empty, frames) (mailbox_of (sy_sess (sys_run c client es)), rs) \<and>
    recv_at ds rs (arrived es) (sy_sess (sys_run c client es))"
  by (rule mail_sim [OF assms])

text \<open>A run in which a read comes between the frames of a stream, and the FIN after it.\<close>

definition mail_demo :: "event list" where
  "mail_demo = EvInput (concat (map enc_frame demo_frames)) # replicate 5 (EvRecv (RvRun True)) @
     [EvReadLock 0 1, EvRecv (RvRun True)]"

lemma mail_demo_end:
  "se_phase (sy_sess (sys_run DefaultConfig False mail_demo)) = RHeader"
  "se_input (sy_sess (sys_run DefaultConfig False mail_demo)) = []"
  "map_of (se_streams (sy_sess (sys_run DefaultConfig False mail_demo))) 3 = Some 0"
  by code_simp+

theorem recv_loop_refines_witness:
  "mail_run mail_demo (Map.empty, demo_frames) (mailbox_of (sy_sess (sys_run DefaultConfig False mail_demo)), []) \<and>
   mailbox_of (sy_sess (sys_run DefaultConfig False mail_demo)) 3 = Some ([8], True)"
proof -
  have good: "list_all (frame_good DefaultConfig) demo_frames"
    by (simp add: demo_frames_def frame_good_def known_cmd_def frame_ok_def newFrame_def DefaultConfig_def)
  have all: "arrived mail_demo = concat (map enc_frame demo_frames)"
    by (simp add: mail_demo_def arrived_def)
  have "st_content (se_store (sy_sess (sys_run DefaultConfig False mail_demo)) ! 0) = [8]"
    "st_fin (se_store (sy_sess (sys_run DefaultConfig False mail_demo)) ! 0)" by code_simp+
  then have m: "mailbox_of (sy_sess (sys_run DefaultConfig False mail_demo)) 3 = Some ([8], True)"
    using mailbox_Some [OF mail_demo_end(3)] by simp
  obtain ds rs where r: "demo_frames = ds @ rs"
    "mail_run mail_demo (Map.empty, demo_frames) (mailbox_of (sy_sess (sys_run DefaultConfig False mail_demo)), rs)"
    "recv_at ds rs (arrived mail_demo) (sy_sess (sys_run DefaultConfig False mail_demo))"
    using recv_loop_refines [OF default_ok good, of mail_demo False] all by auto
  have "concat (map enc_frame rs) = []"
    using r(3) mail_demo_end(1,2) unfolding all by (simp add: recv_at_def r(1))
  then have "rs = []" by (cases rs) (simp_all add: enc_frame_def frame_header_def)
  with r(2) m show ?thesis by simp
qed

end
