(* ===== verification/Ws_Conn.thy ===== *)
theory Ws_Conn
  imports Prelude
begin

text \<open>
  The byte stream that \<^verbatim>\<open>WSConn\<close> of \<^verbatim>\<open>ws/ws_tun.go\<close> (and its twin \<^verbatim>\<open>WS\<close> of \<^verbatim>\<open>ws/ws.go\<close>) makes of a
  WebSocket connection: messages are read one by one, and what a short buffer could not take is
  kept for the next \<^verbatim>\<open>Read\<close>. The \<^verbatim>\<open>websocket.Conn\<close> itself is the list of messages that will
  arrive, followed by an error.
\<close>

record wsconn =
  ws_incoming :: "bytes list"
  ws_remain :: "bytes option"
  ws_sent :: "bytes list"

text \<open>\<^verbatim>\<open>ReadMessage\<close>: \<open>None\<close> is an error.\<close>

definition ReadMessage :: "wsconn \<Rightarrow> bytes option \<times> wsconn" where
  "ReadMessage w =
     (case ws_incoming w of [] \<Rightarrow> (None, w) | m # ms \<Rightarrow> (Some m, w\<lparr>ws_incoming := ms\<rparr>))"

text \<open>\<^verbatim>\<open>Read\<close> into a buffer of \<open>len\<close> bytes: the count it returns, the bytes copied, whether it failed.\<close>

definition ws_Read :: "nat \<Rightarrow> wsconn \<Rightarrow> (int \<times> bytes \<times> bool) \<times> wsconn" where
  "ws_Read len w =
     (let (msg, w1) = (case ws_remain w of Some m \<Rightarrow> (Some m, w) | None \<Rightarrow> ReadMessage w)
      in case msg of
           None \<Rightarrow> ((- 1, [], True), w1)
         | Some m \<Rightarrow>
             if length m \<le> len then ((int (length m), m, False), w1\<lparr>ws_remain := None\<rparr>)
             else ((int len, take len m, False), w1\<lparr>ws_remain := Some (drop len m)\<rparr>))"

definition ws_Write :: "bool \<Rightarrow> bytes \<Rightarrow> wsconn \<Rightarrow> (int \<times> bool) \<times> wsconn" where
  "ws_Write ok p w =
     (if ok then ((int (length p), False), w\<lparr>ws_sent := ws_sent w @ [p]\<rparr>) else ((- 1, True), w))"

text \<open>A request and its answer; the answer is the next message.\<close>

definition ws_Req :: "bool \<Rightarrow> bytes \<Rightarrow> wsconn \<Rightarrow> bytes option \<times> wsconn" where
  "ws_Req ok msg w =
     (if ok then ReadMessage (w\<lparr>ws_sent := ws_sent w @ [msg]\<rparr>) else (None, w))"

section \<open>The byte stream\<close>

definition ws_pending :: "wsconn \<Rightarrow> bytes" where
  "ws_pending w = (case ws_remain w of None \<Rightarrow> [] | Some m \<Rightarrow> m) @ concat (ws_incoming w)"

text \<open>The number of bytes and messages still to come: every read with a non-empty buffer lowers it.\<close>

definition ws_left :: "wsconn \<Rightarrow> nat" where
  "ws_left w = length (ws_pending w) + length (ws_incoming w) + (if ws_remain w = None then 0 else 1)"

lemma ws_Read_pending:
  "ws_Read len w = ((n, out, err), w') \<Longrightarrow>
   ws_pending w = out @ ws_pending w' \<and> length out \<le> len \<and>
   (err \<longrightarrow> out = [] \<and> ws_pending w = [] \<and> n = - 1) \<and> (\<not> err \<longrightarrow> n = int (length out))"
  by (auto simp: ws_Read_def ReadMessage_def ws_pending_def Let_def min_def
      split: option.splits list.splits if_splits)

lemma ws_Read_left:
  "ws_Read len w = ((n, out, err), w') \<Longrightarrow> 0 < len \<Longrightarrow> \<not> err \<Longrightarrow> ws_left w' < ws_left w"
  by (auto simp: ws_Read_def ReadMessage_def ws_left_def ws_pending_def Let_def
      split: option.splits list.splits if_splits)

text \<open>\<^verbatim>\<open>io.Copy\<close> from the connection with buffers of \<open>len\<close> bytes: everything read before the error.\<close>

fun ws_copy :: "nat \<Rightarrow> nat \<Rightarrow> wsconn \<Rightarrow> bytes option" where
  "ws_copy 0 len w = None"
| "ws_copy (Suc fuel) len w =
     (case ws_Read len w of
        ((_, out, True), _) \<Rightarrow> Some []
      | ((_, out, False), w') \<Rightarrow> map_option (\<lambda>rest. out @ rest) (ws_copy fuel len w'))"

lemma ws_copy_all:
  assumes "0 < len" "ws_left w < fuel"
  shows "ws_copy fuel len w = Some (ws_pending w)"
  using assms(2)
proof (induction fuel arbitrary: w)
  case (Suc fuel)
  obtain n out err w' where r: "ws_Read len w = ((n, out, err), w')" by (metis prod.collapse)
  note p = ws_Read_pending [OF r]
  show ?case
  proof (cases err)
    case True
    with p have "ws_pending w = []" by blast
    with True r show ?thesis by simp
  next
    case False
    have "ws_left w' < fuel" using ws_Read_left [OF r assms(1) False] Suc.prems by simp
    with Suc.IH p r False show ?thesis by simp
  qed
qed simp

section \<open>Properties\<close>

text \<open>
  A WebSocket connection read through \<^verbatim>\<open>WSConn\<close> is a byte stream: copying it with buffers of
  any size comes to an end and gives the bytes of all messages, in order, whatever their
  boundaries (empty messages included).
\<close>

theorem ws_stream:
  assumes "0 < len"
  shows "\<exists>fuel. ws_copy fuel len \<lparr>ws_incoming = msgs, ws_remain = None, ws_sent = []\<rparr> = Some (concat msgs)"
proof -
  let ?w = "\<lparr>ws_incoming = msgs, ws_remain = None, ws_sent = []\<rparr>"
  have "ws_copy (Suc (ws_left ?w)) len ?w = Some (ws_pending ?w)"
    by (rule ws_copy_all [OF assms]) simp
  then show ?thesis by (intro exI [of _ "Suc (ws_left ?w)"]) (simp add: ws_pending_def)
qed

theorem ws_stream_witness:
  "\<exists>fuel. ws_copy fuel 2 \<lparr>ws_incoming = [[1, 2, 3], [], [4]], ws_remain = None, ws_sent = []\<rparr> = Some [1, 2, 3, 4]"
  using ws_stream [of 2 "[[1, 2, 3], [], [4]]"] by simp

end
