(* ===== verification/Concurrent_Map.thy ===== *)
theory Concurrent_Map
  imports Prelude
begin

text \<open>
  The sharded map of \<^verbatim>\<open>ws/concurrent_map.go\<close>: 32 shards, each a Go map under its own lock, the
  shard of a key chosen by a hash. A shard is an association list; every operation that holds
  one shard's lock is one step. Where Go iterates over a map the order is unspecified: the
  operations that iterate take the order as an argument, constrained by \<open>is_iteration\<close>.
\<close>

section \<open>Hashing and shards\<close>

definition SHARD_COUNT :: nat where "SHARD_COUNT = 32"

definition fnv32 :: "bytes \<Rightarrow> u32" where
  "fnv32 key = foldl (\<lambda>hash b. (hash * 16777619) XOR ucast b) 2166136261 key"

definition strfnv32 :: "('k \<Rightarrow> bytes) \<Rightarrow> 'k \<Rightarrow> u32" where
  "strfnv32 to_string key = fnv32 (to_string key)"

record ('k, 'v) cmap =
  cm_shards :: "('k \<times> 'v) list list"
  cm_sharding :: "'k \<Rightarrow> u32"

definition cmap_create :: "('k \<Rightarrow> u32) \<Rightarrow> ('k, 'v) cmap" where
  "cmap_create sharding = \<lparr>cm_shards = replicate SHARD_COUNT [], cm_sharding = sharding\<rparr>"

definition NewMap :: "(bytes, 'v) cmap" where
  "NewMap = cmap_create fnv32"

definition shard_index :: "('k, 'v) cmap \<Rightarrow> 'k \<Rightarrow> nat" where
  "shard_index m key = unat (cm_sharding m key) mod SHARD_COUNT"

definition GetShard :: "('k, 'v) cmap \<Rightarrow> 'k \<Rightarrow> ('k \<times> 'v) list" where
  "GetShard m key = cm_shards m ! shard_index m key"

definition upd_shard :: "'k \<Rightarrow> (('k \<times> 'v) list \<Rightarrow> ('k \<times> 'v) list) \<Rightarrow> ('k, 'v) cmap \<Rightarrow> ('k, 'v) cmap" where
  "upd_shard key f m =
     m\<lparr>cm_shards := (cm_shards m)[shard_index m key := f (GetShard m key)]\<rparr>"

section \<open>The operations on one key\<close>

definition cmap_Set :: "'k \<Rightarrow> 'v \<Rightarrow> ('k, 'v) cmap \<Rightarrow> ('k, 'v) cmap" where
  "cmap_Set key v m = upd_shard key (AList.update key v) m"

definition cmap_Upsert ::
  "'k \<Rightarrow> 'v \<Rightarrow> ('v option \<Rightarrow> 'v \<Rightarrow> 'v) \<Rightarrow> ('k, 'v) cmap \<Rightarrow> 'v \<times> ('k, 'v) cmap" where
  "cmap_Upsert key v cb m =
     (let res = cb (map_of (GetShard m key) key) v
      in (res, upd_shard key (AList.update key res) m))"

definition cmap_SetIfAbsent :: "'k \<Rightarrow> 'v \<Rightarrow> ('k, 'v) cmap \<Rightarrow> bool \<times> ('k, 'v) cmap" where
  "cmap_SetIfAbsent key v m =
     (case map_of (GetShard m key) key of
        None \<Rightarrow> (True, upd_shard key (AList.update key v) m)
      | Some _ \<Rightarrow> (False, m))"

definition cmap_Get :: "'k \<Rightarrow> ('k, 'v) cmap \<Rightarrow> 'v option" where
  "cmap_Get key m = map_of (GetShard m key) key"

definition cmap_Has :: "'k \<Rightarrow> ('k, 'v) cmap \<Rightarrow> bool" where
  "cmap_Has key m = (map_of (GetShard m key) key \<noteq> None)"

definition cmap_Remove :: "'k \<Rightarrow> ('k, 'v) cmap \<Rightarrow> ('k, 'v) cmap" where
  "cmap_Remove key m = upd_shard key (AList.delete key) m"

definition cmap_RemoveCb ::
  "'k \<Rightarrow> ('k \<Rightarrow> 'v option \<Rightarrow> bool) \<Rightarrow> ('k, 'v) cmap \<Rightarrow> bool \<times> ('k, 'v) cmap" where
  "cmap_RemoveCb key cb m =
     (let v = map_of (GetShard m key) key; remove = cb key v
      in (remove, if remove \<and> v \<noteq> None then upd_shard key (AList.delete key) m else m))"

definition cmap_Pop :: "'k \<Rightarrow> ('k, 'v) cmap \<Rightarrow> 'v option \<times> ('k, 'v) cmap" where
  "cmap_Pop key m = (map_of (GetShard m key) key, upd_shard key (AList.delete key) m)"

definition cmap_MSet :: "('k \<times> 'v) list \<Rightarrow> ('k, 'v) cmap \<Rightarrow> ('k, 'v) cmap" where
  "cmap_MSet data m = fold (\<lambda>(key, v). cmap_Set key v) data m"

section \<open>The operations on all shards\<close>

definition cmap_Count :: "('k, 'v) cmap \<Rightarrow> nat" where
  "cmap_Count m = sum_list (map length (cm_shards m))"

definition cmap_IsEmpty :: "('k, 'v) cmap \<Rightarrow> bool" where
  "cmap_IsEmpty m = (cmap_Count m = 0)"

text \<open>What \<^verbatim>\<open>snapshot\<close> and \<^verbatim>\<open>fanIn\<close> deliver: every entry of every shard once, in some order.\<close>

definition is_iteration :: "('k, 'v) cmap \<Rightarrow> ('k \<times> 'v) list \<Rightarrow> bool" where
  "is_iteration m xs \<longleftrightarrow> mset xs = mset (concat (cm_shards m))"

definition cmap_Clear :: "('k \<times> 'v) list \<Rightarrow> ('k, 'v) cmap \<Rightarrow> ('k, 'v) cmap" where
  "cmap_Clear xs m = fold (\<lambda>(key, _). cmap_Remove key) xs m"

definition cmap_Items :: "('k \<times> 'v) list \<Rightarrow> 'k \<Rightarrow> 'v option" where
  "cmap_Items xs = foldl (\<lambda>tmp (key, v). tmp(key \<mapsto> v)) (\<lambda>_. None) xs"

definition cmap_IterCb :: "('k \<Rightarrow> 'v \<Rightarrow> 's \<Rightarrow> 's) \<Rightarrow> ('k, 'v) cmap \<Rightarrow> 's \<Rightarrow> 's" where
  "cmap_IterCb fn m s = fold (fold (\<lambda>(key, v). fn key v)) (cm_shards m) s"

definition cmap_Keys :: "('k \<times> 'v) list \<Rightarrow> 'k list" where
  "cmap_Keys xs = map fst xs"

text \<open>JSON goes through a plain map; the encoder and decoder of \<^verbatim>\<open>encoding/json\<close> are parameters.\<close>

definition cmap_MarshalJSON :: "(('k \<Rightarrow> 'v option) \<Rightarrow> bytes) \<Rightarrow> ('k \<times> 'v) list \<Rightarrow> bytes" where
  "cmap_MarshalJSON enc xs = enc (cmap_Items xs)"

definition cmap_UnmarshalJSON ::
  "(bytes \<Rightarrow> 'e + ('k \<times> 'v) list) \<Rightarrow> bytes \<Rightarrow> ('k, 'v) cmap \<Rightarrow> 'e option \<times> ('k, 'v) cmap" where
  "cmap_UnmarshalJSON dec b m =
     (case dec b of
        Inl e \<Rightarrow> (Some e, m)
      | Inr tmp \<Rightarrow> (None, fold (\<lambda>(key, v). cmap_Set key v) tmp m))"

section \<open>A keyed store\<close>

text \<open>
  The contract of the keyed stores of this program: what a lookup returns after each update.
  Its clients need nothing else.
\<close>

locale kv_store =
  fixes lookup :: "'s \<Rightarrow> 'k \<Rightarrow> 'v option"
    and insert :: "'k \<Rightarrow> 'v \<Rightarrow> 's \<Rightarrow> 's"
    and remove :: "'k \<Rightarrow> 's \<Rightarrow> 's"
    and ok :: "'s \<Rightarrow> bool"
  assumes lookup_insert: "ok s \<Longrightarrow> lookup (insert k v s) = (lookup s)(k \<mapsto> v)"
    and lookup_remove: "ok s \<Longrightarrow> lookup (remove k s) = (lookup s)(k := None)"
    and ok_insert: "ok s \<Longrightarrow> ok (insert k v s)"
    and ok_remove: "ok s \<Longrightarrow> ok (remove k s)"
begin

lemma insert_all:
  "ok s \<Longrightarrow> lookup (fold (\<lambda>(k, v). insert k v) xs s) = lookup s ++ map_of (rev xs) \<and>
     ok (fold (\<lambda>(k, v). insert k v) xs s)"
proof (induction xs arbitrary: s)
  case (Cons x xs)
  obtain k v where x: "x = (k, v)" by fastforce
  from Cons.IH [OF ok_insert [OF Cons.prems, of k v]] show ?case
    unfolding x lookup_insert [OF Cons.prems] by (simp del: fun_upd_apply)
qed simp

lemma remove_all:
  "ok s \<Longrightarrow> lookup (fold (\<lambda>(k, _). remove k) xs s) = (lookup s) |` (- fst ` set xs) \<and>
     ok (fold (\<lambda>(k, _). remove k) xs s)"
proof (induction xs arbitrary: s)
  case (Cons x xs)
  obtain k v where x: "x = (k, v)" by fastforce
  from Cons.IH [OF ok_remove [OF Cons.prems, of k]] show ?case
    by (auto simp: x lookup_remove [OF Cons.prems] restrict_map_def fun_eq_iff)
qed (simp add: restrict_map_def)

end

section \<open>The sharded map is a keyed store\<close>

definition cmap_ok :: "('k, 'v) cmap \<Rightarrow> bool" where
  "cmap_ok m \<longleftrightarrow>
     length (cm_shards m) = SHARD_COUNT \<and>
     (\<forall>i<SHARD_COUNT. distinct (map fst (cm_shards m ! i)) \<and>
        (\<forall>p\<in>set (cm_shards m ! i). shard_index m (fst p) = i))"

lemma shard_index_less [simp]: "shard_index m k < SHARD_COUNT"
  by (simp add: shard_index_def SHARD_COUNT_def)

lemma cmap_ok_create: "cmap_ok (cmap_create sharding)"
  by (simp add: cmap_ok_def cmap_create_def)

lemma shard_index_upd [simp]: "shard_index (upd_shard k f m) q = shard_index m q"
  by (simp add: shard_index_def upd_shard_def)

lemma GetShard_upd:
  assumes "cmap_ok m"
  shows "GetShard (upd_shard k f m) q =
    (if shard_index m q = shard_index m k then f (GetShard m k) else GetShard m q)"
  using assms by (simp add: GetShard_def upd_shard_def shard_index_def [symmetric] nth_list_update cmap_ok_def)
    (simp add: shard_index_def)

lemma shard_entry:
  "cmap_ok m \<Longrightarrow> p \<in> set (GetShard m k) \<Longrightarrow> shard_index m (fst p) = shard_index m k"
  by (simp add: cmap_ok_def GetShard_def)

lemma same_shard: "shard_index m q = shard_index m k \<Longrightarrow> GetShard m q = GetShard m k"
  by (simp add: GetShard_def)

lemma cmap_ok_upd:
  assumes "cmap_ok m" "distinct (map fst (f (GetShard m k)))"
    "\<And>p. p \<in> set (f (GetShard m k)) \<Longrightarrow> p \<in> set (GetShard m k) \<or> fst p = k"
  shows "cmap_ok (upd_shard k f m)"
proof -
  have "distinct (map fst (cm_shards (upd_shard k f m) ! i)) \<and>
      (\<forall>p\<in>set (cm_shards (upd_shard k f m) ! i). shard_index m (fst p) = i)" if "i < SHARD_COUNT" for i
  proof (cases "i = shard_index m k")
    case True
    have "shard_index m (fst p) = i" if "p \<in> set (f (GetShard m k))" for p
      using assms(3) [OF that] shard_entry [OF assms(1), of p k] True by auto
    with True assms(1,2) show ?thesis by (simp add: cmap_ok_def, simp add: upd_shard_def)
  next
    case False
    with assms(1) that show ?thesis by (simp add: cmap_ok_def, simp add: upd_shard_def)
  qed
  then show ?thesis using assms(1) by (simp add: cmap_ok_def, simp add: upd_shard_def)
qed

lemma GetShard_distinct: "cmap_ok m \<Longrightarrow> distinct (map fst (GetShard m k))"
  by (simp add: cmap_ok_def GetShard_def)

lemma cmap_Get_update:
  assumes "cmap_ok m"
  shows "(\<lambda>q. cmap_Get q (upd_shard k (AList.update k v) m)) = (\<lambda>q. cmap_Get q m)(k \<mapsto> v)" (is "?lhs = ?rhs")
proof
  fix q
  show "?lhs q = ?rhs q"
  proof (cases "shard_index m q = shard_index m k")
    case True
    then show ?thesis
      by (simp add: cmap_Get_def GetShard_upd [OF assms] update_conv' same_shard [OF True])
  next
    case False
    then have "q \<noteq> k" by auto
    with False show ?thesis by (simp add: cmap_Get_def GetShard_upd [OF assms])
  qed
qed

lemma cmap_Get_delete:
  assumes "cmap_ok m"
  shows "(\<lambda>q. cmap_Get q (upd_shard k (AList.delete k) m)) = (\<lambda>q. cmap_Get q m)(k := None)" (is "?lhs = ?rhs")
proof
  fix q
  show "?lhs q = ?rhs q"
  proof (cases "shard_index m q = shard_index m k")
    case True
    then show ?thesis
      by (simp add: cmap_Get_def GetShard_upd [OF assms] delete_conv' same_shard [OF True])
  next
    case False
    then have "q \<noteq> k" by auto
    with False show ?thesis by (simp add: cmap_Get_def GetShard_upd [OF assms])
  qed
qed

lemma set_update_cases: "p \<in> set (AList.update k v al) \<Longrightarrow> p \<in> set al \<or> p = (k, v)"
  by (induction al) (auto split: if_splits)

lemma cmap_ok_update: "cmap_ok m \<Longrightarrow> cmap_ok (upd_shard k (AList.update k v) m)"
  using set_update_cases by (intro cmap_ok_upd) (fastforce simp: distinct_update GetShard_distinct)+

lemma cmap_ok_delete: "cmap_ok m \<Longrightarrow> cmap_ok (upd_shard k (AList.delete k) m)"
  by (rule cmap_ok_upd) (simp_all add: distinct_delete GetShard_distinct, auto simp: AList.delete_eq)

interpretation cm: kv_store "\<lambda>m q. cmap_Get q m" cmap_Set cmap_Remove cmap_ok
  by unfold_locales
    (simp_all add: cmap_Set_def cmap_Remove_def cmap_Get_update cmap_Get_delete cmap_ok_update cmap_ok_delete)

section \<open>Operations as steps\<close>

datatype ('k, 'v) cm_op =
  OpSet 'k 'v | OpUpsert 'k 'v "'v option \<Rightarrow> 'v \<Rightarrow> 'v" | OpSetIfAbsent 'k 'v | OpGet 'k | OpHas 'k |
  OpRemove 'k | OpRemoveCb 'k "'k \<Rightarrow> 'v option \<Rightarrow> bool" | OpPop 'k | OpMSet "('k \<times> 'v) list"

datatype 'v cm_result = RUnit | RVal 'v | RBool bool | ROpt "'v option"

fun cm_step :: "('k, 'v) cm_op \<Rightarrow> ('k, 'v) cmap \<Rightarrow> 'v cm_result \<times> ('k, 'v) cmap" where
  "cm_step (OpSet k v) m = (RUnit, cmap_Set k v m)"
| "cm_step (OpUpsert k v cb) m = (case cmap_Upsert k v cb m of (r, m') \<Rightarrow> (RVal r, m'))"
| "cm_step (OpSetIfAbsent k v) m = (case cmap_SetIfAbsent k v m of (b, m') \<Rightarrow> (RBool b, m'))"
| "cm_step (OpGet k) m = (ROpt (cmap_Get k m), m)"
| "cm_step (OpHas k) m = (RBool (cmap_Has k m), m)"
| "cm_step (OpRemove k) m = (RUnit, cmap_Remove k m)"
| "cm_step (OpRemoveCb k cb) m = (case cmap_RemoveCb k cb m of (b, m') \<Rightarrow> (RBool b, m'))"
| "cm_step (OpPop k) m = (case cmap_Pop k m of (v, m') \<Rightarrow> (ROpt v, m'))"
| "cm_step (OpMSet xs) m = (RUnit, cmap_MSet xs m)"

text \<open>The same operations on one plain map.\<close>

fun map_step :: "('k, 'v) cm_op \<Rightarrow> ('k \<Rightarrow> 'v option) \<Rightarrow> 'v cm_result \<times> ('k \<Rightarrow> 'v option)" where
  "map_step (OpSet k v) f = (RUnit, f(k \<mapsto> v))"
| "map_step (OpUpsert k v cb) f = (RVal (cb (f k) v), f(k \<mapsto> cb (f k) v))"
| "map_step (OpSetIfAbsent k v) f = (RBool (f k = None), if f k = None then f(k \<mapsto> v) else f)"
| "map_step (OpGet k) f = (ROpt (f k), f)"
| "map_step (OpHas k) f = (RBool (f k \<noteq> None), f)"
| "map_step (OpRemove k) f = (RUnit, f(k := None))"
| "map_step (OpRemoveCb k cb) f = (RBool (cb k (f k)), if cb k (f k) then f(k := None) else f)"
| "map_step (OpPop k) f = (ROpt (f k), f(k := None))"
| "map_step (OpMSet xs) f = (RUnit, f ++ map_of (rev xs))"

fun runs :: "('o \<Rightarrow> 's \<Rightarrow> 'r \<times> 's) \<Rightarrow> 'o list \<Rightarrow> 's \<Rightarrow> 'r list \<times> 's" where
  "runs f [] s = ([], s)"
| "runs f (x # xs) s = (case f x s of (r, s') \<Rightarrow> (case runs f xs s' of (rs, s'') \<Rightarrow> (r # rs, s'')))"

lemma cmap_step_refines:
  assumes "cmap_ok m" "cm_step x m = (r, m')"
  shows "map_step x (\<lambda>q. cmap_Get q m) = (r, \<lambda>q. cmap_Get q m')" "cmap_ok m'"
proof -
  have none: "(\<lambda>q. cmap_Get q m)(k := None) = (\<lambda>q. cmap_Get q m)" if "cmap_Get k m = None" for k
    using that by (simp add: fun_eq_iff)
  have g: "map_of (GetShard m k) k = cmap_Get k m" for k by (simp add: cmap_Get_def)
  have "map_step x (\<lambda>q. cmap_Get q m) = (r, \<lambda>q. cmap_Get q m') \<and> cmap_ok m'"
  proof (cases x)
    case (OpRemoveCb k cb)
    with assms none [of k] show ?thesis
      by (cases "cmap_Get k m")
        (auto simp: cmap_RemoveCb_def g Let_def cmap_Get_delete [OF assms(1)] cmap_ok_delete
          simp del: fun_upd_apply)
  next
    case (OpMSet xs)
    with assms cm.insert_all [OF assms(1), of xs] show ?thesis by (auto simp: cmap_MSet_def)
  next
    case (OpSetIfAbsent k v)
    with assms show ?thesis
      by (cases "cmap_Get k m")
        (auto simp: cmap_SetIfAbsent_def g cmap_Get_update [OF assms(1)] cmap_ok_update
          simp del: fun_upd_apply)
  qed (use assms in \<open>auto simp: cm.lookup_insert cm.lookup_remove cm.ok_insert cm.ok_remove
      cmap_Upsert_def cmap_Has_def cmap_Pop_def g Let_def cmap_Get_update cmap_Get_delete
      cmap_ok_update cmap_ok_delete simp del: fun_upd_apply\<close>)
  then show "map_step x (\<lambda>q. cmap_Get q m) = (r, \<lambda>q. cmap_Get q m')" "cmap_ok m'" by blast+
qed

lemma cmap_runs_refine:
  assumes "cmap_ok m" "runs cm_step xs m = (rs, m')"
  shows "runs map_step xs (\<lambda>q. cmap_Get q m) = (rs, \<lambda>q. cmap_Get q m') \<and> cmap_ok m'"
  using assms
proof (induction xs arbitrary: m rs)
  case (Cons x xs)
  obtain r m1 where x: "cm_step x m = (r, m1)" by fastforce
  obtain rs1 m2 where xs: "runs cm_step xs m1 = (rs1, m2)" by fastforce
  note st = cmap_step_refines [OF Cons.prems(1) x]
  from Cons.prems(2) x xs have "rs = r # rs1" "m' = m2" by auto
  with Cons.IH [OF st(2)] xs st(1) show ?case by auto
qed auto

section \<open>Whole-map facts\<close>

text \<open>Lists of shards in which the keys of shard \<open>i\<close> have index \<open>n + i\<close>.\<close>

fun sharded :: "('k \<Rightarrow> nat) \<Rightarrow> nat \<Rightarrow> ('k \<times> 'v) list list \<Rightarrow> bool" where
  "sharded ix n [] = True"
| "sharded ix n (x # ss) =
     (distinct (map fst x) \<and> (\<forall>p\<in>set x. ix (fst p) = n) \<and> sharded ix (Suc n) ss)"

lemma sharded_nth:
  assumes "\<And>i. i < length ss \<Longrightarrow> distinct (map fst (ss ! i))"
    "\<And>i p. i < length ss \<Longrightarrow> p \<in> set (ss ! i) \<Longrightarrow> ix (fst p) = n + i"
  shows "sharded ix n ss"
  using assms
proof (induction ss arbitrary: n)
  case (Cons x ss)
  have "sharded ix (Suc n) ss"
  proof (rule Cons.IH)
    fix i assume i: "i < length ss"
    show "distinct (map fst (ss ! i))" using Cons.prems(1) [of "Suc i"] i by simp
    show "ix (fst p) = Suc n + i" if "p \<in> set (ss ! i)" for p
      using Cons.prems(2) [of "Suc i" p] i that by simp
  qed
  with Cons.prems(1) [of 0] Cons.prems(2) [of 0] show ?case by simp
qed simp

lemma sharded_keys: "sharded ix n ss \<Longrightarrow> p \<in> set (concat ss) \<Longrightarrow> n \<le> ix (fst p)"
proof (induction ss arbitrary: n)
  case (Cons x ss)
  show ?case
  proof (cases "p \<in> set x")
    case False
    with Cons.prems Cons.IH [of "Suc n"] have "Suc n \<le> ix (fst p)" by simp
    then show ?thesis by simp
  qed (use Cons.prems in simp)
qed simp

lemma sharded_distinct: "sharded ix n ss \<Longrightarrow> distinct (map fst (concat ss))"
proof (induction ss arbitrary: n)
  case (Cons x ss)
  then have x: "distinct (map fst x)" "\<forall>p\<in>set x. ix (fst p) = n" "sharded ix (Suc n) ss"
    by simp_all
  have "fst ` set x \<inter> fst ` set (concat ss) = {}"
    using x(2) sharded_keys [OF x(3)] by fastforce
  with x(1) Cons.IH [OF x(3)] show ?case by simp
qed simp

lemma sharded_map_of:
  "sharded ix n ss \<Longrightarrow> map_of (concat ss) q =
     (if n \<le> ix q \<and> ix q < n + length ss then map_of (ss ! (ix q - n)) q else None)"
proof (induction ss arbitrary: n)
  case (Cons x ss)
  then have x: "\<forall>p\<in>set x. ix (fst p) = n" "sharded ix (Suc n) ss" by simp_all
  have out: "map_of x q = None" if "ix q \<noteq> n"
    using x(1) that by (auto simp: map_of_eq_None_iff)
  have "map_of (concat ss) q = None" if "ix q = n"
    using sharded_keys [OF x(2)] that by (fastforce simp: map_of_eq_None_iff)
  with out Cons.IH [OF x(2)] show ?case
    by (auto simp: map_add_def nth_Cons' Suc_le_eq split: option.split)
qed auto

lemma cmap_sharded: "cmap_ok m \<Longrightarrow> sharded (shard_index m) 0 (cm_shards m)"
  by (rule sharded_nth) (simp_all add: cmap_ok_def)

lemma cmap_entries:
  assumes "cmap_ok m"
  shows "distinct (map fst (concat (cm_shards m)))"
    "map_of (concat (cm_shards m)) = (\<lambda>q. cmap_Get q m)"
proof -
  show "distinct (map fst (concat (cm_shards m)))"
    by (rule sharded_distinct [OF cmap_sharded [OF assms]])
  show "map_of (concat (cm_shards m)) = (\<lambda>q. cmap_Get q m)"
    using sharded_map_of [OF cmap_sharded [OF assms]] assms
    by (simp add: fun_eq_iff cmap_Get_def GetShard_def cmap_ok_def)
qed

lemma iteration_entries:
  assumes "cmap_ok m" "is_iteration m xs"
  shows "distinct (map fst xs)" "map_of xs = (\<lambda>q. cmap_Get q m)"
proof -
  have ms: "mset xs = mset (concat (cm_shards m))" using assms(2) by (simp add: is_iteration_def)
  then have "mset (map fst xs) = mset (map fst (concat (cm_shards m)))" by simp
  then show d: "distinct (map fst xs)"
    using cmap_entries(1) [OF assms(1)] mset_eq_imp_distinct_iff by blast
  have "set xs = set (concat (cm_shards m))" using ms by (rule mset_eq_setD)
  then show "map_of xs = (\<lambda>q. cmap_Get q m)"
    using map_of_inject_set [OF d cmap_entries(1) [OF assms(1)]] cmap_entries(2) [OF assms(1)] by simp
qed

lemma cmap_Items_map_of: "distinct (map fst xs) \<Longrightarrow> cmap_Items xs = map_of xs"
proof -
  have f: "foldl (\<lambda>tmp (key, v). tmp(key \<mapsto> v)) f xs = f ++ map_of (rev xs)" for f :: "'a \<Rightarrow> 'b option"
  proof (induction xs arbitrary: f)
    case (Cons x xs)
    then show ?case by (cases x) (simp del: fun_upd_apply)
  qed simp
  assume d: "distinct (map fst xs)"
  then have "distinct (map fst (rev xs))" by (simp add: rev_map [symmetric])
  with d have "map_of (rev xs) = map_of xs"
    using map_of_inject_set [of "rev xs" xs] by simp
  with f [of "\<lambda>_. None"] show ?thesis by (simp add: cmap_Items_def)
qed

lemma cmap_Get_create: "(\<lambda>q. cmap_Get q (cmap_create sharding)) = (\<lambda>_. None)"
  by (simp add: cmap_Get_def GetShard_def, simp add: cmap_create_def)

section \<open>Properties\<close>

text \<open>
  C14: the sharded map is a map. Any sequence of \<^verbatim>\<open>Set\<close>, \<^verbatim>\<open>Upsert\<close>, \<^verbatim>\<open>SetIfAbsent\<close>, \<^verbatim>\<open>Get\<close>, \<^verbatim>\<open>Has\<close>,
  \<^verbatim>\<open>Remove\<close>, \<^verbatim>\<open>RemoveCb\<close>, \<^verbatim>\<open>Pop\<close> and \<^verbatim>\<open>MSet\<close>, from a new map with any sharding function, returns
  the results one plain map would return, and leaves the contents it would leave.
\<close>

theorem cmap_refines_map:
  "case runs cm_step xs (cmap_create sharding) of
     (rs, m) \<Rightarrow> runs map_step xs (\<lambda>_. None) = (rs, \<lambda>q. cmap_Get q m)"
proof -
  obtain rs m where r: "runs cm_step xs (cmap_create sharding) = (rs, m)" by fastforce
  from cmap_runs_refine [OF cmap_ok_create r] show ?thesis
    unfolding r prod.case cmap_Get_create by blast
qed

text \<open>
  C15: the operations over all shards. After any sequence of operations on a new map, whatever the
  order of Go's map iteration: \<^verbatim>\<open>Count\<close> is the number of keys, \<^verbatim>\<open>IsEmpty\<close> says whether there is
  none, \<^verbatim>\<open>Items\<close> is the map itself, \<^verbatim>\<open>Keys\<close> lists each key once, and \<^verbatim>\<open>Clear\<close> leaves no key.
\<close>

theorem cmap_whole:
  assumes "snd (runs cm_step ops (cmap_create sharding)) = m" "is_iteration m xs"
  shows "cmap_Count m = card (dom (\<lambda>q. cmap_Get q m)) \<and>
    (cmap_IsEmpty m \<longleftrightarrow> dom (\<lambda>q. cmap_Get q m) = {}) \<and>
    cmap_Items xs = (\<lambda>q. cmap_Get q m) \<and>
    distinct (cmap_Keys xs) \<and> set (cmap_Keys xs) = dom (\<lambda>q. cmap_Get q m) \<and>
    (\<forall>q. cmap_Get q (cmap_Clear xs m) = None)"
proof -
  obtain rs where "runs cm_step ops (cmap_create sharding) = (rs, m)"
    using assms(1) by (metis prod.collapse)
  then have ok: "cmap_ok m" using cmap_runs_refine [OF cmap_ok_create] by blast
  note it = iteration_entries [OF ok assms(2)]
  have dom: "set (map fst xs) = dom (\<lambda>q. cmap_Get q m)"
    using it(2) by (metis dom_map_of_conv_image_fst list.set_map)
  have "length xs = cmap_Count m"
    using assms(2) mset_eq_length by (fastforce simp: is_iteration_def cmap_Count_def length_concat)
  then have count: "cmap_Count m = card (dom (\<lambda>q. cmap_Get q m))"
    using distinct_card [OF it(1)] dom by simp
  moreover have "finite (dom (\<lambda>q. cmap_Get q m))" using dom by (metis List.finite_set)
  moreover have "cmap_Items xs = (\<lambda>q. cmap_Get q m)"
    using cmap_Items_map_of [OF it(1)] it(2) by simp
  moreover have "cmap_Get q (cmap_Clear xs m) = None" for q
  proof -
    have "(\<lambda>q. cmap_Get q (cmap_Clear xs m)) = (\<lambda>q. cmap_Get q m) |` (- fst ` set xs)"
      using cm.remove_all [OF ok, of xs] by (simp add: cmap_Clear_def)
    also have "\<dots> = (\<lambda>_. None)" using dom by (auto simp: restrict_map_def fun_eq_iff dom_def)
    finally show ?thesis by (rule fun_cong)
  qed
  ultimately show ?thesis
    using it(1) dom by (auto simp: cmap_Keys_def cmap_IsEmpty_def card_eq_0_iff)
qed

theorem cmap_whole_witness:
  "cmap_Count (snd (runs cm_step [OpSet [1] True, OpSet [2] False, OpRemove [1]] NewMap)) =
     card (dom (\<lambda>q. cmap_Get q (snd (runs cm_step [OpSet [1] True, OpSet [2] False, OpRemove [1]] NewMap))))"
proof -
  let ?m = "snd (runs cm_step [OpSet [1] True, OpSet [2] False, OpRemove [1]] NewMap)"
  have "is_iteration ?m (concat (cm_shards ?m))" by (simp add: is_iteration_def)
  from cmap_whole [OF _ this, of "[OpSet [1] True, OpSet [2] False, OpRemove [1]]" fnv32]
  show ?thesis by (simp only: NewMap_def simp_thms)
qed

text \<open>The published values of FNV-1 for the empty string and for ''a''.\<close>

lemma fnv32_vectors: "fnv32 [] = 0x811C9DC5 \<and> fnv32 [97] = 0x050C5D7E"
  by code_simp

end
