(* ===== verification/Go_Strings.thy ===== *)
theory Go_Strings
  imports Main
begin

text \<open>
  The functions of Go's \<^verbatim>\<open>strings\<close> and \<^verbatim>\<open>strconv\<close> packages that the repository calls, on strings as
  lists of characters (a Go string is a list of bytes, and a character is a byte).
\<close>

section \<open>Prefixes, suffixes, search\<close>

definition HasPrefix :: "string \<Rightarrow> string \<Rightarrow> bool" where
  "HasPrefix s p = (take (length p) s = p)"

definition HasSuffix :: "string \<Rightarrow> string \<Rightarrow> bool" where
  "HasSuffix s p = (length p \<le> length s \<and> drop (length s - length p) s = p)"

definition TrimPrefix :: "string \<Rightarrow> string \<Rightarrow> string" where
  "TrimPrefix s p = (if HasPrefix s p then drop (length p) s else s)"

text \<open>The position of the first occurrence.\<close>

fun go_Index :: "string \<Rightarrow> string \<Rightarrow> nat option" where
  "go_Index [] sep = (if sep = [] then Some 0 else None)"
| "go_Index (c # s) sep =
     (if HasPrefix (c # s) sep then Some 0 else map_option Suc (go_Index s sep))"

definition go_Contains :: "string \<Rightarrow> string \<Rightarrow> bool" where
  "go_Contains s sep = (go_Index s sep \<noteq> None)"

lemma HasPrefix_append: "HasPrefix s p \<longleftrightarrow> (\<exists>t. s = p @ t)"
  by (metis HasPrefix_def append_eq_conv_conj append_take_drop_id)

lemma go_Index_Some:
  "go_Index s sep = Some i \<Longrightarrow> i + length sep \<le> length s \<and> take (length sep) (drop i s) = sep"
proof (induction s arbitrary: i)
  case (Cons c s)
  show ?case
  proof (cases "HasPrefix (c # s) sep")
    case True
    with Cons.prems have "i = 0" by simp
    moreover obtain t where "c # s = sep @ t" using True by (auto simp: HasPrefix_append)
    ultimately show ?thesis by (metis add_0 append_eq_conv_conj drop_0 le_add1 length_append)
  next
    case False
    with Cons obtain j where "i = Suc j" "go_Index s sep = Some j" by auto
    with Cons.IH show ?thesis by auto
  qed
qed (auto split: if_splits)

lemma go_Index_char:
  "go_Index s [c] = Some i \<Longrightarrow> c \<notin> set (take i s) \<and> i < length s \<and> s ! i = c"
proof (induction s arbitrary: i)
  case (Cons x s)
  then show ?case by (cases "x = c") (auto simp: HasPrefix_def)
qed simp

lemma go_Index_char_None: "go_Index s [c] = None \<longleftrightarrow> c \<notin> set s"
  by (induction s) (auto simp: HasPrefix_def)

lemma go_Index_char_append: "c \<notin> set s \<Longrightarrow> go_Index (s @ c # t) [c] = Some (length s)"
  by (induction s) (auto simp: HasPrefix_def)

section \<open>Split and Join\<close>

text \<open>\<^verbatim>\<open>strings.Split\<close> for a non-empty separator.\<close>

function go_Split :: "string \<Rightarrow> string \<Rightarrow> string list" where
  "go_Split s sep =
     (if sep = [] then [s]
      else case go_Index s sep of
             None \<Rightarrow> [s]
           | Some i \<Rightarrow> take i s # go_Split (drop (i + length sep) s) sep)"
  by auto
termination
proof (relation "measure (length \<circ> fst)")
  fix s sep :: string and i
  assume "sep \<noteq> []" "go_Index s sep = Some i"
  then show "((drop (i + length sep) s, sep), s, sep) \<in> measure (length \<circ> fst)"
    using go_Index_Some [of s sep i] by (cases sep) auto
qed simp

declare go_Split.simps [simp del]

text \<open>\<^verbatim>\<open>strings.SplitN\<close> for a positive count.\<close>

fun go_SplitN :: "nat \<Rightarrow> string \<Rightarrow> string \<Rightarrow> string list" where
  "go_SplitN 0 s sep = []"
| "go_SplitN (Suc 0) s sep = [s]"
| "go_SplitN (Suc n) s sep =
     (case go_Index s sep of
        None \<Rightarrow> [s]
      | Some i \<Rightarrow> take i s # go_SplitN n (drop (i + length sep) s) sep)"

fun go_Join :: "string list \<Rightarrow> string \<Rightarrow> string" where
  "go_Join [] sep = []"
| "go_Join [x] sep = x"
| "go_Join (x # xs) sep = x @ sep @ go_Join xs sep"

lemma go_Split_nonempty [simp]: "go_Split s sep \<noteq> []"
  by (subst go_Split.simps) (auto split: option.split)

lemma go_Join_Cons: "xs \<noteq> [] \<Longrightarrow> go_Join (x # xs) sep = x @ sep @ go_Join xs sep"
  by (cases xs) simp_all

text \<open>Joining the parts gives the string back, for any separator.\<close>

lemma go_Join_Split: "go_Join (go_Split s sep) sep = s"
proof (induction s sep rule: go_Split.induct)
  case (1 s sep)
  show ?case
  proof (cases "sep = [] \<or> go_Index s sep = None")
    case True
    then show ?thesis by (subst go_Split.simps) auto
  next
    case False
    then obtain i where i: "sep \<noteq> []" "go_Index s sep = Some i" by auto
    note ix = go_Index_Some [OF i(2)]
    have "s = take i s @ take (length sep) (drop i s) @ drop (i + length sep) s"
      by (metis add.commute append_take_drop_id drop_drop)
    with ix have "s = take i s @ sep @ drop (i + length sep) s" by metis
    with 1 i show ?thesis
      by (subst go_Split.simps) (simp add: go_Join_Cons)
  qed
qed

text \<open>Fields without the separating character come back as they were joined.\<close>

lemma go_Split_field: "c \<notin> set x \<Longrightarrow> go_Split x [c] = [x]"
  using go_Index_char_None [of x c] by (subst go_Split.simps) simp

lemma go_Split_Cons: "c \<notin> set x \<Longrightarrow> go_Split (x @ c # t) [c] = x # go_Split t [c]"
  by (subst go_Split.simps) (simp add: go_Index_char_append)

lemma go_Split_Join:
  assumes "xs \<noteq> []" "\<forall>x\<in>set xs. c \<notin> set x"
  shows "go_Split (go_Join xs [c]) [c] = xs"
  using assms
proof (induction xs)
  case (Cons x xs)
  show ?case
  proof (cases "xs = []")
    case True
    with Cons.prems show ?thesis by (simp add: go_Split_field)
  next
    case False
    with Cons show ?thesis by (simp add: go_Join_Cons go_Split_Cons)
  qed
qed simp

lemma go_Split_parts: "x \<in> set (go_Split s [c]) \<Longrightarrow> c \<notin> set x"
proof (induction s "[c]" rule: go_Split.induct)
  case (1 s)
  show ?case
  proof (cases "go_Index s [c]")
    case None
    with "1.prems" show ?thesis
      by (subst (asm) go_Split.simps) (simp add: go_Index_char_None)
  next
    case (Some i)
    with "1.prems" have "x = take i s \<or> x \<in> set (go_Split (drop (Suc i) s) [c])"
      by (subst (asm) go_Split.simps) simp
    with "1.hyps" [OF _ Some] go_Index_char [OF Some] show ?thesis by auto
  qed
qed

section \<open>Replace, fields, trimming\<close>

text \<open>\<^verbatim>\<open>strings.ReplaceAll\<close> (\<^verbatim>\<open>Replace\<close> with a negative count), for a non-empty pattern.\<close>

definition ReplaceAll :: "string \<Rightarrow> string \<Rightarrow> string \<Rightarrow> string" where
  "ReplaceAll s old new = go_Join (go_Split s old) new"

definition is_space :: "char \<Rightarrow> bool" where
  "is_space c = (c \<in> {CHR '' '', CHR 0x09, CHR 0x0A, CHR 0x0B, CHR 0x0C, CHR 0x0D})"

definition TrimSpace :: "string \<Rightarrow> string" where
  "TrimSpace s = rev (dropWhile is_space (rev (dropWhile is_space s)))"

fun fields_aux :: "string \<Rightarrow> string \<Rightarrow> string list" where
  "fields_aux [] cur = (if cur = [] then [] else [cur])"
| "fields_aux (c # s) cur =
     (if is_space c then (if cur = [] then [] else [cur]) @ fields_aux s []
      else fields_aux s (cur @ [c]))"

definition go_Fields :: "string \<Rightarrow> string list" where
  "go_Fields s = fields_aux s []"

section \<open>Numbers\<close>

definition digit_char :: "nat \<Rightarrow> char" where
  "digit_char d = char_of (48 + d)"

fun nat_digits :: "nat \<Rightarrow> string" where
  "nat_digits n = (if n < 10 then [digit_char n] else nat_digits (n div 10) @ [digit_char (n mod 10)])"

declare nat_digits.simps [simp del]

definition Itoa :: "int \<Rightarrow> string" where
  "Itoa n = (if n < 0 then CHR ''-'' # nat_digits (nat (- n)) else nat_digits (nat n))"

definition is_digit :: "char \<Rightarrow> bool" where
  "is_digit c = (48 \<le> (of_char c :: nat) \<and> (of_char c :: nat) \<le> 57)"

definition digit_val :: "char \<Rightarrow> nat" where
  "digit_val c = of_char c - 48"

definition digits_val :: "string \<Rightarrow> nat" where
  "digits_val s = foldl (\<lambda>n c. 10 * n + digit_val c) 0 s"

text \<open>\<^verbatim>\<open>strconv.Atoi\<close>: an optional sign, then decimal digits, within 64 bits.\<close>

definition Atoi :: "string \<Rightarrow> int option" where
  "Atoi s =
     (let neg = HasPrefix s ''-''; d = (if neg \<or> HasPrefix s ''+'' then tl s else s);
          v = (if neg then - int (digits_val d) else int (digits_val d))
      in if d = [] \<or> \<not> list_all is_digit d then None
         else if - (2 ^ 63) \<le> v \<and> v < 2 ^ 63 then Some v else None)"

lemma digit_char_simps:
  assumes "d < 10"
  shows "is_digit (digit_char d)" "digit_val (digit_char d) = d"
  using assms by (simp_all add: is_digit_def digit_val_def digit_char_def)

lemma nat_digits_props:
  "list_all is_digit (nat_digits n) \<and> nat_digits n \<noteq> [] \<and> digits_val (nat_digits n) = n"
proof (induction n rule: nat_digits.induct)
  case (1 n)
  then show ?case
    by (cases "n < 10") (simp_all add: nat_digits.simps [of n] digit_char_simps digits_val_def)
qed

lemma is_digit_no_sign: "is_digit c \<Longrightarrow> c \<noteq> CHR ''-'' \<and> c \<noteq> CHR ''+''"
proof -
  have "\<not> is_digit CHR ''-''" "\<not> is_digit CHR ''+''" by (simp_all add: is_digit_def)
  moreover assume "is_digit c"
  ultimately show ?thesis by metis
qed

lemma Atoi_Itoa:
  assumes "- (2 ^ 63) \<le> n" "n < 2 ^ 63"
  shows "Atoi (Itoa n) = Some n"
proof (cases "n < 0")
  case True
  with assms nat_digits_props [of "nat (- n)"] show ?thesis
    by (simp add: Atoi_def Itoa_def HasPrefix_def Let_def)
next
  case False
  have d: "list_all is_digit (nat_digits (nat n))" "nat_digits (nat n) \<noteq> []"
    "digits_val (nat_digits (nat n)) = nat n" using nat_digits_props by auto
  then obtain c cs where c: "nat_digits (nat n) = c # cs" "is_digit c" by (cases "nat_digits (nat n)") auto
  then have "\<not> HasPrefix (nat_digits (nat n)) ''-''" "\<not> HasPrefix (nat_digits (nat n)) ''+''"
    using is_digit_no_sign [OF c(2)] by (auto simp: HasPrefix_def)
  with False assms d show ?thesis by (simp add: Atoi_def Itoa_def Let_def)
qed

lemma nat_digits_no_char:
  assumes "\<not> is_digit c" shows "c \<notin> set (nat_digits n)"
  using nat_digits_props [of n] assms unfolding list_all_iff by blast

lemma Itoa_inj:
  assumes "- (2 ^ 63) \<le> m" "m < 2 ^ 63" "- (2 ^ 63) \<le> n" "n < 2 ^ 63" "Itoa m = Itoa n"
  shows "m = n"
  using Atoi_Itoa [OF assms(1,2)] Atoi_Itoa [OF assms(3,4)] unfolding assms(5) by (metis option.inject)

end
