(* ===== verification/Relay.thy ===== *)
theory Relay
  imports Concurrent_Map Go_Strings
begin

text \<open>
  The relay of \<^verbatim>\<open>ws/ws_tun.go\<close>: a server in the middle (\<open>SrvServer\<close>), exits that register a slot
  with it (\<open>CliServer\<close>) and entrances that ask for a connection through a slot (\<open>CliClient\<close>). A
  client's WebSocket waits under its serial number until the exit opens a second one with the
  same number; then the two are copied into each other. Every handler of the HTTP server and
  every slot's loop is a goroutine: its position is part of the state and its map operations and
  writes are single steps, so that all interleavings are runs.
\<close>

section \<open>Messages\<close>

definition fields_of :: "string \<Rightarrow> string list" where
  "fields_of msg = go_Split msg '',''"

definition server_server_req :: "string \<Rightarrow> string" where
  "server_server_req slot = ''server-server,'' @ slot"

definition server_data_req :: "string \<Rightarrow> string" where
  "server_data_req ser = ''server-data,'' @ ser"

definition client_data_req :: "string \<Rightarrow> string \<Rightarrow> string \<Rightarrow> string" where
  "client_data_req slot ser target = ''client-data,'' @ slot @ '','' @ ser @ '','' @ target"

definition conn_msg :: "string \<Rightarrow> string \<Rightarrow> string" where
  "conn_msg ser target = ''conn,'' @ ser @ '','' @ target"

definition server_data_to :: "string \<Rightarrow> string \<Rightarrow> string" where
  "server_data_to ser target = ''server-data,'' @ ser @ '','' @ target"

section \<open>The state of the relay\<close>

text \<open>A WebSocket: the request it came with, what was written to it, whether it was closed.\<close>

record wsock =
  wk_req :: "string option"
  wk_out :: "string list"
  wk_closed :: bool

text \<open>
  Where a handler stands: reading the request; having found the slot free; having answered the
  registration; having found a waiting client (then: taken it from the map, answered the exit,
  answered the client); holding a client not yet entered; blocked on a slot's channel; done.
\<close>

datatype handler =
  HRead nat | HFree nat string | HRegister nat string | HFound nat string nat | HTaken nat string nat |
  HTold nat string nat | HPaired nat string nat | HWaiting nat string nat string | HSend nat string | HDone

text \<open>
  Where the loop of a slot stands: in its \<^verbatim>\<open>select\<close>; waiting for the exit's answer to a request or
  to a heart-beat; about to look for, to remove and to close the client it failed to serve (the
  flag: the connection is lost); in its deferred calls; gone.
\<close>

datatype slot_pc =
  SLoop | SAnswer string | SBeat | SLook string bool | SDrop string nat bool | SKill nat bool |
  SExit | SForget | SGone

record slot =
  sl_name :: string
  sl_conn :: nat
  sl_beats :: nat
  sl_pc :: slot_pc

text \<open>A pair being copied: serial number, the exit's and the client's socket, whether it has ended.\<close>

type_synonym copying = "string \<times> nat \<times> nat \<times> bool"

record relay =
  rl_socks :: "wsock list"
  rl_waitWS :: "(string, nat) cmap"
  rl_slots :: "(string, nat) cmap"
  rl_conns :: "(string, nat \<times> nat) cmap"
  rl_slotobjs :: "slot list"
  rl_handlers :: "handler list"
  rl_copies :: "copying list"
  rl_paired :: "(string \<times> nat \<times> nat) list"

text \<open>\<open>rl_paired\<close> records the pairs both of whose ends have been told \<open>res,OK\<close>.\<close>

definition key_hash :: "string \<Rightarrow> u32" where
  "key_hash k = fnv32 (map of_char k)"

definition NewSrvServer :: relay where
  "NewSrvServer =
     \<lparr>rl_socks = [], rl_waitWS = cmap_create key_hash, rl_slots = cmap_create key_hash,
      rl_conns = cmap_create key_hash, rl_slotobjs = [], rl_handlers = [], rl_copies = [],
      rl_paired = []\<rparr>"

definition upd_sock :: "nat \<Rightarrow> (wsock \<Rightarrow> wsock) \<Rightarrow> relay \<Rightarrow> relay" where
  "upd_sock i f s = s\<lparr>rl_socks := (rl_socks s)[i := f (rl_socks s ! i)]\<rparr>"

definition sock_write :: "bool \<Rightarrow> nat \<Rightarrow> string \<Rightarrow> relay \<Rightarrow> relay" where
  "sock_write ok i msg s =
     (if ok then upd_sock i (\<lambda>w. w\<lparr>wk_out := wk_out w @ [msg]\<rparr>) s else s)"

definition sock_close :: "nat \<Rightarrow> relay \<Rightarrow> relay" where
  "sock_close i s = upd_sock i (\<lambda>w. w\<lparr>wk_closed := True\<rparr>) s"

definition set_handler :: "nat \<Rightarrow> handler \<Rightarrow> relay \<Rightarrow> relay" where
  "set_handler h p s = s\<lparr>rl_handlers := (rl_handlers s)[h := p]\<rparr>"

definition upd_slot :: "nat \<Rightarrow> (slot \<Rightarrow> slot) \<Rightarrow> relay \<Rightarrow> relay" where
  "upd_slot i f s = s\<lparr>rl_slotobjs := (rl_slotobjs s)[i := f (rl_slotobjs s ! i)]\<rparr>"

definition slot_goto :: "nat \<Rightarrow> slot_pc \<Rightarrow> relay \<Rightarrow> relay" where
  "slot_goto i pc s = upd_slot i (\<lambda>x. x\<lparr>sl_pc := pc\<rparr>) s"

section \<open>The HTTP handler\<close>

text \<open>
  After \<^verbatim>\<open>ReadMessage\<close>: the request is parsed and the map it needs is looked up; a refusal is
  written (\<open>ok\<close>: the write succeeds; its error is ignored) and the connection closed.
\<close>

definition refuse :: "nat \<Rightarrow> nat \<Rightarrow> bool \<Rightarrow> string \<Rightarrow> relay \<Rightarrow> relay" where
  "refuse h i ok msg s = set_handler h HDone (sock_close i (sock_write ok i msg s))"

definition serve_request :: "nat \<Rightarrow> nat \<Rightarrow> bool \<Rightarrow> string \<Rightarrow> relay \<Rightarrow> relay" where
  "serve_request h i ok msg s =
     (let req = fields_of msg; cmd = req ! 0;
          s = upd_sock i (\<lambda>w. w\<lparr>wk_req := Some msg\<rparr>) s
      in if cmd = ''server-server'' \<and> length req = 2 then
           (case cmap_Get (req ! 1) (rl_slots s) of
              Some _ \<Rightarrow> refuse h i ok ''res,FAIL'' s
            | None \<Rightarrow> set_handler h (HFree i (req ! 1)) s)
         else if cmd = ''server-data'' \<and> length req = 2 then
           (case cmap_Get (req ! 1) (rl_waitWS s) of
              None \<Rightarrow> refuse h i ok ''res,FAIL-1043'' s
            | Some k \<Rightarrow> set_handler h (HFound i (req ! 1) k) s)
         else if cmd = ''client-data'' \<and> length req = 4 then
           (case cmap_Get (req ! 1) (rl_slots s) of
              None \<Rightarrow> refuse h i ok ''res,FAIL-1043'' s
            | Some sl \<Rightarrow> set_handler h (HWaiting i (req ! 2) sl (conn_msg (req ! 2) (req ! 3))) s)
         else set_handler h HDone (sock_close i s))"

text \<open>The steps after that; \<open>ok\<close> is whether the write of the step succeeds.\<close>

definition handler_step :: "nat \<Rightarrow> bool \<Rightarrow> relay \<Rightarrow> relay" where
  "handler_step h ok s =
     (case rl_handlers s ! h of
        HFree i name \<Rightarrow>
          if ok then set_handler h (HRegister i name) (sock_write True i ''res,OK'' s)
          else set_handler h HDone (sock_close i s)
      | HRegister i name \<Rightarrow>
          set_handler h HDone
            (s\<lparr>rl_slots := cmap_Set name (length (rl_slotobjs s)) (rl_slots s),
               rl_slotobjs := rl_slotobjs s @ [\<lparr>sl_name = name, sl_conn = i, sl_beats = 0, sl_pc = SLoop\<rparr>]\<rparr>)
      | HFound i ser k \<Rightarrow>
          set_handler h (HTaken i ser k) (s\<lparr>rl_waitWS := cmap_Remove ser (rl_waitWS s)\<rparr>)
      | HTaken i ser k \<Rightarrow>
          if ok then set_handler h (HTold i ser k) (sock_write True i ''res,OK'' s)
          else set_handler h HDone (sock_close k (sock_close i s))
      | HTold i ser k \<Rightarrow>
          if ok then set_handler h (HPaired i ser k)
            ((sock_write True k ''res,OK'' s)\<lparr>rl_paired := (ser, i, k) # rl_paired s\<rparr>)
          else set_handler h HDone (sock_close k (sock_close i s))
      | HPaired i ser k \<Rightarrow>
          set_handler h HDone
            (s\<lparr>rl_conns := cmap_Set ser (i, k) (rl_conns s), rl_copies := rl_copies s @ [(ser, i, k, False)]\<rparr>)
      | HWaiting i ser sl msg \<Rightarrow>
          set_handler h (HSend sl msg) (s\<lparr>rl_waitWS := cmap_Set ser i (rl_waitWS s)\<rparr>)
      | _ \<Rightarrow> s)"

section \<open>The loop of a slot\<close>

text \<open>A message from the slot's channel; \<open>ok\<close> is whether the request to the exit can be written.\<close>

definition slot_message :: "nat \<Rightarrow> bool \<Rightarrow> string \<Rightarrow> relay \<Rightarrow> relay" where
  "slot_message sl ok msg s =
     (let q = fields_of msg; sb = rl_slotobjs s ! sl
      in if msg = ''quit'' then slot_goto sl SExit s
         else if q ! 0 \<noteq> ''conn'' \<or> length q \<noteq> 3 then s
         else if ok then
           slot_goto sl (SAnswer (q ! 1)) (sock_write True (sl_conn sb) (server_data_to (q ! 1) (q ! 2)) s)
         else slot_goto sl (SLook (q ! 1) True) s)"

text \<open>Its answer; none when the connection failed.\<close>

definition slot_answer :: "nat \<Rightarrow> string \<Rightarrow> string option \<Rightarrow> relay \<Rightarrow> relay" where
  "slot_answer sl ser res s =
     (if res = Some ''res,OK'' then upd_slot sl (\<lambda>x. x\<lparr>sl_beats := 0, sl_pc := SLoop\<rparr>) s
      else slot_goto sl (SLook ser (res = None)) s)"

text \<open>The answer to a heart-beat: whether the loop goes on, and the count of bad answers.\<close>

definition beat :: "string option \<Rightarrow> nat \<Rightarrow> bool \<times> nat" where
  "beat res counter =
     (case res of
        None \<Rightarrow> (False, counter)
      | Some r \<Rightarrow>
          if r \<noteq> ''res,OK'' then (\<not> counter + 1 > 2, counter + 1) else (True, 0))"

definition slot_beat :: "nat \<Rightarrow> string option \<Rightarrow> relay \<Rightarrow> relay" where
  "slot_beat sl res s =
     (let (running, n) = beat res (sl_beats (rl_slotobjs s ! sl))
      in upd_slot sl (\<lambda>x. x\<lparr>sl_beats := n, sl_pc := (if running then SLoop else SExit)\<rparr>) s)"

definition slot_step :: "nat \<Rightarrow> relay \<Rightarrow> relay" where
  "slot_step sl s =
     (let sb = rl_slotobjs s ! sl
      in case sl_pc sb of
           SLook ser lost \<Rightarrow>
             (case cmap_Get ser (rl_waitWS s) of
                Some k \<Rightarrow> slot_goto sl (SDrop ser k lost) s
              | None \<Rightarrow> slot_goto sl (if lost then SExit else SLoop) s)
         | SDrop ser k lost \<Rightarrow> slot_goto sl (SKill k lost) (s\<lparr>rl_waitWS := cmap_Remove ser (rl_waitWS s)\<rparr>)
         | SKill k lost \<Rightarrow> slot_goto sl (if lost then SExit else SLoop) (sock_close k s)
         | SExit \<Rightarrow> slot_goto sl SForget (sock_close (sl_conn sb) s)
         | SForget \<Rightarrow> slot_goto sl SGone (s\<lparr>rl_slots := cmap_Remove (sl_name sb) (rl_slots s)\<rparr>)
         | _ \<Rightarrow> s)"

text \<open>\<^verbatim>\<open>connCopy\<close>: when either direction ends, both ends are closed and the serial number forgotten, once.\<close>

definition copy_end :: "nat \<Rightarrow> relay \<Rightarrow> relay" where
  "copy_end c s =
     (case rl_copies s ! c of
        (ser, i, k, ended) \<Rightarrow>
          if ended then s
          else (sock_close k (sock_close i s))
            \<lparr>rl_conns := cmap_Remove ser (rl_conns s), rl_copies := (rl_copies s)[c := (ser, i, k, True)]\<rparr>)"

section \<open>The relay as a system\<close>

text \<open>
  A connection comes in; its request arrives (or fails to); a handler goes on; a slot's loop
  receives from a handler blocked on its channel; an answer arrives; ten idle seconds pass; a loop
  goes on; a copying ends.
\<close>

datatype relay_event =
  RvConnect | RvRequest nat bool "string option" | RvHandler nat bool | RvSlotMsg nat bool nat |
  RvAnswer nat "string option" | RvIdle nat bool | RvSlot nat | RvCopyEnd nat

definition relay_step :: "relay \<Rightarrow> relay_event \<Rightarrow> relay" where
  "relay_step s ev =
     (case ev of
        RvConnect \<Rightarrow>
          s\<lparr>rl_socks := rl_socks s @ [\<lparr>wk_req = None, wk_out = [], wk_closed = False\<rparr>],
            rl_handlers := rl_handlers s @ [HRead (length (rl_socks s))]\<rparr>
      | RvRequest h ok m \<Rightarrow>
          if h < length (rl_handlers s) then
            (case rl_handlers s ! h of
               HRead i \<Rightarrow> (case m of None \<Rightarrow> set_handler h HDone (sock_close i s)
                           | Some msg \<Rightarrow> serve_request h i ok msg s)
             | _ \<Rightarrow> s)
          else s
      | RvHandler h ok \<Rightarrow> if h < length (rl_handlers s) then handler_step h ok s else s
      | RvSlotMsg sl ok h \<Rightarrow>
          if sl < length (rl_slotobjs s) \<and> sl_pc (rl_slotobjs s ! sl) = SLoop \<and> h < length (rl_handlers s) then
            (case rl_handlers s ! h of
               HSend sl' msg \<Rightarrow>
                 if sl' = sl then set_handler h HDone (slot_message sl ok msg s) else s
             | _ \<Rightarrow> s)
          else s
      | RvAnswer sl res \<Rightarrow>
          if sl < length (rl_slotobjs s) then
            (case sl_pc (rl_slotobjs s ! sl) of
               SAnswer ser \<Rightarrow> slot_answer sl ser res s
             | SBeat \<Rightarrow> slot_beat sl res s
             | _ \<Rightarrow> s)
          else s
      | RvIdle sl ok \<Rightarrow>
          if sl < length (rl_slotobjs s) \<and> sl_pc (rl_slotobjs s ! sl) = SLoop then
            (if ok then slot_goto sl SBeat (sock_write True (sl_conn (rl_slotobjs s ! sl)) ''heart-beat'' s)
             else slot_beat sl None s)
          else s
      | RvSlot sl \<Rightarrow> if sl < length (rl_slotobjs s) then slot_step sl s else s
      | RvCopyEnd c \<Rightarrow> if c < length (rl_copies s) then copy_end c s else s)"

section \<open>Who asked for what\<close>

definition reqs :: "relay \<Rightarrow> string option list" where
  "reqs s = map wk_req (rl_socks s)"

definition asked :: "string option list \<Rightarrow> nat \<Rightarrow> string list \<Rightarrow> bool" where
  "asked R i fs \<longleftrightarrow> i < length R \<and> (\<exists>msg. R ! i = Some msg \<and> fields_of msg = fs)"

definition is_client :: "string option list \<Rightarrow> nat \<Rightarrow> string \<Rightarrow> bool" where
  "is_client R k ser \<longleftrightarrow> (\<exists>sl target. asked R k [''client-data'', sl, ser, target])"

definition is_server :: "string option list \<Rightarrow> nat \<Rightarrow> string \<Rightarrow> bool" where
  "is_server R i ser \<longleftrightarrow> asked R i [''server-data'', ser]"

text \<open>A request, once made, stays.\<close>

definition extends :: "string option list \<Rightarrow> string option list \<Rightarrow> bool" where
  "extends R R' \<longleftrightarrow> length R \<le> length R' \<and> (\<forall>i<length R. R ! i \<noteq> None \<longrightarrow> R' ! i = R ! i)"

lemma asked_extends: "extends R R' \<Longrightarrow> asked R i fs \<Longrightarrow> asked R' i fs"
  unfolding extends_def asked_def by (metis less_le_trans option.distinct(1))

lemma client_extends: "extends R R' \<Longrightarrow> is_client R k ser \<Longrightarrow> is_client R' k ser"
  unfolding is_client_def using asked_extends by blast

lemma server_extends: "extends R R' \<Longrightarrow> is_server R k ser \<Longrightarrow> is_server R' k ser"
  unfolding is_server_def using asked_extends by blast

lemma extends_refl [simp]: "extends R R"
  by (simp add: extends_def)

lemma extends_snoc: "extends R (R @ [x])"
  by (simp add: extends_def nth_append)

lemma extends_upd: "R ! h = None \<Longrightarrow> extends R (R[h := x])"
proof -
  assume n: "R ! h = None"
  have "R[h := x] ! i = R ! i" if "i < length R" "R ! i \<noteq> None" for i
    using n that by (cases "i = h") auto
  then show ?thesis by (simp add: extends_def)
qed

definition handler_ok :: "string option list \<Rightarrow> nat \<Rightarrow> handler \<Rightarrow> bool" where
  "handler_ok R h p \<longleftrightarrow>
     (case p of
        HRead i \<Rightarrow> i = h \<and> R ! h = None
      | HFree i name \<Rightarrow> asked R i [''server-server'', name]
      | HRegister i name \<Rightarrow> asked R i [''server-server'', name]
      | HFound i ser k \<Rightarrow> is_server R i ser \<and> is_client R k ser
      | HTaken i ser k \<Rightarrow> is_server R i ser \<and> is_client R k ser
      | HTold i ser k \<Rightarrow> is_server R i ser \<and> is_client R k ser
      | HPaired i ser k \<Rightarrow> is_server R i ser \<and> is_client R k ser
      | HWaiting i ser sl msg \<Rightarrow> is_client R i ser
      | _ \<Rightarrow> True)"

definition waits_ok :: "relay \<Rightarrow> bool" where
  "waits_ok s \<longleftrightarrow>
     cmap_ok (rl_waitWS s) \<and> cmap_ok (rl_slots s) \<and> cmap_ok (rl_conns s) \<and>
     (\<forall>ser k. cmap_Get ser (rl_waitWS s) = Some k \<longrightarrow> is_client (reqs s) k ser) \<and>
     (\<forall>ser i k. cmap_Get ser (rl_conns s) = Some (i, k) \<longrightarrow> is_server (reqs s) i ser \<and> is_client (reqs s) k ser)"

definition handlers_ok :: "relay \<Rightarrow> bool" where
  "handlers_ok s \<longleftrightarrow>
     length (rl_handlers s) = length (rl_socks s) \<and>
     (\<forall>h<length (rl_handlers s). handler_ok (reqs s) h (rl_handlers s ! h))"

text \<open>A client is told \<open>res,OK\<close> when it is paired, and only then.\<close>

definition paired_ok :: "relay \<Rightarrow> bool" where
  "paired_ok s \<longleftrightarrow>
     (\<forall>p\<in>set (rl_paired s). case p of (ser, i, k) \<Rightarrow>
        is_server (reqs s) i ser \<and> is_client (reqs s) k ser \<and> ''res,OK'' \<in> set (wk_out (rl_socks s ! k))) \<and>
     (\<forall>k ser. is_client (reqs s) k ser \<and> ''res,OK'' \<in> set (wk_out (rl_socks s ! k)) \<longrightarrow>
        (\<exists>i. (ser, i, k) \<in> set (rl_paired s))) \<and>
     (\<forall>k<length (rl_socks s). wk_req (rl_socks s ! k) = None \<longrightarrow> wk_out (rl_socks s ! k) = [])"

definition slots_ok :: "relay \<Rightarrow> bool" where
  "slots_ok s \<longleftrightarrow>
     (\<forall>x\<in>set (rl_slotobjs s). asked (reqs s) (sl_conn x) [''server-server'', sl_name x])"

definition relay_inv :: "relay \<Rightarrow> bool" where
  "relay_inv s \<longleftrightarrow> waits_ok s \<and> handlers_ok s \<and> paired_ok s \<and> slots_ok s"

section \<open>What the small operations leave alone\<close>

lemma upd_sock_fields [simp]:
  "rl_waitWS (upd_sock i f s) = rl_waitWS s" "rl_slots (upd_sock i f s) = rl_slots s"
  "rl_conns (upd_sock i f s) = rl_conns s" "rl_handlers (upd_sock i f s) = rl_handlers s"
  "rl_slotobjs (upd_sock i f s) = rl_slotobjs s" "rl_paired (upd_sock i f s) = rl_paired s"
  "rl_copies (upd_sock i f s) = rl_copies s"
  "length (rl_socks (upd_sock i f s)) = length (rl_socks s)"
  by (simp_all add: upd_sock_def)

lemma sock_write_fields [simp]:
  "rl_waitWS (sock_write ok i m s) = rl_waitWS s" "rl_slots (sock_write ok i m s) = rl_slots s"
  "rl_conns (sock_write ok i m s) = rl_conns s" "rl_handlers (sock_write ok i m s) = rl_handlers s"
  "rl_slotobjs (sock_write ok i m s) = rl_slotobjs s" "rl_paired (sock_write ok i m s) = rl_paired s"
  "rl_copies (sock_write ok i m s) = rl_copies s"
  "length (rl_socks (sock_write ok i m s)) = length (rl_socks s)"
  by (simp_all add: sock_write_def)

lemma sock_close_fields [simp]:
  "rl_waitWS (sock_close i s) = rl_waitWS s" "rl_slots (sock_close i s) = rl_slots s"
  "rl_conns (sock_close i s) = rl_conns s" "rl_handlers (sock_close i s) = rl_handlers s"
  "rl_slotobjs (sock_close i s) = rl_slotobjs s" "rl_paired (sock_close i s) = rl_paired s"
  "rl_copies (sock_close i s) = rl_copies s"
  "length (rl_socks (sock_close i s)) = length (rl_socks s)"
  by (simp_all add: sock_close_def)

lemma set_handler_fields [simp]:
  "rl_waitWS (set_handler h p s) = rl_waitWS s" "rl_slots (set_handler h p s) = rl_slots s"
  "rl_conns (set_handler h p s) = rl_conns s" "rl_socks (set_handler h p s) = rl_socks s"
  "rl_slotobjs (set_handler h p s) = rl_slotobjs s" "rl_paired (set_handler h p s) = rl_paired s"
  "rl_copies (set_handler h p s) = rl_copies s"
  by (simp_all add: set_handler_def)

lemma upd_slot_fields [simp]:
  "rl_waitWS (upd_slot i f s) = rl_waitWS s" "rl_slots (upd_slot i f s) = rl_slots s"
  "rl_conns (upd_slot i f s) = rl_conns s" "rl_socks (upd_slot i f s) = rl_socks s"
  "rl_handlers (upd_slot i f s) = rl_handlers s" "rl_paired (upd_slot i f s) = rl_paired s"
  "rl_copies (upd_slot i f s) = rl_copies s"
  by (simp_all add: upd_slot_def)

lemma reqs_upd_same:
  assumes "\<And>w. wk_req (f w) = wk_req w" shows "reqs (upd_sock i f s) = reqs s"
proof (cases "i < length (rl_socks s)")
  case True
  then show ?thesis
    by (simp add: reqs_def upd_sock_def map_update assms list_update_same_conv)
next
  case False
  then have "(rl_socks s)[i := f (rl_socks s ! i)] = rl_socks s" by (intro list_update_beyond) simp
  then show ?thesis by (simp add: reqs_def upd_sock_def)
qed

lemma reqs_simps [simp]:
  "reqs (sock_write ok i m s) = reqs s" "reqs (sock_close i s) = reqs s"
  "reqs (set_handler h p s) = reqs s" "reqs (upd_slot j f s) = reqs s"
  using reqs_upd_same [of "\<lambda>w. w\<lparr>wk_out := wk_out w @ [m]\<rparr>" i s]
    reqs_upd_same [of "\<lambda>w. w\<lparr>wk_closed := True\<rparr>" i s]
  by (simp_all add: sock_write_def sock_close_def, simp_all add: reqs_def)

section \<open>The invariant is kept\<close>

lemma waits_transfer:
  assumes "waits_ok s" "rl_waitWS s' = rl_waitWS s" "rl_slots s' = rl_slots s"
    "rl_conns s' = rl_conns s" "extends (reqs s) (reqs s')"
  shows "waits_ok s'"
  using assms client_extends [OF assms(5)] server_extends [OF assms(5)]
  unfolding waits_ok_def by auto

lemma handlers_set:
  assumes "handlers_ok s" "rl_handlers s' = rl_handlers s" "length (rl_socks s') = length (rl_socks s)"
    "reqs s' = reqs s" "handler_ok (reqs s) h p"
  shows "handlers_ok (set_handler h p s')"
proof -
  have "handler_ok (reqs s) j ((rl_handlers s)[h := p] ! j)" if "j < length (rl_handlers s)" for j
    using assms(1,5) that by (cases "j = h") (simp_all add: handlers_ok_def)
  with assms(1-4) show ?thesis by (simp add: handlers_ok_def, simp add: set_handler_def)
qed

lemma handlers_same:
  assumes "handlers_ok s" "rl_handlers s' = rl_handlers s" "length (rl_socks s') = length (rl_socks s)"
    "reqs s' = reqs s"
  shows "handlers_ok s'"
  using assms by (simp add: handlers_ok_def)

lemma slots_same: "slots_ok s \<Longrightarrow> rl_slotobjs s' = rl_slotobjs s \<Longrightarrow> extends (reqs s) (reqs s') \<Longrightarrow> slots_ok s'"
  using asked_extends by (auto simp: slots_ok_def)

lemma reqs_nth: "i < length (rl_socks s) \<Longrightarrow> reqs s ! i = wk_req (rl_socks s ! i)"
  by (simp add: reqs_def)

lemma length_reqs [simp]: "length (reqs s) = length (rl_socks s)"
  by (simp add: reqs_def)

lemma paired_same:
  assumes "paired_ok s" "reqs s' = reqs s" "rl_paired s' = rl_paired s"
    "\<And>j. j < length (rl_socks s) \<Longrightarrow> wk_out (rl_socks s' ! j) = wk_out (rl_socks s ! j)"
  shows "paired_ok s'"
proof -
  have len: "length (rl_socks s') = length (rl_socks s)" using arg_cong [OF assms(2), of length] by simp
  have cl: "k < length (rl_socks s)" if "is_client (reqs s) k ser" for k ser
    using that by (auto simp: is_client_def asked_def)
  have req: "wk_req (rl_socks s' ! k) = wk_req (rl_socks s ! k)" if "k < length (rl_socks s)" for k
    using reqs_nth [of k s] reqs_nth [of k s'] that len assms(2) by simp
  show ?thesis
    using assms(1) cl req unfolding paired_ok_def assms(2,3) len
    by (auto simp: assms(4) split: prod.splits) (metis assms(4))+
qed

lemma nth_upd_sock:
  "wk_out (rl_socks (upd_sock i f s) ! j) =
     (if j = i \<and> i < length (rl_socks s) then wk_out (f (rl_socks s ! i)) else wk_out (rl_socks s ! j))"
  by (cases "i < length (rl_socks s)") (auto simp: upd_sock_def nth_list_update not_less list_update_beyond)

lemma paired_close: "paired_ok s \<Longrightarrow> paired_ok (sock_close i s)"
  by (erule paired_same) (simp_all, simp add: sock_close_def nth_upd_sock)

lemma paired_handler [simp]: "paired_ok (set_handler h p s) = paired_ok s"
  by (simp add: paired_ok_def)

lemma paired_slot [simp]: "paired_ok (upd_slot h f s) = paired_ok s"
  by (simp add: paired_ok_def)

text \<open>A write to a socket that has asked something, and is no client or is not told \<open>res,OK\<close>.\<close>

lemma paired_write:
  assumes "paired_ok s" "asked (reqs s) i fs"
    "m \<noteq> ''res,OK'' \<or> (\<forall>ser. \<not> is_client (reqs s) i ser)"
  shows "paired_ok (sock_write ok i m s)"
proof (cases ok)
  case True
  have i: "i < length (rl_socks s)" "wk_req (rl_socks s ! i) \<noteq> None"
    using assms(2) reqs_nth by (auto simp: asked_def)
  have out: "wk_out (rl_socks (sock_write ok i m s) ! j) =
      (if j = i then wk_out (rl_socks s ! i) @ [m] else wk_out (rl_socks s ! j))" for j
    using i True by (simp add: sock_write_def nth_upd_sock)
  have req: "wk_req (rl_socks (sock_write ok i m s) ! j) = wk_req (rl_socks s ! j)" if "j < length (rl_socks s)" for j
    using reqs_nth [of j s] reqs_nth [of j "sock_write ok i m s"] that by simp
  show ?thesis
    using assms(1,3) i req unfolding paired_ok_def reqs_simps sock_write_fields out
    by (fastforce split: prod.splits if_splits)
next
  case False
  with assms(1) show ?thesis by (simp add: sock_write_def)
qed

text \<open>The invariant while handler \<open>h\<close> is between two positions.\<close>

definition relay_but :: "nat \<Rightarrow> relay \<Rightarrow> bool" where
  "relay_but h s \<longleftrightarrow>
     waits_ok s \<and> paired_ok s \<and> slots_ok s \<and> length (rl_handlers s) = length (rl_socks s) \<and>
     (\<forall>j<length (rl_handlers s). j \<noteq> h \<longrightarrow> handler_ok (reqs s) j (rl_handlers s ! j))"

lemma relay_but_start: "relay_inv s \<Longrightarrow> relay_but h s"
  by (simp add: relay_inv_def relay_but_def handlers_ok_def)

lemma relay_but_write:
  assumes "relay_but h s" "asked (reqs s) i fs"
    "m \<noteq> ''res,OK'' \<or> (\<forall>ser. \<not> is_client (reqs s) i ser)"
  shows "relay_but h (sock_write ok i m s)"
  using assms paired_write [OF _ assms(2,3)]
  by (auto simp: relay_but_def intro: waits_transfer slots_same)

lemma relay_but_close: "relay_but h s \<Longrightarrow> relay_but h (sock_close i s)"
  using paired_close by (auto simp: relay_but_def intro: waits_transfer slots_same)

lemma relay_but_done:
  assumes "relay_but h s" "handler_ok (reqs s) h p"
  shows "relay_inv (set_handler h p s)"
proof -
  have "handler_ok (reqs s) j ((rl_handlers s)[h := p] ! j)" if "j < length (rl_handlers s)" for j
    using assms that by (cases "j = h") (simp_all add: relay_but_def)
  with assms(1) have "handlers_ok (set_handler h p s)"
    by (simp add: handlers_ok_def relay_but_def, simp add: set_handler_def)
  moreover have "waits_ok (set_handler h p s)" "slots_ok (set_handler h p s)"
    using assms(1) by (auto simp: relay_but_def intro: waits_transfer slots_same)
  ultimately show ?thesis using assms(1) by (simp add: relay_inv_def relay_but_def)
qed

lemma handler_done [simp]: "handler_ok R h HDone" "handler_ok R h (HSend sl msg)"
  by (simp_all add: handler_ok_def)

lemma asked_unique: "asked R i fs \<Longrightarrow> asked R i gs \<Longrightarrow> fs = gs"
  by (auto simp: asked_def)

lemma server_no_client:
  "is_server R i ser \<Longrightarrow> \<not> is_client R i ser'" "asked R i [''server-server'', name] \<Longrightarrow> \<not> is_client R i ser'"
  unfolding is_server_def is_client_def by (auto dest: asked_unique)

text \<open>Reading the request.\<close>

lemma relay_request_start:
  assumes "relay_inv s" "h < length (rl_handlers s)" "rl_handlers s ! h = HRead i"
    and s0_def: "s0 = upd_sock i (\<lambda>w. w\<lparr>wk_req := Some msg\<rparr>) s"
  shows "relay_but h s0" "asked (reqs s0) i (fields_of msg)" "i = h" "wk_out (rl_socks s0 ! i) = []"
proof -
  have h: "handler_ok (reqs s) h (HRead i)" "length (rl_handlers s) = length (rl_socks s)"
    using assms(1-3) by (auto simp: relay_inv_def handlers_ok_def)
  then show ih: "i = h" by (simp add: handler_ok_def)
  have i: "i < length (rl_socks s)" "reqs s ! i = None" using h assms(2) ih by (simp_all add: handler_ok_def)
  have R: "reqs s0 = (reqs s)[i := Some msg]" by (simp add: s0_def upd_sock_def reqs_def map_update)
  have ex: "extends (reqs s) (reqs s0)" unfolding R by (rule extends_upd [OF i(2)])
  show "asked (reqs s0) i (fields_of msg)" using i(1) by (simp add: R asked_def)
  have out: "wk_out (rl_socks s0 ! j) = wk_out (rl_socks s ! j)" for j
    by (simp add: s0_def nth_upd_sock)
  have out0: "wk_out (rl_socks s ! i) = []"
    using assms(1) i reqs_nth [OF i(1)] by (simp add: relay_inv_def paired_ok_def)
  with out show "wk_out (rl_socks s0 ! i) = []" by simp
  have cl: "is_client (reqs s) k ser" if "is_client (reqs s0) k ser" "k \<noteq> i" for k ser
    using that by (auto simp: is_client_def asked_def R)
  have rq: "wk_req (rl_socks s0 ! k) = None \<Longrightarrow> wk_req (rl_socks s ! k) = None" if "k < length (rl_socks s)" for k
  proof -
    have "reqs s0 ! k = wk_req (rl_socks s0 ! k)" using that by (intro reqs_nth) (simp add: s0_def)
    with R reqs_nth [of k s] that i show "wk_req (rl_socks s0 ! k) = None \<Longrightarrow> wk_req (rl_socks s ! k) = None"
      by (cases "k = i") auto
  qed
  have "paired_ok s0"
    using assms(1) cl rq out0 client_extends [OF ex] server_extends [OF ex]
    unfolding relay_inv_def paired_ok_def out
    by (fastforce simp: s0_def split: prod.splits)
  moreover have "waits_ok s0" "slots_ok s0"
    using assms(1) ex by (auto simp: relay_inv_def s0_def intro: waits_transfer slots_same)
  moreover have "handler_ok (reqs s0) j p" if "handler_ok (reqs s) j p" "j \<noteq> h" for j p
    using that ih client_extends [OF ex] server_extends [OF ex] asked_extends [OF ex]
    by (auto simp: handler_ok_def R split: handler.splits)
  ultimately show "relay_but h s0"
    using assms(1) by (auto simp: relay_but_def relay_inv_def handlers_ok_def, auto simp: s0_def)
qed

lemma refuse_inv:
  assumes "relay_but h s" "asked (reqs s) i fs" "m \<noteq> ''res,OK''"
  shows "relay_inv (refuse h i ok m s)"
  unfolding refuse_def using assms by (intro relay_but_done relay_but_close relay_but_write) auto

lemma serve_request_inv:
  assumes "relay_inv s" "h < length (rl_handlers s)" "rl_handlers s ! h = HRead i"
  shows "relay_inv (serve_request h i ok msg s)"
proof -
  define s0 where "s0 = upd_sock i (\<lambda>w. w\<lparr>wk_req := Some msg\<rparr>) s"
  define F where "F = fields_of msg"
  note st = relay_request_start [OF assms s0_def, folded F_def]
  have w: "waits_ok s0" using st(1) by (simp add: relay_but_def)
  note fail = refuse_inv [OF st(1,2)]
  have close: "relay_inv (set_handler h HDone (sock_close i s0))"
    using st by (intro relay_but_done relay_but_close) auto
  have two: "F = [F ! 0, F ! 1]" if "length F = 2"
    using that by (auto simp: length_Suc_conv eval_nat_numeral)
  have four: "F = [F ! 0, F ! 1, F ! 2, F ! 3]" if "length F = 4"
    using that by (auto simp: length_Suc_conv eval_nat_numeral)
  have free: "relay_inv (set_handler h (HFree i (F ! 1)) s0)"
    if "F ! 0 = ''server-server''" "length F = 2"
    using st two that by (intro relay_but_done) (auto simp: handler_ok_def)
  have found: "relay_inv (set_handler h (HFound i (F ! 1) k) s0)"
    if "F ! 0 = ''server-data''" "length F = 2" "cmap_Get (F ! 1) (rl_waitWS s0) = Some k" for k
    using st two that w by (intro relay_but_done) (auto simp: handler_ok_def is_server_def waits_ok_def)
  have wait: "relay_inv (set_handler h (HWaiting i (F ! 2) sl m) s0)"
    if "F ! 0 = ''client-data''" "length F = 4" for sl m
  proof (rule relay_but_done [OF st(1)])
    show "handler_ok (reqs s0) h (HWaiting i (F ! 2) sl m)"
      using four [OF that(2)] that(1) st(2) unfolding handler_ok_def is_client_def handler.case by metis
  qed
  show ?thesis
    unfolding serve_request_def Let_def s0_def [symmetric] F_def [symmetric]
    using fail close free found wait by (auto split: option.splits)
qed

end
