(* ===== verification/Relay_Props.thy ===== *)
theory Relay_Props
  imports Relay
begin

text \<open>
  The relay's invariant is kept by every step, so by every interleaving; what follows from it, and
  the races that concrete interleavings show.
\<close>

section \<open>Every step keeps the invariant\<close>

lemma cmap_facts:
  "cmap_ok m \<Longrightarrow> cmap_ok (cmap_Set k v m)" "cmap_ok m \<Longrightarrow> cmap_ok (cmap_Remove k m)"
  "cmap_ok m \<Longrightarrow> cmap_Get q (cmap_Set k v m) = (if q = k then Some v else cmap_Get q m)"
  "cmap_ok m \<Longrightarrow> cmap_Get q (cmap_Remove k m) = (if q = k then None else cmap_Get q m)"
  using fun_cong [OF cmap_Get_update [of m k v], of q] fun_cong [OF cmap_Get_delete [of m k], of q]
  by (auto simp: cmap_Set_def cmap_Remove_def cmap_ok_update cmap_ok_delete)

lemma reqs_cong: "rl_socks s' = rl_socks s \<Longrightarrow> reqs s' = reqs s"
  by (simp add: reqs_def)

text \<open>Updates of the maps, of the slots and of the list of copies touch no socket and no handler.\<close>

lemma relay_but_maps:
  assumes "relay_but h s" "rl_socks s' = rl_socks s" "rl_handlers s' = rl_handlers s"
    "rl_paired s' = rl_paired s" "waits_ok s'" "slots_ok s'"
  shows "relay_but h s'"
proof -
  have "reqs s' = reqs s" using assms(2) by (rule reqs_cong)
  with assms show ?thesis unfolding relay_but_def paired_ok_def by simp
qed

lemma relay_inv_maps:
  assumes "relay_inv s" "rl_socks s' = rl_socks s" "rl_handlers s' = rl_handlers s"
    "rl_paired s' = rl_paired s" "waits_ok s'" "slots_ok s'"
  shows "relay_inv s'"
proof -
  have "reqs s' = reqs s" using assms(2) by (rule reqs_cong)
  with assms show ?thesis unfolding relay_inv_def paired_ok_def handlers_ok_def by simp
qed

lemma waits_maps:
  assumes "waits_ok s" "rl_socks s' = rl_socks s"
    "rl_waitWS s' = rl_waitWS s \<or> (\<exists>k. rl_waitWS s' = cmap_Remove k (rl_waitWS s)) \<or>
       (\<exists>ser k. rl_waitWS s' = cmap_Set ser k (rl_waitWS s) \<and> is_client (reqs s) k ser)"
    "rl_slots s' = rl_slots s \<or> (\<exists>k. rl_slots s' = cmap_Remove k (rl_slots s)) \<or>
       (\<exists>n k. rl_slots s' = cmap_Set n k (rl_slots s))"
    "rl_conns s' = rl_conns s \<or> (\<exists>k. rl_conns s' = cmap_Remove k (rl_conns s)) \<or>
       (\<exists>ser i k. rl_conns s' = cmap_Set ser (i, k) (rl_conns s) \<and> is_server (reqs s) i ser \<and> is_client (reqs s) k ser)"
  shows "waits_ok s'"
proof -
  have R: "reqs s' = reqs s" using assms(2) by (rule reqs_cong)
  have "cmap_ok (rl_waitWS s') \<and> (\<forall>ser k. cmap_Get ser (rl_waitWS s') = Some k \<longrightarrow> is_client (reqs s) k ser)"
    using assms(1,3) by (auto simp: waits_ok_def cmap_facts split: if_splits)
  moreover have "cmap_ok (rl_slots s')"
    using assms(1,4) by (auto simp: waits_ok_def cmap_facts)
  moreover have "cmap_ok (rl_conns s') \<and>
      (\<forall>ser i k. cmap_Get ser (rl_conns s') = Some (i, k) \<longrightarrow> is_server (reqs s) i ser \<and> is_client (reqs s) k ser)"
    using assms(1,5) by (auto simp: waits_ok_def cmap_facts split: if_splits)
  ultimately show ?thesis by (simp add: waits_ok_def R)
qed

lemma slots_add:
  assumes "slots_ok s" "asked (reqs s) i [''server-server'', name]" "rl_socks s' = rl_socks s"
    "rl_slotobjs s' = rl_slotobjs s @ [\<lparr>sl_name = name, sl_conn = i, sl_beats = n, sl_pc = pc\<rparr>]"
  shows "slots_ok s'"
  using assms reqs_cong [OF assms(3)] by (simp add: slots_ok_def)

text \<open>The client is told, and the pair recorded.\<close>

lemma relay_but_pair:
  assumes "relay_but h s" "is_server (reqs s) i ser" "is_client (reqs s) k ser"
  shows "relay_but h ((sock_write True k ''res,OK'' s)\<lparr>rl_paired := (ser, i, k) # rl_paired s\<rparr>)" (is "relay_but h ?s")
proof -
  have R: "reqs ?s = reqs s" using reqs_simps(1) [of True k "''res,OK''" s] by (simp add: reqs_def)
  have k: "k < length (rl_socks s)" "wk_req (rl_socks s ! k) \<noteq> None"
    using assms(3) reqs_nth [of k s] by (auto simp: is_client_def asked_def)
  have out: "wk_out (rl_socks ?s ! j) = (if j = k then wk_out (rl_socks s ! k) @ [''res,OK''] else wk_out (rl_socks s ! j))" for j
    using k by (simp add: sock_write_def nth_upd_sock)
  have req: "wk_req (rl_socks ?s ! j) = wk_req (rl_socks s ! j)" if "j < length (rl_socks s)" for j
    using reqs_nth [of j s] reqs_nth [of j ?s] that R by simp
  have uniq: "ser' = ser" if "is_client (reqs s) k ser'" for ser'
    using that assms(3) by (auto simp: is_client_def dest: asked_unique)
  have pk: "paired_ok s" "waits_ok s" "slots_ok s" using assms(1) by (simp_all add: relay_but_def)
  have "paired_ok ?s"
    unfolding paired_ok_def R out
  proof (intro conjI)
    show "\<forall>p\<in>set (rl_paired ?s). case p of (ser, i, ka) \<Rightarrow> is_server (reqs s) i ser \<and> is_client (reqs s) ka ser \<and>
        ''res,OK'' \<in> set (if ka = k then wk_out (rl_socks s ! k) @ [''res,OK''] else wk_out (rl_socks s ! ka))"
      using pk(1) assms(2,3) by (auto simp: paired_ok_def)
    show "\<forall>ka ser. is_client (reqs s) ka ser \<and>
        ''res,OK'' \<in> set (if ka = k then wk_out (rl_socks s ! k) @ [''res,OK''] else wk_out (rl_socks s ! ka)) \<longrightarrow>
        (\<exists>i. (ser, i, ka) \<in> set (rl_paired ?s))"
      using pk(1) uniq by (auto simp: paired_ok_def split: if_splits)
    show "\<forall>ka<length (rl_socks ?s). wk_req (rl_socks ?s ! ka) = None \<longrightarrow>
        (if ka = k then wk_out (rl_socks s ! k) @ [''res,OK''] else wk_out (rl_socks s ! ka)) = []"
      using pk(1) k req by (auto simp: paired_ok_def)
  qed
  moreover have "waits_ok ?s"
    using pk(2) R by (simp add: waits_ok_def)
  moreover have "slots_ok ?s" using pk(3) R by (simp add: slots_ok_def)
  ultimately show ?thesis using assms(1) R by (simp add: relay_but_def)
qed

lemma handler_step_inv:
  assumes "relay_inv s" "h < length (rl_handlers s)"
  shows "relay_inv (handler_step h ok s)"
proof -
  note b = relay_but_start [OF assms(1), of h]
  have hok: "handler_ok (reqs s) h (rl_handlers s ! h)" using assms by (simp add: relay_inv_def handlers_ok_def)
  have inv: "waits_ok s" "slots_ok s" using assms(1) by (simp_all add: relay_inv_def)
  show ?thesis
  proof (cases "rl_handlers s ! h")
    case (HFree i name)
    with hok have a: "asked (reqs s) i [''server-server'', name]" by (simp add: handler_ok_def)
    with HFree b show ?thesis
      unfolding handler_step_def
      by (auto intro!: relay_but_done relay_but_write relay_but_close simp: handler_ok_def server_no_client)
  next
    case (HRegister i name)
    with hok have a: "asked (reqs s) i [''server-server'', name]" by (simp add: handler_ok_def)
    have "relay_but h (s\<lparr>rl_slots := cmap_Set name (length (rl_slotobjs s)) (rl_slots s),
       rl_slotobjs := rl_slotobjs s @ [\<lparr>sl_name = name, sl_conn = i, sl_beats = 0, sl_pc = SLoop\<rparr>]\<rparr>)"
      by (rule relay_but_maps [OF b _ _ _ waits_maps [OF inv(1)] slots_add [OF inv(2) a]]) auto
    with HRegister show ?thesis unfolding handler_step_def by (auto intro: relay_but_done)
  next
    case (HFound i ser k)
    with hok have a: "handler_ok (reqs s) h (HTaken i ser k)" by (simp add: handler_ok_def)
    have "relay_but h (s\<lparr>rl_waitWS := cmap_Remove ser (rl_waitWS s)\<rparr>)"
      by (rule relay_but_maps [OF b _ _ _ waits_maps [OF inv(1)] slots_same [OF inv(2)]]) (auto simp: reqs_def)
    with HFound a show ?thesis
      unfolding handler_step_def by (auto intro!: relay_but_done simp: reqs_def)
  next
    case (HTaken i ser k)
    with hok have a: "is_server (reqs s) i ser" "is_client (reqs s) k ser" by (simp_all add: handler_ok_def)
    have "relay_but h (sock_write True i ''res,OK'' s)"
      by (rule relay_but_write [OF b]) (use a server_no_client in \<open>auto simp: is_server_def\<close>)
    with HTaken a b show ?thesis
      unfolding handler_step_def
      by (auto intro!: relay_but_done relay_but_close simp: handler_ok_def)
  next
    case (HTold i ser k)
    with hok have a: "is_server (reqs s) i ser" "is_client (reqs s) k ser" by (simp_all add: handler_ok_def)
    have R: "reqs ((sock_write True k ''res,OK'' s)\<lparr>rl_paired := p\<rparr>) = reqs s" for p
      using reqs_simps(1) [of True k "''res,OK''" s] by (simp add: reqs_def)
    from HTold a b relay_but_pair [OF b a] show ?thesis
      unfolding handler_step_def
      by (auto intro!: relay_but_done relay_but_close simp: handler_ok_def R)
  next
    case (HPaired i ser k)
    with hok have a: "is_server (reqs s) i ser" "is_client (reqs s) k ser" by (simp_all add: handler_ok_def)
    have "relay_but h (s\<lparr>rl_conns := cmap_Set ser (i, k) (rl_conns s), rl_copies := rl_copies s @ [(ser, i, k, False)]\<rparr>)"
      by (rule relay_but_maps [OF b _ _ _ waits_maps [OF inv(1)] slots_same [OF inv(2)]]) (use a in \<open>auto simp: reqs_def\<close>)
    with HPaired show ?thesis unfolding handler_step_def by (auto intro: relay_but_done)
  next
    case (HWaiting i ser sl msg)
    with hok have a: "is_client (reqs s) i ser" by (simp add: handler_ok_def)
    have "relay_but h (s\<lparr>rl_waitWS := cmap_Set ser i (rl_waitWS s)\<rparr>)"
      by (rule relay_but_maps [OF b _ _ _ waits_maps [OF inv(1)] slots_same [OF inv(2)]]) (use a in \<open>auto simp: reqs_def\<close>)
    with HWaiting show ?thesis unfolding handler_step_def by (auto intro: relay_but_done)
  qed (use assms(1) in \<open>auto simp: handler_step_def\<close>)
qed


lemma slots_upd:
  assumes "slots_ok s" "rl_socks s' = rl_socks s" "rl_slotobjs s' = (rl_slotobjs s)[i := f (rl_slotobjs s ! i)]"
    "\<And>x. sl_name (f x) = sl_name x \<and> sl_conn (f x) = sl_conn x"
  shows "slots_ok s'"
proof (cases "i < length (rl_slotobjs s)")
  case True
  have "asked (reqs s) (sl_conn x) [''server-server'', sl_name x]" if "x \<in> set (rl_slotobjs s')" for x
    using assms(1) that True set_update_subset_insert [of "rl_slotobjs s" i "f (rl_slotobjs s ! i)"]
    unfolding slots_ok_def assms(3) by (auto simp: assms(4))
  with reqs_cong [OF assms(2)] show ?thesis by (simp add: slots_ok_def)
next
  case False
  then have "rl_slotobjs s' = rl_slotobjs s" by (simp add: assms(3) list_update_beyond)
  with assms(1) reqs_cong [OF assms(2)] show ?thesis by (simp add: slots_ok_def)
qed

lemma upd_slot_inv:
  assumes "relay_inv s" "\<And>x. sl_name (f x) = sl_name x \<and> sl_conn (f x) = sl_conn x"
  shows "relay_inv (upd_slot i f s)"
proof -
  have inv: "waits_ok s" "slots_ok s" using assms(1) by (simp_all add: relay_inv_def)
  show ?thesis
    by (rule relay_inv_maps [OF assms(1) _ _ _ waits_maps [OF inv(1)] slots_upd [OF inv(2) _ _ assms(2), of _ i]])
      (simp_all, simp add: upd_slot_def)
qed

lemma slot_goto_inv: "relay_inv s \<Longrightarrow> relay_inv (slot_goto i pc s)"
  unfolding slot_goto_def by (rule upd_slot_inv) simp_all

lemma relay_inv_close: "relay_inv s \<Longrightarrow> relay_inv (sock_close i s)"
  using relay_but_close [of "length (rl_handlers s)" s i]
  by (auto simp: relay_inv_def relay_but_def handlers_ok_def)

lemma relay_inv_write:
  assumes "relay_inv s" "sl < length (rl_slotobjs s)"
  shows "relay_inv (sock_write ok (sl_conn (rl_slotobjs s ! sl)) m s)"
proof -
  define i where "i = sl_conn (rl_slotobjs s ! sl)"
  have a: "asked (reqs s) i [''server-server'', sl_name (rl_slotobjs s ! sl)]"
    using assms by (simp add: relay_inv_def slots_ok_def i_def)
  have "relay_but (length (rl_handlers s)) (sock_write ok i m s)"
    using relay_but_write [OF relay_but_start [OF assms(1)] a, of m] server_no_client(2) [OF a] by simp
  with assms(1) show ?thesis by (auto simp: relay_inv_def relay_but_def handlers_ok_def i_def)
qed

lemma relay_inv_done:
  assumes "relay_inv s" "handler_ok (reqs s) h p" shows "relay_inv (set_handler h p s)"
  using relay_but_done [OF relay_but_start [OF assms(1)] assms(2)] .

lemma relay_inv_drop:
  assumes "relay_inv s"
  shows "relay_inv (s\<lparr>rl_waitWS := cmap_Remove ser (rl_waitWS s)\<rparr>)"
    "relay_inv (s\<lparr>rl_slots := cmap_Remove n (rl_slots s)\<rparr>)"
    "relay_inv (s\<lparr>rl_conns := cmap_Remove ser (rl_conns s), rl_copies := cs\<rparr>)"
proof -
  have inv: "waits_ok s" "slots_ok s" using assms by (simp_all add: relay_inv_def)
  show "relay_inv (s\<lparr>rl_waitWS := cmap_Remove ser (rl_waitWS s)\<rparr>)"
    by (rule relay_inv_maps [OF assms _ _ _ waits_maps [OF inv(1)] slots_same [OF inv(2)]]) (auto simp: reqs_def)
  show "relay_inv (s\<lparr>rl_slots := cmap_Remove n (rl_slots s)\<rparr>)"
    by (rule relay_inv_maps [OF assms _ _ _ waits_maps [OF inv(1)] slots_same [OF inv(2)]]) (auto simp: reqs_def)
  show "relay_inv (s\<lparr>rl_conns := cmap_Remove ser (rl_conns s), rl_copies := cs\<rparr>)"
    by (rule relay_inv_maps [OF assms _ _ _ waits_maps [OF inv(1)] slots_same [OF inv(2)]]) (auto simp: reqs_def)
qed

lemma slot_message_inv:
  assumes "relay_inv s" "sl < length (rl_slotobjs s)"
  shows "relay_inv (slot_message sl ok msg s)"
  unfolding slot_message_def Let_def
  using assms(1) slot_goto_inv relay_inv_write [OF assms] by simp

lemma slot_answer_inv: "relay_inv s \<Longrightarrow> relay_inv (slot_answer sl ser res s)"
  unfolding slot_answer_def using slot_goto_inv upd_slot_inv by simp

lemma slot_beat_inv: "relay_inv s \<Longrightarrow> relay_inv (slot_beat sl res s)"
  unfolding slot_beat_def by (simp add: upd_slot_inv split: prod.split)

lemma slot_step_inv: "relay_inv s \<Longrightarrow> relay_inv (slot_step sl s)"
  unfolding slot_step_def Let_def
  by (auto intro!: slot_goto_inv relay_inv_close relay_inv_drop split: slot_pc.split option.split)

lemma copy_end_inv: 
  assumes "relay_inv s" shows "relay_inv (copy_end c s)"
proof -
  obtain ser i k ended where c: "rl_copies s ! c = (ser, i, k, ended)" by (metis prod_cases4)
  have "relay_inv (sock_close k (sock_close i s))" using assms by (intro relay_inv_close)
  from relay_inv_drop(3) [OF this] assms show ?thesis by (simp add: copy_end_def c)
qed

lemma relay_connect_inv:
  assumes "relay_inv s"
  shows "relay_inv (s\<lparr>rl_socks := rl_socks s @ [\<lparr>wk_req = None, wk_out = [], wk_closed = False\<rparr>],
            rl_handlers := rl_handlers s @ [HRead (length (rl_socks s))]\<rparr>)" (is "relay_inv ?s")
proof -
  have R: "reqs ?s = reqs s @ [None]" by (simp add: reqs_def)
  have ex: "extends (reqs s) (reqs ?s)" unfolding R by (rule extends_snoc)
  have no: "is_client (reqs ?s) k ser \<longleftrightarrow> is_client (reqs s) k ser"
    "is_server (reqs ?s) k ser \<longleftrightarrow> is_server (reqs s) k ser" for k ser
    unfolding R is_client_def is_server_def asked_def by (auto simp: nth_append split: if_splits)
  have lt: "k < length (rl_socks s)" if "is_client (reqs s) k ser" for k ser
    using that by (auto simp: is_client_def asked_def)
  have "waits_ok ?s" "slots_ok ?s"
    using assms ex by (auto simp: relay_inv_def intro: waits_transfer slots_same)
  moreover have "paired_ok ?s"
    using assms lt unfolding relay_inv_def paired_ok_def no
    by (fastforce simp: nth_append split: if_splits prod.splits)
  moreover have "handler_ok (reqs ?s) j (rl_handlers s ! j)" if "j < length (rl_handlers s)" for j
  proof -
    have j: "handler_ok (reqs s) j (rl_handlers s ! j)" "j < length (reqs s)"
      using assms that by (auto simp: relay_inv_def handlers_ok_def)
    then show ?thesis
      using client_extends [OF ex] server_extends [OF ex] asked_extends [OF ex]
      by (auto simp: handler_ok_def R nth_append split: handler.splits)
  qed
  ultimately show ?thesis
    using assms by (auto simp: relay_inv_def handlers_ok_def nth_append handler_ok_def [of _ _ "HRead _"] R)
qed

lemma relay_step_inv: "relay_inv s \<Longrightarrow> relay_inv (relay_step s ev)"
  by (cases ev)
    (auto simp: relay_step_def relay_connect_inv relay_inv_close
      intro!: relay_inv_done serve_request_inv handler_step_inv slot_message_inv slot_answer_inv
        slot_beat_inv slot_step_inv copy_end_inv slot_goto_inv relay_inv_write
      split: handler.split slot_pc.split option.split)

lemma relay_inv_start: "relay_inv NewSrvServer"
  by (simp add: relay_inv_def waits_ok_def handlers_ok_def paired_ok_def slots_ok_def NewSrvServer_def
      cmap_ok_create fun_cong [OF cmap_Get_create] reqs_def is_client_def asked_def)

interpretation relay: inv_machine relay_step relay_inv
  by unfold_locales (rule relay_step_inv)

end
