(* ===== verification/Relay_Pairs.thy ===== *)
theory Relay_Pairs
  imports Relay_Props
begin

text \<open>
  Whom the relay joins: a second invariant of the same machine. Every pair being copied has been
  told so at both ends, and no connection of an exit serves two clients.
\<close>

definition told :: "relay \<Rightarrow> nat \<Rightarrow> bool" where
  "told s i \<longleftrightarrow> ''res,OK'' \<in> set (wk_out (rl_socks s ! i))"

definition servers :: "relay \<Rightarrow> nat list" where
  "servers s = map (\<lambda>(ser, i, k). i) (rl_paired s)"

definition place_ok :: "relay \<Rightarrow> nat \<Rightarrow> handler \<Rightarrow> bool" where
  "place_ok s h p \<longleftrightarrow>
     (case p of
        HRead i \<Rightarrow> i = h \<and> h \<notin> set (servers s)
      | HFound i ser k \<Rightarrow> i = h \<and> h \<notin> set (servers s)
      | HTaken i ser k \<Rightarrow> i = h \<and> h \<notin> set (servers s)
      | HTold i ser k \<Rightarrow> i = h \<and> h \<notin> set (servers s) \<and> told s i
      | HPaired i ser k \<Rightarrow> (ser, i, k) \<in> set (rl_paired s)
      | _ \<Rightarrow> True)"

definition pairs_inv :: "relay \<Rightarrow> bool" where
  "pairs_inv s \<longleftrightarrow>
     length (rl_handlers s) = length (rl_socks s) \<and>
     (\<forall>h<length (rl_handlers s). place_ok s h (rl_handlers s ! h)) \<and>
     distinct (servers s) \<and> (\<forall>i\<in>set (servers s). i < length (rl_socks s) \<and> told s i) \<and>
     cmap_ok (rl_conns s) \<and> (\<forall>ser p. cmap_Get ser (rl_conns s) = Some p \<longrightarrow> (ser, p) \<in> set (rl_paired s)) \<and>
     (\<forall>c\<in>set (rl_copies s). case c of (ser, i, k, ended) \<Rightarrow> (ser, i, k) \<in> set (rl_paired s))"

lemma told_mono:
  "told s j \<Longrightarrow> told (sock_write ok i m s) j" "told s j \<Longrightarrow> told (sock_close i s) j"
  "told (set_handler h p s) j = told s j" "told (upd_slot sl f s) j = told s j"
  "told s j \<Longrightarrow> told (upd_sock i (\<lambda>w. w\<lparr>wk_req := r\<rparr>) s) j"
  by (auto simp: told_def sock_write_def sock_close_def nth_upd_sock set_handler_def upd_slot_def)

lemma pairs_frame:
  assumes "pairs_inv s" "rl_paired s' = rl_paired s" "rl_handlers s' = rl_handlers s"
    "length (rl_socks s') = length (rl_socks s)" "\<And>i. told s i \<Longrightarrow> told s' i"
    "rl_conns s' = rl_conns s \<or> (\<exists>ser. rl_conns s' = cmap_Remove ser (rl_conns s))"
    "rl_copies s' = rl_copies s \<or> (\<exists>c ser i k e. rl_copies s' = (rl_copies s)[c := (ser, i, k, e)] \<and> (ser, i, k) \<in> set (rl_paired s))"
  shows "pairs_inv s'"
proof -
  have "place_ok s' h p" if "place_ok s h p" for h p
    using that assms(2,5) by (auto simp: place_ok_def servers_def split: handler.splits)
  moreover have "cmap_ok (rl_conns s') \<and> (\<forall>ser p. cmap_Get ser (rl_conns s') = Some p \<longrightarrow> (ser, p) \<in> set (rl_paired s))"
    using assms(1,6) by (auto simp: pairs_inv_def cmap_facts split: if_splits)
  moreover have "case c of (ser, i, k, ended) \<Rightarrow> (ser, i, k) \<in> set (rl_paired s)" if "c \<in> set (rl_copies s')" for c
  proof (cases "c \<in> set (rl_copies s)")
    case True
    with assms(1) show ?thesis by (auto simp: pairs_inv_def)
  next
    case False
    with assms(7) that show ?thesis by (auto dest!: set_update_subset_insert [THEN subsetD])
  qed
  ultimately show ?thesis using assms(1-5) by (auto simp: pairs_inv_def servers_def)
qed

lemma pairs_set:
  assumes "pairs_inv s" "place_ok s h p" shows "pairs_inv (set_handler h p s)"
proof -
  have eq: "place_ok (set_handler h p s) j q = place_ok s j q" for j q
    by (simp add: place_ok_def servers_def told_mono split: handler.split)
  have "place_ok s j ((rl_handlers s)[h := p] ! j)" if "j < length (rl_handlers s)" for j
    using assms that by (cases "j = h") (simp_all add: pairs_inv_def)
  then show ?thesis
    using assms(1) unfolding pairs_inv_def eq by (auto simp: servers_def told_mono, auto simp: set_handler_def)
qed

lemma pairs_simple:
  assumes "pairs_inv s"
  shows "pairs_inv (sock_write ok i m s)" "pairs_inv (sock_close i s)" "pairs_inv (upd_slot sl f s)"
    "pairs_inv (slot_goto sl pc s)" "pairs_inv (upd_sock i (\<lambda>w. w\<lparr>wk_req := r\<rparr>) s)"
  unfolding slot_goto_def by (rule pairs_frame [OF assms]; auto simp: told_mono)+

lemma pairs_maps:
  assumes "pairs_inv s"
  shows "pairs_inv (s\<lparr>rl_waitWS := W\<rparr>)" "pairs_inv (s\<lparr>rl_slots := S\<rparr>)"
    "pairs_inv (s\<lparr>rl_slots := S, rl_slotobjs := B\<rparr>)"
  by (rule pairs_frame [OF assms]; simp add: told_def)+

lemma place_frame:
  "place_ok (sock_close i s) h p = place_ok s h p" if "\<And>j. told (sock_close i s) j = told s j"
  using that by (simp add: place_ok_def servers_def split: handler.split)

lemma place_pending [simp]:
  "place_ok s h HDone" "place_ok s h (HFree i n)" "place_ok s h (HRegister i n)"
  "place_ok s h (HWaiting i ser sl m)" "place_ok s h (HSend sl m)"
  by (simp_all add: place_ok_def)

lemma pairs_request:
  assumes "pairs_inv s" "h < length (rl_handlers s)" "rl_handlers s ! h = HRead i"
  shows "pairs_inv (serve_request h i ok msg s)"
proof -
  define s0 where "s0 = upd_sock i (\<lambda>w. w\<lparr>wk_req := Some msg\<rparr>) s"
  have s0: "pairs_inv s0" unfolding s0_def using assms(1) by (rule pairs_simple)
  have "place_ok s h (HRead i)" using assms by (auto simp: pairs_inv_def)
  then have f: "place_ok s0 h (HFound i ser k)" for ser k by (simp add: place_ok_def s0_def servers_def)
  show ?thesis
    unfolding serve_request_def Let_def s0_def [symmetric] refuse_def
    using s0 f by (auto intro!: pairs_set pairs_simple pairs_maps split: option.split)
qed

lemma pairs_handler:
  assumes "pairs_inv s" "h < length (rl_handlers s)"
  shows "pairs_inv (handler_step h ok s)"
proof -
  have pl: "place_ok s h (rl_handlers s ! h)" using assms by (simp add: pairs_inv_def)
  have len: "length (rl_handlers s) = length (rl_socks s)" using assms by (simp add: pairs_inv_def)
  show ?thesis
  proof (cases "rl_handlers s ! h")
    case (HFound i ser k)
    with pl have "place_ok (s\<lparr>rl_waitWS := W\<rparr>) h (HTaken i ser k)" for W by (simp add: place_ok_def servers_def)
    with HFound assms show ?thesis by (auto simp: handler_step_def intro!: pairs_set pairs_simple pairs_maps)
  next
    case (HTaken i ser k)
    with pl have "place_ok (sock_write True i ''res,OK'' s) h (HTold i ser k)"
      using assms(2) len by (simp add: place_ok_def servers_def told_def sock_write_def nth_upd_sock)
    with HTaken assms show ?thesis by (auto simp: handler_step_def intro!: pairs_set pairs_simple pairs_maps)
  next
    case (HTold i ser k)
    let ?s = "(sock_write True k ''res,OK'' s)\<lparr>rl_paired := (ser, i, k) # rl_paired s\<rparr>"
    have i: "i = h" "h \<notin> set (servers s)" "told s h" using HTold pl by (auto simp: place_ok_def)
    have told: "told s j \<Longrightarrow> told ?s j" for j using told_mono(1) [of s j True k "''res,OK''"] by (simp add: told_def)
    have "place_ok ?s j q" if "place_ok s j q" "j \<noteq> h" for j q
      using that told i by (auto simp: place_ok_def servers_def split: handler.splits)
    moreover have "place_ok (set_handler h p s') j q = place_ok s' j q" for p s' j q
      by (simp add: place_ok_def servers_def told_mono split: handler.split)
    moreover have "place_ok ?s h (HPaired i ser k)" by (simp add: place_ok_def)
    moreover define t where "t = set_handler h (HPaired i ser k) ?s"
    moreover have hs: "rl_handlers t = (rl_handlers s)[h := HPaired i ser k]" by (simp add: t_def set_handler_def)
    ultimately have pl': "place_ok t j (rl_handlers t ! j)" if "j < length (rl_handlers s)" for j
      using assms(1) that by (cases "j = h") (simp_all add: pairs_inv_def)
    have eqs: "servers t = h # servers s" "rl_conns t = rl_conns s" "rl_copies t = rl_copies s"
      "length (rl_socks t) = length (rl_socks s)" "rl_paired t = (ser, i, k) # rl_paired s"
      by (simp_all add: t_def servers_def i(1))
    have "told s j \<Longrightarrow> told t j" for j using told unfolding t_def told_mono(3) by simp
    with pl' have "pairs_inv t"
      using assms i(2,3) len unfolding pairs_inv_def eqs hs by auto
    then have P: "pairs_inv (set_handler h (HPaired i ser k) ?s)" by (simp add: t_def)
    with HTold assms show ?thesis by (auto simp: handler_step_def intro!: pairs_set pairs_simple pairs_maps)
  next
    case (HPaired i ser k)
    with pl have p: "(ser, i, k) \<in> set (rl_paired s)" by (simp add: place_ok_def)
    let ?s = "s\<lparr>rl_conns := cmap_Set ser (i, k) (rl_conns s), rl_copies := rl_copies s @ [(ser, i, k, False)]\<rparr>"
    have "place_ok ?s = place_ok s" "told ?s = told s" "servers ?s = servers s"
      by (auto simp: place_ok_def servers_def told_def fun_eq_iff split: handler.split)
    then have "pairs_inv ?s"
      using assms(1) p unfolding pairs_inv_def by (auto simp: cmap_facts)
    with HPaired show ?thesis by (auto simp: handler_step_def intro!: pairs_set)
  qed (use assms in \<open>auto simp: handler_step_def intro!: pairs_set pairs_simple pairs_maps\<close>)
qed

lemma pairs_copy_end:
  assumes "pairs_inv s" "c < length (rl_copies s)" shows "pairs_inv (copy_end c s)"
proof -
  obtain ser i k ended where c: "rl_copies s ! c = (ser, i, k, ended)" by (metis prod_cases4)
  then have p: "(ser, i, k) \<in> set (rl_paired s)"
    using assms nth_mem [OF assms(2)] by (fastforce simp: pairs_inv_def)
  have "pairs_inv (sock_close k (sock_close i s))" using assms(1) by (intro pairs_simple)
  then have "pairs_inv ((sock_close k (sock_close i s))
      \<lparr>rl_conns := cmap_Remove ser (rl_conns s), rl_copies := (rl_copies s)[c := (ser, i, k, True)]\<rparr>)"
  proof (rule pairs_frame)
    show "rl_copies ((sock_close k (sock_close i s))
        \<lparr>rl_conns := cmap_Remove ser (rl_conns s), rl_copies := (rl_copies s)[c := (ser, i, k, True)]\<rparr>) =
          rl_copies (sock_close k (sock_close i s)) \<or>
        (\<exists>c' ser' i' k' e. rl_copies ((sock_close k (sock_close i s))
        \<lparr>rl_conns := cmap_Remove ser (rl_conns s), rl_copies := (rl_copies s)[c := (ser, i, k, True)]\<rparr>) =
          (rl_copies (sock_close k (sock_close i s)))[c' := (ser', i', k', e)] \<and>
          (ser', i', k') \<in> set (rl_paired (sock_close k (sock_close i s))))"
      using p by (intro disjI2 exI [of _ c] exI [of _ ser] exI [of _ i] exI [of _ k] exI [of _ True]) simp
  qed (auto simp: told_def)
  with assms(1) show ?thesis by (simp add: copy_end_def c)
qed

lemma pairs_connect:
  assumes "pairs_inv s"
  shows "pairs_inv (s\<lparr>rl_socks := rl_socks s @ [\<lparr>wk_req = None, wk_out = [], wk_closed = False\<rparr>],
            rl_handlers := rl_handlers s @ [HRead (length (rl_socks s))]\<rparr>)" (is "pairs_inv ?s")
proof -
  have told: "told ?s i = told s i" if "i < length (rl_socks s)" for i
    using that by (simp add: told_def nth_append)
  have sv: "servers ?s = servers s" by (simp add: servers_def)
  have "place_ok ?s j p" if "place_ok s j p" "j < length (rl_handlers s)" for j p
    using that told assms sv by (auto simp: place_ok_def pairs_inv_def split: handler.splits)
  with assms told show ?thesis
    unfolding pairs_inv_def sv
    by (auto simp: nth_append place_ok_def [of _ _ "HRead _"] sv less_Suc_eq)
qed

lemma pairs_step: "pairs_inv s \<Longrightarrow> pairs_inv (relay_step s ev)"
  by (cases ev)
    (auto simp: relay_step_def pairs_connect slot_message_def slot_answer_def slot_beat_def slot_step_def Let_def
      intro!: pairs_set pairs_request pairs_handler pairs_copy_end pairs_simple pairs_maps
      split: handler.split slot_pc.split option.split prod.split)

lemma pairs_start: "pairs_inv NewSrvServer"
  by (simp add: pairs_inv_def NewSrvServer_def servers_def cmap_ok_create fun_cong [OF cmap_Get_create])

interpretation pairing: inv_machine relay_step pairs_inv
  by unfold_locales (rule pairs_step)


section \<open>Properties\<close>

abbreviation relay_run :: "relay_event list \<Rightarrow> relay" where
  "relay_run es \<equiv> foldl relay_step NewSrvServer es"

text \<open>C16: in every interleaving of handlers, slot loops, answers and closings, every pair the relay
  copies between consists of an exit that asked for a serial number and a client that asked with the
  same number, and both have been told \<open>res,OK\<close>; so has every pair entered in \<open>conns\<close>; a client that
  was told so has been paired under its own number; and no connection of an exit serves two clients.\<close>

theorem relay_pairing:
  "(\<forall>c\<in>set (rl_copies (relay_run es)). case c of (ser, i, k, ended) \<Rightarrow>
      is_server (reqs (relay_run es)) i ser \<and> is_client (reqs (relay_run es)) k ser \<and>
      told (relay_run es) i \<and> told (relay_run es) k) \<and>
   (\<forall>ser i k. cmap_Get ser (rl_conns (relay_run es)) = Some (i, k) \<longrightarrow>
      (ser, i, k) \<in> set (rl_paired (relay_run es))) \<and>
   (\<forall>k ser. is_client (reqs (relay_run es)) k ser \<and> told (relay_run es) k \<longrightarrow>
      (\<exists>i. (ser, i, k) \<in> set (rl_paired (relay_run es)))) \<and>
   distinct (servers (relay_run es))"
proof -
  define s where "s = relay_run es"
  have r: "relay_inv s" unfolding s_def by (rule relay.run_inv [OF relay_inv_start])
  have p: "pairs_inv s" unfolding s_def by (rule pairing.run_inv [OF pairs_start])
  have "is_server (reqs s) i ser \<and> is_client (reqs s) k ser \<and> told s i \<and> told s k"
    if "(ser, i, k) \<in> set (rl_paired s)" for ser i k
    using r p that by (force simp: relay_inv_def paired_ok_def pairs_inv_def servers_def told_def)
  with r p show ?thesis
    unfolding s_def [symmetric] by (fastforce simp: relay_inv_def paired_ok_def pairs_inv_def told_def)
qed

end
