(* ===== verification/Relay_Runs.thy ===== *)
theory Relay_Runs
  imports Relay_Pairs
begin

text \<open>
  Runs of the relay: one connection from the client's request to the copying of the pair, the
  heart-beats of an idle slot, and the interleavings its separate steps allow.
\<close>

section \<open>The requests are read back as they were written\<close>

lemma fields_simps:
  assumes "CHR '','' \<notin> set a" "CHR '','' \<notin> set b" "CHR '','' \<notin> set c"
  shows "fields_of (server_server_req a) = [''server-server'', a]"
    "fields_of (server_data_req a) = [''server-data'', a]"
    "fields_of (client_data_req a b c) = [''client-data'', a, b, c]"
    "fields_of (conn_msg a b) = [''conn'', a, b]"
    "fields_of (server_data_to a b) = [''server-data'', a, b]"
proof -
  have "fields_of (w @ '','' @ t) = w # fields_of t" if "CHR '','' \<notin> set w" for w t
    using go_Split_Cons [OF that, of t] by (simp add: fields_of_def)
  note cons = this
  have one: "fields_of w = [w]" if "CHR '','' \<notin> set w" for w
    using go_Split_field [OF that] by (simp add: fields_of_def)
  show "fields_of (server_server_req a) = [''server-server'', a]"
    using cons [of "''server-server''" a] one assms by (simp add: server_server_req_def)
  show "fields_of (server_data_req a) = [''server-data'', a]"
    using cons [of "''server-data''" a] one assms by (simp add: server_data_req_def)
  show "fields_of (client_data_req a b c) = [''client-data'', a, b, c]"
    using cons [of "''client-data''" "a @ '','' @ b @ '','' @ c"] cons [of a "b @ '','' @ c"] cons [of b c] one assms
    by (simp add: client_data_req_def)
  show "fields_of (conn_msg a b) = [''conn'', a, b]"
    using cons [of "''conn''" "a @ '','' @ b"] cons [of a b] one assms by (simp add: conn_msg_def)
  show "fields_of (server_data_to a b) = [''server-data'', a, b]"
    using cons [of "''server-data''" "a @ '','' @ b"] cons [of a b] one assms by (simp add: server_data_to_def)
qed

section \<open>One connection from end to end\<close>

definition ask_events :: "nat \<Rightarrow> nat \<Rightarrow> string \<Rightarrow> string \<Rightarrow> string \<Rightarrow> relay_event list" where
  "ask_events n sl slot ser target =
     [RvConnect, RvRequest n True (Some (client_data_req slot ser target)), RvHandler n True, RvSlotMsg sl True n,
      RvAnswer sl (Some ''res,OK'')]"

definition serve_events :: "nat \<Rightarrow> string \<Rightarrow> relay_event list" where
  "serve_events m ser =
     [RvConnect, RvRequest m True (Some (server_data_req ser)), RvHandler m True, RvHandler m True,
      RvHandler m True, RvHandler m True]"

lemma last_upd: "n = length xs \<Longrightarrow> (xs @ [x])[n := y] = xs @ [y]"
  by simp

lemma ask_run:
  assumes inv: "relay_inv s" and n: "n = length (rl_socks s)"
    and slot: "cmap_Get slot (rl_slots s) = Some sl" "sl < length (rl_slotobjs s)" "sl_pc (rl_slotobjs s ! sl) = SLoop"
    and commas: "CHR '','' \<notin> set slot" "CHR '','' \<notin> set ser" "CHR '','' \<notin> set target"
  defines "c \<equiv> sl_conn (rl_slotobjs s ! sl)"
  shows "foldl relay_step s (ask_events n sl slot ser target) =
    s\<lparr>rl_socks := (rl_socks s)[c := (rl_socks s ! c)\<lparr>wk_out := wk_out (rl_socks s ! c) @ [server_data_to ser target]\<rparr>] @
        [\<lparr>wk_req = Some (client_data_req slot ser target), wk_out = [], wk_closed = False\<rparr>],
      rl_handlers := rl_handlers s @ [HDone],
      rl_waitWS := cmap_Set ser n (rl_waitWS s),
      rl_slotobjs := (rl_slotobjs s)[sl := (rl_slotobjs s ! sl)\<lparr>sl_beats := 0, sl_pc := SLoop\<rparr>]\<rparr>"
proof -
  have len: "length (rl_handlers s) = n" using inv n by (simp add: relay_inv_def handlers_ok_def)
  have "asked (reqs s) c [''server-server'', sl_name (rl_slotobjs s ! sl)]"
    using inv slot by (simp add: relay_inv_def slots_ok_def c_def)
  then have c: "c < n" using n by (simp add: asked_def)
  note f = fields_simps [OF commas] fields_simps [OF commas(2,3,1)]
  have cm: "conn_msg ser target \<noteq> ''quit''" by (simp add: conn_msg_def)
  define w where "w = \<lparr>wk_req = Some (client_data_req slot ser target), wk_out = [], wk_closed = False\<rparr>"
  define s1 where "s1 = s\<lparr>rl_socks := rl_socks s @ [\<lparr>wk_req = None, wk_out = [], wk_closed = False\<rparr>],
            rl_handlers := rl_handlers s @ [HRead n]\<rparr>"
  define s2 where "s2 = s\<lparr>rl_socks := rl_socks s @ [w], rl_handlers := rl_handlers s @ [HWaiting n ser sl (conn_msg ser target)]\<rparr>"
  define s3 where "s3 = s\<lparr>rl_socks := rl_socks s @ [w], rl_handlers := rl_handlers s @ [HSend sl (conn_msg ser target)],
      rl_waitWS := cmap_Set ser n (rl_waitWS s)\<rparr>"
  define s4 where "s4 = s\<lparr>rl_socks := (rl_socks s)[c := (rl_socks s ! c)\<lparr>wk_out := wk_out (rl_socks s ! c) @ [server_data_to ser target]\<rparr>] @ [w],
      rl_handlers := rl_handlers s @ [HDone], rl_waitWS := cmap_Set ser n (rl_waitWS s),
      rl_slotobjs := (rl_slotobjs s)[sl := (rl_slotobjs s ! sl)\<lparr>sl_pc := SAnswer ser\<rparr>]\<rparr>"
  have 1: "relay_step s RvConnect = s1" by (simp add: relay_step_def s1_def n)
  have 2: "relay_step s1 (RvRequest n True (Some (client_data_req slot ser target))) = s2"
    by (simp add: relay_step_def s1_def s2_def len n [symmetric] nth_append serve_request_def f upd_sock_def
      slot set_handler_def last_upd w_def)
  have 3: "relay_step s2 (RvHandler n True) = s3"
    by (simp add: relay_step_def s2_def s3_def len n [symmetric] nth_append handler_step_def set_handler_def last_upd)
  have 4: "relay_step s3 (RvSlotMsg sl True n) = s4"
    using c by (simp add: relay_step_def s3_def s4_def slot len n [symmetric] nth_append slot_message_def cm f Let_def
      slot_goto_def upd_slot_def sock_write_def upd_sock_def set_handler_def last_upd list_update_append c_def [symmetric])
  have 5: "relay_step s4 (RvAnswer sl (Some ''res,OK'')) = s4\<lparr>rl_slotobjs := (rl_slotobjs s)[sl := (rl_slotobjs s ! sl)\<lparr>sl_beats := 0, sl_pc := SLoop\<rparr>]\<rparr>"
    using slot by (simp add: relay_step_def s4_def slot_answer_def upd_slot_def)
  show ?thesis
    by (simp add: ask_events_def 1 2 3 4 5) (simp add: s4_def w_def)
qed

lemma serve_run:
  assumes inv: "relay_inv s" and m: "m = length (rl_socks s)"
    and wait: "cmap_Get ser (rl_waitWS s) = Some k" and comma: "CHR '','' \<notin> set ser"
  shows "foldl relay_step s (serve_events m ser) =
    s\<lparr>rl_socks := (rl_socks s)[k := (rl_socks s ! k)\<lparr>wk_out := wk_out (rl_socks s ! k) @ [''res,OK'']\<rparr>] @
        [\<lparr>wk_req = Some (server_data_req ser), wk_out = [''res,OK''], wk_closed = False\<rparr>],
      rl_handlers := rl_handlers s @ [HDone],
      rl_waitWS := cmap_Remove ser (rl_waitWS s), rl_conns := cmap_Set ser (m, k) (rl_conns s),
      rl_copies := rl_copies s @ [(ser, m, k, False)], rl_paired := (ser, m, k) # rl_paired s\<rparr>"
proof -
  have len: "length (rl_handlers s) = m" using inv m by (simp add: relay_inv_def handlers_ok_def)
  have "is_client (reqs s) k ser" using inv wait by (simp add: relay_inv_def waits_ok_def)
  then have k: "k < m" using m by (auto simp: is_client_def asked_def)
  note f = fields_simps [OF comma comma comma]
  define w where "w = \<lparr>wk_req = Some (server_data_req ser), wk_out = [], wk_closed = False\<rparr>"
  define w1 where "w1 = \<lparr>wk_req = Some (server_data_req ser), wk_out = [''res,OK''], wk_closed = False\<rparr>"
  define s1 where "s1 = s\<lparr>rl_socks := rl_socks s @ [\<lparr>wk_req = None, wk_out = [], wk_closed = False\<rparr>],
            rl_handlers := rl_handlers s @ [HRead m]\<rparr>"
  define s2 where "s2 = s\<lparr>rl_socks := rl_socks s @ [w], rl_handlers := rl_handlers s @ [HFound m ser k]\<rparr>"
  define s3 where "s3 = s\<lparr>rl_socks := rl_socks s @ [w], rl_handlers := rl_handlers s @ [HTaken m ser k],
      rl_waitWS := cmap_Remove ser (rl_waitWS s)\<rparr>"
  define s4 where "s4 = s\<lparr>rl_socks := rl_socks s @ [w1], rl_handlers := rl_handlers s @ [HTold m ser k],
      rl_waitWS := cmap_Remove ser (rl_waitWS s)\<rparr>"
  define s5 where "s5 = s\<lparr>rl_socks := (rl_socks s)[k := (rl_socks s ! k)\<lparr>wk_out := wk_out (rl_socks s ! k) @ [''res,OK'']\<rparr>] @ [w1],
      rl_handlers := rl_handlers s @ [HPaired m ser k],
      rl_waitWS := cmap_Remove ser (rl_waitWS s), rl_paired := (ser, m, k) # rl_paired s\<rparr>"
  have 1: "relay_step s RvConnect = s1" by (simp add: relay_step_def s1_def m)
  have 2: "relay_step s1 (RvRequest m True (Some (server_data_req ser))) = s2"
    by (simp add: relay_step_def s1_def s2_def len m [symmetric] nth_append serve_request_def f upd_sock_def
      wait set_handler_def last_upd w_def)
  have 3: "relay_step s2 (RvHandler m True) = s3"
    by (simp add: relay_step_def s2_def s3_def len m [symmetric] nth_append handler_step_def set_handler_def last_upd)
  have 4: "relay_step s3 (RvHandler m True) = s4"
    by (simp add: relay_step_def s3_def s4_def len m [symmetric] nth_append handler_step_def set_handler_def last_upd
      sock_write_def upd_sock_def w_def w1_def)
  have 5: "relay_step s4 (RvHandler m True) = s5"
    using k by (simp add: relay_step_def s4_def s5_def len m [symmetric] nth_append handler_step_def set_handler_def last_upd
      sock_write_def upd_sock_def list_update_append)
  have 6: "relay_step s5 (RvHandler m True) =
      s5\<lparr>rl_handlers := rl_handlers s @ [HDone], rl_conns := cmap_Set ser (m, k) (rl_conns s),
         rl_copies := rl_copies s @ [(ser, m, k, False)]\<rparr>"
    by (simp add: relay_step_def s5_def len m [symmetric] nth_append handler_step_def set_handler_def last_upd)
  show ?thesis
    by (simp add: serve_events_def 1 2 3 4 5 6) (simp add: s5_def w1_def)
qed

lemma relay_run_inv: "relay_inv (relay_run es)"
  by (rule relay.run_inv [OF relay_inv_start])

text \<open>C17: when an exit is registered under a slot, a client that asks through the slot with a serial
  number and a target, and the exit's answer and connection back with that number, end with the pair
  being copied and both told \<open>res,OK\<close>; the exit is sent a message that it reads back as this serial
  number and this target; the number is no longer waiting and the slot's loop is back in its select,
  its count of missed heart-beats cleared.\<close>

theorem relay_connects:
  assumes s: "s = relay_run es" and n: "n = length (rl_socks s)"
    and slot: "cmap_Get slot (rl_slots s) = Some sl" "sl < length (rl_slotobjs s)"
      "sl_pc (rl_slotobjs s ! sl) = SLoop"
    and commas: "CHR '','' \<notin> set slot" "CHR '','' \<notin> set ser" "CHR '','' \<notin> set target"
    and s': "s' = foldl relay_step s (ask_events n sl slot ser target @ serve_events (Suc n) ser)"
    and c: "c = sl_conn (rl_slotobjs s ! sl)"
  shows "rl_copies s' = rl_copies s @ [(ser, Suc n, n, False)] \<and> told s' n \<and> told s' (Suc n) \<and>
    wk_out (rl_socks s' ! c) = wk_out (rl_socks s ! c) @ [server_data_to ser target] \<and>
    fields_of (server_data_to ser target) = [''server-data'', ser, target] \<and>
    cmap_Get ser (rl_waitWS s') = None \<and>
    sl_pc (rl_slotobjs s' ! sl) = SLoop \<and> sl_beats (rl_slotobjs s' ! sl) = 0"
proof -
  have inv: "relay_inv s" unfolding s by (rule relay_run_inv)
  define s1 where "s1 = foldl relay_step s (ask_events n sl slot ser target)"
  note s1 = ask_run [OF inv n slot commas, folded s1_def c]
  have inv1: "relay_inv s1" unfolding s1_def by (rule relay.run_inv [OF inv])
  have W: "cmap_ok (rl_waitWS s)" using inv by (simp add: relay_inv_def waits_ok_def)
  have "asked (reqs s) c [''server-server'', sl_name (rl_slotobjs s ! sl)]"
    using inv slot by (simp add: relay_inv_def slots_ok_def c)
  then have cn: "c < n" using n by (simp add: asked_def)
  have "Suc n = length (rl_socks s1)" by (simp add: s1 n)
  moreover have "cmap_Get ser (rl_waitWS s1) = Some n" by (simp add: s1 cmap_facts W)
  ultimately have run: "s' = s1\<lparr>rl_socks := (rl_socks s1)[n := (rl_socks s1 ! n)\<lparr>wk_out := wk_out (rl_socks s1 ! n) @ [''res,OK'']\<rparr>] @
        [\<lparr>wk_req = Some (server_data_req ser), wk_out = [''res,OK''], wk_closed = False\<rparr>],
      rl_handlers := rl_handlers s1 @ [HDone],
      rl_waitWS := cmap_Remove ser (rl_waitWS s1), rl_conns := cmap_Set ser (Suc n, n) (rl_conns s1),
      rl_copies := rl_copies s1 @ [(ser, Suc n, n, False)], rl_paired := (ser, Suc n, n) # rl_paired s1\<rparr>"
    using serve_run [OF inv1 _ _ commas(2), of "Suc n" n] by (simp add: s' s1_def)
  have len: "length ((rl_socks s)[c := x]) = n" for x by (simp add: n)
  show ?thesis
    using cn slot(2) fields_simps(5) [OF commas(2,3,1)] W
    by (simp add: run s1 told_def nth_append len nth_list_update cmap_facts n [symmetric])
qed

text \<open>Registration, and two registrations of one name at once.\<close>

definition register_events :: "nat \<Rightarrow> string \<Rightarrow> relay_event list" where
  "register_events n name =
     [RvConnect, RvRequest n True (Some (server_server_req name)), RvHandler n True, RvHandler n True]"

lemma start_fields [simp]:
  "rl_socks NewSrvServer = []" "rl_handlers NewSrvServer = []" "rl_slotobjs NewSrvServer = []"
  "rl_copies NewSrvServer = []" "rl_paired NewSrvServer = []"
  "cmap_ok (rl_slots NewSrvServer)" "cmap_Get q (rl_slots NewSrvServer) = None"
  "cmap_ok (rl_waitWS NewSrvServer)" "cmap_Get q (rl_waitWS NewSrvServer) = None"
  by (simp_all add: NewSrvServer_def cmap_ok_create fun_cong [OF cmap_Get_create])

lemma register_run:
  assumes "CHR '','' \<notin> set name"
  shows "relay_run (register_events 0 name) =
    NewSrvServer\<lparr>rl_socks := [\<lparr>wk_req = Some (server_server_req name), wk_out = [''res,OK''], wk_closed = False\<rparr>],
      rl_handlers := [HDone], rl_slots := cmap_Set name 0 (rl_slots NewSrvServer),
      rl_slotobjs := [\<lparr>sl_name = name, sl_conn = 0, sl_beats = 0, sl_pc = SLoop\<rparr>]\<rparr>"
  by (simp add: register_events_def relay_step_def serve_request_def fields_simps [OF assms assms assms] upd_sock_def
      set_handler_def handler_step_def sock_write_def)

theorem relay_connects_witness:
  "rl_copies (foldl relay_step (relay_run (register_events 0 ''a''))
     (ask_events 1 0 ''a'' ''a-1'' ''s5'' @ serve_events 2 ''a-1'')) = [(''a-1'', 2, 1, False)]"
proof -
  define s where "s = relay_run (register_events 0 ''a'')"
  have f: "1 = length (rl_socks s)" "cmap_Get ''a'' (rl_slots s) = Some 0" "0 < length (rl_slotobjs s)"
    "sl_pc (rl_slotobjs s ! 0) = SLoop" "rl_copies s = []"
    by (simp_all add: s_def register_run cmap_facts)
  have "CHR '','' \<notin> set ''a''" "CHR '','' \<notin> set ''a-1''" "CHR '','' \<notin> set ''s5''" by simp_all
  from relay_connects [OF s_def f(1-4) this refl refl] f(5)
  show ?thesis by (simp add: s_def numeral_2_eq_2 del: foldl_append)
qed

theorem relay_pairing_witness:
  "is_server (reqs (relay_run (register_events 0 ''a'' @ ask_events 1 0 ''a'' ''a-1'' ''s5'' @ serve_events 2 ''a-1''))) 2 ''a-1''"
proof -
  have "rl_copies (relay_run (register_events 0 ''a'' @ ask_events 1 0 ''a'' ''a-1'' ''s5'' @ serve_events 2 ''a-1'')) =
      [(''a-1'', 2, 1, False)]"
  proof -
    have "relay_inv (relay_run (register_events 0 ''a''))" by (rule relay_run_inv)
    from ask_run [OF this, of 1 "''a''" 0 "''a-1''" "''s5''"]
      serve_run [OF relay.run_inv [OF this, of "ask_events 1 0 ''a'' ''a-1'' ''s5''"], of 2 "''a-1''" 1]
    show ?thesis by (simp add: register_run cmap_facts)
  qed
  with relay_pairing [of "register_events 0 ''a'' @ ask_events 1 0 ''a'' ''a-1'' ''s5'' @ serve_events 2 ''a-1''"]
  show ?thesis by simp
qed

section \<open>Heart-beats\<close>

definition heart_beats :: "nat \<Rightarrow> string option list \<Rightarrow> relay_event list" where
  "heart_beats sl rs = concat (map (\<lambda>r. [RvIdle sl True, RvAnswer sl r]) rs)"

definition bad_prefix :: "nat \<Rightarrow> string option list \<Rightarrow> bool" where
  "bad_prefix k rs \<longleftrightarrow> k \<le> length rs \<and> (\<forall>r\<in>set (take k rs). r \<noteq> Some ''res,OK'')"

definition gives_up :: "string option list \<Rightarrow> bool" where
  "gives_up rs \<longleftrightarrow> None \<in> set rs \<or> (\<exists>i. bad_prefix 3 (drop i rs))"

lemma bad_prefix_simps [simp]:
  "bad_prefix 0 rs" "\<not> bad_prefix (Suc k) []"
  "bad_prefix (Suc k) (r # rs) \<longleftrightarrow> r \<noteq> Some ''res,OK'' \<and> bad_prefix k rs"
  by (auto simp: bad_prefix_def)

lemma bad_prefix_mono: "bad_prefix k rs \<Longrightarrow> j \<le> k \<Longrightarrow> bad_prefix j rs"
  unfolding bad_prefix_def using set_take_subset_set_take [of j k rs] by auto

lemma bad_run_Cons: "(\<exists>i. bad_prefix k (drop i (r # rs))) \<longleftrightarrow> bad_prefix k (r # rs) \<or> (\<exists>i. bad_prefix k (drop i rs))"
proof -
  have "(\<exists>i. bad_prefix k (drop i (r # rs))) \<longleftrightarrow> bad_prefix k (drop 0 (r # rs)) \<or> (\<exists>i. bad_prefix k (drop (Suc i) (r # rs)))"
    by (metis not0_implies_Suc)
  then show ?thesis by simp
qed

fun beats :: "nat \<Rightarrow> string option list \<Rightarrow> bool \<times> nat" where
  "beats n [] = (True, n)"
| "beats n (r # rs) = (if fst (beat r n) then beats (snd (beat r n)) rs else beat r n)"

lemma beats_gives_up:
  "n \<le> 2 \<Longrightarrow> fst (beats n rs) \<longleftrightarrow>
     \<not> (None \<in> set rs \<or> bad_prefix (3 - n) rs \<or> (\<exists>i. bad_prefix 3 (drop i rs)))"
proof (induction rs arbitrary: n)
  case Nil
  then show ?case by (auto simp: bad_prefix_def)
next
  case (Cons r rs)
  obtain j where j: "3 - n = Suc j" "j = 2 - n" using Cons.prems by (cases n) auto
  show ?case
  proof (cases r)
    case (Some x)
    show ?thesis
    proof (cases "x = ''res,OK''")
      case True
      have "bad_prefix 3 rs \<Longrightarrow> \<exists>i. bad_prefix 3 (drop i rs)" by (rule exI [of _ 0]) simp
      moreover have "\<not> bad_prefix (3 - n) (r # rs)" unfolding j(1) using True Some by simp
      moreover have "\<not> bad_prefix 3 (r # rs)" using True Some by (simp add: numeral_3_eq_3)
      ultimately show ?thesis
        using True Some Cons.IH [of 0] by (auto simp: beat_def bad_run_Cons)
    next
      case False
      have pre: "bad_prefix 3 (r # rs) \<Longrightarrow> bad_prefix (3 - n) (r # rs)" by (erule bad_prefix_mono) (rule diff_le_self)
      show ?thesis
      proof (cases "n = 2")
        case True
        with False Some show ?thesis by (simp add: beat_def)
      next
        case n2: False
        then have "n + 1 \<le> 2" "3 - (n + 1) = j" using Cons.prems j by simp_all
        with Cons.IH [of "n + 1"] pre False Some n2 j show ?thesis
          by (auto simp: beat_def bad_run_Cons)
      qed
    qed
  qed (simp add: beat_def)
qed

lemma heart_beat_step:
  assumes "sl < length (rl_slotobjs s)" "sl_pc (rl_slotobjs s ! sl) = SLoop"
    "s' = relay_step (relay_step s (RvIdle sl True)) (RvAnswer sl r)"
  shows "length (rl_slotobjs s') = length (rl_slotobjs s)"
    "sl_pc (rl_slotobjs s' ! sl) = (if fst (beat r (sl_beats (rl_slotobjs s ! sl))) then SLoop else SExit)"
    "sl_beats (rl_slotobjs s' ! sl) = snd (beat r (sl_beats (rl_slotobjs s ! sl)))"
proof -
  have "s' = slot_beat sl r (slot_goto sl SBeat (sock_write True (sl_conn (rl_slotobjs s ! sl)) ''heart-beat'' s))"
    using assms(1,2) by (simp add: assms(3) relay_step_def slot_goto_def upd_slot_def)
  then show "length (rl_slotobjs s') = length (rl_slotobjs s)"
    "sl_pc (rl_slotobjs s' ! sl) = (if fst (beat r (sl_beats (rl_slotobjs s ! sl))) then SLoop else SExit)"
    "sl_beats (rl_slotobjs s' ! sl) = snd (beat r (sl_beats (rl_slotobjs s ! sl)))"
    using assms(1) by (simp_all add: slot_beat_def slot_goto_def upd_slot_def split: prod.split)
qed

lemma heart_beats_over: "sl_pc (rl_slotobjs s ! sl) = SExit \<Longrightarrow> foldl relay_step s (heart_beats sl rs) = s"
  by (induction rs) (simp_all add: heart_beats_def relay_step_def)

lemma heart_beats_run:
  assumes "sl < length (rl_slotobjs s)" "sl_pc (rl_slotobjs s ! sl) = SLoop"
  shows "sl_pc (rl_slotobjs (foldl relay_step s (heart_beats sl rs)) ! sl) =
    (if fst (beats (sl_beats (rl_slotobjs s ! sl)) rs) then SLoop else SExit)"
  using assms
proof (induction rs arbitrary: s)
  case Nil
  then show ?case by (simp add: heart_beats_def)
next
  case (Cons r rs)
  define s' where "s' = relay_step (relay_step s (RvIdle sl True)) (RvAnswer sl r)"
  note st = heart_beat_step [OF Cons.prems s'_def]
  have eq: "foldl relay_step s (heart_beats sl (r # rs)) = foldl relay_step s' (heart_beats sl rs)"
    by (simp add: heart_beats_def s'_def)
  show ?case
  proof (cases "fst (beat r (sl_beats (rl_slotobjs s ! sl)))")
    case True
    with Cons.IH [of s'] Cons.prems st show ?thesis by (simp add: eq)
  next
    case False
    with heart_beats_over [of s' sl rs] st show ?thesis by (simp add: eq)
  qed
qed

text \<open>An idle slot's loop ends after a sequence of heart-beats exactly when one of them failed
  outright or three in a row were answered with something other than \<open>res,OK\<close>; a good answer in
  between starts the count afresh.\<close>

theorem relay_heart_beat:
  assumes "sl < length (rl_slotobjs s)" "sl_pc (rl_slotobjs s ! sl) = SLoop" "sl_beats (rl_slotobjs s ! sl) = 0"
  shows "sl_pc (rl_slotobjs (foldl relay_step s (heart_beats sl rs)) ! sl) = (if gives_up rs then SExit else SLoop)"
proof -
  have "bad_prefix 3 rs \<Longrightarrow> \<exists>i. bad_prefix 3 (drop i rs)" by (rule exI [of _ 0]) simp
  with heart_beats_run [OF assms(1,2), of rs] beats_gives_up [of 0 rs] show ?thesis
    by (auto simp: assms(3) gives_up_def)
qed

theorem relay_heart_beat_witness:
  "sl_pc (rl_slotobjs (foldl relay_step (relay_run (register_events 0 ''a''))
     (heart_beats 0 [Some ''x'', Some ''x'', Some ''res,OK'', Some ''x'', Some ''y'', Some ''z''])) ! 0) = SExit"
proof -
  define s where "s = relay_run (register_events 0 ''a'')"
  have f: "0 < length (rl_slotobjs s)" "sl_pc (rl_slotobjs s ! 0) = SLoop" "sl_beats (rl_slotobjs s ! 0) = 0"
    by (simp_all add: s_def register_run)
  have "gives_up [Some ''x'', Some ''x'', Some ''res,OK'', Some ''x'', Some ''y'', Some ''z'']"
    unfolding gives_up_def by (intro disjI2 exI [of _ 3]) (simp add: numeral_3_eq_3)
  with relay_heart_beat [OF f] show ?thesis by (simp only: s_def if_True)
qed

section \<open>What the interleavings allow\<close>

definition slot_over :: "slot_pc \<Rightarrow> bool" where
  "slot_over pc \<longleftrightarrow> pc = SExit \<or> pc = SForget \<or> pc = SGone"

definition blocked :: "nat \<Rightarrow> nat \<Rightarrow> string \<Rightarrow> relay \<Rightarrow> bool" where
  "blocked h sl msg s \<longleftrightarrow>
     h < length (rl_handlers s) \<and> rl_handlers s ! h = HSend sl msg \<and>
     sl < length (rl_slotobjs s) \<and> slot_over (sl_pc (rl_slotobjs s ! sl))"

lemma serve_request_frame:
  "(\<exists>p. rl_handlers (serve_request h i ok m s) = (rl_handlers s)[h := p]) \<and>
   rl_slotobjs (serve_request h i ok m s) = rl_slotobjs s"
  by (auto simp: serve_request_def Let_def refuse_def set_handler_def split: option.split)

lemma same_upd: "\<exists>p. xs = xs[h := p]"
  by (metis list_update_id)

lemma handler_step_frame:
  "(rl_handlers s ! h = HSend sl msg \<longrightarrow> handler_step h ok s = s) \<and>
   (\<exists>p xs. rl_handlers (handler_step h ok s) = (rl_handlers s)[h := p] \<and>
      rl_slotobjs (handler_step h ok s) = rl_slotobjs s @ xs)"
  by (cases "rl_handlers s ! h") (auto simp: handler_step_def set_handler_def intro: same_upd)

lemma slot_ops_frame:
  "rl_handlers (slot_message sl ok m s) = rl_handlers s" "rl_handlers (slot_answer sl ser r s) = rl_handlers s"
  "rl_handlers (slot_beat sl r s) = rl_handlers s" "rl_handlers (slot_step sl s) = rl_handlers s"
  "rl_handlers (copy_end c s) = rl_handlers s" "rl_slotobjs (copy_end c s) = rl_slotobjs s"
  "\<exists>x. rl_slotobjs (slot_message sl ok m s) = (rl_slotobjs s)[sl := x]"
  "\<exists>x. rl_slotobjs (slot_answer sl ser r s) = (rl_slotobjs s)[sl := x]"
  "\<exists>x. rl_slotobjs (slot_beat sl r s) = (rl_slotobjs s)[sl := x]"
  "\<exists>x. rl_slotobjs (slot_step sl s) = (rl_slotobjs s)[sl := x]"
  by (auto simp: slot_message_def Let_def slot_answer_def slot_beat_def slot_step_def copy_end_def slot_goto_def
      upd_slot_def intro: same_upd split: prod.split slot_pc.split option.split)

lemma slot_over_step:
  assumes "slot_over (sl_pc (rl_slotobjs s ! sl))" "sl < length (rl_slotobjs s)"
  shows "slot_over (sl_pc (rl_slotobjs (slot_step sl s) ! sl))"
  using assms by (auto simp: slot_over_def slot_step_def Let_def slot_goto_def upd_slot_def)

lemma blocked_step:
  assumes "blocked h sl msg s" shows "blocked h sl msg (relay_step s ev)"
proof -
  have b: "h < length (rl_handlers s)" "rl_handlers s ! h = HSend sl msg" "sl < length (rl_slotobjs s)"
    "slot_over (sl_pc (rl_slotobjs s ! sl))" using assms by (simp_all add: blocked_def)
  have free: "sl_pc (rl_slotobjs s ! sl) \<noteq> SLoop" "sl_pc (rl_slotobjs s ! sl) \<noteq> SAnswer ser"
    "sl_pc (rl_slotobjs s ! sl) \<noteq> SBeat" for ser using b(4) by (auto simp: slot_over_def)
  have other: "blocked h sl msg s'"
    if "rl_handlers s' = (rl_handlers s)[j := p]" "j \<noteq> h" "rl_slotobjs s' = rl_slotobjs s @ xs" for s' j p xs
    using that b by (simp add: blocked_def nth_append)
  have slot: "blocked h sl msg s'"
    if "rl_handlers s' = rl_handlers s" "rl_slotobjs s' = (rl_slotobjs s)[j := x]" "j \<noteq> sl" for s' j x
    using that b by (simp add: blocked_def)
  show ?thesis
  proof (cases ev)
    case RvConnect
    with b show ?thesis by (simp add: relay_step_def blocked_def nth_append)
  next
    case (RvRequest j ok m)
    have "blocked h sl msg (serve_request j i ok x s)" if "j \<noteq> h" for i x
      using serve_request_frame [of j i ok x s] other that by (metis append_Nil2)
    moreover have "blocked h sl msg (set_handler j HDone (sock_close i s))" if "j \<noteq> h" for i
      using other [of _ j HDone "[]"] that by (simp add: set_handler_def)
    ultimately show ?thesis
      using assms b(2) RvRequest by (cases "j = h") (auto simp: relay_step_def split: handler.split option.split)
  next
    case (RvHandler j ok)
    with assms b(2) other handler_step_frame [of s j sl msg ok] show ?thesis
      by (cases "j = h") (auto simp: relay_step_def)
  next
    case (RvSlotMsg sl' ok j)
    have "blocked h sl msg (set_handler j HDone (slot_message sl' ok m s))"
      if "sl_pc (rl_slotobjs s ! sl') = SLoop" "rl_handlers s ! j = HSend sl' m" for m
    proof -
      have "sl' \<noteq> sl" "j \<noteq> h" using that free b(2) by auto
      then have "blocked h sl msg (slot_message sl' ok m s)" using slot slot_ops_frame(1,7) by metis
      with \<open>j \<noteq> h\<close> show ?thesis by (simp add: blocked_def, simp add: set_handler_def)
    qed
    with assms RvSlotMsg show ?thesis by (auto simp: relay_step_def split: handler.split)
  next
    case (RvAnswer sl' r)
    have "sl' \<noteq> sl \<Longrightarrow> blocked h sl msg (slot_answer sl' ser r s)" "sl' \<noteq> sl \<Longrightarrow> blocked h sl msg (slot_beat sl' r s)" for ser
      using slot slot_ops_frame(2,3,8,9) by metis+
    with assms free RvAnswer show ?thesis by (cases "sl' = sl") (auto simp: relay_step_def split: slot_pc.split)
  next
    case (RvIdle sl' ok)
    have "sl' \<noteq> sl \<Longrightarrow> blocked h sl msg (slot_beat sl' None s)" using slot slot_ops_frame(3,9) by metis
    moreover have "sl' \<noteq> sl \<Longrightarrow> blocked h sl msg (slot_goto sl' SBeat (sock_write True i m s))" for i m
      by (rule slot [of _ sl']) (simp_all add: slot_goto_def, simp add: upd_slot_def)
    ultimately show ?thesis using assms free RvIdle by (cases "sl' = sl") (auto simp: relay_step_def)
  next
    case (RvSlot sl')
    have "sl' \<noteq> sl \<Longrightarrow> blocked h sl msg (slot_step sl' s)" using slot slot_ops_frame(4,10) by metis
    moreover have "blocked h sl msg (slot_step sl s)"
    proof -
      obtain x where "rl_slotobjs (slot_step sl s) = (rl_slotobjs s)[sl := x]" using slot_ops_frame(10) by blast
      then have "length (rl_slotobjs (slot_step sl s)) = length (rl_slotobjs s)" by simp
      with b slot_over_step [OF b(4,3)] show ?thesis by (simp add: blocked_def slot_ops_frame)
    qed
    ultimately show ?thesis using assms RvSlot by (cases "sl' = sl") (auto simp: relay_step_def)
  next
    case (RvCopyEnd c)
    with assms show ?thesis by (auto simp: relay_step_def blocked_def slot_ops_frame)
  qed
qed

interpretation blocked: inv_machine relay_step "blocked h sl msg" for h sl msg
  by unfold_locales (rule blocked_step)

text \<open>A client handed to a slot whose loop has ended is stuck: its handler stays blocked on the slot's
  channel whatever happens afterwards.\<close>

theorem relay_client_stuck:
  assumes "h < length (rl_handlers s)" "rl_handlers s ! h = HSend sl msg"
    and "sl < length (rl_slotobjs s)" "slot_over (sl_pc (rl_slotobjs s ! sl))"
  shows "rl_handlers (foldl relay_step s es) ! h = HSend sl msg"
  using blocked.run_inv [of h sl msg s es] assms by (simp add: blocked_def)

text \<open>The run that gets there: the client asks, the exit's connection fails, the client's handler sends.\<close>

definition stuck_events :: "relay_event list" where
  "stuck_events = register_events 0 ''a'' @
     [RvConnect, RvRequest 1 True (Some (client_data_req ''a'' ''a-1'' ''s5'')), RvIdle 0 False, RvSlot 0, RvSlot 0,
      RvHandler 1 True]"

lemma comma_free: "CHR '','' \<notin> set ''a''" "CHR '','' \<notin> set ''a-1''" "CHR '','' \<notin> set ''s5''"
  by simp_all

lemmas fields_run = fields_simps [OF comma_free(1,2,3)] fields_simps [OF comma_free(2,1,1)]

lemmas run_simps = relay_step_def serve_request_def fields_run upd_sock_def set_handler_def handler_step_def
  sock_write_def sock_close_def slot_step_def slot_goto_def upd_slot_def slot_beat_def beat_def cmap_facts

theorem relay_client_stuck_witness:
  "rl_handlers (foldl relay_step (relay_run stuck_events) [RvSlot 0, RvHandler 1 True]) ! 1 =
     HSend 0 (conn_msg ''a-1'' ''s5'') \<and> sl_pc (rl_slotobjs (relay_run stuck_events) ! 0) = SGone"
proof -
  define s where "s = relay_run stuck_events"
  have eq: "s = NewSrvServer\<lparr>rl_socks := [\<lparr>wk_req = Some (server_server_req ''a''), wk_out = [''res,OK''], wk_closed = True\<rparr>,
      \<lparr>wk_req = Some (client_data_req ''a'' ''a-1'' ''s5''), wk_out = [], wk_closed = False\<rparr>],
      rl_handlers := [HDone, HSend 0 (conn_msg ''a-1'' ''s5'')],
      rl_slots := cmap_Remove ''a'' (cmap_Set ''a'' 0 (rl_slots NewSrvServer)),
      rl_waitWS := cmap_Set ''a-1'' 1 (rl_waitWS NewSrvServer),
      rl_slotobjs := [\<lparr>sl_name = ''a'', sl_conn = 0, sl_beats = 0, sl_pc = SGone\<rparr>]\<rparr>"
    unfolding s_def stuck_events_def foldl_append register_run [OF comma_free(1)] by (simp add: run_simps)
  have "1 < length (rl_handlers s)" "rl_handlers s ! 1 = HSend 0 (conn_msg ''a-1'' ''s5'')"
    "0 < length (rl_slotobjs s)" "slot_over (sl_pc (rl_slotobjs s ! 0))" "sl_pc (rl_slotobjs s ! 0) = SGone"
    by (simp_all add: eq slot_over_def)
  with relay_client_stuck [of 1 s 0 "conn_msg ''a-1'' ''s5''" "[RvSlot 0, RvHandler 1 True]"]
  show ?thesis unfolding s_def by blast
qed

text \<open>The check that a slot's name is free and its registration are separate steps, so two exits can both
  be told \<open>res,OK\<close> for one name; when the first of them goes, the name is forgotten while the second
  one's loop still runs, and clients are refused.\<close>

theorem relay_double_registration:
  "\<exists>es. sl_name (rl_slotobjs (relay_run es) ! 0) = ''a'' \<and> sl_name (rl_slotobjs (relay_run es) ! 1) = ''a'' \<and>
     told (relay_run es) 0 \<and> told (relay_run es) 1 \<and> sl_pc (rl_slotobjs (relay_run es) ! 1) = SLoop \<and>
     cmap_Get ''a'' (rl_slots (relay_run es)) = None"
  by (rule exI [of _ "[RvConnect, RvConnect, RvRequest 0 True (Some (server_server_req ''a'')),
      RvRequest 1 True (Some (server_server_req ''a'')), RvHandler 0 True, RvHandler 0 True,
      RvHandler 1 True, RvHandler 1 True, RvIdle 0 False, RvSlot 0, RvSlot 0]"])
    (simp add: run_simps told_def)

text \<open>Looking up a waiting client and taking it from the map are separate steps, so two connections
  with its serial number can both be joined to it.\<close>

theorem relay_double_pairing:
  "\<exists>es. rl_copies (relay_run es) = [(''a-1'', 2, 1, False), (''a-1'', 3, 1, False)]"
proof -
  define r where "r = relay_run (register_events 0 ''a'')"
  define s where "s = foldl relay_step r (ask_events 1 0 ''a'' ''a-1'' ''s5'')"
  have inv: "relay_inv r" unfolding r_def by (rule relay_run_inv)
  note r = register_run [OF comma_free(1), folded r_def]
  have s: "s = NewSrvServer\<lparr>rl_socks := [\<lparr>wk_req = Some (server_server_req ''a''), wk_out = [''res,OK'', server_data_to ''a-1'' ''s5''], wk_closed = False\<rparr>,
      \<lparr>wk_req = Some (client_data_req ''a'' ''a-1'' ''s5''), wk_out = [], wk_closed = False\<rparr>],
      rl_handlers := [HDone, HDone], rl_slots := cmap_Set ''a'' 0 (rl_slots NewSrvServer),
      rl_waitWS := cmap_Set ''a-1'' 1 (rl_waitWS NewSrvServer),
      rl_slotobjs := [\<lparr>sl_name = ''a'', sl_conn = 0, sl_beats = 0, sl_pc = SLoop\<rparr>]\<rparr>"
    using ask_run [OF inv, of 1 "''a''" 0 "''a-1''" "''s5''", folded s_def]
    by (simp add: r cmap_facts)
  have "rl_copies (foldl relay_step s
      [RvConnect, RvConnect, RvRequest 2 True (Some (server_data_req ''a-1'')), RvRequest 3 True (Some (server_data_req ''a-1'')),
       RvHandler 2 True, RvHandler 3 True, RvHandler 2 True, RvHandler 3 True, RvHandler 2 True, RvHandler 3 True,
       RvHandler 2 True, RvHandler 3 True]) = [(''a-1'', 2, 1, False), (''a-1'', 3, 1, False)]"
    by (simp add: s run_simps numeral_2_eq_2 numeral_3_eq_3)
  then show ?thesis unfolding s_def r_def foldl_append [symmetric] by blast
qed

end
