(* ===== verification/Relay_Ends.thy ===== *)
theory Relay_Ends
  imports Relay_Runs
begin

text \<open>
  The two ends of the relay of \<^verbatim>\<open>ws/ws_tun.go\<close>: the exit (\<open>CliServer\<close>), a loop over the commands of
  its slot's connection, and the entrance (\<open>CliClient\<close>), which numbers the connections it accepts.
  What the network answers (whether a write succeeds, which addresses can be dialled, what the
  relay replies) is an argument.
\<close>

section \<open>Connecting to the relay\<close>

datatype net_action =
  DialWS string | DialTCP string | Send string | CloseWS | CloseTCP | ServeSocks | Copy

text \<open>\<open>dialled\<close>: the WebSocket connection is made; \<open>answer\<close>: the reply to the request, none on an error.\<close>

definition ws_connect :: "string \<Rightarrow> string \<Rightarrow> bool \<Rightarrow> string option \<Rightarrow> bool \<times> net_action list" where
  "ws_connect addr req_str dialled answer =
     (if \<not> HasPrefix addr ''ws://'' \<and> \<not> HasPrefix addr ''wss://'' then (False, [])
      else if \<not> dialled then (False, [DialWS addr])
      else if answer \<noteq> Some ''res,OK'' then (False, [DialWS addr, Send req_str, CloseWS])
      else (True, [DialWS addr, Send req_str]))"

section \<open>The exit\<close>

datatype exit_next = Continue | Break | Panic

text \<open>
  One turn of \<^verbatim>\<open>CliServer.Serv\<close> after a message: what the loop does next, the messages written on the
  slot's connection, and the goroutine it starts, if any: with its serial number, and the target it
  is connected to (none: a SOCKS5 session). \<open>ok\<close>: the write succeeds; \<open>dials\<close>: the target answers;
  \<open>joins\<close>: the request of this serial number is accepted by the relay.
\<close>

record exit_turn =
  xt_next :: exit_next
  xt_out :: "string list"
  xt_started :: "(string \<times> string option) list"

definition turn :: "exit_next \<Rightarrow> string list \<Rightarrow> (string \<times> string option) list \<Rightarrow> exit_turn" where
  "turn n out st = \<lparr>xt_next = n, xt_out = out, xt_started = st\<rparr>"

definition cs_message :: "bool \<Rightarrow> (string \<Rightarrow> bool) \<Rightarrow> (string \<Rightarrow> bool) \<Rightarrow> string \<Rightarrow> exit_turn" where
  "cs_message ok dials joins qdata =
     (let req = fields_of qdata; cmd = req ! 0
      in if cmd = ''heart-beat'' then
           (if ok then turn Continue [''res,OK''] [] else turn Break [] [])
         else if cmd = ''server-data'' \<and> length req = 3 then
           (let ser_no = req ! 1; target_addr = req ! 2
            in if target_addr = ''s5'' then
                 (if \<not> ok then turn Break [] []
                  else if joins (server_data_req ser_no) then turn Continue [''res,OK''] [(ser_no, None)]
                  else turn Panic [''res,OK''] [])
               else if \<not> dials target_addr then
                 (if ok then turn Continue [''res,FAIL-1044''] [] else turn Break [] [])
               else if ok then turn Continue [''res,OK''] [(ser_no, Some target_addr)]
               else turn Break [] [])
         else turn Continue [] [])"

text \<open>The loop over the messages that arrive; the end of the list is a failing \<^verbatim>\<open>ReadMessage\<close>.\<close>

fun cs_serve :: "(string \<Rightarrow> bool) \<Rightarrow> (string \<Rightarrow> bool) \<Rightarrow> (bool \<times> string) list \<Rightarrow> exit_turn" where
  "cs_serve dials joins [] = turn Break [] []"
| "cs_serve dials joins ((ok, m) # ms) =
     (let t = cs_message ok dials joins m
      in if xt_next t = Continue then
           (let r = cs_serve dials joins ms
            in turn (xt_next r) (xt_out t @ xt_out r) (xt_started t @ xt_started r))
         else t)"

definition CliServer_Serv ::
  "string \<Rightarrow> string \<Rightarrow> bool \<Rightarrow> string option \<Rightarrow> (string \<Rightarrow> bool) \<Rightarrow> (string \<Rightarrow> bool) \<Rightarrow>
   (bool \<times> string) list \<Rightarrow> net_action list \<times> exit_turn option" where
  "CliServer_Serv ws_addr slot_name dialled answer dials joins ms =
     (let (joined, acts) = ws_connect ws_addr (server_server_req slot_name) dialled answer
      in (acts, if joined then Some (cs_serve dials joins ms) else None))"

text \<open>
  Joining a TCP connection to the relay: the goroutine of the exit (its request is
  \<open>server_data_req\<close>) and of the entrance (\<open>client_data_req\<close>). Refused, the connection is closed;
  otherwise the two directions are copied and, whichever ends first, both are closed once.
\<close>

definition join_relay :: "string \<Rightarrow> string \<Rightarrow> bool \<Rightarrow> string option \<Rightarrow> net_action list" where
  "join_relay ws_addr req dialled answer =
     (let (joined, acts) = ws_connect ws_addr req dialled answer
      in if joined then acts @ [Copy, CloseTCP, CloseWS] else acts @ [CloseTCP])"

section \<open>The entrance\<close>

record cli_client =
  cc_slot_name :: string
  cc_ser_no_seed :: "16 word"
  cc_target_addr :: string

definition cc_accept :: "cli_client \<Rightarrow> string \<times> cli_client" where
  "cc_accept s =
     (let seed = cc_ser_no_seed s + 1
      in (cc_slot_name s @ ''-'' @ Itoa (uint seed), s\<lparr>cc_ser_no_seed := seed\<rparr>))"

definition cc_connCopy :: "cli_client \<Rightarrow> string \<Rightarrow> string \<Rightarrow> bool \<Rightarrow> string option \<Rightarrow> net_action list" where
  "cc_connCopy s ser_no ws_addr dialled answer =
     join_relay ws_addr (client_data_req (cc_slot_name s) ser_no (cc_target_addr s)) dialled answer"

text \<open>The serial numbers of \<open>n\<close> accepted connections.\<close>

fun cc_serials :: "nat \<Rightarrow> cli_client \<Rightarrow> string list" where
  "cc_serials 0 s = []"
| "cc_serials (Suc n) s = (let (ser, s') = cc_accept s in ser # cc_serials n s')"

datatype start_result = Started cli_client int | BadAddr | StartPanic

definition WS_CliClient :: "string \<Rightarrow> string \<Rightarrow> start_result" where
  "WS_CliClient pass addr =
     (let t = go_Split addr '':''
      in if length t < 2 then StartPanic
         else case Atoi (t ! 1) of
           None \<Rightarrow> BadAddr
         | Some port \<Rightarrow> Started \<lparr>cc_slot_name = pass, cc_ser_no_seed = 0, cc_target_addr = addr\<rparr> port)"

datatype ws_mode = RunServer | RunExit | RunEntrance

definition WSMidServ :: "string \<Rightarrow> ws_mode option" where
  "WSMidServ m =
     (if m = ''server-server'' \<or> m = ''ss'' then Some RunServer
      else if m = ''client-server'' \<or> m = ''cs'' then Some RunExit
      else if m = ''client-client'' \<or> m = ''cc'' then Some RunEntrance
      else None)"

section \<open>The exit's answers\<close>

text \<open>Whether a message is one the relay sends and waits to be answered.\<close>

definition is_request :: "string \<Rightarrow> bool" where
  "is_request m \<longleftrightarrow> fields_of m ! 0 = ''heart-beat'' \<or> fields_of m ! 0 = ''server-data'' \<and> length (fields_of m) = 3"

text \<open>A turn that goes on has answered a request with exactly one message, and anything else with
  none; the answer is \<open>res,OK\<close> exactly for a heart-beat, a SOCKS5 request and a target that can be
  dialled; a goroutine is started under the serial number of the message exactly when a data request
  was answered so. The turn panics exactly when a SOCKS5 request was answered \<open>res,OK\<close> and the relay
  then refuses its serial number.\<close>

theorem exit_answers:
  "(let t = cs_message ok dials joins m; q = fields_of m; socks = q ! 2 = ''s5'';
        data = is_request m \<and> q ! 0 \<noteq> ''heart-beat''
    in (xt_next t = Panic \<longleftrightarrow> data \<and> socks \<and> ok \<and> \<not> joins (server_data_req (q ! 1))) \<and>
       (xt_next t = Break \<longleftrightarrow> is_request m \<and> \<not> ok) \<and>
       (xt_out t = (if is_request m \<and> ok then
            (if data \<and> \<not> socks \<and> \<not> dials (q ! 2) then [''res,FAIL-1044''] else [''res,OK'']) else [])) \<and>
       (xt_started t = (if data \<and> xt_next t = Continue \<and> xt_out t = [''res,OK'']
          then [(q ! 1, if socks then None else Some (q ! 2))] else [])))"
  by (auto simp: cs_message_def is_request_def turn_def Let_def)

section \<open>From the entrance to the exit\<close>

text \<open>Whether the relay, in state \<open>s\<close>, accepts a data connection of the exit with this request.\<close>

definition relay_accepts :: "relay \<Rightarrow> string \<Rightarrow> bool" where
  "relay_accepts s req \<longleftrightarrow>
     (\<exists>ser. fields_of req = [''server-data'', ser] \<and> cmap_Get ser (rl_waitWS s) \<noteq> None)"

lemma Itoa_no_char: "\<not> is_digit c \<Longrightarrow> c \<noteq> CHR ''-'' \<Longrightarrow> c \<notin> set (Itoa n)"
  by (auto simp: Itoa_def nat_digits_no_char)

lemma serial_comma_free: "CHR '','' \<notin> set (cc_slot_name s) \<Longrightarrow> CHR '','' \<notin> set (fst (cc_accept s))"
  by (simp add: cc_accept_def Let_def Itoa_no_char is_digit_def)

text \<open>C18: a connection accepted by an entrance whose exit is registered reaches it: the relay's message,
  read by the exit, makes it answer \<open>res,OK\<close> and start a goroutine under the entrance's serial number
  and with the entrance's target, and the relay then accepts the request that this goroutine makes.
  Without interference the turn that could panic does not.\<close>

theorem tunnel_opens:
  assumes s: "s = relay_run es" and n: "n = length (rl_socks s)"
    and slot: "cmap_Get (cc_slot_name cl) (rl_slots s) = Some sl" "sl < length (rl_slotobjs s)"
      "sl_pc (rl_slotobjs s ! sl) = SLoop"
    and commas: "CHR '','' \<notin> set (cc_slot_name cl)" "CHR '','' \<notin> set (cc_target_addr cl)"
    and ser: "ser = fst (cc_accept cl)"
    and s': "s' = foldl relay_step s (ask_events n sl (cc_slot_name cl) ser (cc_target_addr cl))"
    and m: "m = last (wk_out (rl_socks s' ! sl_conn (rl_slotobjs s ! sl)))"
    and reach: "cc_target_addr cl = ''s5'' \<or> dials (cc_target_addr cl)"
  shows "cs_message True dials (relay_accepts s') m =
      turn Continue [''res,OK''] [(ser, if cc_target_addr cl = ''s5'' then None else Some (cc_target_addr cl))] \<and>
    relay_accepts s' (server_data_req ser)"
proof -
  have inv: "relay_inv s" unfolding s by (rule relay_run_inv)
  have cs: "CHR '','' \<notin> set ser" unfolding ser by (rule serial_comma_free [OF commas(1)])
  note run = ask_run [OF inv n slot commas(1) cs commas(2), folded s']
  define c where "c = sl_conn (rl_slotobjs s ! sl)"
  have "asked (reqs s) c [''server-server'', sl_name (rl_slotobjs s ! sl)]"
    using inv slot by (simp add: relay_inv_def slots_ok_def c_def)
  then have cn: "c < length (rl_socks s)" by (simp add: asked_def)
  then have "m = server_data_to ser (cc_target_addr cl)"
    unfolding m c_def [symmetric] run by (simp add: c_def [symmetric] nth_append)
  then have f: "fields_of m = [''server-data'', ser, cc_target_addr cl]"
    using fields_simps(5) [OF cs commas(2,1)] by simp
  have "cmap_ok (rl_waitWS s)" using inv by (simp add: relay_inv_def waits_ok_def)
  then have acc: "relay_accepts s' (server_data_req ser)"
    using fields_simps(2) [OF cs commas(2,1)] by (simp add: relay_accepts_def run cmap_facts)
  with reach f show ?thesis by (auto simp: cs_message_def Let_def)
qed

theorem tunnel_opens_witness:
  "relay_accepts (foldl relay_step (relay_run (register_events 0 ''a''))
     (ask_events 1 0 ''a'' ''a-1'' ''s5'')) (server_data_req ''a-1'')"
proof -
  define s where "s = relay_run (register_events 0 ''a'')"
  define cl where "cl = \<lparr>cc_slot_name = ''a'', cc_ser_no_seed = 0, cc_target_addr = ''s5''\<rparr>"
  have f: "1 = length (rl_socks s)" "cmap_Get (cc_slot_name cl) (rl_slots s) = Some 0" "0 < length (rl_slotobjs s)"
    "sl_pc (rl_slotobjs s ! 0) = SLoop"
    by (simp_all add: s_def register_run cmap_facts cl_def)
  have ser: "''a-1'' = fst (cc_accept cl)"
    unfolding cl_def by code_simp
  have "CHR '','' \<notin> set (cc_slot_name cl)" "CHR '','' \<notin> set (cc_target_addr cl)"
    "cc_target_addr cl = ''s5'' \<or> False"
    by (simp_all add: cl_def)
  from tunnel_opens [OF s_def f this(1,2) ser refl refl this(3)]
  show ?thesis by (simp add: s_def cl_def del: foldl_append)
qed

section \<open>Serial numbers\<close>

lemma cc_serials_nth:
  "i < n \<Longrightarrow> cc_serials n s ! i = cc_slot_name s @ ''-'' @ Itoa (uint (cc_ser_no_seed s + of_nat (Suc i)))"
proof (induction n arbitrary: s i)
  case (Suc n)
  then show ?case
    by (cases i) (simp_all add: cc_accept_def Let_def add.assoc)
qed simp

lemma length_cc_serials [simp]: "length (cc_serials n s) = n"
  by (induction n arbitrary: s) (simp_all add: Let_def split: prod.split)

lemma serial_inj:
  assumes "cc_slot_name s @ ''-'' @ Itoa (uint a) = cc_slot_name s @ ''-'' @ Itoa (uint (b :: 16 word))"
  shows "a = b"
proof -
  have "- (2 ^ 63) \<le> uint w" "uint w < 2 ^ 63" for w :: "16 word"
    using uint_bounded [of w] order.trans [OF _ uint_nonnegative [of w], of "- (2 ^ 63)"] by simp_all
  from Itoa_inj [OF this(1) [of a] this(2) [of a] this(1) [of b] this(2) [of b]] assms show ?thesis
    by (simp add: word_uint_eq_iff)
qed

text \<open>The serial numbers an entrance gives repeat exactly at a distance that is a multiple of 65536:
  up to 65536 connections in a row all have different ones, and then they are used again.\<close>

theorem entrance_serials:
  "list_all (\<lambda>(i, j). (cc_serials n s ! i = cc_serials n s ! j) = (i mod 65536 = j mod 65536))
     (List.product [0..<n] [0..<n])"
proof -
  have "cc_serials n s ! i = cc_serials n s ! j \<longleftrightarrow> i mod 65536 = j mod 65536" if "i < n" "j < n" for i j
  proof -
    have "cc_serials n s ! i = cc_serials n s ! j \<longleftrightarrow> (of_nat (Suc i) :: 16 word) = of_nat (Suc j)"
      using serial_inj [of s "cc_ser_no_seed s + of_nat (Suc i)" "cc_ser_no_seed s + of_nat (Suc j)"]
      unfolding cc_serials_nth [OF that(1)] cc_serials_nth [OF that(2)] by auto
    also have "\<dots> \<longleftrightarrow> (of_nat i :: 16 word) = of_nat j" by simp
    also have "\<dots> \<longleftrightarrow> i mod 65536 = j mod 65536"
      by (simp add: of_nat_eq_iff take_bit_eq_mod unat_of_nat word_unat_eq_iff)
    finally show ?thesis .
  qed
  then show ?thesis by (simp add: list_all_iff)
qed

end
