(* ===== verification/Go_Bufio.thy ===== *)
theory Go_Bufio
  imports Prelude
begin

text \<open>
  What the SOCKS5 server uses of Go's \<^verbatim>\<open>bufio.Reader\<close> and of \<^verbatim>\<open>io.ReadAtLeast\<close>. A connection is the
  list of what its \<^verbatim>\<open>Read\<close> calls will return: some bytes (at most the 4096 of the reader's buffer,
  possibly none), an error, or the negative count that \<^verbatim>\<open>WSConn.Read\<close> returns with an error, on
  which \<^verbatim>\<open>bufio\<close> panics. At the end of the list every read fails.
\<close>

datatype net_read = NetData bytes | NetErr | NetNeg

record bufio =
  bf_buf :: bytes
  bf_net :: "net_read list"

datatype 'a read_result = RdOk 'a | RdErr | RdPanic

definition NewReader :: "net_read list \<Rightarrow> bufio" where
  "NewReader es = \<lparr>bf_buf = [], bf_net = es\<rparr>"

text \<open>\<^verbatim>\<open>Read\<close> into \<open>n\<close> bytes: what is buffered, or else what one read of the connection returns.\<close>

definition bufio_Read :: "nat \<Rightarrow> bufio \<Rightarrow> bytes read_result \<times> bufio" where
  "bufio_Read n r =
     (if n = 0 then (RdOk [], r)
      else if bf_buf r \<noteq> [] then (RdOk (take n (bf_buf r)), r\<lparr>bf_buf := drop n (bf_buf r)\<rparr>)
      else case bf_net r of
        [] \<Rightarrow> (RdErr, r)
      | NetErr # es \<Rightarrow> (RdErr, r\<lparr>bf_net := es\<rparr>)
      | NetNeg # es \<Rightarrow> (RdPanic, r\<lparr>bf_net := es\<rparr>)
      | NetData d # es \<Rightarrow> (RdOk (take n d), \<lparr>bf_buf = drop n d, bf_net = es\<rparr>))"

lemma bufio_Read_progress:
  "bufio_Read n r = (RdOk d, r') \<Longrightarrow> 0 < n \<Longrightarrow>
   length d \<le> n \<and> n - length d + length (bf_net r') < n + length (bf_net r)"
  by (auto simp: bufio_Read_def split: if_splits list.splits net_read.splits)

text \<open>\<^verbatim>\<open>io.ReadAtLeast\<close> with a buffer of exactly the bytes wanted: reads until it is full.\<close>

function ReadAtLeast :: "nat \<Rightarrow> bufio \<Rightarrow> bytes read_result \<times> bufio" where
  "ReadAtLeast n r =
     (if n = 0 then (RdOk [], r)
      else case bufio_Read n r of
        (RdOk d, r') \<Rightarrow>
          (case ReadAtLeast (n - length d) r' of
             (RdOk e, r'') \<Rightarrow> (RdOk (d @ e), r'')
           | (RdErr, r'') \<Rightarrow> (RdErr, r'')
           | (RdPanic, r'') \<Rightarrow> (RdPanic, r''))
      | (RdErr, r') \<Rightarrow> (RdErr, r')
      | (RdPanic, r') \<Rightarrow> (RdPanic, r'))"
  by pat_completeness auto
termination
  by (relation "measure (\<lambda>(n, r). n + length (bf_net r))")
    (use bufio_Read_progress in \<open>auto simp: less_diff_conv2\<close>)

declare ReadAtLeast.simps [simp del]

section \<open>The bytes to come, whatever their fragmentation\<close>

fun net_bytes :: "net_read list \<Rightarrow> bytes" where
  "net_bytes (NetData d # es) = d @ net_bytes es"
| "net_bytes _ = []"

definition bf_stream :: "bufio \<Rightarrow> bytes" where
  "bf_stream r = bf_buf r @ net_bytes (bf_net r)"

text \<open>What the stream ends with: the first read that returns no bytes but an error, or a negative count.\<close>

fun net_panics :: "net_read list \<Rightarrow> bool" where
  "net_panics (NetData d # es) = net_panics es"
| "net_panics (NetNeg # es) = True"
| "net_panics _ = False"

lemma bf_stream_NewReader [simp]: "bf_stream (NewReader es) = net_bytes es" "bf_net (NewReader es) = es"
  by (simp_all add: bf_stream_def NewReader_def)

lemma bufio_Read_ok:
  "bufio_Read n r = (RdOk d, r') \<Longrightarrow>
   bf_stream r = d @ bf_stream r' \<and> length d \<le> n \<and> net_panics (bf_net r') = net_panics (bf_net r)"
  by (auto simp: bufio_Read_def bf_stream_def split: if_splits list.splits net_read.splits)

lemma bufio_Read_fails:
  "bufio_Read n r = (RdErr, r') \<Longrightarrow> bf_stream r = [] \<and> \<not> net_panics (bf_net r)"
  "bufio_Read n r = (RdPanic, r') \<Longrightarrow> bf_stream r = [] \<and> net_panics (bf_net r)"
  by (auto simp: bufio_Read_def bf_stream_def split: if_splits list.splits net_read.splits)

text \<open>Exactly the bytes asked for, in order, when there are that many; a failure or a panic otherwise.\<close>

lemma ReadAtLeast_stream:
  "ReadAtLeast n r = (res, r') \<Longrightarrow>
     res = (if n \<le> length (bf_stream r) then RdOk (take n (bf_stream r))
       else if net_panics (bf_net r) then RdPanic else RdErr) \<and>
     (n \<le> length (bf_stream r) \<longrightarrow>
       bf_stream r' = drop n (bf_stream r) \<and> net_panics (bf_net r') = net_panics (bf_net r))"
proof (induction n r arbitrary: res r' rule: ReadAtLeast.induct)
  case (1 n r)
  show ?case
  proof (cases "n = 0")
    case True
    with "1.prems" show ?thesis by (auto simp: ReadAtLeast.simps)
  next
    case False
    obtain res1 r1 where rd: "bufio_Read n r = (res1, r1)" by (cases "bufio_Read n r")
    show ?thesis
    proof (cases res1)
      case (RdOk d)
      note ok = bufio_Read_ok [OF rd [unfolded RdOk]]
      obtain res2 r2 where e: "ReadAtLeast (n - length d) r1 = (res2, r2)" by (cases "ReadAtLeast (n - length d) r1")
      note IH = "1.IH" [OF False rd [unfolded RdOk, symmetric] refl e]
      have "r' = r2 \<and> res = (case res2 of RdOk x \<Rightarrow> RdOk (d @ x) | _ \<Rightarrow> res2)"
        using "1.prems" False rd RdOk e by (auto simp: ReadAtLeast.simps [of n r] split: read_result.splits)
      with IH ok show ?thesis by (auto simp: not_le)
    next
      case RdErr
      then have "res = RdErr" using "1.prems" False rd by (simp add: ReadAtLeast.simps [of n r])
      with bufio_Read_fails(1) [OF rd [unfolded RdErr]] False show ?thesis by simp
    next
      case RdPanic
      then have "res = RdPanic" using "1.prems" False rd by (simp add: ReadAtLeast.simps [of n r])
      with bufio_Read_fails(2) [OF rd [unfolded RdPanic]] False show ?thesis by simp
    qed
  qed
qed

lemma ReadAtLeast_ok:
  assumes "n \<le> length (bf_stream r)"
  obtains r' where "ReadAtLeast n r = (RdOk (take n (bf_stream r)), r')"
    "bf_stream r' = drop n (bf_stream r)" "net_panics (bf_net r') = net_panics (bf_net r)"
  using ReadAtLeast_stream [of n r] assms by (metis surj_pair)

lemma ReadAtLeast_short:
  assumes "\<not> n \<le> length (bf_stream r)"
  obtains r' where "ReadAtLeast n r = (if net_panics (bf_net r) then RdPanic else RdErr, r')"
  using ReadAtLeast_stream [of n r] assms by (metis surj_pair)

end
