(* ===== verification/Socks5_Wire.thy ===== *)
theory Socks5_Wire
  imports Go_Bufio Go_Strings
begin

text \<open>
  The wire format of \<^verbatim>\<open>go-socks5\<close>: addresses, requests and replies (\<^verbatim>\<open>request.go\<close>) and the list of
  authentication methods (\<^verbatim>\<open>auth.go\<close>). A connection is what it will deliver, the outcomes of the
  writes made to it, what has been written, and what the server did beside.
\<close>

section \<open>Operations on a connection\<close>

record addr_spec =
  FQDN :: bytes
  IP :: bytes
  Port :: int

datatype s5_action = ActDial bytes int | ActProxy | ActCloseTarget | ActCloseConn

record sconn =
  sc_in :: bufio
  sc_writes :: "bool list"
  sc_out :: "bytes list"
  sc_log :: "s5_action list"

datatype s5_err =
  ErrRead | ErrWrite | ErrUnsupportedVersion byte | ErrAuthVersion byte | ErrShortHeader |
  ErrCommandVersion byte | UnrecognizedAddrType | NoSupportedAuth | UserAuthFailed | ErrFormat |
  ErrResolve | ErrBlocked byte | ErrConnect string | ErrUnsupportedCommand byte | ErrProxy

text \<open>An operation returns a value, an error, or panics.\<close>

datatype 'a s5 = Done 'a | Fail s5_err | Crash

type_synonym 'a s5_op = "sconn \<Rightarrow> 'a s5 \<times> sconn"

definition s5_return :: "'a \<Rightarrow> 'a s5_op" where
  "s5_return a c = (Done a, c)"

definition s5_fail :: "s5_err \<Rightarrow> 'a s5_op" where
  "s5_fail e c = (Fail e, c)"

definition s5_bind :: "'a s5_op \<Rightarrow> ('a \<Rightarrow> 'b s5_op) \<Rightarrow> 'b s5_op" where
  "s5_bind m f c =
     (case m c of (Done a, c') \<Rightarrow> f a c' | (Fail e, c') \<Rightarrow> (Fail e, c') | (Crash, c') \<Rightarrow> (Crash, c'))"

definition s5_act :: "s5_action \<Rightarrow> unit s5_op" where
  "s5_act a c = (Done (), c\<lparr>sc_log := sc_log c @ [a]\<rparr>)"

text \<open>The end of the list of outcomes: writes succeed.\<close>

definition s5_write :: "bytes \<Rightarrow> unit s5_op" where
  "s5_write msg c =
     (case sc_writes c of
        False # ws \<Rightarrow> (Fail ErrWrite, c\<lparr>sc_writes := ws\<rparr>)
      | True # ws \<Rightarrow> (Done (), c\<lparr>sc_writes := ws, sc_out := sc_out c @ [msg]\<rparr>)
      | [] \<Rightarrow> (Done (), c\<lparr>sc_out := sc_out c @ [msg]\<rparr>))"

definition s5_lift :: "(bufio \<Rightarrow> 'a read_result \<times> bufio) \<Rightarrow> 'a s5_op" where
  "s5_lift rd c =
     (case rd (sc_in c) of
        (RdOk d, r) \<Rightarrow> (Done d, c\<lparr>sc_in := r\<rparr>)
      | (RdErr, r) \<Rightarrow> (Fail ErrRead, c\<lparr>sc_in := r\<rparr>)
      | (RdPanic, r) \<Rightarrow> (Crash, c\<lparr>sc_in := r\<rparr>))"

definition read_full :: "nat \<Rightarrow> bytes s5_op" where
  "read_full n = s5_lift (ReadAtLeast n)"

text \<open>A single \<^verbatim>\<open>Read\<close> into a buffer: the count, and the buffer overwritten from its start.\<close>

definition read_into :: "bytes \<Rightarrow> (nat \<times> bytes) s5_op" where
  "read_into buf = s5_bind (s5_lift (bufio_Read (length buf)))
     (\<lambda>d. s5_return (length d, d @ drop (length d) buf))"

section \<open>Constants\<close>

definition socks5Version :: byte where "socks5Version = 5"
definition ConnectCommand :: byte where "ConnectCommand = 1"
definition BindCommand :: byte where "BindCommand = 2"
definition AssociateCommand :: byte where "AssociateCommand = 3"
definition ipv4Address :: byte where "ipv4Address = 1"
definition fqdnAddress :: byte where "fqdnAddress = 3"
definition ipv6Address :: byte where "ipv6Address = 4"

datatype reply_code =
  SuccessReply | ServerFailure | RuleFailure | NetworkUnreachable | HostUnreachable |
  ConnectionRefused | TtlExpired | CommandNotSupported | AddrTypeNotSupported

fun code_of :: "reply_code \<Rightarrow> byte" where
  "code_of SuccessReply = 0"
| "code_of ServerFailure = 1"
| "code_of RuleFailure = 2"
| "code_of NetworkUnreachable = 3"
| "code_of HostUnreachable = 4"
| "code_of ConnectionRefused = 5"
| "code_of TtlExpired = 6"
| "code_of CommandNotSupported = 7"
| "code_of AddrTypeNotSupported = 8"

section \<open>Addresses\<close>

text \<open>\<^verbatim>\<open>net.IP.To4\<close> and \<^verbatim>\<open>To16\<close>: \<open>None\<close> is nil.\<close>

definition To4 :: "bytes \<Rightarrow> bytes option" where
  "To4 ip =
     (if length ip = 4 then Some ip
      else if length ip = 16 \<and> take 10 ip = replicate 10 0 \<and> ip ! 10 = 255 \<and> ip ! 11 = 255
      then Some (drop 12 ip) else None)"

definition To16 :: "bytes \<Rightarrow> bytes option" where
  "To16 ip =
     (if length ip = 4 then Some (replicate 10 0 @ [255, 255] @ ip)
      else if length ip = 16 then Some ip else None)"

text \<open>\<^verbatim>\<open>Address\<close>: the host and the port that are joined; the IP address if there is one.\<close>

definition Address :: "addr_spec \<Rightarrow> bytes \<times> int" where
  "Address a = (if length (IP a) \<noteq> 0 then (IP a, Port a) else (FQDN a, Port a))"

definition port_of :: "byte \<Rightarrow> byte \<Rightarrow> int" where
  "port_of a b = push_bit 8 (uint a) OR uint b"

definition readPort :: "addr_spec \<Rightarrow> addr_spec s5_op" where
  "readPort d = s5_bind (read_full 2) (\<lambda>port. s5_return (d\<lparr>Port := port_of (port ! 0) (port ! 1)\<rparr>))"

definition readAddrSpec :: "addr_spec s5_op" where
  "readAddrSpec =
     s5_bind (read_into [0]) (\<lambda>(_, addrType).
       let d = \<lparr>FQDN = [], IP = [], Port = 0\<rparr>
       in if addrType ! 0 = ipv4Address then
            s5_bind (read_full 4) (\<lambda>addr. readPort (d\<lparr>IP := addr\<rparr>))
          else if addrType ! 0 = ipv6Address then
            s5_bind (read_full 16) (\<lambda>addr. readPort (d\<lparr>IP := addr\<rparr>))
          else if addrType ! 0 = fqdnAddress then
            s5_bind (read_into addrType) (\<lambda>(_, addrType).
              s5_bind (read_full (unat (addrType ! 0))) (\<lambda>fqdn. readPort (d\<lparr>FQDN := fqdn\<rparr>)))
          else s5_fail UnrecognizedAddrType)"

text \<open>The bytes of a reply; none when the address is of no known form.\<close>

definition reply_addr :: "addr_spec option \<Rightarrow> (byte \<times> bytes \<times> u16) option" where
  "reply_addr addr =
     (case addr of
        None \<Rightarrow> Some (ipv4Address, [0, 0, 0, 0], 0)
      | Some a \<Rightarrow>
          if FQDN a \<noteq> [] then Some (fqdnAddress, of_nat (length (FQDN a)) # FQDN a, word_of_int (Port a))
          else case To4 (IP a) of
            Some ip \<Rightarrow> Some (ipv4Address, ip, word_of_int (Port a))
          | None \<Rightarrow> (case To16 (IP a) of
              Some ip \<Rightarrow> Some (ipv6Address, ip, word_of_int (Port a))
            | None \<Rightarrow> None))"

definition reply_bytes :: "reply_code \<Rightarrow> byte \<times> bytes \<times> u16 \<Rightarrow> bytes" where
  "reply_bytes resp =
     (\<lambda>(addrType, addrBody, addrPort).
        [socks5Version, code_of resp, 0, addrType] @ addrBody @
        [ucast (drop_bit 8 addrPort), ucast (addrPort AND 0xff)])"

definition sendReply :: "reply_code \<Rightarrow> addr_spec option \<Rightarrow> unit s5_op" where
  "sendReply resp addr =
     (case reply_addr addr of
        None \<Rightarrow> s5_fail ErrFormat
      | Some a \<Rightarrow> s5_write (reply_bytes resp a))"

section \<open>Requests\<close>

record request =
  rq_Command :: byte
  rq_DestAddr :: addr_spec
  rq_realDestAddr :: addr_spec

definition NewRequest :: "request s5_op" where
  "NewRequest =
     s5_bind (read_into [0, 0, 0]) (\<lambda>(n, header).
       if n < 3 then s5_fail ErrShortHeader
       else if header ! 0 \<noteq> socks5Version then s5_fail (ErrCommandVersion (header ! 0))
       else s5_bind readAddrSpec (\<lambda>dest.
         s5_return \<lparr>rq_Command = header ! 1, rq_DestAddr = dest, rq_realDestAddr = dest\<rparr>))"

definition readMethods :: "bytes s5_op" where
  "readMethods = s5_bind (read_into [0]) (\<lambda>(_, header). read_full (unat (header ! 0)))"

section \<open>Reading under any fragmentation\<close>

text \<open>
  \<open>feeds c bs es\<close>: the connection delivers \<open>bs\<close>, in pieces of any size of which none is empty, before
  whatever \<open>es\<close> brings. The following rules run a reader on these bytes; only the header of a
  request has to come in one piece.
\<close>

definition bf_feeds :: "bufio \<Rightarrow> bytes \<Rightarrow> net_read list \<Rightarrow> bool" where
  "bf_feeds r bs es \<longleftrightarrow>
     (\<exists>ps. bf_net r = map NetData ps @ es \<and> [] \<notin> set ps \<and> bf_buf r @ concat ps = bs)"

definition feeds :: "sconn \<Rightarrow> bytes \<Rightarrow> net_read list \<Rightarrow> bool" where
  "feeds c bs es \<longleftrightarrow> bf_feeds (sc_in c) bs es"

text \<open>What an operation that only reads may change.\<close>

definition same_but_in :: "sconn \<Rightarrow> sconn \<Rightarrow> bool" where
  "same_but_in c c' \<longleftrightarrow> sc_out c' = sc_out c \<and> sc_log c' = sc_log c \<and> sc_writes c' = sc_writes c"

lemma same_but_in_simps [simp]: "same_but_in c c" "same_but_in c (c\<lparr>sc_in := r\<rparr>)"
  by (simp_all add: same_but_in_def)

lemma same_but_in_trans [trans]: "same_but_in c c' \<Longrightarrow> same_but_in c' c'' \<Longrightarrow> same_but_in c c''"
  by (simp add: same_but_in_def)

lemma bf_feeds_end: "bf_feeds r [] es \<Longrightarrow> bf_buf r = [] \<and> bf_net r = es"
proof -
  assume "bf_feeds r [] es"
  then obtain ps where "bf_net r = map NetData ps @ es" "[] \<notin> set ps" "bf_buf r @ concat ps = []"
    by (auto simp: bf_feeds_def)
  then show ?thesis by (cases ps) auto
qed

lemma bf_feeds_more: "bf_feeds r bs (map NetData ps @ es) \<Longrightarrow> [] \<notin> set ps \<Longrightarrow> bf_feeds r (bs @ concat ps) es"
proof -
  assume "bf_feeds r bs (map NetData ps @ es)" and ps: "[] \<notin> set ps"
  then obtain qs where "bf_net r = map NetData qs @ map NetData ps @ es" "[] \<notin> set qs" "bf_buf r @ concat qs = bs"
    by (auto simp: bf_feeds_def)
  with ps show ?thesis unfolding bf_feeds_def by (intro exI [of _ "qs @ ps"]) auto
qed

lemma bf_feeds_Read:
  assumes "bf_feeds r bs es" "0 < n" "bs \<noteq> []"
  obtains d r' where "bufio_Read n r = (RdOk d, r')" "d \<noteq> []" "length d \<le> n" "bs = d @ drop (length d) bs"
    "bf_feeds r' (drop (length d) bs) es"
proof -
  obtain ps where ps: "bf_net r = map NetData ps @ es" "[] \<notin> set ps" "bf_buf r @ concat ps = bs"
    using assms(1) by (auto simp: bf_feeds_def)
  show thesis
  proof (cases "bf_buf r = []")
    case True
    with ps assms(3) obtain q qs where q: "ps = q # qs" "q \<noteq> []" by (cases ps) auto
    define d where "d = take n q"
    have "bufio_Read n r = (RdOk d, \<lparr>bf_buf = drop n q, bf_net = map NetData qs @ es\<rparr>)"
      using True q ps assms(2) by (simp add: bufio_Read_def d_def)
    moreover have "drop (length d) bs = drop n q @ concat qs" "bs = d @ drop n q @ concat qs"
      using ps q True by (auto simp: d_def min_def)
    ultimately show thesis
      using that [of d] ps q assms(2) by (auto simp: bf_feeds_def d_def)
  next
    case False
    define d where "d = take n (bf_buf r)"
    have "bufio_Read n r = (RdOk d, r\<lparr>bf_buf := drop n (bf_buf r)\<rparr>)"
      using False assms(2) by (simp add: bufio_Read_def d_def)
    moreover have "drop (length d) bs = drop n (bf_buf r) @ concat ps" "bs = d @ drop n (bf_buf r) @ concat ps"
      using ps by (auto simp: d_def min_def)
    ultimately show thesis
      using that [of d] ps False assms(2) by (auto simp: bf_feeds_def d_def)
  qed
qed

lemma bf_feeds_ReadAtLeast:
  "bf_feeds r (xs @ ys) es \<Longrightarrow> n = length xs \<Longrightarrow>
   \<exists>r'. ReadAtLeast n r = (RdOk xs, r') \<and> bf_feeds r' ys es"
proof (induction n r arbitrary: xs rule: ReadAtLeast.induct)
  case (1 n r)
  show ?case
  proof (cases "n = 0")
    case True
    with "1.prems" show ?thesis by (simp add: ReadAtLeast.simps)
  next
    case False
    then have "0 < n" "xs @ ys \<noteq> []" using "1.prems" by auto
    then obtain d r1 where d: "bufio_Read n r = (RdOk d, r1)" "length d \<le> n"
        "xs @ ys = d @ drop (length d) (xs @ ys)" "bf_feeds r1 (drop (length d) (xs @ ys)) es"
      using bf_feeds_Read [OF "1.prems"(1)] by metis
    have xs: "drop (length d) (xs @ ys) = drop (length d) xs @ ys" "xs = d @ drop (length d) xs"
      using d(2,3) "1.prems"(2) arg_cong [OF d(3), of "take (length xs)"] by auto
    from "1.IH" [OF False d(1) [symmetric] refl d(4) [unfolded xs(1)]] "1.prems"(2)
    obtain r2 where "ReadAtLeast (n - length d) r1 = (RdOk (drop (length d) xs), r2)" "bf_feeds r2 ys es" by auto
    with False d(1) xs(2) show ?thesis by (auto simp: ReadAtLeast.simps [of n r])
  qed
qed

lemma read_full_feeds:
  assumes "feeds c (xs @ ys) es" "n = length xs"
  obtains c' where "read_full n c = (Done xs, c')" "feeds c' ys es" "same_but_in c c'"
proof -
  obtain r' where r: "ReadAtLeast n (sc_in c) = (RdOk xs, r')" "bf_feeds r' ys es"
    using bf_feeds_ReadAtLeast [OF assms(1) [unfolded feeds_def] assms(2)] by auto
  show thesis
    by (rule that [of "c\<lparr>sc_in := r'\<rparr>"]) (simp_all add: read_full_def s5_lift_def feeds_def r)
qed

lemma read_one_feeds:
  assumes "feeds c (x # ys) es" "length buf = 1"
  obtains c' where "read_into buf c = (Done (1, [x]), c')" "feeds c' ys es" "same_but_in c c'"
proof -
  obtain d r' where d: "bufio_Read 1 (sc_in c) = (RdOk d, r')" "d \<noteq> []" "length d \<le> 1"
      "x # ys = d @ drop (length d) (x # ys)" "bf_feeds r' (drop (length d) (x # ys)) es"
    using bf_feeds_Read [OF assms(1) [unfolded feeds_def], of 1] by auto
  then have "d = [x]" by (cases d) auto
  with d assms(2) show thesis
    by (intro that [of "c\<lparr>sc_in := r'\<rparr>"])
      (simp_all add: read_into_def s5_bind_def s5_lift_def s5_return_def feeds_def)
qed

text \<open>At a boundary between reads, the next one delivers a buffer's worth at once.\<close>

lemma read_into_boundary:
  assumes "feeds c [] (NetData d # es)" "length buf \<le> length d" "buf \<noteq> []"
  obtains c' where "read_into buf c = (Done (length buf, take (length buf) d), c')"
    "sc_in c' = \<lparr>bf_buf = drop (length buf) d, bf_net = es\<rparr>" "same_but_in c c'"
  using bf_feeds_end [OF assms(1) [unfolded feeds_def]] assms(2,3) that
  by (fastforce simp: read_into_def s5_bind_def s5_lift_def bufio_Read_def s5_return_def)

section \<open>Addresses are read back\<close>

definition wire_of :: "byte \<times> bytes \<times> u16 \<Rightarrow> bytes" where
  "wire_of = (\<lambda>(t, body, p). t # body @ [ucast (drop_bit 8 p), ucast (p AND 0xff)])"

lemma reply_bytes_wire: "reply_bytes resp w = [socks5Version, code_of resp, 0] @ wire_of w"
  by (simp add: reply_bytes_def wire_of_def split: prod.split)

text \<open>An address as it is read: a name, or else the IP address in its short form; the port modulo 65536.\<close>

definition as_read :: "addr_spec \<Rightarrow> addr_spec" where
  "as_read a =
     (if FQDN a \<noteq> [] then \<lparr>FQDN = FQDN a, IP = [], Port = Port a mod 65536\<rparr>
      else \<lparr>FQDN = [], IP = (case To4 (IP a) of Some ip \<Rightarrow> ip | None \<Rightarrow> IP a), Port = Port a mod 65536\<rparr>)"

lemma port_of_bytes: "port_of (ucast (drop_bit 8 (p :: u16))) (ucast (p AND 0xff)) = uint p"
proof (rule bit_eqI)
  fix n
  have m: "(0xff :: u16) = mask 8" by (simp add: mask_eq_exp_minus_1)
  show "bit (port_of (ucast (drop_bit 8 p)) (ucast (p AND 0xff))) n = bit (uint p) n"
    unfolding m port_of_def by (cases "n < 8") (auto simp: bit_simps dest: bit_imp_le_length)
qed

lemma readPort_feeds:
  assumes "feeds c ([ucast (drop_bit 8 p), ucast (p AND 0xff)] @ ys) es"
  obtains c' where "readPort d c = (Done (d\<lparr>Port := uint (p :: u16)\<rparr>), c')" "feeds c' ys es" "same_but_in c c'"
proof -
  obtain c' where c': "read_full 2 c = (Done [ucast (drop_bit 8 p), ucast (p AND 0xff)], c')" "feeds c' ys es" "same_but_in c c'"
    by (rule read_full_feeds [OF assms, of 2]) auto
  show thesis
    by (rule that [OF _ c'(2,3)]) (simp add: readPort_def s5_bind_def s5_return_def c'(1) port_of_bytes del: push_bit_and)
qed

lemmas s5_op_defs = s5_bind_def s5_return_def s5_fail_def

lemma To4_length: "To4 ip = Some ip' \<Longrightarrow> length ip' = 4"
  by (auto simp: To4_def split: if_splits)

lemma readAddrSpec_feeds:
  assumes w: "reply_addr (Some a) = Some w" "length (FQDN a) < 256"
    and c: "feeds c (wire_of w @ rest) es"
  obtains c' where "readAddrSpec c = (Done (as_read a), c')" "feeds c' rest es" "same_but_in c c'"
proof -
  obtain t body p where wt: "w = (t, body, p)" by (cases w)
  then obtain c1 where c1: "read_into [0] c = (Done (1, [t]), c1)"
      "feeds c1 (body @ [ucast (drop_bit 8 p), ucast (p AND 0xff)] @ rest) es" "same_but_in c c1"
    using c read_one_feeds [of c t _ es "[0]"] by (auto simp: wire_of_def)
  have p: "uint p = Port a mod 65536" if "p = word_of_int (Port a)"
    unfolding that by (simp add: uint_word_of_int)
  have types: "ipv4Address \<noteq> ipv6Address" "ipv4Address \<noteq> fqdnAddress" "ipv6Address \<noteq> fqdnAddress"
    by (simp_all add: ipv4Address_def ipv6Address_def fqdnAddress_def)
  have fixed: "\<exists>c'. s5_bind (read_full (length body)) (\<lambda>addr. readPort (d\<lparr>IP := addr\<rparr>)) c1 =
      (Done (d\<lparr>IP := body, Port := uint p\<rparr>), c') \<and> feeds c' rest es \<and> same_but_in c c'" for d
  proof -
    obtain c2 where c2: "read_full (length body) c1 = (Done body, c2)"
        "feeds c2 ([ucast (drop_bit 8 p), ucast (p AND 0xff)] @ rest) es" "same_but_in c1 c2"
      using read_full_feeds [OF c1(2) refl] by blast
    obtain c3 where "readPort (d\<lparr>IP := body\<rparr>) c2 = (Done (d\<lparr>IP := body, Port := uint p\<rparr>), c3)" "feeds c3 rest es"
        "same_but_in c2 c3"
      using readPort_feeds [OF c2(2), of "d\<lparr>IP := body\<rparr>"] by auto
    with c2 c1 show ?thesis by (auto simp: s5_bind_def intro: same_but_in_trans)
  qed
  consider (name) "FQDN a \<noteq> []" "t = fqdnAddress" "body = of_nat (length (FQDN a)) # FQDN a" "p = word_of_int (Port a)"
    | (ip4) ip where "FQDN a = []" "To4 (IP a) = Some ip" "t = ipv4Address" "body = ip" "p = word_of_int (Port a)"
    | (ip6) ip where "FQDN a = []" "To4 (IP a) = None" "To16 (IP a) = Some ip" "t = ipv6Address" "body = ip" "p = word_of_int (Port a)"
    using w(1) wt by (auto simp: reply_addr_def split: if_splits option.splits)
  then show thesis
  proof cases
    case name
    obtain c2 where c2: "read_into [t] c1 = (Done (1, [of_nat (length (FQDN a))]), c2)"
        "feeds c2 (FQDN a @ [ucast (drop_bit 8 p), ucast (p AND 0xff)] @ rest) es" "same_but_in c1 c2"
      using read_one_feeds [of c1 _ _ es "[t]"] c1(2) name(3) by auto
    have n: "unat (of_nat (length (FQDN a)) :: byte) = length (FQDN a)" using w(2) by (simp add: unat_of_nat)
    obtain c3 where c3: "read_full (length (FQDN a)) c2 = (Done (FQDN a), c3)"
        "feeds c3 ([ucast (drop_bit 8 p), ucast (p AND 0xff)] @ rest) es" "same_but_in c2 c3"
      using read_full_feeds [OF c2(2) refl] by blast
    obtain c4 where c4: "readPort \<lparr>FQDN = FQDN a, IP = [], Port = 0\<rparr> c3 = (Done \<lparr>FQDN = FQDN a, IP = [], Port = uint p\<rparr>, c4)"
        "feeds c4 rest es" "same_but_in c3 c4"
      using readPort_feeds [OF c3(2), of "\<lparr>FQDN = FQDN a, IP = [], Port = 0\<rparr>"] by auto
    have "readAddrSpec c = (Done (as_read a), c4)"
      using c1(1) c2(1) c3(1) c4(1) name n p types
      by (simp add: readAddrSpec_def s5_bind_def Let_def as_read_def)
    then show thesis using that c4 c1 c2 c3 by (blast intro: same_but_in_trans)
  next
    case ip4
    then have "length body = 4" by (auto dest: To4_length)
    with fixed obtain c' where "s5_bind (read_full 4) (\<lambda>addr. readPort (\<lparr>FQDN = [], IP = [], Port = 0\<rparr>\<lparr>IP := addr\<rparr>)) c1 =
      (Done (\<lparr>FQDN = [], IP = [], Port = 0\<rparr>\<lparr>IP := body, Port := uint p\<rparr>), c')" "feeds c' rest es" "same_but_in c c'" by metis
    with that c1(1) ip4 p show thesis
      by (auto simp: readAddrSpec_def s5_bind_def [of "read_into [0]"] Let_def as_read_def)
  next
    case ip6
    then have "length body = 16" "body = IP a" by (auto simp: To16_def To4_def split: if_splits)
    with fixed obtain c' where "s5_bind (read_full 16) (\<lambda>addr. readPort (\<lparr>FQDN = [], IP = [], Port = 0\<rparr>\<lparr>IP := addr\<rparr>)) c1 =
      (Done (\<lparr>FQDN = [], IP = [], Port = 0\<rparr>\<lparr>IP := body, Port := uint p\<rparr>), c')" "feeds c' rest es" "same_but_in c c'" by metis
    with that c1(1) ip6 \<open>body = IP a\<close> p types show thesis
      by (auto simp: readAddrSpec_def s5_bind_def [of "read_into [0]"] Let_def as_read_def)
  qed
qed

section \<open>Property\<close>

text \<open>An address written into a reply (or a request: the format is the same) is read back by
  \<^verbatim>\<open>readAddrSpec\<close>, however the bytes are cut into reads, leaving what follows untouched: a name as it
  is, an IP address in its short form, the port modulo 65536. A name must be shorter than 256 bytes:
  its length is written into one.\<close>

theorem socks_addr_roundtrip:
  assumes "sendReply resp (Some a) c0 = (Done (), c1)" "sc_writes c0 = []" "length (FQDN a) < 256"
    and "feeds c (drop 3 (last (sc_out c1)) @ rest) es"
  shows "\<exists>c'. readAddrSpec c = (Done (as_read a), c') \<and> feeds c' rest es \<and> same_but_in c c'"
proof -
  obtain w where w: "reply_addr (Some a) = Some w"
    using assms(1) by (auto simp: sendReply_def s5_fail_def split: option.splits)
  have "last (sc_out c1) = reply_bytes resp w"
    using assms(1,2) w by (auto simp: sendReply_def s5_write_def)
  then have "drop 3 (last (sc_out c1)) = wire_of w" by (simp add: reply_bytes_wire)
  with readAddrSpec_feeds [OF w assms(3)] assms(4) show ?thesis by metis
qed

definition idle_conn :: "net_read list \<Rightarrow> sconn" where
  "idle_conn es = \<lparr>sc_in = NewReader es, sc_writes = [], sc_out = [], sc_log = []\<rparr>"

theorem socks_addr_roundtrip_witness:
  "\<exists>c'. readAddrSpec (idle_conn [NetData [3, 2], NetData [97], NetData [98, 1, 187, 9]]) =
     (Done \<lparr>FQDN = [97, 98], IP = [], Port = 443\<rparr>, c')"
proof -
  define a where "a = \<lparr>FQDN = [97, 98], IP = [], Port = 443\<rparr>"
  define msg :: bytes where "msg = [5, 0, 0, 3, 2, 97, 98, 1, 187]"
  have s: "sendReply SuccessReply (Some a) (idle_conn []) = (Done (), (idle_conn [])\<lparr>sc_out := [msg]\<rparr>)"
    unfolding a_def msg_def idle_conn_def NewReader_def by code_simp
  have f: "feeds (idle_conn [NetData [3, 2], NetData [97], NetData [98, 1, 187, 9]])
      (drop 3 (last (sc_out ((idle_conn [])\<lparr>sc_out := [msg]\<rparr>))) @ [9]) []"
    unfolding feeds_def bf_feeds_def
    by (intro exI [of _ "[[3, 2], [97], [98, 1, 187, 9]]"]) (simp add: idle_conn_def NewReader_def msg_def)
  have "as_read a = a" by (simp add: as_read_def a_def)
  with socks_addr_roundtrip [OF s _ _ f] show ?thesis by (auto simp: a_def idle_conn_def)
qed

end
