(* ===== verification/Socks5_Server.thy ===== *)
theory Socks5_Server
  imports Socks5_Wire
begin

text \<open>
  The SOCKS5 server of \<^verbatim>\<open>go-socks5\<close>: authentication (\<^verbatim>\<open>auth.go\<close>, \<^verbatim>\<open>credentials.go\<close>), rules
  (\<^verbatim>\<open>ruleset.go\<close>), the commands (\<^verbatim>\<open>request.go\<close>) and the session (\<^verbatim>\<open>socks5.go\<close>). Name resolution,
  dialling and the outcome of the copying belong to the configuration or the network and are
  arguments.
\<close>

section \<open>Authentication\<close>

definition NoAuth :: byte where "NoAuth = 0"
definition noAcceptable :: byte where "noAcceptable = 255"
definition UserPassAuth :: byte where "UserPassAuth = 2"
definition userAuthVersion :: byte where "userAuthVersion = 1"
definition authSuccess :: byte where "authSuccess = 0"
definition authFailure :: byte where "authFailure = 1"

text \<open>The credential store is the predicate of its valid pairs.\<close>

datatype authenticator = NoAuthAuthenticator | UserPassAuthenticator "bytes \<Rightarrow> bytes \<Rightarrow> bool"

fun GetCode :: "authenticator \<Rightarrow> byte" where
  "GetCode NoAuthAuthenticator = NoAuth"
| "GetCode (UserPassAuthenticator valid) = UserPassAuth"

definition StaticCredentials_Valid :: "(bytes \<Rightarrow> bytes option) \<Rightarrow> bytes \<Rightarrow> bytes \<Rightarrow> bool" where
  "StaticCredentials_Valid s user password =
     (case s user of None \<Rightarrow> False | Some pass \<Rightarrow> password = pass)"

text \<open>The method used and the user name, if the method asks for one.\<close>

record auth_context =
  ac_Method :: byte
  ac_Username :: "bytes option"

fun Authenticate :: "authenticator \<Rightarrow> auth_context s5_op" where
  "Authenticate NoAuthAuthenticator =
     s5_bind (s5_write [socks5Version, NoAuth])
       (\<lambda>_. s5_return \<lparr>ac_Method = NoAuth, ac_Username = None\<rparr>)"
| "Authenticate (UserPassAuthenticator valid) =
     s5_bind (s5_write [socks5Version, UserPassAuth]) (\<lambda>_.
     s5_bind (read_full 2) (\<lambda>header.
       if header ! 0 \<noteq> userAuthVersion then s5_fail (ErrAuthVersion (header ! 0))
       else s5_bind (read_full (unat (header ! 1))) (\<lambda>user.
         s5_bind (read_into (take 1 header)) (\<lambda>(_, passlen).
         s5_bind (read_full (unat (passlen ! 0))) (\<lambda>pass.
           if valid user pass then
             s5_bind (s5_write [userAuthVersion, authSuccess])
               (\<lambda>_. s5_return \<lparr>ac_Method = UserPassAuth, ac_Username = Some user\<rparr>)
           else s5_bind (s5_write [userAuthVersion, authFailure]) (\<lambda>_. s5_fail UserAuthFailed))))))"

definition s5_try_write :: "bytes \<Rightarrow> unit s5_op" where
  "s5_try_write msg c = (Done (), snd (s5_write msg c))"

definition noAcceptableAuth :: "'a s5_op" where
  "noAcceptableAuth = s5_bind (s5_try_write [socks5Version, noAcceptable]) (\<lambda>_. s5_fail NoSupportedAuth)"

text \<open>The first method of the client that the server has.\<close>

fun select_method :: "(byte \<Rightarrow> authenticator option) \<Rightarrow> bytes \<Rightarrow> authenticator option" where
  "select_method m [] = None"
| "select_method m (x # xs) = (case m x of Some a \<Rightarrow> Some a | None \<Rightarrow> select_method m xs)"

definition authenticate :: "(byte \<Rightarrow> authenticator option) \<Rightarrow> auth_context s5_op" where
  "authenticate authMethods =
     s5_bind readMethods (\<lambda>methods.
       case select_method authMethods methods of
         Some a \<Rightarrow> Authenticate a
       | None \<Rightarrow> noAcceptableAuth)"

section \<open>Rules, configuration\<close>

record permit_command =
  EnableConnect :: bool
  EnableBind :: bool
  EnableAssociate :: bool

definition PermitAll :: permit_command where
  "PermitAll = \<lparr>EnableConnect = True, EnableBind = True, EnableAssociate = True\<rparr>"

definition PermitNone :: permit_command where
  "PermitNone = \<lparr>EnableConnect = False, EnableBind = False, EnableAssociate = False\<rparr>"

definition PermitCommand_Allow :: "permit_command \<Rightarrow> request \<Rightarrow> bool" where
  "PermitCommand_Allow p req =
     (if rq_Command req = ConnectCommand then EnableConnect p
      else if rq_Command req = BindCommand then EnableBind p
      else if rq_Command req = AssociateCommand then EnableAssociate p
      else False)"

text \<open>
  A dialled target: its local address, and how the two copyings end, in the order in which they do
  (true: with an error). A failed one: the text of the error.
\<close>

datatype dial_result = Dialled bytes int bool bool | DialError string

record s5_config =
  cf_AuthMethods :: "authenticator list"
  cf_Credentials :: "(bytes \<Rightarrow> bytes \<Rightarrow> bool) option"
  cf_Resolver :: "(bytes \<Rightarrow> bytes option) option"
  cf_Rules :: "(request \<Rightarrow> bool) option"
  cf_Rewriter :: "(request \<Rightarrow> addr_spec) option"
  cf_Dial :: "(bytes \<times> int \<Rightarrow> dial_result) option"

record s5_server =
  sv_resolve :: "bytes \<Rightarrow> bytes option"
  sv_allow :: "request \<Rightarrow> bool"
  sv_rewrite :: "(request \<Rightarrow> addr_spec) option"
  sv_dial :: "bytes \<times> int \<Rightarrow> dial_result"
  sv_methods :: "byte \<Rightarrow> authenticator option"

text \<open>\<^verbatim>\<open>New\<close>; the system's name service and \<^verbatim>\<open>net.Dial\<close> are the defaults.\<close>

definition socks5_New :: "(bytes \<Rightarrow> bytes option) \<Rightarrow> (bytes \<times> int \<Rightarrow> dial_result) \<Rightarrow> s5_config \<Rightarrow> s5_server" where
  "socks5_New dns net_dial conf =
     (let methods = (if cf_AuthMethods conf = [] then
            (case cf_Credentials conf of
               Some valid \<Rightarrow> [UserPassAuthenticator valid]
             | None \<Rightarrow> [NoAuthAuthenticator])
          else cf_AuthMethods conf)
      in \<lparr>sv_resolve = (case cf_Resolver conf of Some r \<Rightarrow> r | None \<Rightarrow> dns),
          sv_allow = (case cf_Rules conf of Some r \<Rightarrow> r | None \<Rightarrow> PermitCommand_Allow PermitAll),
          sv_rewrite = cf_Rewriter conf,
          sv_dial = (case cf_Dial conf of Some d \<Rightarrow> d | None \<Rightarrow> net_dial),
          sv_methods = foldl (\<lambda>m a. m(GetCode a \<mapsto> a)) (\<lambda>_. None) methods\<rparr>)"

section \<open>The commands\<close>

definition dial_reply :: "string \<Rightarrow> reply_code" where
  "dial_reply msg =
     (if go_Contains msg ''refused'' then ConnectionRefused
      else if go_Contains msg ''network is unreachable'' then NetworkUnreachable
      else HostUnreachable)"

definition blocked_by_rules :: "request \<Rightarrow> unit s5_op" where
  "blocked_by_rules req =
     s5_bind (sendReply RuleFailure None) (\<lambda>_. s5_fail (ErrBlocked (rq_Command req)))"

text \<open>A deferred action runs whatever the outcome.\<close>

definition s5_defer :: "s5_action \<Rightarrow> 'a s5_op \<Rightarrow> 'a s5_op" where
  "s5_defer a m c = (case m c of (r, c') \<Rightarrow> (r, c'\<lparr>sc_log := sc_log c' @ [a]\<rparr>))"

text \<open>The copying: the first error that comes ends the wait.\<close>

definition proxy_wait :: "bool \<Rightarrow> bool \<Rightarrow> unit s5_op" where
  "proxy_wait e1 e2 =
     s5_bind (s5_act ActProxy) (\<lambda>_. if e1 \<or> e2 then s5_fail ErrProxy else s5_return ())"

definition handleConnect :: "s5_server \<Rightarrow> request \<Rightarrow> unit s5_op" where
  "handleConnect s req =
     (if \<not> sv_allow s req then blocked_by_rules req
      else let target = Address (rq_realDestAddr req)
        in s5_bind (s5_act (ActDial (fst target) (snd target))) (\<lambda>_.
          case sv_dial s target of
            DialError msg \<Rightarrow>
              s5_bind (sendReply (dial_reply msg) None) (\<lambda>_. s5_fail (ErrConnect msg))
          | Dialled ip port e1 e2 \<Rightarrow>
              s5_defer ActCloseTarget
                (s5_bind (sendReply SuccessReply (Some \<lparr>FQDN = [], IP = ip, Port = port\<rparr>))
                  (\<lambda>_. proxy_wait e1 e2))))"

definition handleBind :: "s5_server \<Rightarrow> request \<Rightarrow> unit s5_op" where
  "handleBind s req =
     (if \<not> sv_allow s req then blocked_by_rules req else sendReply CommandNotSupported None)"

definition handleAssociate :: "s5_server \<Rightarrow> request \<Rightarrow> unit s5_op" where
  "handleAssociate s req =
     (if \<not> sv_allow s req then blocked_by_rules req else sendReply CommandNotSupported None)"

text \<open>The destination is resolved in place, then possibly rewritten.\<close>

definition resolve_dest :: "s5_server \<Rightarrow> addr_spec \<Rightarrow> addr_spec option" where
  "resolve_dest s d =
     (if FQDN d \<noteq> [] then map_option (\<lambda>ip. d\<lparr>IP := ip\<rparr>) (sv_resolve s (FQDN d)) else Some d)"

definition rewrite_dest :: "s5_server \<Rightarrow> request \<Rightarrow> request" where
  "rewrite_dest s req =
     (let req1 = req\<lparr>rq_realDestAddr := rq_DestAddr req\<rparr>
      in case sv_rewrite s of None \<Rightarrow> req1 | Some f \<Rightarrow> req1\<lparr>rq_realDestAddr := f req1\<rparr>)"

definition handleRequest :: "s5_server \<Rightarrow> request \<Rightarrow> unit s5_op" where
  "handleRequest s req =
     (case resolve_dest s (rq_DestAddr req) of
        None \<Rightarrow> s5_bind (sendReply HostUnreachable None) (\<lambda>_. s5_fail ErrResolve)
      | Some d \<Rightarrow>
          (let req2 = rewrite_dest s (req\<lparr>rq_DestAddr := d\<rparr>)
           in if rq_Command req = ConnectCommand then handleConnect s req2
              else if rq_Command req = BindCommand then handleBind s req2
              else if rq_Command req = AssociateCommand then handleAssociate s req2
              else s5_bind (sendReply CommandNotSupported None)
                (\<lambda>_. s5_fail (ErrUnsupportedCommand (rq_Command req)))))"

section \<open>The session\<close>

text \<open>A request whose address type is unknown is answered before the session fails.\<close>

definition get_request :: "request s5_op" where
  "get_request c =
     (case NewRequest c of
        (Fail e, c') \<Rightarrow>
          if e = UnrecognizedAddrType then
            s5_bind (sendReply AddrTypeNotSupported None) (\<lambda>_. s5_fail UnrecognizedAddrType) c'
          else (Fail e, c')
      | r \<Rightarrow> r)"

definition ServeConn :: "s5_server \<Rightarrow> unit s5_op" where
  "ServeConn s =
     s5_defer ActCloseConn
       (s5_bind (read_into [0]) (\<lambda>(_, version).
          if version ! 0 \<noteq> socks5Version then s5_fail (ErrUnsupportedVersion (version ! 0))
          else s5_bind (authenticate (sv_methods s)) (\<lambda>_.
            s5_bind get_request (handleRequest s))))"

section \<open>Reading changes neither the output nor the log\<close>

lemma s5_bind_cases:
  assumes "s5_bind m f c = (r, c')"
  obtains (Done) a c1 where "m c = (Done a, c1)" "f a c1 = (r, c')"
  | (Fail) e where "m c = (Fail e, c')" "r = Fail e"
  | (Crash) "m c = (Crash, c')" "r = Crash"
  using assms by (auto simp: s5_bind_def split: prod.splits s5.splits)

text \<open>The operations of the handshake leave the log alone.\<close>

definition quiet_op :: "'a s5_op \<Rightarrow> bool" where
  "quiet_op m \<longleftrightarrow> (\<forall>c. sc_log (snd (m c)) = sc_log c)"

lemma quiet_ops [simp]:
  "quiet_op (s5_return a)" "quiet_op (s5_fail e)" "quiet_op (s5_write msg)" "quiet_op (s5_lift rd)"
  "quiet_op (s5_try_write msg)"
  by (auto simp: quiet_op_def s5_return_def s5_fail_def s5_write_def s5_lift_def s5_try_write_def
      split: list.split bool.split prod.split read_result.split)

lemma quiet_bind: "quiet_op m \<Longrightarrow> (\<And>a. quiet_op (f a)) \<Longrightarrow> quiet_op (s5_bind m f)"
  unfolding quiet_op_def s5_bind_def by (auto split: prod.split s5.split) (metis snd_conv)+

lemma quiet_if: "quiet_op m \<Longrightarrow> quiet_op m' \<Longrightarrow> quiet_op (if b then m else m')"
  by simp

lemma quiet_reads [simp]: "quiet_op (read_full n)" "quiet_op (read_into b)" "quiet_op (sendReply r a)"
  by (auto simp: read_full_def read_into_def sendReply_def intro!: quiet_bind split: option.split)

lemma quiet_readAddrSpec [simp]: "quiet_op (readPort d)" "quiet_op readAddrSpec"
  by (auto simp: readPort_def readAddrSpec_def Let_def intro!: quiet_bind split: prod.split)

lemma quiet_handshake [simp]:
  "quiet_op NewRequest" "quiet_op readMethods" "quiet_op (Authenticate a)" "quiet_op noAcceptableAuth"
  "quiet_op (authenticate ms)"
proof -
  show auth: "quiet_op (Authenticate a)" for a
    by (cases a) (auto intro!: quiet_bind split: prod.split)
  show na: "quiet_op (noAcceptableAuth :: 'a s5_op)"
    by (auto simp: noAcceptableAuth_def intro!: quiet_bind)
  show "quiet_op NewRequest" by (auto simp: NewRequest_def intro!: quiet_bind split: prod.split)
  show rm: "quiet_op readMethods" by (auto simp: readMethods_def intro!: quiet_bind split: prod.split)
  have "quiet_op (noAcceptableAuth :: auth_context s5_op)"
    by (auto simp: noAcceptableAuth_def intro!: quiet_bind)
  then show "quiet_op (authenticate ms)"
    unfolding authenticate_def using auth rm by (auto intro!: quiet_bind split: option.split)
qed

lemma quiet_get_request [simp]: "quiet_op get_request"
proof -
  have "quiet_op (s5_bind (sendReply AddrTypeNotSupported None) (\<lambda>_. s5_fail UnrecognizedAddrType) :: request s5_op)"
    by (intro quiet_bind) simp_all
  moreover have "quiet_op NewRequest" by simp
  ultimately show ?thesis
    unfolding quiet_op_def get_request_def by (auto split: prod.split s5.split) (metis snd_conv)+
qed

end
