(* ===== verification/Socks5_Props.thy ===== *)
theory Socks5_Props
  imports Socks5_Server Ws_Conn
begin

text \<open>
  What the SOCKS5 server guarantees: whom it dials for, what it answers, and what becomes of a
  session when the connection is cut into pieces or breaks off.
\<close>

section \<open>Nothing is dialled without authentication and permission\<close>

lemma quiet_opD: "quiet_op m \<Longrightarrow> m c = (r, c') \<Longrightarrow> sc_log c' = sc_log c"
  unfolding quiet_op_def by (metis snd_conv)

lemma s5_bind_quiet_log:
  assumes "quiet_op m" "s5_bind m f c = (r, c')" "x \<in> set (sc_log c')" "x \<notin> set (sc_log c)"
  obtains a c1 where "m c = (Done a, c1)" "f a c1 = (r, c')" "sc_log c1 = sc_log c"
  using assms(2)
proof (cases rule: s5_bind_cases)
  case (Done a c1)
  then show thesis using that quiet_opD [OF assms(1) Done(1)] by blast
next
  case (Fail e)
  then show thesis using quiet_opD [OF assms(1) Fail(1)] assms(3,4) by simp
next
  case Crash
  then show thesis using quiet_opD [OF assms(1) Crash(1)] assms(3,4) by simp
qed

lemma quiet_in_log: "quiet_op m \<Longrightarrow> m c = (r, c') \<Longrightarrow> x \<in> set (sc_log c') \<Longrightarrow> x \<in> set (sc_log c)"
  using quiet_opD by metis

text \<open>The bytes an operation takes off the connection: what is left then is what follows them.\<close>

lemma s5_bind_Done: "s5_bind m f c = (Done r, c') \<Longrightarrow> \<exists>a c1. m c = (Done a, c1) \<and> f a c1 = (Done r, c')"
  by (auto elim!: s5_bind_cases)

lemma read_full_takes:
  "read_full n c = (Done d, c') \<Longrightarrow> bf_stream (sc_in c) = d @ bf_stream (sc_in c') \<and> length d = n"
  using ReadAtLeast_stream [of n "sc_in c"]
  by (auto simp: read_full_def s5_lift_def split: prod.splits read_result.splits if_splits)

lemma read_into_takes:
  assumes "read_into b c = (Done (k, b'), c')"
  obtains d where "bf_stream (sc_in c) = d @ bf_stream (sc_in c')" "b' = d @ drop (length d) b" "length d \<le> length b"
proof -
  obtain d c1 where "s5_lift (bufio_Read (length b)) c = (Done d, c1)" "c1 = c'" "b' = d @ drop (length d) b"
    using assms by (auto simp: read_into_def s5_return_def elim!: s5_bind_cases)
  with bufio_Read_ok [of "length b" "sc_in c" d] that show thesis
    by (auto simp: s5_lift_def split: prod.splits read_result.splits)
qed

lemma s5_write_takes: "s5_write msg c = (r, c') \<Longrightarrow> sc_in c' = sc_in c"
  by (auto simp: s5_write_def split: list.splits bool.splits)

lemma unat_byte_eq: "unat (b :: byte) = length xs \<Longrightarrow> b = of_nat (length xs) \<and> length xs < 256"
proof -
  assume u: "unat b = length xs"
  have "of_nat (unat b) = b" by simp
  with u show "b = of_nat (length xs) \<and> length xs < 256" using unsigned_less [of b, where 'a = nat] by simp
qed

text \<open>The greeting and the dialogue of a client that gives name and password, or nothing.\<close>

definition greeting :: "bytes \<Rightarrow> bytes" where
  "greeting methods = [socks5Version, of_nat (length methods)] @ methods"

definition credentials_msg :: "bytes \<Rightarrow> bytes \<Rightarrow> bytes" where
  "credentials_msg user pass =
     [userAuthVersion, of_nat (length user)] @ user @ [of_nat (length pass)] @ pass"

text \<open>
  What a client has to send to be authenticated by the method chosen for it: nothing, or a name and
  a password that the store accepts. (The length of the password is read with a single \<^verbatim>\<open>Read\<close>
  into the byte that held the version 1: a \<^verbatim>\<open>Read\<close> that brings nothing leaves it there.)
\<close>

definition proves :: "authenticator option \<Rightarrow> bytes \<Rightarrow> bool" where
  "proves a cred \<longleftrightarrow>
     (case a of
        None \<Rightarrow> False
      | Some NoAuthAuthenticator \<Rightarrow> cred = []
      | Some (UserPassAuthenticator valid) \<Rightarrow>
          (\<exists>user pass. valid user pass \<and> length user < 256 \<and> length pass < 256 \<and>
             (cred = credentials_msg user pass \<or>
              cred = [userAuthVersion, of_nat (length user)] @ user @ pass \<and> length pass = 1)))"

lemma Authenticate_proves:
  assumes "Authenticate a c = (Done ctx, c')"
  obtains cred where "bf_stream (sc_in c) = cred @ bf_stream (sc_in c')" "proves (Some a) cred"
proof (cases a)
  case NoAuthAuthenticator
  with assms have "sc_in c' = sc_in c"
    by (auto simp: s5_return_def dest: s5_write_takes elim!: s5_bind_cases)
  with NoAuthAuthenticator that [of "[]"] show thesis by (simp add: proves_def)
next
  case (UserPassAuthenticator valid)
  define K4 :: "bytes \<Rightarrow> bytes \<Rightarrow> auth_context s5_op" where "K4 user =
      (\<lambda>pass. if valid user pass then
         s5_bind (s5_write [userAuthVersion, authSuccess])
           (\<lambda>_. s5_return \<lparr>ac_Method = UserPassAuth, ac_Username = Some user\<rparr>)
       else s5_bind (s5_write [userAuthVersion, authFailure]) (\<lambda>_. s5_fail UserAuthFailed))" for user
  define K3 where "K3 header = (\<lambda>user. s5_bind (read_into (take 1 header)) (\<lambda>(_, passlen).
      s5_bind (read_full (unat (passlen ! 0))) (K4 user)))" for header :: bytes
  define K2 where "K2 header = (if header ! 0 \<noteq> userAuthVersion then s5_fail (ErrAuthVersion (header ! 0))
      else s5_bind (read_full (unat (header ! 1))) (K3 header))" for header
  have "Authenticate a = s5_bind (s5_write [socks5Version, UserPassAuth]) (\<lambda>_. s5_bind (read_full 2) K2)"
    unfolding UserPassAuthenticator Authenticate.simps K2_def [abs_def] K3_def K4_def by (rule refl)
  then obtain x1 c1 where w: "s5_write [socks5Version, UserPassAuth] c = (Done x1, c1)"
    and r1: "s5_bind (read_full 2) K2 c1 = (Done ctx, c')"
    using assms s5_bind_Done by metis
  obtain header c2 where h1: "read_full 2 c1 = (Done header, c2)" and r2: "K2 header c2 = (Done ctx, c')"
    using s5_bind_Done [OF r1] by blast
  have h: "read_full 2 c1 = (Done header, c2)" "header ! 0 = userAuthVersion"
    and r2': "s5_bind (read_full (unat (header ! 1))) (K3 header) c2 = (Done ctx, c')"
    using h1 r2 by (auto simp: K2_def s5_fail_def split: if_splits)
  obtain user c3 where u: "read_full (unat (header ! 1)) c2 = (Done user, c3)"
    and r3: "K3 header user c3 = (Done ctx, c')"
    using s5_bind_Done [OF r2'] by blast
  obtain v c4 where n': "read_into (take 1 header) c3 = (Done v, c4)"
    and r4': "(case v of (_, passlen) \<Rightarrow> s5_bind (read_full (unat (passlen ! 0))) (K4 user)) c4 = (Done ctx, c')"
    using s5_bind_Done [OF r3 [unfolded K3_def]] by blast
  obtain n b where v': "v = (n, b)" by fastforce
  note n = n' [unfolded v']
  have r4: "s5_bind (read_full (unat (b ! 0))) (K4 user) c4 = (Done ctx, c')" using r4' by (simp add: v')
  obtain pass c5 where p: "read_full (unat (b ! 0)) c4 = (Done pass, c5)" and r5: "K4 user pass c5 = (Done ctx, c')"
    using s5_bind_Done [OF r4] by blast
  have v: "valid user pass" "s5_write [userAuthVersion, authSuccess] c5 = (Done (), c')"
    using r5 by (auto simp: K4_def s5_return_def s5_fail_def split: if_splits dest!: s5_bind_Done)
  from read_full_takes [OF h(1)] h(2) have hd: "header = [userAuthVersion, header ! 1]"
    by (auto simp: numeral_2_eq_2 length_Suc_conv)
  obtain l where l: "bf_stream (sc_in c3) = l @ bf_stream (sc_in c4)" "b = l @ drop (length l) (take 1 header)"
      "length l \<le> length (take 1 header)"
    by (rule read_into_takes [OF n])
  have stream: "bf_stream (sc_in c) = header @ user @ l @ pass @ bf_stream (sc_in c')"
    using read_full_takes [OF h(1)] read_full_takes [OF u] read_full_takes [OF p] l(1)
      s5_write_takes [OF w] s5_write_takes [OF v(2)] by simp
  have lens: "header ! 1 = of_nat (length user)" "length user < 256" "b ! 0 = of_nat (length pass)" "length pass < 256"
    using read_full_takes [OF u] read_full_takes [OF p] unat_byte_eq [of "header ! 1" user] unat_byte_eq [of "b ! 0" pass]
    by simp_all
  have hdr: "header = [userAuthVersion, of_nat (length user)]" by (subst hd) (simp only: lens(1))
  then have "take 1 header = [userAuthVersion]" by simp
  with l(2,3) have "l = [b ! 0] \<or> l = [] \<and> b ! 0 = 1"
    by (cases l) (auto simp: userAuthVersion_def)
  then have "l = [of_nat (length pass)] \<or> l = [] \<and> length pass = 1"
  proof
    assume "l = [] \<and> b ! 0 = 1"
    moreover have "length pass = unat (b ! 0)" using read_full_takes [OF p] by (rule conjunct2)
    ultimately show ?thesis by simp
  qed (simp only: lens(3) simp_thms)
  then have "header @ user @ l @ pass = credentials_msg user pass \<or>
      header @ user @ l @ pass = [userAuthVersion, of_nat (length user)] @ user @ pass \<and> length pass = 1"
    by (elim disjE conjE) (simp_all add: credentials_msg_def hdr)
  then have "proves (Some a) (header @ user @ l @ pass)"
    using v(1) lens(2,4) unfolding proves_def UserPassAuthenticator option.case authenticator.case by blast
  with that [of "header @ user @ l @ pass"] stream show thesis by simp
qed

lemma readMethods_takes:
  assumes "readMethods c = (Done methods, c')" "methods \<noteq> []"
  shows "bf_stream (sc_in c) = of_nat (length methods) # methods @ bf_stream (sc_in c') \<and> length methods < 256"
proof -
  obtain n b c1 where r: "read_into [0] c = (Done (n, b), c1)" "read_full (unat (b ! 0)) c1 = (Done methods, c')"
    using assms(1) by (auto simp: readMethods_def elim!: s5_bind_cases)
  obtain l where l: "bf_stream (sc_in c) = l @ bf_stream (sc_in c1)" "b = l @ drop (length l) [0]" "length l \<le> length [0 :: byte]"
    by (rule read_into_takes [OF r(1)])
  note f = read_full_takes [OF r(2)]
  have "b ! 0 \<noteq> 0" using f assms(2) by auto
  with l(2,3) have "l = [b ! 0]" by (cases l) auto
  with l(1) f unat_byte_eq [of "b ! 0" methods] show ?thesis by auto
qed

lemma authenticate_proves:
  assumes "authenticate m c = (Done ctx, c')"
  obtains methods cred where
    "bf_stream (sc_in c) = of_nat (length methods) # methods @ cred @ bf_stream (sc_in c')" "length methods < 256"
    "proves (select_method m methods) cred"
proof -
  obtain methods c1 where ms: "readMethods c = (Done methods, c1)"
      "(case select_method m methods of Some a \<Rightarrow> Authenticate a | None \<Rightarrow> noAcceptableAuth) c1 = (Done ctx, c')"
    using assms unfolding authenticate_def by (auto elim!: s5_bind_cases)
  then obtain a where a: "select_method m methods = Some a" "Authenticate a c1 = (Done ctx, c')"
    by (auto simp: noAcceptableAuth_def s5_fail_def elim!: s5_bind_cases split: option.splits)
  then have "methods \<noteq> []" by auto
  note r = readMethods_takes [OF ms(1) this]
  obtain cred where "bf_stream (sc_in c1) = cred @ bf_stream (sc_in c')" "proves (Some a) cred"
    by (rule Authenticate_proves [OF a(2)])
  with r a(1) that show thesis by simp
qed

lemma sendReply_log: "sendReply r a c = (x, c') \<Longrightarrow> sc_log c' = sc_log c"
  using quiet_opD [of "sendReply r a"] by simp

lemma proxy_wait_log: "proxy_wait e1 e2 c = (x, c') \<Longrightarrow> sc_log c' = sc_log c @ [ActProxy]"
  by (auto simp: proxy_wait_def s5_op_defs s5_act_def split: if_splits)

lemma blocked_log: "blocked_by_rules req c = (x, c') \<Longrightarrow> sc_log c' = sc_log c"
proof -
  have "quiet_op (blocked_by_rules req)" unfolding blocked_by_rules_def by (intro quiet_bind) simp_all
  then show "blocked_by_rules req c = (x, c') \<Longrightarrow> sc_log c' = sc_log c" by (rule quiet_opD)
qed

lemma handleConnect_dials:
  assumes "handleConnect s req c = (r, c')" "ActDial h p \<in> set (sc_log c')" "ActDial h p \<notin> set (sc_log c)"
  shows "sv_allow s req \<and> Address (rq_realDestAddr req) = (h, p)"
proof (cases "sv_allow s req")
  case False
  with assms show ?thesis by (auto simp: handleConnect_def dest: blocked_log)
next
  case True
  define t where "t = Address (rq_realDestAddr req)"
  define c1 where "c1 = c\<lparr>sc_log := sc_log c @ [ActDial (fst t) (snd t)]\<rparr>"
  have tail: "set (sc_log c') \<subseteq> set (sc_log c1) \<union> {ActProxy, ActCloseTarget}"
  proof (cases "sv_dial s t")
    case (DialError msg)
    have "quiet_op (s5_bind (sendReply (dial_reply msg) None) (\<lambda>_. s5_fail (ErrConnect msg) :: unit s5_op))"
      by (intro quiet_bind) simp_all
    with assms(1) True DialError show ?thesis
      by (auto simp: handleConnect_def t_def [symmetric] Let_def s5_bind_def [of "s5_act _"] s5_act_def c1_def dest: quiet_opD)
  next
    case (Dialled ip port e1 e2)
    with assms(1) True have "s5_defer ActCloseTarget
        (s5_bind (sendReply SuccessReply (Some \<lparr>FQDN = [], IP = ip, Port = port\<rparr>)) (\<lambda>_. proxy_wait e1 e2)) c1 = (r, c')"
      by (simp add: handleConnect_def t_def [symmetric] Let_def s5_bind_def [of "s5_act _"] s5_act_def c1_def)
    then show ?thesis
      by (auto simp: s5_defer_def split: prod.splits elim!: s5_bind_cases dest!: sendReply_log proxy_wait_log)
  qed
  with assms(2,3) True show ?thesis by (auto simp: c1_def t_def)
qed

text \<open>The request the rules and the dialling see: resolved, and rewritten if there is a rewriter.\<close>

definition dials :: "s5_server \<Rightarrow> request \<Rightarrow> bytes \<Rightarrow> int \<Rightarrow> bool" where
  "dials s req h p \<longleftrightarrow> rq_Command req = ConnectCommand \<and>
     (case resolve_dest s (rq_DestAddr req) of
        None \<Rightarrow> False
      | Some d \<Rightarrow> (let q = rewrite_dest s (req\<lparr>rq_DestAddr := d\<rparr>)
                  in sv_allow s q \<and> Address (rq_realDestAddr q) = (h, p)))"

lemma handleRequest_dials:
  assumes "handleRequest s req c = (r, c')" "ActDial h p \<in> set (sc_log c')" "ActDial h p \<notin> set (sc_log c)"
  shows "dials s req h p"
proof -
  have fails: "x \<in> set (sc_log c)" if "s5_bind (sendReply code None) (\<lambda>_. s5_fail e :: unit s5_op) c = (r, c')"
    "x \<in> set (sc_log c')" for code e x
    using that by (auto elim!: s5_bind_cases dest: sendReply_log simp: s5_fail_def)
  have plain: "x \<in> set (sc_log c)" if "handleBind s q c = (r, c') \<or> handleAssociate s q c = (r, c')" "x \<in> set (sc_log c')" for q x
    using that by (auto simp: handleBind_def handleAssociate_def split: if_splits dest: blocked_log sendReply_log)
  show ?thesis
  proof (cases "resolve_dest s (rq_DestAddr req)")
    case None
    with assms fails show ?thesis by (auto simp: handleRequest_def)
  next
    case (Some d)
    define q where "q = rewrite_dest s (req\<lparr>rq_DestAddr := d\<rparr>)"
    show ?thesis
    proof (cases "rq_Command req = ConnectCommand")
      case True
      with assms Some have "handleConnect s q c = (r, c')" by (simp add: handleRequest_def q_def Let_def)
      from handleConnect_dials [OF this assms(2,3)] True Some show ?thesis by (simp add: dials_def q_def Let_def)
    next
      case False
      with assms Some plain fails show ?thesis
        by (auto simp: handleRequest_def q_def [symmetric] Let_def split: if_splits)
    qed
  qed
qed

text \<open>C20: whatever a client sends, in whatever pieces, a connection is dialled only after the client has
  sent a greeting and then what the first method of its greeting that the server has asks for:
  nothing, or a user name and a password that the credential store accepts, exactly as they stand in
  the bytes it sent. Up to then nothing has been dialled; what is dialled afterwards is the (resolved,
  rewritten) address of the connect request read from the bytes that follow, if the rules allow it.\<close>

theorem socks_guarded:
  assumes "ServeConn s c = (r, c')" "sc_log c = []" "ActDial h p \<in> set (sc_log c')"
  shows "\<exists>methods cred c1 req c2.
    bf_stream (sc_in c) = greeting methods @ cred @ bf_stream (sc_in c1) \<and> length methods < 256 \<and>
    proves (select_method (sv_methods s) methods) cred \<and> sc_log c1 = [] \<and>
    get_request c1 = (Done req, c2) \<and> sc_log c2 = [] \<and>
    ActDial h p \<in> set (sc_log (snd (handleRequest s req c2))) \<and> dials s req h p"
proof -
  obtain c0 where c0: "s5_bind (read_into [0]) (\<lambda>(_, version).
          if version ! 0 \<noteq> socks5Version then s5_fail (ErrUnsupportedVersion (version ! 0))
          else s5_bind (authenticate (sv_methods s)) (\<lambda>_. s5_bind get_request (handleRequest s))) c = (r, c0)"
      "ActDial h p \<in> set (sc_log c0)"
    using assms(1,3) by (auto simp: ServeConn_def s5_defer_def split: prod.splits)
  have nin: "ActDial h p \<notin> set (sc_log c)" using assms(2) by simp
  obtain v c1 where rd: "read_into [0] c = (Done v, c1)" and c1: "(case v of (_, version) \<Rightarrow>
          if version ! 0 \<noteq> socks5Version then s5_fail (ErrUnsupportedVersion (version ! 0))
          else s5_bind (authenticate (sv_methods s)) (\<lambda>_. s5_bind get_request (handleRequest s))) c1 = (r, c0)"
      "sc_log c1 = sc_log c"
    by (rule s5_bind_quiet_log [OF quiet_reads(2) c0 nin])
  obtain n version where v: "v = (n, version)" by fastforce
  then have b: "s5_bind (authenticate (sv_methods s)) (\<lambda>_. s5_bind get_request (handleRequest s)) c1 = (r, c0)"
    "version ! 0 = socks5Version"
    using c0(2) nin c1 by (auto simp: s5_fail_def split: if_splits)
  obtain l where l: "bf_stream (sc_in c) = l @ bf_stream (sc_in c1)" "version = l @ drop (length l) [0]"
      "length l \<le> length [0 :: byte]"
    by (rule read_into_takes [OF rd [unfolded v]])
  then have "l = [socks5Version]" using b(2) by (cases l) (auto simp: socks5Version_def)
  note hd = l(1) [unfolded this]
  have nin1: "ActDial h p \<notin> set (sc_log c1)" using nin c1(2) by simp
  obtain ctx c2 where c2: "authenticate (sv_methods s) c1 = (Done ctx, c2)"
      "s5_bind get_request (handleRequest s) c2 = (r, c0)" "sc_log c2 = sc_log c1"
    by (rule s5_bind_quiet_log [OF quiet_handshake(5) b(1) c0(2) nin1])
  obtain methods cred where m:
    "bf_stream (sc_in c1) = of_nat (length methods) # methods @ cred @ bf_stream (sc_in c2)" "length methods < 256"
    "proves (select_method (sv_methods s) methods) cred"
    by (rule authenticate_proves [OF c2(1)])
  have nin2: "ActDial h p \<notin> set (sc_log c2)" using nin1 c2(3) by simp
  obtain req c3 where gr: "get_request c2 = (Done req, c3)" and c3: "handleRequest s req c3 = (r, c0)" "sc_log c3 = sc_log c2"
    by (rule s5_bind_quiet_log [OF quiet_get_request c2(2) c0(2) nin2])
  have "dials s req h p" using handleRequest_dials [OF c3(1) c0(2)] c3(2) nin2 by simp
  moreover have "bf_stream (sc_in c) = greeting methods @ cred @ bf_stream (sc_in c2)"
    using hd m(1) by (simp add: greeting_def)
  ultimately show ?thesis
    using m(2,3) gr c3 c0(2) c2(3) c1(2) assms(2) by (metis snd_conv)
qed

section \<open>A session that is served\<close>

definition request_bytes :: "byte \<Rightarrow> byte \<times> bytes \<times> u16 \<Rightarrow> bytes" where
  "request_bytes cmd w = [socks5Version, cmd, 0] @ wire_of w"

definition puts :: "bytes \<Rightarrow> sconn \<Rightarrow> sconn" where
  "puts msg c = c\<lparr>sc_out := sc_out c @ [msg]\<rparr>"

lemma s5_write_ok: "sc_writes c = [] \<Longrightarrow> s5_write msg c = (Done (), puts msg c)"
  by (simp add: s5_write_def puts_def)

lemma puts_simps [simp]:
  "sc_in (puts msg c) = sc_in c" "sc_writes (puts msg c) = sc_writes c" "sc_log (puts msg c) = sc_log c"
  "sc_out (puts msg c) = sc_out c @ [msg]" "feeds (puts msg c) bs es = feeds c bs es"
  by (simp_all add: puts_def feeds_def)

lemma unat_length_byte: "length xs < 256 \<Longrightarrow> unat (of_nat (length xs) :: byte) = length xs"
  by (simp add: unat_of_nat)

lemma readMethods_feeds:
  assumes "feeds c (of_nat (length methods) # methods @ ys) es" "length methods < 256"
  obtains c' where "readMethods c = (Done methods, c')" "feeds c' ys es" "same_but_in c c'"
proof -
  obtain c1 where c1: "read_into [0] c = (Done (1, [of_nat (length methods)]), c1)" "feeds c1 (methods @ ys) es" "same_but_in c c1"
    using read_one_feeds [OF assms(1), of "[0]"] by auto
  obtain c2 where c2: "read_full (length methods) c1 = (Done methods, c2)" "feeds c2 ys es" "same_but_in c1 c2"
    by (rule read_full_feeds [OF c1(2) refl])
  show thesis
    by (rule that [of c2])
      (use c1 c2 assms(2) in \<open>auto simp: readMethods_def s5_bind_def unat_length_byte intro: same_but_in_trans\<close>)
qed

text \<open>Authentication by name and password, for credentials that are valid and for some that are not.\<close>

lemma UserPass_feeds:
  assumes c: "feeds c (credentials_msg user pass @ ys) es" "length user < 256" "length pass < 256" "sc_writes c = []"
  obtains c' where "Authenticate (UserPassAuthenticator valid) c =
      (if valid user pass then Done \<lparr>ac_Method = UserPassAuth, ac_Username = Some user\<rparr> else Fail UserAuthFailed, c')"
    "feeds c' ys es" "sc_writes c' = []" "sc_log c' = sc_log c"
    "sc_out c' = sc_out c @ [[socks5Version, UserPassAuth],
       [userAuthVersion, if valid user pass then authSuccess else authFailure]]"
proof -
  define c0 where "c0 = puts [socks5Version, UserPassAuth] c"
  have f0: "feeds c0 ([userAuthVersion, of_nat (length user)] @ user @ of_nat (length pass) # pass @ ys) es"
    using c(1) by (simp add: c0_def credentials_msg_def)
  obtain c1 where c1: "read_full 2 c0 = (Done [userAuthVersion, of_nat (length user)], c1)"
      "feeds c1 (user @ of_nat (length pass) # pass @ ys) es" "same_but_in c0 c1"
    by (rule read_full_feeds [OF f0, of 2]) simp
  obtain c2 where c2: "read_full (length user) c1 = (Done user, c2)"
      "feeds c2 (of_nat (length pass) # pass @ ys) es" "same_but_in c1 c2"
    by (rule read_full_feeds [OF c1(2) refl])
  obtain c3 where c3: "read_into [userAuthVersion] c2 = (Done (1, [of_nat (length pass)]), c3)"
      "feeds c3 (pass @ ys) es" "same_but_in c2 c3"
    by (rule read_one_feeds [OF c2(2), of "[userAuthVersion]"]) simp
  obtain c4 where c4: "read_full (length pass) c3 = (Done pass, c4)" "feeds c4 ys es" "same_but_in c3 c4"
    by (rule read_full_feeds [OF c3(2) refl])
  have s: "same_but_in c0 c4" using c1(3) c2(3) c3(3) c4(3) by (blast intro: same_but_in_trans)
  define out where "out = [userAuthVersion, if valid user pass then authSuccess else authFailure]"
  have w: "sc_writes c4 = []" using s c(4) by (simp add: same_but_in_def c0_def)
  have run: "Authenticate (UserPassAuthenticator valid) c =
      (if valid user pass then Done \<lparr>ac_Method = UserPassAuth, ac_Username = Some user\<rparr> else Fail UserAuthFailed, puts out c4)"
    using c1(1) c2(1) c3(1) c4(1) c(2,3) w
    by (simp add: s5_bind_def s5_write_ok c(4) c0_def [symmetric] unat_length_byte s5_return_def s5_fail_def out_def)
  have fields: "feeds (puts out c4) ys es" "sc_writes (puts out c4) = []" "sc_log (puts out c4) = sc_log c"
    "sc_out (puts out c4) = sc_out c @ [[socks5Version, UserPassAuth], out]"
    using s w c4(2) by (auto simp: same_but_in_def c0_def)
  show thesis using that run fields unfolding out_def by blast
qed

text \<open>What a client that is let in sends after its greeting, and the answers it gets up to there.\<close>

definition dialogue :: "authenticator \<Rightarrow> bytes \<Rightarrow> bytes list \<Rightarrow> bool" where
  "dialogue a cred replies \<longleftrightarrow>
     (case a of
        NoAuthAuthenticator \<Rightarrow> cred = [] \<and> replies = [[socks5Version, NoAuth]]
      | UserPassAuthenticator valid \<Rightarrow>
          (\<exists>user pass. cred = credentials_msg user pass \<and> valid user pass \<and> length user < 256 \<and> length pass < 256 \<and>
             replies = [[socks5Version, UserPassAuth], [userAuthVersion, authSuccess]]))"

lemma Authenticate_feeds:
  assumes "dialogue a cred replies" "feeds c (cred @ ys) es" "sc_writes c = []"
  obtains ctx c' where "Authenticate a c = (Done ctx, c')" "feeds c' ys es" "sc_writes c' = []"
    "sc_log c' = sc_log c" "sc_out c' = sc_out c @ replies"
proof (cases a)
  case NoAuthAuthenticator
  with assms have "Authenticate a c = (Done \<lparr>ac_Method = NoAuth, ac_Username = None\<rparr>, puts [socks5Version, NoAuth] c)"
    by (simp add: s5_bind_def s5_write_ok s5_return_def)
  with NoAuthAuthenticator assms that show thesis by (simp add: dialogue_def)
next
  case (UserPassAuthenticator valid)
  then obtain user pass where u: "cred = credentials_msg user pass" "valid user pass" "length user < 256"
      "length pass < 256" "replies = [[socks5Version, UserPassAuth], [userAuthVersion, authSuccess]]"
    using assms(1) by (auto simp: dialogue_def)
  obtain c' where "Authenticate (UserPassAuthenticator valid) c =
      (if valid user pass then Done \<lparr>ac_Method = UserPassAuth, ac_Username = Some user\<rparr> else Fail UserAuthFailed, c')"
    "feeds c' ys es" "sc_writes c' = []" "sc_log c' = sc_log c"
    "sc_out c' = sc_out c @ [[socks5Version, UserPassAuth],
       [userAuthVersion, if valid user pass then authSuccess else authFailure]]"
    by (rule UserPass_feeds [OF assms(2) [unfolded u(1)] u(3,4) assms(3)])
  with that u(2,5) UserPassAuthenticator show thesis by simp
qed

text \<open>A request whose first read brings its header.\<close>

lemma get_request_feeds:
  assumes "reply_addr (Some a) = Some w" "length (FQDN a) < 256"
    and c: "feeds c [] (NetData d # map NetData ps @ es)" "3 \<le> length d" "[] \<notin> set ps"
      "d @ concat ps = request_bytes cmd w @ rest"
  obtains c' where "get_request c =
      (Done \<lparr>rq_Command = cmd, rq_DestAddr = as_read a, rq_realDestAddr = as_read a\<rparr>, c')"
    "feeds c' rest es" "same_but_in c c'"
proof -
  obtain c1 where "read_into [0, 0, 0] c = (Done (length [0, 0, 0 :: byte], take (length [0, 0, 0 :: byte]) d), c1)"
      "sc_in c1 = \<lparr>bf_buf = drop (length [0, 0, 0 :: byte]) d, bf_net = map NetData ps @ es\<rparr>" "same_but_in c c1"
    by (rule read_into_boundary [OF c(1), of "[0, 0, 0]"]) (use c(2) in simp, simp)
  then have c1: "read_into [0, 0, 0] c = (Done (3, take 3 d), c1)"
      "sc_in c1 = \<lparr>bf_buf = drop 3 d, bf_net = map NetData ps @ es\<rparr>" "same_but_in c c1"
    by (simp_all add: numeral_3_eq_3)
  have h: "take 3 d = [socks5Version, cmd, 0]"
    using arg_cong [OF c(4), of "take 3"] c(2) by (simp add: request_bytes_def)
  have "drop 3 d @ concat ps = wire_of w @ rest"
    using arg_cong [OF c(4), of "drop 3"] c(2) by (simp add: request_bytes_def)
  then have "feeds c1 (wire_of w @ rest) es"
    using c(3) c1(2) by (auto simp: feeds_def bf_feeds_def)
  from readAddrSpec_feeds [OF assms(1,2) this]
  obtain c2 where c2: "readAddrSpec c1 = (Done (as_read a), c2)" "feeds c2 rest es" "same_but_in c1 c2" .
  have "get_request c = (Done \<lparr>rq_Command = cmd, rq_DestAddr = as_read a, rq_realDestAddr = as_read a\<rparr>, c2)"
    using c1(1) h c2(1) by (simp add: get_request_def NewRequest_def s5_bind_def s5_return_def)
  then show thesis using that c2 c1(3) by (blast intro: same_but_in_trans)
qed

text \<open>Where a request without a rewriter goes: the address its name resolves to, or its own.\<close>

lemma handleRequest_connect:
  assumes "sv_rewrite s = None" "resolve_dest s (rq_DestAddr req) = Some d" "rq_Command req = ConnectCommand"
    and "sv_allow s (req\<lparr>rq_DestAddr := d, rq_realDestAddr := d\<rparr>)"
    and "sv_dial s (Address d) = Dialled ip port e1 e2"
    and w: "reply_addr (Some \<lparr>FQDN = [], IP = ip, Port = port\<rparr>) = Some w" "sc_writes c = []"
  shows "handleRequest s req c =
    (if e1 \<or> e2 then Fail ErrProxy else Done (),
     c\<lparr>sc_out := sc_out c @ [reply_bytes SuccessReply w],
       sc_log := sc_log c @ [ActDial (fst (Address d)) (snd (Address d)), ActProxy, ActCloseTarget]\<rparr>)"
  using assms
  by (simp add: handleRequest_def rewrite_dest_def Let_def handleConnect_def s5_bind_def s5_act_def sendReply_def
      s5_write_def s5_defer_def proxy_wait_def s5_return_def s5_fail_def)

text \<open>C21: a client is served that greets, then does what the first of its methods that the server has
  asks for (nothing, or the right user name and password) and asks to connect: the server answers
  with the method, with the success of the authentication if there is one, and with success and the
  bound address; it dials the address the request names (resolved, if it is a name) and hands the
  target exactly the bytes that follow the request; in the end it closes both. Greeting and
  credentials may arrive in any pieces, and so may the request, but for its first three bytes.\<close>

theorem socks_connect:
  assumes srv: "select_method (sv_methods s) methods = Some a" "dialogue a cred replies" "sv_rewrite s = None"
      "sv_allow s \<lparr>rq_Command = ConnectCommand, rq_DestAddr = d, rq_realDestAddr = d\<rparr>"
      "resolve_dest s (as_read dest) = Some d" "sv_dial s (Address d) = Dialled ip port e1 e2"
      "reply_addr (Some \<lparr>FQDN = [], IP = ip, Port = port\<rparr>) = Some bound"
    and req: "reply_addr (Some dest) = Some w" "length (FQDN dest) < 256" "length methods < 256"
    and input: "concat gs = greeting methods @ cred" "[] \<notin> set gs" "p @ concat ps = request_bytes ConnectCommand w @ rest"
      "3 \<le> length p" "[] \<notin> set ps"
  shows "\<exists>c'. ServeConn s (idle_conn (map NetData gs @ NetData p # map NetData ps @ es)) =
      (if e1 \<or> e2 then Fail ErrProxy else Done (), c') \<and>
    sc_out c' = replies @ [reply_bytes SuccessReply bound] \<and>
    sc_log c' = [ActDial (fst (Address d)) (snd (Address d)), ActProxy, ActCloseTarget, ActCloseConn] \<and>
    feeds c' rest es"
proof -
  define c where "c = idle_conn (map NetData gs @ NetData p # map NetData ps @ es)"
  define es' where "es' = NetData p # map NetData ps @ es"
  have c: "feeds c (socks5Version # of_nat (length methods) # methods @ cred) es'" "sc_writes c = []" "sc_out c = []" "sc_log c = []"
    using input(1,2) by (auto simp: c_def idle_conn_def NewReader_def feeds_def bf_feeds_def es'_def greeting_def)
  obtain c1 where c1: "read_into [0] c = (Done (1, [socks5Version]), c1)" "feeds c1 (of_nat (length methods) # methods @ cred) es'"
      "same_but_in c c1"
    by (rule read_one_feeds [OF c(1), of "[0]"]) auto
  obtain c2 where c2: "readMethods c1 = (Done methods, c2)" "feeds c2 (cred @ []) es'" "same_but_in c1 c2"
    by (rule readMethods_feeds [OF c1(2) req(3)]) simp
  have w2: "sc_writes c2 = []" "sc_out c2 = []" "sc_log c2 = []"
    using c c1(3) c2(3) by (simp_all add: same_but_in_def)
  obtain ctx c3 where a3: "Authenticate a c2 = (Done ctx, c3)" "feeds c3 [] es'" "sc_writes c3 = []"
      "sc_log c3 = sc_log c2" "sc_out c3 = sc_out c2 @ replies"
    by (rule Authenticate_feeds [OF srv(2) c2(2) w2(1)])
  then have c3: "authenticate (sv_methods s) c1 = (Done ctx, c3)"
    using c2 srv(1) by (simp add: authenticate_def s5_bind_def)
  obtain c4 where c4: "get_request c3 =
      (Done \<lparr>rq_Command = ConnectCommand, rq_DestAddr = as_read dest, rq_realDestAddr = as_read dest\<rparr>, c4)"
      "feeds c4 rest es" "same_but_in c3 c4"
    by (rule get_request_feeds [OF req(1,2) a3(2) [unfolded es'_def] input(4,5,3)])
  have w4: "sc_writes c4 = []" "sc_out c4 = replies" "sc_log c4 = []"
    using c4(3) w2 a3 by (simp_all add: same_but_in_def)
  have "ServeConn s c = (if e1 \<or> e2 then Fail ErrProxy else Done (),
      c4\<lparr>sc_out := replies @ [reply_bytes SuccessReply bound],
         sc_log := [ActDial (fst (Address d)) (snd (Address d)), ActProxy, ActCloseTarget, ActCloseConn]\<rparr>)"
    using c1(1) c3 c4(1) w4
      handleRequest_connect [OF srv(3) _ _ _ srv(6,7) w4(1), of "\<lparr>rq_Command = ConnectCommand, rq_DestAddr = as_read dest, rq_realDestAddr = as_read dest\<rparr>"]
      srv(4,5)
    by (simp add: ServeConn_def s5_defer_def s5_bind_def)
  with c4(2) show ?thesis unfolding c_def by (auto simp: feeds_def)
qed

text \<open>A client that gives a name and a password that the store does not accept is told so and nothing else
  happens.\<close>

lemma socks_bad_password:
  assumes "select_method (sv_methods s) methods = Some (UserPassAuthenticator valid)" "\<not> valid user pass"
    "length methods < 256" "length user < 256" "length pass < 256"
    "concat gs = greeting methods @ credentials_msg user pass @ rest" "[] \<notin> set gs"
  shows "\<exists>c'. ServeConn s (idle_conn (map NetData gs @ es)) = (Fail UserAuthFailed, c') \<and>
    sc_out c' = [[socks5Version, UserPassAuth], [userAuthVersion, authFailure]] \<and> sc_log c' = [ActCloseConn]"
proof -
  define c where "c = idle_conn (map NetData gs @ es)"
  have c: "feeds c (socks5Version # of_nat (length methods) # methods @ credentials_msg user pass @ rest) es"
      "sc_writes c = []" "sc_out c = []" "sc_log c = []"
    using assms(6,7) by (auto simp: c_def idle_conn_def NewReader_def feeds_def bf_feeds_def greeting_def)
  obtain c1 where c1: "read_into [0] c = (Done (1, [socks5Version]), c1)"
      "feeds c1 (of_nat (length methods) # methods @ credentials_msg user pass @ rest) es" "same_but_in c c1"
    by (rule read_one_feeds [OF c(1), of "[0]"]) auto
  obtain c2 where c2: "readMethods c1 = (Done methods, c2)" "feeds c2 (credentials_msg user pass @ rest) es" "same_but_in c1 c2"
    by (rule readMethods_feeds [OF c1(2) assms(3)])
  have w2: "sc_writes c2 = []" "sc_out c2 = []" "sc_log c2 = []"
    using c c1(3) c2(3) by (simp_all add: same_but_in_def)
  obtain c3 where "Authenticate (UserPassAuthenticator valid) c2 =
      (if valid user pass then Done \<lparr>ac_Method = UserPassAuth, ac_Username = Some user\<rparr> else Fail UserAuthFailed, c3)"
    "feeds c3 rest es" "sc_writes c3 = []" "sc_log c3 = sc_log c2"
    "sc_out c3 = sc_out c2 @ [[socks5Version, UserPassAuth],
       [userAuthVersion, if valid user pass then authSuccess else authFailure]]"
    by (rule UserPass_feeds [OF c2(2) assms(4,5) w2(1), of valid])
  then have c3: "Authenticate (UserPassAuthenticator valid) c2 = (Fail UserAuthFailed, c3)"
      "sc_out c3 = [[socks5Version, UserPassAuth], [userAuthVersion, authFailure]]" "sc_log c3 = []"
    using assms(2) w2 by simp_all
  have "authenticate (sv_methods s) c1 = (Fail UserAuthFailed, c3)"
    using c2(1) assms(1) c3(1) by (simp add: authenticate_def s5_bind_def)
  with c1(1) c3(2,3) show ?thesis
    unfolding c_def [symmetric] by (simp add: ServeConn_def s5_defer_def s5_bind_def)
qed

text \<open>The server of \<^verbatim>\<open>New(&Config{})\<close>, as the exit of the relay makes it.\<close>

definition default_server :: "(bytes \<Rightarrow> bytes option) \<Rightarrow> (bytes \<times> int \<Rightarrow> dial_result) \<Rightarrow> s5_server" where
  "default_server dns net_dial =
     socks5_New dns net_dial
       \<lparr>cf_AuthMethods = [], cf_Credentials = None, cf_Resolver = None, cf_Rules = None, cf_Rewriter = None, cf_Dial = None\<rparr>"

lemma default_server_simps:
  "sv_resolve (default_server dns dial) = dns" "sv_rewrite (default_server dns dial) = None"
  "sv_dial (default_server dns dial) = dial"
  "sv_methods (default_server dns dial) = [NoAuth \<mapsto> NoAuthAuthenticator]"
  "sv_allow (default_server dns dial) = PermitCommand_Allow PermitAll"
  by (simp_all add: default_server_def socks5_New_def Let_def)

text \<open>A server with one user, \<^verbatim>\<open>u\<close> with the password \<^verbatim>\<open>pw\<close>.\<close>

definition guarded_server :: s5_server where
  "guarded_server = socks5_New (\<lambda>_. None) (\<lambda>_. Dialled [127, 0, 0, 1] 4000 False False)
     \<lparr>cf_AuthMethods = [], cf_Credentials = Some (StaticCredentials_Valid [[117] \<mapsto> [112, 119]]), cf_Resolver = None,
      cf_Rules = None, cf_Rewriter = None, cf_Dial = None\<rparr>"

lemma guarded_server_simps:
  "sv_methods guarded_server = [UserPassAuth \<mapsto> UserPassAuthenticator (StaticCredentials_Valid [[117] \<mapsto> [112, 119]])]"
  "sv_rewrite guarded_server = None" "sv_allow guarded_server = PermitCommand_Allow PermitAll"
  "sv_dial guarded_server = (\<lambda>_. Dialled [127, 0, 0, 1] 4000 False False)"
  by (simp_all add: guarded_server_def socks5_New_def Let_def)

theorem socks_connect_witness:
  "\<exists>c'. ServeConn guarded_server
     (idle_conn [NetData [5], NetData [2, 1], NetData [2, 1, 1, 117], NetData [2, 112, 119],
        NetData [5, 1, 0, 1], NetData [10, 0, 0], NetData [1, 0, 80, 42]]) = (Done (), c') \<and>
   sc_out c' = [[5, 2], [1, 0], [5, 0, 0, 1, 127, 0, 0, 1, 15, 160]] \<and>
   sc_log c' = [ActDial [10, 0, 0, 1] 80, ActProxy, ActCloseTarget, ActCloseConn]"
proof -
  define s where "s = guarded_server"
  define a where "a = \<lparr>FQDN = [], IP = [10, 0, 0, 1], Port = 80\<rparr>"
  note defs = s_def a_def
  have srv: "select_method (sv_methods s) [1, 2] = Some (UserPassAuthenticator (StaticCredentials_Valid [[117] \<mapsto> [112, 119]]))"
    "dialogue (UserPassAuthenticator (StaticCredentials_Valid [[117] \<mapsto> [112, 119]])) (credentials_msg [117] [112, 119])
       [[socks5Version, UserPassAuth], [userAuthVersion, authSuccess]]"
    "sv_rewrite s = None"
    "sv_allow s \<lparr>rq_Command = ConnectCommand, rq_DestAddr = as_read a, rq_realDestAddr = as_read a\<rparr>"
    "resolve_dest s (as_read a) = Some (as_read a)" "sv_dial s (Address (as_read a)) = Dialled [127, 0, 0, 1] 4000 False False"
    by (simp_all add: defs guarded_server_simps UserPassAuth_def PermitCommand_Allow_def PermitAll_def resolve_dest_def
        as_read_def dialogue_def StaticCredentials_Valid_def)
  have bound: "reply_addr (Some \<lparr>FQDN = [], IP = [127, 0, 0, 1], Port = 4000\<rparr>) = Some (ipv4Address, [127, 0, 0, 1], 4000)"
    by (simp add: reply_addr_def To4_def)
  have req: "reply_addr (Some a) = Some (ipv4Address, [10, 0, 0, 1], 80)" "length (FQDN a) < 256" "length [1 :: byte, 2] < 256"
    by (simp_all add: reply_addr_def a_def To4_def)
  have input: "concat [[5], [2, 1], [2, 1, 1, 117], [2, 112, 119]] = greeting [1, 2] @ credentials_msg [117] [112, 119]"
    "[] \<notin> set [[5 :: byte], [2, 1], [2, 1, 1, 117], [2, 112, 119]]"
    "[5, 1, 0, 1] @ concat [[10, 0, 0], [1, 0, 80, 42]] = request_bytes ConnectCommand (ipv4Address, [10, 0, 0, 1], 80) @ [42]"
    "3 \<le> length [5 :: byte, 1, 0, 1]" "[] \<notin> set [[10 :: byte, 0, 0], [1, 0, 80, 42]]"
    by (simp_all add: greeting_def socks5Version_def request_bytes_def ConnectCommand_def wire_of_def ipv4Address_def
        credentials_msg_def userAuthVersion_def)
  have reply: "reply_bytes SuccessReply (ipv4Address, [127, 0, 0, 1], 4000) = [5, 0, 0, 1, 127, 0, 0, 1, 15, 160]" by code_simp
  have "Address (as_read a) = ([10, 0, 0, 1], 80)" unfolding a_def by code_simp
  with socks_connect [OF srv bound req input, of "[]"] reply show ?thesis
    unfolding s_def by (auto simp: socks5Version_def UserPassAuth_def userAuthVersion_def authSuccess_def)
qed

theorem socks_guarded_witness:
  "\<exists>methods cred. proves (select_method (sv_methods guarded_server) methods) cred \<and>
     (\<exists>rest. [5, 1, 2, 1, 1, 117, 2, 112, 119, 5, 1, 0, 1, 10, 0, 0, 1, 0, 80, 42] = greeting methods @ cred @ rest)"
proof -
  define c where "c = idle_conn [NetData [5], NetData [1, 2, 1, 1], NetData [117, 2, 112, 119],
    NetData [5, 1, 0, 1], NetData [10, 0, 0, 1, 0], NetData [80, 42]]"
  have "sc_log (snd (ServeConn guarded_server c)) = [ActDial [10, 0, 0, 1] 80, ActProxy, ActCloseTarget, ActCloseConn]"
    unfolding c_def by code_simp
  moreover have "sc_log c = []" by (simp add: c_def idle_conn_def)
  moreover have "bf_stream (sc_in c) = [5, 1, 2, 1, 1, 117, 2, 112, 119, 5, 1, 0, 1, 10, 0, 0, 1, 0, 80, 42]"
    by (simp add: c_def idle_conn_def)
  ultimately obtain methods cred c1 req c2 where
    "[5, 1, 2, 1, 1, 117, 2, 112, 119, 5, 1, 0, 1, 10, 0, 0, 1, 0, 80, 42] = greeting methods @ cred @ bf_stream (sc_in c1)"
    "proves (select_method (sv_methods guarded_server) methods) cred"
    "get_request c1 = (Done req, c2)"
    using socks_guarded [of guarded_server c "fst (ServeConn guarded_server c)" "snd (ServeConn guarded_server c)" "[10, 0, 0, 1]" 80]
    by auto
  then show ?thesis by blast
qed

end
