(* ===== verification/Socks5_Faults.thy ===== *)
theory Socks5_Faults
  imports Socks5_Props
begin

text \<open>
  How a session ends when the connection does: over TCP a failed read is an error of the session;
  over the relay's \<^verbatim>\<open>WSConn\<close> it is a panic. And the answer every request gets.
\<close>

section \<open>One reply per request\<close>

text \<open>The reply a request is to get: its code, and the address with it.\<close>

definition reply_due :: "s5_server \<Rightarrow> request \<Rightarrow> reply_code \<times> addr_spec option" where
  "reply_due s req =
     (case resolve_dest s (rq_DestAddr req) of
        None \<Rightarrow> (HostUnreachable, None)
      | Some d \<Rightarrow>
          (let q = rewrite_dest s (req\<lparr>rq_DestAddr := d\<rparr>)
           in if rq_Command req \<notin> {ConnectCommand, BindCommand, AssociateCommand} then (CommandNotSupported, None)
              else if \<not> sv_allow s q then (RuleFailure, None)
              else if rq_Command req \<noteq> ConnectCommand then (CommandNotSupported, None)
              else case sv_dial s (Address (rq_realDestAddr q)) of
                DialError msg \<Rightarrow> (dial_reply msg, None)
              | Dialled ip port _ _ \<Rightarrow> (SuccessReply, Some \<lparr>FQDN = [], IP = ip, Port = port\<rparr>)))"

lemma command_neq: "ConnectCommand \<noteq> BindCommand" "ConnectCommand \<noteq> AssociateCommand" "BindCommand \<noteq> AssociateCommand"
  by (simp_all add: ConnectCommand_def BindCommand_def AssociateCommand_def)

lemma sendReply_ok:
  "sc_writes c = [] \<Longrightarrow> reply_addr a = Some w \<Longrightarrow> sendReply code a c = (Done (), puts (reply_bytes code w) c)"
  by (simp add: sendReply_def s5_write_ok)

text \<open>Every request, served or not, is answered with exactly one reply, and with the due one: host
  unreachable for a name that does not resolve, not supported for an unknown command and for bind
  and associate, a rule failure for what the rules forbid, the reason of a failed dial, and success
  with the local address of a connection that was made.\<close>

theorem socks_one_reply:
  assumes "sc_writes c = []" "reply_addr (snd (reply_due s req)) = Some w"
  shows "sc_out (snd (handleRequest s req c)) = sc_out c @ [reply_bytes (fst (reply_due s req)) w]"
proof -
  have reply: "sc_out (snd (s5_bind (sendReply code a) (\<lambda>_. s5_fail e :: unit s5_op) c')) = sc_out c' @ [reply_bytes code w]"
    if "reply_addr a = Some w" "sc_writes c' = []" for code a e c'
    using that by (simp add: s5_bind_def sendReply_ok s5_fail_def)
  show ?thesis
  proof (cases "resolve_dest s (rq_DestAddr req)")
    case None
    with assms reply show ?thesis by (simp add: handleRequest_def reply_due_def)
  next
    case (Some d)
    define q where "q = rewrite_dest s (req\<lparr>rq_DestAddr := d\<rparr>)"
    have cmd: "rq_Command q = rq_Command req" by (simp add: q_def rewrite_dest_def Let_def split: option.split)
    show ?thesis
    proof (cases "rq_Command req = ConnectCommand \<and> sv_allow s q")
      case True
      define c1 where "c1 = c\<lparr>sc_log := sc_log c @ [ActDial (fst (Address (rq_realDestAddr q))) (snd (Address (rq_realDestAddr q)))]\<rparr>"
      have c1: "sc_writes c1 = []" "sc_out c1 = sc_out c" using assms(1) by (simp_all add: c1_def)
      show ?thesis
      proof (cases "sv_dial s (Address (rq_realDestAddr q))")
        case (DialError msg)
        with True Some assms reply [of None c1] c1 show ?thesis
          by (simp add: handleRequest_def reply_due_def q_def [symmetric] Let_def handleConnect_def
              s5_bind_def [of "s5_act _"] s5_act_def c1_def)
      next
        case (Dialled ip port e1 e2)
        with True Some assms c1 show ?thesis
          by (simp add: handleRequest_def reply_due_def q_def [symmetric] Let_def handleConnect_def s5_bind_def
              s5_act_def c1_def [symmetric] s5_defer_def sendReply_ok proxy_wait_def s5_return_def s5_fail_def)
      qed
    next
      case False
      with Some assms reply [of None c] command_neq cmd show ?thesis
        by (auto simp: handleRequest_def reply_due_def q_def [symmetric] Let_def handleConnect_def handleBind_def
            handleAssociate_def blocked_by_rules_def sendReply_ok split: if_splits)
    qed
  qed
qed

theorem socks_one_reply_witness:
  "sc_out (snd (handleRequest (default_server (\<lambda>_. None) (\<lambda>_. DialError ''connection refused''))
     \<lparr>rq_Command = ConnectCommand, rq_DestAddr = \<lparr>FQDN = [], IP = [10, 0, 0, 1], Port = 80\<rparr>,
      rq_realDestAddr = \<lparr>FQDN = [], IP = [10, 0, 0, 1], Port = 80\<rparr>\<rparr> (idle_conn []))) =
   [[5, 5, 0, 1, 0, 0, 0, 0, 0, 0]]"
proof -
  define s where "s = default_server (\<lambda>_. None) (\<lambda>_. DialError ''connection refused'')"
  define req where "req = \<lparr>rq_Command = ConnectCommand, rq_DestAddr = \<lparr>FQDN = [], IP = [10, 0, 0, 1], Port = 80\<rparr>,
      rq_realDestAddr = \<lparr>FQDN = [], IP = [10, 0, 0, 1], Port = 80\<rparr>\<rparr>"
  have "go_Contains ''connection refused'' ''refused''" by code_simp
  then have due: "reply_due s req = (ConnectionRefused, None)"
    by (simp add: reply_due_def s_def req_def default_server_simps resolve_dest_def rewrite_dest_def
        PermitCommand_Allow_def PermitAll_def dial_reply_def)
  have w: "reply_addr (snd (reply_due s req)) = Some (ipv4Address, [0, 0, 0, 0], 0)"
    by (simp add: due reply_addr_def)
  from socks_one_reply [of "idle_conn []", OF _ w] show ?thesis
    by (simp add: due idle_conn_def s_def [symmetric] req_def [symmetric] reply_bytes_def socks5Version_def ipv4Address_def)
qed

section \<open>A connection that breaks off\<close>

text \<open>What a read of a \<^verbatim>\<open>WSConn\<close> is to \<^verbatim>\<open>bufio\<close>.\<close>

definition net_read_of :: "int \<times> bytes \<times> bool \<Rightarrow> net_read" where
  "net_read_of = (\<lambda>(n, out, err). if n < 0 then NetNeg else if err then NetErr else NetData out)"

text \<open>All the reads of \<^verbatim>\<open>bufio\<close>'s buffer of 4096 bytes from a \<^verbatim>\<open>WSConn\<close>, up to the one that fails.\<close>

function ws_reads :: "wsconn \<Rightarrow> net_read list" where
  "ws_reads w =
     (case ws_Read 4096 w of
        ((n, out, err), w') \<Rightarrow>
          if n < 0 \<or> err then [net_read_of (n, out, err)] else NetData out # ws_reads w')"
  by pat_completeness auto
termination
  by (relation "measure ws_left") (auto dest: ws_Read_left [OF sym])

declare ws_reads.simps [simp del]

text \<open>They are the bytes of the messages, cut into pieces the buffer can take, and then the count -1.\<close>

lemma ws_reads_all:
  "\<exists>ds. ws_reads w = map NetData ds @ [NetNeg] \<and> concat ds = ws_pending w \<and> list_all (\<lambda>d. length d \<le> 4096) ds"
proof (induction w rule: ws_reads.induct)
  case (1 w)
  obtain n out err w' where r: "ws_Read 4096 w = ((n, out, err), w')" by (metis prod.collapse)
  note p = ws_Read_pending [OF r]
  show ?case
  proof (cases err)
    case True
    then have "n = - 1" and pe: "ws_pending w = []" using p by blast+
    then have "ws_reads w = [NetNeg]" using r by (simp add: ws_reads.simps [of w] net_read_of_def)
    with pe show ?thesis by (intro exI [of _ "[]"]) simp
  next
    case False
    then have "\<not> (n < 0 \<or> err)" using p by simp
    from "1.IH" [OF r [symmetric] refl refl this] obtain ds where
      "ws_reads w' = map NetData ds @ [NetNeg]" "concat ds = ws_pending w'" "list_all (\<lambda>d. length d \<le> 4096) ds" by blast
    with False p r show ?thesis
      by (intro exI [of _ "out # ds"]) (simp add: ws_reads.simps [of w])
  qed
qed

text \<open>Two connections that deliver the same, one of which then fails while the other's count is negative.\<close>

definition net_twin :: "net_read list \<Rightarrow> net_read list \<Rightarrow> bool" where
  "net_twin es es' \<longleftrightarrow> (\<exists>ds. es = map NetData ds @ [NetErr] \<and> es' = map NetData ds @ [NetNeg])"

definition twin :: "sconn \<Rightarrow> sconn \<Rightarrow> bool" where
  "twin c c' \<longleftrightarrow>
     bf_buf (sc_in c) = bf_buf (sc_in c') \<and> net_twin (bf_net (sc_in c)) (bf_net (sc_in c')) \<and>
     sc_writes c = sc_writes c' \<and> sc_out c = sc_out c' \<and> sc_log c = sc_log c'"

text \<open>The same outcome on both, or an error of reading on the first and a panic on the second.\<close>

definition twin_result :: "'a s5 \<times> sconn \<Rightarrow> 'a s5 \<times> sconn \<Rightarrow> bool" where
  "twin_result x y \<longleftrightarrow>
     fst x = fst y \<and> fst x \<noteq> Fail ErrRead \<and> twin (snd x) (snd y) \<or>
     fst x = Fail ErrRead \<and> fst y = Crash \<and> sc_out (snd x) = sc_out (snd y) \<and> sc_log (snd x) = sc_log (snd y)"

definition twin_op :: "'a s5_op \<Rightarrow> bool" where
  "twin_op m \<longleftrightarrow> (\<forall>c c'. twin c c' \<longrightarrow> twin_result (m c) (m c'))"

lemma twin_opD: "twin_op m \<Longrightarrow> twin c c' \<Longrightarrow> twin_result (m c) (m c')"
  by (simp add: twin_op_def)

lemma twin_bind:
  assumes "twin_op m" "\<And>a. twin_op (f a)" shows "twin_op (s5_bind m f)"
  unfolding twin_op_def
proof (intro allI impI)
  fix c c' assume "twin c c'"
  with assms(1) have m: "twin_result (m c) (m c')" by (rule twin_opD)
  obtain r c1 r' c1' where rs: "m c = (r, c1)" "m c' = (r', c1')" by (cases "m c"; cases "m c'")
  show "twin_result (s5_bind m f c) (s5_bind m f c')"
  proof (cases r)
    case (Done a)
    with m rs have "r' = Done a" "twin c1 c1'" by (auto simp: twin_result_def)
    with Done rs twin_opD [OF assms(2)] show ?thesis by (simp add: s5_bind_def)
  qed (use m rs in \<open>auto simp: twin_result_def s5_bind_def\<close>)
qed

lemma twin_simple:
  "twin_op (s5_return a)" "e \<noteq> ErrRead \<Longrightarrow> twin_op (s5_fail e)" "twin_op (s5_write msg)" "twin_op (s5_try_write msg)"
  "twin_op (s5_act act)"
  by (auto simp: twin_op_def twin_result_def twin_def s5_return_def s5_fail_def s5_write_def s5_try_write_def s5_act_def
      split: list.split bool.split)

lemma net_twin_cases:
  assumes "net_twin es es'"
  obtains (Data) d ts ts' where "es = NetData d # ts" "es' = NetData d # ts'" "net_twin ts ts'"
  | (End) "es = [NetErr]" "es' = [NetNeg]"
proof -
  obtain ds where ds: "es = map NetData ds @ [NetErr]" "es' = map NetData ds @ [NetNeg]"
    using assms by (auto simp: net_twin_def)
  then show thesis
  proof (cases ds)
    case (Cons d ds')
    with ds show thesis by (intro Data [of d "map NetData ds' @ [NetErr]" "map NetData ds' @ [NetNeg]"]) (auto simp: net_twin_def)
  qed (simp add: End)
qed

definition twin_read :: "(bufio \<Rightarrow> 'a read_result \<times> bufio) \<Rightarrow> bool" where
  "twin_read rd \<longleftrightarrow>
     (\<forall>r r'. bf_buf r = bf_buf r' \<and> net_twin (bf_net r) (bf_net r') \<longrightarrow>
        (\<exists>d r1 r1'. rd r = (RdOk d, r1) \<and> rd r' = (RdOk d, r1') \<and> bf_buf r1 = bf_buf r1' \<and>
           net_twin (bf_net r1) (bf_net r1')) \<or>
        fst (rd r) = RdErr \<and> fst (rd r') = RdPanic)"

lemma twin_bufio_Read: "twin_read (bufio_Read n)"
  unfolding twin_read_def
proof (intro allI impI, elim conjE)
  fix r r' :: bufio assume "bf_buf r = bf_buf r'" "net_twin (bf_net r) (bf_net r')"
  then show "(\<exists>d r1 r1'. bufio_Read n r = (RdOk d, r1) \<and> bufio_Read n r' = (RdOk d, r1') \<and> bf_buf r1 = bf_buf r1' \<and>
           net_twin (bf_net r1) (bf_net r1')) \<or>
        fst (bufio_Read n r) = RdErr \<and> fst (bufio_Read n r') = RdPanic"
    by (cases rule: net_twin_cases [OF \<open>net_twin (bf_net r) (bf_net r')\<close>]) (auto simp: bufio_Read_def)
qed

lemma twin_ReadAtLeast: "twin_read (ReadAtLeast n)"
  unfolding twin_read_def
proof (intro allI impI, elim conjE)
  fix r r' :: bufio assume "bf_buf r = bf_buf r'" "net_twin (bf_net r) (bf_net r')"
  then show "(\<exists>d r1 r1'. ReadAtLeast n r = (RdOk d, r1) \<and> ReadAtLeast n r' = (RdOk d, r1') \<and> bf_buf r1 = bf_buf r1' \<and>
           net_twin (bf_net r1) (bf_net r1')) \<or>
        fst (ReadAtLeast n r) = RdErr \<and> fst (ReadAtLeast n r') = RdPanic"
  proof (induction n r arbitrary: r' rule: ReadAtLeast.induct)
    case (1 n r)
    show ?case
    proof (cases "n = 0")
      case True
      with "1.prems" show ?thesis by (simp add: ReadAtLeast.simps)
    next
      case False
      from twin_bufio_Read [of n] "1.prems"
      consider (ok) d r1 r1' where "bufio_Read n r = (RdOk d, r1)" "bufio_Read n r' = (RdOk d, r1')"
          "bf_buf r1 = bf_buf r1'" "net_twin (bf_net r1) (bf_net r1')"
        | (fail) "fst (bufio_Read n r) = RdErr" "fst (bufio_Read n r') = RdPanic"
        unfolding twin_read_def by blast
      then show ?thesis
      proof cases
        case ok
        from "1.IH" [OF False ok(1) [symmetric] refl ok(3,4)]
        show ?thesis
          by (elim disjE exE conjE)
            (use False ok in \<open>auto simp: ReadAtLeast.simps [of n r] ReadAtLeast.simps [of n r'] split: prod.splits read_result.splits\<close>)
      next
        case fail
        with False show ?thesis
          by (auto simp: ReadAtLeast.simps [of n r] ReadAtLeast.simps [of n r'] split: prod.splits read_result.splits)
      qed
    qed
  qed
qed

lemma twin_lift:
  assumes "twin_read rd" shows "twin_op (s5_lift rd)"
  unfolding twin_op_def
proof (intro allI impI)
  fix c c' assume t: "twin c c'"
  with assms consider (ok) d r1 r1' where "rd (sc_in c) = (RdOk d, r1)" "rd (sc_in c') = (RdOk d, r1')"
      "bf_buf r1 = bf_buf r1'" "net_twin (bf_net r1) (bf_net r1')"
    | (fail) "fst (rd (sc_in c)) = RdErr" "fst (rd (sc_in c')) = RdPanic"
    unfolding twin_read_def twin_def by blast
  then show "twin_result (s5_lift rd c) (s5_lift rd c')"
    by cases (use t in \<open>auto simp: s5_lift_def twin_result_def twin_def split: prod.splits read_result.splits\<close>)
qed

lemma twin_reads: "twin_op (read_full n)" "twin_op (read_into b)"
  unfolding read_full_def read_into_def
  by (intro twin_bind twin_lift twin_simple twin_ReadAtLeast twin_bufio_Read)+

lemma twin_sendReply: "twin_op (sendReply code a)"
  by (simp add: sendReply_def twin_simple split: option.split)

lemma twin_handshake: "twin_op readAddrSpec" "twin_op NewRequest" "twin_op readMethods" "twin_op (authenticate ms)"
proof -
  have port: "twin_op (readPort d)" for d
    unfolding readPort_def by (intro twin_bind twin_reads twin_simple)
  show addr: "twin_op readAddrSpec"
    unfolding readAddrSpec_def Let_def
    by (intro twin_bind twin_reads) (auto intro!: twin_bind twin_reads twin_simple port split: prod.split)
  show "twin_op NewRequest"
    unfolding NewRequest_def
    by (intro twin_bind twin_reads) (auto intro!: twin_bind twin_reads twin_simple addr split: prod.split)
  show m: "twin_op readMethods"
    unfolding readMethods_def by (intro twin_bind twin_reads) (auto intro!: twin_reads split: prod.split)
  have na: "twin_op (noAcceptableAuth :: auth_context s5_op)"
    unfolding noAcceptableAuth_def by (intro twin_bind twin_simple) simp
  have auth: "twin_op (Authenticate a)" for a
    by (cases a) (auto intro!: twin_bind twin_reads twin_simple split: prod.split)
  show "twin_op (authenticate ms)"
    unfolding authenticate_def by (intro twin_bind m) (auto intro!: auth na split: option.split)
qed

lemma twin_get_request: "twin_op get_request"
  unfolding twin_op_def
proof (intro allI impI)
  fix c c' assume "twin c c'"
  then have t: "twin_result (NewRequest c) (NewRequest c')" by (rule twin_opD [OF twin_handshake(2)])
  have u: "twin_op (s5_bind (sendReply AddrTypeNotSupported None) (\<lambda>_. s5_fail UnrecognizedAddrType) :: request s5_op)"
    by (intro twin_bind twin_sendReply twin_simple) simp
  obtain r c1 r' c1' where rs: "NewRequest c = (r, c1)" "NewRequest c' = (r', c1')" by (cases "NewRequest c"; cases "NewRequest c'")
  show "twin_result (get_request c) (get_request c')"
  proof (cases "r = Fail UnrecognizedAddrType")
    case True
    with t rs have "r' = r" "twin c1 c1'" by (auto simp: twin_result_def)
    with True rs twin_opD [OF u] show ?thesis by (simp add: get_request_def)
  next
    case False
    with t rs have "get_request c = (r, c1)" "get_request c' = (r', c1')"
      by (auto simp: get_request_def twin_result_def split: s5.splits)
    with t rs show ?thesis by simp
  qed
qed

lemma twin_defer: "twin_op m \<Longrightarrow> twin_op (s5_defer a m)"
  unfolding twin_op_def twin_result_def s5_defer_def by (fastforce simp: twin_def split: prod.splits)

lemma twin_handleRequest: "twin_op (handleRequest s req)"
proof -
  have wait: "twin_op (proxy_wait e1 e2)" for e1 e2
    unfolding proxy_wait_def by (auto intro!: twin_bind twin_simple)
  have blocked: "twin_op (blocked_by_rules q)" for q
    unfolding blocked_by_rules_def by (auto intro!: twin_bind twin_sendReply twin_simple)
  have "twin_op (handleConnect s q)" for q
    unfolding handleConnect_def Let_def
    by (auto intro!: twin_bind twin_sendReply twin_simple twin_defer wait blocked split: dial_result.split)
  moreover have "twin_op (handleBind s q)" "twin_op (handleAssociate s q)" for q
    unfolding handleBind_def handleAssociate_def by (auto intro!: twin_sendReply blocked)
  ultimately show ?thesis
    unfolding handleRequest_def Let_def
    by (auto intro!: twin_bind twin_sendReply twin_simple split: option.split)
qed

lemma twin_ServeConn: "twin_op (ServeConn s)"
  unfolding ServeConn_def
  by (intro twin_defer twin_bind twin_reads)
    (auto intro!: twin_bind twin_simple twin_handshake twin_get_request twin_handleRequest split: prod.split)

text \<open>C22: whatever messages a client sends over the WebSocket of the relay, the server reads their bytes
  as one stream, nothing dropped and nothing twice, and a session over it runs as over a TCP
  connection that delivers the same bytes and then fails, with one exception: a session that ends
  there with a read error, because the client goes away before its request is complete, panics over
  the relay's \<^verbatim>\<open>WSConn\<close>, whose failing \<^verbatim>\<open>Read\<close> returns a negative count.\<close>

theorem socks_over_websocket:
  "\<exists>ds. concat ds = concat msgs \<and> list_all (\<lambda>d. length d \<le> 4096) ds \<and>
    (let ws_in = ws_reads \<lparr>ws_incoming = msgs, ws_remain = None, ws_sent = []\<rparr>;
         ws = ServeConn s (idle_conn ws_in);
         tcp = ServeConn s (idle_conn (map NetData ds @ [NetErr]))
     in net_bytes ws_in = concat msgs \<and>
       fst ws = (if fst tcp = Fail ErrRead then Crash else fst tcp) \<and>
       sc_out (snd ws) = sc_out (snd tcp) \<and> sc_log (snd ws) = sc_log (snd tcp))"
proof -
  obtain ds where ds: "ws_reads \<lparr>ws_incoming = msgs, ws_remain = None, ws_sent = []\<rparr> = map NetData ds @ [NetNeg]"
      "concat ds = concat msgs" "list_all (\<lambda>d. length d \<le> 4096) ds"
    using ws_reads_all [of "\<lparr>ws_incoming = msgs, ws_remain = None, ws_sent = []\<rparr>"] by (auto simp: ws_pending_def)
  have "net_bytes (map NetData ds @ [NetNeg]) = concat ds" by (induction ds) simp_all
  moreover have "twin (idle_conn (map NetData ds @ [NetErr])) (idle_conn (map NetData ds @ [NetNeg]))"
    by (auto simp: twin_def idle_conn_def NewReader_def net_twin_def)
  from twin_opD [OF twin_ServeConn this, of s] have
    "let ws = ServeConn s (idle_conn (map NetData ds @ [NetNeg])); tcp = ServeConn s (idle_conn (map NetData ds @ [NetErr]))
     in fst ws = (if fst tcp = Fail ErrRead then Crash else fst tcp) \<and>
       sc_out (snd ws) = sc_out (snd tcp) \<and> sc_log (snd ws) = sc_log (snd tcp)"
    by (auto simp: Let_def twin_result_def twin_def)
  ultimately show ?thesis using ds by (intro exI [of _ ds]) (simp add: Let_def)
qed

text \<open>The exit of the relay can be brought down by a client that sends the first byte of a greeting and
  hangs up; and a request whose header comes in two reads is refused although the bytes are those of
  a request that is served.\<close>

theorem socks_fragile:
  "fst (ServeConn (default_server dns dial) (idle_conn [NetData [5], NetNeg])) = Crash \<and>
   fst (ServeConn (default_server (\<lambda>_. None) (\<lambda>_. Dialled [127, 0, 0, 1] 4000 False False))
     (idle_conn [NetData [5, 1, 0], NetData [5, 1, 0, 1, 10, 0, 0, 1, 0, 80]])) = Done () \<and>
   fst (ServeConn (default_server (\<lambda>_. None) (\<lambda>_. Dialled [127, 0, 0, 1] 4000 False False))
     (idle_conn [NetData [5, 1, 0], NetData [5, 1], NetData [0, 1, 10, 0, 0, 1, 0, 80]])) = Fail ErrShortHeader"
proof (intro conjI)
  show "fst (ServeConn (default_server dns dial) (idle_conn [NetData [5], NetNeg])) = Crash"
    by (simp add: ServeConn_def s5_defer_def s5_bind_def read_into_def s5_lift_def bufio_Read_def idle_conn_def
        NewReader_def s5_return_def socks5Version_def authenticate_def readMethods_def)
qed code_simp+

end
