(* ===== verification/Go_Path.thy ===== *)
theory Go_Path
  imports Go_Strings
begin

text \<open>What the program uses of Go's \<^verbatim>\<open>path/filepath\<close> (on a system whose separator is a slash).\<close>

definition Slash :: string where "Slash = ''/''"

fun clean_parts :: "bool \<Rightarrow> string list \<Rightarrow> string list \<Rightarrow> string list" where
  "clean_parts rooted acc [] = rev acc"
| "clean_parts rooted acc (x # xs) =
     (if x = [] \<or> x = ''.'' then clean_parts rooted acc xs
      else if x = ''..'' then
        (if acc \<noteq> [] \<and> hd acc \<noteq> ''..'' then clean_parts rooted (tl acc) xs
         else if rooted then clean_parts rooted acc xs
         else clean_parts rooted (x # acc) xs)
      else clean_parts rooted (x # acc) xs)"

definition path_Clean :: "string \<Rightarrow> string" where
  "path_Clean p =
     (let rooted = HasPrefix p Slash; parts = clean_parts rooted [] (go_Split p Slash)
      in if rooted then Slash @ go_Join parts Slash
         else if parts = [] then ''.'' else go_Join parts Slash)"

text \<open>What precedes the last slash, with it.\<close>

definition path_upto :: "string \<Rightarrow> string" where
  "path_upto p = rev (dropWhile (\<lambda>c. c \<noteq> CHR ''/'') (rev p))"

definition path_Dir :: "string \<Rightarrow> string" where
  "path_Dir p = path_Clean (path_upto p)"

definition path_Join :: "string list \<Rightarrow> string" where
  "path_Join ps =
     (let qs = filter (\<lambda>p. p \<noteq> []) ps in if qs = [] then [] else path_Clean (go_Join qs Slash))"

lemma path_examples:
  "path_Clean ''a/b/../c//d/.'' = ''a/c/d''" "path_Clean ''/../a'' = ''/a''" "path_Clean '''' = ''.''"
  "path_Dir ''/etc/ssh/config'' = ''/etc/ssh''" "path_Dir ''config'' = ''.''"
  "path_Join [''/etc/ssh'', ''../x''] = ''/etc/x''"
  by code_simp+

text \<open>\<^verbatim>\<open>Base\<close>, \<^verbatim>\<open>Split\<close>: the last element; what precedes it, and it.\<close>

definition path_Base :: "string \<Rightarrow> string" where
  "path_Base p =
     (if p = [] then ''.''
      else let q = rev (dropWhile (\<lambda>c. c = CHR ''/'') (rev p))
        in if q = [] then Slash else rev (takeWhile (\<lambda>c. c \<noteq> CHR ''/'') (rev q)))"

definition path_Split :: "string \<Rightarrow> string \<times> string" where
  "path_Split p = (path_upto p, drop (length (path_upto p)) p)"

section \<open>Entries of a directory\<close>

text \<open>
  A name as a directory lists it, and a path that \<^verbatim>\<open>Clean\<close> leaves alone. The current directory
  and the root are not among them: there joining a name does more than to append it.
\<close>

definition plain_name :: "string \<Rightarrow> bool" where
  "plain_name n \<longleftrightarrow> n \<noteq> [] \<and> n \<noteq> ''.'' \<and> n \<noteq> ''..'' \<and> CHR ''/'' \<notin> set n"

definition clean_dir :: "string \<Rightarrow> bool" where
  "clean_dir p \<longleftrightarrow> p \<noteq> [] \<and> p \<noteq> ''.'' \<and> p \<noteq> ''/'' \<and> path_Clean p = p"

lemma go_Split_append: "go_Split (s @ c # t) [c] = go_Split s [c] @ go_Split t [c]"
proof (induction s "[c]" rule: go_Split.induct)
  case (1 s)
  show ?case
  proof (cases "go_Index s [c]")
    case None
    then show ?thesis by (simp add: go_Index_char_None go_Split_Cons go_Split_field)
  next
    case (Some i)
    note i = go_Index_char [OF Some]
    have s: "s = take i s @ c # drop (Suc i) s" using i by (metis id_take_nth_drop)
    have "go_Split (s @ c # t) [c] = go_Split (take i s @ c # (drop (Suc i) s @ c # t)) [c]"
      using arg_cong [OF s, of "\<lambda>s. go_Split (s @ c # t) [c]"] by simp
    also have "\<dots> = take i s # (go_Split (drop (Suc i) s) [c] @ go_Split t [c])"
      using i "1.hyps" [OF _ Some] by (simp add: go_Split_Cons)
    also have "take i s # go_Split (drop (Suc i) s) [c] = go_Split s [c]"
      using Some by (subst (2) go_Split.simps) simp
    then have "take i s # (go_Split (drop (Suc i) s) [c] @ go_Split t [c]) = go_Split s [c] @ go_Split t [c]"
      by (metis append_Cons)
    finally show ?thesis .
  qed
qed

lemma clean_parts_snoc:
  "n \<noteq> [] \<Longrightarrow> n \<noteq> ''.'' \<Longrightarrow> n \<noteq> ''..'' \<Longrightarrow> clean_parts rooted acc (xs @ [n]) = clean_parts rooted acc xs @ [n]"
  by (induction rooted acc xs rule: clean_parts.induct) auto

lemma go_Join_snoc: "xs \<noteq> [] \<Longrightarrow> go_Join (xs @ [x]) sep = go_Join xs sep @ sep @ x"
proof (induction xs)
  case (Cons y ys)
  then show ?case by (cases "ys = []") (simp_all add: go_Join_Cons)
qed simp

lemma path_Join_entry:
  assumes "clean_dir p" "plain_name n"
  shows "path_Join [p, n] = p @ CHR ''/'' # n"
proof -
  define rooted where "rooted = HasPrefix p Slash"
  define parts where "parts = clean_parts rooted [] (go_Split p Slash)"
  have p: "p \<noteq> []" "p \<noteq> ''.''" "p \<noteq> ''/''" "path_Clean p = p" using assms(1) by (auto simp: clean_dir_def)
  have n: "n \<noteq> []" "n \<noteq> ''.''" "n \<noteq> ''..''" "CHR ''/'' \<notin> set n" using assms(2) by (auto simp: plain_name_def)
  have "HasPrefix (p @ CHR ''/'' # n) Slash = rooted"
    using p(1) by (cases p) (auto simp: rooted_def HasPrefix_def Slash_def)
  moreover have "clean_parts rooted [] (go_Split (p @ CHR ''/'' # n) Slash) = parts @ [n]"
    using n by (simp add: parts_def Slash_def go_Split_append go_Split_field clean_parts_snoc)
  moreover have "p = (if rooted then Slash @ go_Join parts Slash else if parts = [] then ''.'' else go_Join parts Slash)"
    using p(4) unfolding path_Clean_def Let_def rooted_def [symmetric] parts_def [symmetric] by simp
  moreover from this have "parts \<noteq> []" using p(2,3) by (auto simp: Slash_def split: if_splits)
  ultimately have "path_Clean (p @ CHR ''/'' # n) = p @ CHR ''/'' # n"
    by (auto simp: path_Clean_def Let_def go_Join_snoc Slash_def)
  with p(1) n(1) show ?thesis by (simp add: path_Join_def Slash_def)
qed

lemma clean_dir_entry:
  assumes "clean_dir p" "plain_name n" shows "clean_dir (p @ CHR ''/'' # n)"
proof -
  have "path_Clean (p @ CHR ''/'' # n) = p @ CHR ''/'' # n"
    using path_Join_entry [OF assms] assms by (simp add: path_Join_def clean_dir_def plain_name_def Slash_def)
  then show ?thesis using assms by (cases p) (auto simp: clean_dir_def plain_name_def)
qed

lemma path_Base_entry: "plain_name n \<Longrightarrow> path_Base (p @ CHR ''/'' # n) = n"
proof -
  assume n: "plain_name n"
  then obtain c m where c: "rev n = c # m" "c \<noteq> CHR ''/''" by (cases "rev n") (auto simp: plain_name_def dest: sym)
  then have "rev (p @ CHR ''/'' # n) = c # m @ CHR ''/'' # rev p" by simp
  moreover have "CHR ''/'' \<notin> set m" using n c(1) by (metis list.set_intros(2) plain_name_def set_rev)
  moreover have "n = rev m @ [c]" using c(1) by (metis rev.simps(2) rev_rev_ident)
  ultimately show ?thesis using c(2) by (simp add: path_Base_def Let_def takeWhile_append takeWhile_eq_all_conv [THEN iffD2])
qed

end
