(* ===== verification/Go_Walk.thy ===== *)
theory Go_Walk
  imports Prelude Go_Path
begin

text \<open>
  File trees as the program sees them: \<^verbatim>\<open>filepath.Walk\<close> with its callback, and the operations of a
  file store, local or at the far end of an SFTP connection, which are arguments of what uses them.
\<close>

section \<open>Walking a tree\<close>

text \<open>What is below a path: a file (or anything else that is not a directory), a directory with its
  entries in the order of their names, or a directory that cannot be read.\<close>

datatype ltree = LFile | LDir "(string \<times> ltree) list option"

fun is_dir :: "ltree \<Rightarrow> bool" where
  "is_dir LFile = False"
| "is_dir (LDir _) = True"

datatype walk_result = WOk | WSkip | WErr | WPanic

type_synonym 's walk_fn = "string \<Rightarrow> bool \<Rightarrow> 's \<Rightarrow> walk_result \<times> 's"

text \<open>The callback gets the path and whether it is a directory. For a directory that cannot be read it is
  called with the error, which none of the program's callbacks looks at.\<close>

fun walk :: "'s walk_fn \<Rightarrow> string \<Rightarrow> ltree \<Rightarrow> 's \<Rightarrow> walk_result \<times> 's"
  and walk_entries :: "'s walk_fn \<Rightarrow> string \<Rightarrow> (string \<times> ltree) list \<Rightarrow> 's \<Rightarrow> walk_result \<times> 's" where
  "walk f path LFile s = f path False s"
| "walk f path (LDir None) s = f path True s"
| "walk f path (LDir (Some es)) s =
     (case f path True s of (WOk, s') \<Rightarrow> walk_entries f path es s' | r \<Rightarrow> r)"
| "walk_entries f path [] s = (WOk, s)"
| "walk_entries f path ((name, t) # es) s =
     (case walk f (path_Join [path, name]) t s of
        (WOk, s') \<Rightarrow> walk_entries f path es s'
      | (WSkip, s') \<Rightarrow> if is_dir t then walk_entries f path es s' else (WSkip, s')
      | r \<Rightarrow> r)"

text \<open>\<^verbatim>\<open>filepath.Walk\<close>: a skipped root is no error.\<close>

definition Walk :: "'s walk_fn \<Rightarrow> string \<Rightarrow> ltree \<Rightarrow> 's \<Rightarrow> walk_result \<times> 's" where
  "Walk f root t s = (case walk f root t s of (WSkip, s') \<Rightarrow> (WOk, s') | r \<Rightarrow> r)"

text \<open>A tree as a file system can hold it: the entries of a directory have plain, different names.\<close>

fun tree_ok :: "ltree \<Rightarrow> bool" where
  "tree_ok LFile = True"
| "tree_ok (LDir None) = True"
| "tree_ok (LDir (Some es)) =
     (distinct (map fst es) \<and> list_all (\<lambda>(n, t). plain_name n \<and> tree_ok t) es)"

text \<open>Every directory of the tree can be read.\<close>

fun readable :: "ltree \<Rightarrow> bool" where
  "readable LFile = True"
| "readable (LDir None) = False"
| "readable (LDir (Some es)) = list_all (\<lambda>(n, t). readable t) es"

section \<open>Stores\<close>

text \<open>
  \<open>fo_stat\<close> gives whether a path is a directory and its size; \<open>fo_open\<close> the bytes that reading gives and
  whether it ends without an error; \<open>fo_create\<close> makes an empty file or empties it; \<open>fo_write\<close> copies
  bytes into the file just created (false: an error on the way).
\<close>

record 'r store_ops =
  fo_stat :: "'r \<Rightarrow> string \<Rightarrow> (bool \<times> nat) option"
  fo_open :: "'r \<Rightarrow> string \<Rightarrow> (bytes \<times> bool) option"
  fo_mkdirall :: "'r \<Rightarrow> string \<Rightarrow> 'r"
  fo_create :: "'r \<Rightarrow> string \<Rightarrow> 'r option"
  fo_write :: "'r \<Rightarrow> string \<Rightarrow> bytes \<Rightarrow> bool \<times> 'r"

text \<open>The directory of a path, as the program finds it: what precedes the last slash.\<close>

definition parent_of :: "string \<Rightarrow> string" where
  "parent_of p = go_Join (butlast (go_Split p Slash)) Slash"

text \<open>
  What the program relies on, for a set of paths that name different files, none of them inside
  another: a file that was written whole is there, with its contents; making the directory of one of
  them, creating and writing one, leave the others as they are.
\<close>

definition file_at :: "'r store_ops \<Rightarrow> 'r \<Rightarrow> string \<Rightarrow> bytes \<Rightarrow> bool" where
  "file_at ops r p b \<longleftrightarrow> fo_stat ops r p = Some (False, length b) \<and> fo_open ops r p = Some (b, True)"

definition same_at :: "'r store_ops \<Rightarrow> string \<Rightarrow> 'r \<Rightarrow> 'r \<Rightarrow> bool" where
  "same_at ops q r r' \<longleftrightarrow> fo_stat ops r' q = fo_stat ops r q \<and> fo_open ops r' q = fo_open ops r q"

definition store_laws :: "'r store_ops \<Rightarrow> string set \<Rightarrow> bool" where
  "store_laws ops P \<longleftrightarrow>
     (\<forall>p\<in>P. \<forall>r b r1 r2. fo_create ops r p = Some r1 \<and> fo_write ops r1 p b = (True, r2) \<longrightarrow> file_at ops r2 p b) \<and>
     (\<forall>p\<in>P. \<forall>q\<in>P. \<forall>r. same_at ops q r (fo_mkdirall ops r (parent_of p))) \<and>
     (\<forall>p\<in>P. \<forall>q\<in>P. \<forall>r r1. q \<noteq> p \<and> fo_create ops r p = Some r1 \<longrightarrow> same_at ops q r r1) \<and>
     (\<forall>p\<in>P. \<forall>q\<in>P. \<forall>r b. q \<noteq> p \<longrightarrow> same_at ops q r (snd (fo_write ops r p b)))"

lemma store_lawsD:
  assumes "store_laws ops P" "p \<in> P"
  shows "fo_create ops r p = Some r1 \<Longrightarrow> fo_write ops r1 p b = (True, r2) \<Longrightarrow> file_at ops r2 p b"
    and "q \<in> P \<Longrightarrow> same_at ops q r (fo_mkdirall ops r (parent_of p))"
    and "q \<in> P \<Longrightarrow> q \<noteq> p \<Longrightarrow> fo_create ops r p = Some r1 \<Longrightarrow> same_at ops q r r1"
    and "q \<in> P \<Longrightarrow> q \<noteq> p \<Longrightarrow> same_at ops q r (snd (fo_write ops r p b))"
proof -
  note laws = assms(1) [unfolded store_laws_def]
  show "fo_create ops r p = Some r1 \<Longrightarrow> fo_write ops r1 p b = (True, r2) \<Longrightarrow> file_at ops r2 p b"
    using laws [THEN conjunct1] assms(2) by blast
  show "q \<in> P \<Longrightarrow> same_at ops q r (fo_mkdirall ops r (parent_of p))"
    using laws [THEN conjunct2, THEN conjunct1] assms(2) by blast
  show "q \<in> P \<Longrightarrow> q \<noteq> p \<Longrightarrow> fo_create ops r p = Some r1 \<Longrightarrow> same_at ops q r r1"
    using laws [THEN conjunct2, THEN conjunct2, THEN conjunct1] assms(2) by blast
  show "q \<in> P \<Longrightarrow> q \<noteq> p \<Longrightarrow> same_at ops q r (snd (fo_write ops r p b))"
    using laws [THEN conjunct2, THEN conjunct2, THEN conjunct2] assms(2) by blast
qed

lemma same_at_refl [simp]: "same_at ops q r r"
  by (simp add: same_at_def)

lemma same_at_trans [trans]: "same_at ops q r r1 \<Longrightarrow> same_at ops q r1 r2 \<Longrightarrow> same_at ops q r r2"
  by (simp add: same_at_def)

section \<open>The files of a tree and their names\<close>

fun tree_files :: "string \<Rightarrow> ltree \<Rightarrow> string list"
  and tree_files_entries :: "string \<Rightarrow> (string \<times> ltree) list \<Rightarrow> string list" where
  "tree_files p LFile = [p]"
| "tree_files p (LDir None) = []"
| "tree_files p (LDir (Some es)) = tree_files_entries p es"
| "tree_files_entries p [] = []"
| "tree_files_entries p ((n, t) # es) = tree_files (p @ CHR ''/'' # n) t @ tree_files_entries p es"

definition sub_path :: "string list \<Rightarrow> string" where
  "sub_path ns = concat (map ((#) CHR ''/'') ns)"

lemma sub_path_simps [simp]:
  "sub_path [] = []" "sub_path (n # ns) = CHR ''/'' # n @ sub_path ns" "sub_path (ns @ ms) = sub_path ns @ sub_path ms"
  by (simp_all add: sub_path_def)

lemma tree_files_names:
  "tree_ok t \<Longrightarrow> f \<in> set (tree_files p t) \<Longrightarrow> \<exists>ns. f = p @ sub_path ns \<and> list_all plain_name ns"
  "list_all (\<lambda>(n, t). plain_name n \<and> tree_ok t) es \<Longrightarrow> f \<in> set (tree_files_entries p es) \<Longrightarrow>
   \<exists>n t ns. (n, t) \<in> set es \<and> f = p @ sub_path (n # ns) \<and> list_all plain_name (n # ns)"
proof (induction p t and p es rule: tree_files_tree_files_entries.induct)
  case (1 p)
  then show ?case by (auto intro: exI [of _ "[]"])
next
  case (3 p es)
  then show ?case by (metis tree_ok.simps(3) tree_files.simps(3))
next
  case (5 p n t es)
  then consider "f \<in> set (tree_files (p @ CHR ''/'' # n) t)" | "f \<in> set (tree_files_entries p es)" by auto
  then show ?case
  proof cases
    case 1
    with 5 obtain ns where "f = (p @ CHR ''/'' # n) @ sub_path ns" "list_all plain_name ns" by auto
    with 5 show ?thesis by (intro exI [of _ n] exI [of _ t] exI [of _ ns]) simp
  next
    case 2
    with 5 show ?thesis by fastforce
  qed
qed auto

lemma plain_head:
  assumes "n @ sub_path ns = m @ sub_path ms" "plain_name n" "plain_name m" shows "n = m"
proof -
  have "takeWhile (\<lambda>c. c \<noteq> CHR ''/'') (k @ sub_path ks) = k" if "plain_name k" for k ks
  proof -
    have "CHR ''/'' \<notin> set k" using that by (simp add: plain_name_def)
    then show ?thesis by (induction k) (cases ks, auto)
  qed
  from this [OF assms(2), of ns] this [OF assms(3), of ms] show ?thesis using assms(1) by simp
qed

lemma tree_files_distinct:
  "tree_ok t \<Longrightarrow> distinct (tree_files p t)"
  "distinct (map fst es) \<Longrightarrow> list_all (\<lambda>(n, t). plain_name n \<and> tree_ok t) es \<Longrightarrow> distinct (tree_files_entries p es)"
proof (induction p t and p es rule: tree_files_tree_files_entries.induct)
  case (5 p n t es)
  then have n: "plain_name n" "tree_ok t" "list_all (\<lambda>(n, t). plain_name n \<and> tree_ok t) es" by auto
  have "f \<notin> set (tree_files_entries p es)" if f: "f \<in> set (tree_files (p @ CHR ''/'' # n) t)" for f
  proof
    assume "f \<in> set (tree_files_entries p es)"
    from tree_files_names(2) [OF n(3) this] obtain m u ms where
      m: "(m, u) \<in> set es" "f = p @ sub_path (m # ms)" "plain_name m" by auto
    from tree_files_names(1) [OF n(2) f] obtain ns where "f = (p @ CHR ''/'' # n) @ sub_path ns" by blast
    with m(2) have "n @ sub_path ns = m @ sub_path ms" by simp
    from plain_head [OF this n(1) m(3)] 5 m(1) show False by force
  qed
  with 5 show ?case by auto
qed auto

lemma clean_dir_sub: "clean_dir d \<Longrightarrow> list_all plain_name ns \<Longrightarrow> clean_dir (d @ sub_path ns)"
proof (induction ns rule: rev_induct)
  case (snoc n ns)
  then show ?case using clean_dir_entry [of "d @ sub_path ns" n] by simp
qed simp

lemma clean_parts_empty: "clean_parts rooted acc (xs @ [] # ys) = clean_parts rooted acc (xs @ ys)"
  by (induction rooted acc xs rule: clean_parts.induct) auto

text \<open>A path below a directory, appended or joined.\<close>

lemma path_Join_sub:
  assumes "clean_dir d" "list_all plain_name ns"
  shows "path_Join [d, sub_path ns] = d @ sub_path ns"
proof (cases ns)
  case Nil
  with assms show ?thesis by (simp add: path_Join_def clean_dir_def)
next
  case (Cons n ms)
  define y where "y = n @ sub_path ms"
  have d: "d \<noteq> []" using assms(1) by (simp add: clean_dir_def)
  then have pre: "HasPrefix (d @ CHR ''/'' # x) Slash = HasPrefix d Slash" for x
    by (cases d) (simp_all add: HasPrefix_def Slash_def)
  have "go_Split (d @ CHR ''/'' # CHR ''/'' # y) Slash = go_Split d Slash @ [] # go_Split y Slash"
    using go_Split_append [of d "CHR ''/''" "CHR ''/'' # y"] go_Split_Cons [of "CHR ''/''" "[]" y] by (simp add: Slash_def)
  then have parts: "clean_parts r [] (go_Split (d @ CHR ''/'' # CHR ''/'' # y) Slash) = clean_parts r [] (go_Split (d @ CHR ''/'' # y) Slash)" for r
    using go_Split_append [of d "CHR ''/''" y] by (simp add: Slash_def clean_parts_empty)
  have "path_Clean (d @ CHR ''/'' # sub_path ns) = path_Clean (d @ sub_path ns)"
    unfolding path_Clean_def Cons sub_path_simps y_def [symmetric] by (simp only: pre parts)
  also have "\<dots> = d @ sub_path ns" using clean_dir_sub [OF assms] by (simp add: clean_dir_def)
  finally show ?thesis using d Cons by (simp add: path_Join_def Slash_def)
qed

end
