(* ===== verification/Scp_Transfer.thy ===== *)
theory Scp_Transfer
  imports Go_Walk
begin

text \<open>
  The transfers of \<^verbatim>\<open>scp/scp.go\<close>: single files, whole directories, and the file of names that are not
  to be uploaded. Both sides are stores: the local files and those behind the SFTP connection.
\<close>

section \<open>Names that are not uploaded\<close>

record ignore_path =
  ig_directories :: "string list"
  ig_file_suffix :: "string list"
  ig_file_prefix :: "string list"
  ig_files :: "string list"

definition no_ignores :: ignore_path where
  "no_ignores = \<lparr>ig_directories = [], ig_file_suffix = [], ig_file_prefix = [], ig_files = []\<rparr>"

text \<open>\<^verbatim>\<open>bufio.ScanLines\<close>: without the ends of the lines; nothing after the last of them.\<close>

definition drop_CR :: "string \<Rightarrow> string" where
  "drop_CR l = (if HasSuffix l [CHR 0x0D] then butlast l else l)"

definition scan_lines :: "string \<Rightarrow> string list" where
  "scan_lines s = (let ls = go_Split s [CHR 0x0A] in map drop_CR (if last ls = [] then butlast ls else ls))"

definition add_ignore :: "string \<Rightarrow> ignore_path \<Rightarrow> ignore_path" where
  "add_ignore text ig =
     (if HasPrefix text ''#'' then ig
      else if HasSuffix text ''/'' then ig\<lparr>ig_directories := ig_directories ig @ [butlast text]\<rparr>
      else if HasSuffix text ''*'' then ig\<lparr>ig_file_suffix := ig_file_suffix ig @ [butlast text]\<rparr>
      else if HasPrefix text ''*'' then ig\<lparr>ig_file_prefix := ig_file_prefix ig @ [tl text]\<rparr>
      else ig\<lparr>ig_files := ig_files ig @ [text]\<rparr>)"

text \<open>\<^verbatim>\<open>load_conf\<close>: nothing is ignored when the file is not there or cannot be read.\<close>

definition load_conf :: "string option \<Rightarrow> ignore_path" where
  "load_conf content = (case content of None \<Rightarrow> no_ignores | Some s \<Rightarrow> fold add_ignore (scan_lines s) no_ignores)"

definition match_dir :: "ignore_path \<Rightarrow> string \<Rightarrow> bool" where
  "match_dir ig dir = list_ex (\<lambda>s. s = dir) (ig_directories ig)"

definition match_file :: "ignore_path \<Rightarrow> string \<Rightarrow> bool" where
  "match_file ig file \<longleftrightarrow>
     file = ''.scp_upload_ignore'' \<or> list_ex (\<lambda>s. s = file) (ig_files ig) \<or>
     list_ex (HasPrefix file) (ig_file_prefix ig) \<or> list_ex (HasSuffix file) (ig_file_suffix ig)"

section \<open>Single files\<close>

definition make_parent :: "'r store_ops \<Rightarrow> string \<Rightarrow> 'r \<Rightarrow> 'r" where
  "make_parent ro remote r =
     (if go_Contains remote Slash \<and> fo_stat ro r (parent_of remote) = None
      then fo_mkdirall ro r (parent_of remote) else r)"

definition Upload :: "'l store_ops \<Rightarrow> 'l \<Rightarrow> 'r store_ops \<Rightarrow> string \<Rightarrow> string \<Rightarrow> 'r \<Rightarrow> bool \<times> 'r" where
  "Upload lo l ro local remote r =
     (let r1 = make_parent ro remote r
      in case fo_open lo l local of
           None \<Rightarrow> (False, r1)
         | Some (b, whole) \<Rightarrow>
             (case fo_create ro r1 remote of
                None \<Rightarrow> (False, r1)
              | Some r2 \<Rightarrow> (case fo_write ro r2 remote b of (ok, r3) \<Rightarrow> (ok \<and> whole, r3))))"

text \<open>How a command of the program ends: with a result, with the process (\<^verbatim>\<open>log.Fatal\<close>), or in a panic.\<close>

datatype outcome = Returned bool | Exited | Panicked

definition is_plain_file :: "(bool \<times> nat) option \<Rightarrow> bool" where
  "is_plain_file st = (case st of Some (dir, _) \<Rightarrow> \<not> dir | None \<Rightarrow> False)"

definition Download :: "'r store_ops \<Rightarrow> 'r \<Rightarrow> 'l store_ops \<Rightarrow> string \<Rightarrow> string \<Rightarrow> 'l \<Rightarrow> outcome \<times> 'l" where
  "Download ro r lo remote local l =
     (if go_Contains local Slash \<and> is_plain_file (fo_stat lo l (parent_of local)) then (Returned False, l)
      else let l1 = make_parent lo local l
        in case fo_create lo l1 local of
             None \<Rightarrow> (Exited, l1)
           | Some l2 \<Rightarrow>
               (case fo_open ro r remote of
                  None \<Rightarrow> (Exited, l2)
                | Some (b, whole) \<Rightarrow>
                    (case fo_write lo l2 local b of
                       (ok, l3) \<Rightarrow> (if ok \<and> whole then Returned True else Exited, l3))))"

section \<open>Directories\<close>

definition remote_name :: "string \<Rightarrow> nat \<Rightarrow> string \<Rightarrow> string" where
  "remote_name remote_dir plen path =
     (let f = remote_dir @ drop plen path
      in case go_Index f [CHR 0x5C] of Some (Suc _) \<Rightarrow> ReplaceAll f [CHR 0x5C] Slash | _ \<Rightarrow> f)"

text \<open>The callback of \<^verbatim>\<open>UploadDir\<close>. The first part of the state is \<^verbatim>\<open>upload_status\<close>.\<close>

definition upload_one ::
  "'l store_ops \<Rightarrow> 'l \<Rightarrow> 'r store_ops \<Rightarrow> string \<Rightarrow> string \<Rightarrow> bool \<times> 'r \<Rightarrow> walk_result \<times> bool \<times> 'r" where
  "upload_one lo l ro path remote s =
     (case Upload lo l ro path remote (snd s) of
        (True, r') \<Rightarrow> (WOk, fst s, r')
      | (False, r') \<Rightarrow> (WErr, False, r'))"

definition upload_file ::
  "'l store_ops \<Rightarrow> 'l \<Rightarrow> 'r store_ops \<Rightarrow> string \<Rightarrow> string \<Rightarrow> bool \<times> 'r \<Rightarrow> walk_result \<times> bool \<times> 'r" where
  "upload_file lo l ro path remote s =
     (case fo_stat ro (snd s) remote of
        None \<Rightarrow> upload_one lo l ro path remote s
      | Some (_, n) \<Rightarrow>
          (case fo_stat lo l path of
             None \<Rightarrow> (WPanic, s)
           | Some (_, m) \<Rightarrow> if n \<noteq> m then upload_one lo l ro path remote s else (WOk, s)))"

definition upload_visit ::
  "'l store_ops \<Rightarrow> 'l \<Rightarrow> 'r store_ops \<Rightarrow> ignore_path \<Rightarrow> nat \<Rightarrow> string \<Rightarrow> (bool \<times> 'r) walk_fn" where
  "upload_visit lo l ro ig plen remote_dir path dir s =
     (if length path < plen then (WPanic, s)
      else if dir then (if match_dir ig (path_Base path) then (WSkip, s) else (WOk, s))
      else if match_file ig (path_Base path) then (WOk, s)
      else upload_file lo l ro path (remote_name remote_dir plen path) s)"

text \<open>\<^verbatim>\<open>UploadDir\<close>, with what is below the local directory and the contents of its ignore file.\<close>

definition UploadDir ::
  "'l store_ops \<Rightarrow> 'l \<Rightarrow> 'r store_ops \<Rightarrow> ltree \<Rightarrow> string option \<Rightarrow> string \<Rightarrow> string \<Rightarrow> 'r \<Rightarrow> outcome \<times> 'r" where
  "UploadDir lo l ro tree conf local_dir remote_dir r =
     (case fo_stat lo l local_dir of
        None \<Rightarrow> (Exited, r)
      | Some (False, _) \<Rightarrow> (case Upload lo l ro local_dir remote_dir r of (ok, r') \<Rightarrow> (Returned ok, r'))
      | Some (True, _) \<Rightarrow>
          (case Walk (upload_visit lo l ro (load_conf conf) (length local_dir) remote_dir) local_dir tree (True, r) of
             (WPanic, _, r') \<Rightarrow> (Panicked, r')
           | (_, status, r') \<Rightarrow> (Returned status, r')))"

text \<open>\<^verbatim>\<open>DownloadDir\<close>, with the paths that walking the remote directory gives (true: a directory).\<close>

fun download_all ::
  "'r store_ops \<Rightarrow> 'r \<Rightarrow> 'l store_ops \<Rightarrow> nat \<Rightarrow> string \<Rightarrow> (string \<times> bool) list \<Rightarrow> 'l \<Rightarrow> outcome \<times> 'l" where
  "download_all ro r lo plen local_dir [] l = (Returned True, l)"
| "download_all ro r lo plen local_dir ((path, dir) # ps) l =
     (if length path < plen then (Panicked, l)
      else let local = local_dir @ drop plen path
        in if dir then download_all ro r lo plen local_dir ps (fo_mkdirall lo l local)
           else case Download ro r lo path local l of
                  (Returned True, l') \<Rightarrow> download_all ro r lo plen local_dir ps l'
                | x \<Rightarrow> x)"

definition DownloadDir ::
  "'r store_ops \<Rightarrow> 'r \<Rightarrow> 'l store_ops \<Rightarrow> (string \<times> bool) list \<Rightarrow> string \<Rightarrow> string \<Rightarrow> 'l \<Rightarrow> outcome \<times> 'l" where
  "DownloadDir ro r lo walked remote_dir local_dir l =
     (case fo_stat ro r remote_dir of
        None \<Rightarrow> (Returned False, l)
      | Some (False, _) \<Rightarrow> Download ro r lo remote_dir local_dir l
      | Some (True, _) \<Rightarrow> download_all ro r lo (length remote_dir) local_dir walked l)"

end
