(* ===== verification/Scp_Props.thy ===== *)
theory Scp_Props
  imports Scp_Transfer
begin

text \<open>
  What an upload of a directory does: it is the upload, in order, of the files that are not ignored,
  and once it has succeeded there is nothing left to do.
\<close>

section \<open>The files of an upload\<close>

fun wanted :: "ignore_path \<Rightarrow> string \<Rightarrow> ltree \<Rightarrow> string list"
  and wanted_entries :: "ignore_path \<Rightarrow> string \<Rightarrow> (string \<times> ltree) list \<Rightarrow> string list" where
  "wanted ig p LFile = (if match_file ig (path_Base p) then [] else [p])"
| "wanted ig p (LDir None) = []"
| "wanted ig p (LDir (Some es)) = (if match_dir ig (path_Base p) then [] else wanted_entries ig p es)"
| "wanted_entries ig p [] = []"
| "wanted_entries ig p ((n, t) # es) = wanted ig (p @ CHR ''/'' # n) t @ wanted_entries ig p es"

fun upload_list ::
  "'l store_ops \<Rightarrow> 'l \<Rightarrow> 'r store_ops \<Rightarrow> nat \<Rightarrow> string \<Rightarrow> string list \<Rightarrow> bool \<times> 'r \<Rightarrow> walk_result \<times> bool \<times> 'r" where
  "upload_list lo l ro plen rd [] s = (WOk, s)"
| "upload_list lo l ro plen rd (p # ps) s =
     (case upload_file lo l ro p (remote_name rd plen p) s of
        (WOk, s') \<Rightarrow> upload_list lo l ro plen rd ps s'
      | x \<Rightarrow> x)"

lemma upload_one_cases:
  obtains (Sent) r' where "Upload lo l ro p q (snd s) = (True, r')" "upload_one lo l ro p q s = (WOk, fst s, r')"
  | (Failed) r' where "Upload lo l ro p q (snd s) = (False, r')" "upload_one lo l ro p q s = (WErr, False, r')"
  by (cases "Upload lo l ro p q (snd s)") (auto simp: upload_one_def split: bool.splits)

lemma upload_file_no_skip: "fst (upload_file lo l ro p q s) \<noteq> WSkip"
  by (cases rule: upload_one_cases [of lo l ro p q s]) (auto simp: upload_file_def split: option.split)

lemma upload_list_no_skip: "fst (upload_list lo l ro plen rd ps s) \<noteq> WSkip"
proof (induction ps arbitrary: s)
  case (Cons p ps)
  then show ?case
    using upload_file_no_skip [of lo l ro p "remote_name rd plen p" s] by (auto split: prod.split walk_result.split)
qed simp

lemma upload_list_append:
  "upload_list lo l ro plen rd (ps @ qs) s =
   (case upload_list lo l ro plen rd ps s of (WOk, s') \<Rightarrow> upload_list lo l ro plen rd qs s' | x \<Rightarrow> x)"
  by (induction ps arbitrary: s) (auto split: prod.split walk_result.split)

lemma walk_wanted:
  "clean_dir p \<Longrightarrow> tree_ok t \<Longrightarrow> plen \<le> length p \<Longrightarrow>
   walk (upload_visit lo l ro ig plen rd) p t s =
     (if is_dir t \<and> match_dir ig (path_Base p) then (WSkip, s) else upload_list lo l ro plen rd (wanted ig p t) s)"
  "clean_dir p \<Longrightarrow> list_all (\<lambda>(n, t). plain_name n \<and> tree_ok t) es \<Longrightarrow> plen \<le> length p \<Longrightarrow>
   walk_entries (upload_visit lo l ro ig plen rd) p es s = upload_list lo l ro plen rd (wanted_entries ig p es) s"
proof (induction ig p t and ig p es arbitrary: s and s rule: wanted_wanted_entries.induct)
  case (1 ig p)
  then show ?case by (auto simp: upload_visit_def split: prod.split walk_result.split)
next
  case (3 ig p es)
  then show ?case by (simp add: upload_visit_def)
next
  case (5 ig p n t es)
  then have q: "path_Join [p, n] = p @ CHR ''/'' # n" "clean_dir (p @ CHR ''/'' # n)"
    by (auto intro: path_Join_entry clean_dir_entry)
  have skip: "wanted ig q t = []" if "is_dir t" "match_dir ig (path_Base q)" for q
    using that by (cases t rule: tree_ok.cases) simp_all
  from 5 q show ?case
    using skip [of "p @ CHR ''/'' # n"] upload_list_no_skip [of lo l ro plen rd "wanted ig (p @ CHR ''/'' # n)  t" s]
    by (auto simp: upload_list_append split: prod.split walk_result.split)
qed (simp_all add: upload_visit_def)

text \<open>The directory is uploaded file by file.\<close>

lemma UploadDir_list:
  assumes "clean_dir d" "tree_ok (LDir es)" "fo_stat lo l d = Some (True, n)"
  shows "UploadDir lo l ro (LDir es) conf d rd r =
    (case upload_list lo l ro (length d) rd (wanted (load_conf conf) d (LDir es)) (True, r) of
       (WPanic, _, r') \<Rightarrow> (Panicked, r') | (_, status, r') \<Rightarrow> (Returned status, r'))"
proof -
  have skip: "wanted ig d (LDir es) = []" if "match_dir ig (path_Base d)" for ig
    using that by (cases es) simp_all
  show ?thesis
    using assms skip [of "load_conf conf"] upload_list_no_skip [of lo l ro "length d" rd "wanted (load_conf conf) d (LDir es)" "(True, r)"]
    by (auto simp: UploadDir_def Walk_def walk_wanted(1) split: prod.split walk_result.split)
qed

section \<open>Their names\<close>

lemma wanted_prefix:
  "f \<in> set (wanted ig p t) \<Longrightarrow> f = p \<or> (\<exists>x. f = p @ CHR ''/'' # x)"
  "f \<in> set (wanted_entries ig p es) \<Longrightarrow> \<exists>n t x. (n, t) \<in> set es \<and> f = p @ CHR ''/'' # n @ x \<and> (x = [] \<or> hd x = CHR ''/'')"
proof (induction ig p t and ig p es rule: wanted_wanted_entries.induct)
  case (5 ig p n t es)
  then show ?case by fastforce
qed (auto split: if_splits)

lemma entry_name:
  assumes "n @ x = m @ y" "CHR ''/'' \<notin> set n" "CHR ''/'' \<notin> set m" "x = [] \<or> hd x = CHR ''/''" "y = [] \<or> hd y = CHR ''/''"
  shows "n = m"
proof -
  have "takeWhile (\<lambda>c. c \<noteq> CHR ''/'') (k @ z) = k" if "CHR ''/'' \<notin> set k" "z = [] \<or> hd z = CHR ''/''" for k z
    using that by (induction k) (cases z, auto)
  from this [of n x] this [of m y] show ?thesis using assms by simp
qed

lemma wanted_distinct:
  "tree_ok t \<Longrightarrow> distinct (wanted ig p t)"
  "distinct (map fst es) \<Longrightarrow> list_all (\<lambda>(n, t). plain_name n \<and> tree_ok t) es \<Longrightarrow> distinct (wanted_entries ig p es)"
proof (induction ig p t and ig p es rule: wanted_wanted_entries.induct)
  case (5 ig p n t es)
  have "f \<notin> set (wanted_entries ig p es)" if f: "f \<in> set (wanted ig (p @ CHR ''/'' # n) t)" for f
  proof
    assume "f \<in> set (wanted_entries ig p es)"
    from wanted_prefix(2) [OF this] obtain m u x where m: "(m, u) \<in> set es" "f = p @ CHR ''/'' # m @ x" "x = [] \<or> hd x = CHR ''/''"
      by blast
    from wanted_prefix(1) [OF f] obtain y where y: "f = p @ CHR ''/'' # n @ y" "y = [] \<or> hd y = CHR ''/''" by auto
    have "plain_name n" "plain_name m" using 5 m(1) by (auto simp: list_all_iff)
    then have "n = m" using entry_name [of n y m x] m y by (auto simp: plain_name_def)
    with 5 m(1) show False by force
  qed
  with 5 show ?case by auto
qed auto

lemma remote_name_plain: "CHR 0x5C \<notin> set (rd @ drop plen f) \<Longrightarrow> remote_name rd plen f = rd @ drop plen f"
  by (simp add: remote_name_def Let_def go_Index_char_None [THEN iffD2])

lemma remote_name_inj:
  assumes "\<forall>f\<in>set (wanted ig d t). CHR 0x5C \<notin> set (rd @ drop (length d) f)"
  shows "inj_on (remote_name rd (length d)) (set (wanted ig d t))"
proof (rule inj_onI)
  fix f g
  assume fg: "f \<in> set (wanted ig d t)" "g \<in> set (wanted ig d t)" "remote_name rd (length d) f = remote_name rd (length d) g"
  have n: "remote_name rd (length d) h = rd @ drop (length d) h" if "h \<in> set (wanted ig d t)" for h
    using assms that by (auto intro!: remote_name_plain)
  from wanted_prefix(1) [OF fg(1)] wanted_prefix(1) [OF fg(2)] obtain x y where "f = d @ x" "g = d @ y" by auto
  with fg(3) n [OF fg(1)] n [OF fg(2)] show "f = g" by simp
qed

section \<open>A finished upload\<close>

text \<open>Uploading one file leaves the others as they are; when it succeeds, the sizes agree, and what was sent
  is there.\<close>

definition synced :: "'l store_ops \<Rightarrow> 'l \<Rightarrow> 'r store_ops \<Rightarrow> 'r \<Rightarrow> 'r \<Rightarrow> string \<Rightarrow> string \<Rightarrow> bool" where
  "synced lo l ro r0 r' f q \<longleftrightarrow>
     fo_stat lo l f \<noteq> None \<and> map_option snd (fo_stat ro r' q) = map_option snd (fo_stat lo l f) \<and>
     (map_option snd (fo_stat ro r0 q) \<noteq> map_option snd (fo_stat lo l f) \<longrightarrow> fo_open ro r' q = fo_open lo l f)"

lemma make_parent_same:
  assumes "store_laws ro P" "p \<in> P" "q \<in> P" shows "same_at ro q r (make_parent ro p r)"
  using store_lawsD(2) [OF assms(1,2,3)] by (simp add: make_parent_def)

lemma Upload_same:
  assumes laws: "store_laws ro P" "p \<in> P" "q \<in> P" "q \<noteq> p"
  shows "same_at ro q r (snd (Upload lo l ro f p r))"
proof -
  note parent = make_parent_same [OF laws(1-3), of r]
  show ?thesis
  proof (cases "fo_open lo l f")
    case (Some bw)
    obtain b w where bw: "bw = (b, w)" by (cases bw)
    show ?thesis
    proof (cases "fo_create ro (make_parent ro p r) p")
      case (Some r2)
      note parent
      also have "same_at ro q (make_parent ro p r) r2" by (rule store_lawsD(3) [OF laws Some])
      also have "same_at ro q r2 (snd (fo_write ro r2 p b))" by (rule store_lawsD(4) [OF laws])
      finally show ?thesis
        using Some \<open>fo_open lo l f = Some bw\<close> bw by (cases "fo_write ro r2 p b") (simp add: Upload_def Let_def)
    qed (use parent Some bw in \<open>simp add: Upload_def\<close>)
  qed (use parent in \<open>simp add: Upload_def\<close>)
qed

lemma Upload_sent:
  assumes "store_laws ro P" "p \<in> P" "Upload lo l ro f p r = (True, r')"
  obtains b where "fo_open lo l f = Some (b, True)" "file_at ro r' p b"
proof -
  from assms(3) obtain b w r2 where b: "fo_open lo l f = Some (b, w)" "fo_create ro (make_parent ro p r) p = Some r2"
      "fo_write ro r2 p b = (True, r')" "w"
    by (auto simp: Upload_def Let_def split: option.splits prod.splits)
  with store_lawsD(1) [OF assms(1,2) b(2,3)] that show thesis by simp
qed

lemma upload_file_synced:
  assumes laws: "store_laws ro P" "q \<in> P"
    and size: "\<And>b. fo_open lo l f = Some (b, True) \<Longrightarrow> fo_stat lo l f = Some (False, length b)"
    and res: "upload_file lo l ro f q s = (WOk, s')" and r0: "same_at ro q r0 (snd s)"
  shows "synced lo l ro r0 (snd s') f q \<and> fst s' = fst s"
proof -
  have sent: "synced lo l ro r0 (snd s') f q \<and> fst s' = fst s" if "upload_one lo l ro f q s = (WOk, s')"
  proof (cases rule: upload_one_cases [of lo l ro f q s])
    case (Sent r')
    from Upload_sent [OF laws Sent(1)] obtain b where "fo_open lo l f = Some (b, True)" "file_at ro r' q b" .
    with Sent that size show ?thesis by (auto simp: synced_def file_at_def)
  qed (use that in simp)
  show ?thesis
  proof (cases "fo_stat ro (snd s) q")
    case None
    with res sent show ?thesis by (simp add: upload_file_def)
  next
    case (Some st)
    obtain y n where st: "st = (y, n)" by (cases st)
    show ?thesis
    proof (cases "upload_one lo l ro f q s = (WOk, s')")
      case False
      obtain x m where xm: "fo_stat lo l f = Some (x, m)"
        using res Some st by (cases "fo_stat lo l f") (auto simp: upload_file_def)
      with False res Some st have "n = m" "s' = s" by (simp_all add: upload_file_def split: if_splits)
      moreover have "fo_stat ro r0 q = Some (y, n)" using Some st r0 by (simp add: same_at_def)
      ultimately show ?thesis using Some st xm by (simp add: synced_def)
    qed (rule sent)
  qed
qed

lemma upload_file_same:
  assumes "store_laws ro P" "p \<in> P" "q \<in> P" "q \<noteq> p"
  shows "same_at ro q (snd s) (snd (snd (upload_file lo l ro f p s)))"
  using Upload_same [OF assms, of "snd s" lo l f]
  by (cases rule: upload_one_cases [of lo l ro f p s]) (auto simp: upload_file_def split: option.split)

lemma synced_same: "synced lo l ro r0 r f q \<Longrightarrow> same_at ro q r r' \<Longrightarrow> synced lo l ro r0 r' f q"
  by (simp add: synced_def same_at_def)

lemma upload_list_synced:
  assumes laws: "store_laws ro P" "remote_name rd plen ` set fs \<subseteq> P" "inj_on (remote_name rd plen) (set fs)" "distinct fs"
    and size: "\<And>f b. f \<in> set fs \<Longrightarrow> fo_open lo l f = Some (b, True) \<Longrightarrow> fo_stat lo l f = Some (False, length b)"
    and res: "upload_list lo l ro plen rd fs s = (WOk, s')"
  shows "(\<forall>f\<in>set fs. synced lo l ro (snd s) (snd s') f (remote_name rd plen f)) \<and> fst s' = fst s \<and>
    (\<forall>q\<in>P - remote_name rd plen ` set fs. same_at ro q (snd s) (snd s'))"
  using assms
proof (induction fs arbitrary: s)
  case (Cons f fs)
  define q where "q = remote_name rd plen f"
  from Cons.prems(6) obtain s1 where s1: "upload_file lo l ro f q s = (WOk, s1)" "upload_list lo l ro plen rd fs s1 = (WOk, s')"
    by (auto simp: q_def split: prod.splits walk_result.splits)
  have qP: "q \<in> P" using Cons.prems(2) by (simp add: q_def)
  have other: "g \<in> set fs \<Longrightarrow> remote_name rd plen g \<noteq> q" for g
    using Cons.prems(3,4) by (auto simp: q_def) (metis imageI)
  have first: "synced lo l ro (snd s) (snd s1) f q \<and> fst s1 = fst s"
    by (rule upload_file_synced [OF Cons.prems(1) qP _ s1(1)]) (use Cons.prems(5) in simp_all)
  have same: "p \<in> P \<Longrightarrow> p \<noteq> q \<Longrightarrow> same_at ro p (snd s) (snd s1)" for p
    using upload_file_same [OF Cons.prems(1) qP, of p s lo l f] s1(1) by simp
  have IH: "(\<forall>g\<in>set fs. synced lo l ro (snd s1) (snd s') g (remote_name rd plen g)) \<and> fst s' = fst s1 \<and>
      (\<forall>p\<in>P - remote_name rd plen ` set fs. same_at ro p (snd s1) (snd s'))"
    by (rule Cons.IH) (use Cons.prems s1(2) in \<open>auto intro: inj_on_subset\<close>)
  have "q \<in> P - remote_name rd plen ` set fs" using qP other by auto
  with IH have "synced lo l ro (snd s) (snd s') f q" using first by (auto intro: synced_same)
  moreover have "synced lo l ro (snd s) (snd s') g (remote_name rd plen g)" if "g \<in> set fs" for g
  proof -
    have "same_at ro (remote_name rd plen g) (snd s) (snd s1)" using same other that Cons.prems(2) by auto
    with IH that show ?thesis by (auto simp: synced_def same_at_def)
  qed
  moreover have "same_at ro p (snd s) (snd s')" if "p \<in> P - remote_name rd plen ` set (f # fs)" for p
    using same_at_trans [OF same] IH that by (auto simp: q_def)
  ultimately show ?case using first IH by (auto simp: q_def)
qed simp

text \<open>Where the sizes agree, nothing is sent.\<close>

lemma upload_list_idle:
  assumes "\<And>f. f \<in> set fs \<Longrightarrow> fo_stat lo l f \<noteq> None \<and>
    map_option snd (fo_stat ro (snd s) (remote_name rd plen f)) = map_option snd (fo_stat lo l f)"
  shows "upload_list lo l ro plen rd fs s = (WOk, s)"
  using assms by (induction fs) (fastforce simp: upload_file_def)+

lemma upload_list_status:
  "upload_list lo l ro plen rd fs s = (WErr, st, r') \<Longrightarrow> \<not> st"
proof (induction fs arbitrary: s)
  case (Cons f fs)
  have "\<not> st" if "upload_file lo l ro f (remote_name rd plen f) s = (WErr, st, r')"
    using that by (cases rule: upload_one_cases [of lo l ro f "remote_name rd plen f" s])
      (auto simp: upload_file_def split: option.splits if_splits)
  with Cons show ?case by (auto split: prod.splits walk_result.splits)
qed simp

text \<open>Once a directory has been uploaded without an error, every file of it that the ignore file does not
  exclude is at its place in the remote directory with its size, and with its contents unless a file
  of that size was there before; no other file has changed, and uploading again does nothing. (The
  directory is given by a clean path other than the current directory and the root, and no name has
  a backslash.)\<close>

theorem upload_dir_syncs:
  assumes tree: "clean_dir d" "tree_ok (LDir es)" "fo_stat lo l d = Some (True, n)"
    and fs: "fs = wanted (load_conf conf) d (LDir es)" "\<forall>f\<in>set fs. CHR 0x5C \<notin> set (rd @ drop (length d) f)"
    and size: "\<forall>f\<in>set fs. \<forall>b. fo_open lo l f = Some (b, True) \<longrightarrow> fo_stat lo l f = Some (False, length b)"
    and laws: "store_laws ro P" "(\<lambda>f. rd @ drop (length d) f) ` set fs \<subseteq> P"
    and run: "UploadDir lo l ro (LDir es) conf d rd r = (Returned True, r')"
  shows "(\<forall>f\<in>set fs. synced lo l ro r r' f (rd @ drop (length d) f)) \<and>
    (\<forall>q\<in>P - (\<lambda>f. rd @ drop (length d) f) ` set fs. same_at ro q r r') \<and>
    UploadDir lo l ro (LDir es) conf d rd r' = (Returned True, r')"
proof -
  note list = UploadDir_list [OF tree, of ro conf rd, folded fs(1)]
  have names: "remote_name rd (length d) f = rd @ drop (length d) f" if "f \<in> set fs" for f
    using fs(2) that by (intro remote_name_plain) simp
  then have image: "remote_name rd (length d) ` set fs = (\<lambda>f. rd @ drop (length d) f) ` set fs" by (rule image_cong [OF refl])
  obtain w st r2 where w: "upload_list lo l ro (length d) rd fs (True, r) = (w, st, r2)" by (metis prod_cases3)
  with run list upload_list_status [of lo l ro "length d" rd fs "(True, r)" st r2]
    upload_list_no_skip [of lo l ro "length d" rd fs "(True, r)"]
  have w': "upload_list lo l ro (length d) rd fs (True, r) = (WOk, True, r')" by (cases w) auto
  have synced: "(\<forall>f\<in>set fs. synced lo l ro r r' f (remote_name rd (length d) f)) \<and>
      (\<forall>q\<in>P - remote_name rd (length d) ` set fs. same_at ro q r r')"
    using upload_list_synced [OF laws(1) _ _ _ _ w'] size laws(2)
      remote_name_inj [of "load_conf conf" d "LDir es" rd, folded fs(1)] fs(2) wanted_distinct(1) [OF tree(2), of "load_conf conf" d]
    by (simp add: image fs(1) [symmetric])
  then have "upload_list lo l ro (length d) rd fs (True, r') = (WOk, True, r')"
    by (intro upload_list_idle) (auto simp: synced_def)
  with synced names list show ?thesis by (simp add: image)
qed

text \<open>
  The names an ignore file without patterns excludes: folders by the lines that end in a slash, files by
  the other lines; lines that begin with \<^verbatim>\<open>#\<close> are comments. (Lines with a \<^verbatim>\<open>*\<close> at an end are patterns,
  which the program reads the other way round than their comment says.)
\<close>

definition ignore_lines :: "string option \<Rightarrow> string list" where
  "ignore_lines conf = (case conf of None \<Rightarrow> [] | Some s \<Rightarrow> filter (\<lambda>l. \<not> HasPrefix l ''#'') (scan_lines s))"

definition no_patterns :: "string option \<Rightarrow> bool" where
  "no_patterns conf = list_all (\<lambda>l. HasSuffix l Slash \<or> \<not> HasSuffix l ''*'' \<and> \<not> HasPrefix l ''*'') (ignore_lines conf)"

definition named_ignores :: "string option \<Rightarrow> ignore_path" where
  "named_ignores conf = no_ignores
     \<lparr>ig_directories := map butlast (filter (\<lambda>l. HasSuffix l Slash) (ignore_lines conf)),
      ig_files := filter (\<lambda>l. \<not> HasSuffix l Slash) (ignore_lines conf)\<rparr>"

lemma fold_add_ignore:
  assumes "list_all (\<lambda>l. HasSuffix l Slash \<or> \<not> HasSuffix l ''*'' \<and> \<not> HasPrefix l ''*'') (filter (\<lambda>l. \<not> HasPrefix l ''#'') ls)"
  shows "fold add_ignore ls ig = ig
     \<lparr>ig_directories := ig_directories ig @ map butlast (filter (\<lambda>l. HasSuffix l Slash) (filter (\<lambda>l. \<not> HasPrefix l ''#'') ls)),
      ig_files := ig_files ig @ filter (\<lambda>l. \<not> HasSuffix l Slash) (filter (\<lambda>l. \<not> HasPrefix l ''#'') ls)\<rparr>"
  using assms
proof (induction ls arbitrary: ig)
  case (Cons l ls)
  then show ?case by (auto simp: add_ignore_def Slash_def simp del: filter_filter)
qed simp

lemma load_conf_named: "no_patterns conf \<Longrightarrow> load_conf conf = named_ignores conf"
  by (cases conf)
    (simp_all add: load_conf_def named_ignores_def no_patterns_def ignore_lines_def fold_add_ignore no_ignores_def del: filter_filter)

text \<open>A directory that cannot be read is passed over without an error.\<close>

lemma unreadable_passed_over:
  assumes "fo_stat lo l d = Some (True, n)"
  shows "UploadDir lo l ro (LDir None) conf d rd r = (Returned True, r)"
  using assms by (simp add: UploadDir_def Walk_def upload_visit_def)

section \<open>A sample\<close>

text \<open>A store that keeps files (and directories, without contents) by their paths.\<close>

definition path_store :: "(string \<rightharpoonup> bytes option) store_ops" where
  "path_store =
     \<lparr>fo_stat = (\<lambda>m p. map_option (\<lambda>x. case x of None \<Rightarrow> (True, 4096) | Some b \<Rightarrow> (False, length b)) (m p)),
      fo_open = (\<lambda>m p. case m p of Some (Some b) \<Rightarrow> Some (b, True) | _ \<Rightarrow> None),
      fo_mkdirall = (\<lambda>m _. m), fo_create = (\<lambda>m p. Some (m(p \<mapsto> Some []))), fo_write = (\<lambda>m p b. (True, m(p \<mapsto> Some b)))\<rparr>"

lemma path_store_laws: "store_laws path_store P"
  by (simp add: store_laws_def path_store_def file_at_def same_at_def)

definition sample_tree :: ltree where
  "sample_tree = LDir (Some [(''.git'', LDir (Some [(''x'', LFile)])), (''a'', LFile), (''s'', LDir (Some [(''b'', LFile)]))])"

definition sample_files :: "string \<rightharpoonup> bytes option" where
  "sample_files = [''/w'' \<mapsto> None, ''/w/.git/x'' \<mapsto> Some [9], ''/w/a'' \<mapsto> Some [1, 2], ''/w/s/b'' \<mapsto> Some [3]]"

theorem upload_dir_syncs_witness:
  "\<exists>r'. UploadDir path_store sample_files path_store sample_tree (Some ''.git/'') ''/w'' ''/r''
        [''/r/a'' \<mapsto> Some [7, 7], ''/z'' \<mapsto> Some [5]] = (Returned True, r') \<and>
     map_option snd (fo_stat path_store r' ''/r/a'') = Some 2 \<and> fo_open path_store r' ''/r/s/b'' = Some ([3], True) \<and>
     same_at path_store ''/z'' [''/r/a'' \<mapsto> Some [7, 7], ''/z'' \<mapsto> Some [5]] r'"
proof -
  define r0 where "r0 = [''/r/a'' \<mapsto> Some [7, 7], ''/z'' \<mapsto> Some [5::byte]]"
  have fs: "[''/w/a'', ''/w/s/b''] = wanted (load_conf (Some ''.git/'')) ''/w'' sample_tree" by code_simp
  have "fst (UploadDir path_store sample_files path_store sample_tree (Some ''.git/'') ''/w'' ''/r'' r0) = Returned True"
    unfolding r0_def by code_simp
  then obtain r' where run: "UploadDir path_store sample_files path_store sample_tree (Some ''.git/'') ''/w'' ''/r'' r0 = (Returned True, r')"
    by (metis prod.collapse)
  have tree: "clean_dir ''/w''" "tree_ok sample_tree" "fo_stat path_store sample_files ''/w'' = Some (True, 4096)" by code_simp+
  have size: "\<forall>f\<in>set [''/w/a'', ''/w/s/b'']. \<forall>b. fo_open path_store sample_files f = Some (b, True) \<longrightarrow>
      fo_stat path_store sample_files f = Some (False, length b)"
    by (simp add: path_store_def sample_files_def)
  note syncs = upload_dir_syncs [where rd = "''/r''" and P = "{''/r/a'', ''/r/s/b'', ''/z''}",
      OF tree(1) tree(2,3) [unfolded sample_tree_def] fs [unfolded sample_tree_def] _ size path_store_laws _ run [unfolded sample_tree_def]]
  show ?thesis
    using run syncs unfolding r0_def [symmetric]
    by (auto simp: synced_def same_at_def) (auto simp: path_store_def sample_files_def r0_def)
qed

text \<open>Uploading the current directory misplaces the files: the walk does not give their paths the prefix
  that is cut off.\<close>

theorem upload_from_dot:
  "map_option fst (fo_open path_store (snd (UploadDir path_store [''.'' \<mapsto> None, ''main.go'' \<mapsto> Some [1]] path_store
     (LDir (Some [(''main.go'', LFile)])) None ''.'' ''dir'' Map.empty)) ''dirain.go'') = Some [1]"
  by code_simp

text \<open>The patterns of the ignore file work the other way round than its comment says: \<open>*.pyc\<close> is taken for a
  prefix, \<open>tmp*\<close> for a suffix.\<close>

theorem ignore_patterns_swapped:
  "\<not> match_file (load_conf (Some ''*.pyc'')) ''x.pyc'' \<and> match_file (load_conf (Some ''*.pyc'')) ''.pyc-keep'' \<and>
   \<not> match_file (load_conf (Some ''tmp*'')) ''tmp1'' \<and> match_file (load_conf (Some ''tmp*'')) ''1tmp''"
  by code_simp

end
