(* ===== verification/Scp_Workers.thy ===== *)
theory Scp_Workers
  imports Scp_Transfer
begin

text \<open>
  The concurrent transfers of \<^verbatim>\<open>scp/scp.go\<close> (\<^verbatim>\<open>ChanUpload\<close>, \<^verbatim>\<open>ChanDownload\<close>): the walk sends the pairs of
  files one by one over an unbuffered channel to a number of workers, then one empty pair for each
  worker, and waits for each of them. The interleaving is a sequence of events.
\<close>

section \<open>The pool\<close>

type_synonym file_pair = "string \<times> string"

datatype worker = Waiting | Busy file_pair | Notifying | Stopped

record pool =
  po_todo :: "file_pair list"
  po_workers :: "worker list"
  po_done :: "file_pair list"

definition end_mark :: file_pair where
  "end_mark = ([], [])"

definition is_mark :: "file_pair \<Rightarrow> bool" where
  "is_mark p \<longleftrightarrow> fst p = [] \<or> snd p = []"

text \<open>The pairs of a walk: the local path and the remote one, or the other way round.\<close>

definition walked :: "string \<Rightarrow> ltree \<Rightarrow> (string \<times> bool) list" where
  "walked root t = snd (Walk (\<lambda>p d s. (WOk, s @ [(p, d)])) root t [])"

definition ChanUpload_pairs :: "string \<Rightarrow> ltree \<Rightarrow> string \<Rightarrow> file_pair list" where
  "ChanUpload_pairs local_dir t remote_dir =
     [(path, remote_name remote_dir (length local_dir) path). (path, d) \<leftarrow> walked local_dir t, \<not> d]"

definition ChanDownload_pairs :: "string \<Rightarrow> (string \<times> bool) list \<Rightarrow> string \<Rightarrow> file_pair list" where
  "ChanDownload_pairs remote_dir ws local_dir =
     [(local_dir @ drop (length remote_dir) path, path). (path, d) \<leftarrow> ws, \<not> d]"

definition start_pool :: "file_pair list \<Rightarrow> nat \<Rightarrow> pool" where
  "start_pool pairs n = \<lparr>po_todo = pairs @ replicate n end_mark, po_workers = replicate n Waiting, po_done = []\<rparr>"

text \<open>
  A pair is handed to a waiting worker, which stops at an empty one; a worker finishes a transfer; the
  walk, once everything has been sent, takes the notice of a worker.
\<close>

datatype pool_event = Hand nat | Finish nat | Collect nat

fun pool_step :: "pool_event \<Rightarrow> pool \<Rightarrow> pool option" where
  "pool_step (Hand i) s =
     (case po_todo s of
        [] \<Rightarrow> None
      | p # ps \<Rightarrow>
          if i < length (po_workers s) \<and> po_workers s ! i = Waiting
          then Some (s\<lparr>po_todo := ps, po_workers := (po_workers s)[i := if is_mark p then Notifying else Busy p]\<rparr>)
          else None)"
| "pool_step (Finish i) s =
     (if i < length (po_workers s)
      then case po_workers s ! i of
             Busy p \<Rightarrow> Some (s\<lparr>po_workers := (po_workers s)[i := Waiting], po_done := po_done s @ [p]\<rparr>)
           | _ \<Rightarrow> None
      else None)"
| "pool_step (Collect i) s =
     (if po_todo s = [] \<and> i < length (po_workers s) \<and> po_workers s ! i = Notifying
      then Some (s\<lparr>po_workers := (po_workers s)[i := Stopped]\<rparr>) else None)"

definition pool_do :: "pool \<Rightarrow> pool_event \<Rightarrow> pool" where
  "pool_do s e = (case pool_step e s of None \<Rightarrow> s | Some s' \<Rightarrow> s')"

definition pool_finished :: "pool \<Rightarrow> bool" where
  "pool_finished s \<longleftrightarrow> po_todo s = [] \<and> list_all (\<lambda>w. w = Stopped) (po_workers s)"

section \<open>Nothing is lost and nothing waits for ever\<close>

definition busy_pairs :: "worker list \<Rightarrow> file_pair multiset" where
  "busy_pairs ws = mset (concat (map (\<lambda>w. case w of Busy p \<Rightarrow> [p] | _ \<Rightarrow> []) ws))"

definition alive :: "worker \<Rightarrow> bool" where
  "alive w \<longleftrightarrow> (case w of Waiting \<Rightarrow> True | Busy _ \<Rightarrow> True | _ \<Rightarrow> False)"

definition pool_inv :: "file_pair list \<Rightarrow> nat \<Rightarrow> pool \<Rightarrow> bool" where
  "pool_inv pairs n s \<longleftrightarrow>
     (\<exists>ps k. po_todo s = ps @ replicate k end_mark \<and> list_all (\<lambda>p. \<not> is_mark p) ps \<and> (ps \<noteq> [] \<longrightarrow> k = n) \<and>
       length (filter alive (po_workers s)) = k \<and>
       mset ps + busy_pairs (po_workers s) + mset (po_done s) = mset pairs) \<and>
     length (po_workers s) = n"

definition pool_work :: "pool \<Rightarrow> nat" where
  "pool_work s = 2 * length (po_todo s) + length (filter (\<lambda>w. w \<noteq> Waiting \<and> w \<noteq> Stopped) (po_workers s))"

lemma list_update_parts: "i < length ws \<Longrightarrow> \<exists>us vs. ws = us @ ws ! i # vs \<and> length us = i"
  using id_take_nth_drop [of i ws] by (intro exI [of _ "take i ws"] exI [of _ "drop (Suc i) ws"]) simp

lemma worker_update:
  assumes "i < length ws" "ws ! i = w"
  obtains us vs where "ws = us @ w # vs" "\<And>w'. ws[i := w'] = us @ w' # vs"
proof -
  obtain us vs where "ws = us @ w # vs" "length us = i" using list_update_parts [OF assms(1)] assms(2) by auto
  with that show thesis by auto
qed

lemma busy_pairs_append [simp]: "busy_pairs (us @ w # vs) = busy_pairs us + busy_pairs [w] + busy_pairs vs"
  by (simp add: busy_pairs_def)

lemma busy_pairs_one [simp]:
  "busy_pairs [Busy p] = {#p#}" "busy_pairs [Waiting] = {#}" "busy_pairs [Notifying] = {#}" "busy_pairs [Stopped] = {#}" "busy_pairs [] = {#}"
  by (simp_all add: busy_pairs_def)

lemma alive_simps [simp]: "alive Waiting" "alive (Busy p)" "\<not> alive Notifying" "\<not> alive Stopped"
  by (simp_all add: alive_def)

lemma end_mark_is_mark [simp]: "is_mark end_mark"
  by (simp add: is_mark_def end_mark_def)

lemma pool_step_inv:
  assumes inv: "pool_inv pairs n s" and step: "pool_step e s = Some s'"
  shows "pool_inv pairs n s'"
proof -
  obtain ps k where s: "po_todo s = ps @ replicate k end_mark" "list_all (\<lambda>p. \<not> is_mark p) ps" "ps \<noteq> [] \<longrightarrow> k = n"
      "length (filter alive (po_workers s)) = k" "mset ps + busy_pairs (po_workers s) + mset (po_done s) = mset pairs"
      "length (po_workers s) = n"
    using inv by (auto simp: pool_inv_def)
  show ?thesis
  proof (cases e)
    case (Hand i)
    with step obtain p todo where p: "po_todo s = p # todo" "i < length (po_workers s)" "po_workers s ! i = Waiting"
        "s' = s\<lparr>po_todo := todo, po_workers := (po_workers s)[i := if is_mark p then Notifying else Busy p]\<rparr>"
      by (auto split: list.splits if_splits)
    obtain us vs where us: "po_workers s = us @ Waiting # vs" "\<And>w'. (po_workers s)[i := w'] = us @ w' # vs"
      by (rule worker_update [OF p(2,3)]) auto
    show ?thesis
    proof (cases ps)
      case (Cons q qs)
      with s p us show ?thesis
        unfolding pool_inv_def by (intro conjI exI [of _ qs] exI [of _ k]) auto
    next
      case Nil
      with s(1) p(1) obtain j where j: "k = Suc j" "p = end_mark" "todo = replicate j end_mark" by (cases k) auto
      with Nil s p us show ?thesis
        unfolding pool_inv_def by (intro conjI exI [of _ "[]"] exI [of _ j]) auto
    qed
  next
    case (Finish i)
    with step obtain p where p: "i < length (po_workers s)" "po_workers s ! i = Busy p"
        "s' = s\<lparr>po_workers := (po_workers s)[i := Waiting], po_done := po_done s @ [p]\<rparr>"
      by (auto split: worker.splits if_splits)
    obtain us vs where us: "po_workers s = us @ Busy p # vs" "\<And>w'. (po_workers s)[i := w'] = us @ w' # vs"
      by (rule worker_update [OF p(1,2)]) auto
    with s p show ?thesis
      unfolding pool_inv_def by (intro conjI exI [of _ ps] exI [of _ k]) auto
  next
    case (Collect i)
    with step have p: "i < length (po_workers s)" "po_workers s ! i = Notifying"
        "s' = s\<lparr>po_workers := (po_workers s)[i := Stopped]\<rparr>"
      by (auto split: if_splits)
    obtain us vs where us: "po_workers s = us @ Notifying # vs" "\<And>w'. (po_workers s)[i := w'] = us @ w' # vs"
      by (rule worker_update [OF p(1,2)]) auto
    with s p show ?thesis
      unfolding pool_inv_def by (intro conjI exI [of _ ps] exI [of _ k]) auto
  qed
qed

lemma pool_step_work:
  assumes "pool_step e s = Some s'" shows "pool_work s' < pool_work s"
proof (cases e)
  case (Hand i)
  with assms obtain p todo where p: "po_todo s = p # todo" "i < length (po_workers s)" "po_workers s ! i = Waiting"
      "s' = s\<lparr>po_todo := todo, po_workers := (po_workers s)[i := if is_mark p then Notifying else Busy p]\<rparr>"
    by (auto split: list.splits if_splits)
  with length_filter_update [OF p(2), of "\<lambda>w. w \<noteq> Waiting \<and> w \<noteq> Stopped" "if is_mark p then Notifying else Busy p"]
  show ?thesis by (simp add: pool_work_def split: if_splits)
next
  case (Finish i)
  with assms obtain p where p: "i < length (po_workers s)" "po_workers s ! i = Busy p"
      "s' = s\<lparr>po_workers := (po_workers s)[i := Waiting], po_done := po_done s @ [p]\<rparr>"
    by (auto split: worker.splits if_splits)
  with length_filter_update [OF p(1), of "\<lambda>w. w \<noteq> Waiting \<and> w \<noteq> Stopped" Waiting] show ?thesis by (simp add: pool_work_def)
next
  case (Collect i)
  with assms have p: "i < length (po_workers s)" "po_workers s ! i = Notifying" "s' = s\<lparr>po_workers := (po_workers s)[i := Stopped]\<rparr>"
    by (auto split: if_splits)
  with length_filter_update [OF p(1), of "\<lambda>w. w \<noteq> Waiting \<and> w \<noteq> Stopped" Stopped] show ?thesis by (simp add: pool_work_def)
qed

interpretation pool: inv_machine pool_do "pool_inv pairs n"
  by unfold_locales (auto simp: pool_do_def intro: pool_step_inv split: option.split)

lemma pool_start: "list_all (\<lambda>p. \<not> is_mark p) pairs \<Longrightarrow> pool_inv pairs n (start_pool pairs n)"
  unfolding pool_inv_def start_pool_def
  by (intro conjI exI [of _ pairs] exI [of _ n]) (auto simp: busy_pairs_def)

lemma no_worker_alive: "filter alive ws = [] \<Longrightarrow> busy_pairs ws = {#}"
  by (induction ws) (auto simp: busy_pairs_def alive_def split: if_splits worker.splits)

lemma pool_not_stuck:
  assumes inv: "pool_inv pairs n s" and n: "0 < n"
  shows "pool_finished s \<and> mset (po_done s) = mset pairs \<or> (\<exists>e. pool_step e s \<noteq> None)"
proof -
  obtain ps k where s: "po_todo s = ps @ replicate k end_mark" "ps \<noteq> [] \<longrightarrow> k = n"
      "length (filter alive (po_workers s)) = k" "mset ps + busy_pairs (po_workers s) + mset (po_done s) = mset pairs"
    using inv by (auto simp: pool_inv_def)
  let ?ws = "po_workers s"
  consider (busy) i p where "i < length ?ws" "?ws ! i = Busy p" | (waiting) i where "i < length ?ws" "?ws ! i = Waiting"
    | (dead) "filter alive ?ws = []"
  proof (cases "filter alive ?ws = []")
    case False
    then obtain w where "w \<in> set ?ws" "alive w" by (auto simp: filter_empty_conv)
    then obtain i where "i < length ?ws" "?ws ! i = Waiting \<or> (\<exists>p. ?ws ! i = Busy p)"
      by (auto simp: in_set_conv_nth alive_def split: worker.splits)
    then show ?thesis using busy waiting by blast
  qed (rule dead)
  then show ?thesis
  proof cases
    case busy
    then have "pool_step (Finish i) s \<noteq> None" by simp
    then show ?thesis by blast
  next
    case waiting
    then have "alive (?ws ! i)" by simp
    with waiting(1) have "filter alive ?ws \<noteq> []" by (auto simp: filter_empty_conv)
    with s(3) have "k \<noteq> 0" by auto
    with s(1) have "po_todo s \<noteq> []" by simp
    with waiting have "pool_step (Hand i) s \<noteq> None" by (auto split: list.split)
    then show ?thesis by blast
  next
    case dead
    with s n have todo: "po_todo s = []" "ps = []" by auto
    show ?thesis
    proof (cases "list_all (\<lambda>w. w = Stopped) ?ws")
      case True
      with todo s no_worker_alive [OF dead] show ?thesis by (simp add: pool_finished_def)
    next
      case False
      then obtain i where "i < length ?ws" "?ws ! i \<noteq> Stopped" by (auto simp: list_all_length)
      moreover have "\<not> alive (?ws ! i)" using dead \<open>i < length ?ws\<close> by (auto simp: filter_empty_conv)
      ultimately have "?ws ! i = Notifying" by (auto simp: alive_def split: worker.splits)
      with todo \<open>i < length ?ws\<close> have "pool_step (Collect i) s \<noteq> None" by simp
      then show ?thesis by blast
    qed
  qed
qed

text \<open>C28: however the workers are scheduled, a concurrent transfer does not get stuck: until it is finished
  some step is possible, every step brings it nearer to its end, and when it is finished every file
  has been handed to a worker and transferred exactly once.\<close>

theorem scp_workers_complete:
  assumes "list_all (\<lambda>p. \<not> is_mark p) pairs" "0 < n" and s: "s = foldl pool_do (start_pool pairs n) es"
  shows "(pool_finished s \<and> mset (po_done s) = mset pairs \<or> (\<exists>e. pool_step e s \<noteq> None)) \<and>
    (\<forall>e s'. pool_step e s = Some s' \<longrightarrow> pool_work s' < pool_work s) \<and>
    pool_work (start_pool pairs n) = 2 * (length pairs + n)"
proof (intro conjI allI impI)
  have "pool_inv pairs n s" unfolding s by (rule pool.run_inv [OF pool_start [OF assms(1)]])
  then show "pool_finished s \<and> mset (po_done s) = mset pairs \<or> (\<exists>e. pool_step e s \<noteq> None)"
    by (rule pool_not_stuck [OF _ assms(2)])
next
  show "pool_work s' < pool_work s" if "pool_step e s = Some s'" for e s' by (rule pool_step_work [OF that])
qed (simp add: pool_work_def start_pool_def)

theorem scp_workers_complete_witness:
  "pool_finished (foldl pool_do (start_pool [(''/w/a'', ''/r/a''), (''/w/b'', ''/r/b'')] 1)
      [Hand 0, Finish 0, Hand 0, Collect 0, Finish 0, Hand 0, Collect 0]) \<and>
   (\<exists>e. pool_step e (start_pool [(''/w/a'', ''/r/a''), (''/w/b'', ''/r/b'')] 1) \<noteq> None)"
proof
  show "pool_finished (foldl pool_do (start_pool [(''/w/a'', ''/r/a''), (''/w/b'', ''/r/b'')] 1)
      [Hand 0, Finish 0, Hand 0, Collect 0, Finish 0, Hand 0, Collect 0])"
    by code_simp
  have "list_all (\<lambda>p. \<not> is_mark p) [(''/w/a'', ''/r/a''), (''/w/b'', ''/r/b'')]" by code_simp
  from scp_workers_complete [OF this _ refl, of 1 "[]"]
  show "\<exists>e. pool_step e (start_pool [(''/w/a'', ''/r/a''), (''/w/b'', ''/r/b'')] 1) \<noteq> None"
    by (simp add: pool_finished_def start_pool_def)
qed

end
