(* ===== verification/Ssh_Lex.thy ===== *)
theory Ssh_Lex
  imports Go_Strings
begin

text \<open>
  The scanner of \<^verbatim>\<open>sshconfig/lex.go\<close>: a state function per situation, chained by \<open>run\<close>. The scanner's
  position splits the input into what has been taken since \<open>start\<close> and the rest; a state function
  that loops over the input is a recursive scan of the rest. Letters and digits are those of ASCII.
\<close>

section \<open>Items\<close>

datatype lex_error = ExpectedNL | BadChar char | InvalidPattern string

datatype item_type =
  ItemError lex_error | ItemEOF | ItemValue | ItemHost | ItemHostValue | ItemHostName | ItemUser |
  ItemPort | ItemProxyCommand | ItemHostKeyAlgorithms | ItemIdentityFile | ItemLocalForward |
  ItemRemoteForward | ItemDynamicForward | ItemInclude

record item =
  it_typ :: item_type
  it_pos :: nat
  it_val :: string

definition mk_item :: "item_type \<Rightarrow> nat \<Rightarrow> string \<Rightarrow> item" where
  "mk_item t p v = \<lparr>it_typ = t, it_pos = p, it_val = v\<rparr>"

definition lex_message :: "lex_error \<Rightarrow> string" where
  "lex_message e =
     (case e of
        ExpectedNL \<Rightarrow> ''expected '' @ [CHR 0x5C, CHR ''n'']
      | BadChar c \<Rightarrow> ''unable to parse character: '' @ [c]
      | InvalidPattern s \<Rightarrow> ''invalid pattern: '' @ [CHR 0x22] @ s @ [CHR 0x22])"

definition mk_error :: "lex_error \<Rightarrow> nat \<Rightarrow> item" where
  "mk_error e p = mk_item (ItemError e) p (lex_message e)"

definition variables :: "(string \<times> item_type) list" where
  "variables =
     [(''host'', ItemHost), (''hostname'', ItemHostName), (''user'', ItemUser), (''port'', ItemPort),
      (''proxycommand'', ItemProxyCommand), (''hostkeyalgorithms'', ItemHostKeyAlgorithms),
      (''identityfile'', ItemIdentityFile), (''localforward'', ItemLocalForward),
      (''remoteforward'', ItemRemoteForward), (''dynamicforward'', ItemDynamicForward),
      (''include'', ItemInclude)]"

definition char_in :: "char \<Rightarrow> char \<Rightarrow> char \<Rightarrow> bool" where
  "char_in a z c \<longleftrightarrow> (of_char a :: nat) \<le> of_char c \<and> of_char c \<le> (of_char z :: nat)"

definition isAlphaNumeric :: "char \<Rightarrow> bool" where
  "isAlphaNumeric c \<longleftrightarrow>
     char_in (CHR ''a'') (CHR ''z'') c \<or> char_in (CHR ''A'') (CHR ''Z'') c \<or> char_in (CHR ''0'') (CHR ''9'') c"

definition lower_char :: "char \<Rightarrow> char" where
  "lower_char c = (if char_in (CHR ''A'') (CHR ''Z'') c then char_of (of_char c + (32 :: nat)) else c)"

definition ToLower :: "string \<Rightarrow> string" where
  "ToLower s = map lower_char s"

abbreviation "LF \<equiv> CHR 0x0A"
abbreviation "CR \<equiv> CHR 0x0D"
abbreviation "TAB \<equiv> CHR 0x09"
abbreviation "SP \<equiv> CHR '' ''"

section \<open>Scans\<close>

text \<open>How a scan of a line ends: at the line's end (not consumed), at the end of the input, or at a
  carriage return without a line feed.\<close>

datatype line_end = AtEOL | AtEOF | BadCR

text \<open>\<^verbatim>\<open>lexValue\<close>: the value, how it ends, the rest.\<close>

fun scan_value :: "string \<Rightarrow> string \<times> line_end \<times> string" where
  "scan_value [] = ([], AtEOF, [])"
| "scan_value (c # cs) =
     (if c = LF then ([], AtEOL, c # cs)
      else if c = CR then (if take 1 cs = [LF] then ([], AtEOL, c # cs) else ([], BadCR, c # cs))
      else (let (v, e, r) = scan_value cs in (c # v, e, r)))"

text \<open>
  \<^verbatim>\<open>lexHostValue\<close>: a space before the end of the line or of the input closes a value item (not a
  host value); before a carriage return it is an error. The values, the last of them the host value.
\<close>

fun scan_host :: "string \<Rightarrow> string list \<times> line_end \<times> string" where
  "scan_host [] = ([[]], AtEOF, [])"
| "scan_host (c # cs) =
     (if c = SP then
        (if cs = [] \<or> take 1 cs = [LF] then
           (let (vs, e, r) = scan_host cs in ([SP] # vs, e, r))
         else if take 1 cs = [CR] then ([[]], BadCR, cs)
         else (let (vs, e, r) = scan_host cs in ((SP # hd vs) # tl vs, e, r)))
      else if c = LF then ([[]], AtEOL, c # cs)
      else if c = CR then (if take 1 cs = [LF] then ([[]], AtEOL, c # cs) else ([[]], BadCR, c # cs))
      else (let (vs, e, r) = scan_host cs in ((c # hd vs) # tl vs, e, r)))"

text \<open>\<^verbatim>\<open>lexComment\<close>: to the end of the line; the flag is false at a carriage return without a line feed.\<close>

fun scan_comment :: "string \<Rightarrow> bool \<times> nat \<times> string" where
  "scan_comment [] = (True, 0, [])"
| "scan_comment (c # cs) =
     (if c = LF then (True, 1, cs)
      else if c = CR then (if take 1 cs = [LF] then (True, 2, drop 1 cs) else (False, 1, cs))
      else (let (ok, n, r) = scan_comment cs in (ok, Suc n, r)))"

lemma scan_value_rest: "scan_value s = (v, e, r) \<Longrightarrow> s = v @ r"
  by (induction s arbitrary: v e r) (auto split: if_splits prod.splits)

lemma scan_host_rest: "scan_host s = (vs, e, r) \<Longrightarrow> vs \<noteq> [] \<and> length r \<le> length s \<and> (e \<noteq> BadCR \<longrightarrow> s = concat vs @ r)"
proof (induction s arbitrary: vs e r)
  case (Cons c cs)
  obtain vs1 e1 r1 where s: "scan_host cs = (vs1, e1, r1)" by (cases "scan_host cs")
  from Cons.IH [OF s] obtain v w where "vs1 = v # w" by (cases vs1) auto
  with Cons.prems Cons.IH [OF s] s show ?case by (auto split: if_splits)
qed simp

lemma scan_comment_rest: "scan_comment s = (ok, n, r) \<Longrightarrow> length r \<le> length s"
proof (induction s arbitrary: ok n r)
  case (Cons c cs)
  show ?case
    using Cons.prems Cons.IH by (cases "scan_comment cs") (auto split: if_splits simp: le_Suc_eq)
qed simp

lemma scan_less:
  "(v, e, r) = scan_value s \<Longrightarrow> length r \<le> length s"
  "(vs, e, r) = scan_host s \<Longrightarrow> length r \<le> length s"
  "(ok, n, r) = scan_comment s \<Longrightarrow> length r \<le> length s"
  "(v, e, r) = scan_value (dropWhile P s) \<Longrightarrow> length r \<le> length s"
  "(v, e, r) = scan_value (tl (dropWhile P s)) \<Longrightarrow> length r \<le> length s"
  "(vs, e, r) = scan_host (tl (dropWhile P s)) \<Longrightarrow> length r \<le> length s"
proof -
  show v: "(v, e, r) = scan_value s \<Longrightarrow> length r \<le> length s" for v e r s
    using scan_value_rest [of s v e r] by auto
  show h: "(vs, e, r) = scan_host s \<Longrightarrow> length r \<le> length s" for vs e r s
    using scan_host_rest [of s vs e r] by auto
  show "(ok, n, r) = scan_comment s \<Longrightarrow> length r \<le> length s"
    using scan_comment_rest [of s ok n r] by auto
  have d: "length (dropWhile P s) \<le> length s" by (rule length_dropWhile_le)
  show "(v, e, r) = scan_value (dropWhile P s) \<Longrightarrow> length r \<le> length s"
    "(v, e, r) = scan_value (tl (dropWhile P s)) \<Longrightarrow> length r \<le> length s"
    "(vs, e, r) = scan_host (tl (dropWhile P s)) \<Longrightarrow> length r \<le> length s"
    using v [of v e r "dropWhile P s"] v [of v e r "tl (dropWhile P s)"] h [of vs e r "tl (dropWhile P s)"] d by auto
qed

section \<open>The state functions\<close>

definition host_items :: "nat \<Rightarrow> string list \<Rightarrow> item list" where
  "host_items start vs =
     map (\<lambda>(i, v). mk_item (if Suc i = length vs then ItemHostValue else ItemValue)
        (start + length (concat (take i vs))) v) (enumerate 0 vs)"

text \<open>
  \<^verbatim>\<open>lexEnv\<close> with \<^verbatim>\<open>lexVariable\<close>: the items of the input from position \<open>start\<close> on. An unknown variable is
  not an error: it becomes part of a value.
\<close>

function lexEnv :: "nat \<Rightarrow> string \<Rightarrow> item list" where
  "lexEnv start [] = [mk_item ItemEOF start []]"
| "lexEnv start (c # cs) =
     (if isAlphaNumeric c then
        (let word = takeWhile isAlphaNumeric (c # cs); after = dropWhile isAlphaNumeric (c # cs);
             n = length word
         in if after \<noteq> [] \<and> (hd after = SP \<or> hd after = CHR ''='') then
              (case map_of variables (ToLower word) of
                 Some t \<Rightarrow>
                   mk_item t start word #
                   (if t = ItemHost then
                      (case scan_host (tl after) of
                         (vs, AtEOL, r) \<Rightarrow> host_items (start + n + 1) vs @
                           lexEnv (start + n + 1 + length (concat vs)) r
                       | (vs, AtEOF, r) \<Rightarrow> host_items (start + n + 1) vs @
                           [mk_item ItemEOF (start + n + 1 + length (concat vs)) []]
                       | (vs, BadCR, r) \<Rightarrow> [mk_error ExpectedNL (start + n + 1)])
                    else
                      (case scan_value (tl after) of
                         (v, AtEOL, r) \<Rightarrow> mk_item ItemValue (start + n + 1) v # lexEnv (start + n + 1 + length v) r
                       | (v, AtEOF, r) \<Rightarrow>
                           [mk_item ItemValue (start + n + 1) v, mk_item ItemEOF (start + n + 1 + length v) []]
                       | (v, BadCR, r) \<Rightarrow> [mk_error ExpectedNL (start + n + 1)]))
               | None \<Rightarrow>
                   (case scan_value after of
                      (v, AtEOL, r) \<Rightarrow> mk_item ItemValue start (word @ v) # lexEnv (start + n + length v) r
                    | (v, AtEOF, r) \<Rightarrow>
                        [mk_item ItemValue start (word @ v), mk_item ItemEOF (start + n + length v) []]
                    | (v, BadCR, r) \<Rightarrow> [mk_error ExpectedNL start]))
            else [mk_error (InvalidPattern (word @ take 1 after)) start])
      else if c = CHR ''#'' then
        (case scan_comment cs of
           (True, k, r) \<Rightarrow> lexEnv (start + 1 + k) r
         | (False, k, r) \<Rightarrow> [mk_error ExpectedNL (start + 1 + k)])
      else if c = CR then
        (if take 1 cs = [LF] then lexEnv (start + 2) (drop 1 cs)
         else [mk_error ExpectedNL (start + 1)])
      else if c = TAB \<or> c = SP \<or> c = LF then lexEnv (start + 1) cs
      else [mk_error (BadChar c) start])"
  by pat_completeness auto
termination
  by (relation "measure (\<lambda>(_, s). length s)") (auto dest: scan_less simp: less_Suc_eq_le)

declare lexEnv.simps [simp del]

lemmas lexEnv_unfold = lexEnv.simps [unfolded Let_def]

section \<open>The stream of items\<close>

text \<open>Exactly the last item is the end of the input or an error, and a keyword's item is followed by
  its value.\<close>

definition is_last :: "item \<Rightarrow> bool" where
  "is_last x \<longleftrightarrow> it_typ x = ItemEOF \<or> (\<exists>e. it_typ x = ItemError e)"

definition is_key :: "item \<Rightarrow> bool" where
  "is_key x \<longleftrightarrow> it_typ x \<in> set (map snd variables)"

definition after_key :: "item \<Rightarrow> bool" where
  "after_key x \<longleftrightarrow>
     it_typ x \<noteq> ItemEOF \<and> \<not> is_key x \<and> (is_last x \<longrightarrow> it_val x = lex_message ExpectedNL)"

fun well_lexed :: "item list \<Rightarrow> bool" where
  "well_lexed [] = False"
| "well_lexed (x # xs) =
     (if is_last x then xs = []
      else xs \<noteq> [] \<and> (is_key x \<longrightarrow> after_key (hd xs)) \<and> well_lexed xs)"

lemma mk_item_simps [simp]:
  "it_typ (mk_item t p v) = t" "it_pos (mk_item t p v) = p" "it_val (mk_item t p v) = v"
  by (simp_all add: mk_item_def)

lemma keys_not_last:
  "map_of variables w = Some t \<Longrightarrow> is_key (mk_item t p v) \<and> \<not> is_last (mk_item t p v)"
  by (auto simp: is_key_def is_last_def variables_def split: if_splits)

lemma plain_items [simp]:
  "\<not> is_last (mk_item ItemValue p v)" "\<not> is_key (mk_item ItemValue p v)"
  "\<not> is_last (mk_item ItemHostValue p v)" "\<not> is_key (mk_item ItemHostValue p v)"
  "is_last (mk_item ItemEOF p v)" "is_last (mk_error e p)" "after_key (mk_item ItemValue p v)"
  "after_key (mk_error ExpectedNL p)"
  by (auto simp: is_last_def is_key_def variables_def mk_error_def after_key_def)

lemma well_lexed_nonempty: "well_lexed xs \<Longrightarrow> xs \<noteq> []"
  by auto

lemma well_lexed_plain: "well_lexed xs \<Longrightarrow> well_lexed (mk_item ItemValue p v # xs)"
  by (cases xs) auto

lemma well_lexed_values:
  assumes "\<forall>x\<in>set ys. it_typ x = ItemValue \<or> it_typ x = ItemHostValue" "well_lexed xs"
  shows "well_lexed (ys @ xs)"
  using assms
proof (induction ys)
  case (Cons y ys)
  then have "\<not> is_last y" "\<not> is_key y" by (auto simp: is_last_def is_key_def variables_def)
  with Cons show ?case using well_lexed_nonempty by auto
qed simp

lemma host_items_props:
  "\<forall>x\<in>set (host_items p vs). it_typ x = ItemValue \<or> it_typ x = ItemHostValue"
  "vs \<noteq> [] \<Longrightarrow> host_items p vs \<noteq> []"
  by (auto simp: host_items_def enumerate_eq_zip)

lemma well_lexed_host:
  assumes "vs \<noteq> []" "well_lexed xs"
  shows "well_lexed (mk_item ItemHost q w # host_items p vs @ xs)"
proof -
  obtain y ys where y: "host_items p vs = y # ys" using host_items_props(2) [OF assms(1)] by (cases "host_items p vs") auto
  then have "it_typ y = ItemValue \<or> it_typ y = ItemHostValue" using host_items_props(1) [of p vs] by auto
  then have "after_key y" by (auto simp: is_key_def variables_def after_key_def is_last_def)
  with y well_lexed_values [OF host_items_props(1) assms(2), of p vs] show ?thesis
    by (auto simp: is_last_def)
qed

lemma lexEnv_well: "well_lexed (lexEnv start s)"
proof (induction start s rule: lexEnv.induct)
  case (1 start)
  show ?case by (simp add: lexEnv.simps)
next
  case (2 start c cs)
  define word where "word = takeWhile isAlphaNumeric (c # cs)"
  define after where "after = dropWhile isAlphaNumeric (c # cs)"
  note IH = "2.IH"(1-3) [OF _ word_def after_def refl]
  show ?case
  proof (cases "isAlphaNumeric c")
    case alnum: True
    show ?thesis
    proof (cases "after \<noteq> [] \<and> (hd after = SP \<or> hd after = CHR ''='')")
      case sep: True
      show ?thesis
      proof (cases "map_of variables (ToLower word)")
        case None
        obtain v e r where sc: "scan_value after = (v, e, r)" by (cases "scan_value after")
        have rec: "well_lexed (lexEnv (start + length word + length v) r)" if "e = AtEOL"
          using IH(1) [OF alnum sep None sc [symmetric]] that by auto
        with alnum sep None sc show ?thesis
          unfolding lexEnv.simps Let_def word_def [symmetric] after_def [symmetric]
          by (cases e) (auto intro: well_lexed_plain)
      next
        case (Some t)
        note key = keys_not_last [OF Some]
        show ?thesis
        proof (cases "t = ItemHost")
          case True
          obtain vs e r where sc: "scan_host (tl after) = (vs, e, r)" by (cases "scan_host (tl after)")
          have "vs \<noteq> []" using scan_host_rest [OF sc] by simp
          have rec: "well_lexed (lexEnv (start + length word + 1 + length (concat vs)) r)" if "e = AtEOL"
            using IH(2) [OF alnum sep Some True sc [symmetric]] that by auto
          have eq: "lexEnv start (c # cs) = mk_item ItemHost start word #
              (case e of
                 AtEOL \<Rightarrow> host_items (start + length word + 1) vs @ lexEnv (start + length word + 1 + length (concat vs)) r
               | AtEOF \<Rightarrow> host_items (start + length word + 1) vs @ [mk_item ItemEOF (start + length word + 1 + length (concat vs)) []]
               | BadCR \<Rightarrow> [mk_error ExpectedNL (start + length word + 1)])"
            using alnum sep Some True sc
            unfolding lexEnv.simps Let_def word_def [symmetric] after_def [symmetric] by (cases e) simp_all
          show ?thesis
          proof (cases e)
            case BadCR
            with key True show ?thesis by (simp add: eq)
          qed (use well_lexed_host [OF \<open>vs \<noteq> []\<close>] rec in \<open>simp_all add: eq del: well_lexed.simps(2), simp_all\<close>)
        next
          case False
          obtain v e r where sc: "scan_value (tl after) = (v, e, r)" by (cases "scan_value (tl after)")
          have rec: "well_lexed (lexEnv (start + length word + 1 + length v) r)" if "e = AtEOL"
            using IH(3) [OF alnum sep Some False sc [symmetric]] that by auto
          with alnum sep Some False sc key show ?thesis
            unfolding lexEnv.simps Let_def word_def [symmetric] after_def [symmetric]
            by (cases e) (auto simp: well_lexed_nonempty)
        qed
      qed
    next
      case False
      with alnum show ?thesis
        unfolding lexEnv.simps Let_def word_def [symmetric] after_def [symmetric] by auto
    qed
  next
    case False
    note simps = lexEnv.simps(2) [of start c cs] False
    obtain ok k r where sc: "scan_comment cs = (ok, k, r)" by (cases "scan_comment cs")
    have comment: "well_lexed (lexEnv (start + 1 + k) r)" if "c = CHR ''#''" "ok"
      using "2.IH"(4) [OF False that(1) sc [symmetric]] that(2) by auto
    have crlf: "well_lexed (lexEnv (start + 2) (drop 1 cs))" if "c = CR" "take 1 cs = [LF]"
      using "2.IH"(5) [OF False _ that] that(1) by simp
    have blank: "well_lexed (lexEnv (start + 1) cs)" if "c = TAB \<or> c = SP \<or> c = LF"
      using "2.IH"(6) [OF False _ _ that] that by auto
    consider "c = CHR ''#''" | "c = CR" | "c = TAB \<or> c = SP \<or> c = LF" "c \<noteq> CR" "c \<noteq> CHR ''#''"
      | "c \<noteq> CHR ''#''" "c \<noteq> CR" "\<not> (c = TAB \<or> c = SP \<or> c = LF)" by blast
    then show ?thesis
    proof cases
      case 1
      with comment sc simps(2) show ?thesis unfolding simps(1) by (cases ok) simp_all
    next
      case 2
      with crlf simps(2) show ?thesis unfolding simps(1) by simp
    next
      case 3
      with blank simps(2) show ?thesis unfolding simps(1) by simp
    next
      case 4
      with simps(2) show ?thesis unfolding simps(1) by simp
    qed
  qed
qed

end
