(* ===== verification/Ssh_Config.thy ===== *)
theory Ssh_Config
  imports Ssh_Lex Go_Path
begin

text \<open>
  The parser of \<^verbatim>\<open>sshconfig/parser.go\<close>: it takes the scanner's items one by one and builds the list of
  hosts. Reading past the last item would block for ever (\<open>PBlocked\<close>); includes are followed to a
  given depth (\<open>PDeep\<close> beyond it). The file system and the home directory are arguments.
\<close>

section \<open>Regular expressions\<close>

text \<open>
  The two expressions of the parser, matched as the library does: from the leftmost position,
  repetitions preferring the longest, options preferring to be there. The matches of a part are
  listed in the order of preference, each with the rest of the input.
\<close>

definition re_space :: "char \<Rightarrow> bool" where
  "re_space c \<longleftrightarrow> c \<in> {CHR '' '', TAB, LF, CR, CHR 0x0C}"

fun re_plus :: "(char \<Rightarrow> bool) \<Rightarrow> string \<Rightarrow> (string \<times> string) list" where
  "re_plus P [] = []"
| "re_plus P (c # cs) = (if P c then map (\<lambda>(x, r). (c # x, r)) (re_plus P cs) @ [([c], cs)] else [])"

definition re_lit :: "char \<Rightarrow> string \<Rightarrow> string list" where
  "re_lit c s = (case s of [] \<Rightarrow> [] | d # r \<Rightarrow> if d = c then [r] else [])"

definition re_host :: "string \<Rightarrow> (string \<times> string) list" where
  "re_host s =
     [(h, r'). (h, r) \<leftarrow> re_plus (\<lambda>c. \<not> re_space c) s, r' \<leftarrow> re_lit (CHR '':'') r] @ [([], s)]"

fun re_find :: "(string \<Rightarrow> 'a list) \<Rightarrow> string \<Rightarrow> 'a option" where
  "re_find m [] = (case m [] of x # _ \<Rightarrow> Some x | [] \<Rightarrow> None)"
| "re_find m (c # cs) = (case m (c # cs) of x # _ \<Rightarrow> Some x | [] \<Rightarrow> re_find m cs)"

definition re_forward :: "string \<Rightarrow> (string \<times> string \<times> string \<times> string) list" where
  "re_forward s =
     [(h, p, h', p'). (h, r1) \<leftarrow> re_host s, (p, r2) \<leftarrow> re_plus is_digit r1, (_, r3) \<leftarrow> re_plus re_space r2,
        (h', r4) \<leftarrow> re_plus (\<lambda>c. \<not> re_space c) r3, r5 \<leftarrow> re_lit (CHR '':'') r4, (p', _) \<leftarrow> re_plus is_digit r5]"

definition re_dynamic :: "string \<Rightarrow> (string \<times> string) list" where
  "re_dynamic s = [(h, p). (h, r1) \<leftarrow> re_host s, (p, _) \<leftarrow> re_plus is_digit r1]"

section \<open>Hosts\<close>

record forward =
  fw_InHost :: string
  fw_InPort :: int
  fw_OutHost :: string
  fw_OutPort :: int

record dynamic_forward =
  df_Host :: string
  df_Port :: int

record ssh_host =
  sh_Host :: "string list"
  sh_HostName :: string
  sh_User :: string
  sh_Port :: int
  sh_ProxyCommand :: string
  sh_HostKeyAlgorithms :: string
  sh_IdentityFile :: string
  sh_LocalForwards :: "forward list"
  sh_RemoteForwards :: "forward list"
  sh_DynamicForwards :: "dynamic_forward list"

definition new_host :: ssh_host where
  "new_host = \<lparr>sh_Host = [], sh_HostName = [], sh_User = [], sh_Port = 22, sh_ProxyCommand = [],
     sh_HostKeyAlgorithms = [], sh_IdentityFile = [], sh_LocalForwards = [], sh_RemoteForwards = [],
     sh_DynamicForwards = []\<rparr>"

definition NewForward :: "string \<Rightarrow> forward option" where
  "NewForward f =
     (case re_find re_forward f of
        None \<Rightarrow> None
      | Some (h, p, h', p') \<Rightarrow>
          (case Atoi p of None \<Rightarrow> None
           | Some ip \<Rightarrow> (case Atoi p' of None \<Rightarrow> None
               | Some op \<Rightarrow> Some \<lparr>fw_InHost = h, fw_InPort = ip, fw_OutHost = h', fw_OutPort = op\<rparr>)))"

definition NewDynamicForward :: "string \<Rightarrow> dynamic_forward option" where
  "NewDynamicForward f =
     (case re_find re_dynamic f of
        None \<Rightarrow> None
      | Some (h, p) \<Rightarrow> (case Atoi p of None \<Rightarrow> None | Some ip \<Rightarrow> Some \<lparr>df_Host = h, df_Port = ip\<rparr>))"

section \<open>The parser\<close>

datatype parse_error =
  ErrBeforeHost nat | ErrIncludeInHost | ErrNoValue item | ErrPort | ErrForward string | ErrLex lex_error nat |
  ErrHome | ErrGlob | ErrNoFiles string | ErrRead

datatype 'a parse_result = PDone 'a | PErr parse_error | PBlocked | PDeep

text \<open>A keyword and the item after it. The forwards do not look at the type of that item.\<close>

definition set_field :: "item_type \<Rightarrow> item \<Rightarrow> ssh_host \<Rightarrow> parse_error + ssh_host" where
  "set_field t next h =
     (let v = it_val next;
          value = (\<lambda>k. if it_typ next \<noteq> ItemValue then Inl (ErrNoValue next) else k);
          fwd = (\<lambda>k. case NewForward v of None \<Rightarrow> Inl (ErrForward v) | Some f \<Rightarrow> Inr (k f))
      in case t of
           ItemHostName \<Rightarrow> value (Inr (h\<lparr>sh_HostName := v\<rparr>))
         | ItemUser \<Rightarrow> value (Inr (h\<lparr>sh_User := v\<rparr>))
         | ItemPort \<Rightarrow> value (case Atoi v of None \<Rightarrow> Inl ErrPort | Some p \<Rightarrow> Inr (h\<lparr>sh_Port := p\<rparr>))
         | ItemProxyCommand \<Rightarrow> value (Inr (h\<lparr>sh_ProxyCommand := v\<rparr>))
         | ItemHostKeyAlgorithms \<Rightarrow> value (Inr (h\<lparr>sh_HostKeyAlgorithms := v\<rparr>))
         | ItemIdentityFile \<Rightarrow> value (Inr (h\<lparr>sh_IdentityFile := v\<rparr>))
         | ItemLocalForward \<Rightarrow> fwd (\<lambda>f. h\<lparr>sh_LocalForwards := sh_LocalForwards h @ [f]\<rparr>)
         | ItemRemoteForward \<Rightarrow> fwd (\<lambda>f. h\<lparr>sh_RemoteForwards := sh_RemoteForwards h @ [f]\<rparr>)
         | ItemDynamicForward \<Rightarrow>
             (case NewDynamicForward v of
                None \<Rightarrow> Inl (ErrForward v)
              | Some f \<Rightarrow> Inr (h\<lparr>sh_DynamicForwards := sh_DynamicForwards h @ [f]\<rparr>))
         | _ \<Rightarrow> Inr h)"

definition host_list :: "ssh_host option \<Rightarrow> ssh_host list" where
  "host_list cur = (case cur of None \<Rightarrow> [] | Some h \<Rightarrow> [h])"

definition is_field :: "item_type \<Rightarrow> bool" where
  "is_field t \<longleftrightarrow> t \<in> {ItemHostName, ItemUser, ItemPort, ItemProxyCommand, ItemHostKeyAlgorithms, ItemIdentityFile,
     ItemLocalForward, ItemRemoteForward, ItemDynamicForward}"

definition scan_error :: "item_type \<Rightarrow> lex_error option" where
  "scan_error t = (case t of ItemError e \<Rightarrow> Some e | _ \<Rightarrow> None)"

text \<open>The loop: the hosts finished so far, the host being read (if any), the items to come.\<close>

fun parse_items ::
  "(string \<Rightarrow> ssh_host list parse_result) \<Rightarrow> ssh_host list \<Rightarrow> ssh_host option \<Rightarrow> item list \<Rightarrow>
   ssh_host list parse_result" where
  "parse_items incl cfgs cur [] = PBlocked"
| "parse_items incl cfgs cur (tok # toks) =
     (let t = it_typ tok
      in case cur of
        None \<Rightarrow>
          (if t = ItemEOF then PDone cfgs
           else if t = ItemHost then parse_items incl cfgs (Some new_host) toks
           else if t = ItemInclude then
             (case toks of
                [] \<Rightarrow> PBlocked
              | next # toks' \<Rightarrow>
                  if it_typ next \<noteq> ItemValue then PErr (ErrNoValue next)
                  else case incl (it_val next) of
                    PDone hs \<Rightarrow> parse_items incl (cfgs @ hs) None toks'
                  | r \<Rightarrow> r)
           else PErr (ErrBeforeHost (it_pos tok)))
      | Some h \<Rightarrow>
          (if t = ItemInclude then PErr ErrIncludeInHost
           else if t = ItemHost then parse_items incl (cfgs @ [h]) (Some new_host) toks
           else if t = ItemHostValue then
             parse_items incl cfgs (Some (h\<lparr>sh_Host := go_Split (it_val tok) '' ''\<rparr>)) toks
           else if is_field t then
             (case toks of
                [] \<Rightarrow> PBlocked
              | next # toks' \<Rightarrow>
                  (case set_field t next h of
                     Inl e \<Rightarrow> PErr e
                   | Inr h' \<Rightarrow> parse_items incl cfgs (Some h') toks'))
           else if t = ItemEOF then PDone (cfgs @ [h])
           else (case scan_error t of
                   Some e \<Rightarrow> PErr (ErrLex e (it_pos tok))
                 | None \<Rightarrow> parse_items incl cfgs cur toks)))"

record file_system =
  fs_ReadFile :: "string \<Rightarrow> string option"
  fs_Glob :: "string \<Rightarrow> string list option"
  fs_Expand :: "string \<Rightarrow> string option"

definition parseIncludePath :: "file_system \<Rightarrow> string \<Rightarrow> string \<Rightarrow> string option" where
  "parseIncludePath fs currentPath includePath =
     (if HasPrefix includePath ''~'' then fs_Expand fs includePath
      else if \<not> HasPrefix includePath ''/'' then Some (path_Join [path_Dir currentPath, includePath])
      else Some includePath)"

text \<open>The files of an include, parsed one after the other.\<close>

fun include_files ::
  "(string \<Rightarrow> ssh_host list parse_result) \<Rightarrow> string list \<Rightarrow> ssh_host list parse_result" where
  "include_files parse_one [] = PDone []"
| "include_files parse_one (f # fs) =
     (case parse_one f of
        PDone hs \<Rightarrow> (case include_files parse_one fs of PDone hs' \<Rightarrow> PDone (hs @ hs') | r \<Rightarrow> r)
      | r \<Rightarrow> r)"

definition include_value ::
  "(string \<Rightarrow> ssh_host list parse_result) \<Rightarrow> file_system \<Rightarrow> string \<Rightarrow> string \<Rightarrow> ssh_host list parse_result" where
  "include_value parse_one fs path v =
     (case parseIncludePath fs path v of
        None \<Rightarrow> PErr ErrHome
      | Some includePath \<Rightarrow>
          (case fs_Glob fs includePath of
             None \<Rightarrow> PErr ErrGlob
           | Some files \<Rightarrow> if files = [] then PErr (ErrNoFiles includePath) else include_files parse_one files))"

definition parse_input ::
  "(string \<Rightarrow> ssh_host list parse_result) \<Rightarrow> file_system \<Rightarrow> string \<Rightarrow> string \<Rightarrow> ssh_host list parse_result" where
  "parse_input parse_one fs path content =
     parse_items (include_value parse_one fs path) [] None (lexEnv 0 content)"

text \<open>\<^verbatim>\<open>Parse\<close>, following includes to the given depth.\<close>

fun ssh_Parse :: "nat \<Rightarrow> file_system \<Rightarrow> string \<Rightarrow> ssh_host list parse_result" where
  "ssh_Parse 0 fs path = PDeep"
| "ssh_Parse (Suc n) fs path =
     (case fs_ReadFile fs path of
        None \<Rightarrow> PErr ErrRead
      | Some content \<Rightarrow> parse_input (ssh_Parse n fs) fs path content)"

text \<open>\<^verbatim>\<open>ParseFS\<close>: the first file comes from another file system, the included ones do not.\<close>

definition ssh_ParseFS :: "nat \<Rightarrow> file_system \<Rightarrow> (string \<Rightarrow> string option) \<Rightarrow> string \<Rightarrow> ssh_host list parse_result" where
  "ssh_ParseFS n fs fsys path =
     (case fsys path of
        None \<Rightarrow> PErr ErrRead
      | Some content \<Rightarrow> parse_input (ssh_Parse n fs) fs path content)"

text \<open>\<^verbatim>\<open>MustParse\<close>: none is a panic.\<close>

definition ssh_MustParse :: "nat \<Rightarrow> file_system \<Rightarrow> string \<Rightarrow> ssh_host list option" where
  "ssh_MustParse n fs path = (case ssh_Parse n fs path of PDone hs \<Rightarrow> Some hs | _ \<Rightarrow> None)"

definition ExpandHome :: "file_system \<Rightarrow> string \<Rightarrow> string" where
  "ExpandHome fs p = (case fs_Expand fs p of None \<Rightarrow> [] | Some p1 \<Rightarrow> p1)"

section \<open>The parser always gets an answer\<close>

lemma key_types:
  "is_field (it_typ x) \<Longrightarrow> is_key x" "it_typ x = ItemInclude \<Longrightarrow> is_key x"
  by (auto simp: is_field_def is_key_def variables_def)

lemma no_forward_message: "NewForward (lex_message ExpectedNL) = None" "NewDynamicForward (lex_message ExpectedNL) = None"
  by code_simp+

lemma set_field_last:
  assumes "after_key next" "is_last next" "is_field t"
  shows "\<exists>err. set_field t next h = Inl err"
proof -
  have "it_typ next \<noteq> ItemValue" "it_val next = lex_message ExpectedNL"
    using assms by (auto simp: after_key_def is_last_def)
  with assms(3) show ?thesis by (auto simp: set_field_def is_field_def no_forward_message)
qed

lemma field_types: "is_field t \<Longrightarrow> t \<noteq> ItemInclude \<and> t \<noteq> ItemHost \<and> t \<noteq> ItemHostValue \<and> t \<noteq> ItemEOF"
  by (auto simp: is_field_def)

lemma parse_items_not_blocked:
  assumes "\<And>v. incl v \<noteq> PBlocked" "well_lexed toks"
  shows "parse_items incl cfgs cur toks \<noteq> PBlocked"
  using assms
proof (induction incl cfgs cur toks rule: parse_items.induct)
  case (2 incl cfgs cur tok toks)
  note prems = "2.prems"
  show ?case
  proof (cases "is_last tok")
    case True
    then show ?thesis
      by (cases cur) (auto simp: is_last_def Let_def is_field_def scan_error_def)
  next
    case False
    then obtain y ys where toks: "toks = y # ys" using prems(2) by (cases toks) auto
    have wl: "well_lexed toks" using prems(2) False by auto
    have y: "after_key y" if "is_key tok" using prems(2) that False toks by auto
    have ys: "well_lexed ys" if "\<not> is_last y" using wl that toks by auto
    show ?thesis
    proof (cases cur)
      case None
      have incl: "parse_items incl (cfgs @ hs) None ys \<noteq> PBlocked"
        if "it_typ tok = ItemInclude" "it_typ y = ItemValue" "incl (it_val y) = PDone hs" for hs
      proof (rule "2.IH"(2) [OF refl None _ _ that(1) toks _ that(3)])
        have "\<not> is_last y" using that(2) by (simp add: is_last_def)
        then show "well_lexed ys" by (rule ys)
      qed (use that prems(1) in auto)
      with None toks wl "2.IH"(1) [OF refl None] prems(1) show ?thesis
        by (auto simp: Let_def split: parse_result.split)
    next
      case (Some h)
      have field: "parse_items incl cfgs cur (tok # toks) \<noteq> PBlocked" if f: "is_field (it_typ tok)"
      proof (cases "set_field (it_typ tok) y h")
        case (Inl e)
        with f Some toks field_types [OF f] show ?thesis by (simp add: Let_def)
      next
        case (Inr h')
        have "\<not> is_last y"
          using set_field_last [OF y [OF key_types(1) [OF f]] _ f, of h] Inr by (metis old.sum.distinct(1))
        then have "well_lexed ys" by (rule ys)
        then have "parse_items incl cfgs (Some h') ys \<noteq> PBlocked"
          using "2.IH"(5) [OF refl Some _ _ _ f toks Inr] field_types [OF f] prems(1) by blast
        with Inr f Some toks field_types [OF f] show ?thesis by (simp add: Let_def)
      qed
      show ?thesis
      proof (cases "is_field (it_typ tok)")
        case False
        with Some toks wl prems(1) "2.IH"(3,4,6) [OF refl Some] show ?thesis
          by (auto simp: Let_def split: option.split)
      qed (rule field)
    qed
  qed
qed simp

lemma include_files_not_blocked:
  "(\<And>f. p f \<noteq> PBlocked) \<Longrightarrow> include_files p fs \<noteq> PBlocked"
  by (induction fs) (auto split: parse_result.split)

lemma parse_input_not_blocked:
  assumes "\<And>f. p f \<noteq> PBlocked" shows "parse_input p fs path content \<noteq> PBlocked"
  unfolding parse_input_def
  by (rule parse_items_not_blocked [OF _ lexEnv_well])
    (auto simp: include_value_def include_files_not_blocked [OF assms] split: option.split)

text \<open>C24: parsing never waits for an item that the scanner does not send: whatever the files contain, it
  comes to a result, an error or the limit on nested includes.\<close>

theorem ssh_parse_answers: "ssh_Parse n fs path \<noteq> PBlocked \<and> ssh_ParseFS n fs fsys path \<noteq> PBlocked"
proof -
  have p: "ssh_Parse n fs path \<noteq> PBlocked" for n path
    by (induction n arbitrary: path) (auto simp: parse_input_not_blocked split: option.split)
  then show ?thesis by (auto simp: ssh_ParseFS_def parse_input_not_blocked split: option.split)
qed

text \<open>A file that includes itself is parsed without end, whatever the depth allowed: there is no guard
  against it.\<close>

theorem ssh_include_loops:
  "ssh_Parse n \<lparr>fs_ReadFile = (\<lambda>_. Some ''Include /c''), fs_Glob = (\<lambda>p. Some [p]), fs_Expand = (\<lambda>_. None)\<rparr> ''/c'' = PDeep"
proof (induction n)
  case (Suc n)
  have "lexEnv 0 ''Include /c'' =
      [mk_item ItemInclude 0 ''Include'', mk_item ItemValue 8 ''/c'', mk_item ItemEOF 10 []]"
    by code_simp
  with Suc show ?case
    by (simp add: parse_input_def include_value_def parseIncludePath_def HasPrefix_def)
qed simp

text \<open>A space at the end of a \<open>Host\<close> line loses the host's name; a carriage return after one is an error.\<close>

theorem ssh_trailing_space:
  "map_option (map sh_Host) (ssh_MustParse 1
     \<lparr>fs_ReadFile = (\<lambda>_. Some (''Host a '' @ [LF] @ ''User b'')), fs_Glob = (\<lambda>_. None), fs_Expand = (\<lambda>_. None)\<rparr> ''f'') =
     Some [['''']] \<and>
   ssh_Parse 1
     \<lparr>fs_ReadFile = (\<lambda>_. Some (''Host a '' @ [CR, LF] @ ''User b'')), fs_Glob = (\<lambda>_. None), fs_Expand = (\<lambda>_. None)\<rparr> ''f'' =
     PErr (ErrLex ExpectedNL 5)"
  by code_simp

end
