(* ===== verification/Ssh_Roundtrip.thy ===== *)
theory Ssh_Roundtrip
  imports Ssh_Config
begin

text \<open>
  A configuration printed in the format of OpenSSH, one line per setting, is read back as it is:
  first the forwards, matched by regular expressions, then the lines.
\<close>

section \<open>Preferred matches\<close>

lemma upt_Suc_0: "[0..<Suc n] = 0 # map Suc [0..<n]"
  by (simp add: map_Suc_upt upt_conv_Cons del: upt_Suc)

lemma re_plus_all:
  "list_all P u \<Longrightarrow> t = [] \<or> \<not> P (hd t) \<Longrightarrow>
   re_plus P (u @ t) = map (\<lambda>j. (take (Suc j) (u @ t), drop (Suc j) (u @ t))) (rev [0..<length u])"
proof (induction u)
  case Nil
  then show ?case by (cases t) simp_all
next
  case (Cons c u)
  then show ?case by (simp add: upt_Suc_0 rev_map comp_def del: upt_Suc)
qed

lemma re_plus_first:
  assumes "list_all P u" "u \<noteq> []" "t = [] \<or> \<not> P (hd t)"
  obtains xs where "re_plus P (u @ t) = (u, t) # xs"
proof -
  have "rev [0..<length u] = (length u - 1) # rev [0..<length u - 1]" using assms(2) by (cases u) simp_all
  with that re_plus_all [OF assms(1,3)] assms(2) show thesis by (cases u) simp_all
qed

text \<open>The first of the matches whose rest goes on with a colon is the one that ends before the last colon.\<close>

lemma first_of:
  assumes "k < n" "f k = x # xs" "\<And>i. k < i \<Longrightarrow> i < n \<Longrightarrow> f i = []"
  obtains ys where "concat (map f (rev [0..<n])) = x # ys"
proof -
  have "[0..<n] = [0..<k] @ [k..<n]"
    using assms(1) upt_add_eq_append [of 0 k "n - k"] by simp
  then have "[0..<n] = [0..<k] @ k # [Suc k..<n]" using assms(1) by (simp add: upt_conv_Cons)
  then have "concat (map f (rev [0..<n])) = concat (map f (rev [Suc k..<n])) @ f k @ concat (map f (rev [0..<k]))"
    by simp
  moreover have "concat (map f (rev [Suc k..<n])) = []" using assms(3) by auto
  ultimately have "concat (map f (rev [0..<n])) = x # (xs @ concat (map f (rev [0..<k])))" using assms(2) by (simp only: append_Nil append_Cons)
  then show thesis by (rule that)
qed

lemma colon_first:
  assumes "list_all P w" "w \<noteq> []" "P (CHR '':'')" "list_all P d" "CHR '':'' \<notin> set d" "t = [] \<or> \<not> P (hd t)"
    and "t = [] \<or> hd t \<noteq> CHR '':''"
  obtains ys where "[(h, r'). (h, r) \<leftarrow> re_plus P (w @ CHR '':'' # d @ t), r' \<leftarrow> re_lit (CHR '':'') r] = (w, d @ t) # ys"
proof -
  define u where "u = w @ CHR '':'' # d"
  define s where "s = u @ t"
  define f where "f j = map (Pair (take (Suc j) s)) (re_lit (CHR '':'') (drop (Suc j) s))" for j
  have u: "list_all P u" using assms(1,3,4) by (simp add: u_def)
  have eq: "[(h, r'). (h, r) \<leftarrow> re_plus P s, r' \<leftarrow> re_lit (CHR '':'') r] = concat (map f (rev [0..<length u]))"
    unfolding s_def re_plus_all [OF u assms(6)] by (simp add: f_def [abs_def] s_def comp_def del: take_append drop_append)
  obtain k where k: "length w = Suc k" using assms(2) by (cases w) auto
  have fk: "f k = [(w, d @ t)]" using k by (simp add: f_def s_def u_def re_lit_def)
  have "f i = []" if lt: "k < i" "i < length u" for i
  proof -
    obtain j where j: "Suc i = length w + 1 + j" using less_imp_Suc_add [OF lt(1)] k by auto
    then have "drop (Suc i) s = drop j d @ drop (j - length d) t" by (simp add: s_def u_def)
    moreover have "j \<le> length d" using that(2) j k by (simp add: u_def)
    ultimately have dr: "drop (Suc i) s = drop j d @ t" by simp
    show ?thesis
    proof (cases "j = length d")
      case True
      with dr assms(7) show ?thesis by (cases t) (simp_all add: f_def re_lit_def)
    next
      case False
      with \<open>j \<le> length d\<close> obtain c cs where c: "drop j d = c # cs" by (cases "drop j d") auto
      then have "c \<in> set d" by (metis in_set_dropD list.set_intros(1))
      with dr c assms(5) show ?thesis by (auto simp: f_def re_lit_def)
    qed
  qed
  moreover have "k < length u" using k by (simp add: u_def)
  ultimately obtain ys where "concat (map f (rev [0..<length u])) = (w, d @ t) # ys"
    using first_of [of k "length u" f "(w, d @ t)" "[]"] fk by metis
  with eq that show thesis by (simp add: s_def u_def)
qed

lemma no_colon:
  assumes "list_all P d" "CHR '':'' \<notin> set d" "t = [] \<or> \<not> P (hd t)" "t = [] \<or> hd t \<noteq> CHR '':''"
  shows "[(h, r'). (h, r) \<leftarrow> re_plus P (d @ t), r' \<leftarrow> re_lit (CHR '':'') r] = []"
proof -
  have "re_lit (CHR '':'') (drop i (d @ t)) = []" if "i \<le> length d" for i
  proof (cases "i = length d")
    case True
    with assms(4) show ?thesis by (cases t) (simp_all add: re_lit_def)
  next
    case False
    with that obtain c cs where c: "drop i d = c # cs" by (cases "drop i d") auto
    then have "c \<in> set d" by (metis in_set_dropD list.set_intros(1))
    with c that assms(2) show ?thesis by (auto simp: re_lit_def)
  qed
  then have "re_lit (CHR '':'') (drop (Suc j) (d @ t)) = []" if "j < length d" for j using that by simp
  then show ?thesis unfolding re_plus_all [OF assms(1,3)] by (auto simp del: take_append drop_append)
qed

lemma comprehension_first:
  "xs = x # xs' \<Longrightarrow> \<exists>ys. f x = y # ys \<Longrightarrow> \<exists>zs. concat (map f xs) = y # zs"
  by auto

lemma comprehension_assoc:
  "concat (map (\<lambda>(h, r). concat (map (g h) (l r))) xs) =
   concat (map (\<lambda>(h, r). g h r) (concat (map (\<lambda>(h, r). map (Pair h) (l r)) xs)))"
  by (induction xs) (auto simp: comp_def)

section \<open>Forwards\<close>

abbreviation "no_space \<equiv> list_all (\<lambda>c. \<not> re_space c)"

definition port_ok :: "int \<Rightarrow> bool" where "port_ok p \<longleftrightarrow> 0 \<le> p \<and> p < 2 ^ 63"

definition print_in :: "string \<Rightarrow> int \<Rightarrow> string" where
  "print_in h p = (if h = [] then Itoa p else h @ CHR '':'' # Itoa p)"

definition print_forward :: "forward \<Rightarrow> string" where
  "print_forward f = print_in (fw_InHost f) (fw_InPort f) @ SP # fw_OutHost f @ CHR '':'' # Itoa (fw_OutPort f)"

definition print_dynamic :: "dynamic_forward \<Rightarrow> string" where
  "print_dynamic f = print_in (df_Host f) (df_Port f)"

definition forward_ok :: "forward \<Rightarrow> bool" where
  "forward_ok f \<longleftrightarrow> port_ok (fw_InPort f) \<and> port_ok (fw_OutPort f) \<and> no_space (fw_InHost f) \<and>
     no_space (fw_OutHost f) \<and> fw_OutHost f \<noteq> []"

definition dynamic_ok :: "dynamic_forward \<Rightarrow> bool" where
  "dynamic_ok f \<longleftrightarrow> port_ok (df_Port f) \<and> no_space (df_Host f)"

lemma digit_facts: "is_digit c \<Longrightarrow> \<not> re_space c" "\<not> is_digit (CHR '':'')" "\<not> is_digit SP" "re_space SP" "\<not> re_space (CHR '':'')"
  by (auto simp: is_digit_def re_space_def)

lemma Itoa_digits:
  assumes "port_ok p"
  shows "list_all is_digit (Itoa p)" "Itoa p \<noteq> []" "no_space (Itoa p)" "CHR '':'' \<notin> set (Itoa p)" "Atoi (Itoa p) = Some p"
proof -
  show d: "list_all is_digit (Itoa p)" "Itoa p \<noteq> []"
    using assms nat_digits_props [of "nat p"] by (auto simp: Itoa_def port_ok_def)
  show "no_space (Itoa p)" "CHR '':'' \<notin> set (Itoa p)"
    using d(1) digit_facts by (auto simp: list_all_iff)
  show "Atoi (Itoa p) = Some p" using assms by (intro Atoi_Itoa) (auto simp: port_ok_def)
qed

text \<open>The host part comes first among the preferred matches of what was printed.\<close>

lemma re_host_print:
  assumes "no_space h" "port_ok p" "t = [] \<or> re_space (hd t)"
  obtains ys where "re_host (print_in h p @ t) = (h, Itoa p @ t) # ys"
proof -
  note it = Itoa_digits [OF assms(2)]
  have t: "t = [] \<or> \<not> \<not> re_space (hd t)" "t = [] \<or> hd t \<noteq> CHR '':''" using assms(3) digit_facts(5) by auto
  show thesis
  proof (cases "h = []")
    case True
    have "re_host (Itoa p @ t) = [([], Itoa p @ t)]"
      using no_colon [OF it(3,4) t] by (simp add: re_host_def)
    with True that show thesis by (simp add: print_in_def)
  next
    case False
    obtain ys where "[(h, r'). (h, r) \<leftarrow> re_plus (\<lambda>c. \<not> re_space c) (h @ CHR '':'' # Itoa p @ t), r' \<leftarrow> re_lit (CHR '':'') r] =
        (h, Itoa p @ t) # ys"
      by (rule colon_first [OF assms(1) False digit_facts(5) it(3,4) t])
    with False that show thesis by (simp add: print_in_def re_host_def)
  qed
qed

lemma find_first: "m s = x # xs \<Longrightarrow> re_find m s = Some x"
  by (cases s) simp_all

lemma NewForward_print: "forward_ok f \<Longrightarrow> NewForward (print_forward f) = Some f"
proof -
  assume ok: "forward_ok f"
  define ip where "ip = Itoa (fw_InPort f)"
  define op where "op = Itoa (fw_OutPort f)"
  define oh where "oh = fw_OutHost f"
  note i = Itoa_digits [of "fw_InPort f", folded ip_def] and o = Itoa_digits [of "fw_OutPort f", folded op_def]
  have p: "port_ok (fw_InPort f)" "port_ok (fw_OutPort f)" "no_space (fw_InHost f)" "no_space oh" "oh \<noteq> []"
    using ok by (simp_all add: forward_ok_def oh_def)
  obtain ys1 where 1: "re_host (print_forward f) = (fw_InHost f, ip @ SP # oh @ CHR '':'' # op) # ys1"
    using re_host_print [OF p(3,1), of "SP # oh @ CHR '':'' # op"] digit_facts(4)
    by (auto simp: print_forward_def ip_def op_def oh_def)
  obtain ys2 where 2: "re_plus is_digit (ip @ SP # oh @ CHR '':'' # op) = (ip, SP # oh @ CHR '':'' # op) # ys2"
    by (rule re_plus_first [OF i(1,2) [OF p(1)], of "SP # oh @ CHR '':'' # op"]) (simp add: digit_facts)
  obtain c cs where oh: "oh = c # cs" "\<not> re_space c" using p(4,5) by (cases oh) auto
  obtain ys3 where 3: "re_plus re_space (SP # oh @ CHR '':'' # op) = ([SP], oh @ CHR '':'' # op) # ys3"
    using re_plus_first [of re_space "[SP]" "oh @ CHR '':'' # op"] oh digit_facts(4) by auto
  obtain ys4 where 4: "[(h, r'). (h, r) \<leftarrow> re_plus (\<lambda>c. \<not> re_space c) (oh @ CHR '':'' # op @ []), r' \<leftarrow> re_lit (CHR '':'') r] =
      (oh, op @ []) # ys4"
    by (rule colon_first [OF p(4,5) digit_facts(5) o(3,4) [OF p(2)]]) auto
  obtain ys5 where 5: "re_plus is_digit (op @ []) = (op, []) # ys5"
    by (rule re_plus_first [OF o(1,2) [OF p(2)]]) auto
  have 6: "\<exists>zs. [(h, p, h', p'). (h', r4) \<leftarrow> re_plus (\<lambda>c. \<not> re_space c) (oh @ CHR '':'' # op), r5 \<leftarrow> re_lit (CHR '':'') r4,
      (p', _) \<leftarrow> re_plus is_digit r5] = (h, p, oh, op) # zs" for h p
  proof -
    have "[(h, p, h', p'). (h', r4) \<leftarrow> re_plus (\<lambda>c. \<not> re_space c) (oh @ CHR '':'' # op), r5 \<leftarrow> re_lit (CHR '':'') r4,
      (p', _) \<leftarrow> re_plus is_digit r5] =
      concat (map (\<lambda>(h', r5). map (\<lambda>(p', _). (h, p, h', p')) (re_plus is_digit r5))
        [(h', r'). (h', r) \<leftarrow> re_plus (\<lambda>c. \<not> re_space c) (oh @ CHR '':'' # op), r' \<leftarrow> re_lit (CHR '':'') r])"
      using comprehension_assoc [of "\<lambda>h' r5. map (\<lambda>(p', _). (h, p, h', p')) (re_plus is_digit r5)" "re_lit (CHR '':'')"
        "re_plus (\<lambda>c. \<not> re_space c) (oh @ CHR '':'' # op)"]
      by (simp add: case_prod_unfold)
    with 4 5 show ?thesis by simp
  qed
  have "\<exists>zs. re_forward (print_forward f) = (fw_InHost f, ip, oh, op) # zs"
    unfolding re_forward_def
    by (rule comprehension_first [OF 1], simp only: prod.case, rule comprehension_first [OF 2], simp only: prod.case,
      rule comprehension_first [OF 3], simp only: prod.case, rule 6)
  then obtain zs where "re_forward (print_forward f) = (fw_InHost f, ip, oh, op) # zs" ..
  then have "re_find re_forward (print_forward f) = Some (fw_InHost f, ip, oh, op)" by (rule find_first)
  with i(5) [OF p(1)] o(5) [OF p(2)] show ?thesis by (simp add: NewForward_def oh_def)
qed

lemma NewDynamicForward_print: "dynamic_ok f \<Longrightarrow> NewDynamicForward (print_dynamic f) = Some f"
proof -
  assume "dynamic_ok f"
  then have p: "port_ok (df_Port f)" "no_space (df_Host f)" by (simp_all add: dynamic_ok_def)
  note i = Itoa_digits [OF p(1)]
  obtain ys1 where 1: "re_host (print_dynamic f) = (df_Host f, Itoa (df_Port f)) # ys1"
    using re_host_print [OF p(2,1), of "[]"] by (auto simp: print_dynamic_def)
  obtain ys2 where 2: "re_plus is_digit (Itoa (df_Port f)) = (Itoa (df_Port f), []) # ys2"
    using re_plus_first [OF i(1,2), of "[]"] by auto
  have "\<exists>zs. re_dynamic (print_dynamic f) = (df_Host f, Itoa (df_Port f)) # zs"
    unfolding re_dynamic_def 1 by (simp add: 2)
  then have "re_find re_dynamic (print_dynamic f) = Some (df_Host f, Itoa (df_Port f))" by (auto intro: find_first)
  with i(5) show ?thesis by (simp add: NewDynamicForward_def)
qed

section \<open>Lines\<close>

definition print_line :: "string \<Rightarrow> string \<Rightarrow> string" where
  "print_line key v = key @ SP # v @ [LF]"

definition one_line :: "string \<Rightarrow> bool" where
  "one_line v \<longleftrightarrow> LF \<notin> set v \<and> CR \<notin> set v"

definition optional_line :: "string \<Rightarrow> string \<Rightarrow> string" where
  "optional_line key v = (if v = [] then [] else print_line key v)"

definition keyword :: "string \<Rightarrow> item_type \<Rightarrow> bool" where
  "keyword key t \<longleftrightarrow> list_all isAlphaNumeric key \<and> map_of variables (ToLower key) = Some t \<and> is_field t"

lemma scan_value_line: "one_line v \<Longrightarrow> scan_value (v @ LF # rest) = (v, AtEOL, LF # rest)"
  by (induction v) (auto simp: one_line_def)

lemma scan_host_line:
  "one_line x \<Longrightarrow> x = [] \<or> last x \<noteq> SP \<Longrightarrow> scan_host (x @ LF # rest) = ([x], AtEOL, LF # rest)"
proof (induction x)
  case (Cons c x)
  have c: "c \<noteq> LF" "c \<noteq> CR" and x: "one_line x" "x = [] \<or> last x \<noteq> SP"
    using Cons.prems by (auto simp: one_line_def split: if_splits)
  note IH = Cons.IH [OF x]
  have "c = SP \<Longrightarrow> x \<noteq> []" using Cons.prems(2) by auto
  then have "c = SP \<Longrightarrow> take 1 (x @ LF # rest) \<noteq> [LF] \<and> take 1 (x @ LF # rest) \<noteq> [CR]"
    using x(1) by (cases x) (auto simp: one_line_def)
  with c show ?case unfolding append_Cons scan_host.simps(2) IH by simp
qed simp

lemma isAlphaNumeric_blank [simp]: "\<not> isAlphaNumeric SP" "\<not> isAlphaNumeric LF"
  by (simp_all add: isAlphaNumeric_def char_in_def)

lemma lex_blank: "lexEnv p (LF # rest) = lexEnv (Suc p) rest"
  by (simp add: lexEnv.simps(2))

lemma alnum_word:
  assumes "list_all isAlphaNumeric key"
  shows "takeWhile isAlphaNumeric (key @ SP # s) = key" "dropWhile isAlphaNumeric (key @ SP # s) = SP # s"
  using assms by (induction key) auto

lemma lex_line:
  assumes k: "keyword key t" and v: "one_line v"
  shows "lexEnv p (print_line key v @ rest) =
    mk_item t p key # mk_item ItemValue (p + length key + 1) v # lexEnv (p + length key + 1 + length v + 1) rest"
proof -
  have facts: "list_all isAlphaNumeric key" "map_of variables (ToLower key) = Some t" "t \<noteq> ItemHost"
    using k field_types by (auto simp: keyword_def)
  obtain c cs where key: "key = c # cs" using facts(2) by (cases key) (auto simp: variables_def ToLower_def)
  note w = alnum_word [OF facts(1), of "v @ LF # rest", unfolded key append_Cons]
  have eq: "print_line key v @ rest = c # cs @ SP # v @ LF # rest" by (simp add: print_line_def key)
  show ?thesis
    using facts scan_value_line [OF v, of rest]
    unfolding eq lexEnv.simps(2) Let_def w by (simp add: key lex_blank)
qed

lemma lex_host_line:
  assumes "one_line x" "x = [] \<or> last x \<noteq> SP"
  shows "lexEnv p (print_line ''Host'' x @ rest) =
    mk_item ItemHost p ''Host'' # mk_item ItemHostValue (p + 5) x # lexEnv (p + 5 + length x + 1) rest"
proof -
  have a: "list_all isAlphaNumeric ''Host''" "ToLower ''Host'' = ''host''" by code_simp+
  note w = alnum_word [OF a(1), of "x @ LF # rest", unfolded append_Cons append_Nil]
  have "isAlphaNumeric (CHR ''H'')" using a(1) by simp
  moreover have eq: "print_line ''Host'' x @ rest = CHR ''H'' # CHR ''o'' # CHR ''s'' # CHR ''t'' # SP # x @ LF # rest"
    by (simp add: print_line_def)
  ultimately show ?thesis
    using scan_host_line [OF assms, of rest]
    unfolding eq lexEnv.simps(2) Let_def w
    by (simp add: a lex_blank variables_def host_items_def enumerate_eq_zip eval_nat_numeral)
qed

section \<open>Hosts\<close>

text \<open>Reading a text takes the parser from one state of the host to another.\<close>

definition takes :: "ssh_host \<Rightarrow> string \<Rightarrow> ssh_host \<Rightarrow> bool" where
  "takes h s h' \<longleftrightarrow>
     (\<forall>incl cfgs p rest. \<exists>p'. parse_items incl cfgs (Some h) (lexEnv p (s @ rest)) =
        parse_items incl cfgs (Some h') (lexEnv p' rest))"

lemma takes_nothing: "takes h [] h"
  by (auto simp: takes_def)

lemma takes_append: "takes h s h1 \<Longrightarrow> takes h1 s' h' \<Longrightarrow> takes h (s @ s') h'"
  unfolding takes_def append_assoc by metis

lemma takes_line:
  assumes k: "keyword key t" and v: "one_line v" and f: "\<And>p. set_field t (mk_item ItemValue p v) h = Inr h'"
  shows "takes h (print_line key v) h'"
proof -
  have "is_field t" using k by (simp add: keyword_def)
  with f field_types [OF this] show ?thesis by (auto simp: takes_def lex_line [OF k v] Let_def)
qed

lemma takes_optional:
  assumes "takes h (print_line key v) h'" "v = [] \<Longrightarrow> h' = h"
  shows "takes h (optional_line key v) h'"
  using assms takes_nothing by (auto simp: optional_line_def)

lemma takes_all:
  assumes "\<And>x h. x \<in> set xs \<Longrightarrow> takes h (line x) (add [x] h)"
    "\<And>a b h. add (a @ b) h = add b (add a h)" "\<And>h. add [] h = h"
  shows "takes h (concat (map line xs)) (add xs h)"
  using assms(1)
proof (induction xs arbitrary: h)
  case Nil
  then show ?case by (simp add: takes_nothing assms(3))
next
  case (Cons x xs)
  have "takes h (line x) (add [x] h)" "takes (add [x] h) (concat (map line xs)) (add xs (add [x] h))"
    using Cons by auto
  then show ?case using assms(2) [of "[x]" xs h] by (auto intro: takes_append)
qed

definition print_fields :: "ssh_host \<Rightarrow> string" where
  "print_fields h =
     optional_line ''HostName'' (sh_HostName h) @
     optional_line ''User'' (sh_User h) @
     print_line ''Port'' (Itoa (sh_Port h)) @
     optional_line ''ProxyCommand'' (sh_ProxyCommand h) @
     optional_line ''HostKeyAlgorithms'' (sh_HostKeyAlgorithms h) @
     optional_line ''IdentityFile'' (sh_IdentityFile h) @
     concat (map (\<lambda>f. print_line ''LocalForward'' (print_forward f)) (sh_LocalForwards h)) @
     concat (map (\<lambda>f. print_line ''RemoteForward'' (print_forward f)) (sh_RemoteForwards h)) @
     concat (map (\<lambda>f. print_line ''DynamicForward'' (print_dynamic f)) (sh_DynamicForwards h))"

definition print_host :: "ssh_host \<Rightarrow> string" where
  "print_host h = print_line ''Host'' (go_Join (sh_Host h) '' '') @ print_fields h"

definition host_ok :: "ssh_host \<Rightarrow> bool" where
  "host_ok h \<longleftrightarrow>
     sh_Host h \<noteq> [] \<and> list_all (\<lambda>x. x \<noteq> [] \<and> SP \<notin> set x \<and> one_line x) (sh_Host h) \<and>
     one_line (sh_HostName h) \<and> one_line (sh_User h) \<and> port_ok (sh_Port h) \<and> one_line (sh_ProxyCommand h) \<and>
     one_line (sh_HostKeyAlgorithms h) \<and> one_line (sh_IdentityFile h) \<and>
     list_all forward_ok (sh_LocalForwards h) \<and> list_all forward_ok (sh_RemoteForwards h) \<and>
     list_all dynamic_ok (sh_DynamicForwards h)"

lemma one_lines [simp]:
  "no_space s \<Longrightarrow> one_line s" "one_line (a @ b) \<longleftrightarrow> one_line a \<and> one_line b" "one_line []"
  "one_line (c # s) \<longleftrightarrow> c \<noteq> LF \<and> c \<noteq> CR \<and> one_line s"
  by (auto simp: one_line_def list_all_iff re_space_def)

lemma printed_lines:
  "port_ok p \<Longrightarrow> one_line (Itoa p)" "forward_ok f \<Longrightarrow> one_line (print_forward f)" "dynamic_ok d \<Longrightarrow> one_line (print_dynamic d)"
  using Itoa_digits(3)
  by (auto simp: forward_ok_def dynamic_ok_def print_forward_def print_dynamic_def print_in_def)

lemma host_names:
  assumes "list_all (\<lambda>x. x \<noteq> [] \<and> SP \<notin> set x \<and> one_line x) xs" "xs \<noteq> []"
  shows "one_line (go_Join xs '' '') \<and> go_Join xs '' '' \<noteq> [] \<and> last (go_Join xs '' '') \<noteq> SP"
  using assms
proof (induction xs)
  case (Cons x xs)
  show ?case
  proof (cases "xs = []")
    case True
    with Cons.prems last_in_set [of x] show ?thesis by (auto simp del: last_in_set)
  next
    case False
    with Cons show ?thesis by (simp add: go_Join_Cons)
  qed
qed simp

lemma takes_value:
  assumes "keyword key t" "one_line v" "\<And>p. set_field t (mk_item ItemValue p v) h = Inr h'" "v = [] \<Longrightarrow> h' = h"
  shows "takes h (optional_line key v) h'"
  by (rule takes_optional [OF takes_line [OF assms(1-3)] assms(4)])

lemma key_words:
  "keyword ''HostName'' ItemHostName"
  "keyword ''User'' ItemUser"
  "keyword ''Port'' ItemPort"
  "keyword ''ProxyCommand'' ItemProxyCommand"
  "keyword ''HostKeyAlgorithms'' ItemHostKeyAlgorithms"
  "keyword ''IdentityFile'' ItemIdentityFile"
  "keyword ''LocalForward'' ItemLocalForward"
  "keyword ''RemoteForward'' ItemRemoteForward"
  "keyword ''DynamicForward'' ItemDynamicForward"
  by code_simp+

lemma takes_forwards:
  "list_all forward_ok fs \<Longrightarrow> takes h (concat (map (\<lambda>f. print_line ''LocalForward'' (print_forward f)) fs))
     (h\<lparr>sh_LocalForwards := sh_LocalForwards h @ fs\<rparr>)"
  "list_all forward_ok fs \<Longrightarrow> takes h (concat (map (\<lambda>f. print_line ''RemoteForward'' (print_forward f)) fs))
     (h\<lparr>sh_RemoteForwards := sh_RemoteForwards h @ fs\<rparr>)"
  "list_all dynamic_ok ds \<Longrightarrow> takes h (concat (map (\<lambda>f. print_line ''DynamicForward'' (print_dynamic f)) ds))
     (h\<lparr>sh_DynamicForwards := sh_DynamicForwards h @ ds\<rparr>)"
proof -
  note line = takes_line [OF _ printed_lines(2)] takes_line [OF _ printed_lines(3)]
  show "takes h (concat (map (\<lambda>f. print_line ''LocalForward'' (print_forward f)) fs))
     (h\<lparr>sh_LocalForwards := sh_LocalForwards h @ fs\<rparr>)" if "list_all forward_ok fs"
    by (rule takes_all [where add = "\<lambda>fs h. h\<lparr>sh_LocalForwards := sh_LocalForwards h @ fs\<rparr>"], rule line(1) [where t = ItemLocalForward])
      (use that in \<open>auto simp: list_all_iff set_field_def NewForward_print key_words\<close>)
  show "takes h (concat (map (\<lambda>f. print_line ''RemoteForward'' (print_forward f)) fs))
     (h\<lparr>sh_RemoteForwards := sh_RemoteForwards h @ fs\<rparr>)" if "list_all forward_ok fs"
    by (rule takes_all [where add = "\<lambda>fs h. h\<lparr>sh_RemoteForwards := sh_RemoteForwards h @ fs\<rparr>"], rule line(1) [where t = ItemRemoteForward])
      (use that in \<open>auto simp: list_all_iff set_field_def NewForward_print key_words\<close>)
  show "takes h (concat (map (\<lambda>f. print_line ''DynamicForward'' (print_dynamic f)) ds))
     (h\<lparr>sh_DynamicForwards := sh_DynamicForwards h @ ds\<rparr>)" if "list_all dynamic_ok ds"
    by (rule takes_all [where add = "\<lambda>fs h. h\<lparr>sh_DynamicForwards := sh_DynamicForwards h @ fs\<rparr>"], rule line(2) [where t = ItemDynamicForward])
      (use that in \<open>auto simp: list_all_iff set_field_def NewDynamicForward_print key_words\<close>)
qed

lemma takes_fields:
  assumes ok: "host_ok h"
  shows "takes (new_host\<lparr>sh_Host := sh_Host h\<rparr>) (print_fields h) h"
proof -
  let ?h0 = "new_host\<lparr>sh_Host := sh_Host h\<rparr>"
  let ?h1 = "?h0\<lparr>sh_HostName := sh_HostName h\<rparr>"
  let ?h2 = "?h1\<lparr>sh_User := sh_User h\<rparr>"
  let ?h3 = "?h2\<lparr>sh_Port := sh_Port h\<rparr>"
  let ?h4 = "?h3\<lparr>sh_ProxyCommand := sh_ProxyCommand h\<rparr>"
  let ?h5 = "?h4\<lparr>sh_HostKeyAlgorithms := sh_HostKeyAlgorithms h\<rparr>"
  let ?h6 = "?h5\<lparr>sh_IdentityFile := sh_IdentityFile h\<rparr>"
  have a2: "takes ?h2 (print_line ''Port'' (Itoa (sh_Port h))) ?h3"
    by (rule takes_line [where t = ItemPort])
      (use ok Itoa_digits(5) printed_lines(1) in \<open>simp_all add: host_ok_def new_host_def key_words set_field_def\<close>)
  have a0: "takes ?h0 (optional_line ''HostName'' (sh_HostName h)) ?h1"
    by (rule takes_value [where t = ItemHostName]) (use ok in \<open>simp_all add: host_ok_def new_host_def key_words set_field_def\<close>)
  have a1: "takes ?h1 (optional_line ''User'' (sh_User h)) ?h2"
    by (rule takes_value [where t = ItemUser]) (use ok in \<open>simp_all add: host_ok_def new_host_def key_words set_field_def\<close>)
  have a3: "takes ?h3 (optional_line ''ProxyCommand'' (sh_ProxyCommand h)) ?h4"
    by (rule takes_value [where t = ItemProxyCommand]) (use ok in \<open>simp_all add: host_ok_def new_host_def key_words set_field_def\<close>)
  have a4: "takes ?h4 (optional_line ''HostKeyAlgorithms'' (sh_HostKeyAlgorithms h)) ?h5"
    by (rule takes_value [where t = ItemHostKeyAlgorithms]) (use ok in \<open>simp_all add: host_ok_def new_host_def key_words set_field_def\<close>)
  have a5: "takes ?h5 (optional_line ''IdentityFile'' (sh_IdentityFile h)) ?h6"
    by (rule takes_value [where t = ItemIdentityFile]) (use ok in \<open>simp_all add: host_ok_def new_host_def key_words set_field_def\<close>)
  have a6: "takes ?h6 (concat (map (\<lambda>f. print_line ''LocalForward'' (print_forward f)) (sh_LocalForwards h)) @
     concat (map (\<lambda>f. print_line ''RemoteForward'' (print_forward f)) (sh_RemoteForwards h)) @
     concat (map (\<lambda>f. print_line ''DynamicForward'' (print_dynamic f)) (sh_DynamicForwards h))) h"
    using ok takes_append [OF takes_forwards(1) takes_append [OF takes_forwards(2,3)],
      of "sh_LocalForwards h" "sh_RemoteForwards h" "sh_DynamicForwards h" ?h6]
    by (cases h) (simp add: host_ok_def new_host_def)
  show ?thesis
    unfolding print_fields_def
    by (rule takes_append [OF a0 takes_append [OF a1 takes_append [OF a2 takes_append [OF a3
      takes_append [OF a4 takes_append [OF a5 a6]]]]]])
qed

lemma parse_host:
  assumes "host_ok h"
  shows "\<exists>p'. parse_items incl cfgs cur (lexEnv p (print_host h @ rest)) =
    parse_items incl (cfgs @ host_list cur) (Some h) (lexEnv p' rest)"
proof -
  have n: "list_all (\<lambda>x. x \<noteq> [] \<and> SP \<notin> set x \<and> one_line x) (sh_Host h)" "sh_Host h \<noteq> []"
    using assms by (simp_all add: host_ok_def)
  define names where "names = go_Join (sh_Host h) '' ''"
  have split: "go_Split names '' '' = sh_Host h"
    unfolding names_def using n by (intro go_Split_Join) (auto simp: list_all_iff)
  have "one_line names" "names = [] \<or> last names \<noteq> SP" using host_names [OF n] by (auto simp: names_def)
  note lex = lex_host_line [OF this, of p "print_fields h @ rest"]
  obtain p' where "parse_items incl (cfgs @ host_list cur) (Some (new_host\<lparr>sh_Host := sh_Host h\<rparr>))
      (lexEnv (p + 5 + length names + 1) (print_fields h @ rest)) =
      parse_items incl (cfgs @ host_list cur) (Some h) (lexEnv p' rest)"
    using takes_fields [OF assms] unfolding takes_def by metis
  with lex split show ?thesis
    unfolding print_host_def names_def [symmetric] append_assoc
    by (cases cur) (auto simp: Let_def host_list_def intro!: exI [of _ p'])
qed

lemma parse_hosts:
  assumes "list_all host_ok hs"
  shows "parse_items incl cfgs cur (lexEnv p (concat (map print_host hs))) = PDone (cfgs @ host_list cur @ hs)"
  using assms
proof (induction hs arbitrary: cfgs cur p)
  case Nil
  show ?case by (cases cur) (auto simp: lexEnv.simps(1) host_list_def is_field_def)
next
  case (Cons h hs)
  then have "host_ok h" by simp
  then obtain p' where "parse_items incl cfgs cur (lexEnv p (print_host h @ concat (map print_host hs))) =
      parse_items incl (cfgs @ host_list cur) (Some h) (lexEnv p' (concat (map print_host hs)))"
    using parse_host by blast
  with Cons show ?case by (simp add: host_list_def)
qed

text \<open>C23: a configuration printed line by line, with all fields and forwards, is parsed back as it is.\<close>

theorem ssh_config_roundtrip:
  assumes "fs_ReadFile fs path = Some (concat (map print_host hs))" "list_all host_ok hs"
  shows "ssh_Parse (Suc n) fs path = PDone hs"
  using assms parse_hosts [OF assms(2), of _ "[]" None 0] by (simp add: parse_input_def host_list_def)

definition sample_host :: ssh_host where
  "sample_host = new_host\<lparr>sh_Host := [''a'', ''b''], sh_User := ''me'', sh_Port := 2222,
     sh_LocalForwards := [\<lparr>fw_InHost = [], fw_InPort = 80, fw_OutHost = ''db'', fw_OutPort = 5432\<rparr>],
     sh_DynamicForwards := [\<lparr>df_Host = ''::1'', df_Port = 1080\<rparr>]\<rparr>"

theorem ssh_config_roundtrip_witness:
  "list_all host_ok [sample_host, new_host\<lparr>sh_Host := [''c'']\<rparr>] \<and>
   ssh_Parse 1 \<lparr>fs_ReadFile = (\<lambda>_. Some (concat (map print_host [sample_host, new_host\<lparr>sh_Host := [''c'']\<rparr>]))),
       fs_Glob = (\<lambda>_. None), fs_Expand = (\<lambda>_. None)\<rparr> ''f'' =
     PDone [sample_host, new_host\<lparr>sh_Host := [''c'']\<rparr>]"
proof -
  have ok: "list_all host_ok [sample_host, new_host\<lparr>sh_Host := [''c'']\<rparr>]" by code_simp
  with ssh_config_roundtrip [OF _ this, of _ "''f''" 0] show ?thesis by (simp only: file_system.simps One_nat_def)
qed

end
