(* ===== verification/Scp_Command.thy ===== *)
theory Scp_Command
  imports Scp_Props Scp_Workers Ssh_Roundtrip
begin

text \<open>
  The command line of \<^verbatim>\<open>fkme scp\<close> (\<^verbatim>\<open>scp/scp.go\<close>): where to connect, which side is the remote one, and
  what is then done. Connecting either succeeds or ends the process; it is left out.
\<close>

section \<open>The destination\<close>

definition re_star :: "(char \<Rightarrow> bool) \<Rightarrow> string \<Rightarrow> (string \<times> string) list" where
  "re_star P s = re_plus P s @ [([], s)]"

definition re_target :: "string \<Rightarrow> (string \<times> string \<times> string \<times> string) list" where
  "re_target s =
     [(u, p, h, d). (u, r1) \<leftarrow> re_plus (\<lambda>c. c \<noteq> CHR ''/'') s, r2 \<leftarrow> re_lit (CHR ''/'') r1 @ [r1],
        (p, r3) \<leftarrow> re_star (\<lambda>c. c \<noteq> CHR ''@'') r2, r4 \<leftarrow> re_lit (CHR ''@'') r3,
        (h, r5) \<leftarrow> re_plus (\<lambda>c. c \<noteq> CHR '':'') r4, r6 \<leftarrow> re_lit (CHR '':'') r5,
        (d, _) \<leftarrow> re_plus (\<lambda>c. c \<noteq> LF) r6]"

text \<open>User, password, host, remote path; the expression is anchored at the beginning.\<close>

definition ssh_str_parse :: "string \<Rightarrow> (string \<times> string \<times> string \<times> string) option" where
  "ssh_str_parse s = (case re_target s of [] \<Rightarrow> None | x # _ \<Rightarrow> Some x)"

record scp_args =
  sa_key_file :: string
  sa_passcode :: string
  sa_port :: int
  sa_cc :: int
  sa_conf_file :: string
  sa_s5 :: string
  sa_daemon :: bool
  sa_exec :: string
  sa_args :: "string list"

text \<open>The connection (host, port, user, password or key file), the direction, the local and the remote path.\<close>

record scp_target =
  tg_host :: string
  tg_port :: int
  tg_user :: string
  tg_pass :: string
  tg_to_remote :: bool
  tg_local :: string
  tg_remote :: string

datatype 'a scp_choice = Chosen 'a | NotChosen | ChoicePanic

text \<open>The part of a name before the first colon, unless the colon is the first character or the second
  (a drive letter); names of less than two characters are a panic.\<close>

definition colon_parts :: "string \<Rightarrow> (string \<times> string) scp_choice" where
  "colon_parts s =
     (if length s < 2 then ChoicePanic
      else if s ! 1 = CHR '':'' then NotChosen
      else case go_Index s '':'' of
             Some (Suc i) \<Rightarrow> (case go_SplitN 2 s '':'' of [h, p] \<Rightarrow> Chosen (h, p) | _ \<Rightarrow> NotChosen)
           | _ \<Rightarrow> NotChosen)"

text \<open>Which of the two is remote: whether it is the second, the host's name, the path there.\<close>

definition remote_side :: "string \<Rightarrow> string \<Rightarrow> (bool \<times> string \<times> string) scp_choice" where
  "remote_side src dst =
     (case colon_parts src of
        ChoicePanic \<Rightarrow> ChoicePanic
      | Chosen (h, p) \<Rightarrow> Chosen (False, h, p)
      | NotChosen \<Rightarrow>
          (case colon_parts dst of
             ChoicePanic \<Rightarrow> ChoicePanic
           | Chosen (h, p) \<Rightarrow> Chosen (True, h, p)
           | NotChosen \<Rightarrow> Chosen (False, [], [])))"

text \<open>The last host of the configuration whose first name is the one given.\<close>

fun choose_host :: "string \<Rightarrow> ssh_host list \<Rightarrow> ssh_host option \<Rightarrow> ssh_host scp_choice" where
  "choose_host name [] cur = (case cur of None \<Rightarrow> NotChosen | Some h \<Rightarrow> Chosen h)"
| "choose_host name (h # hs) cur =
     (case sh_Host h of
        [] \<Rightarrow> ChoicePanic
      | n # _ \<Rightarrow> choose_host name hs (if n = name then Some h else cur))"

definition config_path :: "file_system \<Rightarrow> string \<Rightarrow> string" where
  "config_path fs conf =
     (let c1 = (if conf = ''~'' then ''~/.ssh/config'' else conf)
      in if HasPrefix c1 ''~'' then ExpandHome fs c1 else c1)"

definition key_of :: "file_system \<Rightarrow> ssh_host \<Rightarrow> string" where
  "key_of fs h =
     (let idfile = (if sh_IdentityFile h = [] then ''~/.ssh/id_rsa'' else sh_IdentityFile h)
      in if HasPrefix idfile ''~'' then ExpandHome fs idfile else idfile)"

definition config_target :: "nat \<Rightarrow> file_system \<Rightarrow> string \<Rightarrow> string \<Rightarrow> string \<Rightarrow> scp_target scp_choice" where
  "config_target depth fs conf src dst =
     (case ssh_Parse depth fs (config_path fs conf) of
        PDone hosts \<Rightarrow>
          (case remote_side src dst of
             Chosen (to_remote, name, path) \<Rightarrow>
               (case choose_host name hosts None of
                  Chosen h \<Rightarrow>
                    Chosen \<lparr>tg_host = sh_HostName h, tg_port = sh_Port h, tg_user = sh_User h, tg_pass = key_of fs h,
                      tg_to_remote = to_remote, tg_local = (if to_remote then src else dst), tg_remote = path\<rparr>
                | NotChosen \<Rightarrow> NotChosen | ChoicePanic \<Rightarrow> ChoicePanic)
           | NotChosen \<Rightarrow> NotChosen | ChoicePanic \<Rightarrow> ChoicePanic)
      | _ \<Rightarrow> NotChosen)"

definition password_of :: "scp_args \<Rightarrow> string \<Rightarrow> string" where
  "password_of a pass = (if pass \<noteq> [] then pass else if sa_key_file a \<noteq> [] then sa_key_file a else sa_passcode a)"

definition plain_target :: "scp_args \<Rightarrow> string \<Rightarrow> string \<Rightarrow> scp_target scp_choice" where
  "plain_target a src dst =
     (case ssh_str_parse src of
        Some (user, pass, host, rpath) \<Rightarrow>
          Chosen \<lparr>tg_host = host, tg_port = sa_port a, tg_user = user, tg_pass = password_of a pass,
            tg_to_remote = False, tg_local = dst, tg_remote = rpath\<rparr>
      | None \<Rightarrow>
          (case ssh_str_parse dst of
             Some (user, pass, host, rpath) \<Rightarrow>
               Chosen \<lparr>tg_host = host, tg_port = sa_port a, tg_user = user, tg_pass = password_of a pass,
                 tg_to_remote = True, tg_local = src, tg_remote = rpath\<rparr>
           | None \<Rightarrow> NotChosen))"

text \<open>\<^verbatim>\<open>cmd_args.connect\<close> after the flags have been parsed.\<close>

definition scp_connect :: "nat \<Rightarrow> file_system \<Rightarrow> scp_args \<Rightarrow> scp_target scp_choice" where
  "scp_connect depth fs a =
     (case sa_args a of
        [src, dst] \<Rightarrow>
          if sa_conf_file a \<noteq> [] then config_target depth fs (sa_conf_file a) src dst
          else plain_target a src dst
      | _ \<Rightarrow> NotChosen)"

section \<open>What is done\<close>

text \<open>The command run after the upload of a single file.\<close>

definition exec_command :: "scp_args \<Rightarrow> bool \<Rightarrow> string \<Rightarrow> string option" where
  "exec_command a is_file remote =
     (if is_file \<and> sa_exec a \<noteq> [] then
        Some (if go_Contains (sa_exec a) ''{}'' then ReplaceAll (sa_exec a) ''{}'' remote else sa_exec a)
      else None)"

text \<open>What a change below the watched directory leads to; a failed upload is tried once more over a new
  connection.\<close>

definition watch_change :: "'l store_ops \<Rightarrow> 'l \<Rightarrow> 'r store_ops \<Rightarrow> nat \<Rightarrow> string \<Rightarrow> string \<Rightarrow> 'r \<Rightarrow> outcome \<times> 'r" where
  "watch_change lo l ro plen remote_dir fpath r =
     (if path_Base fpath = ''__pycache__'' \<or> HasSuffix fpath ''~'' then (Returned True, r)
      else if length fpath < plen then (Panicked, r)
      else let remote = ReplaceAll (remote_dir @ drop plen fpath) [CHR 0x5C] Slash
        in if go_Contains remote ''/.git/'' \<or> go_Contains remote ''/.idea/'' then (Returned True, r)
           else case Upload lo l ro fpath remote r of
                  (True, r') \<Rightarrow> (Returned True, r')
                | (False, r') \<Rightarrow> (Returned True, snd (Upload lo l ro fpath remote r')))"

datatype scp_plan =
  InvalidArgs | PlanPanic | RunChanDownload nat | RunDownload | RunChanUpload nat | RunWatch | RunUpload

text \<open>\<^verbatim>\<open>Run\<close>: the transfer that the arguments choose.\<close>

definition scp_plan_of :: "scp_args \<Rightarrow> scp_target scp_choice \<Rightarrow> scp_plan" where
  "scp_plan_of a t =
     (case t of
        ChoicePanic \<Rightarrow> PlanPanic
      | NotChosen \<Rightarrow> InvalidArgs
      | Chosen g \<Rightarrow>
          if tg_local g = [] then InvalidArgs
          else if \<not> tg_to_remote g then (if sa_cc a > 1 then RunChanDownload (nat (sa_cc a)) else RunDownload)
          else if sa_cc a > 1 then RunChanUpload (nat (sa_cc a))
          else if sa_daemon a then RunWatch else RunUpload)"

section \<open>Printed destinations\<close>

definition print_target :: "string \<times> string \<times> string \<times> string \<Rightarrow> string" where
  "print_target t =
     (case t of (u, p, h, d) \<Rightarrow> u @ (if p = [] then [] else CHR ''/'' # p) @ CHR ''@'' # h @ CHR '':'' # d)"

definition target_ok :: "string \<times> string \<times> string \<times> string \<Rightarrow> bool" where
  "target_ok t =
     (case t of (u, p, h, d) \<Rightarrow>
        u \<noteq> [] \<and> CHR ''/'' \<notin> set u \<and> CHR ''@'' \<notin> set u \<and> CHR ''@'' \<notin> set p \<and> (p = [] \<longrightarrow> CHR ''@'' \<notin> set h \<and> CHR ''@'' \<notin> set d) \<and>
        h \<noteq> [] \<and> CHR '':'' \<notin> set h \<and> d \<noteq> [] \<and> LF \<notin> set d)"

lemma re_plus_stop:
  assumes "list_all P u" "u \<noteq> []" "\<not> P c"
  obtains xs where "re_plus P (u @ c # t) = (u, c # t) # xs"
  by (rule re_plus_first [OF assms(1,2), of "c # t"]) (use assms(3) in auto)

lemma re_star_stop:
  assumes "list_all P u" "\<not> P c"
  obtains xs where "re_star P (u @ c # t) = (u, c # t) # xs"
proof (cases "u = []")
  case True
  with assms that show thesis by (simp add: re_star_def)
next
  case False
  obtain xs where "re_plus P (u @ c # t) = (u, c # t) # xs" by (rule re_plus_stop [OF assms(1) False assms(2)])
  with that show thesis by (simp add: re_star_def)
qed

text \<open>What follows the user: the rest of the expression, as a function of what is left.\<close>

definition after_user :: "string \<Rightarrow> string \<Rightarrow> (string \<times> string \<times> string \<times> string) list" where
  "after_user u r1 =
     [(u, p, h, d). r2 \<leftarrow> re_lit (CHR ''/'') r1 @ [r1],
        (p, r3) \<leftarrow> re_star (\<lambda>c. c \<noteq> CHR ''@'') r2, r4 \<leftarrow> re_lit (CHR ''@'') r3,
        (h, r5) \<leftarrow> re_plus (\<lambda>c. c \<noteq> CHR '':'') r4, r6 \<leftarrow> re_lit (CHR '':'') r5,
        (d, _) \<leftarrow> re_plus (\<lambda>c. c \<noteq> LF) r6]"

lemma re_target_user: "re_target s = concat (map (\<lambda>(u, r1). after_user u r1) (re_plus (\<lambda>c. c \<noteq> CHR ''/'') s))"
  by (simp add: re_target_def after_user_def)

lemma re_plus_parts: "(a, b) \<in> set (re_plus P s) \<Longrightarrow> s = a @ b"
  by (induction s arbitrary: a b) (auto split: if_splits)

lemma re_star_parts: "(a, b) \<in> set (re_star P s) \<Longrightarrow> s = a @ b"
  by (auto simp: re_star_def dest: re_plus_parts)

lemma after_user_none: "CHR ''@'' \<notin> set r1 \<Longrightarrow> after_user u r1 = []"
proof -
  assume r1: "CHR ''@'' \<notin> set r1"
  have "re_lit (CHR ''@'') r3 = []" if "(p, r3) \<in> set (re_star P r2)" "r2 \<in> set (re_lit (CHR ''/'') r1 @ [r1])" for p r3 P r2
  proof -
    have "set r2 \<subseteq> set r1" using that(2) by (cases r1) (auto simp: re_lit_def split: if_splits)
    then have "CHR ''@'' \<notin> set r3" using re_star_parts [OF that(1)] r1 by auto
    then show ?thesis by (cases r3) (auto simp: re_lit_def)
  qed
  then show ?thesis by (fastforce simp: after_user_def)
qed

lemma host_and_path:
  assumes "h \<noteq> []" "CHR '':'' \<notin> set h" "d \<noteq> []" "LF \<notin> set d"
  shows "\<exists>zs. [(u, p, h, d). (h, r5) \<leftarrow> re_plus (\<lambda>c. c \<noteq> CHR '':'') (h @ CHR '':'' # d), r6 \<leftarrow> re_lit (CHR '':'') r5,
        (d, _) \<leftarrow> re_plus (\<lambda>c. c \<noteq> LF) r6] = (u, p, h, d) # zs"
proof -
  obtain xs where 1: "re_plus (\<lambda>c. c \<noteq> CHR '':'') (h @ CHR '':'' # d) = (h, CHR '':'' # d) # xs"
    by (rule re_plus_stop [of "\<lambda>c. c \<noteq> CHR '':''" h]) (use assms in \<open>auto simp: list_all_iff\<close>)
  obtain ys where 2: "re_plus (\<lambda>c. c \<noteq> LF) (d @ []) = (d, []) # ys"
    by (rule re_plus_first [of "\<lambda>c. c \<noteq> LF" d "[]"]) (use assms in \<open>auto simp: list_all_iff\<close>)
  show ?thesis using 2 by (simp add: 1 re_lit_def)
qed

lemma after_user_password:
  assumes "CHR ''@'' \<notin> set p" "h \<noteq> []" "CHR '':'' \<notin> set h" "d \<noteq> []" "LF \<notin> set d"
  shows "\<exists>zs. after_user u (CHR ''/'' # p @ CHR ''@'' # h @ CHR '':'' # d) = (u, p, h, d) # zs"
proof -
  obtain xs where 1: "re_star (\<lambda>c. c \<noteq> CHR ''@'') (p @ CHR ''@'' # h @ CHR '':'' # d) = (p, CHR ''@'' # h @ CHR '':'' # d) # xs"
    by (rule re_star_stop [of "\<lambda>c. c \<noteq> CHR ''@''" p]) (use assms in \<open>auto simp: list_all_iff\<close>)
  show ?thesis using host_and_path [OF assms(2-5), of u p] by (auto simp: after_user_def 1 re_lit_def)
qed

lemma after_user_no_password:
  assumes "h \<noteq> []" "CHR '':'' \<notin> set h" "d \<noteq> []" "LF \<notin> set d"
  shows "\<exists>zs. after_user u (CHR ''@'' # h @ CHR '':'' # d) = (u, [], h, d) # zs"
  using host_and_path [OF assms, of u "[]"] by (auto simp: after_user_def re_lit_def re_star_def)

lemma ssh_str_parse_print:
  assumes "target_ok t" shows "ssh_str_parse (print_target t) = Some t"
proof -
  obtain u p h d where t: "t = (u, p, h, d)" by (cases t)
  have u: "u \<noteq> []" "CHR ''/'' \<notin> set u" and p: "CHR ''@'' \<notin> set p"
    and hd: "h \<noteq> []" "CHR '':'' \<notin> set h" "d \<noteq> []" "LF \<notin> set d"
    and at: "p = [] \<Longrightarrow> CHR ''@'' \<notin> set h \<and> CHR ''@'' \<notin> set d" using assms by (auto simp: target_ok_def t)
  have "\<exists>zs. re_target (print_target t) = (u, p, h, d) # zs"
  proof (cases "p = []")
    case False
    obtain xs where "re_plus (\<lambda>c. c \<noteq> CHR ''/'') (u @ CHR ''/'' # p @ CHR ''@'' # h @ CHR '':'' # d) =
        (u, CHR ''/'' # p @ CHR ''@'' # h @ CHR '':'' # d) # xs"
      by (rule re_plus_stop [of "\<lambda>c. c \<noteq> CHR ''/''" u]) (use u in \<open>auto simp: list_all_iff\<close>)
    with after_user_password [OF p hd, of u] False show ?thesis by (auto simp: re_target_user print_target_def t)
  next
    case True
    define s where "s = u @ CHR ''@'' # h @ CHR '':'' # d"
    define v where "v = takeWhile (\<lambda>c. c \<noteq> CHR ''/'') s"
    define w where "w = dropWhile (\<lambda>c. c \<noteq> CHR ''/'') s"
    have vw: "s = v @ w" "list_all (\<lambda>c. c \<noteq> CHR ''/'') v" "w = [] \<or> \<not> hd w \<noteq> CHR ''/''"
      using hd_dropWhile [of "\<lambda>c. c \<noteq> CHR ''/''" s] by (auto simp: v_def w_def list_all_iff dest: set_takeWhileD)
    define f where "f j = after_user (take (Suc j) s) (drop (Suc j) s)" for j
    have re: "re_target s = concat (map f (rev [0..<length v]))"
      unfolding re_target_user vw(1) re_plus_all [OF vw(2,3)] by (simp add: f_def [abs_def] vw(1) comp_def del: take_append drop_append)
    obtain k where k: "length u = Suc k" using u(1) by (cases u) auto
    have fk: "f k = after_user u (CHR ''@'' # h @ CHR '':'' # d)" using k by (simp add: f_def s_def)
    obtain x xs where x: "f k = x # xs" "x = (u, [], h, d)" using after_user_no_password [OF hd, of u] fk by auto
    have "length u < length v"
      using u(2) by (simp add: v_def s_def takeWhile_append takeWhile_eq_all_conv [THEN iffD2])
    then have "k < length v" using k by simp
    moreover have "f i = []" if lt: "k < i" for i
    proof -
      obtain j where "Suc i = length u + Suc j" using less_imp_Suc_add [OF lt] k by auto
      then have "drop (Suc i) s = drop j (h @ CHR '':'' # d)" by (simp add: s_def)
      moreover have "CHR ''@'' \<notin> set (drop j (h @ CHR '':'' # d))" using at [OF True] by (auto dest: in_set_dropD)
      ultimately show ?thesis by (simp add: f_def after_user_none)
    qed
    ultimately obtain ys where "concat (map f (rev [0..<length v])) = x # ys" using first_of [of k "length v" f x xs] x(1) by metis
    with re x True show ?thesis by (simp add: print_target_def t s_def)
  qed
  then show ?thesis by (auto simp: ssh_str_parse_def t)
qed

text \<open>A destination \<open>user/password@host:path\<close> on the command line is taken apart into what it was made
  of, and the file or directory before it is uploaded there; without a password the key file is
  used, and without that the password of the command line.\<close>

theorem scp_destination:
  assumes "target_ok (u, p, h, d)" "ssh_str_parse src = None"
    and "sa_conf_file a = []" "sa_args a = [src, print_target (u, p, h, d)]"
  shows "ssh_str_parse (print_target (u, p, h, d)) = Some (u, p, h, d) \<and>
    scp_connect n fs a = Chosen \<lparr>tg_host = h, tg_port = sa_port a, tg_user = u, tg_pass = password_of a p,
      tg_to_remote = True, tg_local = src, tg_remote = d\<rparr>"
  using assms ssh_str_parse_print [OF assms(1)] by (simp add: scp_connect_def plain_target_def)

theorem scp_destination_witness:
  "\<exists>a. sa_args a = [''/w/x'', print_target (''mci'', ''pa/ss'', ''172.18.231.76'', ''/tmp/a@b'')] \<and>
     print_target (''mci'', ''pa/ss'', ''172.18.231.76'', ''/tmp/a@b'') = ''mci/pa/ss@172.18.231.76:/tmp/a@b'' \<and>
     scp_connect 0 \<lparr>fs_ReadFile = (\<lambda>_. None), fs_Glob = (\<lambda>_. None), fs_Expand = (\<lambda>_. None)\<rparr> a = Chosen \<lparr>tg_host = ''172.18.231.76'', tg_port = 22, tg_user = ''mci'', tg_pass = ''pa/ss'',
       tg_to_remote = True, tg_local = ''/w/x'', tg_remote = ''/tmp/a@b''\<rparr>"
proof -
  define a where "a = \<lparr>sa_key_file = ''k'', sa_passcode = [], sa_port = 22, sa_cc = 1, sa_conf_file = [], sa_s5 = [], sa_daemon = False,
    sa_exec = [], sa_args = [''/w/x'', print_target (''mci'', ''pa/ss'', ''172.18.231.76'', ''/tmp/a@b'')]\<rparr>"
  have "target_ok (''mci'', ''pa/ss'', ''172.18.231.76'', ''/tmp/a@b'')" "ssh_str_parse ''/w/x'' = None"
    "print_target (''mci'', ''pa/ss'', ''172.18.231.76'', ''/tmp/a@b'') = ''mci/pa/ss@172.18.231.76:/tmp/a@b''" by code_simp+
  with scp_destination [OF this(1,2), of a 0] show ?thesis
    by (intro exI [of _ a]) (simp add: a_def password_of_def)
qed

section \<open>Hosts of the configuration\<close>

lemma choose_host_last:
  assumes "list_all (\<lambda>g. sh_Host g \<noteq> []) hs2" "\<forall>g\<in>set hs2. hd (sh_Host g) \<noteq> name"
  shows "choose_host name hs2 (Some h) = Chosen h"
  using assms by (induction hs2) (auto split: list.split)

lemma choose_host_found:
  assumes "list_all (\<lambda>g. sh_Host g \<noteq> []) (hs1 @ h # hs2)" "hd (sh_Host h) = name" "\<forall>g\<in>set hs2. hd (sh_Host g) \<noteq> name"
  shows "choose_host name (hs1 @ h # hs2) cur = Chosen h"
  using assms
proof (induction hs1 arbitrary: cur)
  case Nil
  then show ?case using choose_host_last [of hs2 name h] by (auto split: list.split)
next
  case (Cons g hs1)
  then show ?case by (cases "sh_Host g") simp_all
qed

text \<open>With a configuration file, \<open>name:path\<close> reaches the host of that name in it, the last one if there
  are several: its address, port, user and key are those of the file. (Names of one letter are taken
  for drives.)\<close>

theorem scp_config_host:
  assumes content: "fs_ReadFile fs (config_path fs conf) = Some (concat (map print_host (hs1 @ h # hs2)))"
      "list_all host_ok (hs1 @ h # hs2)"
    and name: "hd (sh_Host h) = name" "\<forall>g\<in>set hs2. hd (sh_Host g) \<noteq> name" "CHR '':'' \<notin> set name" "2 \<le> length name"
    and args: "sa_conf_file a = conf" "conf \<noteq> []" "sa_args a = [src, name @ CHR '':'' # path]" "CHR '':'' \<notin> set src" "2 \<le> length src"
  shows "scp_connect (Suc n) fs a = Chosen \<lparr>tg_host = sh_HostName h, tg_port = sh_Port h, tg_user = sh_User h,
    tg_pass = key_of fs h, tg_to_remote = True, tg_local = src, tg_remote = path\<rparr>"
proof -
  have parse: "ssh_Parse (Suc n) fs (config_path fs conf) = PDone (hs1 @ h # hs2)"
    using parse_hosts [OF content(2), of _ "[]" None 0] content(1) by (simp add: parse_input_def host_list_def)
  obtain c e m where nm: "name = c # e # m"
    using name(4) by (metis One_nat_def Suc_1 Suc_le_length_iff)
  have "src ! 1 \<noteq> CHR '':''" using args(4,5) by (metis One_nat_def Suc_1 Suc_le_eq nth_mem)
  then have "colon_parts src = NotChosen"
    using args(4,5) by (simp add: colon_parts_def go_Index_char_None [THEN iffD2])
  moreover have "colon_parts (name @ CHR '':'' # path) = Chosen (name, path)"
    using name(3) go_Index_char_append [OF name(3), of path] unfolding nm by (auto simp: colon_parts_def eval_nat_numeral)
  moreover have "choose_host name (hs1 @ h # hs2) None = Chosen h"
    by (rule choose_host_found [OF _ name(1,2)]) (use content(2) in \<open>auto simp: list_all_iff host_ok_def\<close>)
  ultimately show ?thesis using args by (simp add: scp_connect_def config_target_def parse remote_side_def del: ssh_Parse.simps)
qed

theorem scp_config_host_witness:
  "\<exists>fs a. sa_args a = [''fkme'', ''ud7:gosrc/fkme''] \<and>
     scp_connect 1 fs a = Chosen \<lparr>tg_host = ''10.0.0.7'', tg_port = 2022, tg_user = ''me'', tg_pass = ''/k'',
       tg_to_remote = True, tg_local = ''fkme'', tg_remote = ''gosrc/fkme''\<rparr>"
proof -
  define h where "h = new_host\<lparr>sh_Host := [''ud7''], sh_HostName := ''10.0.0.7'', sh_Port := 2022, sh_User := ''me'', sh_IdentityFile := ''/k''\<rparr>"
  define fs where "fs = \<lparr>fs_ReadFile = (\<lambda>p. if p = ''/c'' then Some (concat (map print_host ([new_host\<lparr>sh_Host := [''a'']\<rparr>] @ h # []))) else None),
    fs_Glob = (\<lambda>_. None), fs_Expand = (\<lambda>_. None)\<rparr>"
  define a where "a = \<lparr>sa_key_file = [], sa_passcode = [], sa_port = 22, sa_cc = 1, sa_conf_file = ''/c'', sa_s5 = [], sa_daemon = False,
    sa_exec = [], sa_args = [''fkme'', ''ud7'' @ CHR '':'' # ''gosrc/fkme'']\<rparr>"
  have cp: "config_path fs ''/c'' = ''/c''" by (simp add: config_path_def HasPrefix_def)
  have "list_all host_ok ([new_host\<lparr>sh_Host := [''a'']\<rparr>] @ h # [])" unfolding h_def by code_simp
  from scp_config_host [OF _ this, of fs "''/c''" "''ud7''" a "''fkme''" "''gosrc/fkme''" 0]
  have "scp_connect 1 fs a = Chosen \<lparr>tg_host = ''10.0.0.7'', tg_port = 2022, tg_user = ''me'', tg_pass = ''/k'',
       tg_to_remote = True, tg_local = ''fkme'', tg_remote = ''gosrc/fkme''\<rparr>"
    unfolding cp by (simp add: fs_def h_def a_def key_of_def HasPrefix_def)
  then show ?thesis by (intro exI [of _ fs] exI [of _ a]) (simp add: a_def)
qed

end
