(* ===== verification/Tunnel_Config.thy ===== *)
theory Tunnel_Config
  imports Ssh_Config
begin

text \<open>
  The configuration of the SSH tunnels: the file of \<^verbatim>\<open>fkme tunnel\<close> (\<^verbatim>\<open>scp/tunnel.go\<close>, after the JSON
  library has read it) and the port arguments of \<^verbatim>\<open>fkme ws\<close> (\<^verbatim>\<open>ws/ssh_tunnel.go\<close>).
\<close>

section \<open>The configuration file\<close>

record tunnel_entry =
  te_Tunnel :: string
  te_Server :: string
  te_RetrySec :: int

record tunnel =
  tn_mode :: char
  tn_user :: string
  tn_hostAddr :: string
  tn_bindAddr :: string
  tn_dialAddr :: string
  tn_retryInterval :: int

datatype auth_method = AuthKey string | AuthPassword string

text \<open>A key file that is there but cannot be parsed leaves no method at all.\<close>

definition tunnel_auth :: "(string \<Rightarrow> bool) \<Rightarrow> (string \<Rightarrow> bool) \<Rightarrow> string \<Rightarrow> auth_method list" where
  "tunnel_auth exists parses keyfile =
     (if exists keyfile then (if parses keyfile then [AuthKey keyfile] else []) else [AuthPassword keyfile])"

definition re_server :: "string \<Rightarrow> (string \<times> string \<times> string) list" where
  "re_server s =
     [(u, h, p). (u, r1) \<leftarrow> re_plus (\<lambda>c. c \<noteq> CHR ''@'') s, r2 \<leftarrow> re_lit (CHR ''@'') r1,
        (h, r3) \<leftarrow> re_plus (\<lambda>c. c \<noteq> CHR '':'') r2, r4 \<leftarrow> re_lit (CHR '':'') r3, (p, _) \<leftarrow> re_plus is_digit r4]"

definition JoinHostPort :: "string \<Rightarrow> string \<Rightarrow> string" where
  "JoinHostPort host port =
     (if CHR '':'' \<in> set host then CHR ''['' # host @ '']:'' @ port else host @ CHR '':'' # port)"

definition tunnel_of :: "tunnel_entry \<Rightarrow> tunnel option" where
  "tunnel_of t =
     (case re_server (te_Server t) of
        [] \<Rightarrow> None
      | (user, host, port) # _ \<Rightarrow>
          (case go_Split (te_Tunnel t) '' '' of
             [a, m, b] \<Rightarrow>
               if m = ''->'' then
                 Some \<lparr>tn_mode = CHR ''>'', tn_user = user, tn_hostAddr = JoinHostPort host port,
                   tn_bindAddr = a, tn_dialAddr = b, tn_retryInterval = te_RetrySec t\<rparr>
               else if m = ''<-'' then
                 Some \<lparr>tn_mode = CHR ''<'', tn_user = user, tn_hostAddr = JoinHostPort host port,
                   tn_bindAddr = a, tn_dialAddr = b, tn_retryInterval = te_RetrySec t\<rparr>
               else None
           | _ \<Rightarrow> None))"

text \<open>
  The second result of the functions that load: a function that tells whether it failed, or nil. Both name
  it \<^verbatim>\<open>closer\<close>, assign nothing to it and return it.
\<close>

type_synonym close_fn = "(unit \<Rightarrow> bool) option"

definition unset_closer :: close_fn where
  "unset_closer = None"

text \<open>\<^verbatim>\<open>loadConf\<close>: invalid entries are passed over; nothing when the file cannot be read or decoded.\<close>

definition loadConf :: "tunnel_entry list option \<Rightarrow> tunnel list \<times> close_fn" where
  "loadConf conf =
     (case conf of
        None \<Rightarrow> ([], unset_closer)
      | Some ts \<Rightarrow> (List.map_filter tunnel_of ts, unset_closer))"

definition tunnel_String :: "tunnel \<Rightarrow> string" where
  "tunnel_String t =
     (let (left, mode, right) =
        (if tn_mode t = CHR ''>'' then (tn_bindAddr t, ''->'', tn_dialAddr t)
         else if tn_mode t = CHR ''<'' then (tn_dialAddr t, ''<-'', tn_bindAddr t)
         else ([], ''<?>'', []))
      in tn_user t @ ''@'' @ tn_hostAddr t @ '' | '' @ left @ '' '' @ mode @ '' '' @ right)"

text \<open>The two tunnels that were fixed before there was a configuration file.\<close>

definition loadConfig :: "bool \<Rightarrow> tunnel list \<times> close_fn" where
  "loadConfig is_remote =
     ((if is_remote then
        [\<lparr>tn_mode = CHR ''<'', tn_user = ''app'', tn_hostAddr = JoinHostPort ''121.43.230.103'' ''22'',
          tn_bindAddr = ''localhost:2022'', tn_dialAddr = ''localhost:2022'', tn_retryInterval = 300\<rparr>]
      else
        [\<lparr>tn_mode = CHR ''>'', tn_user = ''app'', tn_hostAddr = JoinHostPort ''121.43.230.103'' ''22'',
          tn_bindAddr = ''localhost:7122'', tn_dialAddr = ''localhost:2022'', tn_retryInterval = 30\<rparr>]), unset_closer)"

text \<open>
  The comments and \<^verbatim>\<open>String\<close> write a reverse tunnel as \<open>dial <- bind\<close>; the reader takes the first address
  for the one to bind.
\<close>

theorem reverse_tunnel_swapped:
  "map_option (\<lambda>t. (tn_bindAddr t, tn_dialAddr t, tunnel_String t))
     (tunnel_of \<lparr>te_Tunnel = ''localhost:80 <- 0.0.0.0:8080'', te_Server = ''app@h:22'', te_RetrySec = 30\<rparr>) =
   Some (''localhost:80'', ''0.0.0.0:8080'', ''app@h:22 | 0.0.0.0:8080 <- localhost:80'')"
  by code_simp

section \<open>Port arguments\<close>

record port_map =
  pt_mode :: char
  pt_bindAddr :: string
  pt_dialAddr :: string

text \<open>\<^verbatim>\<open>lport;>;rport\<close> and \<^verbatim>\<open>lport;<;rport\<close>; too few parts or an empty mode are a panic (none).\<close>

definition port_of_arg :: "string \<Rightarrow> port_map option" where
  "port_of_arg pp =
     (case go_Split pp '';'' of
        l # (m # ms) # ps \<Rightarrow>
          if m = CHR ''>'' then
            (case ps of [] \<Rightarrow> None
             | r # _ \<Rightarrow> Some \<lparr>pt_mode = m, pt_bindAddr = CHR '':'' # l, pt_dialAddr = ''localhost:'' @ r\<rparr>)
          else if m = CHR ''<'' then
            (case ps of [] \<Rightarrow> None
             | r # _ \<Rightarrow> Some \<lparr>pt_mode = m, pt_bindAddr = ''localhost:'' @ r, pt_dialAddr = ''localhost:'' @ l\<rparr>)
          else Some \<lparr>pt_mode = m, pt_bindAddr = [], pt_dialAddr = []\<rparr>
      | _ \<Rightarrow> None)"

definition port_String :: "port_map \<Rightarrow> string" where
  "port_String t =
     (let (left, mode, right) =
        (if pt_mode t = CHR ''>'' then (pt_bindAddr t, ''->'', pt_dialAddr t)
         else if pt_mode t = CHR ''<'' then (pt_dialAddr t, ''<-'', pt_bindAddr t)
         else ([], ''<?>'', []))
      in left @ '' '' @ mode @ '' '' @ right)"

lemma port_of_arg_print:
  assumes "CHR '';'' \<notin> set l" "CHR '';'' \<notin> set r"
  shows "port_of_arg (l @ '';>;'' @ r) = Some \<lparr>pt_mode = CHR ''>'', pt_bindAddr = CHR '':'' # l, pt_dialAddr = ''localhost:'' @ r\<rparr>"
    and "port_of_arg (l @ '';<;'' @ r) = Some \<lparr>pt_mode = CHR ''<'', pt_bindAddr = ''localhost:'' @ r, pt_dialAddr = ''localhost:'' @ l\<rparr>"
proof -
  have "go_Split (CHR ''>'' # CHR '';'' # r) '';'' = [''>'', r]" "go_Split (CHR ''<'' # CHR '';'' # r) '';'' = [''<'', r]"
    using go_Split_Cons [of "CHR '';''" "''>''" r] go_Split_Cons [of "CHR '';''" "''<''" r] go_Split_field [OF assms(2)] by simp_all
  then show "port_of_arg (l @ '';>;'' @ r) = Some \<lparr>pt_mode = CHR ''>'', pt_bindAddr = CHR '':'' # l, pt_dialAddr = ''localhost:'' @ r\<rparr>"
    "port_of_arg (l @ '';<;'' @ r) = Some \<lparr>pt_mode = CHR ''<'', pt_bindAddr = ''localhost:'' @ r, pt_dialAddr = ''localhost:'' @ l\<rparr>"
    using go_Split_Cons [OF assms(1), of "''>;'' @ r"] go_Split_Cons [OF assms(1), of "''<;'' @ r"] by (simp_all add: port_of_arg_def)
qed

end
