(* ===== verification/Tunnel_Alive.thy ===== *)
theory Tunnel_Alive
  imports Prelude
begin

text \<open>
  The keep-alive monitor of an SSH connection (\<^verbatim>\<open>keepAliveMonitor\<close> of \<^verbatim>\<open>scp/tunnel.go\<close>, and the same in
  \<^verbatim>\<open>ws/ssh_tunnel.go\<close>) and a forwarded connection (\<^verbatim>\<open>dialTunnel\<close>), as machines over what happens to them.
\<close>

section \<open>Keep-alive\<close>

record alive_conf =
  ka_Interval :: "64 word"
  ka_CountMax :: "64 word"

text \<open>\<^verbatim>\<open>aliveCount\<close> is an \<^verbatim>\<open>int32\<close>; whether the monitor has closed the connection; whether it has returned.\<close>

record monitor =
  mo_aliveCount :: "32 word"
  mo_closed :: bool
  mo_ended :: bool

datatype monitor_event = Gone | Tick | ReplyOk | ReplyErr

definition monitor_start :: "alive_conf \<Rightarrow> monitor" where
  "monitor_start k = \<lparr>mo_aliveCount = 0, mo_closed = False, mo_ended = (ka_Interval k = 0 \<or> ka_CountMax k = 0)\<rparr>"

text \<open>The replies come from the goroutines that send the requests: they may come after the monitor has ended.\<close>

fun monitor_step :: "alive_conf \<Rightarrow> monitor \<Rightarrow> monitor_event \<Rightarrow> monitor" where
  "monitor_step k m Gone = m\<lparr>mo_ended := True\<rparr>"
| "monitor_step k m Tick =
     (if mo_ended m then m
      else let n = mo_aliveCount m + 1
        in if sint (ucast (ka_CountMax k) :: 32 word) < sint n
           then m\<lparr>mo_aliveCount := n, mo_closed := True, mo_ended := True\<rparr>
           else m\<lparr>mo_aliveCount := n\<rparr>)"
| "monitor_step k m ReplyOk = m\<lparr>mo_aliveCount := 0\<rparr>"
| "monitor_step k m ReplyErr = m"

text \<open>The ticks since the last answer.\<close>

fun unanswered :: "monitor_event list \<Rightarrow> nat" where
  "unanswered [] = 0"
| "unanswered (Tick # es) = Suc (unanswered es)"
| "unanswered (ReplyOk # es) = 0"
| "unanswered (e # es) = unanswered es"

definition silent :: "monitor_event list \<Rightarrow> nat" where
  "silent es = unanswered (rev es)"

lemma silent_snoc [simp]:
  "silent [] = 0" "silent (es @ [Tick]) = Suc (silent es)" "silent (es @ [ReplyOk]) = 0" "silent (es @ [ReplyErr]) = silent es"
  by (simp_all add: silent_def)

lemma sint_small: "n < 2 ^ 31 \<Longrightarrow> sint (word_of_nat n :: 32 word) = int n"
  by (simp add: signed_of_nat signed_take_bit_eq_if_positive take_bit_eq_mod bit_iff_odd)

definition max_silence :: "alive_conf \<Rightarrow> nat" where
  "max_silence k = unat (ka_CountMax k)"

lemma count_max:
  assumes "max_silence k < 2 ^ 31"
  shows "sint (ucast (ka_CountMax k) :: 32 word) = int (max_silence k)"
proof -
  have "(ucast (ka_CountMax k) :: 32 word) = word_of_nat (max_silence k)"
    by (simp add: max_silence_def)
  then show ?thesis using sint_small [OF assms] by simp
qed

lemma monitor_run:
  assumes "ka_Interval k \<noteq> 0" "ka_CountMax k \<noteq> 0" "max_silence k < 2 ^ 31 - 1" "Gone \<notin> set es"
  defines "m \<equiv> foldl (monitor_step k) (monitor_start k) es"
  shows "mo_closed m = mo_ended m \<and>
    (mo_ended m \<longleftrightarrow> (\<exists>p s. es = p @ s \<and> max_silence k < silent p)) \<and>
    (\<not> mo_ended m \<longrightarrow> mo_aliveCount m = word_of_nat (silent es) \<and> silent es \<le> max_silence k)"
  using assms(4) unfolding m_def
proof (induction es rule: rev_induct)
  case Nil
  then show ?case using assms(1,2) by (simp add: monitor_start_def)
next
  case (snoc e es)
  let ?m = "foldl (monitor_step k) (monitor_start k) es"
  have ex: "(\<exists>p s. es @ [e] = p @ s \<and> max_silence k < silent p) \<longleftrightarrow>
      (\<exists>p s. es = p @ s \<and> max_silence k < silent p) \<or> max_silence k < silent (es @ [e])"
  proof
    assume "\<exists>p s. es @ [e] = p @ s \<and> max_silence k < silent p"
    then obtain p s where "es @ [e] = p @ s" "max_silence k < silent p" by blast
    then show "(\<exists>p s. es = p @ s \<and> max_silence k < silent p) \<or> max_silence k < silent (es @ [e])"
      by (cases s rule: rev_cases) auto
  qed (metis append.assoc append_Nil2)
  have cm: "sint (ucast (ka_CountMax k) :: 32 word) = int (max_silence k)" by (rule count_max) (use assms(3) in simp)
  show ?case
  proof (cases "mo_ended ?m")
    case True
    with snoc show ?thesis unfolding ex by (cases e) auto
  next
    case False
    with snoc have IH: "mo_aliveCount ?m = word_of_nat (silent es)" "silent es \<le> max_silence k"
        "\<not> (\<exists>p s. es = p @ s \<and> max_silence k < silent p)" "\<not> mo_closed ?m"
      by auto
    have nxt: "sint (word_of_nat (silent es) + 1 :: 32 word) = int (Suc (silent es))"
      using sint_small [of "Suc (silent es)"] IH(2) assms(3) by (simp add: add.commute)
    show ?thesis
      using snoc.prems False IH nxt unfolding ex by (cases e) (auto simp: cm Let_def add.commute)
  qed
qed

text \<open>The monitor closes the connection exactly when more ticks than the maximal count have passed without
  an answer in between: never before, however the answers and errors come, and at the very tick.\<close>

theorem keepalive_exact:
  assumes "ka_Interval k \<noteq> 0" "ka_CountMax k \<noteq> 0" "max_silence k < 2 ^ 31 - 1" "Gone \<notin> set es"
  shows "mo_closed (foldl (monitor_step k) (monitor_start k) es) \<longleftrightarrow> (\<exists>p s. es = p @ s \<and> max_silence k < silent p)"
  using monitor_run [OF assms] by simp

theorem keepalive_exact_witness:
  "(let k = \<lparr>ka_Interval = 30, ka_CountMax = 2\<rparr>
    in mo_closed (foldl (monitor_step k) (monitor_start k) [Tick, Tick, ReplyOk, Tick, Tick, ReplyErr, Tick]))"
proof -
  define k :: alive_conf where "k = \<lparr>ka_Interval = 30, ka_CountMax = 2\<rparr>"
  have "max_silence k < silent ([Tick, Tick, ReplyOk, Tick, Tick, ReplyErr, Tick])"
    by (simp add: k_def max_silence_def silent_def)
  then have "\<exists>p s. [Tick, Tick, ReplyOk, Tick, Tick, ReplyErr, Tick] = p @ s \<and> max_silence k < silent p"
    by (metis append_Nil2)
  then show ?thesis
    using keepalive_exact [of k "[Tick, Tick, ReplyOk, Tick, Tick, ReplyErr, Tick]"]
    unfolding Let_def k_def [symmetric] by (simp add: k_def max_silence_def)
qed

text \<open>A maximal count that does not fit in 32 bits is negative after the conversion: the first tick closes.\<close>

theorem keepalive_overflow:
  "mo_closed (monitor_step \<lparr>ka_Interval = 30, ka_CountMax = 2 ^ 31\<rparr> (monitor_start \<lparr>ka_Interval = 30, ka_CountMax = 2 ^ 31\<rparr>) Tick)"
  by code_simp

section \<open>A forwarded connection\<close>

datatype conn_phase = CDialling | CCopying | CReturned

text \<open>The inbound connection is open; the outbound one, once it is there, is open; the two copyings run.\<close>

record forwarded =
  fc_phase :: conn_phase
  fc_cancelled :: bool
  fc_in :: bool
  fc_out :: "bool option"
  fc_copy_in :: bool
  fc_copy_out :: bool

definition forwarded_start :: forwarded where
  "forwarded_start = \<lparr>fc_phase = CDialling, fc_cancelled = False, fc_in = True, fc_out = None, fc_copy_in = False, fc_copy_out = False\<rparr>"

datatype conn_event = ParentDone | DialledOk | DialledErr | CopyInEnd | CopyOutEnd | CloseIn | CloseOut

definition copies_done :: "forwarded \<Rightarrow> forwarded" where
  "copies_done c = (if \<not> fc_copy_in c \<and> \<not> fc_copy_out c then c\<lparr>fc_phase := CReturned\<rparr> else c)"

fun forwarded_step :: "conn_event \<Rightarrow> forwarded \<Rightarrow> forwarded option" where
  "forwarded_step ParentDone c = Some (c\<lparr>fc_cancelled := True\<rparr>)"
| "forwarded_step DialledOk c =
     (if fc_phase c = CDialling
      then Some (c\<lparr>fc_phase := CCopying, fc_out := Some True, fc_copy_in := True, fc_copy_out := True\<rparr>) else None)"
| "forwarded_step DialledErr c =
     (if fc_phase c = CDialling then Some (c\<lparr>fc_phase := CReturned, fc_cancelled := True\<rparr>) else None)"
| "forwarded_step CopyInEnd c =
     (if fc_copy_in c then Some (copies_done (c\<lparr>fc_copy_in := False, fc_cancelled := True\<rparr>)) else None)"
| "forwarded_step CopyOutEnd c =
     (if fc_copy_out c then Some (copies_done (c\<lparr>fc_copy_out := False, fc_cancelled := True\<rparr>)) else None)"
| "forwarded_step CloseIn c = (if fc_cancelled c \<and> fc_in c then Some (c\<lparr>fc_in := False\<rparr>) else None)"
| "forwarded_step CloseOut c = (if fc_cancelled c \<and> fc_out c = Some True then Some (c\<lparr>fc_out := Some False\<rparr>) else None)"

definition forwarded_do :: "forwarded \<Rightarrow> conn_event \<Rightarrow> forwarded" where
  "forwarded_do c e = (case forwarded_step e c of None \<Rightarrow> c | Some c' \<Rightarrow> c')"

definition forwarded_inv :: "forwarded \<Rightarrow> bool" where
  "forwarded_inv c \<longleftrightarrow>
     (fc_phase c = CReturned \<longrightarrow> fc_cancelled c \<and> \<not> fc_copy_in c \<and> \<not> fc_copy_out c) \<and>
     (fc_phase c = CDialling \<longrightarrow> \<not> fc_copy_in c \<and> \<not> fc_copy_out c \<and> fc_out c = None) \<and>
     (fc_phase c = CCopying \<longrightarrow> (fc_copy_in c \<or> fc_copy_out c) \<and> fc_out c \<noteq> None \<and> (\<not> fc_copy_in c \<or> \<not> fc_copy_out c \<longrightarrow> fc_cancelled c)) \<and>
     (\<not> fc_cancelled c \<longrightarrow> fc_in c \<and> fc_out c \<noteq> Some False)"

interpretation forwarded: inv_machine forwarded_do forwarded_inv
proof
  fix c e assume "forwarded_inv c"
  then show "forwarded_inv (forwarded_do c e)"
    by (cases e; cases "fc_phase c") (auto simp: forwarded_do_def forwarded_inv_def copies_done_def)
qed

text \<open>
  A forwarded connection is not left half open: once it has returned, or one direction has ended, both
  ends are closed or about to be, by a step that only the closing of that end disables; and as long as
  nothing has ended, neither is closed.
\<close>

theorem forwarded_closes:
  assumes "c = foldl forwarded_do forwarded_start es"
  shows "fc_phase c = CReturned \<or> (fc_phase c = CCopying \<and> (\<not> fc_copy_in c \<or> \<not> fc_copy_out c)) \<Longrightarrow>
      (\<not> fc_in c \<or> forwarded_step CloseIn c \<noteq> None) \<and> (fc_out c \<noteq> Some True \<or> forwarded_step CloseOut c \<noteq> None)"
    and "\<not> fc_cancelled c \<Longrightarrow> fc_in c \<and> fc_out c \<noteq> Some False"
proof -
  have "forwarded_inv c" unfolding assms by (rule forwarded.run_inv) (simp add: forwarded_start_def forwarded_inv_def)
  then show "fc_phase c = CReturned \<or> (fc_phase c = CCopying \<and> (\<not> fc_copy_in c \<or> \<not> fc_copy_out c)) \<Longrightarrow>
      (\<not> fc_in c \<or> forwarded_step CloseIn c \<noteq> None) \<and> (fc_out c \<noteq> Some True \<or> forwarded_step CloseOut c \<noteq> None)"
    "\<not> fc_cancelled c \<Longrightarrow> fc_in c \<and> fc_out c \<noteq> Some False"
    by (auto simp: forwarded_inv_def)
qed

end
