(* ===== verification/Tunnel_Group.thy ===== *)
theory Tunnel_Group
  imports Tunnel_Alive
begin

text \<open>
  The goroutines of the SSH tunnels and the wait group on which the command waits, in the two programs:
  \<^verbatim>\<open>scp/tunnel.go\<close>, with a connection for each tunnel, and \<^verbatim>\<open>ws/ssh_tunnel.go\<close>, with one connection for
  several ports. The interleaving is a sequence of events.
\<close>

section \<open>Wait groups\<close>

text \<open>The count, whether it has become negative (a panic), whether it has been 0 (then the wait is over).\<close>

record wait_group =
  wg_count :: int
  wg_negative :: bool
  wg_over :: bool

definition wg_Add :: "int \<Rightarrow> wait_group \<Rightarrow> wait_group" where
  "wg_Add d g =
     (let n = wg_count g + d
      in \<lparr>wg_count = n, wg_negative = (wg_negative g \<or> n < 0), wg_over = (wg_over g \<or> n = 0)\<rparr>)"

definition wg_Done :: "wait_group \<Rightarrow> wait_group" where
  "wg_Done = wg_Add (- 1)"

section \<open>Tunnels\<close>

text \<open>
  Where the loop of a tunnel is (\<^verbatim>\<open>bindTunnel\<close>): connecting, binding, accepting, waiting for the next
  try, or ended. The other goroutines are counted: monitors that have just started, monitors that
  watch, their waiters, the keep-alive requests under way, the forwarded connections, and, where
  they are goroutines, the listeners of further ports.
\<close>

datatype loop = Dialling | Binding | Accepting | Pausing | Ended

record tunnels =
  tu_loops :: "loop list"
  tu_group :: wait_group
  tu_fresh :: nat
  tu_watching :: nat
  tu_waiters :: nat
  tu_pings :: nat
  tu_conns :: nat
  tu_binds :: nat

datatype tunnel_event =
  DialFails nat | DialOk nat | BindFails nat | BindOk nat | AcceptOk nat | AcceptFails nat | Retry nat | Cancelled nat |
  MonitorStarts | MonitorEnds | WaiterEnds | PingStarts | PingEnds | ConnEnds | SideAccept | SideEnds

definition tunnels_start :: "nat \<Rightarrow> tunnels" where
  "tunnels_start n =
     \<lparr>tu_loops = replicate n Dialling, tu_group = \<lparr>wg_count = int n, wg_negative = False, wg_over = (n = 0)\<rparr>,
      tu_fresh = 0, tu_watching = 0, tu_waiters = 0, tu_pings = 0, tu_conns = 0, tu_binds = 0\<rparr>"

definition tu_wg :: "(wait_group \<Rightarrow> wait_group) \<Rightarrow> tunnels \<Rightarrow> tunnels" where
  "tu_wg f s = s\<lparr>tu_group := f (tu_group s)\<rparr>"

text \<open>A step of the loop of tunnel \<open>i\<close>, with what else it does.\<close>

definition loop_step :: "nat \<Rightarrow> loop \<Rightarrow> loop \<Rightarrow> (tunnels \<Rightarrow> tunnels) \<Rightarrow> tunnels \<Rightarrow> tunnels option" where
  "loop_step i l l' f s =
     (if i < length (tu_loops s) \<and> tu_loops s ! i = l then Some (f (s\<lparr>tu_loops := (tu_loops s)[i := l']\<rparr>)) else None)"

text \<open>What the monitors do is the same in both programs; \<open>ka\<close>: keep-alive is configured.\<close>

fun monitor_event_step :: "bool \<Rightarrow> tunnel_event \<Rightarrow> tunnels \<Rightarrow> tunnels option" where
  "monitor_event_step ka MonitorStarts s =
     (if tu_fresh s = 0 then None
      else if ka then Some (tu_wg (wg_Add 1) (s\<lparr>tu_fresh := tu_fresh s - 1, tu_watching := Suc (tu_watching s), tu_waiters := Suc (tu_waiters s)\<rparr>))
      else Some (tu_wg wg_Done (s\<lparr>tu_fresh := tu_fresh s - 1\<rparr>)))"
| "monitor_event_step ka MonitorEnds s =
     (if tu_watching s = 0 then None else Some (tu_wg wg_Done (s\<lparr>tu_watching := tu_watching s - 1\<rparr>)))"
| "monitor_event_step ka WaiterEnds s =
     (if tu_waiters s = 0 then None else Some (tu_wg wg_Done (s\<lparr>tu_waiters := tu_waiters s - 1\<rparr>)))"
| "monitor_event_step ka PingStarts s =
     (if tu_watching s = 0 then None else Some (tu_wg (wg_Add 1) (s\<lparr>tu_pings := Suc (tu_pings s)\<rparr>)))"
| "monitor_event_step ka PingEnds s =
     (if tu_pings s = 0 then None else Some (tu_wg wg_Done (s\<lparr>tu_pings := tu_pings s - 1\<rparr>)))"
| "monitor_event_step ka ConnEnds s =
     (if tu_conns s = 0 then None else Some (tu_wg wg_Done (s\<lparr>tu_conns := tu_conns s - 1\<rparr>)))"
| "monitor_event_step ka _ s = None"

definition new_conn :: "tunnels \<Rightarrow> tunnels" where
  "new_conn s = tu_wg (wg_Add 1) (s\<lparr>tu_conns := Suc (tu_conns s)\<rparr>)"

definition new_monitor :: "tunnels \<Rightarrow> tunnels" where
  "new_monitor s = tu_wg (wg_Add 1) (s\<lparr>tu_fresh := Suc (tu_fresh s)\<rparr>)"

text \<open>\<^verbatim>\<open>scp/tunnel.go\<close>: the loop binds, accepts and tries again itself.\<close>

fun scp_tunnel_step :: "bool \<Rightarrow> tunnel_event \<Rightarrow> tunnels \<Rightarrow> tunnels option" where
  "scp_tunnel_step ka (DialFails i) s = loop_step i Dialling Pausing id s"
| "scp_tunnel_step ka (DialOk i) s = loop_step i Dialling Binding new_monitor s"
| "scp_tunnel_step ka (BindFails i) s = loop_step i Binding Pausing id s"
| "scp_tunnel_step ka (BindOk i) s = loop_step i Binding Accepting id s"
| "scp_tunnel_step ka (AcceptOk i) s = loop_step i Accepting Accepting new_conn s"
| "scp_tunnel_step ka (AcceptFails i) s = loop_step i Accepting Pausing id s"
| "scp_tunnel_step ka (Retry i) s = loop_step i Pausing Dialling id s"
| "scp_tunnel_step ka (Cancelled i) s = loop_step i Pausing Ended (tu_wg wg_Done) s"
| "scp_tunnel_step ka e s = monitor_event_step ka e s"

text \<open>
  \<^verbatim>\<open>ws/ssh_tunnel.go\<close>: one connection for \<open>m\<close> ports. The listener of the first port runs in the loop, the
  others in goroutines; each of them gives back to the wait group (\<^verbatim>\<open>defer wg.Done()\<close>) when it ends.
\<close>

definition start_binds :: "nat \<Rightarrow> tunnels \<Rightarrow> tunnels" where
  "start_binds m s = new_monitor (s\<lparr>tu_binds := tu_binds s + (m - 1)\<rparr>)"

fun ws_tunnel_step :: "nat \<Rightarrow> bool \<Rightarrow> tunnel_event \<Rightarrow> tunnels \<Rightarrow> tunnels option" where
  "ws_tunnel_step m ka (DialFails i) s = loop_step i Dialling Pausing id s"
| "ws_tunnel_step m ka (DialOk i) s = loop_step i Dialling Binding (start_binds m) s"
| "ws_tunnel_step m ka (BindFails i) s = loop_step i Binding Pausing (tu_wg wg_Done) s"
| "ws_tunnel_step m ka (BindOk i) s = loop_step i Binding Accepting id s"
| "ws_tunnel_step m ka (AcceptOk i) s = loop_step i Accepting Accepting new_conn s"
| "ws_tunnel_step m ka (AcceptFails i) s = loop_step i Accepting Pausing (tu_wg wg_Done) s"
| "ws_tunnel_step m ka (Retry i) s = loop_step i Pausing Dialling id s"
| "ws_tunnel_step m ka (Cancelled i) s = loop_step i Pausing Ended (tu_wg wg_Done) s"
| "ws_tunnel_step m ka SideAccept s = (if tu_binds s = 0 then None else Some (new_conn s))"
| "ws_tunnel_step m ka SideEnds s =
     (if tu_binds s = 0 then None else Some (tu_wg wg_Done (s\<lparr>tu_binds := tu_binds s - 1\<rparr>)))"
| "ws_tunnel_step m ka e s = monitor_event_step ka e s"

text \<open>An event that cannot happen changes nothing.\<close>

definition tunnel_do :: "(tunnel_event \<Rightarrow> tunnels \<Rightarrow> tunnels option) \<Rightarrow> tunnels \<Rightarrow> tunnel_event \<Rightarrow> tunnels" where
  "tunnel_do step s e = (case step e s of None \<Rightarrow> s | Some s' \<Rightarrow> s')"

section \<open>The count\<close>

definition live_loops :: "tunnels \<Rightarrow> nat" where
  "live_loops s = length (filter (\<lambda>l. l \<noteq> Ended) (tu_loops s))"

definition others :: "tunnels \<Rightarrow> nat" where
  "others s = tu_fresh s + tu_watching s + tu_waiters s + tu_pings s + tu_conns s"

definition tunnels_inv :: "tunnels \<Rightarrow> bool" where
  "tunnels_inv s \<longleftrightarrow>
     wg_count (tu_group s) = int (live_loops s + others s) \<and> \<not> wg_negative (tu_group s) \<and>
     (wg_over (tu_group s) \<longleftrightarrow> live_loops s + others s = 0)"

lemma live_update:
  assumes "i < length (tu_loops s)" "tu_loops s ! i = l"
  shows "live_loops (s\<lparr>tu_loops := (tu_loops s)[i := l']\<rparr>) + (if l \<noteq> Ended then 1 else 0) =
    live_loops s + (if l' \<noteq> Ended then 1 else 0)"
  using length_filter_update [OF assms(1), of "\<lambda>l. l \<noteq> Ended" l'] assms(2) by (simp add: live_loops_def)

lemma loop_stepE:
  assumes "loop_step i l l' f s = Some s'"
  obtains s1 where "s' = f s1" "tu_binds s1 = tu_binds s" "length (tu_loops s1) = length (tu_loops s)"
    "live_loops s1 + (if l \<noteq> Ended then 1 else 0) = live_loops s + (if l' \<noteq> Ended then 1 else 0)"
    "others s1 = others s" "tu_group s1 = tu_group s" "l = Ended \<or> 0 < live_loops s"
proof -
  have i: "i < length (tu_loops s)" "tu_loops s ! i = l" "s' = f (s\<lparr>tu_loops := (tu_loops s)[i := l']\<rparr>)"
    using assms by (auto simp: loop_step_def split: if_splits)
  moreover have "l = Ended \<or> 0 < live_loops s" using i(1,2) by (auto simp: live_loops_def filter_empty_conv)
  ultimately show thesis
    using live_update [OF i(1,2), of l'] by (intro that [of "s\<lparr>tu_loops := (tu_loops s)[i := l']\<rparr>"]) (simp_all add: others_def)
qed

lemma live_loops_other [simp]:
  "live_loops (s\<lparr>tu_group := g\<rparr>) = live_loops s" "live_loops (s\<lparr>tu_fresh := n\<rparr>) = live_loops s"
  "live_loops (s\<lparr>tu_watching := n\<rparr>) = live_loops s" "live_loops (s\<lparr>tu_waiters := n\<rparr>) = live_loops s"
  "live_loops (s\<lparr>tu_pings := n\<rparr>) = live_loops s" "live_loops (s\<lparr>tu_conns := n\<rparr>) = live_loops s"
  "live_loops (s\<lparr>tu_binds := n\<rparr>) = live_loops s"
  by (simp_all add: live_loops_def)

lemmas group_defs = tunnels_inv_def tu_wg_def wg_Add_def wg_Done_def Let_def new_conn_def new_monitor_def

lemma monitor_step_inv:
  "tunnels_inv s \<Longrightarrow> monitor_event_step ka e s = Some s' \<Longrightarrow> tunnels_inv s'"
  by (cases e) (auto simp: group_defs others_def split: if_splits)

lemma scp_tunnel_inv:
  assumes "tunnels_inv s" "scp_tunnel_step ka e s = Some s'"
  shows "tunnels_inv s'"
proof -
  have loop: "tunnels_inv s'" if ls: "loop_step i l l' f s = Some s'"
      and f: "f = id \<and> l' \<noteq> Ended \<or> f = new_monitor \<and> l' \<noteq> Ended \<or> f = new_conn \<and> l' \<noteq> Ended \<or> f = tu_wg wg_Done \<and> l' = Ended" and l: "l \<noteq> Ended"
    for i l l' f
  proof -
    obtain s1 where s1: "s' = f s1" "tu_binds s1 = tu_binds s" "length (tu_loops s1) = length (tu_loops s)"
        "live_loops s1 + (if l \<noteq> Ended then 1 else 0) = live_loops s + (if l' \<noteq> Ended then 1 else 0)"
        "others s1 = others s" "tu_group s1 = tu_group s" "l = Ended \<or> 0 < live_loops s"
      by (rule loop_stepE [OF ls])
    have inv: "tunnels_inv s1" if "l' \<noteq> Ended" using s1 assms(1) l that by (simp add: tunnels_inv_def)
    show ?thesis
    proof (cases "l' = Ended")
      case True
      with f have "f = tu_wg wg_Done" by auto
      moreover have "others (tu_wg wg_Done s1) = others s" using s1(5) by (simp add: others_def tu_wg_def)
      ultimately show ?thesis using True s1 assms(1) l by (auto simp: tunnels_inv_def tu_wg_def wg_Add_def wg_Done_def)
    next
      case False
      then have "0 < live_loops s1" using s1(4,7) l by simp
      with False f inv show ?thesis using s1(1) by (elim disjE conjE) (simp_all add: group_defs others_def)
    qed
  qed
  show ?thesis
    using assms loop monitor_step_inv [OF assms(1)] by (cases e) (auto simp del: monitor_event_step.simps)
qed

interpretation scp_tunnels: inv_machine "tunnel_do (scp_tunnel_step ka)" tunnels_inv
  by unfold_locales (auto simp: tunnel_do_def intro: scp_tunnel_inv split: option.split)

lemma tunnels_start_inv: "tunnels_inv (tunnels_start n)"
  by (simp add: tunnels_inv_def tunnels_start_def live_loops_def others_def)

text \<open>The command \<^verbatim>\<open>fkme tunnel\<close> waits for what it has started: in every interleaving of its tunnels,
  monitors and connections the wait group never becomes negative, and the wait is over exactly when
  every tunnel has been cancelled and nothing runs any more.\<close>

theorem scp_tunnel_waits:
  "(let s = foldl (tunnel_do (scp_tunnel_step ka)) (tunnels_start n) es
    in \<not> wg_negative (tu_group s) \<and> (wg_over (tu_group s) \<longleftrightarrow> list_all (\<lambda>l. l = Ended) (tu_loops s) \<and> others s = 0))"
  using scp_tunnels.run_inv [OF tunnels_start_inv, of ka n es]
  by (auto simp: tunnels_inv_def live_loops_def list_all_iff filter_empty_conv Let_def)

section \<open>The WebSocket tunnel\<close>

text \<open>There the count is at most what runs less the listeners that have ended (\<open>d\<close>). It changes by one at a
  time: where it is no longer positive, it has been zero.\<close>

definition ws_inv :: "nat \<Rightarrow> tunnels \<Rightarrow> bool" where
  "ws_inv d s \<longleftrightarrow>
     wg_count (tu_group s) + int d \<le> int (live_loops s + others s) \<and>
     (wg_count (tu_group s) \<le> 0 \<longrightarrow> wg_over (tu_group s)) \<and> length (tu_loops s) = 1"

lemmas ws_defs = ws_inv_def tu_wg_def wg_Add_def wg_Done_def Let_def new_conn_def new_monitor_def start_binds_def

lemma ws_monitor_inv:
  "ws_inv d s \<Longrightarrow> monitor_event_step ka e s = Some s' \<Longrightarrow> ws_inv d s'"
  by (cases e) (auto simp: ws_defs others_def split: if_splits)

lemma ws_loop_inv:
  assumes "ws_inv d s" "loop_step i l l' f s = Some s'" "l \<noteq> Ended"
    and f: "f = id \<and> l' \<noteq> Ended \<or> f = start_binds m \<and> l' \<noteq> Ended \<or> f = new_conn \<and> l' \<noteq> Ended \<or> f = tu_wg wg_Done"
  shows "ws_inv d s' \<and> (f = tu_wg wg_Done \<and> l' \<noteq> Ended \<longrightarrow> ws_inv (Suc d) s')"
proof -
  obtain s1 where s1: "s' = f s1" "tu_binds s1 = tu_binds s" "length (tu_loops s1) = length (tu_loops s)"
      "live_loops s1 + (if l \<noteq> Ended then 1 else 0) = live_loops s + (if l' \<noteq> Ended then 1 else 0)"
      "others s1 = others s" "tu_group s1 = tu_group s" "l = Ended \<or> 0 < live_loops s"
    by (rule loop_stepE [OF assms(2)])
  have inv: "ws_inv d s1" if "l' \<noteq> Ended" using s1 assms(1,3) that by (simp add: ws_inv_def)
  show ?thesis
  proof (cases "f = tu_wg wg_Done")
    case True
    have "wg_count (tu_group s) \<le> 1 \<Longrightarrow> wg_over (tu_group s) \<or> wg_count (tu_group s) = 1"
      using assms(1) by (auto simp: ws_inv_def)
    with True s1 assms(1,3) show ?thesis by (cases "l' = Ended") (auto simp: ws_defs others_def)
  next
    case False
    with f inv have "ws_inv d s1" "f = id \<or> f = start_binds m \<or> f = new_conn" by auto
    with s1(1) False show ?thesis by (elim disjE) (simp_all add: ws_defs others_def)
  qed
qed

definition listener_ends :: "tunnel_event \<Rightarrow> bool" where
  "listener_ends e \<longleftrightarrow> e = BindFails 0 \<or> e = AcceptFails 0 \<or> e = SideEnds"

lemma ws_tunnel_inv:
  assumes "ws_inv d s" "ws_tunnel_step m ka e s = Some s'"
  shows "ws_inv d s' \<and> (listener_ends e \<longrightarrow> ws_inv (Suc d) s')"
proof -
  note loop = ws_loop_inv [OF assms(1), where m = m and s' = s'] and monitor = ws_monitor_inv [OF assms(1), of ka _ s']
  have "wg_count (tu_group s) \<le> 1 \<Longrightarrow> wg_over (tu_group s) \<or> wg_count (tu_group s) = 1"
    using assms(1) by (auto simp: ws_inv_def)
  then show ?thesis
    using assms
    by (cases e) (auto simp: listener_ends_def ws_defs others_def split: if_splits dest: loop monitor)
qed

interpretation ws_tunnels: inv_machine "tunnel_do (ws_tunnel_step m ka)" "ws_inv d"
  by unfold_locales (auto simp: tunnel_do_def dest: ws_tunnel_inv split: option.split)

text \<open>With \<^verbatim>\<open>fkme ws\<close> a lost connection is not made again: each listener gives back to the wait group what
  was never added for it, so that after the first listener has ended the command's wait is over as
  soon as no connection or monitor is left, although the loop would try again.\<close>

theorem ws_tunnel_gives_up:
  assumes "s = foldl (tunnel_do (ws_tunnel_step m ka)) (tunnels_start 1) es"
    and "ws_tunnel_step m ka e s = Some s1" "listener_ends e"
    and "s2 = foldl (tunnel_do (ws_tunnel_step m ka)) s1 es2" "others s2 = 0"
  shows "wg_over (tu_group s2)"
proof -
  have "ws_inv 0 (tunnels_start 1)" by (simp add: ws_inv_def tunnels_start_def live_loops_def others_def)
  then have "ws_inv 0 s" unfolding assms(1) by (rule ws_tunnels.run_inv)
  then have "ws_inv 1 s1" using ws_tunnel_inv [OF _ assms(2)] assms(3) by simp
  then have "ws_inv 1 s2" unfolding assms(4) by (rule ws_tunnels.run_inv)
  moreover have "live_loops s2 \<le> length (tu_loops s2)" by (simp add: live_loops_def)
  ultimately show ?thesis using assms(5) by (simp add: ws_inv_def)
qed

theorem ws_tunnel_gives_up_witness:
  "wg_over (tu_group (foldl (tunnel_do (ws_tunnel_step 1 False)) (tunnels_start 1) [DialOk 0, MonitorStarts, BindOk 0, AcceptFails 0])) \<and>
   tu_loops (foldl (tunnel_do (ws_tunnel_step 1 False)) (tunnels_start 1) [DialOk 0, MonitorStarts, BindOk 0, AcceptFails 0]) = [Pausing] \<and>
   wg_negative (tu_group (foldl (tunnel_do (ws_tunnel_step 2 False)) (tunnels_start 1)
     [DialOk 0, MonitorStarts, BindOk 0, AcceptFails 0, SideEnds]))"
proof -
  define s where "s = foldl (tunnel_do (ws_tunnel_step 1 False)) (tunnels_start 1) [DialOk 0, MonitorStarts, BindOk 0]"
  define s1 where "s1 = foldl (tunnel_do (ws_tunnel_step 1 False)) (tunnels_start 1) [DialOk 0, MonitorStarts, BindOk 0, AcceptFails 0]"
  have step: "ws_tunnel_step 1 False (AcceptFails 0) s = Some s1" unfolding s_def s1_def by code_simp
  have s1: "others s1 = 0" "tu_loops s1 = [Pausing]" unfolding s1_def by code_simp+
  have "wg_over (tu_group s1)"
    using ws_tunnel_gives_up [OF s_def step _ _ s1(1), of "[]"] by (simp add: listener_ends_def)
  with s1(2) show ?thesis unfolding s1_def by (intro conjI) (assumption | code_simp)+
qed

end
