(* ===== verification/Dir_Watch.thy ===== *)
theory Dir_Watch
  imports Go_Walk
begin

text \<open>
  The loops that watch a directory: \<^verbatim>\<open>WatchDir\<close> of \<^verbatim>\<open>util/util.go\<close>, its older form in
  \<^verbatim>\<open>cron/cron.go\<close>, and \<^verbatim>\<open>FSWatcher\<close> with the upload loop of \<^verbatim>\<open>Watch\<close> in \<^verbatim>\<open>fs_watcher.go\<close>. Each
  collects the names of changed files in a map and works them off when nothing has happened for a while.
  What the file system notification library reports is an input, and so is what \<^verbatim>\<open>os.Stat\<close> finds when an
  event is handled (nothing, or whether it is a directory).
\<close>

section \<open>The loop\<close>

datatype fs_op = OpCreate | OpWrite | OpRemove | OpRename | OpChmod

record fs_event =
  ev_name :: string
  ev_ops :: "fs_op list"

text \<open>
  The directories that are watched, the keys of the map of changed files, what the callbacks work on, and
  whether the loop goes on. A panic ends the process: no state.
\<close>

record 's watch =
  wa_dirs :: "string list"
  wa_chg :: "string list"
  wa_st :: 's
  wa_loop :: bool

text \<open>
  The branches of the \<^verbatim>\<open>select\<close>: an event; an error, which is logged; the timer, with the order in which
  Go happens to iterate over the map and the surroundings the callback finds. A list that is no
  iteration of the map is no input of the program and changes nothing.
\<close>

datatype ('e, 'c) loop_in = InEvent 'e | InError | InTimer 'c "string list"

definition note_key :: "string \<Rightarrow> string list \<Rightarrow> string list" where
  "note_key k ks = (if k \<in> set ks then ks else ks @ [k])"

fun run_callbacks :: "(string \<Rightarrow> 's \<Rightarrow> 's option) \<Rightarrow> string list \<Rightarrow> 's \<Rightarrow> 's option" where
  "run_callbacks cb [] s = Some s"
| "run_callbacks cb (k # ks) s = (case cb k s of None \<Rightarrow> None | Some s' \<Rightarrow> run_callbacks cb ks s')"

definition watch_timer :: "(string \<Rightarrow> 's \<Rightarrow> 's option) \<Rightarrow> string list \<Rightarrow> 's watch \<Rightarrow> 's watch option" where
  "watch_timer cb ord w =
     (if mset ord \<noteq> mset (wa_chg w) then Some w
      else map_option (\<lambda>s. w\<lparr>wa_st := s, wa_chg := []\<rparr>) (run_callbacks cb ord (wa_st w)))"

fun watch_step ::
  "('e \<Rightarrow> 's watch \<Rightarrow> 's watch option) \<Rightarrow> ('c \<Rightarrow> string \<Rightarrow> 's \<Rightarrow> 's option) \<Rightarrow> ('e, 'c) loop_in \<Rightarrow> 's watch \<Rightarrow> 's watch option" where
  "watch_step event cb (InEvent e) w = event e w"
| "watch_step event cb InError w = Some w"
| "watch_step event cb (InTimer c ord) w = watch_timer (cb c) ord w"

fun watch_run ::
  "('e \<Rightarrow> 's watch \<Rightarrow> 's watch option) \<Rightarrow> ('c \<Rightarrow> string \<Rightarrow> 's \<Rightarrow> 's option) \<Rightarrow> ('e, 'c) loop_in list \<Rightarrow> 's watch \<Rightarrow> 's watch option" where
  "watch_run event cb [] w = Some w"
| "watch_run event cb (i # is) w =
     (if wa_loop w then (case watch_step event cb i w of None \<Rightarrow> None | Some w' \<Rightarrow> watch_run event cb is w')
      else Some w)"

section \<open>\<^verbatim>\<open>WatchDir\<close>\<close>

text \<open>The directories found at the start; \<open>absf\<close> is \<^verbatim>\<open>filepath.Abs\<close>, which can fail.\<close>

definition watch_visit :: "(string \<Rightarrow> string option) \<Rightarrow> (string list) walk_fn" where
  "watch_visit absf path dir ds =
     (if \<not> dir then (WOk, ds)
      else case absf path of
             None \<Rightarrow> (WOk, ds)
           | Some p \<Rightarrow>
               if path_Base p = ''.git'' \<or> path_Base p = ''__pycache__'' \<or> path_Base p = ''.idea'' then (WSkip, ds)
               else (WOk, ds @ [p]))"

definition WatchDir_dirs :: "(string \<Rightarrow> string option) \<Rightarrow> string \<Rightarrow> ltree \<Rightarrow> string list" where
  "WatchDir_dirs absf basedir t = snd (Walk (watch_visit absf) basedir t [])"

text \<open>An event, with what \<^verbatim>\<open>os.Stat\<close> finds. Without a file, \<^verbatim>\<open>file.IsDir\<close> is a panic.\<close>

fun WatchDir_event :: "fs_event \<times> bool option \<Rightarrow> 's watch \<Rightarrow> 's watch option" where
  "WatchDir_event (e, None) w =
     (if OpRemove \<in> set (ev_ops e) \<and> (OpCreate \<in> set (ev_ops e) \<or> OpWrite \<in> set (ev_ops e)) then None else Some w)"
| "WatchDir_event (e, Some dir) w =
     Some (w\<lparr>wa_dirs := wa_dirs w @ (if OpCreate \<in> set (ev_ops e) \<and> dir then [ev_name e] else []),
             wa_chg := (if OpWrite \<in> set (ev_ops e) \<and> \<not> dir then note_key (ev_name e) (wa_chg w) else wa_chg w)\<rparr>)"

text \<open>The form of \<^verbatim>\<open>cron\<close>: every directory is watched, new ones are not, and nothing is looked up.\<close>

definition cron_visit :: "(string \<Rightarrow> string option) \<Rightarrow> (string list) walk_fn" where
  "cron_visit absf path dir ds =
     (if \<not> dir then (WOk, ds) else (WOk, case absf path of None \<Rightarrow> ds | Some p \<Rightarrow> ds @ [p]))"

definition cron_WatchDir_dirs :: "(string \<Rightarrow> string option) \<Rightarrow> string \<Rightarrow> ltree \<Rightarrow> string list" where
  "cron_WatchDir_dirs absf basedir t = snd (Walk (cron_visit absf) basedir t [])"

definition cron_WatchDir_event :: "fs_event \<Rightarrow> 's watch \<Rightarrow> 's watch option" where
  "cron_WatchDir_event e w =
     Some (w\<lparr>wa_chg := (if OpWrite \<in> set (ev_ops e) then note_key (ev_name e) (wa_chg w) else wa_chg w)\<rparr>)"

section \<open>\<^verbatim>\<open>FSWatcher\<close> and \<^verbatim>\<open>Watch\<close>\<close>

text \<open>The channel \<^verbatim>\<open>doneEvent\<close> is nil unless it is made.\<close>

record fs_watcher =
  fw_basedir :: string
  fw_ignore_files :: "string list"
  fw_ignore_dirs :: "string list"
  fw_doneEvent :: "unit option"

definition IsIgnoreDir :: "fs_watcher \<Rightarrow> string \<Rightarrow> bool" where
  "IsIgnoreDir f dirname =
     list_ex (\<lambda>prefix. HasPrefix dirname (path_Join [fw_basedir f, prefix])) (fw_ignore_dirs f)"

definition IsIgnoreFile :: "fs_watcher \<Rightarrow> string \<Rightarrow> bool" where
  "IsIgnoreFile f fpath =
     (let (dirname, filename) = path_Split fpath
      in list_ex (HasSuffix filename) (fw_ignore_files f) \<or> IsIgnoreDir f dirname)"

definition newFSWatcher :: "string \<Rightarrow> string list \<Rightarrow> string list \<Rightarrow> fs_watcher" where
  "newFSWatcher basedir ignore_files ignore_dirs =
     \<lparr>fw_basedir = basedir, fw_ignore_files = ignore_files, fw_ignore_dirs = ignore_dirs, fw_doneEvent = None\<rparr>"

text \<open>\<^verbatim>\<open>Init\<close>: a failure of \<^verbatim>\<open>Abs\<close>, or a directory that cannot be watched, ends the process, here the walk.\<close>

definition init_visit :: "(string \<Rightarrow> string option) \<Rightarrow> (string \<Rightarrow> bool) \<Rightarrow> fs_watcher \<Rightarrow> (string list) walk_fn" where
  "init_visit absf add f path dir ds =
     (if \<not> dir then (WOk, ds)
      else case absf path of
             None \<Rightarrow> (WPanic, ds)
           | Some p \<Rightarrow>
               if IsIgnoreDir f p then (WOk, ds)
               else if add p then (WOk, ds @ [p]) else (WPanic, ds))"

definition FSWatcher_Init ::
  "(string \<Rightarrow> string option) \<Rightarrow> (string \<Rightarrow> bool) \<Rightarrow> fs_watcher \<Rightarrow> ltree \<Rightarrow> walk_result \<times> string list" where
  "FSWatcher_Init absf add f t = Walk (init_visit absf add f) (fw_basedir f) t []"

text \<open>
  What \<^verbatim>\<open>Run\<close> makes of an event: the directories watched afterwards and the events it passes on
  (1: created, 2: written, 3: removed). The two lookups are separate calls of \<^verbatim>\<open>os.Stat\<close>.
\<close>

definition FSWatcher_Run ::
  "fs_event \<Rightarrow> bool option \<Rightarrow> bool option \<Rightarrow> string list \<Rightarrow> string list \<times> (string \<times> nat) list" where
  "FSWatcher_Run e st1 st2 dirs =
     (if OpCreate \<in> set (ev_ops e) \<and> st1 = None then (dirs, [])
      else
        (let d1 = (if OpCreate \<in> set (ev_ops e) \<and> st1 = Some True then dirs @ [ev_name e] else dirs);
             d2 = (if OpRemove \<in> set (ev_ops e) \<and> st2 = Some True then filter (\<lambda>d. d \<noteq> ev_name e) d1 else d1)
         in (d2, (if OpCreate \<in> set (ev_ops e) then [(ev_name e, 1)] else []) @
                 (if OpWrite \<in> set (ev_ops e) then [(ev_name e, 2)] else []) @
                 (if OpRemove \<in> set (ev_ops e) then [(ev_name e, 3)] else []))))"

text \<open>The event loop of \<^verbatim>\<open>Watch\<close>. A file that is gone by now is a panic; so is an event of an empty name's length.\<close>

fun Watch_event :: "(string \<times> nat) \<times> bool option \<Rightarrow> 's watch \<Rightarrow> 's watch option" where
  "Watch_event ((p, op), st) w =
     (if p = [] then Some (w\<lparr>wa_loop := False\<rparr>)
      else if last p = CHR ''~'' \<or> hd (path_Base p) = CHR ''.'' then Some w
      else if op = 1 \<or> op = 2 then
        (case st of
           None \<Rightarrow> None
         | Some True \<Rightarrow> Some w
         | Some False \<Rightarrow> Some (w\<lparr>wa_chg := note_key p (wa_chg w)\<rparr>))
      else Some w)"

definition Watch_remote :: "nat \<Rightarrow> string \<Rightarrow> string \<Rightarrow> string option" where
  "Watch_remote lpath_len rpath x =
     (if length x < lpath_len then None else Some (ReplaceAll (rpath @ drop lpath_len x) [CHR 0x5C] Slash))"

text \<open>The upload of a changed file, with what uploading does as an argument.\<close>

definition Watch_upload :: "(string \<Rightarrow> string \<Rightarrow> 's \<Rightarrow> 's option) \<Rightarrow> nat \<Rightarrow> string \<Rightarrow> string \<Rightarrow> 's \<Rightarrow> 's option" where
  "Watch_upload upload lpath_len rpath x s =
     (case Watch_remote lpath_len rpath x of None \<Rightarrow> None | Some remote \<Rightarrow> upload x remote s)"

text \<open>\<^verbatim>\<open>Done\<close>: sending on a nil channel blocks for ever.\<close>

datatype 'a blocking = Goes 'a | BlocksForever

definition FSWatcher_Done :: "fs_watcher \<Rightarrow> unit blocking" where
  "FSWatcher_Done f = (case fw_doneEvent f of None \<Rightarrow> BlocksForever | Some u \<Rightarrow> Goes u)"

section \<open>What the loops share\<close>

text \<open>
  The contract of an event handler: it fails on certain events only, and it does to the map what one key
  (or none) does. From it follows what every run does.
\<close>

fun is_quiet :: "('e, 'c) loop_in \<Rightarrow> bool" where
  "is_quiet (InTimer c ord) = False"
| "is_quiet _ = True"

definition noted :: "('e \<Rightarrow> string option) \<Rightarrow> ('e, 'c) loop_in list \<Rightarrow> string list" where
  "noted mark is = List.map_filter (\<lambda>i. case i of InEvent e \<Rightarrow> mark e | _ \<Rightarrow> None) is"

lemma noted_simps [simp]:
  "noted mark [] = []"
  "noted mark (InEvent e # is) = (case mark e of None \<Rightarrow> [] | Some k \<Rightarrow> [k]) @ noted mark is"
  "noted mark (InError # is) = noted mark is"
  by (simp_all add: noted_def map_filter_simps split: option.split)

lemma note_key_simps [simp]:
  "set (note_key k ks) = insert k (set ks)" "distinct (note_key k ks) = distinct ks"
  by (auto simp: note_key_def)

locale watch_loop =
  fixes event :: "'e \<Rightarrow> 's watch \<Rightarrow> 's watch option"
    and crashes :: "'e \<Rightarrow> bool"
    and mark :: "'e \<Rightarrow> string option"
    and ends :: "'e \<Rightarrow> bool"
  assumes event_None: "event e w = None \<longleftrightarrow> crashes e"
    and event_Some: "event e w = Some w' \<Longrightarrow>
      wa_chg w' = (case mark e of None \<Rightarrow> wa_chg w | Some k \<Rightarrow> note_key k (wa_chg w)) \<and>
      wa_st w' = wa_st w \<and> wa_loop w' = (wa_loop w \<and> \<not> ends e)"
begin

lemma event_exists:
  assumes "\<not> crashes e"
  obtains w' where "event e w = Some w'"
    "wa_chg w' = (case mark e of None \<Rightarrow> wa_chg w | Some k \<Rightarrow> note_key k (wa_chg w))"
    "wa_st w' = wa_st w" "wa_loop w' = (wa_loop w \<and> \<not> ends e)"
proof -
  from assms event_None [of e w] obtain w' where "event e w = Some w'" by auto
  with event_Some [OF this] that show thesis by blast
qed

definition fine :: "('e, 'c) loop_in \<Rightarrow> bool" where
  "fine i \<longleftrightarrow> is_quiet i \<and> (case i of InEvent e \<Rightarrow> \<not> crashes e \<and> \<not> ends e | _ \<Rightarrow> True)"

text \<open>Events alone collect their names, each once, and leave the rest to the timer.\<close>

lemma quiet_run:
  assumes "list_all fine is" "wa_loop w" "distinct (wa_chg w)"
  obtains w' where "watch_run event cb is w = Some w'" "wa_st w' = wa_st w" "wa_loop w'"
    "distinct (wa_chg w')" "set (wa_chg w') = set (wa_chg w) \<union> set (noted mark is)"
  using assms
proof (induction "is" arbitrary: w thesis)
  case (Cons i "is")
  show ?case
  proof (cases i)
    case (InEvent e)
    then obtain w1 where w1: "event e w = Some w1"
        "wa_chg w1 = (case mark e of None \<Rightarrow> wa_chg w | Some k \<Rightarrow> note_key k (wa_chg w))"
        "wa_st w1 = wa_st w" "wa_loop w1"
      using Cons.prems event_exists [of e w] by (auto simp: fine_def)
    have "list_all fine is" "distinct (wa_chg w1)" using Cons.prems w1(2) by (auto split: option.split)
    with w1(4) Cons.IH obtain w' where "watch_run event cb is w1 = Some w'" "wa_st w' = wa_st w1" "wa_loop w'"
        "distinct (wa_chg w')" "set (wa_chg w') = set (wa_chg w1) \<union> set (noted mark is)" by blast
    with w1 InEvent Cons.prems show ?thesis by (auto split: option.splits)
  next
    case InError
    with Cons show ?thesis by auto
  next
    case (InTimer c ord)
    with Cons.prems show ?thesis by (simp add: fine_def)
  qed
qed simp

text \<open>The timer hands every collected name to the callback once, and starts anew.\<close>

lemma watch_run_stopped: "\<not> wa_loop w \<Longrightarrow> watch_run event cb is w = Some w"
  by (cases "is") simp_all

lemma watch_run_append:
  "watch_run event cb (is1 @ is2) w =
     (case watch_run event cb is1 w of None \<Rightarrow> None | Some w' \<Rightarrow> watch_run event cb is2 w')"
proof (induction is1 arbitrary: w)
  case (Cons i is1)
  then show ?case by (cases "wa_loop w") (auto simp: watch_run_stopped split: option.split)
qed simp

lemma batch_run:
  assumes "list_all fine is" "wa_loop w" "wa_chg w = []"
    and "distinct ord" "set ord = set (noted mark is)"
  obtains ds where "watch_run event cb (is @ [InTimer c ord]) w =
    map_option (\<lambda>s. \<lparr>wa_dirs = ds, wa_chg = [], wa_st = s, wa_loop = True\<rparr>) (run_callbacks (cb c) ord (wa_st w))"
proof -
  obtain w' where w': "watch_run event cb is w = Some w'" "wa_st w' = wa_st w" "wa_loop w'"
    "distinct (wa_chg w')" "set (wa_chg w') = set (noted mark is)"
    by (rule quiet_run [OF assms(1,2)]) (use assms(3) in auto)
  have "mset ord = mset (wa_chg w')" using assms(4,5) w'(4,5) by (metis set_eq_iff_mset_eq_distinct)
  with w' that [of "wa_dirs w'"] show thesis
    by (cases w') (auto simp: watch_run_append watch_timer_def split: option.split)
qed

end


text \<open>The events of \<^verbatim>\<open>WatchDir\<close> that end in a panic, and the file an event says has been written.\<close>

fun WatchDir_crash :: "fs_event \<times> bool option \<Rightarrow> bool" where
  "WatchDir_crash (e, st) \<longleftrightarrow>
     st = None \<and> OpRemove \<in> set (ev_ops e) \<and> (OpCreate \<in> set (ev_ops e) \<or> OpWrite \<in> set (ev_ops e))"

fun WatchDir_mark :: "fs_event \<times> bool option \<Rightarrow> string option" where
  "WatchDir_mark (e, st) = (if OpWrite \<in> set (ev_ops e) \<and> st = Some False then Some (ev_name e) else None)"

interpretation util_loop: watch_loop WatchDir_event WatchDir_crash WatchDir_mark "\<lambda>_. False"
proof (unfold_locales, goal_cases)
  case (1 e w)
  then show ?case by (cases "(e, w)" rule: WatchDir_event.cases) auto
next
  case (2 e w w')
  then show ?case by (cases "(e, w)" rule: WatchDir_event.cases) (auto split: if_splits)
qed

definition start_watch :: "string list \<Rightarrow> 's \<Rightarrow> 's watch" where
  "start_watch ds s = \<lparr>wa_dirs = ds, wa_chg = [], wa_st = s, wa_loop = True\<rparr>"

interpretation cron_loop: watch_loop cron_WatchDir_event "\<lambda>_. False"
  "\<lambda>e. if OpWrite \<in> set (ev_ops e) then Some (ev_name e) else None" "\<lambda>_. False"
  by unfold_locales (auto simp: cron_WatchDir_event_def)

definition watch_ignores :: "string \<Rightarrow> bool" where
  "watch_ignores p \<longleftrightarrow> last p = CHR ''~'' \<or> hd (path_Base p) = CHR ''.''"

interpretation fs_loop: watch_loop Watch_event
  "\<lambda>((p, op), st). p \<noteq> [] \<and> \<not> watch_ignores p \<and> (op = 1 \<or> op = 2) \<and> st = None"
  "\<lambda>((p, op), st). if p \<noteq> [] \<and> \<not> watch_ignores p \<and> (op = 1 \<or> op = 2) \<and> st = Some False then Some p else None"
  "\<lambda>((p, op), st). p = []"
proof (unfold_locales, goal_cases)
  case (1 e w)
  then show ?case by (cases "(e, w)" rule: Watch_event.cases) (auto simp: watch_ignores_def split: option.split bool.split)
next
  case (2 e w w')
  then show ?case
    by (cases "(e, w)" rule: Watch_event.cases) (auto simp: watch_ignores_def split: option.splits bool.splits if_splits)
qed

end
