(* ===== verification/Watch_Sync.thy ===== *)
theory Watch_Sync
  imports Dir_Watch Scp_Command
begin

text \<open>
  \<^verbatim>\<open>fkme scp -daemon\<close>: the loop of \<^verbatim>\<open>util.WatchDir\<close> with the callback of \<^verbatim>\<open>scp/scp.go\<close> keeps the remote
  directory up to date, batch by batch; and \<^verbatim>\<open>fkme watch\<close>, whose own loop breaks where that one holds.
\<close>

text \<open>The callback; the surroundings it finds are the local files when the timer fires.\<close>

definition scp_watch :: "'l store_ops \<Rightarrow> 'r store_ops \<Rightarrow> nat \<Rightarrow> string \<Rightarrow> 'l \<Rightarrow> string \<Rightarrow> 'r \<Rightarrow> 'r option" where
  "scp_watch lo ro plen rd l f r =
     (case watch_change lo l ro plen rd f r of (Panicked, _) \<Rightarrow> None | (_, r') \<Rightarrow> Some r')"

text \<open>A changed file that the callback does upload, and where to.\<close>

definition watched_file :: "string \<Rightarrow> string \<Rightarrow> string \<Rightarrow> bool" where
  "watched_file d rd f \<longleftrightarrow>
     HasPrefix f d \<and> path_Base f \<noteq> ''__pycache__'' \<and> \<not> HasSuffix f ''~'' \<and> CHR 0x5C \<notin> set (rd @ drop (length d) f) \<and>
     \<not> go_Contains (rd @ drop (length d) f) ''/.git/'' \<and> \<not> go_Contains (rd @ drop (length d) f) ''/.idea/''"

definition upload_works :: "'r store_ops \<Rightarrow> string set \<Rightarrow> bool" where
  "upload_works ro P \<longleftrightarrow> (\<forall>p\<in>P. \<forall>r. \<exists>r1. fo_create ro r p = Some r1 \<and> (\<forall>b. fst (fo_write ro r1 p b)))"

lemma ReplaceAll_none: "c \<notin> set s \<Longrightarrow> ReplaceAll s [c] new = s"
  by (simp add: ReplaceAll_def go_Split_field)

lemma Upload_works:
  assumes "upload_works ro P" "p \<in> P" "fo_open lo l f = Some (b, True)"
  shows "fst (Upload lo l ro f p r)"
proof -
  obtain r1 where r1: "fo_create ro (make_parent ro p r) p = Some r1" "fst (fo_write ro r1 p b)"
    using assms(1,2) unfolding upload_works_def by blast
  then show ?thesis using assms(3) by (cases "fo_write ro r1 p b") (simp add: Upload_def)
qed

lemma scp_watch_uploads:
  assumes "watched_file d rd f" "upload_works ro P" "rd @ drop (length d) f \<in> P" "fo_open lo l f = Some (b, True)"
  shows "scp_watch lo ro (length d) rd l f r = Some (snd (Upload lo l ro f (rd @ drop (length d) f) r))"
proof -
  have f: "length d \<le> length f" using assms(1) by (auto simp: watched_file_def HasPrefix_append)
  obtain r' where "Upload lo l ro f (rd @ drop (length d) f) r = (True, r')"
    using Upload_works [OF assms(2-4), of r] by (cases "Upload lo l ro f (rd @ drop (length d) f) r") simp
  with assms(1) f show ?thesis
    by (simp add: scp_watch_def watch_change_def watched_file_def ReplaceAll_none Let_def)
qed

lemma callbacks_sync:
  assumes laws: "store_laws ro P" "upload_works ro P"
    and fs: "\<forall>f\<in>set fs. watched_file d rd f \<and> rd @ drop (length d) f \<in> P \<and> fo_open lo l f = Some (c f, True)"
    and "distinct fs"
  shows "\<exists>r'. run_callbacks (scp_watch lo ro (length d) rd l) fs r = Some r' \<and>
    (\<forall>f\<in>set fs. file_at ro r' (rd @ drop (length d) f) (c f)) \<and>
    (\<forall>q\<in>P - (\<lambda>f. rd @ drop (length d) f) ` set fs. same_at ro q r r')"
  using fs assms(4)
proof (induction fs arbitrary: r)
  case (Cons f fs)
  define q where "q = rd @ drop (length d) f"
  define r1 where "r1 = snd (Upload lo l ro f q r)"
  from Cons.prems have f: "watched_file d rd f" "q \<in> P" "fo_open lo l f = Some (c f, True)" by (auto simp: q_def)
  have step: "scp_watch lo ro (length d) rd l f r = Some r1"
    using scp_watch_uploads [OF f(1) laws(2) f(2) [unfolded q_def] f(3)] by (simp add: r1_def q_def)
  have sent: "file_at ro r1 q (c f)"
  proof -
    have "Upload lo l ro f q r = (True, r1)"
      using Upload_works [OF laws(2) f(2,3), of r] by (cases "Upload lo l ro f q r") (simp add: r1_def)
    from Upload_sent [OF laws(1) f(2) this] f(3) show ?thesis by auto
  qed
  from Cons obtain r' where r': "run_callbacks (scp_watch lo ro (length d) rd l) fs r1 = Some r'"
      "\<forall>g\<in>set fs. file_at ro r' (rd @ drop (length d) g) (c g)"
      "\<forall>p\<in>P - (\<lambda>f. rd @ drop (length d) f) ` set fs. same_at ro p r1 r'" by fastforce
  have name: "rd @ drop (length d) g \<noteq> q" if "g \<in> set fs" for g
  proof
    assume "rd @ drop (length d) g = q"
    then have "drop (length d) g = drop (length d) f" by (simp add: q_def)
    moreover have "HasPrefix g d" "HasPrefix f d" using Cons.prems that by (auto simp: watched_file_def)
    ultimately have "g = f" by (auto simp: HasPrefix_append)
    with Cons.prems(2) that show False by simp
  qed
  then have "q \<in> P - (\<lambda>f. rd @ drop (length d) f) ` set fs" using f(2) by auto
  with r'(3) have "same_at ro q r1 r'" by blast
  with sent have "file_at ro r' q (c f)" by (simp add: file_at_def same_at_def)
  moreover have "same_at ro p r r'" if "p \<in> P" "p \<noteq> q" "p \<notin> (\<lambda>f. rd @ drop (length d) f) ` set fs" for p
    using same_at_trans [OF Upload_same [OF laws(1) f(2) that(1,2), of r lo l f]] r'(3) that by (auto simp: r1_def)
  ultimately show ?case using step r' by (auto simp: q_def)
qed simp

text \<open>C34: \<^verbatim>\<open>fkme scp -daemon\<close> keeps the remote directory up to date: whatever the order of the events that
  report written files, however often each is reported, when the timer fires next every one of them is
  at its place in the remote directory with the contents it has then, no other file has changed there,
  and the loop is where it started; provided that the uploads work, that the files can be read and that none
  has a name that is passed over.\<close>

theorem watch_batch_syncs:
  fixes es :: "(fs_event \<times> bool option, 'l) loop_in list"
  assumes laws: "store_laws ro P" "upload_works ro P"
    and quiet: "list_all is_quiet es" "\<forall>e. InEvent e \<in> set es \<longrightarrow> \<not> WatchDir_crash e"
    and files: "fs = noted WatchDir_mark es"
      "\<forall>f\<in>set fs. watched_file d rd f \<and> rd @ drop (length d) f \<in> P \<and> fo_open lo l f = Some (c f, True)"
    and ord: "distinct ord" "set ord = set fs"
  shows "\<exists>ds' r'. watch_run WatchDir_event (scp_watch lo ro (length d) rd) (es @ [InTimer l ord]) (start_watch ds r) =
      Some (start_watch ds' r') \<and>
    (\<forall>f\<in>set fs. file_at ro r' (rd @ drop (length d) f) (c f)) \<and>
    (\<forall>q\<in>P - (\<lambda>f. rd @ drop (length d) f) ` set fs. same_at ro q r r')"
proof -
  have fine: "list_all util_loop.fine es"
    using quiet by (auto simp: list_all_iff util_loop.fine_def split: loop_in.split)
  obtain ds' where run: "watch_run WatchDir_event (scp_watch lo ro (length d) rd) (es @ [InTimer l ord]) (start_watch ds r) =
      map_option (\<lambda>s. start_watch ds' s) (run_callbacks (scp_watch lo ro (length d) rd l) ord r)"
    by (rule util_loop.batch_run [OF fine, of "start_watch ds r" ord "scp_watch lo ro (length d) rd" l])
      (use ord files(1) in \<open>auto simp: start_watch_def\<close>)
  from callbacks_sync [OF laws, of ord d rd lo l c r] files(2) ord show ?thesis
    unfolding run by (auto simp: ord(2))
qed

definition sample_events :: "(fs_event \<times> bool option, string \<rightharpoonup> bytes option) loop_in list" where
  "sample_events =
     [InEvent (\<lparr>ev_name = ''/w/s/b'', ev_ops = [OpCreate, OpWrite]\<rparr>, Some False), InError,
      InEvent (\<lparr>ev_name = ''/w/a'', ev_ops = [OpWrite]\<rparr>, Some False),
      InEvent (\<lparr>ev_name = ''/w/s'', ev_ops = [OpWrite]\<rparr>, Some True),
      InEvent (\<lparr>ev_name = ''/w/s/b'', ev_ops = [OpWrite]\<rparr>, Some False)]"

theorem watch_batch_syncs_witness:
  "\<exists>ds' r'. watch_run WatchDir_event (scp_watch path_store path_store (length ''/w'') ''/r'')
       (sample_events @ [InTimer sample_files [''/w/a'', ''/w/s/b'']])
       (start_watch [''/w''] [''/r/a'' \<mapsto> Some [7], ''/z'' \<mapsto> Some [5]]) = Some (start_watch ds' r') \<and>
     file_at path_store r' ''/r/a'' [1, 2] \<and> file_at path_store r' ''/r/s/b'' [3] \<and>
     same_at path_store ''/z'' [''/r/a'' \<mapsto> Some [7], ''/z'' \<mapsto> Some [5]] r'"
proof -
  have works: "upload_works path_store {''/r/a'', ''/r/s/b'', ''/z''}"
    by (simp add: upload_works_def path_store_def)
  have fs: "[''/w/s/b'', ''/w/a'', ''/w/s/b''] = noted WatchDir_mark sample_events"
    by (simp add: sample_events_def)
  have quiet: "list_all is_quiet sample_events" "\<forall>e. InEvent e \<in> set sample_events \<longrightarrow> \<not> WatchDir_crash e"
    by (auto simp: sample_events_def)
  have w: "watched_file ''/w'' ''/r'' ''/w/s/b''" "watched_file ''/w'' ''/r'' ''/w/a''" by code_simp+
  have files: "\<forall>f\<in>set [''/w/s/b'', ''/w/a'', ''/w/s/b'']. watched_file ''/w'' ''/r'' f \<and>
      ''/r'' @ drop (length ''/w'') f \<in> {''/r/a'', ''/r/s/b'', ''/z''} \<and>
      fo_open path_store sample_files f = Some ((if f = ''/w/a'' then [1, 2] else [3]), True)"
    using w by (simp add: path_store_def sample_files_def)
  from watch_batch_syncs [OF path_store_laws works quiet fs files, of "[''/w/a'', ''/w/s/b'']" "[''/w'']"
      "[''/r/a'' \<mapsto> Some [7], ''/z'' \<mapsto> Some [5]]"]
  show ?thesis by auto
qed

section \<open>Where the loops fail\<close>

text \<open>A write and a removal of one file reported in one event: the process ends in a nil dereference.\<close>

lemma WatchDir_panics:
  "watch_run WatchDir_event cb (InEvent (\<lparr>ev_name = f, ev_ops = [OpWrite, OpRemove]\<rparr>, None) # is) (start_watch ds s) = None"
  by (simp add: start_watch_def)

text \<open>\<^verbatim>\<open>fkme watch\<close>: a file that is created and gone before the event is looked at ends it likewise.\<close>

lemma Watch_panics:
  assumes "f \<noteq> []" "\<not> watch_ignores f" "Some False = st"
  shows "FSWatcher_Run \<lparr>ev_name = f, ev_ops = [OpCreate]\<rparr> st st2 ds = (ds, [(f, 1)]) \<and>
    watch_run Watch_event cb [InEvent ((f, 1), None)] (start_watch ds' s) = None"
  using assms by (auto simp: FSWatcher_Run_def start_watch_def watch_ignores_def)

text \<open>And \<^verbatim>\<open>quit\<close> never ends it: the watcher is closed by sending on a channel that nothing has made.\<close>

lemma Watch_quit_blocks: "FSWatcher_Done (newFSWatcher basedir ignore_files ignore_dirs) = BlocksForever"
  by (simp add: FSWatcher_Done_def newFSWatcher_def)

text \<open>The events have absolute paths, and the length of the path as it was given is cut off: watching a
  relative path puts every file at the wrong place.\<close>

lemma Watch_relative: "Watch_remote (length ''src'') ''/r'' ''/home/u/src/a.go'' = Some ''/rme/u/src/a.go''"
  by code_simp

text \<open>\<^verbatim>\<open>FSWatcher\<close> ignores a directory for its prefix, not for its name.\<close>

lemma FSWatcher_prefix: "IsIgnoreDir (newFSWatcher ''/w'' [''~''] [''.idea'']) ''/w/.idea-notes''"
  by code_simp

section \<open>The command \<^verbatim>\<open>fkme watch\<close>\<close>

record watch_args =
  wg_path :: string
  wg_key_file :: string
  wg_passcode :: string
  wg_port :: int
  wg_dst :: string

datatype watch_plan =
    WatchUsage
  | WatchBadDst
  | WatchNoPath
  | WatchConnect string int string string string

text \<open>After the flags: the host, the port, the user, the password or key file, and the remote directory.\<close>

definition Watch :: "(string \<Rightarrow> bool) \<Rightarrow> watch_args \<Rightarrow> watch_plan" where
  "Watch exist a =
     (if wg_path a = [] \<or> wg_dst a = [] then WatchUsage
      else case ssh_str_parse (wg_dst a) of
             None \<Rightarrow> WatchBadDst
           | Some (user, pass, host, rpath) \<Rightarrow>
               if \<not> exist (wg_path a) then WatchNoPath
               else let pass1 = (if pass = [] then wg_key_file a else pass);
                        pass2 = (if pass1 = [] then wg_passcode a else pass1)
                    in WatchConnect host (wg_port a) user pass2 rpath)"

text \<open>
  The lines of the standard input: whether the loop has ended, at \<^verbatim>\<open>quit\<close> or with the input. What follows is
  the deferred \<^verbatim>\<open>f.Done()\<close>, which comes before the connection is closed.
\<close>

fun watch_input :: "string list \<Rightarrow> bool \<Rightarrow> bool" where
  "watch_input [] eof = eof"
| "watch_input (l # ls) eof = (if TrimSpace l = ''quit'' then True else watch_input ls eof)"

text \<open>
  So \<^verbatim>\<open>fkme watch\<close> never ends by itself: once its input says so it waits for ever for a watcher that does not
  listen.
\<close>

lemma watch_never_ends:
  "watch_input ls eof \<Longrightarrow> FSWatcher_Done (newFSWatcher (wg_path a) [''~''] [''.idea'']) = BlocksForever"
  by (rule Watch_quit_blocks)

lemma Watch_destination:
  assumes "target_ok (u, p, h, d)" "exist w" "w \<noteq> []"
  shows "Watch exist \<lparr>wg_path = w, wg_key_file = k, wg_passcode = c, wg_port = n, wg_dst = print_target (u, p, h, d)\<rparr> =
    WatchConnect h n u (if p = [] then (if k = [] then c else k) else p) d"
proof -
  have "print_target (u, p, h, d) \<noteq> []"
    using ssh_str_parse_print [OF assms(1)] by (auto simp: print_target_def)
  then show ?thesis
    using ssh_str_parse_print [OF assms(1)] assms(2,3) by (simp add: Watch_def Let_def)
qed

end
