(* ===== verification/Cron.thy ===== *)
theory Cron
  imports Dir_Watch
begin

text \<open>
  The process manager \<^verbatim>\<open>fkme cron\<close> (\<^verbatim>\<open>cron/cron.go\<close>): what it unpacks at the start, which processes it
  keeps running and when, the environment it gives them, and the directory whose files start a process
  once. The JSON library, the file system and \<^verbatim>\<open>exec.LookPath\<close> are arguments.
\<close>

section \<open>The configuration\<close>

record app =
  ap_Name :: string
  ap_Cwd :: string
  ap_Cmd :: "string list"
  ap_Env :: "string \<rightharpoonup> string"
  ap_Cron :: string
  ap_CheckExists :: string

record init_conf =
  it_Dst :: string
  it_Src :: string
  it_App :: "app option"

record cron_conf =
  cc_LogDir :: string
  cc_Home :: string
  cc_OnceDir :: string
  cc_InitTgz :: "init_conf option"
  cc_Apps :: "app list"

text \<open>Reading a JSON file: it may not be there, not be readable, or not be what is expected.\<close>

datatype 'a loaded = NotThere | NotRead | NotParsed | Loaded 'a

definition load_json :: "(string \<Rightarrow> 'a option) \<Rightarrow> bool \<Rightarrow> string option \<Rightarrow> 'a loaded" where
  "load_json parse missing content =
     (if missing then NotThere
      else case content of
             None \<Rightarrow> NotRead
           | Some s \<Rightarrow> (case parse s of None \<Rightarrow> NotParsed | Some x \<Rightarrow> Loaded x))"

section \<open>The environment of a process\<close>

type_synonym env = "string \<rightharpoonup> string"

text \<open>The entries \<open>key=value\<close> of the own environment; one without a sign is a panic.\<close>

fun environ_map :: "string list \<Rightarrow> env \<Rightarrow> env option" where
  "environ_map [] env = Some env"
| "environ_map (e # es) env =
     (case go_Index e ''='' of
        None \<Rightarrow> None
      | Some i \<Rightarrow> environ_map es (env(take i e \<mapsto> drop (Suc i) e)))"

definition is_search_path :: "string \<Rightarrow> bool" where
  "is_search_path k \<longleftrightarrow> k = ''PATH'' \<or> k = ''LD_LIBRARY_PATH''"

text \<open>A key that is not in a Go map reads as the empty string.\<close>

definition map_read :: "env \<Rightarrow> string \<Rightarrow> string" where
  "map_read env k = (case env k of None \<Rightarrow> [] | Some v \<Rightarrow> v)"

definition merge_env :: "string \<times> string \<Rightarrow> env \<Rightarrow> env" where
  "merge_env kv env =
     (case kv of (k, v) \<Rightarrow> env(k \<mapsto> (if is_search_path k then v @ '':'' @ map_read env k else v)))"

definition base_env :: "string \<Rightarrow> env \<Rightarrow> env" where
  "base_env home env = (if home \<noteq> [] then env(''HOME'' \<mapsto> home) else env)(''TERM'' \<mapsto> ''xterm'')"

text \<open>\<open>order\<close> is the order in which Go iterates over the environment of the configuration.\<close>

definition startApp_env :: "string list \<Rightarrow> string \<Rightarrow> (string \<times> string) list \<Rightarrow> env option" where
  "startApp_env environ home order = map_option (\<lambda>env. fold merge_env order (base_env home env)) (environ_map environ Map.empty)"

text \<open>\<^verbatim>\<open>startApp\<close>: no command is a panic; the two log files are opened first; it ends with the process.\<close>

datatype app_end = AppPanic | AppNoLog | AppNotStarted | AppExited

definition startApp :: "(string \<Rightarrow> bool) \<Rightarrow> (string list \<Rightarrow> env \<Rightarrow> bool) \<Rightarrow> string list \<Rightarrow> app \<Rightarrow> string \<Rightarrow> string \<Rightarrow>
    (string \<times> string) list \<Rightarrow> app_end" where
  "startApp can_open can_start environ a logdir home order =
     (case ap_Cmd a of
        [] \<Rightarrow> AppPanic
      | _ \<Rightarrow>
          (case startApp_env environ home order of
             None \<Rightarrow> AppPanic
           | Some env \<Rightarrow>
               if \<not> can_open (logdir @ ''/'' @ ap_Name a @ ''-0.log'') then AppNoLog
               else if \<not> can_open (logdir @ ''/'' @ ap_Name a @ ''-1.log'') then AppNoLog
               else if \<not> can_start (ap_Cmd a) env then AppNotStarted else AppExited))"

text \<open>\<^verbatim>\<open>checkEnv\<close>: a line without a sign is skipped, the empty one at the end of the file among them, before
  the end is looked for. The lines that \<^verbatim>\<open>ReadLine\<close> returns, then nothing with an error, for ever; \<open>None\<close>:
  the loop is still running after so many turns.\<close>

fun checkEnv_loop :: "nat \<Rightarrow> string list \<Rightarrow> env \<Rightarrow> env option" where
  "checkEnv_loop 0 ls env = None"
| "checkEnv_loop (Suc n) ls env =
     (let (line, eof) = (case ls of [] \<Rightarrow> ([], True) | l # _ \<Rightarrow> (l, False))
      in case go_SplitN 2 line ''='' of
           [k, v] \<Rightarrow>
             (let env' = env(k \<mapsto> (if k = ''PATH'' then v @ '':'' @ map_read env k else v))
              in if eof then Some env' else checkEnv_loop n (tl ls) env')
         | _ \<Rightarrow> checkEnv_loop n (tl ls) env)"

text \<open>The path is formatted without its argument.\<close>

definition checkEnv_path :: string where
  "checkEnv_path = ''%!s(MISSING)/.app/env.txt''"

section \<open>The archive unpacked at the start\<close>

datatype tgz_source = NoSource | FromUrl string | FromFile string

definition init_source :: "string \<Rightarrow> string \<Rightarrow> tgz_source" where
  "init_source base_dir src =
     (if src = [] then NoSource
      else let s = (if HasPrefix src ''~'' then base_dir @ tl src else src)
        in if HasPrefix s ''http://'' then FromUrl s else FromFile s)"

text \<open>What is done, in order; the operations may fail, and then nothing more is done.\<close>

datatype init_action = DownTgz string string | UnpackFile string string | StartInit app

definition init_tgz :: "(string \<Rightarrow> bool) \<Rightarrow> (string \<Rightarrow> bool) \<Rightarrow> string \<Rightarrow> init_conf \<Rightarrow> bool \<times> init_action list" where
  "init_tgz down_ok unpack_ok base_dir t =
     (let start = (case it_App t of None \<Rightarrow> [] | Some a \<Rightarrow> [StartInit a])
      in case init_source base_dir (it_Src t) of
           NoSource \<Rightarrow> (True, start)
         | FromUrl u \<Rightarrow> if down_ok u then (True, DownTgz u (it_Dst t) # start) else (False, [DownTgz u (it_Dst t)])
         | FromFile p \<Rightarrow> if unpack_ok p then (True, UnpackFile p (it_Dst t) # start) else (False, [UnpackFile p (it_Dst t)]))"

text \<open>The directory a leading \<open>~\<close> stands for: that of the configuration file, or the server it came from.\<close>

definition cron_base_dir :: "string \<Rightarrow> string" where
  "cron_base_dir conf_file =
     (if HasPrefix conf_file ''http://'' then ''http://'' @ go_Split conf_file Slash ! 2 else path_Dir conf_file)"

section \<open>What runs\<close>

definition checkExeExists :: "(string \<Rightarrow> bool) \<Rightarrow> string \<Rightarrow> bool" where
  "checkExeExists look_path exefile = (if \<not> go_Contains exefile Slash then look_path exefile else True)"

datatype job = Daemon app | Scheduled app | Ignored app

text \<open>An entry of the configuration; one to be kept running that has no command is a panic.\<close>

definition job_of :: "(string \<Rightarrow> bool) \<Rightarrow> app \<Rightarrow> job option" where
  "job_of look_path a =
     (if ap_Cron a \<noteq> [] then Some (Scheduled a)
      else case ap_Cmd a of
             [] \<Rightarrow> None
           | exe # _ \<Rightarrow>
               if \<not> checkExeExists look_path exe then Some (Ignored a)
               else if ap_CheckExists a \<noteq> [] \<and> \<not> checkExeExists look_path (ap_CheckExists a) then Some (Ignored a)
               else Some (Daemon a))"

fun cron_jobs :: "(string \<Rightarrow> bool) \<Rightarrow> app list \<Rightarrow> job list option" where
  "cron_jobs look_path [] = Some []"
| "cron_jobs look_path (a # as) =
     (case job_of look_path a of
        None \<Rightarrow> None
      | Some j \<Rightarrow> map_option (\<lambda>js. j # js) (cron_jobs look_path as))"

datatype cron_run = ConfigFailed | RunPanic "init_action list" | Running "init_action list" "job list" bool

text \<open>\<^verbatim>\<open>Run\<close> up to the loop over the directory: the initial actions, whose failure is ignored, the jobs,
  and whether the scheduler is started. The error of a configuration that was downloaded is kept in a
  variable of the branch; the check after it looks at the outer one, and the configuration is nil.\<close>

definition cron_Run :: "(string \<Rightarrow> bool) \<Rightarrow> (string \<Rightarrow> bool) \<Rightarrow> (string \<Rightarrow> bool) \<Rightarrow> string \<Rightarrow> cron_conf loaded \<Rightarrow> cron_run" where
  "cron_Run down_ok unpack_ok look_path conf_file conf =
     (case conf of
        Loaded c \<Rightarrow>
          (let init = (case cc_InitTgz c of None \<Rightarrow> [] | Some t \<Rightarrow> snd (init_tgz down_ok unpack_ok (cron_base_dir conf_file) t))
           in case cron_jobs look_path (cc_Apps c) of
                None \<Rightarrow> RunPanic init
              | Some js \<Rightarrow> Running init js (list_ex (\<lambda>j. case j of Scheduled _ \<Rightarrow> True | _ \<Rightarrow> False) js))
      | _ \<Rightarrow> if HasPrefix conf_file ''http://'' then RunPanic [] else ConfigFailed)"

section \<open>Files that start a process once\<close>

text \<open>The files by their paths, and the processes started. A process without a command ends the process
  manager, in the goroutine that starts it; here it ends the batch.\<close>

record once =
  on_files :: "string \<rightharpoonup> string"
  on_started :: "app list"

definition once_callback :: "(string \<Rightarrow> app option) \<Rightarrow> (string \<Rightarrow> bool) \<Rightarrow> string \<Rightarrow> once \<Rightarrow> once option" where
  "once_callback parse can_remove fpath s =
     (case load_json parse (on_files s fpath = None) (on_files s fpath) of
        Loaded a \<Rightarrow>
          if ap_Cmd a = [] then None
          else Some (s\<lparr>on_files := (if can_remove fpath then (on_files s)(fpath := None) else on_files s),
                       on_started := on_started s @ [a]\<rparr>)
      | _ \<Rightarrow> Some s)"

section \<open>What it guarantees\<close>

lemma merge_env_simps:
  "merge_env (k, v) env k' =
     (if k' = k then Some (if is_search_path k then v @ '':'' @ map_read env k else v) else env k')"
  by (simp add: merge_env_def)

lemma fold_merge_env:
  "distinct (map fst order) \<Longrightarrow>
   fold merge_env order env k =
     (case map_of order k of
        None \<Rightarrow> env k
      | Some v \<Rightarrow> Some (if is_search_path k then v @ '':'' @ map_read env k else v))"
proof (induction order arbitrary: env)
  case (Cons kv order)
  obtain k0 v0 where kv: "kv = (k0, v0)" by (cases kv)
  have "map_of order k0 = None" using Cons.prems kv by (simp add: map_of_eq_None_iff)
  with Cons kv show ?case
    by (auto simp: merge_env_simps map_read_def split: option.split)
qed simp

text \<open>The environment of a process does not depend on the order in which Go goes through the map of the
  configuration: a key of the configuration has the value given there, before the inherited one for the
  two search paths; any other key has its inherited value, except for the home directory, when one is
  configured, and the terminal.\<close>

theorem startApp_env_exact:
  assumes "environ_map environ Map.empty = Some inherited" "distinct (map fst order)"
  shows "\<exists>env. startApp_env environ home order = Some env \<and>
    (\<forall>k. env k =
      (case map_of order k of
         Some v \<Rightarrow> Some (if is_search_path k then v @ '':'' @ map_read inherited k else v)
       | None \<Rightarrow> if k = ''TERM'' then Some ''xterm'' else if k = ''HOME'' \<and> home \<noteq> [] then Some home else inherited k))"
proof -
  have base: "map_read (base_env home inherited) k = map_read inherited k" if "is_search_path k" for k
    using that by (auto simp: is_search_path_def base_env_def map_read_def)
  have plain: "base_env home inherited k =
      (if k = ''TERM'' then Some ''xterm'' else if k = ''HOME'' \<and> home \<noteq> [] then Some home else inherited k)" for k
    by (simp add: base_env_def)
  show ?thesis
    unfolding startApp_env_def assms(1) option.map fold_merge_env [OF assms(2)] plain [symmetric]
    by (intro exI conjI refl allI) (auto simp: fold_merge_env [OF assms(2)] base split: option.split)
qed

theorem startApp_env_exact_witness:
  "\<exists>env. startApp_env [''PATH=/bin'', ''HOME=/root'', ''A=b=c''] ''/data'' [(''PATH'', ''/x''), (''B'', [])] = Some env \<and>
     env ''PATH'' = Some ''/x:/bin'' \<and> env ''HOME'' = Some ''/data'' \<and> env ''A'' = Some ''b=c'' \<and> env ''B'' = Some []"
proof -
  have e: "environ_map [''PATH=/bin'', ''HOME=/root'', ''A=b=c''] Map.empty =
      Some [''PATH'' \<mapsto> ''/bin'', ''HOME'' \<mapsto> ''/root'', ''A'' \<mapsto> ''b=c'']"
    by (simp add: HasPrefix_def)
  have d: "distinct (map fst [(''PATH'', ''/x''), (''B'', [])])" by simp
  from startApp_env_exact [OF e d, of "''/data''"] show ?thesis
    by (fastforce simp: is_search_path_def map_read_def)
qed

text \<open>A search path that was not set gets an empty entry, which stands for the current directory.\<close>

lemma empty_search_path:
  "map_option (\<lambda>env. env ''LD_LIBRARY_PATH'') (startApp_env [] [] [(''LD_LIBRARY_PATH'', ''/lib'')]) = Some (Some ''/lib:'')"
  by (simp add: startApp_env_def merge_env_def is_search_path_def base_env_def map_read_def)

text \<open>\<^verbatim>\<open>checkEnv\<close> never returns, whatever the file holds.\<close>

lemma checkEnv_never_returns: "checkEnv_loop n ls env = None"
proof (induction n arbitrary: ls env)
  case (Suc n)
  have "go_SplitN 2 [] ''='' = [[]]" by code_simp
  with Suc show ?case by (cases ls) (simp_all split: list.split)
qed simp

text \<open>The jobs are the entries of the configuration, in order, each decided by itself.\<close>

lemma cron_jobs_map: "cron_jobs look_path as = Some js \<longleftrightarrow> map (job_of look_path) as = map Some js"
proof (induction as arbitrary: js)
  case (Cons a as)
  then show ?case by (cases js) (auto split: option.split)
qed auto

definition written_app :: "(string \<Rightarrow> app option) \<Rightarrow> once \<Rightarrow> string \<Rightarrow> app option" where
  "written_app parse s f = Option.bind (on_files s f) parse"

lemma once_callback_cases:
  "once_callback parse can_remove f s =
     (case written_app parse s f of
        None \<Rightarrow> Some s
      | Some a \<Rightarrow>
          if ap_Cmd a = [] then None
          else Some (s\<lparr>on_files := (if can_remove f then (on_files s)(f := None) else on_files s),
                       on_started := on_started s @ [a]\<rparr>))"
  by (auto simp: once_callback_def load_json_def written_app_def split: option.split)

lemma once_callbacks:
  assumes "distinct fs" "\<forall>f\<in>set fs. can_remove f \<and> (\<forall>a. written_app parse s f = Some a \<longrightarrow> ap_Cmd a \<noteq> [])"
  shows "run_callbacks (once_callback parse can_remove) fs s =
    Some (s\<lparr>on_files := (\<lambda>f. if f \<in> set fs \<and> written_app parse s f \<noteq> None then None else on_files s f),
            on_started := on_started s @ List.map_filter (written_app parse s) fs\<rparr>)"
  using assms
proof (induction fs arbitrary: s)
  case Nil
  then show ?case by (simp add: map_filter_simps)
next
  case (Cons f fs)
  define s1 where "s1 = (case written_app parse s f of None \<Rightarrow> s
      | Some a \<Rightarrow> s\<lparr>on_files := (on_files s)(f := None), on_started := on_started s @ [a]\<rparr>)"
  have step: "once_callback parse can_remove f s = Some s1"
    using Cons.prems by (auto simp: once_callback_cases s1_def split: option.split)
  have same: "written_app parse s1 g = written_app parse s g" if "g \<in> set fs" for g
    using that Cons.prems(1) by (auto simp: s1_def written_app_def split: option.split)
  have "run_callbacks (once_callback parse can_remove) fs s1 =
    Some (s1\<lparr>on_files := (\<lambda>g. if g \<in> set fs \<and> written_app parse s1 g \<noteq> None then None else on_files s1 g),
             on_started := on_started s1 @ List.map_filter (written_app parse s1) fs\<rparr>)"
    by (rule Cons.IH) (use Cons.prems same in auto)
  also have "List.map_filter (written_app parse s1) fs = List.map_filter (written_app parse s) fs"
    using same by (simp add: List.map_filter_def cong: filter_cong map_cong)
  also have "(\<lambda>g. if g \<in> set fs \<and> written_app parse s1 g \<noteq> None then None else on_files s1 g) =
      (\<lambda>g. if g \<in> set (f # fs) \<and> written_app parse s g \<noteq> None then None else on_files s g)"
    using same Cons.prems(1) by (auto simp: fun_eq_iff s1_def split: option.split)
  finally show ?case
    using step by (simp add: s1_def map_filter_simps split: option.split)
qed

text \<open>C37: the process of a file that is written into the watched directory is handed to \<^verbatim>\<open>startApp\<close> once, however many
  write events the file causes, and the file is removed; a file that does not hold a process yet is left for its
  next event. This happens when the timer fires, in the order in which Go goes through the map. (What \<^verbatim>\<open>startApp\<close>
  then makes of it, in a goroutine of its own, is not in this theorem.)\<close>

theorem once_files_start:
  fixes es :: "(fs_event, unit) loop_in list"
  assumes quiet: "list_all is_quiet es"
    and fs: "fs = noted (\<lambda>e. if OpWrite \<in> set (ev_ops e) then Some (ev_name e) else None) es"
    and ord: "distinct ord" "set ord = set fs"
    and files: "\<forall>f\<in>set fs. can_remove f \<and> (\<forall>a. written_app parse s f = Some a \<longrightarrow> ap_Cmd a \<noteq> [])"
  shows "\<exists>ds'. watch_run cron_WatchDir_event (\<lambda>_. once_callback parse can_remove) (es @ [InTimer () ord]) (start_watch ds s) =
    Some (start_watch ds'
      (s\<lparr>on_files := (\<lambda>f. if f \<in> set fs \<and> written_app parse s f \<noteq> None then None else on_files s f),
         on_started := on_started s @ List.map_filter (written_app parse s) ord\<rparr>))"
proof -
  have fine: "list_all cron_loop.fine es"
    using quiet by (auto simp: list_all_iff cron_loop.fine_def split: loop_in.split)
  obtain ds' where run: "watch_run cron_WatchDir_event (\<lambda>_. once_callback parse can_remove) (es @ [InTimer () ord]) (start_watch ds s) =
      map_option (\<lambda>s. start_watch ds' s) (run_callbacks (once_callback parse can_remove) ord s)"
    by (rule cron_loop.batch_run [OF fine, of "start_watch ds s" ord "\<lambda>_. once_callback parse can_remove" "()"])
      (use ord fs in \<open>auto simp: start_watch_def\<close>)
  show ?thesis
    unfolding run using once_callbacks [of ord can_remove parse s] ord files by auto
qed

text \<open>A file that holds a process without a command, such as an empty object, ends the process manager.\<close>

lemma once_file_crashes:
  assumes "f \<in> set fs" "written_app parse s f = Some a" "ap_Cmd a = []" "distinct fs"
  shows "run_callbacks (once_callback parse can_remove) fs s = None"
  using assms
proof (induction fs arbitrary: s)
  case (Cons g fs)
  show ?case
  proof (cases "once_callback parse can_remove g s")
    case (Some s1)
    with Cons.prems have "g \<noteq> f" by (auto simp: once_callback_cases)
    with Some have "written_app parse s1 f = Some a"
      using Cons.prems(2) by (auto simp: once_callback_cases written_app_def split: option.splits if_splits)
    with Cons Some \<open>g \<noteq> f\<close> show ?thesis by simp
  qed simp
qed simp

definition sample_app :: app where
  "sample_app = \<lparr>ap_Name = ''t'', ap_Cwd = ''/'', ap_Cmd = [''ls''], ap_Env = Map.empty, ap_Cron = [], ap_CheckExists = []\<rparr>"

theorem once_files_start_witness:
  "\<exists>ds'. watch_run cron_WatchDir_event (\<lambda>_. once_callback (\<lambda>s. if s = ''run'' then Some sample_app else None) (\<lambda>_. True))
     ([InEvent \<lparr>ev_name = ''a'', ev_ops = [OpCreate]\<rparr>, InEvent \<lparr>ev_name = ''a'', ev_ops = [OpWrite]\<rparr>,
       InEvent \<lparr>ev_name = ''b'', ev_ops = [OpWrite]\<rparr>, InEvent \<lparr>ev_name = ''a'', ev_ops = [OpWrite]\<rparr>] @
      [InTimer () [''b'', ''a'']])
     (start_watch [''/once''] \<lparr>on_files = [''a'' \<mapsto> ''run'', ''b'' \<mapsto> ''ru''], on_started = []\<rparr>) =
   Some (start_watch ds' \<lparr>on_files = (\<lambda>f. if f = ''b'' then Some ''ru'' else None), on_started = [sample_app]\<rparr>)"
proof -
  define s where "s = \<lparr>on_files = [''a'' \<mapsto> ''run'', ''b'' \<mapsto> ''ru''], on_started = []\<rparr>"
  define es :: "(fs_event, unit) loop_in list" where
    "es = [InEvent \<lparr>ev_name = ''a'', ev_ops = [OpCreate]\<rparr>, InEvent \<lparr>ev_name = ''a'', ev_ops = [OpWrite]\<rparr>,
       InEvent \<lparr>ev_name = ''b'', ev_ops = [OpWrite]\<rparr>, InEvent \<lparr>ev_name = ''a'', ev_ops = [OpWrite]\<rparr>]"
  have w: "written_app (\<lambda>s. if s = ''run'' then Some sample_app else None) s ''a'' = Some sample_app"
    "written_app (\<lambda>s. if s = ''run'' then Some sample_app else None) s ''b'' = None"
    by (simp_all add: written_app_def s_def)
  have "\<exists>ds'. watch_run cron_WatchDir_event (\<lambda>_. once_callback (\<lambda>s. if s = ''run'' then Some sample_app else None) (\<lambda>_. True))
      (es @ [InTimer () [''b'', ''a'']]) (start_watch [''/once''] s) =
    Some (start_watch ds' (s\<lparr>on_files := (\<lambda>f. if f \<in> set [''a'', ''b'', ''a''] \<and>
         written_app (\<lambda>s. if s = ''run'' then Some sample_app else None) s f \<noteq> None then None else on_files s f),
       on_started := on_started s @ List.map_filter (written_app (\<lambda>s. if s = ''run'' then Some sample_app else None) s) [''b'', ''a'']\<rparr>))"
    by (rule once_files_start) (use w in \<open>auto simp: es_def sample_app_def\<close>)
  moreover have "s\<lparr>on_files := (\<lambda>f. if f \<in> set [''a'', ''b'', ''a''] \<and>
         written_app (\<lambda>s. if s = ''run'' then Some sample_app else None) s f \<noteq> None then None else on_files s f),
       on_started := on_started s @ List.map_filter (written_app (\<lambda>s. if s = ''run'' then Some sample_app else None) s) [''b'', ''a'']\<rparr> =
     \<lparr>on_files = (\<lambda>f. if f = ''b'' then Some ''ru'' else None), on_started = [sample_app]\<rparr>"
    using w by (auto simp: s_def map_filter_simps)
  ultimately show ?thesis unfolding s_def es_def by simp
qed

lemma cron_Run_bad_download:
  assumes "HasPrefix conf_file ''http://''" "conf \<in> {NotThere, NotRead, NotParsed}"
  shows "cron_Run down_ok unpack_ok look_path conf_file conf = RunPanic []"
  using assms by (auto simp: cron_Run_def)

end
