(* ===== verification/File_Tran.thy ===== *)
theory File_Tran
  imports Scp_Props
begin

text \<open>
  \<^verbatim>\<open>FileTran\<close> of \<^verbatim>\<open>sftpcli.go\<close>, which copies a file or a directory from the local disk or an SFTP server to
  either: the source is read by \<^verbatim>\<open>fromLocal\<close> or \<^verbatim>\<open>fromRemote\<close> and written by a function they are given,
  \<^verbatim>\<open>toLocal\<close> or \<^verbatim>\<open>toRemote\<close>. Also the transfers of its \<^verbatim>\<open>Cli\<close> that compare times, and the search for
  the newest file.
\<close>

section \<open>Writing at the destination\<close>

text \<open>The bytes come from a file opened before; the flag says whether reading them ends without an error.\<close>

definition toRemote :: "'d store_ops \<Rightarrow> string \<Rightarrow> bytes \<times> bool \<Rightarrow> 'd \<Rightarrow> outcome \<times> 'd" where
  "toRemote ops p src d =
     (let d1 = make_parent ops p d
      in case fo_create ops d1 p of
           None \<Rightarrow> (Exited, d1)
         | Some d2 \<Rightarrow> (case fo_write ops d2 p (fst src) of (ok, d3) \<Rightarrow> (Returned (ok \<and> snd src), d3)))"

definition toLocal :: "'d store_ops \<Rightarrow> string \<Rightarrow> bytes \<times> bool \<Rightarrow> 'd \<Rightarrow> outcome \<times> 'd" where
  "toLocal ops p src d =
     (if go_Contains p Slash \<and> is_plain_file (fo_stat ops d (parent_of p)) then (Returned False, d)
      else let d1 = make_parent ops p d
        in case fo_create ops d1 p of
             None \<Rightarrow> (Exited, d1)
           | Some d2 \<Rightarrow> (case fo_write ops d2 p (fst src) of (ok, d3) \<Rightarrow> (Returned (ok \<and> snd src), d3)))"

text \<open>\<^verbatim>\<open>checkDstPath\<close>; \<open>absent\<close> tells whether a failing \<^verbatim>\<open>Stat\<close> says that there is nothing.\<close>

definition checkDstPath :: "'d store_ops \<Rightarrow> bool \<Rightarrow> 'd \<Rightarrow> string \<Rightarrow> int" where
  "checkDstPath ops absent d p =
     (case fo_stat ops d p of
        Some (True, _) \<Rightarrow> 2
      | Some (False, _) \<Rightarrow> 3
      | None \<Rightarrow> if absent then 1 else - 1)"

text \<open>Where a directory or a file goes.\<close>

definition dir_place :: "int \<Rightarrow> string \<Rightarrow> string \<Rightarrow> string option" where
  "dir_place st src dst = (if st = 1 then Some dst else if st = 2 then Some (path_Join [dst, path_Base src]) else None)"

definition file_place :: "int \<Rightarrow> string \<Rightarrow> string \<Rightarrow> string option" where
  "file_place st src dst =
     (if st = 3 \<or> st = 1 then Some dst else if st = 2 then Some (path_Join [dst, path_Base src]) else None)"

section \<open>Reading at the source\<close>

text \<open>The paths that walking the remote directory gives (true: a directory).\<close>

fun copy_walked ::
  "'s store_ops \<Rightarrow> 's \<Rightarrow> (string \<Rightarrow> bytes \<times> bool \<Rightarrow> 'd \<Rightarrow> outcome \<times> 'd) \<Rightarrow> nat \<Rightarrow> string \<Rightarrow> (string \<times> bool) list \<Rightarrow> 'd \<Rightarrow> outcome \<times> 'd" where
  "copy_walked so s put plen dst [] d = (Returned True, d)"
| "copy_walked so s put plen dst ((path, dir) # ps) d =
     (if length path < plen then (Panicked, d)
      else if dir then copy_walked so s put plen dst ps d
      else case fo_open so s path of
             None \<Rightarrow> (Exited, d)
           | Some src \<Rightarrow>
               (case put (path_Join [dst, drop plen path]) src d of
                  (Returned True, d') \<Rightarrow> copy_walked so s put plen dst ps d'
                | x \<Rightarrow> x))"

text \<open>\<^verbatim>\<open>fromRemote\<close> after the connection. A source that is not there is no error.\<close>

definition fromRemote ::
  "'s store_ops \<Rightarrow> 's \<Rightarrow> (string \<times> bool) list \<Rightarrow> string \<Rightarrow> 'd store_ops \<Rightarrow> ('d store_ops \<Rightarrow> string \<Rightarrow> bytes \<times> bool \<Rightarrow> 'd \<Rightarrow> outcome \<times> 'd) \<Rightarrow>
   bool \<Rightarrow> string \<Rightarrow> 'd \<Rightarrow> outcome \<times> 'd" where
  "fromRemote so s walked src ops put absent dst d =
     (case fo_stat so s src of
        None \<Rightarrow> (Returned True, d)
      | Some (True, _) \<Rightarrow>
          (case dir_place (checkDstPath ops absent d dst) src dst of
             None \<Rightarrow> (Returned False, d)
           | Some dst' \<Rightarrow> copy_walked so s (put ops) (length src) dst' walked d)
      | Some (False, _) \<Rightarrow>
          (case file_place (checkDstPath ops absent d dst) src dst of
             None \<Rightarrow> (Returned False, d)
           | Some dst' \<Rightarrow>
               (case fo_open so s src of
                  None \<Rightarrow> (Exited, d)
                | Some b \<Rightarrow> put ops dst' b d)))"

text \<open>The callback of \<^verbatim>\<open>fromLocal\<close>; the state keeps how the process ended, when it did.\<close>

definition copy_visit ::
  "'s store_ops \<Rightarrow> 's \<Rightarrow> (string \<Rightarrow> bytes \<times> bool \<Rightarrow> 'd \<Rightarrow> outcome \<times> 'd) \<Rightarrow> nat \<Rightarrow> string \<Rightarrow> (bool \<times> 'd) walk_fn" where
  "copy_visit so s put plen dst path dir xd =
     (if length path < plen then (WPanic, xd)
      else if dir then (WOk, xd)
      else case fo_open so s path of
             None \<Rightarrow> (WErr, xd)
           | Some src \<Rightarrow>
               (case put (path_Join [dst, drop plen path]) src (snd xd) of
                  (Returned True, d') \<Rightarrow> (WOk, fst xd, d')
                | (Returned False, d') \<Rightarrow> (WErr, fst xd, d')
                | (_, d') \<Rightarrow> (WErr, True, d')))"

definition fromLocal ::
  "'s store_ops \<Rightarrow> 's \<Rightarrow> ltree \<Rightarrow> string \<Rightarrow> 'd store_ops \<Rightarrow> ('d store_ops \<Rightarrow> string \<Rightarrow> bytes \<times> bool \<Rightarrow> 'd \<Rightarrow> outcome \<times> 'd) \<Rightarrow>
   bool \<Rightarrow> string \<Rightarrow> 'd \<Rightarrow> outcome \<times> 'd" where
  "fromLocal so s tree src ops put absent dst d =
     (case fo_stat so s src of
        None \<Rightarrow> (Returned True, d)
      | Some (True, _) \<Rightarrow>
          (case dir_place (checkDstPath ops absent d dst) src dst of
             None \<Rightarrow> (Returned False, d)
           | Some dst' \<Rightarrow>
               (case Walk (copy_visit so s (put ops) (length src) dst') src tree (False, d) of
                  (WPanic, _, d') \<Rightarrow> (Panicked, d')
                | (_, True, d') \<Rightarrow> (Exited, d')
                | (WErr, False, d') \<Rightarrow> (Returned False, d')
                | (_, False, d') \<Rightarrow> (Returned True, d')))
      | Some (False, _) \<Rightarrow>
          (case file_place (checkDstPath ops absent d dst) src dst of
             None \<Rightarrow> (Returned False, d)
           | Some dst' \<Rightarrow>
               (case fo_open so s src of
                  None \<Rightarrow> (Returned False, d)
                | Some b \<Rightarrow> put ops dst' b d)))"

section \<open>\<^verbatim>\<open>FileTran\<close>\<close>

text \<open>An address \<open>host:port@path\<close>; connecting succeeds or ends the process.\<close>

definition connectRemote :: "string \<Rightarrow> (string \<times> int \<times> string) option" where
  "connectRemote connstr =
     (case go_SplitN 2 connstr ''@'' of
        [addr, path] \<Rightarrow>
          (case go_SplitN 2 addr '':'' of
             [host, port] \<Rightarrow> map_option (\<lambda>p. (host, p, path)) (Atoi port)
           | _ \<Rightarrow> None)
      | _ \<Rightarrow> None)"

definition is_remote :: "string \<Rightarrow> bool" where
  "is_remote s = (case go_Index s ''@'' of Some (Suc _) \<Rightarrow> True | _ \<Rightarrow> False)"

text \<open>Where a side is: on the local disk or on a server.\<close>

type_synonym host = "(string \<times> int) option"

definition endpoint_of :: "string \<Rightarrow> (host \<times> string) option" where
  "endpoint_of s =
     (if is_remote s then map_option (\<lambda>(h, p, path). (Some (h, p), path)) (connectRemote s) else Some (None, s))"

text \<open>The walk of a remote directory lists the tree in the same order as a local one would.\<close>

fun listing :: "string \<Rightarrow> ltree \<Rightarrow> (string \<times> bool) list"
  and listing_entries :: "string \<Rightarrow> (string \<times> ltree) list \<Rightarrow> (string \<times> bool) list" where
  "listing p LFile = [(p, False)]"
| "listing p (LDir None) = [(p, True)]"
| "listing p (LDir (Some es)) = (p, True) # listing_entries p es"
| "listing_entries p [] = []"
| "listing_entries p ((n, t) # es) = listing (p @ CHR ''/'' # n) t @ listing_entries p es"

text \<open>
  The transfer between two of the machines of the world \<open>W\<close>, each with its store, its trees and what its
  failing lookups say. The source is not written while it is read.
\<close>

definition transfer_between ::
  "(host \<Rightarrow> 's store_ops) \<Rightarrow> (host \<Rightarrow> string \<Rightarrow> ltree) \<Rightarrow> (host \<Rightarrow> string \<Rightarrow> bool) \<Rightarrow> host \<times> string \<Rightarrow> host \<times> string \<Rightarrow>
   (host \<Rightarrow> 's) \<Rightarrow> outcome \<times> (host \<Rightarrow> 's)" where
  "transfer_between ops tree absent s t W =
     (case (s, t) of ((hs, src), (ht, dst)) \<Rightarrow>
        let put = (if ht = None then toLocal else toRemote);
            r = (if hs = None
                 then fromLocal (ops hs) (W hs) (tree hs src) src (ops ht) put (absent ht dst) dst (W ht)
                 else fromRemote (ops hs) (W hs) (listing src (tree hs src)) src (ops ht) put (absent ht dst) dst (W ht))
        in (fst r, W(ht := snd r)))"

text \<open>
  In two of the four cases the error of the transfer is assigned to a variable of the block, and the
  function returns the outer one, which is nil.
\<close>

definition drop_result :: "outcome \<times> 'd \<Rightarrow> outcome \<times> 'd" where
  "drop_result r = (case r of (Returned _, d) \<Rightarrow> (Returned True, d) | x \<Rightarrow> x)"

definition FileTran ::
  "(host \<Rightarrow> 's store_ops) \<Rightarrow> (host \<Rightarrow> string \<Rightarrow> ltree) \<Rightarrow> (host \<Rightarrow> string \<Rightarrow> bool) \<Rightarrow> string \<Rightarrow> string \<Rightarrow>
   (host \<Rightarrow> 's) \<Rightarrow> outcome \<times> (host \<Rightarrow> 's)" where
  "FileTran ops tree absent src dst W =
     (if is_remote dst then
        (case endpoint_of dst of
           None \<Rightarrow> (Returned False, W)
         | Some t \<Rightarrow>
             (case endpoint_of src of
                None \<Rightarrow> (Returned True, W)
              | Some s \<Rightarrow> drop_result (transfer_between ops tree absent s t W)))
      else
        (case endpoint_of src of
           None \<Rightarrow> (Returned False, W)
         | Some s \<Rightarrow> transfer_between ops tree absent s (None, dst) W))"

section \<open>What a destination promises\<close>

text \<open>The contract of the function that writes at the destination: a file it has written without an error is
  there, whole, and the other files are as they were.\<close>

locale copy_target =
  fixes put :: "'d store_ops \<Rightarrow> string \<Rightarrow> bytes \<times> bool \<Rightarrow> 'd \<Rightarrow> outcome \<times> 'd"
  assumes put_sent: "store_laws ops P \<Longrightarrow> p \<in> P \<Longrightarrow> put ops p (b, whole) d = (Returned True, d') \<Longrightarrow> whole \<and> file_at ops d' p b"
    and put_same: "store_laws ops P \<Longrightarrow> p \<in> P \<Longrightarrow> q \<in> P \<Longrightarrow> q \<noteq> p \<Longrightarrow> same_at ops q d (snd (put ops p src d))"

text \<open>Copying file after file.\<close>

fun copy_files ::
  "'s store_ops \<Rightarrow> 's \<Rightarrow> (string \<Rightarrow> bytes \<times> bool \<Rightarrow> 'd \<Rightarrow> outcome \<times> 'd) \<Rightarrow> (string \<Rightarrow> string) \<Rightarrow> string list \<Rightarrow> 'd \<Rightarrow> 'd option" where
  "copy_files so s put name [] d = Some d"
| "copy_files so s put name (f # fs) d =
     (case fo_open so s f of
        None \<Rightarrow> None
      | Some src \<Rightarrow> (case put (name f) src d of (Returned True, d') \<Rightarrow> copy_files so s put name fs d' | _ \<Rightarrow> None))"

definition copied :: "'s store_ops \<Rightarrow> 's \<Rightarrow> 'd store_ops \<Rightarrow> 'd \<Rightarrow> string \<Rightarrow> string \<Rightarrow> bool" where
  "copied so s ops d f q \<longleftrightarrow> (\<exists>b. fo_open so s f = Some (b, True) \<and> file_at ops d q b)"

context copy_target
begin

lemma copy_files_copied:
  assumes "store_laws ops P" "name ` set fs \<subseteq> P" "inj_on name (set fs)" "distinct fs"
    and "copy_files so s (put ops) name fs d = Some d'"
  shows "(\<forall>f\<in>set fs. copied so s ops d' f (name f)) \<and> (\<forall>q\<in>P - name ` set fs. same_at ops q d d')"
  using assms(2-5)
proof (induction fs arbitrary: d)
  case (Cons f fs)
  from Cons.prems(4) obtain b w d1 where d1: "fo_open so s f = Some (b, w)" "put ops (name f) (b, w) d = (Returned True, d1)"
      "copy_files so s (put ops) name fs d1 = Some d'"
    by (auto split: option.splits prod.splits outcome.splits bool.splits)
  have p: "name f \<in> P" "name f \<notin> name ` set fs" using Cons.prems(1-3) by auto
  have sent: "w" "file_at ops d1 (name f) b" using put_sent [OF assms(1) p(1) d1(2)] by simp_all
  have same: "same_at ops q d d1" if "q \<in> P" "q \<noteq> name f" for q
    using put_same [OF assms(1) p(1) that, of d "(b, w)"] d1(2) by simp
  have IH: "(\<forall>f\<in>set fs. copied so s ops d' f (name f)) \<and> (\<forall>q\<in>P - name ` set fs. same_at ops q d1 d')"
    using Cons.IH [OF _ _ _ d1(3)] Cons.prems(1-3) by simp
  then have "same_at ops (name f) d1 d'" using p by blast
  with sent d1(1) have "copied so s ops d' f (name f)" by (auto simp: copied_def file_at_def same_at_def)
  moreover have "same_at ops q d d'" if "q \<in> P - name ` set (f # fs)" for q
    using same_at_trans [OF same] IH that by auto
  ultimately show ?case using IH by simp
qed simp

end

lemma make_parent_same_at:
  assumes "store_laws ops P" "p \<in> P" "q \<in> P" shows "same_at ops q d (make_parent ops p d)"
  by (rule make_parent_same [OF assms])

interpretation to_remote: copy_target toRemote
proof (unfold_locales, goal_cases)
  case (1 ops P p b whole d d')
  then show ?case
    using store_lawsD(1) [OF 1(1,2)] by (auto simp: toRemote_def Let_def split: option.splits prod.splits)
next
  case (2 ops P p q d src)
  note parent = make_parent_same_at [OF 2(1-3), of d]
  show ?case
  proof (cases "fo_create ops (make_parent ops p d) p")
    case (Some d2)
    note parent
    also have "same_at ops q (make_parent ops p d) d2" by (rule store_lawsD(3) [OF 2 Some])
    also have "same_at ops q d2 (snd (fo_write ops d2 p (fst src)))" by (rule store_lawsD(4) [OF 2])
    finally show ?thesis using Some by (cases "fo_write ops d2 p (fst src)") (simp add: toRemote_def Let_def)
  qed (use parent in \<open>simp add: toRemote_def\<close>)
qed

lemma toLocal_toRemote:
  "toLocal ops p src d =
     (if go_Contains p Slash \<and> is_plain_file (fo_stat ops d (parent_of p)) then (Returned False, d) else toRemote ops p src d)"
  by (simp add: toLocal_def toRemote_def)

interpretation to_local: copy_target toLocal
proof (unfold_locales, goal_cases)
  case (1 ops P p b whole d d')
  then show ?case using to_remote.put_sent [OF 1(1,2), of b whole d d'] by (simp add: toLocal_toRemote split: if_splits)
next
  case (2 ops P p q d src)
  then show ?case using to_remote.put_same [OF 2] by (simp add: toLocal_toRemote)
qed

section \<open>A directory that was copied\<close>

text \<open>A walk, local or remote, that ends well has copied every file of the tree, in order.\<close>

lemma copy_files_append:
  "copy_files so s put name (fs @ gs) d =
     (case copy_files so s put name fs d of None \<Rightarrow> None | Some d' \<Rightarrow> copy_files so s put name gs d')"
  by (induction fs arbitrary: d) (auto split: option.split prod.split outcome.split bool.split)

lemma walk_copies:
  "clean_dir p \<Longrightarrow> tree_ok t \<Longrightarrow> plen \<le> length p \<Longrightarrow> walk (copy_visit so s put plen dst) p t (x, d) = (w, x', d') \<Longrightarrow>
   w \<noteq> WSkip \<and> w \<noteq> WPanic \<and>
   (w = WOk \<longrightarrow> x' = x \<and> copy_files so s put (\<lambda>f. path_Join [dst, drop plen f]) (tree_files p t) d = Some d')"
  "clean_dir p \<Longrightarrow> list_all (\<lambda>(n, t). plain_name n \<and> tree_ok t) es \<Longrightarrow> plen \<le> length p \<Longrightarrow>
   walk_entries (copy_visit so s put plen dst) p es (x, d) = (w, x', d') \<Longrightarrow>
   w \<noteq> WSkip \<and> w \<noteq> WPanic \<and>
   (w = WOk \<longrightarrow> x' = x \<and> copy_files so s put (\<lambda>f. path_Join [dst, drop plen f]) (tree_files_entries p es) d = Some d')"
proof (induction p t and p es arbitrary: x d w x' d' and x d w x' d' rule: tree_files_tree_files_entries.induct)
  case (1 p)
  then show ?case by (auto simp: copy_visit_def split: option.splits prod.splits outcome.splits bool.splits)
next
  case (3 p es)
  then show ?case by (simp add: copy_visit_def)
next
  case (5 p n t es)
  then have q: "path_Join [p, n] = p @ CHR ''/'' # n" "clean_dir (p @ CHR ''/'' # n)"
    by (auto intro: path_Join_entry clean_dir_entry)
  obtain w1 x1 d1 where w1: "walk (copy_visit so s put plen dst) (p @ CHR ''/'' # n) t (x, d) = (w1, x1, d1)"
    by (metis prod_cases3)
  have first: "w1 \<noteq> WSkip \<and> w1 \<noteq> WPanic \<and> (w1 = WOk \<longrightarrow> x1 = x \<and>
      copy_files so s put (\<lambda>f. path_Join [dst, drop plen f]) (tree_files (p @ CHR ''/'' # n) t) d = Some d1)"
    by (rule "5.IH"(1) [OF q(2) _ _ w1]) (use 5 in auto)
  show ?case
  proof (cases "w1 = WOk")
    case True
    with "5.prems"(4) w1 q(1) have "walk_entries (copy_visit so s put plen dst) p es (x1, d1) = (w, x', d')" by simp
    from "5.IH"(2) [OF "5.prems"(1) _ "5.prems"(3) this] "5.prems"(2) first True show ?thesis
      by (simp add: copy_files_append)
  next
    case False
    with "5.prems"(4) w1 q(1) first show ?thesis by (cases w1) auto
  qed
qed (auto simp: copy_visit_def)

lemma copy_walked_files:
  "copy_walked so s put plen dst ps d = (Returned True, d') \<Longrightarrow>
   copy_files so s put (\<lambda>f. path_Join [dst, drop plen f]) (map fst (filter (\<lambda>p. \<not> snd p) ps)) d = Some d'"
proof (induction so s put plen dst ps d arbitrary: d' rule: copy_walked.induct)
  case (2 so s put plen dst path dir ps d)
  then show ?case by (auto split: if_splits option.splits prod.splits outcome.splits bool.splits)
qed simp

lemma listing_files:
  "map fst (filter (\<lambda>p. \<not> snd p) (listing p t)) = tree_files p t"
  "map fst (filter (\<lambda>p. \<not> snd p) (listing_entries p es)) = tree_files_entries p es"
  by (induction p t and p es rule: listing_listing_entries.induct) simp_all

lemma tree_names:
  assumes "clean_dir dst" "tree_ok t" "f \<in> set (tree_files src t)"
  shows "path_Join [dst, drop (length src) f] = dst @ drop (length src) f"
  using tree_files_names(1) [OF assms(2,3)] path_Join_sub [OF assms(1)] by fastforce

lemma tree_names_inj: "tree_ok t \<Longrightarrow> inj_on (\<lambda>f. dst @ drop (length src) f) (set (tree_files src t))"
  by (intro inj_onI) (metis append_eq_conv_conj same_append_eq tree_files_names(1))

text \<open>A directory of the tree that cannot be read is left out, and the copy reports no error: the callback
  does not look at the error it is given, the walk of the server's side is not asked for its own.\<close>

lemma unreadable_left_out:
  assumes "fo_stat so s src = Some (True, n)" "clean_dir src"
    and "dir_place (checkDstPath ops absent d dst) src dst = Some dst'"
  shows "fromLocal so s (LDir None) src ops put absent dst d = (Returned True, d)"
    "fromRemote so s (listing src (LDir None)) src ops put absent dst d = (Returned True, d)"
    "plain_name x \<Longrightarrow> fromLocal so s (LDir (Some [(x, LDir None)])) src ops put absent dst d = (Returned True, d)"
  using assms by (simp_all add: fromLocal_def fromRemote_def Walk_def copy_visit_def path_Join_entry)


text \<open>When the destination is on a server, \<^verbatim>\<open>FileTran\<close> returns no error whatever the error of the
  transfer was.\<close>

theorem file_tran_drops_errors:
  assumes "endpoint_of src = Some s" "endpoint_of dst = Some (Some h, path)"
    and "transfer_between ops tree absent s (Some h, path) W = (Returned ok, W')"
  shows "FileTran ops tree absent src dst W = (Returned True, W')"
proof -
  have "is_remote dst" using assms(2) by (auto simp: endpoint_of_def split: if_splits)
  with assms show ?thesis by (simp add: FileTran_def drop_result_def)
qed

text \<open>A destination that is in the way of the directory, and nothing is copied.\<close>

theorem file_tran_drops_errors_witness:
  "\<exists>W'. transfer_between (\<lambda>_. path_store) (\<lambda>_ _. sample_tree) (\<lambda>_ _. True) (None, ''/w'') (Some (''h'', 22), ''/r'')
      (\<lambda>h. if h = None then sample_files else [''/r'' \<mapsto> Some [5]]) = (Returned False, W') \<and>
    FileTran (\<lambda>_. path_store) (\<lambda>_ _. sample_tree) (\<lambda>_ _. True) ''/w'' ''h:22@/r''
      (\<lambda>h. if h = None then sample_files else [''/r'' \<mapsto> Some [5]]) = (Returned True, W')"
proof -
  have e: "endpoint_of ''/w'' = Some (None, ''/w'')" "endpoint_of ''h:22@/r'' = Some (Some (''h'', 22), ''/r'')" by code_simp+
  have t: "transfer_between (\<lambda>_. path_store) (\<lambda>_ _. sample_tree) (\<lambda>_ _. True) (None, ''/w'') (Some (''h'', 22), ''/r'')
      (\<lambda>h. if h = None then sample_files else [''/r'' \<mapsto> Some [5]]) =
      (Returned False, (\<lambda>h. if h = None then sample_files else [''/r'' \<mapsto> Some [5]])(Some (''h'', 22) := [''/r'' \<mapsto> Some [5]]))"
    by (simp add: transfer_between_def fromLocal_def checkDstPath_def dir_place_def path_store_def sample_files_def)
  from file_tran_drops_errors [OF e t] t show ?thesis by blast
qed


end
