(* ===== verification/Sftp_Cli.thy ===== *)
theory Sftp_Cli
  imports File_Tran
begin

text \<open>
  The transfers of \<^verbatim>\<open>sftpcli.go\<close>'s \<^verbatim>\<open>Cli\<close>, the form that \<^verbatim>\<open>fkme watch\<close> uses: errors of a single file are
  logged and forgotten, an error of the copying ends the process, and an upload of a directory compares
  times as well as sizes. Also the search for the newest file, and the two operations built on it.
\<close>

section \<open>Single files\<close>

text \<open>They return nothing: \<open>Returned True\<close> is coming back, whatever happened; when the process ends, what
  has been made and written up to then stays.\<close>

definition cli_Upload :: "'l store_ops \<Rightarrow> 'l \<Rightarrow> 'r store_ops \<Rightarrow> string \<Rightarrow> string \<Rightarrow> 'r \<Rightarrow> outcome \<times> 'r" where
  "cli_Upload lo l ro local remote r =
     (let r1 = make_parent ro remote r
      in case fo_open lo l local of
           None \<Rightarrow> (Returned True, r1)
         | Some (b, whole) \<Rightarrow>
             (case fo_create ro r1 remote of
                None \<Rightarrow> (Returned True, r1)
              | Some r2 \<Rightarrow>
                  (case fo_write ro r2 remote b of (ok, r3) \<Rightarrow> (if ok \<and> whole then Returned True else Exited, r3))))"

definition cli_Download :: "'r store_ops \<Rightarrow> 'r \<Rightarrow> 'l store_ops \<Rightarrow> string \<Rightarrow> string \<Rightarrow> 'l \<Rightarrow> outcome \<times> 'l" where
  "cli_Download ro r lo remote local l =
     (if go_Contains local Slash \<and> is_plain_file (fo_stat lo l (parent_of local)) then (Returned True, l)
      else let l1 = make_parent lo local l
        in case fo_create lo l1 local of
             None \<Rightarrow> (Exited, l1)
           | Some l2 \<Rightarrow>
               (case fo_open ro r remote of
                  None \<Rightarrow> (Exited, l2)
                | Some (b, whole) \<Rightarrow>
                    (case fo_write lo l2 local b of (ok, l3) \<Rightarrow> (if ok \<and> whole then Returned True else Exited, l3))))"

text \<open>They leave the stores as the functions of \<^verbatim>\<open>scp\<close> do, and hide the result.\<close>

lemma cli_Upload_eq:
  "cli_Upload lo l ro local remote r =
     (if fo_open lo l local \<noteq> None \<and> fo_create ro (make_parent ro remote r) remote \<noteq> None \<and> \<not> fst (Upload lo l ro local remote r)
      then Exited else Returned True, snd (Upload lo l ro local remote r))"
  by (auto simp: cli_Upload_def Upload_def Let_def split: option.split prod.split)

lemma cli_Download_eq:
  "cli_Download ro r lo remote local l =
     (case Download ro r lo remote local l of (x, l') \<Rightarrow> (if x = Exited then Exited else Returned True, l'))"
  by (auto simp: cli_Download_def Download_def Let_def split: option.split prod.split)

section \<open>Directories\<close>

fun cli_download_all ::
  "'r store_ops \<Rightarrow> 'r \<Rightarrow> 'l store_ops \<Rightarrow> nat \<Rightarrow> string \<Rightarrow> (string \<times> bool) list \<Rightarrow> 'l \<Rightarrow> outcome \<times> 'l" where
  "cli_download_all ro r lo plen local_dir [] l = (Returned True, l)"
| "cli_download_all ro r lo plen local_dir ((path, dir) # ps) l =
     (if length path < plen then (Panicked, l)
      else let local = local_dir @ drop plen path
        in if dir then cli_download_all ro r lo plen local_dir ps (fo_mkdirall lo l local)
           else case cli_Download ro r lo path local l of
                  (Returned _, l') \<Rightarrow> cli_download_all ro r lo plen local_dir ps l'
                | x \<Rightarrow> x)"

definition cli_DownloadDir ::
  "'r store_ops \<Rightarrow> 'r \<Rightarrow> 'l store_ops \<Rightarrow> (string \<times> bool) list \<Rightarrow> string \<Rightarrow> string \<Rightarrow> 'l \<Rightarrow> outcome \<times> 'l" where
  "cli_DownloadDir ro r lo walked remote_dir local_dir l =
     (case fo_stat ro r remote_dir of
        None \<Rightarrow> (Exited, l)
      | Some (False, _) \<Rightarrow> cli_Download ro r lo remote_dir local_dir l
      | Some (True, _) \<Rightarrow> cli_download_all ro r lo (length remote_dir) local_dir walked l)"

text \<open>
  \<open>rtime\<close> and \<open>ltime\<close> give the times of modification. A local file that is gone when it is looked up is
  a nil dereference.
\<close>

definition cli_upload_file ::
  "'l store_ops \<Rightarrow> ('l \<Rightarrow> string \<Rightarrow> int) \<Rightarrow> 'l \<Rightarrow> 'r store_ops \<Rightarrow> ('r \<Rightarrow> string \<Rightarrow> int) \<Rightarrow> string \<Rightarrow> string \<Rightarrow> 'r \<Rightarrow> outcome \<times> 'r" where
  "cli_upload_file lo ltime l ro rtime path remote r =
     (let up = cli_Upload lo l ro path remote r
      in case fo_stat ro r remote of
           None \<Rightarrow> up
         | Some (_, n) \<Rightarrow>
             (case fo_stat lo l path of
                None \<Rightarrow> (Panicked, r)
              | Some (_, m) \<Rightarrow> if rtime r remote < ltime l path \<or> n \<noteq> m then up else (Returned True, r)))"

text \<open>The state of the walk keeps how the process has ended, when it has; then the walk is over.\<close>

definition cli_upload_visit ::
  "'l store_ops \<Rightarrow> ('l \<Rightarrow> string \<Rightarrow> int) \<Rightarrow> 'l \<Rightarrow> 'r store_ops \<Rightarrow> ('r \<Rightarrow> string \<Rightarrow> int) \<Rightarrow> nat \<Rightarrow> string \<Rightarrow> (outcome \<times> 'r) walk_fn" where
  "cli_upload_visit lo ltime l ro rtime plen remote_dir path dir s =
     (if length path < plen then (WErr, Panicked, snd s)
      else if dir then (WOk, s)
      else case cli_upload_file lo ltime l ro rtime path (remote_name remote_dir plen path) (snd s) of
             (Returned _, r') \<Rightarrow> (WOk, fst s, r')
           | x \<Rightarrow> (WErr, x))"

definition cli_UploadDir ::
  "'l store_ops \<Rightarrow> ('l \<Rightarrow> string \<Rightarrow> int) \<Rightarrow> 'l \<Rightarrow> 'r store_ops \<Rightarrow> ('r \<Rightarrow> string \<Rightarrow> int) \<Rightarrow> ltree \<Rightarrow> string \<Rightarrow> string \<Rightarrow> 'r \<Rightarrow> outcome \<times> 'r" where
  "cli_UploadDir lo ltime l ro rtime tree local_dir remote_dir r =
     (case fo_stat lo l local_dir of
        None \<Rightarrow> (Exited, r)
      | Some (False, _) \<Rightarrow> cli_Upload lo l ro local_dir remote_dir r
      | Some (True, _) \<Rightarrow>
          snd (Walk (cli_upload_visit lo ltime l ro rtime (length local_dir) remote_dir) local_dir tree (Returned True, r)))"

text \<open>Nothing is sent when every remote file is as long as the local one and not older.\<close>

lemma cli_upload_idle:
  assumes "fo_stat ro r remote = Some (x, n)" "fo_stat lo l path = Some (y, n)" "ltime l path \<le> rtime r remote"
  shows "cli_upload_file lo ltime l ro rtime path remote r = (Returned True, r)"
  using assms by (simp add: cli_upload_file_def Let_def)

section \<open>The newest file\<close>

fun newest :: "(string \<times> int) list \<Rightarrow> string \<times> int \<Rightarrow> string \<times> int" where
  "newest [] f0 = f0"
| "newest (f # fs) f0 = newest fs (if snd f0 < snd f then f else f0)"

definition findNewestFile :: "'s store_ops \<Rightarrow> ('s \<Rightarrow> string \<Rightarrow> (string \<times> int) list option) \<Rightarrow> 's \<Rightarrow> string \<Rightarrow> string option" where
  "findNewestFile ops read_dir s dir =
     (case fo_stat ops s dir of
        Some (True, _) \<Rightarrow>
          (case read_dir s dir of
             Some (f # fs) \<Rightarrow> Some (dir @ ''/'' @ fst (newest (f # fs) f))
           | _ \<Rightarrow> None)
      | _ \<Rightarrow> None)"

text \<open>The first of the entries that no other is newer than.\<close>

lemma newest_correct:
  "newest fs f0 \<in> set (f0 # fs) \<and> (\<forall>f\<in>set (f0 # fs). snd f \<le> snd (newest fs f0))"
proof (induction fs arbitrary: f0)
  case (Cons f fs)
  from Cons.IH [of f] Cons.IH [of f0] show ?case by auto
qed simp

lemma newest_first:
  assumes "newest fs f0 \<noteq> f0"
  shows "\<exists>us vs. fs = us @ newest fs f0 # vs \<and> (\<forall>f\<in>set (f0 # us). snd f < snd (newest fs f0))"
  using assms
proof (induction fs arbitrary: f0)
  case (Cons f fs)
  show ?case
  proof (cases "snd f0 < snd f")
    case True
    show ?thesis
    proof (cases "newest fs f = f")
      case False
      from Cons.IH [OF this] obtain us vs where
        "fs = us @ newest fs f # vs" "\<forall>g\<in>set (f # us). snd g < snd (newest fs f)" by blast
      with True show ?thesis by (intro exI [of _ "f # us"] exI [of _ vs]) auto
    qed (use True in \<open>intro exI [of _ "[]"] exI [of _ fs]; auto\<close>)
  next
    case False
    with Cons.prems Cons.IH [of f0] obtain us vs where
      "fs = us @ newest fs f0 # vs" "\<forall>g\<in>set (f0 # us). snd g < snd (newest fs f0)" by auto
    with False show ?thesis by (intro exI [of _ "f # us"] exI [of _ vs]) auto
  qed
qed simp

section \<open>Sending and receiving\<close>

text \<open>What \<^verbatim>\<open>Atoi\<close> returns beside its error: the nearest number that can be represented, or 0.\<close>

definition Atoi_value :: "string \<Rightarrow> int" where
  "Atoi_value s =
     (let neg = HasPrefix s ''-''; d = (if neg \<or> HasPrefix s ''+'' then tl s else s)
      in case Atoi s of
           Some n \<Rightarrow> n
         | None \<Rightarrow> if d = [] \<or> \<not> list_all is_digit d then 0 else if neg then - (2 ^ 63) else 2 ^ 63 - 1)"

text \<open>The address of the server, after it has been decoded: host, port, user and password. The error of the
  port is not looked at, a part that is missing is a panic.\<close>

definition serv_parts :: "string \<Rightarrow> (string \<times> int \<times> string \<times> string) option" where
  "serv_parts addr =
     (case go_SplitN 4 addr '':'' of
        [host, port, user, pass] \<Rightarrow> Some (host, Atoi_value port, user, pass)
      | _ \<Rightarrow> None)"

definition models_dir :: "string \<Rightarrow> string" where
  "models_dir ident = ''/models/'' @ ident"

text \<open>\<^verbatim>\<open>send\<close>: the newest file or directory goes to the place of the identifier; \<^verbatim>\<open>recv\<close>: the other way round.\<close>

definition send_plan :: "'s store_ops \<Rightarrow> ('s \<Rightarrow> string \<Rightarrow> (string \<times> int) list option) \<Rightarrow> 's \<Rightarrow> string \<Rightarrow> string \<Rightarrow> (string \<times> string) option" where
  "send_plan ops read_dir s local_dir ident =
     map_option (\<lambda>p. (p, models_dir ident)) (findNewestFile ops read_dir s local_dir)"

definition recv_plan :: "'s store_ops \<Rightarrow> ('s \<Rightarrow> string \<Rightarrow> (string \<times> int) list option) \<Rightarrow> 's \<Rightarrow> string \<Rightarrow> string \<Rightarrow> (string \<times> string) option" where
  "recv_plan ops read_dir s local_dir ident =
     map_option (\<lambda>p. (p, local_dir)) (findNewestFile ops read_dir s (models_dir ident))"

end
