(* ===== verification/Tar_Extract.thy ===== *)
theory Tar_Extract
  imports Go_Walk
begin

text \<open>
  \<^verbatim>\<open>ExtractTarGz\<close> of \<^verbatim>\<open>util/util.go\<close>: the entries of an archive are made below a directory. The archive
  library gives the entries one by one; the operations of the file system are arguments.
\<close>

section \<open>Archives\<close>

datatype entry_kind = TarDir | TarLink string | TarFile

record tar_header =
  th_Name :: string
  th_kind :: entry_kind
  th_data :: "bytes \<times> bool"

text \<open>What \<^verbatim>\<open>Next\<close> returns: a header (for a file with its bytes, and whether reading them ends well), or an
  error other than the end; at the end of the list, the end.\<close>

datatype tar_next = TarEntry tar_header | TarError

datatype stat_result = StatMissing | StatDir | StatNotDir | StatFailed

record 's tar_ops =
  to_stat :: "'s \<Rightarrow> string \<Rightarrow> stat_result"
  to_mkdirall :: "'s \<Rightarrow> string \<Rightarrow> 's option"
  to_mkdir :: "'s \<Rightarrow> string \<Rightarrow> 's"
  to_remove :: "'s \<Rightarrow> string \<Rightarrow> 's"
  to_symlink :: "'s \<Rightarrow> string \<Rightarrow> string \<Rightarrow> 's"
  to_open :: "'s \<Rightarrow> string \<Rightarrow> 's option"
  to_write :: "'s \<Rightarrow> string \<Rightarrow> bytes \<Rightarrow> bool \<times> 's"

definition to_exists :: "'s tar_ops \<Rightarrow> 's \<Rightarrow> string \<Rightarrow> bool" where
  "to_exists ops s p \<longleftrightarrow> to_stat ops s p \<in> {StatDir, StatNotDir}"

definition entry_path :: "string \<Rightarrow> tar_header \<Rightarrow> string" where
  "entry_path target h = path_Join [target, th_Name h]"

datatype tar_result = TarOk | TarFail | TarPanic

text \<open>An error of \<^verbatim>\<open>Next\<close> is logged, and the header, which is nil, is used.\<close>

fun extract_entries :: "'s tar_ops \<Rightarrow> string \<Rightarrow> tar_next list \<Rightarrow> 's \<Rightarrow> tar_result \<times> 's" where
  "extract_entries ops target [] s = (TarOk, s)"
| "extract_entries ops target (TarError # es) s = (TarPanic, s)"
| "extract_entries ops target (TarEntry h # es) s =
     (let fpath = entry_path target h
      in case th_kind h of
           TarDir \<Rightarrow> extract_entries ops target es (to_mkdir ops s fpath)
         | TarLink link \<Rightarrow>
             (let s1 = (if to_exists ops s fpath then to_remove ops s fpath else s)
              in extract_entries ops target es (to_symlink ops s1 link fpath))
         | TarFile \<Rightarrow>
             (case to_open ops s fpath of
                None \<Rightarrow> (TarFail, s)
              | Some s1 \<Rightarrow>
                  (case to_write ops s1 fpath (fst (th_data h)) of
                     (ok, s2) \<Rightarrow>
                       if ok \<and> snd (th_data h) then extract_entries ops target es s2 else (TarFail, s2))))"

text \<open>\<open>gzip_ok\<close>: the stream begins like one that was compressed.\<close>

definition ExtractTarGz :: "'s tar_ops \<Rightarrow> bool \<Rightarrow> tar_next list \<Rightarrow> string \<Rightarrow> 's \<Rightarrow> tar_result \<times> 's" where
  "ExtractTarGz ops gzip_ok es target s =
     (let run = (\<lambda>s. if gzip_ok then extract_entries ops target es s else (TarFail, s))
      in case to_stat ops s target of
           StatMissing \<Rightarrow> (case to_mkdirall ops s target of None \<Rightarrow> (TarFail, s) | Some s' \<Rightarrow> run s')
         | StatDir \<Rightarrow> run s
         | _ \<Rightarrow> (TarFail, s))"

section \<open>What is there afterwards\<close>

text \<open>
  What is relied on, for a set of paths of different files, none of them a link or inside another: a file that
  was written is there; operations on other paths of the archive leave it as it is.
\<close>

definition tar_laws :: "'s tar_ops \<Rightarrow> ('s \<Rightarrow> string \<Rightarrow> bytes option) \<Rightarrow> string set \<Rightarrow> string set \<Rightarrow> bool" where
  "tar_laws ops read P Q \<longleftrightarrow>
     (\<forall>p\<in>P. \<forall>s s1 s2 b. to_open ops s p = Some s1 \<and> to_write ops s1 p b = (True, s2) \<longrightarrow> read s2 p = Some b) \<and>
     (\<forall>p\<in>P. \<forall>q\<in>P. \<forall>s s1. q \<noteq> p \<and> to_open ops s q = Some s1 \<longrightarrow> read s1 p = read s p) \<and>
     (\<forall>p\<in>P. \<forall>q\<in>P. \<forall>s b. q \<noteq> p \<longrightarrow> read (snd (to_write ops s q b)) p = read s p) \<and>
     (\<forall>p\<in>P. \<forall>q\<in>Q. \<forall>s. read (to_mkdir ops s q) p = read s p) \<and>
     (\<forall>p\<in>P. \<forall>q\<in>Q. \<forall>s. read (to_remove ops s q) p = read s p) \<and>
     (\<forall>p\<in>P. \<forall>q\<in>Q. \<forall>s l. read (to_symlink ops s l q) p = read s p)"

text \<open>The entry that comes last for a path decides.\<close>

fun archived :: "string \<Rightarrow> tar_next list \<Rightarrow> string \<rightharpoonup> bytes" where
  "archived target [] = Map.empty"
| "archived target (TarError # es) = archived target es"
| "archived target (TarEntry h # es) =
     (if th_kind h = TarFile then [entry_path target h \<mapsto> fst (th_data h)] else Map.empty) ++ archived target es"

fun fits :: "string \<Rightarrow> string set \<Rightarrow> string set \<Rightarrow> tar_next \<Rightarrow> bool" where
  "fits target P Q TarError = True"
| "fits target P Q (TarEntry h) = (if th_kind h = TarFile then entry_path target h \<in> P else entry_path target h \<in> Q)"

lemma tar_lawsD:
  assumes "tar_laws ops read P Q" "p \<in> P"
  shows "to_open ops s p = Some s1 \<Longrightarrow> to_write ops s1 p b = (True, s2) \<Longrightarrow> read s2 p = Some b"
    and "q \<in> P \<Longrightarrow> q \<noteq> p \<Longrightarrow> to_open ops s q = Some s1 \<Longrightarrow> read s1 p = read s p"
    and "q \<in> P \<Longrightarrow> q \<noteq> p \<Longrightarrow> to_write ops s q b = (ok, s2) \<Longrightarrow> read s2 p = read s p"
    and "q \<in> Q \<Longrightarrow> read (to_mkdir ops s q) p = read s p"
    and "q \<in> Q \<Longrightarrow> read (to_remove ops s q) p = read s p"
    and "q \<in> Q \<Longrightarrow> read (to_symlink ops s l q) p = read s p"
proof -
  note laws = assms(1) [unfolded tar_laws_def]
  note rest = laws [THEN conjunct2]
  show "to_open ops s p = Some s1 \<Longrightarrow> to_write ops s1 p b = (True, s2) \<Longrightarrow> read s2 p = Some b"
    using laws [THEN conjunct1] assms(2) by blast
  show "q \<in> P \<Longrightarrow> q \<noteq> p \<Longrightarrow> to_open ops s q = Some s1 \<Longrightarrow> read s1 p = read s p"
    using rest [THEN conjunct1] assms(2) by blast
  show "q \<in> P \<Longrightarrow> q \<noteq> p \<Longrightarrow> to_write ops s q b = (ok, s2) \<Longrightarrow> read s2 p = read s p"
    using rest [THEN conjunct2, THEN conjunct1] assms(2) by (metis snd_conv)
  show "q \<in> Q \<Longrightarrow> read (to_mkdir ops s q) p = read s p"
    using rest [THEN conjunct2, THEN conjunct2, THEN conjunct1] assms(2) by blast
  show "q \<in> Q \<Longrightarrow> read (to_remove ops s q) p = read s p"
    using rest [THEN conjunct2, THEN conjunct2, THEN conjunct2, THEN conjunct1] assms(2) by blast
  show "q \<in> Q \<Longrightarrow> read (to_symlink ops s l q) p = read s p"
    using rest [THEN conjunct2, THEN conjunct2, THEN conjunct2, THEN conjunct2] assms(2) by blast
qed

lemma extract_reads:
  assumes "tar_laws ops read P Q" "list_all (fits target P Q) es" "p \<in> P"
    and "extract_entries ops target es s = (TarOk, s')"
  shows "read s' p = (case archived target es p of None \<Rightarrow> read s p | Some b \<Rightarrow> Some b)"
  using assms(2,4)
proof (induction es arbitrary: s)
  case (Cons e es)
  note laws = tar_lawsD [OF assms(1,3)]
  show ?case
  proof (cases e)
    case (TarEntry h)
    define q where "q = entry_path target h"
    obtain s1 where s1: "extract_entries ops target es s1 = (TarOk, s')"
      "read s1 p = (if th_kind h = TarFile \<and> q = p then Some (fst (th_data h)) else read s p)"
    proof (cases "th_kind h")
      case TarDir
      with Cons.prems TarEntry laws(4) [of q s] that [of "to_mkdir ops s q"] show thesis by (simp add: q_def)
    next
      case (TarLink l)
      define s0 where "s0 = (if to_exists ops s q then to_remove ops s q else s)"
      have Q: "q \<in> Q" using Cons.prems(1) TarEntry TarLink by (simp add: q_def)
      from Cons.prems(2) TarEntry TarLink have "extract_entries ops target es (to_symlink ops s0 l q) = (TarOk, s')"
        by (auto simp: q_def s0_def Let_def)
      moreover have "read (to_symlink ops s0 l q) p = read s p"
        using laws(6) [OF Q, of s0 l] laws(5) [OF Q, of s] by (simp add: s0_def)
      ultimately show thesis using that TarLink by simp
    next
      case TarFile
      then obtain so s2 where w: "to_open ops s q = Some so" "to_write ops so q (fst (th_data h)) = (True, s2)"
          "extract_entries ops target es s2 = (TarOk, s')"
        using Cons.prems(2) TarEntry by (auto simp: q_def Let_def split: option.splits prod.splits if_splits)
      have "q \<in> P" using Cons.prems(1) TarEntry TarFile by (simp add: q_def)
      with w laws(1) [of s so "fst (th_data h)" s2] laws(2) [of q s so] laws(3) [of q so "fst (th_data h)" True s2] TarFile
      show thesis by (intro that [OF w(3)]) auto
    qed
    with Cons TarEntry show ?thesis by (auto simp: q_def map_add_def split: option.split)
  qed (use Cons in simp)
qed simp

text \<open>C36: an archive that has been extracted without an error is there: every file has the bytes of the last
  entry of its path, and files that are not in the archive have not changed.\<close>

theorem tar_extracts:
  assumes "tar_laws ops read P Q" "list_all (fits target P Q) es" "to_stat ops s target = StatDir"
    and "ExtractTarGz ops gzip_ok es target s = (TarOk, s')"
  shows "\<forall>p\<in>P. read s' p = (case archived target es p of None \<Rightarrow> read s p | Some b \<Rightarrow> Some b)"
  using extract_reads [OF assms(1,2)] assms(3,4) by (auto simp: ExtractTarGz_def Let_def split: if_splits)

section \<open>Where it writes\<close>

definition touched :: "string \<Rightarrow> tar_next list \<Rightarrow> string list" where
  "touched target es = List.map_filter (\<lambda>e. case e of TarEntry h \<Rightarrow> Some (entry_path target h) | TarError \<Rightarrow> None) es"

text \<open>Below the target, as long as the names are made of plain parts.\<close>

lemma touched_inside:
  assumes "clean_dir target" "\<forall>h. TarEntry h \<in> set es \<longrightarrow> (\<exists>ns. th_Name h = go_Join ns Slash \<and> ns \<noteq> [] \<and> list_all plain_name ns)"
  shows "\<forall>p\<in>set (touched target es). HasPrefix p (target @ ''/'')"
proof -
  have join: "Slash @ go_Join ns Slash = sub_path ns" if "ns \<noteq> []" for ns
    using that by (induction ns rule: induct_list012) (simp_all add: Slash_def)
  have "HasPrefix (entry_path target h) (target @ ''/'')" if "TarEntry h \<in> set es" for h
  proof -
    from assms(2) that obtain ns where ns: "th_Name h = go_Join ns Slash" "ns \<noteq> []" "list_all plain_name ns" by blast
    have t: "target \<noteq> []" using assms(1) by (simp add: clean_dir_def)
    have "th_Name h \<noteq> []" using ns by (cases ns rule: remdups_adj.cases) (auto simp: plain_name_def)
    with t have "entry_path target h = path_Clean (target @ sub_path ns)"
      using join [OF ns(2)] ns(1) by (simp add: entry_path_def path_Join_def)
    also have "\<dots> = target @ sub_path ns" using clean_dir_sub [OF assms(1) ns(3)] by (simp add: clean_dir_def)
    finally show ?thesis using ns(2) by (cases ns) (simp_all add: HasPrefix_append)
  qed
  then show ?thesis
    by (auto simp: touched_def List.map_filter_def split: tar_next.splits)
qed

text \<open>A name with dots leads anywhere: nothing looks at it.\<close>

lemma tar_traversal:
  "entry_path ''/data/app'' \<lparr>th_Name = ''../../etc/passwd'', th_kind = TarFile, th_data = ([], True)\<rparr> = ''/etc/passwd''"
  by code_simp

text \<open>An archive that is cut off ends the process.\<close>

lemma tar_broken_panics: "extract_entries ops target (TarError # es) s = (TarPanic, s)"
  by simp

section \<open>A sample\<close>

definition mem_ops :: "(string \<rightharpoonup> bytes option) tar_ops" where
  "mem_ops =
     \<lparr>to_stat = (\<lambda>m p. case m p of None \<Rightarrow> StatMissing | Some None \<Rightarrow> StatDir | Some (Some b) \<Rightarrow> StatNotDir),
      to_mkdirall = (\<lambda>m p. Some (m(p \<mapsto> None))), to_mkdir = (\<lambda>m p. if m p = None then m(p \<mapsto> None) else m),
      to_remove = (\<lambda>m p. m(p := None)), to_symlink = (\<lambda>m l p. m(p \<mapsto> Some [])),
      to_open = (\<lambda>m p. Some (m(p \<mapsto> Some []))), to_write = (\<lambda>m p b. (True, m(p \<mapsto> Some b)))\<rparr>"

definition mem_read :: "(string \<rightharpoonup> bytes option) \<Rightarrow> string \<Rightarrow> bytes option" where
  "mem_read m p = (case m p of Some (Some b) \<Rightarrow> Some b | _ \<Rightarrow> None)"

lemma mem_laws: "P \<inter> Q = {} \<Longrightarrow> tar_laws mem_ops mem_read P Q"
  by (auto simp: tar_laws_def mem_ops_def mem_read_def)

definition sample_archive :: "tar_next list" where
  "sample_archive =
     [TarEntry \<lparr>th_Name = ''bin/'', th_kind = TarDir, th_data = ([], True)\<rparr>,
      TarEntry \<lparr>th_Name = ''bin/x'', th_kind = TarFile, th_data = ([1], True)\<rparr>,
      TarEntry \<lparr>th_Name = ''l'', th_kind = TarLink ''bin/x'', th_data = ([], True)\<rparr>,
      TarEntry \<lparr>th_Name = ''./bin/x'', th_kind = TarFile, th_data = ([2, 3], True)\<rparr>]"

theorem tar_extracts_witness:
  "\<exists>s'. ExtractTarGz mem_ops True sample_archive ''/t'' [''/t'' \<mapsto> None, ''/t/y'' \<mapsto> Some [9]] = (TarOk, s') \<and>
     mem_read s' ''/t/bin/x'' = Some [2, 3] \<and> mem_read s' ''/t/y'' = Some [9]"
proof -
  define s where "s = [''/t'' \<mapsto> None, ''/t/y'' \<mapsto> Some [9::byte]]"
  have "fst (ExtractTarGz mem_ops True sample_archive ''/t'' s) = TarOk" unfolding s_def by code_simp
  then obtain s' where run: "ExtractTarGz mem_ops True sample_archive ''/t'' s = (TarOk, s')" by (metis prod.collapse)
  have paths: "path_Join [''/t'', ''bin/''] = ''/t/bin''" "path_Join [''/t'', ''bin/x''] = ''/t/bin/x''"
    "path_Join [''/t'', ''l''] = ''/t/l''" "path_Join [''/t'', ''./bin/x''] = ''/t/bin/x''" by code_simp+
  have laws: "tar_laws mem_ops mem_read {''/t/bin/x'', ''/t/y''} {''/t/bin'', ''/t/l''}" by (rule mem_laws) simp
  have fits: "list_all (fits ''/t'' {''/t/bin/x'', ''/t/y''} {''/t/bin'', ''/t/l''}) sample_archive"
    by (simp add: sample_archive_def entry_path_def paths)
  have target: "to_stat mem_ops s ''/t'' = StatDir" by (simp add: s_def mem_ops_def)
  have archived: "archived ''/t'' sample_archive ''/t/bin/x'' = Some [2, 3]" "archived ''/t'' sample_archive ''/t/y'' = None"
    by (simp_all add: sample_archive_def entry_path_def paths)
  from tar_extracts [OF laws fits target run] archived run show ?thesis
    by (simp add: s_def mem_read_def)
qed

end
