(* ===== verification/Port_Mapper.thy ===== *)
theory Port_Mapper
  imports Prelude Go_Strings
begin

text \<open>
  The port mapper \<^verbatim>\<open>fkme pm\<close> (\<^verbatim>\<open>util/pm.go\<close>): the table of ports and the listener of each, the
  attempts to reach a target, and the copying, which can replace a name in what it passes on.
\<close>

section \<open>The table of ports\<close>

record port_entry =
  pe_Remote_addr :: string
  pe_Listen_port :: u32
  pe_running :: bool
  pe_repstr :: string

text \<open>The ports, and those for which a listener has been started, in order. A listener looks up its entry
  for every connection, so it follows a change of the target.\<close>

record serv =
  se_ports :: "int \<rightharpoonup> port_entry"
  se_listening :: "int list"

definition NewServ :: serv where
  "NewServ = \<lparr>se_ports = Map.empty, se_listening = []\<rparr>"

definition bindOp :: "int \<Rightarrow> string \<Rightarrow> string \<Rightarrow> serv \<Rightarrow> nat \<times> serv" where
  "bindOp port remote_addr repstr s =
     (case se_ports s port of
        None \<Rightarrow>
          (0, s\<lparr>se_ports := (se_ports s)(port \<mapsto> \<lparr>pe_Remote_addr = remote_addr, pe_Listen_port = word_of_int port,
                  pe_running = True, pe_repstr = repstr\<rparr>),
                se_listening := se_listening s @ [port]\<rparr>)
      | Some p \<Rightarrow>
          if pe_Remote_addr p \<noteq> remote_addr
          then (2, s\<lparr>se_ports := (se_ports s)(port \<mapsto> p\<lparr>pe_Remote_addr := remote_addr\<rparr>)\<rparr>)
          else (1, s))"

text \<open>The target of a connection that comes in on a port.\<close>

definition target_of :: "serv \<Rightarrow> int \<Rightarrow> string option" where
  "target_of s port = map_option pe_Remote_addr (se_ports s port)"

text \<open>\<^verbatim>\<open>Sscanf\<close> with the format \<^verbatim>\<open>%d;%s\<close>: what has been read before an error stays.\<close>

definition scan_sign :: "string \<Rightarrow> bool \<times> string" where
  "scan_sign s = (if HasPrefix s ''-'' then (True, tl s) else if HasPrefix s ''+'' then (False, tl s) else (False, s))"

definition scan_bind :: "string \<Rightarrow> int \<times> string" where
  "scan_bind b =
     (case scan_sign (dropWhile (\<lambda>c. c = CHR '' '') b) of (neg, s) \<Rightarrow>
        let ds = takeWhile is_digit s; rest = dropWhile is_digit s;
            v = (if neg then - int (digits_val ds) else int (digits_val ds))
        in if ds = [] \<or> \<not> (- (2 ^ 63) \<le> v \<and> v < 2 ^ 63) then (0, [])
           else if \<not> HasPrefix rest '';'' then (v, [])
           else (v, takeWhile (\<lambda>c. \<not> is_space c) (dropWhile (\<lambda>c. c = CHR '' '') (tl rest))))"

text \<open>\<^verbatim>\<open>PM\<close>: every argument is bound; none at all ends the process.\<close>

definition PM :: "string list \<Rightarrow> serv option" where
  "PM arr =
     (if arr = [] then None
      else Some (fold (\<lambda>b s. case scan_bind b of (p, d) \<Rightarrow> snd (bindOp p d [] s)) arr NewServ))"

section \<open>Reaching the target\<close>

text \<open>Up to ten attempts; the list is what they give (none: an error). The connection and the number of attempts.\<close>

fun dial_retry :: "nat \<Rightarrow> 'c option list \<Rightarrow> 'c option \<times> nat" where
  "dial_retry 0 rs = (None, 0)"
| "dial_retry (Suc n) [] = (None, 0)"
| "dial_retry (Suc n) (Some c # rs) = (Some c, 1)"
| "dial_retry (Suc n) (None # rs) = (case dial_retry n rs of (c, k) \<Rightarrow> (c, Suc k))"

text \<open>A connection that was accepted: joined to the target, or closed.\<close>

datatype 'c accepted = Joined 'c | ClosedAgain

definition serve_accepted :: "'c option list \<Rightarrow> 'c accepted" where
  "serve_accepted rs = (case fst (dial_retry 10 rs) of Some c \<Rightarrow> Joined c | None \<Rightarrow> ClosedAgain)"

section \<open>Copying\<close>

definition RECV_BUF_LEN :: nat where "RECV_BUF_LEN = 1024"

definition rep_pair :: "string \<Rightarrow> string \<times> string" where
  "rep_pair repstr =
     (if repstr = [] then ([], [])
      else case go_Split repstr '','' of a # b # _ \<Rightarrow> (a, b) | _ \<Rightarrow> ([], []))"

text \<open>Go's \<^verbatim>\<open>copy\<close> into the buffer from a position on.\<close>

definition copy_at :: "nat \<Rightarrow> string \<Rightarrow> string \<Rightarrow> string" where
  "copy_at r sr buf = (let k = min (length sr) (length buf - r) in take r buf @ take k sr @ drop (r + k) buf)"

text \<open>At most three replacements; the search goes through the whole buffer, beyond the bytes just read.\<close>

fun replace_in :: "nat \<Rightarrow> string \<Rightarrow> string \<Rightarrow> nat \<Rightarrow> nat \<Rightarrow> string \<Rightarrow> string" where
  "replace_in 0 ss sr n x buf = buf"
| "replace_in (Suc i) ss sr n x buf =
     (case go_Index (drop x buf) ss of
        None \<Rightarrow> buf
      | Some j \<Rightarrow>
          if x + j < n then replace_in i ss sr n (x + j + length ss) (copy_at (x + j) sr buf) else buf)"

text \<open>
  \<^verbatim>\<open>Trans\<close>: the buffer keeps the bytes of earlier reads. What the reads give (none: an error), and how
  many writes succeed. The result is what has been written.
\<close>

fun Trans_loop :: "string \<Rightarrow> string \<Rightarrow> string option list \<Rightarrow> nat \<Rightarrow> string \<Rightarrow> string list" where
  "Trans_loop ss sr [] w buf = []"
| "Trans_loop ss sr (None # rs) w buf = []"
| "Trans_loop ss sr (Some d # rs) w buf =
     (let n = length d; buf1 = d @ drop n buf; buf2 = (if ss \<noteq> [] then replace_in 3 ss sr n 0 buf1 else buf1)
      in case w of 0 \<Rightarrow> [] | Suc w' \<Rightarrow> take n buf2 # Trans_loop ss sr rs w' buf2)"

definition Trans :: "string \<Rightarrow> string option list \<Rightarrow> nat \<Rightarrow> string list" where
  "Trans repstr rs w =
     (case rep_pair repstr of (ss, sr) \<Rightarrow> Trans_loop ss sr rs w (replicate RECV_BUF_LEN (CHR 0x00)))"

section \<open>What holds of them\<close>

text \<open>A port has one listener, and its target is the one bound last.\<close>

definition serv_inv :: "serv \<Rightarrow> bool" where
  "serv_inv s \<longleftrightarrow> distinct (se_listening s) \<and> set (se_listening s) = dom (se_ports s)"

definition bind_step :: "serv \<Rightarrow> int \<times> string \<Rightarrow> serv" where
  "bind_step s b = snd (bindOp (fst b) (snd b) [] s)"

lemma bindOp_inv: "serv_inv s \<Longrightarrow> serv_inv (snd (bindOp port addr rep s))"
  by (auto simp: serv_inv_def bindOp_def split: option.split)

interpretation binds: inv_machine bind_step serv_inv
  by unfold_locales (simp add: bind_step_def bindOp_inv)

lemma bindOp_target: "target_of (snd (bindOp port addr rep s)) = (target_of s)(port \<mapsto> addr)"
  by (auto simp: target_of_def bindOp_def fun_eq_iff split: option.split)

lemma bind_steps_target: "target_of (foldl bind_step s bs) = target_of s ++ map_of (rev bs)"
  by (induction bs arbitrary: s) (auto simp: bind_step_def bindOp_target)

lemma PM_steps: "PM arr = (if arr = [] then None else Some (foldl bind_step NewServ (map scan_bind arr)))"
proof -
  have "fold (\<lambda>b s. case scan_bind b of (p, d) \<Rightarrow> snd (bindOp p d [] s)) arr s = foldl bind_step s (map scan_bind arr)" for s
    by (induction arr arbitrary: s) (simp_all add: bind_step_def split: prod.split)
  then show ?thesis by (simp add: PM_def)
qed

text \<open>However often a port is given on the command line, one listener is started for it, for no other
  port one is, and every connection to it goes to the target given last.\<close>

theorem pm_listens_once:
  assumes "PM arr = Some s"
  shows "distinct (se_listening s) \<and> set (se_listening s) = fst ` scan_bind ` set arr \<and>
    target_of s = map_of (rev (map scan_bind arr))"
proof -
  have s: "s = foldl bind_step NewServ (map scan_bind arr)" using assms by (simp add: PM_steps split: if_splits)
  have inv: "serv_inv s" unfolding s by (rule binds.run_inv) (simp add: serv_inv_def NewServ_def)
  have target: "target_of s = map_of (rev (map scan_bind arr))"
    unfolding s bind_steps_target by (simp add: target_of_def NewServ_def fun_eq_iff map_add_def split: option.split)
  have "dom (target_of s) = dom (se_ports s)" by (auto simp: target_of_def)
  with inv target show ?thesis by (auto simp: serv_inv_def dom_map_of_conv_image_fst)
qed

theorem pm_listens_once_witness:
  "\<exists>s. PM [''80;10.0.0.1:80'', ''90;db:5432'', ''80;10.0.0.2:80''] = Some s \<and>
     length (se_listening s) = 2 \<and> target_of s 80 = Some ''10.0.0.2:80''"
proof -
  have b: "map scan_bind [''80;10.0.0.1:80'', ''90;db:5432'', ''80;10.0.0.2:80''] =
      [(80, ''10.0.0.1:80''), (90, ''db:5432''), (80, ''10.0.0.2:80'')]" by code_simp
  obtain s where s: "PM [''80;10.0.0.1:80'', ''90;db:5432'', ''80;10.0.0.2:80''] = Some s" by (simp add: PM_def)
  note once = pm_listens_once [OF s]
  have "fst ` scan_bind ` set [''80;10.0.0.1:80'', ''90;db:5432'', ''80;10.0.0.2:80''] = {80, 90}"
    using arg_cong [OF b, of "\<lambda>xs. fst ` set xs"] by (simp add: insert_commute)
  with once have "set (se_listening s) = {80, 90}" "distinct (se_listening s)" by simp_all
  then have "length (se_listening s) = 2" by (simp flip: distinct_card)
  with s once b show ?thesis by simp
qed

lemma dial_retry_attempts: "snd (dial_retry n rs) \<le> n"
  by (induction n rs rule: dial_retry.induct) (auto split: prod.split)

lemma dial_retry_result:
  "fst (dial_retry n rs) = (case filter (\<lambda>r. r \<noteq> None) (take n rs) of [] \<Rightarrow> None | r # _ \<Rightarrow> r)"
  by (induction n rs rule: dial_retry.induct) (auto split: prod.split)

text \<open>Without a pair to replace, the bytes read are the bytes written, up to the first error.\<close>

lemma Trans_plain:
  assumes "length rs \<le> w"
  shows "Trans [] rs w = map the (takeWhile (\<lambda>r. r \<noteq> None) rs)"
proof -
  have "Trans_loop [] sr rs w buf = map the (takeWhile (\<lambda>r. r \<noteq> None) rs)" for sr buf
    using assms by (induction "[] :: string" sr rs w buf rule: Trans_loop.induct) (auto simp: Let_def split: nat.split)
  then show ?thesis by (simp add: Trans_def rep_pair_def)
qed

text \<open>With one, bytes left over from an earlier read can make a match with the end of a later one.\<close>

lemma replace_stale: "replace_in 3 ''ab'' ''xy'' 2 0 (''ca'' @ ''b'') = ''cxy''"
  by code_simp

end
