(* ===== verification/Mole_Config.thy ===== *)
theory Mole_Config
  imports Prelude Go_Path
begin

text \<open>
  The SSH tunnels of \<^verbatim>\<open>ssh_ws\<close>, a copy of the library mole: how a server and the channels of a tunnel
  are put together from arguments and the OpenSSH configuration. The library that reads the
  configuration is an argument: what \<^verbatim>\<open>Get\<close> of a host and a key gives (none: an error); so are the key
  files, the PEM decoder and the SSH agent.
\<close>

section \<open>The configuration of a host\<close>

record forward_config =
  fc_Source :: string
  fc_Destination :: string

record mole_host =
  mh_Hostname :: string
  mh_Port :: string
  mh_User :: string
  mh_Key :: string
  mh_IdentityAgent :: string
  mh_LocalForward :: "forward_config option"
  mh_RemoteForward :: "forward_config option"

type_synonym ssh_config = "string \<Rightarrow> string \<Rightarrow> string option"

text \<open>An attribute that cannot be read counts as empty.\<close>

definition config_get :: "ssh_config \<Rightarrow> string \<Rightarrow> string \<Rightarrow> string" where
  "config_get cfg host key = (case cfg host key of None \<Rightarrow> [] | Some v \<Rightarrow> v)"

definition config_getForward :: "ssh_config \<Rightarrow> string \<Rightarrow> string \<Rightarrow> forward_config option" where
  "config_getForward cfg typ host =
     (case cfg host typ of
        None \<Rightarrow> None
      | Some c \<Rightarrow>
          if c = [] then None
          else (case go_Fields c of
                  source # destination # _ \<Rightarrow>
                    (let s1 = (if HasPrefix source '':'' then ''127.0.0.1'' @ source else source);
                         s2 = (if s1 \<noteq> [] \<and> \<not> go_Contains s1 '':'' then ''127.0.0.1:'' @ s1 else s1)
                     in Some \<lparr>fc_Source = s2, fc_Destination = destination\<rparr>)
                | _ \<Rightarrow> None))"

definition config_getKey :: "string \<Rightarrow> ssh_config \<Rightarrow> string \<Rightarrow> string" where
  "config_getKey home cfg host =
     (let i = config_get cfg host ''IdentityFile''
      in if HasPrefix i ''~'' then path_Join [home, tl i] else i)"

definition config_Get :: "string \<Rightarrow> ssh_config \<Rightarrow> string \<Rightarrow> mole_host" where
  "config_Get home cfg host =
     \<lparr>mh_Hostname = config_get cfg host ''Hostname'', mh_Port = config_get cfg host ''Port'',
      mh_User = config_get cfg host ''User'', mh_Key = config_getKey home cfg host,
      mh_IdentityAgent = config_get cfg host ''IdentityAgent'',
      mh_LocalForward = config_getForward cfg ''LocalForward'' host,
      mh_RemoteForward = config_getForward cfg ''RemoteForward'' host\<rparr>"

text \<open>Opening a configuration file: \<open>read\<close> gives the parsed file of a path; an error may say that it is not there.\<close>

datatype config_file = ConfigMissing | ConfigBroken | ConfigFile ssh_config

definition NewSSHConfigFile :: "string option \<Rightarrow> (string \<Rightarrow> config_file) \<Rightarrow> string \<Rightarrow> config_file" where
  "NewSSHConfigFile user_home read path =
     (if go_Contains path ''$HOME'' then
        (case user_home of
           None \<Rightarrow> ConfigBroken
         | Some h \<Rightarrow> read (path_Clean (ReplaceAll path ''$HOME'' h)))
      else read (path_Clean path))"

section \<open>Servers\<close>

record 'k server =
  sv_Name :: string
  sv_Address :: string
  sv_User :: string
  sv_Key :: 'k
  sv_SSHAgent :: string

definition reconcile :: "string \<Rightarrow> string \<Rightarrow> string" where
  "reconcile precident subsequent = (if precident \<noteq> [] then precident else subsequent)"

datatype server_error = ErrConfig | ErrHostMissing | ErrNoHostname | ErrNoUser | ErrNoHome | ErrKey

text \<open>The surroundings: the environment, the home directory, the configuration files, what an empty
  configuration answers, and the key files.\<close>

record 'k mole_env =
  me_getenv :: "string \<Rightarrow> string"
  me_home :: "string option"
  me_config :: "string \<Rightarrow> config_file"
  me_empty_config :: ssh_config
  me_key :: "string \<Rightarrow> 'k option"

definition server_config :: "'k mole_env \<Rightarrow> string \<Rightarrow> ssh_config option" where
  "server_config env cfgPath =
     (if cfgPath = [] then Some (me_empty_config env)
      else case NewSSHConfigFile (me_home env) (me_config env) cfgPath of
             ConfigFile c \<Rightarrow> Some c
           | ConfigMissing \<Rightarrow> Some (me_empty_config env)
           | ConfigBroken \<Rightarrow> None)"

text \<open>The name and the port of an address; \<^verbatim>\<open>Split\<close> gives two parts or more where there is a colon.\<close>

definition split_address :: "string \<Rightarrow> string \<times> string" where
  "split_address address =
     (if go_Contains address '':'' then (let args = go_Split address '':'' in (args ! 0, args ! 1)) else (address, []))"

definition NewServer ::
  "'k mole_env \<Rightarrow> string \<Rightarrow> string \<Rightarrow> string \<Rightarrow> string \<Rightarrow> string \<Rightarrow> server_error + 'k server" where
  "NewServer env user address key sshAgent cfgPath =
     (case split_address address of
        (host, port0) \<Rightarrow>
          (case server_config env cfgPath of
             None \<Rightarrow> Inl ErrConfig
           | Some cfg \<Rightarrow>
               (let h = config_Get (me_getenv env ''HOME'') cfg host;
                    hostname = reconcile (mh_Hostname h) host;
                    port1 = reconcile port0 (mh_Port h);
                    user1 = reconcile user (mh_User h);
                    key1 = reconcile key (mh_Key h);
                    agent1 = reconcile sshAgent (mh_IdentityAgent h);
                    port = (if port1 = [] then ''22'' else port1);
                    key2 = (if key1 \<noteq> [] then Some key1
                            else map_option (\<lambda>home. path_Join [home, ''.ssh'', ''id_rsa'']) (me_home env));
                    agent = (if HasPrefix agent1 ''$'' then me_getenv env (tl agent1) else agent1)
                in if host = [] then Inl ErrHostMissing
                   else if hostname = [] then Inl ErrNoHostname
                   else if user1 = [] then Inl ErrNoUser
                   else case key2 of
                          None \<Rightarrow> Inl ErrNoHome
                        | Some k \<Rightarrow>
                            (case me_key env k of
                               None \<Rightarrow> Inl ErrKey
                             | Some pk \<Rightarrow>
                                 Inr \<lparr>sv_Name = host, sv_Address = hostname @ '':'' @ port, sv_User = user1, sv_Key = pk,
                                     sv_SSHAgent = agent\<rparr>))))"

section \<open>Channels\<close>

definition RandomPortAddress :: string where
  "RandomPortAddress = ''127.0.0.1:0''"

definition expandAddress :: "string \<Rightarrow> string" where
  "expandAddress address = (if HasPrefix address '':'' then ''127.0.0.1'' @ address else address)"

record ssh_channel =
  ch_ChannelType :: string
  ch_Source :: string
  ch_Destination :: string

datatype channel_error = ErrConfigFile | ErrChannelType | ErrNoForward | ErrNoDestination | ErrInvalidChannel

definition getForward :: "'k mole_env \<Rightarrow> string \<Rightarrow> string \<Rightarrow> string \<Rightarrow> channel_error + forward_config" where
  "getForward env channelType serverName cfgPath =
     (case NewSSHConfigFile (me_home env) (me_config env) cfgPath of
        ConfigFile cfg \<Rightarrow>
          (let sh = config_Get (me_getenv env ''HOME'') cfg serverName
           in if channelType = ''local'' then (case mh_LocalForward sh of None \<Rightarrow> Inl ErrNoForward | Some f \<Rightarrow> Inr f)
              else if channelType = ''remote'' then (case mh_RemoteForward sh of None \<Rightarrow> Inl ErrNoForward | Some f \<Rightarrow> Inr f)
              else Inl ErrChannelType)
      | _ \<Rightarrow> Inl ErrConfigFile)"

text \<open>The sources that go with the destinations.\<close>

definition match_sources :: "string list \<Rightarrow> nat \<Rightarrow> channel_error + string list" where
  "match_sources source rSize =
     (if rSize < length source then (if rSize = 0 then Inl ErrNoDestination else Inr (take rSize source))
      else if length source < rSize then
        Inr (map (\<lambda>i. if i < length source \<and> source ! i \<noteq> [] then source ! i else RandomPortAddress) [0..<rSize])
      else Inr source)"

definition channel_addresses ::
  "'k mole_env \<Rightarrow> string \<Rightarrow> string \<Rightarrow> string list \<Rightarrow> string list \<Rightarrow> string \<Rightarrow> channel_error + string list \<times> string list" where
  "channel_addresses env serverName channelType source destination cfgPath =
     (if source = [] \<and> destination = [] then
        (case getForward env channelType serverName cfgPath of
           Inl e \<Rightarrow> Inl e
         | Inr f \<Rightarrow> Inr ([fc_Source f], [fc_Destination f]))
      else (case match_sources source (length destination) of Inl e \<Rightarrow> Inl e | Inr s \<Rightarrow> Inr (s, destination)))"

definition buildSSHChannels ::
  "'k mole_env \<Rightarrow> string \<Rightarrow> string \<Rightarrow> string list \<Rightarrow> string list \<Rightarrow> string \<Rightarrow> channel_error + ssh_channel list" where
  "buildSSHChannels env serverName channelType source destination cfgPath =
     (case channel_addresses env serverName channelType source destination cfgPath of
        Inl e \<Rightarrow> Inl e
      | Inr (ss, ds) \<Rightarrow>
          Inr (map2 (\<lambda>s d. \<lparr>ch_ChannelType = channelType, ch_Source = s, ch_Destination = d\<rparr>)
                 (map expandAddress ss) (map expandAddress ds)))"

text \<open>The channels of \<^verbatim>\<open>New\<close>: none of them may lack an address.\<close>

definition New_channels ::
  "'k mole_env \<Rightarrow> string \<Rightarrow> string \<Rightarrow> string list \<Rightarrow> string list \<Rightarrow> string \<Rightarrow> channel_error + ssh_channel list" where
  "New_channels env serverName tunnelType source destination cfgPath =
     (case buildSSHChannels env serverName tunnelType source destination cfgPath of
        Inl e \<Rightarrow> Inl e
      | Inr chs \<Rightarrow>
          if list_ex (\<lambda>c. ch_Source c = [] \<or> ch_Destination c = []) chs then Inl ErrInvalidChannel else Inr chs)"

section \<open>Keys\<close>

record pem_key =
  pk_Data :: bytes
  pk_passphrase :: "bytes option"

definition updatePassphrase :: "bytes \<Rightarrow> pem_key \<Rightarrow> pem_key" where
  "updatePassphrase pp k = k\<lparr>pk_passphrase := (if pp = [] then None else Some pp)\<rparr>"

definition NewPemKey :: "(string \<Rightarrow> bytes option) \<Rightarrow> string \<Rightarrow> bytes \<Rightarrow> pem_key option" where
  "NewPemKey read_file path passphrase =
     (case read_file path of
        None \<Rightarrow> None
      | Some d \<Rightarrow>
          (let k = \<lparr>pk_Data = d, pk_passphrase = None\<rparr>
           in Some (if passphrase \<noteq> [] then updatePassphrase passphrase k else k)))"

text \<open>\<open>decode\<close> is \<^verbatim>\<open>pem.Decode\<close>: a block, if there is one, and the rest. An answer, an error, or a panic.\<close>

datatype 'a key_result = KeyOk 'a | KeyError | KeyPanic

definition decodePemKey :: "(bytes \<Rightarrow> 'b option \<times> bytes) \<Rightarrow> bytes \<Rightarrow> 'b option key_result" where
  "decodePemKey decode d =
     (case decode d of (p, r) \<Rightarrow>
        if p = None \<and> 0 < length r then KeyError else if length r \<noteq> 0 then KeyError else KeyOk p)"

definition IsEncrypted :: "(bytes \<Rightarrow> 'b option \<times> bytes) \<Rightarrow> ('b \<Rightarrow> bool) \<Rightarrow> pem_key \<Rightarrow> bool key_result" where
  "IsEncrypted decode encrypted k =
     (case decodePemKey decode (pk_Data k) of
        KeyError \<Rightarrow> KeyError
      | KeyPanic \<Rightarrow> KeyPanic
      | KeyOk None \<Rightarrow> KeyPanic
      | KeyOk (Some p) \<Rightarrow> KeyOk (encrypted p))"

text \<open>\<open>parse\<close> stands for \<^verbatim>\<open>ssh.ParsePrivateKey\<close>, without a passphrase and with one.\<close>

definition pem_Parse ::
  "(bytes \<Rightarrow> 'b option \<times> bytes) \<Rightarrow> ('b \<Rightarrow> bool) \<Rightarrow> (bytes \<Rightarrow> bytes option \<Rightarrow> 's option) \<Rightarrow> pem_key \<Rightarrow> 's key_result" where
  "pem_Parse decode encrypted parse k =
     (case IsEncrypted decode encrypted k of
        KeyError \<Rightarrow> KeyError
      | KeyPanic \<Rightarrow> KeyPanic
      | KeyOk enc \<Rightarrow>
          if enc \<and> pk_passphrase k = None then KeyError
          else (case parse (pk_Data k) (if enc then pk_passphrase k else None) of None \<Rightarrow> KeyError | Some s \<Rightarrow> KeyOk s))"

text \<open>The handler is asked only for an encrypted key; none: it fails.\<close>

definition HandlePassphrase ::
  "(bytes \<Rightarrow> 'b option \<times> bytes) \<Rightarrow> ('b \<Rightarrow> bool) \<Rightarrow> bytes option \<Rightarrow> pem_key \<Rightarrow> pem_key key_result" where
  "HandlePassphrase decode encrypted handler k =
     (case IsEncrypted decode encrypted k of
        KeyError \<Rightarrow> KeyError
      | KeyPanic \<Rightarrow> KeyPanic
      | KeyOk False \<Rightarrow> KeyOk k
      | KeyOk True \<Rightarrow> (case handler of None \<Rightarrow> KeyError | Some pp \<Rightarrow> KeyOk (updatePassphrase pp k)))"

text \<open>The signers a connection is made with: the key's, when it can be parsed, then the agent's.\<close>

datatype client_config = ClientConfig string "string list" | ClientError | ClientPanic

definition sshClientConfig ::
  "(pem_key \<Rightarrow> string key_result) \<Rightarrow> (string \<Rightarrow> string list option option) \<Rightarrow> bool \<Rightarrow> pem_key option \<Rightarrow> string \<Rightarrow> string \<Rightarrow> client_config" where
  "sshClientConfig parse agent known_hosts key sshAgent user =
     (if key = None \<and> sshAgent = [] then ClientError
      else case (case key of None \<Rightarrow> KeyOk [] | Some k \<Rightarrow> (case parse k of KeyOk s \<Rightarrow> KeyOk [s] | KeyError \<Rightarrow> KeyOk [] | KeyPanic \<Rightarrow> KeyPanic)) of
             KeyOk own \<Rightarrow>
               (case (if sshAgent = [] then Some []
                      else case agent sshAgent of None \<Rightarrow> Some [] | Some signers \<Rightarrow> signers) of
                  None \<Rightarrow> ClientError
                | Some others \<Rightarrow>
                    if own @ others = [] then ClientError
                    else if \<not> known_hosts then ClientError else ClientConfig user (own @ others))
           | _ \<Rightarrow> ClientPanic)"

section \<open>What comes out\<close>

lemma expandAddress_nonempty: "a \<noteq> [] \<Longrightarrow> expandAddress a \<noteq> []"
  by (simp add: expandAddress_def)

lemma expandAddress_idem: "expandAddress (expandAddress a) = expandAddress a"
  by (simp add: expandAddress_def HasPrefix_def)

text \<open>With destinations given, there is a channel for each of them, in order; its source is the one given
  at the same place, or a free port of the machine itself where there are fewer sources; further
  sources are dropped. An address that begins with its port is taken to be of the machine itself.\<close>

theorem channels_of_destinations:
  assumes "destination \<noteq> []"
  shows "\<exists>chs. buildSSHChannels env serverName typ source destination cfgPath = Inr chs \<and> length chs = length destination \<and>
    (\<forall>i<length destination.
       ch_ChannelType (chs ! i) = typ \<and>
       ch_Destination (chs ! i) = expandAddress (destination ! i) \<and>
       ch_Source (chs ! i) =
         expandAddress (if i < length source \<and> (source ! i \<noteq> [] \<or> length destination \<le> length source)
                        then source ! i else RandomPortAddress))"
proof -
  consider "length destination < length source" | "length source < length destination" | "length source = length destination"
    by linarith
  then show ?thesis
    using assms by cases (auto simp: buildSSHChannels_def channel_addresses_def match_sources_def)
qed

theorem channels_of_destinations_witness:
  "\<exists>chs. buildSSHChannels \<lparr>me_getenv = (\<lambda>_. []), me_home = None, me_config = (\<lambda>_. ConfigMissing), me_empty_config = (\<lambda>_ _. None),
      me_key = (\<lambda>_. None :: nat option)\<rparr> ''srv'' ''local'' ['':80''] ['':8080'', ''db:5432''] [] = Inr chs \<and>
    ch_Source (chs ! 0) = ''127.0.0.1:80'' \<and> ch_Source (chs ! 1) = ''127.0.0.1:0'' \<and> ch_Destination (chs ! 1) = ''db:5432''"
proof -
  have d: "['':8080'', ''db:5432''] \<noteq> []" by simp
  from channels_of_destinations [OF d, of "\<lparr>me_getenv = (\<lambda>_. []), me_home = None, me_config = (\<lambda>_. ConfigMissing),
      me_empty_config = (\<lambda>_ _. None), me_key = (\<lambda>_. None :: nat option)\<rparr>" "''srv''" "''local''" "['':80'']" "[]"]
  show ?thesis by (force simp: expandAddress_def HasPrefix_def RandomPortAddress_def)
qed

text \<open>A source that is empty is a free port when there are fewer sources than destinations, and an error of
  \<^verbatim>\<open>New\<close> when there are not.\<close>

lemma empty_source:
  "\<exists>chs. New_channels env srv typ [[]] [''a:1'', ''b:2''] cfg = Inr chs"
  "New_channels env srv typ [[]] [''a:1''] cfg = Inl ErrInvalidChannel"
  by (simp_all add: New_channels_def buildSSHChannels_def channel_addresses_def match_sources_def expandAddress_def
      HasPrefix_def RandomPortAddress_def upt_rec)

text \<open>\<^verbatim>\<open>NewServer\<close> takes every attribute from its argument if that is not empty, and from the configuration
  of the host otherwise, except the name of the machine, where the configuration comes first; without
  a port it is 22. It fails without a host or a user, with a configuration or a key that cannot be
  read, and never for want of a machine name.\<close>

theorem NewServer_reconciles:
  assumes "NewServer env user address key sshAgent cfgPath = Inr sv"
  shows "\<exists>host port cfg h. split_address address = (host, port) \<and> host \<noteq> [] \<and> server_config env cfgPath = Some cfg \<and>
    h = config_Get (me_getenv env ''HOME'') cfg host \<and> sv_Name sv = host \<and>
    sv_Address sv = (if mh_Hostname h \<noteq> [] then mh_Hostname h else host) @ '':'' @
      (if port \<noteq> [] then port else if mh_Port h \<noteq> [] then mh_Port h else ''22'') \<and>
    sv_User sv = (if user \<noteq> [] then user else mh_User h) \<and> sv_User sv \<noteq> [] \<and>
    (key \<noteq> [] \<longrightarrow> me_key env key = Some (sv_Key sv)) \<and>
    (key = [] \<and> mh_Key h \<noteq> [] \<longrightarrow> me_key env (mh_Key h) = Some (sv_Key sv))"
proof -
  obtain host port where a: "split_address address = (host, port)" by fastforce
  with assms obtain cfg where cfg: "server_config env cfgPath = Some cfg"
    by (auto simp: NewServer_def split: option.splits)
  define h where "h = config_Get (me_getenv env ''HOME'') cfg host"
  obtain k where k: "host \<noteq> []" "reconcile user (mh_User h) \<noteq> []"
      "(if reconcile key (mh_Key h) \<noteq> [] then Some (reconcile key (mh_Key h))
        else map_option (\<lambda>home. path_Join [home, ''.ssh'', ''id_rsa'']) (me_home env)) = Some k"
      "me_key env k = Some (sv_Key sv)" "sv_Name sv = host" "sv_User sv = reconcile user (mh_User h)"
      "sv_Address sv = reconcile (mh_Hostname h) host @ '':'' @
        (if reconcile port (mh_Port h) = [] then ''22'' else reconcile port (mh_Port h))"
    using assms unfolding NewServer_def a cfg Let_def h_def [symmetric] prod.case option.case
    by (simp only: split: if_split_asm option.split_asm) auto
  have key: "key \<noteq> [] \<Longrightarrow> k = key" "key = [] \<Longrightarrow> mh_Key h \<noteq> [] \<Longrightarrow> k = mh_Key h"
    using k(3) by (simp_all add: reconcile_def)
  have address: "sv_Address sv = (if mh_Hostname h \<noteq> [] then mh_Hostname h else host) @ '':'' @
      (if port \<noteq> [] then port else if mh_Port h \<noteq> [] then mh_Port h else ''22'')"
    unfolding k(7) reconcile_def by simp
  show ?thesis
    by (intro exI [of _ host] exI [of _ port] exI [of _ cfg] exI [of _ h] conjI impI)
      (use a cfg h_def k(1,2,4-6) key address in \<open>simp_all add: reconcile_def\<close>)
qed

lemma NewServer_has_hostname: "NewServer env user address key sshAgent cfgPath \<noteq> Inl ErrNoHostname"
  by (auto simp: NewServer_def reconcile_def Let_def split: prod.split option.split)

text \<open>An empty key file ends the process: there is no block, and no rest that would make it an error.\<close>

lemma empty_key_panics:
  assumes "decode [] = (None, [])"
  shows "pem_Parse decode encrypted parse \<lparr>pk_Data = [], pk_passphrase = pp\<rparr> = KeyPanic"
  by (simp add: pem_Parse_def IsEncrypted_def decodePemKey_def assms)

text \<open>Once the handler has given a passphrase, an encrypted key is parsed with it; the handler is not asked
  for another key.\<close>

lemma passphrase_used:
  assumes "IsEncrypted decode encrypted k = KeyOk True" "pp \<noteq> []"
  shows "\<exists>k'. HandlePassphrase decode encrypted (Some pp) k = KeyOk k' \<and>
    pem_Parse decode encrypted parse k' = (case parse (pk_Data k) (Some pp) of None \<Rightarrow> KeyError | Some s \<Rightarrow> KeyOk s)"
proof -
  have "IsEncrypted decode encrypted (updatePassphrase pp k) = KeyOk True"
    using assms(1) by (simp add: IsEncrypted_def updatePassphrase_def)
  then show ?thesis
    using assms by (simp add: HandlePassphrase_def pem_Parse_def) (simp add: updatePassphrase_def)
qed

definition sample_env :: "nat mole_env" where
  "sample_env =
     \<lparr>me_getenv = (\<lambda>_. ''/home/u''), me_home = Some ''/home/u'',
      me_config = (\<lambda>p. if p = ''/home/u/.ssh/config''
        then ConfigFile (\<lambda>h k. if h = ''web'' \<and> k = ''Hostname'' then Some ''10.0.0.1'' else if k = ''User'' then Some ''root'' else None)
        else ConfigMissing),
      me_empty_config = (\<lambda>_ _. Some []), me_key = (\<lambda>p. if p = ''/home/u/.ssh/id_rsa'' then Some 1 else None)\<rparr>"

theorem NewServer_reconciles_witness:
  "\<exists>sv. NewServer sample_env [] ''web:2222'' [] [] ''$HOME/.ssh/config'' = Inr sv \<and>
     sv_Name sv = ''web'' \<and> sv_User sv = ''root'' \<and> sv_Address sv = ''10.0.0.1:2222'' \<and>
     server_config sample_env ''$HOME/.ssh/config'' \<noteq> None"
proof -
  have run: "NewServer sample_env [] ''web:2222'' [] [] ''$HOME/.ssh/config'' =
      Inr \<lparr>sv_Name = ''web'', sv_Address = ''10.0.0.1:2222'', sv_User = ''root'', sv_Key = 1, sv_SSHAgent = []\<rparr>"
    by code_simp
  from NewServer_reconciles [OF run] obtain host port cfg where
    s: "split_address ''web:2222'' = (host, port)" "server_config sample_env ''$HOME/.ssh/config'' = Some cfg" by blast
  with run show ?thesis by auto
qed

end
