(* ===== verification/Mole_Tunnel.thy ===== *)
theory Mole_Tunnel
  imports Mole_Config
begin

text \<open>
  The goroutines of a tunnel of \<^verbatim>\<open>ssh_ws/tunnel.go\<close>: the loop of \<^verbatim>\<open>Start\<close>, the connecting, one loop per
  channel that accepts connections, the keep-alive and the one that waits for the end of a connection.
  They meet in three channels of capacity one. A step of the relation is what one of them does between two
  points where another can come between; what the network does is a step too.
\<close>

section \<open>The state\<close>

record mole_conf =
  mc_type :: string
  mc_retries :: int

text \<open>A listener of the machine itself, or one that a client has asked its server for.\<close>

datatype listener = LocalL | RemoteL nat

text \<open>
  Where a goroutine stands: connecting (the flag: called by \<^verbatim>\<open>Start\<close> itself) before the configuration,
  dialling for the n-th time, or making the listener of the k-th channel; accepting on a channel;
  sending an error to \<^verbatim>\<open>done\<close>; waiting for the end of a client; finished.
\<close>

datatype proc =
  PConf bool | PDial bool nat | PListen bool nat | PAccept nat | PSendDone bool | PWaitStart | PWait nat | PEnd

datatype main_pc = MStart | MSelect | MStopR | MStopD | MRet | MPanic

record mole =
  mt_main :: main_pc
  mt_procs :: "proc list"
  mt_client :: "nat option"
  mt_next :: nat
  mt_dead :: "nat list"
  mt_listeners :: "listener option list"
  mt_reconnect :: "bool option"
  mt_done :: bool
  mt_stop :: nat
  mt_keepers :: nat
  mt_accepted :: nat

definition mole_start :: "nat \<Rightarrow> mole" where
  "mole_start n =
     \<lparr>mt_main = MStart, mt_procs = [PConf True], mt_client = None, mt_next = 0, mt_dead = [],
      mt_listeners = replicate n None, mt_reconnect = None, mt_done = False, mt_stop = 0, mt_keepers = 0, mt_accepted = 0\<rparr>"

definition at_pc :: "mole \<Rightarrow> nat \<Rightarrow> proc \<Rightarrow> bool" where
  "at_pc s i p \<longleftrightarrow> i < length (mt_procs s) \<and> mt_procs s ! i = p"

definition goto :: "nat \<Rightarrow> proc \<Rightarrow> proc list \<Rightarrow> mole \<Rightarrow> mole" where
  "goto i p new s = s\<lparr>mt_procs := (mt_procs s)[i := p] @ new\<rparr>"

text \<open>\<^verbatim>\<open>connect\<close> returns; the first one returns to \<^verbatim>\<open>Start\<close>.\<close>

definition connected :: "bool \<Rightarrow> mole \<Rightarrow> mole" where
  "connected first s = (if first then s\<lparr>mt_main := MSelect\<rparr> else s)"

definition close_client :: "mole \<Rightarrow> mole" where
  "close_client s = (case mt_client s of None \<Rightarrow> s | Some c \<Rightarrow> s\<lparr>mt_dead := c # mt_dead s\<rparr>)"

definition retries_used :: "mole_conf \<Rightarrow> nat \<Rightarrow> bool" where
  "retries_used cf r \<longleftrightarrow> mc_retries cf > 0 \<and> int r = mc_retries cf"

definition is_open :: "mole \<Rightarrow> listener option \<Rightarrow> bool" where
  "is_open s l = (case l of Some LocalL \<Rightarrow> True | Some (RemoteL c) \<Rightarrow> c \<notin> set (mt_dead s) | None \<Rightarrow> False)"

section \<open>The steps\<close>

inductive mole_act :: "mole_conf \<Rightarrow> mole \<Rightarrow> mole \<Rightarrow> bool" for cf :: mole_conf where
  conf_ok: "at_pc s i (PConf f) \<Longrightarrow> mole_act cf s (goto i (PDial f 0) [] (close_client s))"
| conf_err: "at_pc s i (PConf f) \<Longrightarrow> mole_act cf s (goto i (PSendDone f) [] (close_client s))"
| dial_max: "at_pc s i (PDial f r) \<Longrightarrow> retries_used cf r \<Longrightarrow> mole_act cf s (goto i (PSendDone f) [] s)"
| dial_ok: "at_pc s i (PDial f r) \<Longrightarrow> \<not> retries_used cf r \<Longrightarrow>
    mole_act cf s (goto i (PListen f 0) (if mc_retries cf > 0 then [PWaitStart] else [])
      (s\<lparr>mt_client := Some (mt_next s), mt_next := Suc (mt_next s), mt_keepers := Suc (mt_keepers s)\<rparr>))"
| dial_again: "at_pc s i (PDial f r) \<Longrightarrow> \<not> retries_used cf r \<Longrightarrow> mc_retries cf \<ge> 0 \<Longrightarrow>
    mole_act cf s (goto i (PDial f (Suc r)) [] (s\<lparr>mt_client := None\<rparr>))"
| dial_gives_up: "at_pc s i (PDial f r) \<Longrightarrow> mc_retries cf < 0 \<Longrightarrow>
    mole_act cf s (goto i (PListen f 0) [] (s\<lparr>mt_client := None, mt_keepers := Suc (mt_keepers s)\<rparr>))"
| listen_kept: "at_pc s i (PListen f k) \<Longrightarrow> k < length (mt_listeners s) \<Longrightarrow> mt_listeners s ! k \<noteq> None \<Longrightarrow>
    mole_act cf s (goto i (PListen f (Suc k)) [] s)"
| listen_local: "at_pc s i (PListen f k) \<Longrightarrow> k < length (mt_listeners s) \<Longrightarrow> mt_listeners s ! k = None \<Longrightarrow>
    mc_type cf = ''local'' \<Longrightarrow>
    mole_act cf s (goto i (PListen f (Suc k)) [] (s\<lparr>mt_listeners := (mt_listeners s)[k := Some LocalL]\<rparr>))"
| listen_remote: "at_pc s i (PListen f k) \<Longrightarrow> k < length (mt_listeners s) \<Longrightarrow> mt_listeners s ! k = None \<Longrightarrow>
    mc_type cf = ''remote'' \<Longrightarrow> mt_client s = Some c \<Longrightarrow> c \<notin> set (mt_dead s) \<Longrightarrow>
    mole_act cf s (goto i (PListen f (Suc k)) [] (s\<lparr>mt_listeners := (mt_listeners s)[k := Some (RemoteL c)]\<rparr>))"
| listen_nil: "at_pc s i (PListen f k) \<Longrightarrow> k < length (mt_listeners s) \<Longrightarrow> mt_listeners s ! k = None \<Longrightarrow>
    mc_type cf = ''remote'' \<Longrightarrow> mt_client s = None \<Longrightarrow> mole_act cf s (s\<lparr>mt_main := MPanic\<rparr>)"
| listen_err: "at_pc s i (PListen f k) \<Longrightarrow> k < length (mt_listeners s) \<Longrightarrow> mt_listeners s ! k = None \<Longrightarrow>
    mole_act cf s (goto i (PSendDone f) [] s)"
| listen_end: "at_pc s i (PListen f k) \<Longrightarrow> k = length (mt_listeners s) \<Longrightarrow>
    mole_act cf s (connected f (goto i PEnd (map PAccept [0..<length (mt_listeners s)]) s))"
| accept_ok: "at_pc s i (PAccept k) \<Longrightarrow> k < length (mt_listeners s) \<Longrightarrow> is_open s (mt_listeners s ! k) \<Longrightarrow>
    mt_client s \<noteq> None \<Longrightarrow> mole_act cf s (s\<lparr>mt_accepted := Suc (mt_accepted s)\<rparr>)"
| accept_err: "at_pc s i (PAccept k) \<Longrightarrow> mole_act cf s (goto i (PSendDone False) [] s)"
| send_done: "at_pc s i (PSendDone f) \<Longrightarrow> \<not> mt_done s \<Longrightarrow>
    mole_act cf s (connected f (goto i PEnd [] (s\<lparr>mt_done := True\<rparr>)))"
| wait_nil: "at_pc s i PWaitStart \<Longrightarrow> mt_client s = None \<Longrightarrow> mole_act cf s (s\<lparr>mt_main := MPanic\<rparr>)"
| wait_start: "at_pc s i PWaitStart \<Longrightarrow> mt_client s = Some c \<Longrightarrow> mole_act cf s (goto i (PWait c) [] s)"
| wait_end: "at_pc s i (PWait c) \<Longrightarrow> c \<in> set (mt_dead s) \<Longrightarrow> mt_reconnect s = None \<Longrightarrow>
    mole_act cf s (goto i PEnd [] (s\<lparr>mt_reconnect := Some e\<rparr>))"
| client_lost: "c < mt_next s \<Longrightarrow> mole_act cf s (s\<lparr>mt_dead := c # mt_dead s\<rparr>)"
| main_reconnect: "mt_main s = MSelect \<Longrightarrow> mt_reconnect s = Some True \<Longrightarrow>
    mole_act cf s (s\<lparr>mt_main := MStopR, mt_reconnect := None\<rparr>)"
| main_no_error: "mt_main s = MSelect \<Longrightarrow> mt_reconnect s = Some False \<Longrightarrow> mole_act cf s (s\<lparr>mt_reconnect := None\<rparr>)"
| main_done: "mt_main s = MSelect \<Longrightarrow> mt_done s \<Longrightarrow>
    mole_act cf s (s\<lparr>mt_main := (if mt_client s = None then MRet else MStopD), mt_done := False\<rparr>)"
| main_restart: "mt_main s = MStopR \<Longrightarrow> mt_stop s = 0 \<Longrightarrow>
    mole_act cf s
      (if mt_client s = None then s\<lparr>mt_stop := 1, mt_main := MPanic\<rparr>
       else (close_client s)\<lparr>mt_stop := 1, mt_main := MSelect, mt_procs := mt_procs s @ [PConf False]\<rparr>)"
| main_stop: "mt_main s = MStopD \<Longrightarrow> mt_stop s = 0 \<Longrightarrow>
    mole_act cf s ((close_client s)\<lparr>mt_stop := 1, mt_main := (if mt_client s = None then MPanic else MRet)\<rparr>)"
| user_stop: "\<not> mt_done s \<Longrightarrow> mole_act cf s (s\<lparr>mt_done := True\<rparr>)"
| keeper_stops: "mt_stop s > 0 \<Longrightarrow> mt_keepers s > 0 \<Longrightarrow>
    mole_act cf s (s\<lparr>mt_stop := mt_stop s - 1, mt_keepers := mt_keepers s - 1\<rparr>)"
| keeper_nil: "mt_keepers s > 0 \<Longrightarrow> mt_client s = None \<Longrightarrow> mole_act cf s (s\<lparr>mt_main := MPanic\<rparr>)"

text \<open>After a panic there is no process.\<close>

definition mole_step :: "mole_conf \<Rightarrow> mole \<Rightarrow> mole \<Rightarrow> bool" where
  "mole_step cf s s' \<longleftrightarrow> mt_main s \<noteq> MPanic \<and> mole_act cf s s'"

inductive mole_reach :: "mole_conf \<Rightarrow> nat \<Rightarrow> mole \<Rightarrow> bool" for cf n where
  reach_start: "mole_reach cf n (mole_start n)"
| reach_step: "mole_reach cf n s \<Longrightarrow> mole_step cf s s' \<Longrightarrow> mole_reach cf n s'"

section \<open>Stopping the keep-alive never deadlocks\<close>

text \<open>How many goroutines wait for the end of a client.\<close>

definition is_wait :: "proc \<Rightarrow> bool" where
  "is_wait p \<longleftrightarrow> (case p of PWaitStart \<Rightarrow> True | PWait c \<Rightarrow> True | _ \<Rightarrow> False)"

definition waiters :: "mole \<Rightarrow> nat" where
  "waiters s = length (filter is_wait (mt_procs s))"

text \<open>
  Each keep-alive has at most one message on its way: the stop itself, the restart of the main loop, the
  lost connection in \<^verbatim>\<open>reconnect\<close>, or the goroutine that will report it.
\<close>

text \<open>The goroutine of \<^verbatim>\<open>Start\<close> itself, as long as it connects.\<close>

definition is_first :: "proc \<Rightarrow> bool" where
  "is_first p \<longleftrightarrow> (case p of PConf f \<Rightarrow> f | PDial f r \<Rightarrow> f | PListen f k \<Rightarrow> f | PSendDone f \<Rightarrow> f | _ \<Rightarrow> False)"

definition firsts :: "mole \<Rightarrow> nat" where
  "firsts s = length (filter is_first (mt_procs s))"

definition stops_covered :: "mole \<Rightarrow> bool" where
  "stops_covered s \<longleftrightarrow> mt_stop s \<le> 1 \<and> firsts s \<le> of_bool (mt_main s \<in> {MStart, MPanic}) \<and> (mt_main s \<noteq> MRet \<longrightarrow> mt_main s \<noteq> MPanic \<longrightarrow>
     mt_stop s + waiters s + of_bool (mt_reconnect s \<noteq> None) + of_bool (mt_main s = MStopR) \<le> mt_keepers s)"

lemma is_wait_simps [simp]:
  "\<not> is_wait (PConf f)" "\<not> is_wait (PDial f r)" "\<not> is_wait (PListen f k)" "\<not> is_wait (PAccept k)"
  "\<not> is_wait (PSendDone f)" "is_wait PWaitStart" "is_wait (PWait c)" "\<not> is_wait PEnd"
  by (simp_all add: is_wait_def)

lemma is_first_simps [simp]:
  "is_first (PConf f) = f" "is_first (PDial f r) = f" "is_first (PListen f k) = f" "\<not> is_first (PAccept k)"
  "is_first (PSendDone f) = f" "\<not> is_first PWaitStart" "\<not> is_first (PWait c)" "\<not> is_first PEnd"
  by (simp_all add: is_first_def)

lemma filter_update_len:
  "i < length xs \<Longrightarrow>
    length (filter P (xs[i := y])) + of_bool (P (xs ! i)) = length (filter P xs) + of_bool (P y)"
proof (induction xs arbitrary: i)
  case (Cons x xs)
  then show ?case
    by (cases i) (use Cons.IH in force)+
qed simp

lemma waiters_goto:
  assumes "at_pc s i p" and "mt_procs s' = mt_procs s"
  shows "waiters (goto i q new s') + of_bool (is_wait p)
    = waiters s + of_bool (is_wait q) + length (filter is_wait new)"
  using filter_update_len [of i "mt_procs s" is_wait q] assms by (simp add: waiters_def goto_def at_pc_def)

lemma firsts_goto:
  assumes "at_pc s i p" and "mt_procs s' = mt_procs s"
  shows "firsts (goto i q new s') + of_bool (is_first p)
    = firsts s + of_bool (is_first q) + length (filter is_first new)"
  using filter_update_len [of i "mt_procs s" is_first q] assms by (simp add: firsts_def goto_def at_pc_def)

lemma goto_frame [simp]:
  "mt_main (goto i q new s) = mt_main s" "mt_client (goto i q new s) = mt_client s"
  "mt_next (goto i q new s) = mt_next s" "mt_dead (goto i q new s) = mt_dead s"
  "mt_listeners (goto i q new s) = mt_listeners s" "mt_reconnect (goto i q new s) = mt_reconnect s"
  "mt_done (goto i q new s) = mt_done s" "mt_stop (goto i q new s) = mt_stop s"
  "mt_keepers (goto i q new s) = mt_keepers s" "mt_accepted (goto i q new s) = mt_accepted s"
  by (simp_all add: goto_def)

lemma close_frame [simp]:
  "mt_main (close_client s) = mt_main s" "mt_client (close_client s) = mt_client s"
  "mt_procs (close_client s) = mt_procs s"
  "mt_next (close_client s) = mt_next s" "mt_listeners (close_client s) = mt_listeners s"
  "mt_reconnect (close_client s) = mt_reconnect s" "mt_done (close_client s) = mt_done s"
  "mt_stop (close_client s) = mt_stop s" "mt_keepers (close_client s) = mt_keepers s"
  "mt_accepted (close_client s) = mt_accepted s"
  "x \<in> set (mt_dead s) \<Longrightarrow> x \<in> set (mt_dead (close_client s))" "set (mt_dead s) \<subseteq> set (mt_dead (close_client s))"
  by (auto simp: close_client_def split: option.splits)

lemma connected_frame [simp]:
  "mt_procs (connected f s) = mt_procs s" "mt_next (connected f s) = mt_next s" "mt_client (connected f s) = mt_client s"
  "mt_dead (connected f s) = mt_dead s" "mt_listeners (connected f s) = mt_listeners s"
  "mt_reconnect (connected f s) = mt_reconnect s" "mt_stop (connected f s) = mt_stop s"
  "mt_keepers (connected f s) = mt_keepers s" "mt_accepted (connected f s) = mt_accepted s"
  "mt_main (connected f s) = (if f then MSelect else mt_main s)"
  by (simp_all add: connected_def)


lemma counts_frame [simp]:
  "waiters (mt_main_update f0 s) = waiters s" "waiters (mt_client_update f1 s) = waiters s" "waiters (mt_next_update f2 s) = waiters s" "waiters (mt_dead_update f3 s) = waiters s" "waiters (mt_listeners_update f4 s) = waiters s"
  "waiters (mt_reconnect_update f5 s) = waiters s" "waiters (mt_done_update f6 s) = waiters s" "waiters (mt_stop_update f7 s) = waiters s" "waiters (mt_keepers_update f8 s) = waiters s" "waiters (mt_accepted_update f9 s) = waiters s"
  "firsts (mt_main_update f0 s) = firsts s" "firsts (mt_client_update f1 s) = firsts s" "firsts (mt_next_update f2 s) = firsts s" "firsts (mt_dead_update f3 s) = firsts s" "firsts (mt_listeners_update f4 s) = firsts s"
  "firsts (mt_reconnect_update f5 s) = firsts s" "firsts (mt_done_update f6 s) = firsts s" "firsts (mt_stop_update f7 s) = firsts s" "firsts (mt_keepers_update f8 s) = firsts s" "firsts (mt_accepted_update f9 s) = firsts s"
  "waiters (close_client s) = waiters s" "firsts (close_client s) = firsts s"
  "waiters (connected b s) = waiters s" "firsts (connected b s) = firsts s"
  by (simp_all add: waiters_def firsts_def)

lemmas goto_counts = waiters_goto firsts_goto

lemma goto_waiters_unchanged:
  assumes "at_pc s i p" and "mt_procs s' = mt_procs s" and "\<not> is_wait p" and "\<not> is_wait q"
    and "is_first p = is_first q" and "filter is_wait new = []" and "filter is_first new = []"
  shows "waiters (goto i q new s') = waiters s \<and> firsts (goto i q new s') = firsts s"
  using goto_counts [OF assms(1,2), of q new] assms(3-) by simp

lemma mole_start_covered: "stops_covered (mole_start n)"
  by (simp add: stops_covered_def mole_start_def firsts_def waiters_def)

lemma accept_filters [simp]: "filter is_wait (map PAccept ks) = []" "filter is_first (map PAccept ks) = []"
  by (induction ks) auto

lemma goto_covered:
  assumes "stops_covered s" and "at_pc s i p" and "mt_procs s' = mt_procs s" and "\<not> is_wait p" and "\<not> is_wait q"
    and "is_first p = is_first q" and "filter is_wait new = []" and "filter is_first new = []"
    and "mt_stop s' = mt_stop s" and "mt_main s' = mt_main s" and "mt_reconnect s' = mt_reconnect s"
    and "mt_keepers s \<le> mt_keepers s'"
  shows "stops_covered (goto i q new s')"
  using assms goto_waiters_unchanged [OF assms(2-8)] by (auto simp: stops_covered_def)

lemma goto_end_covered:
  assumes "stops_covered s" and "at_pc s i p" and "mt_procs s' = mt_procs s" and "\<not> is_wait p"
    and "is_first p = f" and "filter is_wait new = []" and "filter is_first new = []"
    and "mt_stop s' = mt_stop s" and "mt_main s' = mt_main s" and "mt_reconnect s' = mt_reconnect s"
    and "mt_keepers s' = mt_keepers s" and "mt_main s \<noteq> MPanic"
  shows "stops_covered (connected f (goto i PEnd new s'))"
proof -
  have w: "waiters (connected f (goto i PEnd new s')) = waiters s"
    "firsts (connected f (goto i PEnd new s')) + of_bool f = firsts s"
    using goto_counts [OF assms(2,3), of PEnd new] assms by simp_all
  show ?thesis
    using assms w by (cases f; cases "mt_main s = MStart") (auto simp: stops_covered_def)
qed

lemma mole_step_covered:
  assumes "mole_act cf s s'" and "stops_covered s" and "mt_main s \<noteq> MPanic"
  shows "stops_covered s'"
  using assms
proof (cases rule: mole_act.cases)
  case (dial_ok i f r)
  then show ?thesis
    using goto_counts [of s i "PDial f r" "s\<lparr>mt_client := Some (mt_next s), mt_next := Suc (mt_next s),
      mt_keepers := Suc (mt_keepers s)\<rparr>" "PListen f 0" "if mc_retries cf > 0 then [PWaitStart] else []"] assms(2)
    by (auto simp: stops_covered_def split: if_splits)
next
  case (wait_start i c)
  then show ?thesis
    using goto_counts [of s i PWaitStart s "PWait c" "[]"] assms(2) by (auto simp: stops_covered_def)
next
  case (wait_end i c e)
  then show ?thesis
    using goto_counts [of s i "PWait c" "s\<lparr>mt_reconnect := Some e\<rparr>" PEnd "[]"] assms(2)
    by (auto simp: stops_covered_def)
next
  case (listen_end i f k)
  show ?thesis
    unfolding listen_end(1) by (rule goto_end_covered [OF assms(2) listen_end(2)]) (simp_all add: assms(3))
next
  case (send_done i f)
  show ?thesis
    unfolding send_done(1) by (rule goto_end_covered [OF assms(2) send_done(2)]) (simp_all add: assms(3))
next
  case main_restart
  then show ?thesis
    using assms(2) by (auto simp: stops_covered_def waiters_def firsts_def)
next
  case (conf_ok i f)
  show ?thesis
    unfolding conf_ok(1) by (rule goto_covered [OF assms(2) conf_ok(2)]) simp_all
next
  case (conf_err i f)
  show ?thesis
    unfolding conf_err(1) by (rule goto_covered [OF assms(2) conf_err(2)]) simp_all
next
  case (dial_max i f r)
  show ?thesis
    unfolding dial_max(1) by (rule goto_covered [OF assms(2) dial_max(2)]) simp_all
next
  case (dial_again i f r)
  show ?thesis
    unfolding dial_again(1) by (rule goto_covered [OF assms(2) dial_again(2)]) simp_all
next
  case (dial_gives_up i f r)
  show ?thesis
    unfolding dial_gives_up(1) by (rule goto_covered [OF assms(2) dial_gives_up(2)]) simp_all
next
  case (listen_kept i f k)
  show ?thesis
    unfolding listen_kept(1) by (rule goto_covered [OF assms(2) listen_kept(2)]) simp_all
next
  case (listen_local i f k)
  show ?thesis
    unfolding listen_local(1) by (rule goto_covered [OF assms(2) listen_local(2)]) simp_all
next
  case (listen_remote i f k c)
  show ?thesis
    unfolding listen_remote(1) by (rule goto_covered [OF assms(2) listen_remote(2)]) simp_all
next
  case (listen_err i f k)
  show ?thesis
    unfolding listen_err(1) by (rule goto_covered [OF assms(2) listen_err(2)]) simp_all
next
  case (accept_err i k)
  show ?thesis
    unfolding accept_err(1) by (rule goto_covered [OF assms(2) accept_err(2)]) simp_all
qed (auto simp: stops_covered_def of_bool_def split: if_splits)

lemma mole_reach_covered: "mole_reach cf n s \<Longrightarrow> stops_covered s"
  by (induction rule: mole_reach.induct) (auto simp: mole_start_covered mole_step_def intro: mole_step_covered)


text \<open>
  C32: stopping the keep-alive never blocks the loop of \<^verbatim>\<open>Start\<close> for ever. Whatever the goroutines, the
  network and the user did before, and however often the tunnel was reconnected: when the loop is about to
  send on \<^verbatim>\<open>stopKeepAlive\<close> (to reconnect or to return), either there is room, or a keep-alive
  goroutine runs that takes the earlier message and makes room; then the loop goes on. (The request that a
  keep-alive has sent is answered, or fails, in the end.)
\<close>
theorem keepalive_stop_passes:
  assumes "mole_reach cf n s" and "mt_main s = MStopR \<or> mt_main s = MStopD" and "mt_client s \<noteq> None"
  shows "\<exists>s1 s2. (s1 = s \<or> mole_step cf s s1) \<and> mole_step cf s1 s2 \<and>
    mt_main s2 = (if mt_main s = MStopR then MSelect else MRet)"
proof -
  have c: "mt_stop s \<le> 1" "mt_stop s \<le> mt_keepers s"
    using mole_reach_covered [OF assms(1)] assms(2) by (auto simp: stops_covered_def)
  obtain s1 where s1: "s1 = s \<or> mole_step cf s s1" "mt_stop s1 = 0" "mt_main s1 = mt_main s" "mt_client s1 = mt_client s"
  proof (cases "mt_stop s = 0")
    case False
    let ?s = "s\<lparr>mt_stop := mt_stop s - 1, mt_keepers := mt_keepers s - 1\<rparr>"
    have "mole_act cf s ?s"
      by (rule mole_act.keeper_stops) (use False c in simp_all)
    then have "mole_step cf s ?s"
      using assms(2) by (auto simp: mole_step_def)
    moreover have "mt_stop ?s = 0" "mt_main ?s = mt_main s" "mt_client ?s = mt_client s"
      using c by simp_all
    ultimately show ?thesis
      using that by blast
  qed (use that [of s] in simp)
  show ?thesis
    using assms(2)
  proof
    assume m: "mt_main s = MStopR"
    then have "mole_step cf s1 ((close_client s1)\<lparr>mt_stop := 1, mt_main := MSelect, mt_procs := mt_procs s1 @ [PConf False]\<rparr>)"
      using mole_act.main_restart [of s1 cf] s1 assms(3) by (simp add: mole_step_def)
    with s1(1) m show ?thesis
      by fastforce
  next
    assume m: "mt_main s = MStopD"
    then have "mole_step cf s1 ((close_client s1)\<lparr>mt_stop := 1, mt_main := MRet\<rparr>)"
      using mole_act.main_stop [of s1 cf] s1 assms(3) by (simp add: mole_step_def)
    with s1(1) m show ?thesis
      by fastforce
  qed
qed

section \<open>What a reconnection does not bring back\<close>

text \<open>Every listener is one on the server of a client that is lost.\<close>

definition all_lost :: "mole \<Rightarrow> bool" where
  "all_lost s \<longleftrightarrow> (\<forall>l \<in> set (mt_listeners s). case l of Some (RemoteL c) \<Rightarrow> c \<in> set (mt_dead s) | _ \<Rightarrow> False)"

lemma all_lost_mono:
  assumes "all_lost s" and "mt_listeners s' = mt_listeners s" and "set (mt_dead s) \<subseteq> set (mt_dead s')"
  shows "all_lost s'"
  using assms by (fastforce simp: all_lost_def split: option.splits listener.splits)

lemma all_lost_nth:
  "all_lost s \<Longrightarrow> k < length (mt_listeners s) \<Longrightarrow> mt_listeners s ! k \<noteq> None \<and> \<not> is_open s (mt_listeners s ! k)"
  by (auto simp: all_lost_def is_open_def split: option.splits listener.splits dest!: nth_mem)

lemma mole_act_all_lost:
  assumes "mole_act cf s s'" and "all_lost s"
  shows "all_lost s' \<and> mt_accepted s' = mt_accepted s"
  using assms
proof (cases rule: mole_act.cases)
qed (use assms(2) in \<open>auto dest: all_lost_nth intro!: all_lost_mono [OF assms(2)]\<close>)

interpretation lost: inv_relation "mole_step cf" "\<lambda>s. all_lost s \<and> mt_accepted s = n" for cf n
  by unfold_locales (auto simp: mole_step_def dest: mole_act_all_lost)

text \<open>
  A remote tunnel that lost its connection accepts nothing any more, although it reconnects. Once every
  channel's listener belongs to a client whose connection is gone, no run of the tunnel, however often it
  dials a new client with success and starts its accepting goroutines again, ever takes another
  connection, and its listeners stay the lost ones: \<^verbatim>\<open>Listen\<close> keeps a listener that is there.
\<close>
theorem remote_tunnel_stays_dead:
  assumes "(mole_step cf)\<^sup>*\<^sup>* s s'" and "all_lost s"
  shows "mt_accepted s' = mt_accepted s \<and> (\<forall>l \<in> set (mt_listeners s'). \<not> is_open s' l)"
  using lost.path_inv [OF assms(1), of "mt_accepted s"] assms(2) by (auto simp: all_lost_def is_open_def split: option.splits listener.splits)

section \<open>A tunnel of one channel that is lost and dialled again\<close>

definition one_conf :: "string \<Rightarrow> mole_conf" where
  "one_conf ty = \<lparr>mc_type = ty, mc_retries = 3\<rparr>"

text \<open>After the first connection: its client 0 is waited for, the channel accepts.\<close>

definition one_up :: "listener \<Rightarrow> mole" where
  "one_up l = \<lparr>mt_main = MSelect, mt_procs = [PEnd, PWait 0, PAccept 0], mt_client = Some 0, mt_next = 1, mt_dead = [],
     mt_listeners = [Some l], mt_reconnect = None, mt_done = False, mt_stop = 0, mt_keepers = 1, mt_accepted = 0\<rparr>"

text \<open>The connection is lost, and the loop of \<^verbatim>\<open>Start\<close> is about to stop the keep-alive.\<close>

definition one_lost :: "listener \<Rightarrow> mole" where
  "one_lost l = (one_up l)\<lparr>mt_main := MStopR, mt_dead := [0], mt_procs := [PEnd, PEnd, PAccept 0]\<rparr>"

text \<open>It has dialled again: client 1 is alive, and the channel has a second accepting goroutine.\<close>

definition one_again :: "listener \<Rightarrow> mole" where
  "one_again l = (one_up l)\<lparr>mt_dead := [0, 0, 0], mt_procs := [PEnd, PEnd, PAccept 0, PEnd, PWaitStart, PAccept 0],
     mt_client := Some 1, mt_next := 2, mt_stop := 1, mt_keepers := 2\<rparr>"

lemma mole_path_step: "mole_act cf s s' \<Longrightarrow> mt_main s \<noteq> MPanic \<Longrightarrow> (mole_step cf)\<^sup>*\<^sup>* s' t \<Longrightarrow> (mole_step cf)\<^sup>*\<^sup>* s t"
  by (rule converse_rtranclp_into_rtranclp) (simp add: mole_step_def)

lemma mole_reach_path: "(mole_step cf)\<^sup>*\<^sup>* s t \<Longrightarrow> mole_reach cf n s \<Longrightarrow> mole_reach cf n t"
  by (induction rule: rtranclp_induct) (auto intro: reach_step)

lemmas mole_eval = at_pc_def goto_def connected_def close_client_def retries_used_def one_conf_def mole_start_def

lemma remote_up: "(mole_step (one_conf ''remote''))\<^sup>*\<^sup>* (mole_start 1) (one_up (RemoteL 0))"
  apply (rule mole_path_step, rule conf_ok [where i = 0 and f = True])
    apply (simp_all add: mole_eval)
  apply (rule mole_path_step, rule dial_ok [where i = 0 and f = True and r = 0])
     apply (simp_all add: mole_eval)
  apply (rule mole_path_step, rule listen_remote [where i = 0 and f = True and k = 0 and c = 0])
         apply (simp_all add: mole_eval)
  apply (rule mole_path_step, rule listen_end [where i = 0 and f = True and k = 1])
     apply (simp_all add: mole_eval)
  apply (rule mole_path_step, rule wait_start [where i = 1 and c = 0])
     apply (simp_all add: mole_eval one_up_def)
  done

lemma lost_path: "(mole_step cf)\<^sup>*\<^sup>* (one_up l) (one_lost l)"
  apply (rule mole_path_step, rule client_lost [where c = 0])
    apply (simp_all add: one_up_def)
  apply (rule mole_path_step, rule wait_end [where i = 1 and c = 0 and e = True])
       apply (simp_all add: mole_eval)
  apply (rule mole_path_step, rule main_reconnect)
     apply (simp_all add: mole_eval one_lost_def one_up_def)
  done

lemma again_path: "(mole_step (one_conf ty))\<^sup>*\<^sup>* (one_lost l) (one_again l)"
  apply (rule mole_path_step, rule main_restart)
     apply (simp_all add: one_lost_def one_up_def mole_eval)
  apply (rule mole_path_step, rule conf_ok [where i = 3 and f = False])
    apply (simp_all add: mole_eval)
  apply (rule mole_path_step, rule dial_ok [where i = 3 and f = False and r = 0])
     apply (simp_all add: mole_eval)
  apply (rule mole_path_step, rule listen_kept [where i = 3 and f = False and k = 0])
      apply (simp_all add: mole_eval)
  apply (rule mole_path_step, rule listen_end [where i = 3 and f = False and k = 1])
     apply (simp_all add: mole_eval one_again_def one_up_def numeral_2_eq_2)
  done


lemma remote_lost_reached: "mole_reach (one_conf ''remote'') 1 (one_lost (RemoteL 0))"
  using mole_reach_path [OF rtranclp_trans [OF remote_up lost_path] reach_start] .

text \<open>A tunnel that is lost for the first time stops its keep-alive and goes on.\<close>
theorem keepalive_stop_passes_witness:
  "\<exists>s1 s2. (s1 = one_lost (RemoteL 0) \<or> mole_step (one_conf ''remote'') (one_lost (RemoteL 0)) s1) \<and>
    mole_step (one_conf ''remote'') s1 s2 \<and> mt_main s2 = MSelect"
  using keepalive_stop_passes [OF remote_lost_reached] by (simp add: one_lost_def one_up_def)

text \<open>The remote tunnel that was dialled again, with a living client, is deaf.\<close>
theorem remote_tunnel_stays_dead_witness:
  "mt_client (one_again (RemoteL 0)) = Some 1 \<and> 1 \<notin> set (mt_dead (one_again (RemoteL 0))) \<and>
   mt_accepted (one_again (RemoteL 0)) = mt_accepted (one_lost (RemoteL 0)) \<and>
   mt_listeners (one_again (RemoteL 0)) = [Some (RemoteL 0)] \<and> \<not> is_open (one_again (RemoteL 0)) (Some (RemoteL 0))"
proof -
  have "all_lost (one_lost (RemoteL 0))"
    by (simp add: all_lost_def one_lost_def one_up_def)
  from remote_tunnel_stays_dead [OF again_path this] show ?thesis
    by (simp add: one_again_def one_up_def)
qed

text \<open>A local tunnel that was dialled again accepts, at either of its two goroutines.\<close>

lemma local_tunnel_recovers:
  "i = 2 \<or> i = 5 \<Longrightarrow> at_pc (one_again LocalL) i (PAccept 0) \<and>
    mole_step (one_conf ''local'') (one_again LocalL) ((one_again LocalL)\<lparr>mt_accepted := 1\<rparr>)"
  using mole_act.accept_ok [of "one_again LocalL" i 0 "one_conf ''local''"]
  by (auto simp: one_again_def one_up_def mole_step_def at_pc_def is_open_def)

section \<open>One goroutine dials, and every accepted channel has its listener\<close>

text \<open>
  A comment in \<^verbatim>\<open>Start\<close> asks that \<^verbatim>\<open>connect\<close> is not running in two goroutines at the same time. The right to dial
  passes from hand to hand: the goroutine that dials hands it to the one that waits for the end of the client,
  this one to \<^verbatim>\<open>reconnect\<close>, the loop of \<^verbatim>\<open>Start\<close> takes it from there and gives it to a new goroutine.
\<close>

definition is_dial :: "proc \<Rightarrow> bool" where
  "is_dial p \<longleftrightarrow> (case p of PConf f \<Rightarrow> True | PDial f r \<Rightarrow> True | _ \<Rightarrow> False)"

definition dialling :: "mole \<Rightarrow> nat" where
  "dialling s = length (filter is_dial (mt_procs s))"

definition dial_rights :: "mole \<Rightarrow> nat" where
  "dial_rights s = dialling s + waiters s + of_bool (mt_reconnect s \<noteq> None) + of_bool (mt_main s = MStopR)"

lemma is_dial_simps [simp]:
  "is_dial (PConf f)" "is_dial (PDial f r)" "\<not> is_dial (PListen f k)" "\<not> is_dial (PAccept k)"
  "\<not> is_dial (PSendDone f)" "\<not> is_dial PWaitStart" "\<not> is_dial (PWait c)" "\<not> is_dial PEnd"
  by (simp_all add: is_dial_def)

lemma accept_dials [simp]: "filter is_dial (map PAccept ks) = []"
  by (induction ks) auto

lemma goto_rights:
  assumes "at_pc s i p" and "mt_procs s' = mt_procs s"
    and "of_bool (is_dial q) + of_bool (is_wait q) + length (filter is_dial new) + length (filter is_wait new) +
      of_bool (mt_reconnect s' \<noteq> None) + of_bool (mt_main s' = MStopR)
      \<le> of_bool (is_dial p) + of_bool (is_wait p) + of_bool (mt_reconnect s \<noteq> None) + of_bool (mt_main s = MStopR)"
  shows "dial_rights (goto i q new s') \<le> dial_rights s"
proof -
  have "dialling (goto i q new s') + of_bool (is_dial p) = dialling s + of_bool (is_dial q) + length (filter is_dial new)"
    using filter_update_len [of i "mt_procs s" is_dial q] assms(1,2) by (simp add: dialling_def goto_def at_pc_def)
  with waiters_goto [OF assms(1,2), of q new] assms(3) show ?thesis by (simp add: dial_rights_def)
qed

lemma rights_frame [simp]:
  "dial_rights (mt_client_update f1 s) = dial_rights s" "dial_rights (mt_dead_update f3 s) = dial_rights s"
  "dial_rights (mt_done_update f6 s) = dial_rights s" "dial_rights (mt_stop_update f7 s) = dial_rights s"
  "dial_rights (mt_keepers_update f8 s) = dial_rights s" "dial_rights (mt_accepted_update f9 s) = dial_rights s"
  "dial_rights (close_client s) = dial_rights s"
  by (simp_all add: dial_rights_def dialling_def)

lemma rights_connected: "dial_rights (connected f s) \<le> dial_rights s"
  by (simp add: dial_rights_def dialling_def)

text \<open>No step makes another right to dial.\<close>

lemma mole_act_rights:
  assumes "mole_act cf s s'"
  shows "dial_rights s' \<le> dial_rights s"
  using assms
proof (cases rule: mole_act.cases)
  case (listen_end i f k)
  show ?thesis
    unfolding listen_end(1) by (rule order_trans [OF rights_connected goto_rights [OF listen_end(2)]]) simp_all
next
  case (send_done i f)
  show ?thesis
    unfolding send_done(1) by (rule order_trans [OF rights_connected goto_rights [OF send_done(2)]]) simp_all
next
  case main_restart
  then show ?thesis by (simp add: dial_rights_def dialling_def waiters_def)
qed (auto intro!: goto_rights, auto simp: dial_rights_def dialling_def)

text \<open>What a goroutine of the tunnel may point to, and the kind of a listener.\<close>

definition proc_ok :: "mole \<Rightarrow> proc \<Rightarrow> bool" where
  "proc_ok s p \<longleftrightarrow>
     (case p of
        PListen f k \<Rightarrow> k \<le> length (mt_listeners s) \<and> (\<forall>j < k. mt_listeners s ! j \<noteq> None)
      | PAccept k \<Rightarrow> k < length (mt_listeners s) \<and> mt_listeners s ! k \<noteq> None
      | _ \<Rightarrow> True)"

definition kind_ok :: "mole_conf \<Rightarrow> listener option \<Rightarrow> bool" where
  "kind_ok cf l \<longleftrightarrow>
     (case l of None \<Rightarrow> True | Some LocalL \<Rightarrow> mc_type cf = ''local'' | Some (RemoteL c) \<Rightarrow> mc_type cf = ''remote'')"

definition mole_wf :: "mole_conf \<Rightarrow> mole \<Rightarrow> bool" where
  "mole_wf cf s \<longleftrightarrow> list_all (proc_ok s) (mt_procs s) \<and> list_all (kind_ok cf) (mt_listeners s)"

text \<open>A later state only has more listeners.\<close>

definition grows :: "mole \<Rightarrow> mole \<Rightarrow> bool" where
  "grows s s' \<longleftrightarrow> length (mt_listeners s') = length (mt_listeners s) \<and>
     (\<forall>k < length (mt_listeners s). mt_listeners s ! k \<noteq> None \<longrightarrow> mt_listeners s' ! k \<noteq> None)"

lemma proc_ok_grows: "proc_ok s p \<Longrightarrow> grows s s' \<Longrightarrow> proc_ok s' p"
  by (auto simp: proc_ok_def grows_def split: proc.splits)

lemma proc_ok_frame [simp]:
  "proc_ok (mt_main_update f0 s) p = proc_ok s p" "proc_ok (mt_procs_update f10 s) p = proc_ok s p"
  "proc_ok (mt_client_update f1 s) p = proc_ok s p" "proc_ok (mt_next_update f2 s) p = proc_ok s p"
  "proc_ok (mt_dead_update f3 s) p = proc_ok s p"
  "proc_ok (mt_reconnect_update f5 s) p = proc_ok s p" "proc_ok (mt_done_update f6 s) p = proc_ok s p"
  "proc_ok (mt_stop_update f7 s) p = proc_ok s p" "proc_ok (mt_keepers_update f8 s) p = proc_ok s p"
  "proc_ok (mt_accepted_update f9 s) p = proc_ok s p" "proc_ok (close_client s) p = proc_ok s p"
  "proc_ok (connected b s) p = proc_ok s p" "proc_ok (goto i q new s) p = proc_ok s p"
  by (simp_all add: proc_ok_def split: proc.splits)

lemma proc_ok_simps [simp]:
  "proc_ok s (PConf f)" "proc_ok s (PDial f r)" "proc_ok s (PSendDone f)" "proc_ok s PWaitStart" "proc_ok s PEnd"
  "proc_ok s (PWait c)" "proc_ok s (PListen f 0)"
  "proc_ok s (PAccept k) = (k < length (mt_listeners s) \<and> mt_listeners s ! k \<noteq> None)"
  by (simp_all add: proc_ok_def)

lemma at_pc_ok: "at_pc s i p \<Longrightarrow> mole_wf cf s \<Longrightarrow> proc_ok s p"
  by (auto simp: at_pc_def mole_wf_def list_all_iff dest!: nth_mem)

lemma goto_wf:
  assumes "mole_wf cf s" and "grows s s'" and "mt_procs s' = mt_procs s" and "proc_ok s' q" and "list_all (proc_ok s') new"
    and "list_all (kind_ok cf) (mt_listeners s')"
  shows "mole_wf cf (goto i q new s')"
proof -
  have "set ((mt_procs s)[i := q] @ new) \<subseteq> insert q (set (mt_procs s)) \<union> set new"
    by (auto dest: set_update_subset_insert [THEN subsetD])
  then show ?thesis
    using assms proc_ok_grows [OF _ assms(2)] by (auto simp: list_all_iff mole_wf_def) (auto simp: goto_def)
qed

text \<open>The steps that leave the listeners as they are.\<close>

lemma goto_wf_same:
  assumes "mole_wf cf s" and "mt_listeners s' = mt_listeners s" and "mt_procs s' = mt_procs s"
    and "proc_ok s q" and "list_all (proc_ok s) new"
  shows "mole_wf cf (goto i q new s')"
proof (rule goto_wf [OF assms(1) _ assms(3)])
  have "proc_ok s' p = proc_ok s p" for p
    using assms(2) by (simp add: proc_ok_def split: proc.split)
  then show "proc_ok s' q" "list_all (proc_ok s') new" using assms(4,5) by (simp_all add: list_all_iff)
qed (use assms(1,2) in \<open>simp_all add: grows_def mole_wf_def\<close>)

lemma goto_wf_listens:
  assumes "mole_wf cf s" and "at_pc s i (PListen f k)" and "k < length (mt_listeners s)" and "kind_ok cf (Some l)"
  shows "mole_wf cf (goto i (PListen f (Suc k)) [] (s\<lparr>mt_listeners := (mt_listeners s)[k := Some l]\<rparr>))"
proof (rule goto_wf [OF assms(1)])
  show "proc_ok (s\<lparr>mt_listeners := (mt_listeners s)[k := Some l]\<rparr>) (PListen f (Suc k))"
    using at_pc_ok [OF assms(2,1)] assms(3) by (auto simp: proc_ok_def less_Suc_eq nth_list_update)
  show "list_all (kind_ok cf) (mt_listeners (s\<lparr>mt_listeners := (mt_listeners s)[k := Some l]\<rparr>))"
    using assms(1,4) by (auto simp: mole_wf_def list_all_iff dest!: set_update_subset_insert [THEN subsetD])
qed (use assms(3) in \<open>auto simp: grows_def nth_list_update_eq split: if_splits, metis nth_list_update option.distinct(1)\<close>)

lemma wf_frame [simp]:
  "mole_wf cf (connected b s) = mole_wf cf s" "mole_wf cf (close_client s) = mole_wf cf s"
  by (simp_all add: mole_wf_def list_all_iff)

lemma mole_act_wf:
  assumes "mole_act cf s s'" and "mole_wf cf s"
  shows "mole_wf cf s'"
  using assms(1)
proof (cases rule: mole_act.cases)
  case (listen_kept i f k)
  with at_pc_ok [OF listen_kept(2) assms(2)] show ?thesis
    unfolding listen_kept(1) by (intro goto_wf_same [OF assms(2)]) (auto simp: proc_ok_def less_Suc_eq)
next
  case (listen_end i f k)
  with at_pc_ok [OF listen_end(2) assms(2)] show ?thesis
    unfolding listen_end(1) wf_frame by (intro goto_wf_same [OF assms(2)]) (auto simp: list_all_iff proc_ok_def)
qed (use assms(2) in \<open>auto intro!: goto_wf_same goto_wf_listens simp: kind_ok_def, auto simp: mole_wf_def list_all_iff\<close>)

lemma mole_reach_wf: "mole_reach cf n s \<Longrightarrow> mole_wf cf s \<and> dial_rights s \<le> 1"
proof (induction rule: mole_reach.induct)
  case reach_start
  then show ?case by (simp add: mole_wf_def mole_start_def list_all_iff kind_ok_def dial_rights_def dialling_def waiters_def)
next
  case (reach_step s s')
  then show ?case using mole_act_wf order_trans [OF mole_act_rights] by (auto simp: mole_step_def)
qed

text \<open>
  C33: in every run of a tunnel at most one goroutine is dialling, and while one is, no goroutine waits for the end of a
  client, no lost connection is left in \<^verbatim>\<open>reconnect\<close> and the loop of \<^verbatim>\<open>Start\<close> is not starting another (these are
  at most one together), so that the goroutine that reports a lost connection finds room. A goroutine that accepts on
  a channel has a listener there (\<^verbatim>\<open>Accept\<close> is never called on nil), one that listens has passed only channels that
  have one, and every listener is of the kind of the tunnel.
\<close>
theorem one_goroutine_dials:
  assumes "mole_reach cf n s"
  shows "dialling s + waiters s + of_bool (mt_reconnect s \<noteq> None) + of_bool (mt_main s = MStopR) \<le> 1 \<and>
    (\<forall>i c. at_pc s i (PWait c) \<longrightarrow> mt_reconnect s = None) \<and>
    (\<forall>i k. at_pc s i (PAccept k) \<longrightarrow> k < length (mt_listeners s) \<and> mt_listeners s ! k \<noteq> None) \<and>
    (\<forall>i f k j. at_pc s i (PListen f k) \<longrightarrow> k \<le> length (mt_listeners s) \<and> (j < k \<longrightarrow> mt_listeners s ! j \<noteq> None)) \<and>
    (\<forall>l c. Some l \<in> set (mt_listeners s) \<longrightarrow> mc_type cf = (if l = LocalL then ''local'' else ''remote''))"
proof -
  note w = mole_reach_wf [OF assms, THEN conjunct1] and r = mole_reach_wf [OF assms, THEN conjunct2, unfolded dial_rights_def]
  note ok = at_pc_ok [OF _ w]
  have "mt_reconnect s = None" if "at_pc s i (PWait c)" for i c
  proof -
    have "PWait c \<in> set (filter is_wait (mt_procs s))" using that nth_mem by (fastforce simp: at_pc_def)
    then have "waiters s > 0" unfolding waiters_def by (metis length_pos_if_in_set)
    with r show ?thesis by (cases "mt_reconnect s") simp_all
  qed
  moreover have "k \<le> length (mt_listeners s) \<and> (j < k \<longrightarrow> mt_listeners s ! j \<noteq> None)" if "at_pc s i (PListen f k)" for i f k j
    using ok [OF that] by (auto simp: proc_ok_def)
  moreover have "mc_type cf = (if l = LocalL then ''local'' else ''remote'')" if "Some l \<in> set (mt_listeners s)" for l
    using w that by (cases l) (auto simp: mole_wf_def list_all_iff kind_ok_def)
  ultimately show ?thesis using r ok [of _ "PAccept _"] by auto
qed

theorem one_goroutine_dials_witness:
  "mt_main (one_lost (RemoteL 0)) = MStopR \<and> dialling (one_lost (RemoteL 0)) = 0 \<and> waiters (one_lost (RemoteL 0)) = 0 \<and>
   at_pc (one_lost (RemoteL 0)) 2 (PAccept 0) \<and> mt_listeners (one_lost (RemoteL 0)) ! 0 \<noteq> None"
proof -
  have "at_pc (one_lost (RemoteL 0)) 2 (PAccept 0)" "mt_main (one_lost (RemoteL 0)) = MStopR"
    by (simp_all add: at_pc_def one_lost_def)
  with one_goroutine_dials [OF remote_lost_reached] show ?thesis
    by auto
qed

text \<open>
  Still two calls of \<^verbatim>\<open>connect\<close> can overlap: when a connection that was dialled again is lost before its \<^verbatim>\<open>Listen\<close> is
  done, the next call starts beside it.
\<close>

definition one_overlap :: mole where
  "one_overlap = (one_up LocalL)\<lparr>mt_dead := [1, 1, 0, 0, 0], mt_stop := 1, mt_keepers := 1, mt_client := Some 1, mt_next := 2,
     mt_procs := [PEnd, PEnd, PAccept 0, PListen False 0, PEnd, PConf False]\<rparr>"

lemma connects_overlap: "(mole_step (one_conf ty))\<^sup>*\<^sup>* (one_lost LocalL) one_overlap"
  apply (rule mole_path_step, rule main_restart)
     apply (simp_all add: one_lost_def one_up_def mole_eval)
  apply (rule mole_path_step, rule conf_ok [where i = 3 and f = False])
    apply (simp_all add: mole_eval)
  apply (rule mole_path_step, rule dial_ok [where i = 3 and f = False and r = 0])
     apply (simp_all add: mole_eval)
  apply (rule mole_path_step, rule wait_start [where i = 4 and c = 1])
     apply (simp_all add: mole_eval)
  apply (rule mole_path_step, rule client_lost [where c = 1])
    apply (simp_all add: mole_eval)
  apply (rule mole_path_step, rule wait_end [where i = 4 and c = 1 and e = True])
       apply (simp_all add: mole_eval)
  apply (rule mole_path_step, rule main_reconnect)
     apply (simp_all add: mole_eval)
  apply (rule mole_path_step, rule keeper_stops)
     apply (simp_all add: mole_eval)
  apply (rule mole_path_step, rule main_restart)
     apply (simp_all add: mole_eval one_overlap_def one_up_def numeral_2_eq_2)
  done

end
