(* ===== verification/Gpu_Log.thy ===== *)
theory Gpu_Log
  imports Go_Strings
begin

text \<open>
  \<^verbatim>\<open>fkme w1\<close> (\<^verbatim>\<open>w/w1.go\<close>): the lines a monitoring command prints are collected and, when nothing has
  come for a while, summed up over the cards into one line of a log. Sums are taken to stay below
  2^63.
\<close>

section \<open>Lines\<close>

text \<open>The expression \<^verbatim>\<open>\s+\<close> and \<^verbatim>\<open>Split\<close> with it: white space at an end gives an empty field there.\<close>

definition re_space :: "char \<Rightarrow> bool" where
  "re_space c \<longleftrightarrow> c \<in> {CHR '' '', CHR 0x09, CHR 0x0A, CHR 0x0C, CHR 0x0D}"

function split_space :: "string \<Rightarrow> string list" where
  "split_space s =
     (let a = takeWhile (\<lambda>c. \<not> re_space c) s; r = dropWhile (\<lambda>c. \<not> re_space c) s
      in if r = [] then [a] else a # split_space (dropWhile re_space r))"
  by auto
termination
proof (relation "measure length")
  fix s a r
  assume r: "r = dropWhile (\<lambda>c. \<not> re_space c) s" "r \<noteq> []"
  from r(2) obtain x xs where x: "r = x # xs" by (cases r) auto
  with r(1) have "re_space x" by (metis hd_dropWhile list.sel(1) neq_Nil_conv)
  then have "length (dropWhile re_space r) \<le> length xs" using x by (simp add: length_dropWhile_le)
  also have "\<dots> < length r" using x by simp
  also have "\<dots> \<le> length s" using length_dropWhile_le [of "\<lambda>c. \<not> re_space c" s] by (simp add: r(1))
  finally show "(dropWhile re_space r, s) \<in> measure length" by simp
qed simp

declare split_space.simps [simp del]

definition field_num :: "string \<Rightarrow> int" where
  "field_num t = (case Atoi t of None \<Rightarrow> - 1 | Some n \<Rightarrow> n)"

definition to_int :: "string list \<Rightarrow> int list" where
  "to_int s = map field_num s"

section \<open>Sums\<close>

record gpu_stat =
  gs_Count :: int
  gs_Power :: int
  gs_Gtemp :: int
  gs_Sm :: int
  gs_Mem :: int
  gs_Fb :: int

definition gpu_zero :: gpu_stat where
  "gpu_zero = \<lparr>gs_Count = 0, gs_Power = 0, gs_Gtemp = 0, gs_Sm = 0, gs_Mem = 0, gs_Fb = 0\<rparr>"

text \<open>A line of fewer than five fields, or whose second is no number, is skipped; one of fewer than twelve is
  an index out of range.\<close>

definition is_data_line :: "string \<Rightarrow> bool" where
  "is_data_line line \<longleftrightarrow> 5 \<le> length (split_space line) \<and> Atoi (split_space line ! 1) \<noteq> None"

definition add_line :: "string \<Rightarrow> gpu_stat \<Rightarrow> gpu_stat option" where
  "add_line line c =
     (if \<not> is_data_line line then Some c
      else let nn = to_int (split_space line)
        in if length nn < 12 then None
           else Some \<lparr>gs_Count = gs_Count c + 1, gs_Power = gs_Power c + nn ! 2, gs_Gtemp = gs_Gtemp c + nn ! 3,
                      gs_Sm = gs_Sm c + nn ! 5, gs_Mem = gs_Mem c + nn ! 6, gs_Fb = gs_Fb c + nn ! 11\<rparr>)"

fun sum_lines :: "string list \<Rightarrow> gpu_stat \<Rightarrow> gpu_stat option" where
  "sum_lines [] c = Some c"
| "sum_lines (l # ls) c = (case add_line l c of None \<Rightarrow> None | Some c' \<Rightarrow> sum_lines ls c')"

text \<open>Go's division truncates towards zero.\<close>

definition go_div :: "int \<Rightarrow> int \<Rightarrow> int" where
  "go_div a b = sgn a * sgn b * (\<bar>a\<bar> div \<bar>b\<bar>)"

definition gpu_averages :: "gpu_stat \<Rightarrow> int list" where
  "gpu_averages c =
     (let cc = gs_Count c
      in [cc, go_div (gs_Power c) cc, go_div (gs_Gtemp c) cc, go_div (gs_Sm c) cc, go_div (gs_Mem c) cc, gs_Fb c])"

definition gpu_ToStr :: "gpu_stat \<Rightarrow> string" where
  "gpu_ToStr c = go_Join (map Itoa (gpu_averages c)) '',''"

section \<open>The loop\<close>

text \<open>The lines not yet summed up, and the lines of the log. \<open>None\<close>: a panic.\<close>

record gpu_log =
  gl_lines :: "string list"
  gl_log :: "string list"

datatype gpu_in = InLine string | InTick

fun merge_step :: "gpu_in \<Rightarrow> gpu_log \<Rightarrow> gpu_log option" where
  "merge_step (InLine l) s = Some (s\<lparr>gl_lines := gl_lines s @ [l]\<rparr>)"
| "merge_step InTick s =
     (case sum_lines (gl_lines s) gpu_zero of
        None \<Rightarrow> None
      | Some c \<Rightarrow>
          Some (if gl_lines s \<noteq> []
                then s\<lparr>gl_lines := [], gl_log := gl_log s @ (if gs_Count c > 0 then [gpu_ToStr c] else [])\<rparr>
                else s))"

fun merge_result :: "gpu_in list \<Rightarrow> gpu_log \<Rightarrow> gpu_log option" where
  "merge_result [] s = Some s"
| "merge_result (i # is) s = (case merge_step i s of None \<Rightarrow> None | Some s' \<Rightarrow> merge_result is s')"

text \<open>What \<^verbatim>\<open>mon\<close> sends: the lines, and an empty one at the end of the output.\<close>

definition mon_lines :: "string list \<Rightarrow> string list" where
  "mon_lines ls = ls @ [[]]"

text \<open>The command begins after the first double dash; without one, it is taken to be the whole list. \<open>None\<close>: nothing is there.\<close>

definition run1_command :: "string list \<Rightarrow> string list option" where
  "run1_command args =
     (let p = (if ''--'' \<in> set args then Suc (length (takeWhile (\<lambda>a. a \<noteq> ''--'') args)) else 0)
      in if drop p args = [] then None else Some (drop p args))"

section \<open>A batch\<close>

lemma sum_lines_fold:
  assumes "\<forall>l\<in>set ls. is_data_line l \<longrightarrow> 12 \<le> length (split_space l)"
  shows "\<exists>c'. sum_lines ls c = Some c' \<and> gs_Count c' = gs_Count c + int (length (filter is_data_line ls)) \<and>
    gs_Power c' = gs_Power c + (\<Sum>l\<leftarrow>filter is_data_line ls. field_num (split_space l ! 2)) \<and>
    gs_Gtemp c' = gs_Gtemp c + (\<Sum>l\<leftarrow>filter is_data_line ls. field_num (split_space l ! 3)) \<and>
    gs_Sm c' = gs_Sm c + (\<Sum>l\<leftarrow>filter is_data_line ls. field_num (split_space l ! 5)) \<and>
    gs_Mem c' = gs_Mem c + (\<Sum>l\<leftarrow>filter is_data_line ls. field_num (split_space l ! 6)) \<and>
    gs_Fb c' = gs_Fb c + (\<Sum>l\<leftarrow>filter is_data_line ls. field_num (split_space l ! 11))"
  using assms
proof (induction ls arbitrary: c)
  case (Cons l ls)
  obtain c1 where c1: "add_line l c = Some c1" "\<not> is_data_line l \<longrightarrow> c1 = c"
    "is_data_line l \<longrightarrow> gs_Count c1 = gs_Count c + 1 \<and> gs_Power c1 = gs_Power c + field_num (split_space l ! 2) \<and>
       gs_Gtemp c1 = gs_Gtemp c + field_num (split_space l ! 3) \<and> gs_Sm c1 = gs_Sm c + field_num (split_space l ! 5) \<and>
       gs_Mem c1 = gs_Mem c + field_num (split_space l ! 6) \<and> gs_Fb c1 = gs_Fb c + field_num (split_space l ! 11)"
  proof (cases "is_data_line l")
    case True
    with Cons.prems have "12 \<le> length (split_space l)" by simp
    with True show thesis
      by (intro that [of "\<lparr>gs_Count = gs_Count c + 1, gs_Power = gs_Power c + field_num (split_space l ! 2),
          gs_Gtemp = gs_Gtemp c + field_num (split_space l ! 3), gs_Sm = gs_Sm c + field_num (split_space l ! 5),
          gs_Mem = gs_Mem c + field_num (split_space l ! 6), gs_Fb = gs_Fb c + field_num (split_space l ! 11)\<rparr>"])
        (simp_all add: add_line_def to_int_def Let_def)
  next
    case False
    then show thesis by (intro that) (simp_all add: add_line_def)
  qed
  from Cons.prems Cons.IH [of c1] c1 show ?case by (cases "is_data_line l") auto
qed simp

text \<open>The lines that come between two ticks make one line of the log: the number of cards, the averages of their
  power, temperature, load and memory load, and the sum of their memory; none if there was no card.\<close>

lemma merge_lines: "merge_result (map InLine ls @ is) s = merge_result is (s\<lparr>gl_lines := gl_lines s @ ls\<rparr>)"
  by (induction ls arbitrary: s) simp_all

theorem gpu_batch:
  assumes "ds = filter is_data_line ls" "\<forall>l\<in>set ds. 12 \<le> length (split_space l)" "ds \<noteq> []"
  shows "merge_result (map InLine ls @ [InTick]) \<lparr>gl_lines = [], gl_log = log\<rparr> =
    Some \<lparr>gl_lines = [], gl_log = log @ [go_Join (map Itoa
      [int (length ds), go_div (\<Sum>l\<leftarrow>ds. field_num (split_space l ! 2)) (int (length ds)),
       go_div (\<Sum>l\<leftarrow>ds. field_num (split_space l ! 3)) (int (length ds)),
       go_div (\<Sum>l\<leftarrow>ds. field_num (split_space l ! 5)) (int (length ds)),
       go_div (\<Sum>l\<leftarrow>ds. field_num (split_space l ! 6)) (int (length ds)),
       (\<Sum>l\<leftarrow>ds. field_num (split_space l ! 11))]) '','']\<rparr>"
proof -
  obtain c where c: "sum_lines ls gpu_zero = Some c" "gs_Count c = int (length ds)"
      "gs_Power c = (\<Sum>l\<leftarrow>ds. field_num (split_space l ! 2))" "gs_Gtemp c = (\<Sum>l\<leftarrow>ds. field_num (split_space l ! 3))"
      "gs_Sm c = (\<Sum>l\<leftarrow>ds. field_num (split_space l ! 5))" "gs_Mem c = (\<Sum>l\<leftarrow>ds. field_num (split_space l ! 6))"
      "gs_Fb c = (\<Sum>l\<leftarrow>ds. field_num (split_space l ! 11))"
    using sum_lines_fold [of ls gpu_zero] assms(1,2) by (auto simp: gpu_zero_def)
  moreover have "ls \<noteq> []" "0 < length ds" using assms(1,3) by auto
  ultimately show ?thesis
    by (simp add: merge_lines gpu_ToStr_def gpu_averages_def Let_def)
qed

text \<open>A line with five to eleven fields ends the process.\<close>

lemma gpu_short_line: "merge_result [InLine ''0 1 2 3 4'', InTick] \<lparr>gl_lines = [], gl_log = []\<rparr> = None"
  by code_simp

end
