(* ===== verification/Ws_Tunnel.thy ===== *)
theory Ws_Tunnel
  imports Ws_Conn Go_Strings "HOL-Library.Sublist"
begin

text \<open>
  The older tunnel of \<^verbatim>\<open>ws/ws.go\<close>: a client that takes local connections and passes each over a WebSocket
  connection of its own to a server, which joins it to a target or serves it with the SOCKS server. Both
  copy with \<^verbatim>\<open>connCopy\<close>, and both log how many connections they have.
\<close>

section \<open>The byte stream\<close>

text \<open>\<^verbatim>\<open>WS\<close> has the fields and methods of \<^verbatim>\<open>WSConn\<close>, written again.\<close>

definition WS_Read :: "nat \<Rightarrow> wsconn \<Rightarrow> (int \<times> bytes \<times> bool) \<times> wsconn" where
  "WS_Read len ws =
     (let (message, ws1) = (case ws_remain ws of None \<Rightarrow> ReadMessage ws | Some r \<Rightarrow> (Some r, ws))
      in case message of
           None \<Rightarrow> ((- 1, [], True), ws1)
         | Some msg \<Rightarrow>
             ((int (min len (length msg)), take len msg, False),
              ws1\<lparr>ws_remain := if length msg \<le> len then None else Some (drop len msg)\<rparr>))"

definition WS_Write :: "bool \<Rightarrow> bytes \<Rightarrow> wsconn \<Rightarrow> (int \<times> bool) \<times> wsconn" where
  "WS_Write ok p ws = (if \<not> ok then ((- 1, True), ws) else ((int (length p), False), ws\<lparr>ws_sent := ws_sent ws @ [p]\<rparr>))"

definition WS_Req :: "bool \<Rightarrow> bytes \<Rightarrow> wsconn \<Rightarrow> bytes option \<times> wsconn" where
  "WS_Req ok msg ws = (if \<not> ok then (None, ws) else ReadMessage (ws\<lparr>ws_sent := ws_sent ws @ [msg]\<rparr>))"

lemma WS_is_WSConn: "WS_Read = ws_Read" "WS_Write = ws_Write" "WS_Req = ws_Req"
  by (auto intro!: ext simp: WS_Read_def ws_Read_def WS_Write_def ws_Write_def WS_Req_def ws_Req_def Let_def min_def
      split: option.splits prod.splits)

text \<open>
  \<^verbatim>\<open>io.Copy(ws, conn)\<close>: what the connection gives, piece by piece, each with whether it could be written; the
  first failure ends the copy.
\<close>

fun copy_to_ws :: "(bytes \<times> bool) list \<Rightarrow> wsconn \<Rightarrow> wsconn" where
  "copy_to_ws [] ws = ws"
| "copy_to_ws ((p, ok) # ps) ws =
     (case WS_Write ok p ws of ((n, True), ws') \<Rightarrow> ws' | ((n, False), ws') \<Rightarrow> copy_to_ws ps ws')"

lemma copy_to_ws_sent:
  "ws_sent (copy_to_ws ps ws) = ws_sent ws @ map fst (takeWhile snd ps)"
proof (induction ps arbitrary: ws)
  case (Cons x ps)
  then show ?case by (cases x) (simp add: WS_Write_def)
qed simp

text \<open>
  C38: the tunnel is a byte stream. Whatever pieces the local connection gives, whatever number of messages
  arrive before the WebSocket connection is lost and whatever the size of the copying buffer, the copying on
  the other side ends, and what it has given to the target is a prefix of what was given here; all of it,
  when every piece could be written and every message arrived.
\<close>
theorem ws_tunnel_transparent:
  assumes "0 < len"
  shows "\<exists>fuel out. ws_copy fuel len \<lparr>ws_incoming = take k (ws_sent (copy_to_ws ps ws)), ws_remain = None, ws_sent = []\<rparr> = Some out \<and>
    prefix out (concat (ws_sent ws) @ concat (map fst ps)) \<and>
    (list_all snd ps \<longrightarrow> length ps + length (ws_sent ws) \<le> k \<longrightarrow> out = concat (ws_sent ws) @ concat (map fst ps))"
proof -
  define msgs where "msgs = ws_sent ws @ map fst (takeWhile snd ps)"
  let ?w = "\<lparr>ws_incoming = take k msgs, ws_remain = None, ws_sent = []\<rparr>"
  obtain fuel where "ws_copy fuel len ?w = Some (concat (take k msgs))"
    using ws_copy_all [OF assms, of ?w "Suc (ws_left ?w)"] by (simp add: ws_pending_def del: ws_copy.simps)
  moreover have "prefix (concat (take k msgs)) (concat (ws_sent ws) @ concat (map fst ps))"
  proof -
    have "concat (ws_sent ws) @ concat (map fst ps) = concat (take k msgs) @ concat (drop k msgs) @ concat (map fst (dropWhile snd ps))"
      using arg_cong [OF append_take_drop_id [of k msgs], of concat]
      by (simp add: msgs_def) (metis append_assoc concat_append map_append takeWhile_dropWhile_id)
    then show ?thesis by simp
  qed
  moreover have "list_all snd ps \<Longrightarrow> length ps + length (ws_sent ws) \<le> k \<Longrightarrow> take k msgs = ws_sent ws @ map fst ps"
    by (simp add: msgs_def list_all_iff takeWhile_eq_all_conv [THEN iffD2])
  ultimately show ?thesis
    unfolding copy_to_ws_sent msgs_def [symmetric]
    by (intro exI [of _ fuel] exI [of _ "concat (take k msgs)"]) auto
qed

text \<open>Two of three pieces arrive; a buffer of two bytes.\<close>
theorem ws_tunnel_transparent_witness:
  "\<exists>fuel out. ws_copy fuel 2 \<lparr>ws_incoming = take 2 (ws_sent (copy_to_ws [([1, 2, 3], True), ([], True), ([4], True)]
      \<lparr>ws_incoming = [], ws_remain = None, ws_sent = []\<rparr>)), ws_remain = None, ws_sent = []\<rparr> = Some out \<and> prefix out [1, 2, 3, 4]"
  using ws_tunnel_transparent [of 2 2 "[([1, 2, 3], True), ([], True), ([4], True)]" "\<lparr>ws_incoming = [], ws_remain = None, ws_sent = []\<rparr>"]
  by auto

section \<open>The connections of a process\<close>

text \<open>
  A pair of connections that are copied into each other: whether either copying goroutine still runs, and
  how often both connections have been closed. A process has a counter of 32 bits and logs it at each
  closing.
\<close>

record ws_pair =
  wp_in :: bool
  wp_out :: bool
  wp_closed :: nat

record ws_proc =
  wt_counter :: u32
  wt_pairs :: "ws_pair list"
  wt_logged :: "int list"

definition ws_add :: "int \<Rightarrow> ws_proc \<Rightarrow> int \<times> ws_proc" where
  "ws_add c s = (let cc = wt_counter s + of_int c in (sint cc, s\<lparr>wt_counter := cc\<rparr>))"

definition connCopy :: "ws_proc \<Rightarrow> ws_proc" where
  "connCopy s = s\<lparr>wt_pairs := wt_pairs s @ [\<lparr>wp_in = True, wp_out = True, wp_closed = 0\<rparr>]\<rparr>"

text \<open>The function \<^verbatim>\<open>close\<close>, under \<^verbatim>\<open>once.Do\<close>.\<close>

definition close_pair :: "nat \<Rightarrow> ws_proc \<Rightarrow> ws_proc" where
  "close_pair i s =
     (if wp_closed (wt_pairs s ! i) > 0 then s
      else let (a, s') = ws_add (- 1) s
        in s'\<lparr>wt_pairs := (wt_pairs s)[i := (wt_pairs s ! i)\<lparr>wp_closed := Suc (wp_closed (wt_pairs s ! i))\<rparr>],
              wt_logged := wt_logged s @ [a]\<rparr>)"

text \<open>What happens: a connection, with whether the other side could be dialled; the end of a copying.\<close>

datatype ws_happening = Incoming bool | InEnds nat | OutEnds nat

text \<open>Only the client counts its connections up.\<close>

fun ws_proc_step :: "bool \<Rightarrow> ws_proc \<Rightarrow> ws_happening \<Rightarrow> ws_proc" where
  "ws_proc_step client s (Incoming dialled) =
     (if \<not> dialled then s else if client then connCopy (snd (ws_add 1 s)) else connCopy s)"
| "ws_proc_step client s (InEnds i) =
     (if i < length (wt_pairs s) \<and> wp_in (wt_pairs s ! i)
      then close_pair i (s\<lparr>wt_pairs := (wt_pairs s)[i := (wt_pairs s ! i)\<lparr>wp_in := False\<rparr>]\<rparr>) else s)"
| "ws_proc_step client s (OutEnds i) =
     (if i < length (wt_pairs s) \<and> wp_out (wt_pairs s ! i)
      then close_pair i (s\<lparr>wt_pairs := (wt_pairs s)[i := (wt_pairs s ! i)\<lparr>wp_out := False\<rparr>]\<rparr>) else s)"

definition ws_proc_start :: ws_proc where
  "ws_proc_start = \<lparr>wt_counter = 0, wt_pairs = [], wt_logged = []\<rparr>"

text \<open>A pair is closed once, and exactly when one of its copying goroutines has ended.\<close>

definition pair_ok :: "ws_pair \<Rightarrow> bool" where
  "pair_ok p \<longleftrightarrow> wp_closed p = of_bool (\<not> wp_in p \<or> \<not> wp_out p)"

definition open_pairs :: "ws_proc \<Rightarrow> nat" where
  "open_pairs s = length (filter (\<lambda>p. wp_closed p = 0) (wt_pairs s))"

definition closed_pairs :: "ws_proc \<Rightarrow> nat" where
  "closed_pairs s = length (filter (\<lambda>p. wp_closed p \<noteq> 0) (wt_pairs s))"

definition ws_proc_inv :: "bool \<Rightarrow> ws_proc \<Rightarrow> bool" where
  "ws_proc_inv client s \<longleftrightarrow> list_all pair_ok (wt_pairs s) \<and> length (wt_logged s) = closed_pairs s \<and>
     wt_counter s = (if client then of_nat (open_pairs s) else - of_nat (closed_pairs s)) \<and>
     (\<not> client \<longrightarrow> wt_logged s = map (\<lambda>k. sint (- of_nat (Suc k) :: u32)) [0..<closed_pairs s])"

lemma pairs_update:
  assumes "i < length ps"
  shows "length (filter P (ps[i := p])) + of_bool (P (ps ! i)) = length (filter P ps) + of_bool (P p)"
  using length_filter_update [OF assms, of P p] by (simp add: of_bool_def)

lemma copy_ends_inv:
  assumes inv: "ws_proc_inv client s" and i: "i < length (wt_pairs s)"
    and p: "wp_closed p = wp_closed (wt_pairs s ! i)" "\<not> wp_in p \<or> \<not> wp_out p"
      "wp_in p \<longrightarrow> wp_in (wt_pairs s ! i)" "wp_out p \<longrightarrow> wp_out (wt_pairs s ! i)"
  shows "ws_proc_inv client (close_pair i (s\<lparr>wt_pairs := (wt_pairs s)[i := p]\<rparr>))"
proof -
  let ?q = "p\<lparr>wp_closed := Suc (wp_closed p)\<rparr>"
  have old: "pair_ok (wt_pairs s ! i)" and all: "list_all pair_ok (wt_pairs s)"
    using inv i by (auto simp: ws_proc_inv_def list_all_length)
  show ?thesis
  proof (cases "wp_closed p > 0")
    case True
    then have "pair_ok p" using old p by (auto simp: pair_ok_def)
    then have "list_all pair_ok ((wt_pairs s)[i := p])"
      using all by (auto simp: list_all_iff dest!: set_update_subset_insert [THEN subsetD])
    with True inv i p(1) show ?thesis
      using pairs_update [OF i, of "\<lambda>p. wp_closed p = 0" p] pairs_update [OF i, of "\<lambda>p. wp_closed p \<noteq> 0" p]
      by (simp add: close_pair_def ws_proc_inv_def open_pairs_def closed_pairs_def)
  next
    case False
    then have "pair_ok ?q" using p by (simp add: pair_ok_def)
    then have ok: "list_all pair_ok ((wt_pairs s)[i := ?q])"
      using all by (auto simp: list_all_iff dest!: set_update_subset_insert [THEN subsetD])
    have "open_pairs s = Suc (length (filter (\<lambda>p. wp_closed p = 0) ((wt_pairs s)[i := ?q])))"
      "length (filter (\<lambda>p. wp_closed p \<noteq> 0) ((wt_pairs s)[i := ?q])) = Suc (closed_pairs s)"
      using pairs_update [OF i, of "\<lambda>p. wp_closed p = 0" ?q] pairs_update [OF i, of "\<lambda>p. wp_closed p \<noteq> 0" ?q] False p(1)
      by (simp_all add: open_pairs_def closed_pairs_def)
    moreover have minus: "- (of_nat n :: u32) - 1 = - 1 - of_nat n" for n
      by simp
    ultimately show ?thesis
      using False i p(1) ok inv
      by (simp add: minus close_pair_def ws_add_def Let_def ws_proc_inv_def open_pairs_def closed_pairs_def)
  qed
qed

lemma ws_proc_step_inv: "ws_proc_inv client s \<Longrightarrow> ws_proc_inv client (ws_proc_step client s e)"
proof (cases e)
  case (Incoming d)
  assume "ws_proc_inv client s"
  then show ?thesis
    by (auto simp: Incoming ws_proc_inv_def connCopy_def ws_add_def Let_def open_pairs_def closed_pairs_def pair_ok_def)
next
  case (InEnds i)
  assume "ws_proc_inv client s"
  then show ?thesis using copy_ends_inv [of client s i "(wt_pairs s ! i)\<lparr>wp_in := False\<rparr>"] by (simp add: InEnds)
next
  case (OutEnds i)
  assume "ws_proc_inv client s"
  then show ?thesis using copy_ends_inv [of client s i "(wt_pairs s ! i)\<lparr>wp_out := False\<rparr>"] by (simp add: OutEnds)
qed

interpretation ws_procs: inv_machine "ws_proc_step client" "ws_proc_inv client" for client
  by unfold_locales (rule ws_proc_step_inv)

text \<open>
  What the two processes count. In every order of connections and endings, a pair of connections is
  closed exactly once, and exactly when one of its directions has ended; the client's counter is the number
  of its open pairs; the server's, which nothing counts up, is minus the number of pairs it has ever
  closed, so it logs -1, -2, -3 and so on as the number of its connections.
\<close>
theorem ws_connection_counts:
  "let s = foldl (ws_proc_step client) ws_proc_start es
   in list_all pair_ok (wt_pairs s) \<and>
     wt_counter s = (if client then of_nat (open_pairs s) else - of_nat (closed_pairs s)) \<and>
     (client \<or> wt_logged s = map (\<lambda>k. sint (- of_nat (Suc k) :: u32)) [0..<closed_pairs s])"
proof -
  have "ws_proc_inv client ws_proc_start"
    by (simp add: ws_proc_inv_def ws_proc_start_def open_pairs_def closed_pairs_def)
  from ws_procs.run_inv [OF this, of es] show ?thesis
    unfolding ws_proc_inv_def Let_def by blast
qed

lemma ws_server_counts_down:
  "wt_logged (foldl (ws_proc_step False) ws_proc_start [Incoming True, Incoming True, InEnds 0, OutEnds 0, OutEnds 1]) = [-1, -2]"
  by (simp add: ws_proc_start_def connCopy_def close_pair_def ws_add_def Let_def)

section \<open>Addresses and the choice of what to run\<close>

text \<open>
  The address that \<^verbatim>\<open>ping\<close> asks: \<^verbatim>\<open>ws://\<close> and \<^verbatim>\<open>wss://\<close> become \<^verbatim>\<open>http://\<close> and \<^verbatim>\<open>https://\<close>, the end \<^verbatim>\<open>ws\<close> becomes
  \<^verbatim>\<open>ping\<close>. Too short an address is a panic.
\<close>

definition ping_url :: "string \<Rightarrow> string option" where
  "ping_url wsaddr =
     (if length wsaddr < 4 then None else Some (''http'' @ take (length wsaddr - 4) (drop 2 wsaddr) @ ''ping''))"

lemma ping_url_ws: "ping_url (''ws'' @ x @ ''/ws'') = Some (''http'' @ x @ ''/ping'')"
  by (simp add: ping_url_def)

text \<open>\<^verbatim>\<open>ping\<close> succeeds when the server answers 200 with a body that can be read.\<close>

definition ws_ping :: "(string \<Rightarrow> (int \<times> bool) option) \<Rightarrow> string \<Rightarrow> bool option" where
  "ws_ping get wsaddr =
     map_option (\<lambda>url. case get url of None \<Rightarrow> False | Some (status, body) \<Rightarrow> status = 200 \<and> body) (ping_url wsaddr)"

datatype server_plan = ServeSocks5 | JoinTo string

definition serveServer_plan :: "string \<Rightarrow> server_plan" where
  "serveServer_plan dst_addr = (if dst_addr = [] \<or> dst_addr = ''s5'' then ServeSocks5 else JoinTo dst_addr)"

text \<open>What \<^verbatim>\<open>fkme ws\<close> does with its flags.\<close>

datatype ws_run =
    RunServer int server_plan string
  | RunTunnel "int option" "int option" string "string list"
  | RunNothing

definition ws_Run :: "int \<Rightarrow> string \<Rightarrow> string \<Rightarrow> int \<Rightarrow> int \<Rightarrow> string list \<Rightarrow> ws_run" where
  "ws_Run svrport prefix_uri servaddr socks http_port ports =
     (if svrport > 0 then RunServer svrport (serveServer_plan servaddr) prefix_uri
      else if length ports > 0 then
        RunTunnel (if socks > 0 then Some socks else None) (if http_port > 0 then Some http_port else None) servaddr ports
      else RunNothing)"

text \<open>The client of the byte stream is never started.\<close>

lemma ws_Run_no_client: "svrport \<le> 0 \<Longrightarrow> ws_Run svrport px addr socks hp [] = RunNothing"
  by (simp add: ws_Run_def)

text \<open>
  \<^verbatim>\<open>ServeClient\<close>: without an answer to \<^verbatim>\<open>ping\<close> it returns; if it cannot listen the process ends; otherwise it
  goes through what it accepts until an error.
\<close>

datatype client_end = PingFailed | ListenFailed | AcceptFailed | StillServing

fun accept_all :: "bool option list \<Rightarrow> ws_proc \<Rightarrow> client_end \<times> ws_proc" where
  "accept_all [] s = (StillServing, s)"
| "accept_all (None # cs) s = (AcceptFailed, s)"
| "accept_all (Some dialled # cs) s = accept_all cs (ws_proc_step True s (Incoming dialled))"

definition ServeClient :: "bool option \<Rightarrow> bool \<Rightarrow> bool option list \<Rightarrow> (client_end \<times> ws_proc) option" where
  "ServeClient pinged listens cs =
     map_option (\<lambda>ok. if \<not> ok then (PingFailed, ws_proc_start)
       else if \<not> listens then (ListenFailed, ws_proc_start) else accept_all cs ws_proc_start) pinged"

end
