(* ===== verification/File_Marks.thy ===== *)
theory File_Marks
  imports Dir_Watch
begin

text \<open>
  \<^verbatim>\<open>util/azj_dec.go\<close>: files that a company's tool has encrypted are renamed so that the tool decrypts them on
  copying, and the decrypted copies are renamed back; and \<^verbatim>\<open>Mtime\<close> of \<^verbatim>\<open>util/util.go\<close>. The files are a map from
  paths to contents. The tree that is walked is the one found at the start: the callbacks rename within
  directories whose names have been read.
\<close>

section \<open>Renaming the encrypted files\<close>

definition enc_tag :: bytes where
  "enc_tag = [0x62, 0x14, 0x23, 0x65]"

text \<open>\<open>None\<close> is a file that cannot be opened, which ends the program.\<close>

definition check_file :: "(string \<rightharpoonup> bytes) \<Rightarrow> string \<Rightarrow> bool option" where
  "check_file files fpath = map_option (\<lambda>b. length b \<ge> 4 \<and> take 4 b = enc_tag) (files fpath)"

definition os_Rename :: "string \<Rightarrow> string \<Rightarrow> (string \<rightharpoonup> bytes) \<Rightarrow> (string \<rightharpoonup> bytes)" where
  "os_Rename src dst files = (if src = dst then files else files(dst := files src, src := None))"

definition azj_skips :: "string \<Rightarrow> bool" where
  "azj_skips basename \<longleftrightarrow> basename = ''.git'' \<or> basename = ''__pycache__'' \<or> basename = ''.idea''"

definition mark_tag :: string where "mark_tag = ''.c_c.c''"
definition dec_tag :: string where "dec_tag = ''.c_c.c_txt''"

text \<open>What is done with a file: \<open>regular\<close> is the mode of the file, \<open>can\<close> whether it can be renamed.\<close>

definition mark_file :: "(string \<Rightarrow> bool) \<Rightarrow> (string \<Rightarrow> bool) \<Rightarrow> string \<Rightarrow> (string \<rightharpoonup> bytes) \<Rightarrow> (string \<rightharpoonup> bytes) option" where
  "mark_file regular can path files =
     (if \<not> regular path \<or> HasSuffix (path_Base path) mark_tag then Some files
      else case check_file files path of
             None \<Rightarrow> None
           | Some enc \<Rightarrow> Some (if enc \<and> can path then os_Rename path (path @ mark_tag) files else files))"

definition rename_file :: "(string \<Rightarrow> bool) \<Rightarrow> (string \<Rightarrow> bool) \<Rightarrow> string \<Rightarrow> (string \<rightharpoonup> bytes) \<Rightarrow> (string \<rightharpoonup> bytes) option" where
  "rename_file regular can path files =
     Some (if regular path \<and> HasSuffix (path_Base path) dec_tag \<and> can path
           then os_Rename path (take (length path - length dec_tag) path) files else files)"

text \<open>A callback; \<open>e\<close> tells the paths for which it is called with an error.\<close>

definition azj_visit ::
  "(string \<Rightarrow> (string \<rightharpoonup> bytes) \<Rightarrow> (string \<rightharpoonup> bytes) option) \<Rightarrow> (string \<Rightarrow> bool) \<Rightarrow> (string \<rightharpoonup> bytes) walk_fn" where
  "azj_visit work e path dir files =
     (if e path then (WErr, files)
      else if azj_skips (path_Base path) then (WSkip, files)
      else if dir then (WOk, files)
      else case work path files of None \<Rightarrow> (WPanic, files) | Some files' \<Rightarrow> (WOk, files'))"

definition mark_enc_files where
  "mark_enc_files regular can e dir t files = Walk (azj_visit (mark_file regular can) e) dir t files"

definition rename_dec_files where
  "rename_dec_files regular can e dpath t files = Walk (azj_visit (rename_file regular can) e) dpath t files"

text \<open>\<^verbatim>\<open>AZJ\<close>: \<^verbatim>\<open>args[1]\<close> is not there when a single argument names a file that exists.\<close>

datatype azj_run = AzMark string | AzRename string | AzNothing | AzPanic

definition azj_mark :: "string list \<Rightarrow> azj_run" where
  "azj_mark args = (if length args > 1 then AzMark (args ! 1) else AzPanic)"

definition AZJ :: "(string \<Rightarrow> bool) \<Rightarrow> string list \<Rightarrow> azj_run" where
  "AZJ fexists args =
     (if (length args > 1 \<and> args ! 0 = ''mark'') \<or> (length args > 0 \<and> fexists (args ! 0)) then azj_mark args
      else if length args > 1 \<and> args ! 0 = ''rename'' then AzRename (args ! 1)
      else AzNothing)"

lemma azj_existing_file_panics: "fexists p \<Longrightarrow> AZJ fexists [p] = AzPanic"
  by (simp add: AZJ_def azj_mark_def)

text \<open>A file called \<^verbatim>\<open>rename\<close> in the working directory turns renaming into marking.\<close>

lemma azj_rename_marks: "fexists ''rename'' \<Longrightarrow> AZJ fexists [''rename'', d] = AzMark d"
  by (simp add: AZJ_def azj_mark_def)

section \<open>Walks that do one thing with every file\<close>

text \<open>
  The files a walk comes to when some names are skipped. A skipped directory is left out; a \<^emph>\<open>file\<close> of such
  a name ends its directory, as \<^verbatim>\<open>SkipDir\<close> does.
\<close>

fun seen_files :: "(string \<Rightarrow> bool) \<Rightarrow> string \<Rightarrow> ltree \<Rightarrow> string list"
  and seen_entries :: "(string \<Rightarrow> bool) \<Rightarrow> string \<Rightarrow> (string \<times> ltree) list \<Rightarrow> string list" where
  "seen_files skip p LFile = (if skip (path_Base p) then [] else [p])"
| "seen_files skip p (LDir None) = []"
| "seen_files skip p (LDir (Some es)) = (if skip (path_Base p) then [] else seen_entries skip p es)"
| "seen_entries skip p [] = []"
| "seen_entries skip p ((n, t) # es) =
     (let q = path_Join [p, n]
      in if \<not> is_dir t \<and> skip (path_Base q) then [] else seen_files skip q t @ seen_entries skip p es)"

locale file_visit =
  fixes visit :: "'s walk_fn" and skip :: "string \<Rightarrow> bool" and work :: "string \<Rightarrow> 's \<Rightarrow> 's option"
  assumes visit_skip: "skip (path_Base p) \<Longrightarrow> visit p dir s = (WSkip, s)"
    and visit_dir: "\<not> skip (path_Base p) \<Longrightarrow> visit p True s = (WOk, s)"
    and visit_file: "\<not> skip (path_Base p) \<Longrightarrow> work p s = Some s' \<Longrightarrow> visit p False s = (WOk, s')"
begin

lemma run_append: "run_callbacks work (xs @ ys) s = Option.bind (run_callbacks work xs s) (run_callbacks work ys)"
  by (induction xs arbitrary: s) (auto split: option.splits)

lemma walk_seen:
  "sk = skip \<Longrightarrow> run_callbacks work (seen_files sk p t) s = Some s' \<Longrightarrow>
    \<exists>r. walk visit p t s = (r, s') \<and> (r = WOk \<or> r = WSkip) \<and> (is_dir t \<or> (r = WSkip \<longleftrightarrow> skip (path_Base p)))"
  "sk = skip \<Longrightarrow> run_callbacks work (seen_entries sk p es) s = Some s' \<Longrightarrow>
    \<exists>r. walk_entries visit p es s = (r, s') \<and> (r = WOk \<or> r = WSkip)"
proof (induction sk p t and sk p es arbitrary: s s' and s s' rule: seen_files_seen_entries.induct)
  case (1 sk p)
  then show ?case
    by (cases "skip (path_Base p)") (auto simp: visit_skip visit_file split: option.splits)
next
  case (2 sk p)
  then show ?case
    by (cases "skip (path_Base p)") (auto simp: visit_skip visit_dir)
next
  case (3 sk p es)
  then show ?case
    by (cases "skip (path_Base p)") (auto simp: visit_skip visit_dir)
next
  case (5 sk p n t es)
  let ?q = "path_Join [p, n]"
  show ?case
  proof (cases "\<not> is_dir t \<and> skip (path_Base ?q)")
    case True
    then have "t = LFile" by (cases t) simp_all
    with True 5(3,4) show ?thesis by (simp add: Let_def visit_skip)
  next
    case False
    with 5(3,4) obtain s1 where s1: "run_callbacks work (seen_files skip ?q t) s = Some s1"
        "run_callbacks work (seen_entries skip p es) s1 = Some s'"
      by (auto simp: Let_def run_append bind_eq_Some_conv)
    from 5(1) [OF refl _ 5(3), of s s1] False s1(1) 5(3) obtain r where r: "walk visit ?q t s = (r, s1)" "r = WOk \<or> r = WSkip"
        "is_dir t \<or> (r = WSkip \<longleftrightarrow> skip (path_Base ?q))" by blast
    with 5(2) [OF refl _ 5(3), of s1 s'] False s1(2) 5(3) show ?thesis by auto
  qed
qed auto

lemma Walk_seen: "run_callbacks work (seen_files skip p t) s = Some s' \<Longrightarrow> Walk visit p t s = (WOk, s')"
  using walk_seen(1) [OF refl, of p t s s'] by (auto simp: Walk_def)

end

text \<open>Without errors of the walk itself, both callbacks are such visits.\<close>

interpretation azj_walk: file_visit "azj_visit work (\<lambda>p. False)" azj_skips work for work
  by unfold_locales (simp_all add: azj_visit_def)

lemma path_Join_plain:
  assumes "clean_dir p" and "plain_name n" shows "path_Join [p, n] = p @ CHR ''/'' # n"
  using path_Join_entry [OF assms] .

lemma seen_subset:
  "clean_dir p \<Longrightarrow> tree_ok t \<Longrightarrow> set (seen_files skip p t) \<subseteq> set (tree_files p t) \<and> (distinct (tree_files p t) \<longrightarrow> distinct (seen_files skip p t))"
  "clean_dir p \<Longrightarrow> list_all (\<lambda>(n, t). plain_name n \<and> tree_ok t) es \<Longrightarrow> set (seen_entries skip p es) \<subseteq> set (tree_files_entries p es) \<and>
    (distinct (tree_files_entries p es) \<longrightarrow> distinct (seen_entries skip p es))"
proof (induction skip p t and skip p es rule: seen_files_seen_entries.induct)
  case (5 skip p n t es)
  then have q: "path_Join [p, n] = p @ CHR ''/'' # n" "clean_dir (p @ CHR ''/'' # n)" "tree_ok t"
    using path_Join_plain [of p n] clean_dir_entry [of p n] by auto
  show ?case
  proof (cases "\<not> is_dir t \<and> skip (path_Base (path_Join [p, n]))")
    case False
    have "set (seen_files skip (p @ CHR ''/'' # n) t) \<subseteq> set (tree_files (p @ CHR ''/'' # n) t) \<and>
        (distinct (tree_files (p @ CHR ''/'' # n) t) \<longrightarrow> distinct (seen_files skip (p @ CHR ''/'' # n) t))"
      "set (seen_entries skip p es) \<subseteq> set (tree_files_entries p es) \<and>
        (distinct (tree_files_entries p es) \<longrightarrow> distinct (seen_entries skip p es))"
      using 5(1) [OF refl False] 5(2) [OF refl False] 5(3,4) q by auto
    with False q(1) show ?thesis by (simp add: Let_def) blast
  qed (simp add: Let_def)
qed auto

lemma seen_distinct: "clean_dir p \<Longrightarrow> tree_ok t \<Longrightarrow> distinct (seen_files skip p t)"
  using seen_subset(1) [of p t skip] tree_files_distinct(1) [of t p] by blast

section \<open>Marking, and renaming what was decrypted\<close>

text \<open>A file that is to be marked.\<close>

definition encrypted :: "(string \<Rightarrow> bool) \<Rightarrow> (string \<rightharpoonup> bytes) \<Rightarrow> string \<Rightarrow> bool" where
  "encrypted regular files p \<longleftrightarrow> regular p \<and> \<not> HasSuffix (path_Base p) mark_tag \<and> check_file files p = Some True"

lemma encrypted_dom: "encrypted regular files p \<Longrightarrow> files p \<noteq> None"
  by (auto simp: encrypted_def check_file_def)

lemma mark_tag_longer [simp]: "p @ mark_tag \<noteq> p" "p \<noteq> p @ mark_tag" "p @ dec_tag \<noteq> p" "p \<noteq> p @ dec_tag"
  by (simp_all add: mark_tag_def dec_tag_def)

text \<open>Every file of \<open>M\<close> is at its new name, nothing else has changed.\<close>

definition moved :: "string set \<Rightarrow> (string \<Rightarrow> string) \<Rightarrow> (string \<rightharpoonup> bytes) \<Rightarrow> (string \<rightharpoonup> bytes) \<Rightarrow> bool" where
  "moved M new files files' \<longleftrightarrow>
     (\<forall>f \<in> M. files' (new f) = files f \<and> files' f = None) \<and> (\<forall>p. p \<notin> M \<longrightarrow> p \<notin> new ` M \<longrightarrow> files' p = files p)"

lemma moved_empty [simp]: "moved {} new files files' = (files' = files)"
  by (auto simp: moved_def)

lemma moved_step:
  assumes "moved M new (os_Rename f (new f) files) files'" and "f \<notin> M" and "new f \<notin> M" and "f \<notin> new ` M" and "new f \<notin> new ` M"
    and "new f \<noteq> f" and "new ` M \<inter> M = {}"
  shows "moved (insert f M) new files files'"
  using assms unfolding moved_def os_Rename_def by auto

lemma mark_files:
  assumes "distinct fs" and "\<forall>f \<in> set fs. regular f \<longrightarrow> files f \<noteq> None"
    and "\<forall>f \<in> set fs. encrypted regular files f \<longrightarrow> files (f @ mark_tag) = None"
  shows "\<exists>files'. run_callbacks (mark_file regular (\<lambda>p. True)) fs files = Some files' \<and>
    moved {f \<in> set fs. encrypted regular files f} (\<lambda>f. f @ mark_tag) files files'"
  using assms
proof (induction fs arbitrary: files)
  case (Cons f fs)
  define M where "M = {g \<in> set fs. encrypted regular files g}"
  show ?case
  proof (cases "encrypted regular files f")
    case False
    have "mark_file regular (\<lambda>p. True) f files = Some files"
      using False Cons.prems(2) by (auto simp: mark_file_def encrypted_def check_file_def split: option.splits)
    moreover have "{g \<in> set (f # fs). encrypted regular files g} = M"
      using False by (auto simp: M_def)
    ultimately show ?thesis
      using Cons.IH [of files] Cons.prems by (simp add: M_def)
  next
    case True
    let ?files = "os_Rename f (f @ mark_tag) files"
    have new: "files (f @ mark_tag) = None" "files f \<noteq> None"
      using True Cons.prems(3) encrypted_dom [OF True] by auto
    have step: "mark_file regular (\<lambda>p. True) f files = Some ?files"
      using True by (simp add: mark_file_def encrypted_def)
    have same: "?files g = files g" if "g \<in> set fs" "regular g" for g
      using that Cons.prems(1,2) new by (auto simp: os_Rename_def)
    then have enc: "encrypted regular ?files g = encrypted regular files g" if "g \<in> set fs" for g
      using that by (auto simp: encrypted_def check_file_def)
    then have M: "{g \<in> set fs. encrypted regular ?files g} = M"
      by (auto simp: M_def)
    have fresh: "\<forall>g \<in> M. files (g @ mark_tag) = None \<and> files g \<noteq> None \<and> g \<noteq> f"
      using Cons.prems(1,3) encrypted_dom by (auto simp: M_def)
    have "\<forall>g \<in> set fs. encrypted regular ?files g \<longrightarrow> ?files (g @ mark_tag) = None"
      using fresh enc by (auto simp: M_def os_Rename_def)
    then obtain files' where files': "run_callbacks (mark_file regular (\<lambda>p. True)) fs ?files = Some files'"
        "moved M (\<lambda>f. f @ mark_tag) ?files files'"
      using Cons.IH [of ?files] Cons.prems(1,2) same unfolding M by auto
    have "moved (insert f M) (\<lambda>f. f @ mark_tag) files files'"
      by (rule moved_step [OF files'(2)]) (use fresh new in \<open>auto simp: M_def dest: encrypted_dom\<close>)
    moreover have "{g \<in> set (f # fs). encrypted regular files g} = insert f M"
      using True by (auto simp: M_def)
    ultimately show ?thesis
      using step files'(1) by simp
  qed
qed simp

lemma enc_marked:
  assumes "clean_dir d" and "tree_ok t" and "fs = seen_files azj_skips d t"
    and "\<forall>f \<in> set fs. regular f \<longrightarrow> files f \<noteq> None"
    and "\<forall>f \<in> set fs. encrypted regular files f \<longrightarrow> files (f @ mark_tag) = None"
  shows "\<exists>files'. mark_enc_files regular (\<lambda>p. True) (\<lambda>p. False) d t files = (WOk, files') \<and>
    moved {f \<in> set fs. encrypted regular files f} (\<lambda>f. f @ mark_tag) files files'"
  using mark_files [OF _ assms(4,5)] seen_distinct [OF assms(1,2), of azj_skips] azj_walk.Walk_seen
  unfolding mark_enc_files_def assms(3) by blast

text \<open>The other way.\<close>

definition decrypted :: "(string \<Rightarrow> bool) \<Rightarrow> string \<Rightarrow> bool" where
  "decrypted regular p \<longleftrightarrow> regular p \<and> HasSuffix (path_Base p) dec_tag"

definition strip_dec :: "string \<Rightarrow> string" where
  "strip_dec p = take (length p - length dec_tag) p"

lemma strip_dec_append [simp]: "strip_dec (f @ dec_tag) = f"
  by (simp add: strip_dec_def)

lemma rename_files:
  assumes "distinct fs" and "\<forall>g \<in> set fs. decrypted regular g \<longrightarrow> (\<exists>f. g = f @ dec_tag)"
    and "\<forall>g \<in> set fs. \<forall>h \<in> set fs. decrypted regular g \<longrightarrow> decrypted regular h \<longrightarrow> strip_dec g \<noteq> h"
  shows "\<exists>files'. run_callbacks (rename_file regular (\<lambda>p. True)) fs files = Some files' \<and>
    moved {g \<in> set fs. decrypted regular g} strip_dec files files'"
  using assms
proof (induction fs arbitrary: files)
  case (Cons g fs)
  define M where "M = {h \<in> set fs. decrypted regular h}"
  obtain files' where files': "run_callbacks (rename_file regular (\<lambda>p. True)) fs (if decrypted regular g then os_Rename g (strip_dec g) files else files) = Some files'"
      "moved M strip_dec (if decrypted regular g then os_Rename g (strip_dec g) files else files) files'"
    using Cons.IH [of "if decrypted regular g then os_Rename g (strip_dec g) files else files"] Cons.prems unfolding M_def by auto
  have step: "rename_file regular (\<lambda>p. True) g files = Some (if decrypted regular g then os_Rename g (strip_dec g) files else files)"
    by (simp add: rename_file_def decrypted_def strip_dec_def)
  show ?case
  proof (cases "decrypted regular g")
    case True
    then obtain f where f: "g = f @ dec_tag" using Cons.prems(2) by auto
    have other: "\<exists>k. h = k @ dec_tag \<and> k \<noteq> f" if "h \<in> M" for h
      using that Cons.prems(1,2) f by (auto simp: M_def)
    have "moved (insert g M) strip_dec files files'"
      by (rule moved_step [OF files'(2) [unfolded if_P [OF True]]])
        (use other f True Cons.prems(1,3) in \<open>fastforce simp: M_def\<close>)+
    moreover have "{h \<in> set (g # fs). decrypted regular h} = insert g M"
      using True by (auto simp: M_def)
    ultimately show ?thesis
      using step files'(1) by simp
  next
    case False
    then have "{h \<in> set (g # fs). decrypted regular h} = M" by (auto simp: M_def)
    with step files' False show ?thesis by simp
  qed
qed simp

lemma check_file_tag: "check_file files f = Some True \<longleftrightarrow> (\<exists>b. files f = Some (enc_tag @ b))"
proof -
  have "length enc_tag = 4" by (simp add: enc_tag_def)
  then have "length b \<ge> 4 \<and> take 4 b = enc_tag \<longleftrightarrow> (\<exists>c. b = enc_tag @ c)" for b
    by (metis append_eq_conv_conj append_take_drop_id le_add1 length_append)
  then show ?thesis by (auto simp: check_file_def)
qed

section \<open>Which files these are\<close>

text \<open>The tree without the directories (or other entries) of some names.\<close>

fun prune :: "(string \<Rightarrow> bool) \<Rightarrow> ltree \<Rightarrow> ltree"
  and prune_entries :: "(string \<Rightarrow> bool) \<Rightarrow> (string \<times> ltree) list \<Rightarrow> (string \<times> ltree) list" where
  "prune skip LFile = LFile"
| "prune skip (LDir None) = LDir None"
| "prune skip (LDir (Some es)) = LDir (Some (prune_entries skip es))"
| "prune_entries skip [] = []"
| "prune_entries skip ((n, t) # es) = (if skip n then prune_entries skip es else (n, prune skip t) # prune_entries skip es)"

text \<open>Only directories have such names.\<close>

fun only_dirs :: "(string \<Rightarrow> bool) \<Rightarrow> ltree \<Rightarrow> bool" where
  "only_dirs skip LFile = True"
| "only_dirs skip (LDir None) = True"
| "only_dirs skip (LDir (Some es)) = list_all (\<lambda>(n, t). (skip n \<longrightarrow> is_dir t) \<and> only_dirs skip t) es"

lemma seen_pruned:
  "clean_dir p \<Longrightarrow> tree_ok t \<Longrightarrow> only_dirs skip t \<Longrightarrow>
    seen_files skip p t = (if skip (path_Base p) then [] else tree_files p (prune skip t))"
  "clean_dir p \<Longrightarrow> list_all (\<lambda>(n, t). plain_name n \<and> tree_ok t) es \<Longrightarrow>
    list_all (\<lambda>(n, t). (skip n \<longrightarrow> is_dir t) \<and> only_dirs skip t) es \<Longrightarrow>
    seen_entries skip p es = tree_files_entries p (prune_entries skip es)"
proof (induction skip p t and skip p es rule: seen_files_seen_entries.induct)
  case (5 skip p n t es)
  then have q: "path_Join [p, n] = p @ CHR ''/'' # n" "clean_dir (p @ CHR ''/'' # n)" "path_Base (p @ CHR ''/'' # n) = n"
    "tree_ok t" "skip n \<longrightarrow> is_dir t" "only_dirs skip t"
    using path_Join_plain [of p n] clean_dir_entry [of p n] path_Base_entry [of n p] by auto
  with 5(1) [OF refl] 5(2) [OF refl] 5(3-5) show ?case by (auto simp: Let_def)
qed auto

text \<open>The last element of a path ends with the tag when the path does.\<close>

lemma plain_suffix:
  assumes "CHR ''/'' \<notin> set tag"
  shows "HasSuffix n tag \<longleftrightarrow> (\<exists>k. q @ CHR ''/'' # n = k @ tag)"
proof
  assume "HasSuffix n tag"
  then have "n = take (length n - length tag) n @ tag" by (metis HasSuffix_def append_take_drop_id)
  then show "\<exists>k. q @ CHR ''/'' # n = k @ tag" by (metis append_Cons append_assoc)
next
  assume "\<exists>k. q @ CHR ''/'' # n = k @ tag"
  then obtain k where k: "q @ CHR ''/'' # n = k @ tag" by blast
  have "length tag \<le> length n"
  proof (rule ccontr)
    assume "\<not> length tag \<le> length n"
    then have "drop (length tag - Suc (length n)) tag = CHR ''/'' # n"
      using arg_cong [OF k, of "\<lambda>s. drop (length s - Suc (length n)) s"] by simp
    with assms show False by (metis in_set_dropD list.set_intros(1))
  qed
  then show "HasSuffix n tag"
    using arg_cong [OF k, of "\<lambda>s. drop (length s - length tag) s"] by (simp add: HasSuffix_def Suc_diff_le)
qed

lemma tree_file_base:
  assumes "tree_ok (LDir (Some es))" and "f \<in> set (tree_files d (LDir (Some es)))"
  shows "\<exists>q n. f = q @ CHR ''/'' # n \<and> path_Base f = n"
proof -
  obtain n ns where f: "f = d @ sub_path (n # ns)" "list_all plain_name (n # ns)"
    using tree_files_names(2) [of es f d] assms by auto
  have "sub_path (n # ns) = sub_path (butlast (n # ns)) @ CHR ''/'' # last (n # ns)"
    by (subst append_butlast_last_id [symmetric]) (simp_all only: sub_path_def map_append concat_append, simp_all)
  moreover have "plain_name (last (n # ns))" using f(2) last_in_set [of "n # ns"] by (metis list.distinct(1) list_all_iff)
  ultimately have "f = (d @ sub_path (butlast (n # ns))) @ CHR ''/'' # last (n # ns)" "path_Base f = last (n # ns)"
    using f(1) path_Base_entry [of "last (n # ns)" "d @ sub_path (butlast (n # ns))"] by simp_all
  then show ?thesis by blast
qed

text \<open>
  C40: in a directory that can be read, where only directories are called \<^verbatim>\<open>.git\<close>, \<^verbatim>\<open>__pycache__\<close> or \<^verbatim>\<open>.idea\<close>, marking
  ends without an error and renames exactly the regular files outside those directories that begin with the tag
  of the tool and have no mark yet, each to its name with \<^verbatim>\<open>.c_c.c\<close> behind; renaming takes \<^verbatim>\<open>.c_c.c_txt\<close> off exactly
  the regular files outside those directories that end with it. The contents move with the names, and
  no other file changes, when the new names were free. (A file called just \<^verbatim>\<open>.c_c.c_txt\<close> cannot be
  renamed to nothing, and the files have to be readable: \<^verbatim>\<open>check_file\<close> ends the program otherwise.)
\<close>
theorem azj_renames:
  assumes tree: "clean_dir d" "t = LDir (Some es)" "tree_ok t" "readable t" "\<not> azj_skips (path_Base d)" "only_dirs azj_skips t"
    and fs: "fs = tree_files d (prune azj_skips t)" "\<forall>f \<in> set fs. regular f \<longrightarrow> files f \<noteq> None" "\<forall>f \<in> set fs. path_Base f \<noteq> dec_tag"
    and M: "M = {f \<in> set fs. regular f \<and> \<not> HasSuffix (path_Base f) mark_tag \<and> (\<exists>b. files f = Some (enc_tag @ b))}"
      "\<forall>f \<in> M. files (f @ mark_tag) = None"
    and R: "R = {k. k @ dec_tag \<in> set fs \<and> regular (k @ dec_tag)}" "\<forall>k \<in> R. files k = None"
  shows "(\<exists>files'. mark_enc_files regular (\<lambda>p. True) (\<lambda>p. False) d t files = (WOk, files') \<and>
      (\<forall>f \<in> M. files' (f @ mark_tag) = files f \<and> files' f = None) \<and>
      (\<forall>p. p \<notin> M \<and> p \<notin> (\<lambda>f. f @ mark_tag) ` M \<longrightarrow> files' p = files p)) \<and>
    (\<exists>files'. rename_dec_files regular (\<lambda>p. True) (\<lambda>p. False) d t files = (WOk, files') \<and>
      (\<forall>k \<in> R. files' k = files (k @ dec_tag) \<and> files' (k @ dec_tag) = None) \<and>
      (\<forall>p. p \<notin> R \<and> p \<notin> (\<lambda>k. k @ dec_tag) ` R \<longrightarrow> files' p = files p))"
proof -
  have seen: "seen_files azj_skips d t = fs"
    using seen_pruned(1) [OF tree(1,3,6)] tree(5) fs(1) by simp
  have dist: "distinct fs" using seen_distinct [OF tree(1,3), of azj_skips] seen by simp
  have enc: "{f \<in> set fs. encrypted regular files f} = M" unfolding M(1) by (auto simp: encrypted_def check_file_tag)
  have "\<forall>f \<in> set fs. encrypted regular files f \<longrightarrow> files (f @ mark_tag) = None" using M(2) enc by blast
  from enc_marked [OF tree(1,3) seen [symmetric] fs(2) this]
  have mark: "\<exists>files'. mark_enc_files regular (\<lambda>p. True) (\<lambda>p. False) d t files = (WOk, files') \<and>
      moved M (\<lambda>f. f @ mark_tag) files files'"
    unfolding enc .
  have slash: "CHR ''/'' \<notin> set dec_tag" by (simp add: dec_tag_def)
  have dec_iff: "decrypted regular f \<longleftrightarrow> regular f \<and> (\<exists>k. f = k @ dec_tag)" if f: "f \<in> set fs" for f
  proof -
    have "f \<in> set (tree_files d t)" using seen_subset(1) [OF tree(1,3), of azj_skips] f seen by blast
    then obtain q n where q: "f = q @ CHR ''/'' # n" "path_Base f = n"
      using tree_file_base [of es f d] tree(2,3) by blast
    show ?thesis unfolding decrypted_def q(2) unfolding q(1) using plain_suffix [OF slash, of n q] by blast
  qed
  have dec: "{f \<in> set fs. decrypted regular f} = (\<lambda>k. k @ dec_tag) ` R"
    unfolding R(1) using dec_iff by auto
  have "\<exists>files'. run_callbacks (rename_file regular (\<lambda>p. True)) fs files = Some files' \<and>
      moved {f \<in> set fs. decrypted regular f} strip_dec files files'"
  proof (rule rename_files [OF dist])
    show "\<forall>g \<in> set fs. decrypted regular g \<longrightarrow> (\<exists>f. g = f @ dec_tag)" using dec_iff by blast
    show "\<forall>g \<in> set fs. \<forall>h \<in> set fs. decrypted regular g \<longrightarrow> decrypted regular h \<longrightarrow> strip_dec g \<noteq> h"
    proof (intro ballI impI)
      fix g h
      assume g: "g \<in> set fs" "decrypted regular g" and h: "h \<in> set fs" "decrypted regular h"
      from g dec obtain k where "k \<in> R" "g = k @ dec_tag" by blast
      moreover have "files h \<noteq> None" using h fs(2) by (simp add: decrypted_def)
      ultimately show "strip_dec g \<noteq> h" using R(2) by auto
    qed
  qed
  then have "\<exists>files'. rename_dec_files regular (\<lambda>p. True) (\<lambda>p. False) d t files = (WOk, files') \<and>
      moved ((\<lambda>k. k @ dec_tag) ` R) strip_dec files files'"
    using azj_walk.Walk_seen seen unfolding rename_dec_files_def dec by blast
  moreover have "moved ((\<lambda>k. k @ dec_tag) ` R) strip_dec files g \<longleftrightarrow>
      (\<forall>k \<in> R. g k = files (k @ dec_tag) \<and> g (k @ dec_tag) = None) \<and>
      (\<forall>p. p \<notin> R \<and> p \<notin> (\<lambda>k. k @ dec_tag) ` R \<longrightarrow> g p = files p)" for g
    unfolding moved_def image_image strip_dec_append image_ident ball_simps by blast
  ultimately show ?thesis using mark unfolding moved_def imp_conjL by simp
qed

text \<open>A directory with an encrypted file, a plain one, a decrypted one, and an encrypted one under \<^verbatim>\<open>.git\<close>.\<close>

definition azj_files :: "string \<rightharpoonup> bytes" where
  "azj_files = [''d/a'' \<mapsto> enc_tag @ [7], ''d/b'' \<mapsto> [1, 2], ''d/x.c_c.c_txt'' \<mapsto> [7], ''d/.git/c'' \<mapsto> enc_tag]"

definition azj_tree :: ltree where
  "azj_tree = LDir (Some [(''.git'', LDir (Some [(''c'', LFile)])), (''a'', LFile), (''b'', LFile), (''x.c_c.c_txt'', LFile)])"

theorem azj_renames_witness:
  "\<exists>files1 files2. mark_enc_files (\<lambda>p. True) (\<lambda>p. True) (\<lambda>p. False) ''d'' azj_tree azj_files = (WOk, files1) \<and>
    files1 ''d/a.c_c.c'' = Some (enc_tag @ [7]) \<and> files1 ''d/a'' = None \<and> files1 ''d/.git/c'' = Some enc_tag \<and>
    rename_dec_files (\<lambda>p. True) (\<lambda>p. True) (\<lambda>p. False) ''d'' azj_tree azj_files = (WOk, files2) \<and>
    files2 ''d/x'' = Some [7] \<and> files2 ''d/x.c_c.c_txt'' = None \<and> files2 ''d/b'' = Some [1, 2]"
proof -
  let ?fs = "[''d/a'', ''d/b'', ''d/x.c_c.c_txt'']"
  have tree: "clean_dir ''d''" "tree_ok azj_tree" "readable azj_tree" "\<not> azj_skips (path_Base ''d'')" "only_dirs azj_skips azj_tree"
    and fs: "?fs = tree_files ''d'' (prune azj_skips azj_tree)"
    and bases: "\<forall>f \<in> set ?fs. path_Base f \<noteq> dec_tag"
    by code_simp+
  have "\<not> HasSuffix (path_Base ''d/a'') mark_tag" by code_simp
  then have M: "{''d/a''} = {f \<in> set ?fs. True \<and> \<not> HasSuffix (path_Base f) mark_tag \<and> (\<exists>b. azj_files f = Some (enc_tag @ b))}"
    by (auto simp: azj_files_def enc_tag_def)
  have "k @ dec_tag \<in> set ?fs \<longleftrightarrow> k = ''d/x''" for k
  proof -
    have "last (k @ dec_tag) = CHR ''t''" by (simp add: dec_tag_def)
    then have "k @ dec_tag \<in> set ?fs \<longleftrightarrow> k @ dec_tag = ''d/x'' @ dec_tag" by (auto simp: dec_tag_def)
    then show ?thesis by simp
  qed
  then have R: "{''d/x''} = {k. k @ dec_tag \<in> set ?fs \<and> True}" by simp
  note tree1 = tree(2-5) [unfolded azj_tree_def]
  have known: "\<forall>f \<in> set ?fs. True \<longrightarrow> azj_files f \<noteq> None" and "\<forall>f \<in> {''d/a''}. azj_files (f @ mark_tag) = None"
    "\<forall>k \<in> {''d/x''}. azj_files k = None"
    by (simp_all add: azj_files_def mark_tag_def)
  with azj_renames [OF tree(1) azj_tree_def tree(2-5) fs known bases M _ R]
  obtain files1 files2 where
    "mark_enc_files (\<lambda>p. True) (\<lambda>p. True) (\<lambda>p. False) ''d'' azj_tree azj_files = (WOk, files1)"
    "files1 (''d/a'' @ mark_tag) = azj_files ''d/a''" "files1 ''d/a'' = None"
    "\<forall>p. p \<notin> {''d/a''} \<and> p \<notin> {''d/a'' @ mark_tag} \<longrightarrow> files1 p = azj_files p"
    "rename_dec_files (\<lambda>p. True) (\<lambda>p. True) (\<lambda>p. False) ''d'' azj_tree azj_files = (WOk, files2)"
    "files2 ''d/x'' = azj_files (''d/x'' @ dec_tag)" "files2 (''d/x'' @ dec_tag) = None"
    "\<forall>p. p \<notin> {''d/x''} \<and> p \<notin> {''d/x'' @ dec_tag} \<longrightarrow> files2 p = azj_files p"
    by auto
  then show ?thesis by (simp add: azj_files_def mark_tag_def dec_tag_def)
qed

section \<open>The file that was changed last\<close>

text \<open>An entry of a directory with its time, and for a directory the times of what it has, if it can be read.\<close>

datatype dir_entry = EFile string int | EDir string "int list option"

definition newer :: "string \<Rightarrow> int \<Rightarrow> int \<times> string \<Rightarrow> int \<times> string" where
  "newer name t m = (if t > fst m then (t, name) else m)"

fun mtime_entry :: "int \<times> string \<Rightarrow> dir_entry \<Rightarrow> int \<times> string" where
  "mtime_entry m (EFile name t) = newer name t m"
| "mtime_entry m (EDir name None) = m"
| "mtime_entry m (EDir name (Some ts)) = foldl (\<lambda>m t. newer name t m) m ts"

definition mtime_scan :: "dir_entry list \<Rightarrow> int \<times> string" where
  "mtime_scan es = foldl mtime_entry (- 1, []) es"

text \<open>What is printed: the entry and the minutes, or the seconds for the output file. \<open>now\<close> is the time.\<close>

definition Mtime :: "int \<Rightarrow> dir_entry list option \<Rightarrow> string \<Rightarrow> string" where
  "Mtime now fl opath =
     (case fl of
        None \<Rightarrow> ''-1'' @ [CHR 0x0A]
      | Some es \<Rightarrow>
          (let (m, name) = mtime_scan es; t = now - m
           in if opath = [] then ''max_file: '' @ name @ [CHR 0x0A] @ ''TMDIFF_MINUTES='' @ Itoa (sgn t * (\<bar>t\<bar> div 60)) @ [CHR 0x0A]
              else Itoa t @ [CHR 0x0A]))"

fun entry_times :: "dir_entry \<Rightarrow> (int \<times> string) list" where
  "entry_times (EFile name t) = [(t, name)]"
| "entry_times (EDir name None) = []"
| "entry_times (EDir name (Some ts)) = map (\<lambda>t. (t, name)) ts"

lemma mtime_entry_times: "mtime_entry m e = foldl (\<lambda>m (t, name). newer name t m) m (entry_times e)"
proof (cases e)
  case (EDir name ts)
  then show ?thesis by (cases ts) (simp_all add: foldl_map)
qed simp

lemma mtime_scan_times: "mtime_scan es = foldl (\<lambda>m (t, name). newer name t m) (- 1, []) (concat (map entry_times es))"
proof -
  have "foldl mtime_entry m es = foldl (\<lambda>m (t, name). newer name t m) m (concat (map entry_times es))" for m
    by (induction es arbitrary: m) (simp_all add: mtime_entry_times)
  then show ?thesis by (simp add: mtime_scan_def)
qed

lemma newer_foldl:
  "let m' = foldl (\<lambda>m (t, name). newer name t m) m xs
   in fst m \<le> fst m' \<and> (m' = m \<or> m' \<in> set xs) \<and> (\<forall>x \<in> set xs. fst x \<le> fst m')"
proof (induction xs arbitrary: m)
  case (Cons x xs)
  show ?case
    using Cons.IH [of "newer (snd x) (fst x) m"] by (cases x) (auto simp: newer_def Let_def split: if_splits)
qed simp

text \<open>The latest time of the files in the directory and of everything in its directories, with its entry.\<close>

lemma mtime_scan_latest:
  "mtime_scan es = (m, name) \<Longrightarrow> (t, n) \<in> set (concat (map entry_times es)) \<Longrightarrow> t \<le> m"
  "mtime_scan es = (m, name) \<Longrightarrow> m \<noteq> - 1 \<Longrightarrow> (m, name) \<in> set (concat (map entry_times es))"
  using newer_foldl [of "(- 1, [])" "concat (map entry_times es)"] unfolding mtime_scan_times Let_def by (metis fst_conv, metis fst_conv)

text \<open>An empty directory gives a time of \<^verbatim>\<open>-1\<close>: everything since 1970.\<close>

lemma Mtime_empty: "Mtime 59 (Some []) [] = ''max_file: '' @ [CHR 0x0A] @ ''TMDIFF_MINUTES=1'' @ [CHR 0x0A]"
  by code_simp

text \<open>In a worktree or submodule \<^verbatim>\<open>.git\<close> is a file: nothing of that directory is marked.\<close>

lemma git_file_ends_directory: "seen_files azj_skips ''d'' (LDir (Some [(''.git'', LFile), (''a'', LFile), (''b'', LFile)])) = []"
  by code_simp

end
