(* ===== verification/File_Sync.thy ===== *)
theory File_Sync
  imports Watch_Sync
begin

text \<open>
  The file synchroniser of \<^verbatim>\<open>file_syncer.go\<close>, \<^verbatim>\<open>file_watcher.go\<close> and \<^verbatim>\<open>console_reader.go\<close>: a watcher and a
  console hand paths to a syncer, which brings files and directories to a remote directory or removes them
  there. First what the syncer does to the remote store, then the three goroutines and their channels.
\<close>

section \<open>Places and ignored paths\<close>

record sync_config =
  sc_LocalDir :: string
  sc_RemoteDir :: string
  sc_IgnoreFiles :: "string list"
  sc_IgnoreDirs :: "string list"
  sc_ReplaceRule :: "(string \<times> string) list"

definition JoinRemotePath :: "sync_config \<Rightarrow> string \<Rightarrow> string" where
  "JoinRemotePath c localPath = path_Join [sc_RemoteDir c, ReplaceAll localPath (sc_LocalDir c) []]"

definition sync_IsIgnoreDir :: "sync_config \<Rightarrow> string \<Rightarrow> bool" where
  "sync_IsIgnoreDir c dirname = list_ex (\<lambda>prefix. HasPrefix dirname (path_Join [sc_LocalDir c, prefix])) (sc_IgnoreDirs c)"

definition sync_IsIgnoreFile :: "sync_config \<Rightarrow> string \<Rightarrow> bool" where
  "sync_IsIgnoreFile c fpath =
     (let (dirname, filename) = path_Split fpath
      in list_ex (HasSuffix filename) (sc_IgnoreFiles c) \<or>
         list_ex (\<lambda>prefix. HasPrefix dirname (path_Join [sc_LocalDir c, prefix])) (sc_IgnoreDirs c))"

text \<open>The rules of \<^verbatim>\<open>ReplaceRule\<close> come in an order that Go chooses anew each time.\<close>

definition apply_rules :: "(string \<times> string) list \<Rightarrow> bytes \<Rightarrow> bytes" where
  "apply_rules ord b = foldl (\<lambda>stream (old, new). str_bytes (ReplaceAll (bytes_str stream) old new)) b ord"

section \<open>Bringing files over\<close>

text \<open>The operations of the remote side; \<open>so_files\<close> are those on files.\<close>

record 'r sync_ops =
  so_files :: "'r store_ops"
  so_mkdir :: "'r \<Rightarrow> string \<Rightarrow> 'r"
  so_remove :: "'r \<Rightarrow> string \<Rightarrow> bool \<times> 'r"
  so_rmdir :: "'r \<Rightarrow> string \<Rightarrow> 'r"

text \<open>\<open>rd\<close> is what reading a local file gives: its bytes and whether they came to an end without an error.\<close>

definition SyncFile ::
  "sync_config \<Rightarrow> 'r sync_ops \<Rightarrow> (string \<Rightarrow> (bytes \<times> bool) option) \<Rightarrow> string \<Rightarrow> 'r \<Rightarrow> bool \<times> 'r" where
  "SyncFile c ops rd localFilePath r =
     (if sync_IsIgnoreFile c localFilePath then (True, r)
      else case rd localFilePath of
             None \<Rightarrow> (False, r)
           | Some (b, whole) \<Rightarrow>
               (case fo_create (so_files ops) r (JoinRemotePath c localFilePath) of
                  None \<Rightarrow> (False, r)
                | Some r1 \<Rightarrow>
                    if \<not> whole then (False, r1)
                    else (True, snd (fo_write (so_files ops) r1 (JoinRemotePath c localFilePath) (apply_rules (sc_ReplaceRule c) b)))))"

text \<open>\<^verbatim>\<open>SyncDir\<close> looks at no result of what it calls.\<close>

fun SyncDir :: "sync_config \<Rightarrow> 'r sync_ops \<Rightarrow> (string \<Rightarrow> (bytes \<times> bool) option) \<Rightarrow> string \<Rightarrow> ltree \<Rightarrow> 'r \<Rightarrow> 'r"
  and sync_entries ::
    "sync_config \<Rightarrow> 'r sync_ops \<Rightarrow> (string \<Rightarrow> (bytes \<times> bool) option) \<Rightarrow> string \<Rightarrow> (string \<times> ltree) list \<Rightarrow> 'r \<Rightarrow> 'r" where
  "SyncDir c ops rd p LFile r = snd (SyncFile c ops rd p r)"
| "SyncDir c ops rd p (LDir None) r = r"
| "SyncDir c ops rd p (LDir (Some es)) r =
     (if sync_IsIgnoreDir c p then r else sync_entries c ops rd p es (so_mkdir ops r (JoinRemotePath c p)))"
| "sync_entries c ops rd p [] r = r"
| "sync_entries c ops rd p ((n, t) # es) r = sync_entries c ops rd p es (SyncDir c ops rd (path_Join [p, n]) t r)"

section \<open>Removing\<close>

definition RemoveFile :: "sync_config \<Rightarrow> 'r sync_ops \<Rightarrow> string \<Rightarrow> 'r \<Rightarrow> bool \<times> 'r" where
  "RemoveFile c ops remoteFilePath r = (if sync_IsIgnoreFile c remoteFilePath then (True, r) else so_remove ops r remoteFilePath)"

text \<open>The tree is what is there on the remote side.\<close>

fun RemoveDir :: "sync_config \<Rightarrow> 'r sync_ops \<Rightarrow> string \<Rightarrow> ltree \<Rightarrow> 'r \<Rightarrow> 'r"
  and remove_entries :: "sync_config \<Rightarrow> 'r sync_ops \<Rightarrow> string \<Rightarrow> (string \<times> ltree) list \<Rightarrow> 'r \<Rightarrow> 'r" where
  "RemoveDir c ops p LFile r = snd (RemoveFile c ops p r)"
| "RemoveDir c ops p (LDir None) r = r"
| "RemoveDir c ops p (LDir (Some es)) r =
     (if sync_IsIgnoreDir c p then r else so_rmdir ops (remove_entries c ops p es r) p)"
| "remove_entries c ops p [] r = r"
| "remove_entries c ops p ((n, t) # es) r = remove_entries c ops p es (RemoveDir c ops (path_Join [p, n]) t r)"

section \<open>The loop of the syncer\<close>

text \<open>
  A request, with what is found for it: the local tree and whether the server could be reached (if not, the
  process ends), or the remote tree.
\<close>

datatype sync_request =
    SyncRequest string "ltree option" bool
  | RemoveRequest string bool "ltree option"

fun syncer_handle ::
  "sync_config \<Rightarrow> 'r sync_ops \<Rightarrow> (string \<Rightarrow> (bytes \<times> bool) option) \<Rightarrow> sync_request \<Rightarrow> 'r \<Rightarrow> 'r option" where
  "syncer_handle c ops rd (SyncRequest p None connects) r = Some r"
| "syncer_handle c ops rd (SyncRequest p (Some t) connects) r = (if \<not> connects then None else Some (SyncDir c ops rd p t r))"
| "syncer_handle c ops rd (RemoveRequest p connects found) r =
     (if \<not> connects then None
      else case found of None \<Rightarrow> Some r | Some t \<Rightarrow> Some (RemoveDir c ops (JoinRemotePath c p) t r))"

section \<open>What arrives\<close>

text \<open>The files of a tree that are brought over, in order.\<close>

fun sync_files :: "sync_config \<Rightarrow> string \<Rightarrow> ltree \<Rightarrow> string list"
  and sync_files_entries :: "sync_config \<Rightarrow> string \<Rightarrow> (string \<times> ltree) list \<Rightarrow> string list" where
  "sync_files c p LFile = (if sync_IsIgnoreFile c p then [] else [p])"
| "sync_files c p (LDir None) = []"
| "sync_files c p (LDir (Some es)) = (if sync_IsIgnoreDir c p then [] else sync_files_entries c p es)"
| "sync_files_entries c p [] = []"
| "sync_files_entries c p ((n, t) # es) = sync_files c (path_Join [p, n]) t @ sync_files_entries c p es"

text \<open>What is relied on: the laws of the store, and that making a directory leaves the files alone.\<close>

definition mkdir_keeps :: "'r sync_ops \<Rightarrow> string set \<Rightarrow> bool" where
  "mkdir_keeps ops P \<longleftrightarrow> (\<forall>q \<in> P. \<forall>r d. same_at (so_files ops) q r (so_mkdir ops r d))"

text \<open>A file at its place; one that could not be opened changes nothing.\<close>

definition arrived :: "sync_config \<Rightarrow> 'r sync_ops \<Rightarrow> (string \<Rightarrow> (bytes \<times> bool) option) \<Rightarrow> 'r \<Rightarrow> string \<Rightarrow> bool" where
  "arrived c ops rd r f \<longleftrightarrow>
     (\<forall>b. rd f = Some (b, True) \<longrightarrow> file_at (so_files ops) r (JoinRemotePath c f) (apply_rules (sc_ReplaceRule c) b))"

lemma SyncFile_same:
  assumes "store_laws (so_files ops) P" "JoinRemotePath c f \<in> P" "q \<in> P" "q \<noteq> JoinRemotePath c f"
  shows "same_at (so_files ops) q r (snd (SyncFile c ops rd f r))"
proof -
  note same = store_lawsD(3) [OF assms] store_lawsD(4) [OF assms]
  show ?thesis
    using same_at_trans [OF same(1) same(2)] same(1) by (auto simp: SyncFile_def split: option.splits)
qed

lemma SyncFile_arrives:
  assumes "store_laws (so_files ops) P" "upload_works (so_files ops) P" "JoinRemotePath c f \<in> P" "\<not> sync_IsIgnoreFile c f"
  shows "arrived c ops rd (snd (SyncFile c ops rd f r)) f"
proof -
  obtain r1 where r1: "fo_create (so_files ops) r (JoinRemotePath c f) = Some r1" "\<And>b. fst (fo_write (so_files ops) r1 (JoinRemotePath c f) b)"
    using assms(2,3) unfolding upload_works_def by blast
  have "file_at (so_files ops) (snd (fo_write (so_files ops) r1 (JoinRemotePath c f) b)) (JoinRemotePath c f) b" for b
    using store_lawsD(1) [OF assms(1,3) r1(1), of b] r1(2) [of b] by (cases "fo_write (so_files ops) r1 (JoinRemotePath c f) b") simp
  with assms(4) r1(1) show ?thesis by (simp add: arrived_def SyncFile_def)
qed

lemma arrived_same: "arrived c ops rd r f \<Longrightarrow> same_at (so_files ops) (JoinRemotePath c f) r r' \<Longrightarrow> arrived c ops rd r' f"
  by (auto simp: arrived_def file_at_def same_at_def)

definition brought :: "sync_config \<Rightarrow> 'r sync_ops \<Rightarrow> (string \<Rightarrow> (bytes \<times> bool) option) \<Rightarrow> string set \<Rightarrow> string list \<Rightarrow> 'r \<Rightarrow> 'r \<Rightarrow> bool" where
  "brought c ops rd P fs r r' \<longleftrightarrow> (\<forall>f \<in> set fs. arrived c ops rd r' f) \<and>
     (\<forall>q \<in> P - JoinRemotePath c ` set fs. same_at (so_files ops) q r r')"

lemma brought_nothing [simp]: "brought c ops rd P [] r r"
  by (simp add: brought_def)

lemma brought_append:
  assumes "brought c ops rd P fs r r1" "brought c ops rd P gs r1 r2"
    and "inj_on (JoinRemotePath c) (set (fs @ gs))" "JoinRemotePath c ` set (fs @ gs) \<subseteq> P"
  shows "brought c ops rd P (fs @ gs) r r2"
proof -
  have "arrived c ops rd r2 f" if f: "f \<in> set fs" "f \<notin> set gs" for f
  proof -
    have "JoinRemotePath c f \<notin> JoinRemotePath c ` set gs"
      using assms(3) f by (auto dest: inj_onD)
    moreover have "JoinRemotePath c f \<in> P"
      using assms(4) f(1) by auto
    ultimately have "same_at (so_files ops) (JoinRemotePath c f) r1 r2"
      using assms(2) unfolding brought_def by blast
    moreover have "arrived c ops rd r1 f"
      using assms(1) f(1) by (simp add: brought_def)
    ultimately show ?thesis by (rule arrived_same [rotated])
  qed
  moreover have "same_at (so_files ops) q r r2" if "q \<in> P - JoinRemotePath c ` set (fs @ gs)" for q
  proof (rule same_at_trans)
    show "same_at (so_files ops) q r r1" "same_at (so_files ops) q r1 r2"
      using assms(1,2) that unfolding brought_def set_append image_Un by blast+
  qed
  ultimately show ?thesis
    using assms(2) by (auto simp: brought_def)
qed

lemma brought_mkdir:
  assumes "mkdir_keeps ops P" "brought c ops rd P fs (so_mkdir ops r d) r'"
  shows "brought c ops rd P fs r r'"
proof -
  have "same_at (so_files ops) q r r'" if "q \<in> P - JoinRemotePath c ` set fs" for q
    using assms that same_at_trans [of "so_files ops" q r "so_mkdir ops r d" r'] unfolding brought_def mkdir_keeps_def by blast
  with assms(2) show ?thesis
    by (simp add: brought_def)
qed

lemma SyncDir_brings:
  assumes laws: "store_laws (so_files ops) P" "upload_works (so_files ops) P" "mkdir_keeps ops P"
  shows "inj_on (JoinRemotePath c) (set (sync_files c p t)) \<Longrightarrow> JoinRemotePath c ` set (sync_files c p t) \<subseteq> P \<Longrightarrow>
      brought c ops rd P (sync_files c p t) r (SyncDir c ops rd p t r)"
    and "inj_on (JoinRemotePath c) (set (sync_files_entries c p es)) \<Longrightarrow> JoinRemotePath c ` set (sync_files_entries c p es) \<subseteq> P \<Longrightarrow>
      brought c ops rd P (sync_files_entries c p es) r (sync_entries c ops rd p es r)"
proof (induction c p t and c p es arbitrary: r and r rule: sync_files_sync_files_entries.induct)
  case (1 c p)
  show ?case
  proof (cases "sync_IsIgnoreFile c p")
    case False
    then have "JoinRemotePath c p \<in> P" using 1(2) by simp
    from SyncFile_arrives [OF laws(1,2) this False] SyncFile_same [OF laws(1) this] False show ?thesis
      by (auto simp: brought_def)
  qed (simp add: SyncFile_def)
next
  case (3 c p es)
  show ?case
  proof (cases "sync_IsIgnoreDir c p")
    case False
    from 3 False have "brought c ops rd P (sync_files_entries c p es) (so_mkdir ops r d) (sync_entries c ops rd p es (so_mkdir ops r d))" for d
      by simp
    from brought_mkdir [OF laws(3) this] False show ?thesis by simp
  qed simp
next
  case (5 c p n t es)
  have i: "inj_on (JoinRemotePath c) (set (sync_files c (path_Join [p, n]) t))" "inj_on (JoinRemotePath c) (set (sync_files_entries c p es))"
    using 5(3) by (simp_all add: inj_on_Un)
  show ?case
    using brought_append [OF 5(1) [OF i(1)] 5(2) [OF i(2)], of r] 5(3,4) by (simp add: image_Un)
qed auto

text \<open>Where a file of the local directory goes, when the name of the directory does not come again in its path.\<close>

lemma JoinRemotePath_sub:
  assumes "clean_dir (sc_RemoteDir c)" "list_all plain_name ns" "go_Split (sc_LocalDir c @ sub_path ns) (sc_LocalDir c) = [[], sub_path ns]"
  shows "JoinRemotePath c (sc_LocalDir c @ sub_path ns) = sc_RemoteDir c @ sub_path ns"
  using path_Join_sub [OF assms(1,2)] assms(3) by (simp add: JoinRemotePath_def ReplaceAll_def)

text \<open>
  A directory that is synchronised is there. When the remote side takes what is written to it, every file
  of the tree that is neither ignored nor in an ignored directory and that can be read is at its place with
  its contents after the replacing rules, and the other files there are what they were.
\<close>
theorem sync_dir_complete:
  assumes "store_laws (so_files ops) P" "upload_works (so_files ops) P" "mkdir_keeps ops P"
    and "inj_on (JoinRemotePath c) (set (sync_files c p t))" "JoinRemotePath c ` set (sync_files c p t) \<subseteq> P"
    and "syncer_handle c ops rd (SyncRequest p (Some t) True) r = Some r'"
  shows "(\<forall>f \<in> set (sync_files c p t). \<forall>b. rd f = Some (b, True) \<longrightarrow>
      file_at (so_files ops) r' (JoinRemotePath c f) (apply_rules (sc_ReplaceRule c) b)) \<and>
    (\<forall>q \<in> P - JoinRemotePath c ` set (sync_files c p t). same_at (so_files ops) q r r')"
  using SyncDir_brings(1) [OF assms(1-5), of rd r] assms(6) by (auto simp: brought_def arrived_def)

definition sync_demo :: sync_config where
  "sync_demo = \<lparr>sc_LocalDir = ''/w'', sc_RemoteDir = ''/r'', sc_IgnoreFiles = [''~''], sc_IgnoreDirs = [''out''], sc_ReplaceRule = [(''a'', ''b'')]\<rparr>"

definition sync_demo_ops :: "(string \<rightharpoonup> bytes option) sync_ops" where
  "sync_demo_ops = \<lparr>so_files = path_store, so_mkdir = (\<lambda>r d. r), so_remove = (\<lambda>r p. (True, r(p := None))), so_rmdir = (\<lambda>r p. r)\<rparr>"

definition sync_demo_tree :: ltree where
  "sync_demo_tree = LDir (Some [(''out'', LDir (Some [(''c'', LFile)])), (''x'', LFile), (''y~'', LFile)])"


lemma sync_demo_eval:
  "sync_files sync_demo ''/w'' sync_demo_tree = [''/w/x'']" "JoinRemotePath sync_demo ''/w/x'' = ''/r/x''"
  "apply_rules (sc_ReplaceRule sync_demo) [97, 99] = [98, 99]"
  by code_simp+

theorem sync_dir_complete_witness:
  "\<exists>r'. syncer_handle sync_demo sync_demo_ops (\<lambda>f. Some ([97, 99], True)) (SyncRequest ''/w'' (Some sync_demo_tree) True) [''/z'' \<mapsto> Some [5]] = Some r' \<and>
     file_at path_store r' ''/r/x'' [98, 99] \<and> same_at path_store ''/z'' [''/z'' \<mapsto> Some [5]] r'"
proof -
  let ?P = "{''/r/x'', ''/z''}" and ?rd = "\<lambda>f :: string. Some ([97, 99] :: bytes, True)"
  have ops: "so_files sync_demo_ops = path_store" "upload_works path_store ?P" "mkdir_keeps sync_demo_ops ?P"
    by (simp_all add: sync_demo_ops_def upload_works_def path_store_def mkdir_keeps_def)
  obtain r' where r': "syncer_handle sync_demo sync_demo_ops ?rd (SyncRequest ''/w'' (Some sync_demo_tree) True) [''/z'' \<mapsto> Some [5]] = Some r'"
    by simp
  have "(\<forall>f \<in> {''/w/x''}. \<forall>b. ?rd f = Some (b, True) \<longrightarrow> file_at path_store r' (JoinRemotePath sync_demo f) (apply_rules (sc_ReplaceRule sync_demo) b)) \<and>
      (\<forall>q \<in> ?P - {''/r/x''}. same_at path_store q [''/z'' \<mapsto> Some [5]] r')"
    using sync_dir_complete [of sync_demo_ops ?P sync_demo "''/w''" sync_demo_tree ?rd "[''/z'' \<mapsto> Some [5]]" r'] path_store_laws r'
    by (simp add: ops sync_demo_eval)
  with r' show ?thesis
    by (simp add: sync_demo_eval)
qed

section \<open>What goes wrong\<close>

text \<open>The name of the local directory is cut out wherever it comes.\<close>

lemma JoinRemotePath_everywhere:
  "JoinRemotePath \<lparr>sc_LocalDir = ''/a'', sc_RemoteDir = ''/r'', sc_IgnoreFiles = [], sc_IgnoreDirs = [], sc_ReplaceRule = []\<rparr> ''/a/x/a/y'' = ''/r/x/y''"
  by code_simp

text \<open>Two rules one of which makes what the other replaces: what arrives depends on the order of a Go map.\<close>

lemma rules_order: "apply_rules [(''a'', ''b''), (''b'', ''c'')] [97] = [99]" "apply_rules [(''b'', ''c''), (''a'', ''b'')] [97] = [98]"
  by code_simp+

text \<open>A local file whose reading fails has emptied the remote one.\<close>

lemma SyncFile_empties:
  assumes "\<not> sync_IsIgnoreFile c f" "rd f = Some (b, False)" "fo_create (so_files ops) r (JoinRemotePath c f) = Some r1"
  shows "SyncFile c ops rd f r = (False, r1)"
  using assms by (simp add: SyncFile_def)

text \<open>
  Removing asks whether a \<^emph>\<open>remote\<close> path lies in an ignored \<^emph>\<open>local\<close> directory: where the two places differ,
  an ignored directory is removed with the rest.
\<close>

lemma RemoveDir_ignored:
  "RemoveDir sync_demo sync_demo_ops ''/r'' (LDir (Some [(''out'', LDir (Some [(''c'', LFile)]))])) [''/r/out/c'' \<mapsto> Some [1]] ''/r/out/c'' = None"
  by (simp add: sync_demo_def sync_demo_ops_def RemoveFile_def sync_IsIgnoreDir_def sync_IsIgnoreFile_def; code_simp)

end
