(* ===== verification/Sync_Loops.thy ===== *)
theory Sync_Loops
  imports File_Sync
begin

text \<open>
  The three goroutines of the file synchroniser: the console (\<^verbatim>\<open>console_reader.go\<close>) and the watcher
  (\<^verbatim>\<open>file_watcher.go\<close>) send paths on two channels without a buffer, the syncer (\<^verbatim>\<open>file_syncer.go\<close>) takes one
  at a time. When the console ends, both others are told to end; the program waits for all three.
\<close>

section \<open>What the console and the watcher send\<close>

datatype sync_msg = MSync string | MRemove string

datatype console = ConRead | ConSend sync_msg | ConEnd

definition console_words :: "string \<Rightarrow> string list" where
  "console_words input = go_Split (ReplaceAll (ReplaceAll input [CHR 0x0D, CHR 0x0A] []) [CHR 0x0A] []) '' ''"

definition handleConsole :: "sync_config \<Rightarrow> string \<Rightarrow> console" where
  "handleConsole c input =
     (let cmds = console_words input
      in if cmds ! 0 = ''sync'' then (if length cmds < 2 then ConRead else ConSend (MSync (path_Join [sc_LocalDir c, cmds ! 1])))
         else if cmds ! 0 = ''remove'' then (if length cmds < 2 then ConRead else ConSend (MRemove (path_Join [sc_LocalDir c, cmds ! 1])))
         else if cmds ! 0 = ''help'' then ConRead
         else if cmds ! 0 = ''exit'' \<or> cmds ! 0 = ''quit'' then ConEnd
         else ConRead)"

lemma handleConsole_words:
  "handleConsole c (''sync a/b'' @ [CHR 0x0A]) = ConSend (MSync (path_Join [sc_LocalDir c, ''a/b'']))"
  "handleConsole c (''quit'' @ [CHR 0x0D, CHR 0x0A]) = ConEnd" "handleConsole c [CHR 0x0A] = ConRead"
  by (simp_all add: handleConsole_def Let_def) code_simp+

text \<open>
  An event of the watcher, with what \<^verbatim>\<open>os.Stat\<close> finds for a created file: what it sends, in order, and
  whether it watches the path from then on. A created file that is gone already ends the handling.
\<close>

definition FileWatcher_event :: "fs_event \<Rightarrow> bool option \<Rightarrow> sync_msg list \<times> bool" where
  "FileWatcher_event e st =
     (let rest = (if OpWrite \<in> set (ev_ops e) then [MSync (ev_name e)] else []) @
          (if OpRemove \<in> set (ev_ops e) then [MRemove (ev_name e)] else [])
      in if OpCreate \<in> set (ev_ops e)
         then (case st of None \<Rightarrow> ([], False) | Some dir \<Rightarrow> (MSync (ev_name e) # rest, dir))
         else (rest, False))"

text \<open>The directories watched at the start; \<open>absf\<close> is \<^verbatim>\<open>filepath.Abs\<close>, whose failure ends the process.\<close>

definition FileWatcher_visit :: "sync_config \<Rightarrow> (string \<Rightarrow> string option) \<Rightarrow> (string list) walk_fn" where
  "FileWatcher_visit c absf path dir ds =
     (if \<not> dir then (WOk, ds)
      else case absf path of
             None \<Rightarrow> (WPanic, ds)
           | Some p \<Rightarrow> if sync_IsIgnoreDir c p then (WOk, ds) else (WOk, ds @ [p]))"

definition FileWatcher_Init :: "sync_config \<Rightarrow> (string \<Rightarrow> string option) \<Rightarrow> ltree option \<Rightarrow> (walk_result \<times> string list) option" where
  "FileWatcher_Init c absf t = map_option (\<lambda>t. Walk (FileWatcher_visit c absf) (sc_LocalDir c) t []) t"

section \<open>The goroutines\<close>

datatype syncer = SyIdle | SyBusy | SyEnd
datatype watcher = WaIdle | WaSend sync_msg "sync_msg list" | WaEnd

record sync_sys =
  ss_console :: console
  ss_syncer :: syncer
  ss_watcher :: watcher
  ss_handled :: "sync_msg list"

definition sync_start :: sync_sys where
  "sync_start = \<lparr>ss_console = ConRead, ss_syncer = SyIdle, ss_watcher = WaIdle, ss_handled = []\<rparr>"

definition sending :: "sync_msg list \<Rightarrow> watcher" where
  "sending ms = (case ms of [] \<Rightarrow> WaIdle | m # ms \<Rightarrow> WaSend m ms)"

inductive sync_step :: "sync_config \<Rightarrow> sync_sys \<Rightarrow> sync_sys \<Rightarrow> bool" for c where
  con_line: "ss_console s = ConRead \<Longrightarrow> sync_step c s (s\<lparr>ss_console := handleConsole c input\<rparr>)"
| con_eof: "ss_console s = ConRead \<Longrightarrow> sync_step c s (s\<lparr>ss_console := ConEnd\<rparr>)"
| con_send: "ss_console s = ConSend m \<Longrightarrow> ss_syncer s = SyIdle \<Longrightarrow>
    sync_step c s (s\<lparr>ss_console := ConRead, ss_syncer := SyBusy, ss_handled := ss_handled s @ [m]\<rparr>)"
| wat_event: "ss_watcher s = WaIdle \<Longrightarrow> sync_step c s (s\<lparr>ss_watcher := sending (fst (FileWatcher_event e st))\<rparr>)"
| wat_send: "ss_watcher s = WaSend m ms \<Longrightarrow> ss_syncer s = SyIdle \<Longrightarrow>
    sync_step c s (s\<lparr>ss_watcher := sending ms, ss_syncer := SyBusy, ss_handled := ss_handled s @ [m]\<rparr>)"
| wat_end: "ss_watcher s = WaIdle \<Longrightarrow> ss_console s = ConEnd \<Longrightarrow> sync_step c s (s\<lparr>ss_watcher := WaEnd\<rparr>)"
| syn_done: "ss_syncer s = SyBusy \<Longrightarrow> sync_step c s (s\<lparr>ss_syncer := SyIdle\<rparr>)"
| syn_end: "ss_syncer s = SyIdle \<Longrightarrow> ss_console s = ConEnd \<Longrightarrow> sync_step c s (s\<lparr>ss_syncer := SyEnd\<rparr>)"

inductive_cases sync_stepE: "sync_step c s s'"

text \<open>All three have ended: \<^verbatim>\<open>g_WaitGroup.Wait\<close> returns.\<close>

definition all_ended :: "sync_sys \<Rightarrow> bool" where
  "all_ended s \<longleftrightarrow> ss_console s = ConEnd \<and> ss_syncer s = SyEnd \<and> ss_watcher s = WaEnd"

text \<open>The syncer ends only after the console, and no one that has ended goes on.\<close>

definition sync_sys_inv :: "sync_sys \<Rightarrow> bool" where
  "sync_sys_inv s \<longleftrightarrow> (ss_syncer s = SyEnd \<or> ss_watcher s = WaEnd \<longrightarrow> ss_console s = ConEnd)"

lemma sync_step_inv: "sync_step c s s' \<Longrightarrow> sync_sys_inv s \<Longrightarrow> sync_sys_inv s'"
  by (erule sync_stepE) (auto simp: sync_sys_inv_def sending_def split: list.splits)

interpretation sync_goroutines: inv_relation "sync_step c" sync_sys_inv for c
  by unfold_locales (rule sync_step_inv)

lemma sync_run_inv: "(sync_step c)\<^sup>*\<^sup>* sync_start s \<Longrightarrow> sync_sys_inv s"
  by (erule sync_goroutines.path_inv) (simp add: sync_sys_inv_def sync_start_def)

lemma syncer_gets_idle:
  assumes "ss_syncer s \<noteq> SyEnd"
  obtains s1 where "(sync_step c)\<^sup>*\<^sup>* s s1" "s1 = s\<lparr>ss_syncer := SyIdle\<rparr>"
proof (cases "ss_syncer s")
  case SyIdle
  then have "s = s\<lparr>ss_syncer := SyIdle\<rparr>" by simp
  with that show ?thesis by (metis rtranclp.rtrancl_refl)
qed (use that assms syn_done [of s c] in blast)+

text \<open>
  As long as the console has not ended, what the watcher or the console is about to send can be handled
  next: the channels do not deadlock.
\<close>
theorem sync_request_handled:
  assumes "(sync_step c)\<^sup>*\<^sup>* sync_start s" and "ss_console s \<noteq> ConEnd"
    and "ss_console s = ConSend m \<or> (\<exists>ms. ss_watcher s = WaSend m ms)"
  shows "\<exists>s'. (sync_step c)\<^sup>*\<^sup>* s s' \<and> ss_handled s' = ss_handled s @ [m]"
proof -
  have "ss_syncer s \<noteq> SyEnd"
    using sync_run_inv [OF assms(1)] assms(2) by (auto simp: sync_sys_inv_def)
  then obtain s1 where s1: "(sync_step c)\<^sup>*\<^sup>* s s1" "s1 = s\<lparr>ss_syncer := SyIdle\<rparr>"
    by (rule syncer_gets_idle)
  have "\<exists>s'. sync_step c s1 s' \<and> ss_handled s' = ss_handled s @ [m]"
    using assms(3)
  proof
    assume "ss_console s = ConSend m"
    then show ?thesis using con_send [of s1 m c] s1(2) by fastforce
  next
    assume "\<exists>ms. ss_watcher s = WaSend m ms"
    then show ?thesis using wat_send [of s1 m _ c] s1(2) by fastforce
  qed
  then show ?thesis using s1(1) by (meson rtranclp.rtrancl_into_rtrancl)
qed

interpretation sync_quit: inv_relation "sync_step c" "\<lambda>s. ss_syncer s = SyEnd \<and> ss_watcher s = WaSend m ms" for c m ms
  by unfold_locales (auto elim!: sync_stepE)

text \<open>
  Once the syncer has ended while the watcher is about to send, the watcher stays where it is in every run,
  so the program never ends.
\<close>
theorem sync_quit_deadlocks:
  assumes "(sync_step c)\<^sup>*\<^sup>* s s'" and "ss_syncer s = SyEnd" and "ss_watcher s = WaSend m ms"
  shows "ss_watcher s' = WaSend m ms \<and> \<not> all_ended s'"
  using sync_quit.path_inv [OF assms(1)] assms(2,3) by (simp add: all_ended_def)

text \<open>Such a state is reached by a written file and \<^verbatim>\<open>quit\<close>.\<close>

lemma sync_quit_reached:
  "(sync_step c)\<^sup>*\<^sup>* sync_start \<lparr>ss_console = ConEnd, ss_syncer = SyEnd, ss_watcher = WaSend (MSync ''/w/a'') [], ss_handled = []\<rparr>"
proof -
  let ?e = "\<lparr>ev_name = ''/w/a'', ev_ops = [OpWrite]\<rparr>"
  let ?s = "\<lambda>con syn. \<lparr>ss_console = con, ss_syncer = syn, ss_watcher = WaSend (MSync ''/w/a'') [], ss_handled = []\<rparr>"
  have "sync_step c sync_start (?s ConRead SyIdle)"
    using wat_event [of sync_start c ?e None] by (simp add: sync_start_def FileWatcher_event_def sending_def)
  moreover have "sync_step c (?s ConRead SyIdle) (?s ConEnd SyIdle)"
    using con_eof [of "?s ConRead SyIdle" c] by simp
  moreover have "sync_step c (?s ConEnd SyIdle) (?s ConEnd SyEnd)"
    using syn_end [of "?s ConEnd SyIdle" c] by simp
  ultimately show ?thesis
    by (meson rtranclp.rtrancl_into_rtrancl rtranclp.rtrancl_refl)
qed

end
