(* ===== verification/Commands.thy ===== *)
theory Commands
  imports Go_Path
begin

text \<open>
  \<^verbatim>\<open>main.go\<close>: the table of commands, the choice by the first argument, the supervisor \<^verbatim>\<open>daemon\<close> and the
  configuration of the file synchroniser. A process is its arguments, the first of which is its own name.
\<close>

definition cmdlist :: "string list" where
  "cmdlist = [''scp'', ''watch'', ''cron'', ''w'', ''upfile'', ''w1'', ''hx'', ''ju-init'', ''s5'', ''pm'', ''ws'', ''mtime'', ''azj'', ''tunnel'', ''wsmid'']"

datatype main_run =
    ListCommands
  | Supervise string "string list"
  | RunCommand string "string list"
  | NothingToDo

text \<open>\<^verbatim>\<open>filepath.Abs\<close> in a working directory.\<close>

definition path_Abs :: "string \<Rightarrow> string \<Rightarrow> string" where
  "path_Abs cwd p = (if p \<noteq> [] \<and> p ! 0 = CHR ''/'' then path_Clean p else path_Join [cwd, p])"

text \<open>What the supervisor starts again and again.\<close>

definition daemon_path :: "string \<Rightarrow> string \<Rightarrow> string" where
  "daemon_path cwd arg0 = path_Abs cwd (path_Dir arg0) @ ''/'' @ arg0"

definition go_main :: "string \<Rightarrow> string list \<Rightarrow> main_run" where
  "go_main cwd args =
     (if length args < 2 \<or> args ! 1 = ''-h'' then ListCommands
      else if args ! 1 = ''daemon'' then Supervise (daemon_path cwd (args ! 0)) (drop 2 args)
      else case find (\<lambda>c. c = args ! 1) cmdlist of
             None \<Rightarrow> NothingToDo
           | Some c \<Rightarrow> RunCommand c (drop 2 args))"

text \<open>Every command of the table can be reached, with the arguments that follow it, and nothing else is run.\<close>

lemma find_eq_name: "find (\<lambda>c. c = x) xs = (if x \<in> set xs then Some x else None)"
  by (induction xs) auto

theorem main_runs_table:
  "go_main cwd (arg0 # name # args) = RunCommand c rest \<longleftrightarrow> name \<in> set cmdlist \<and> c = name \<and> rest = args"
proof -
  have "''-h'' \<notin> set cmdlist" "''daemon'' \<notin> set cmdlist"
    by (simp_all add: cmdlist_def)
  then show ?thesis
    by (auto simp: go_main_def find_eq_name)
qed

text \<open>
  The supervisor puts the directory of its own name before its name once more. That is right where the name
  has no directory, and wrong where it has one.
\<close>

lemma daemon_path_examples:
  "daemon_path ''/d'' ''./fkme'' = ''/d/./fkme''"
  "daemon_path ''/d'' ''bin/fkme'' = ''/d/bin/bin/fkme''"
  "daemon_path ''/d'' ''/opt/fkme'' = ''/opt//opt/fkme''"
  by code_simp+

section \<open>The configuration of the synchroniser\<close>

text \<open>\<open>parsed\<close> is the local directory of the file if it can be read and parsed.\<close>

definition load_sync_config :: "bool \<Rightarrow> string option \<Rightarrow> bool" where
  "load_sync_config exist parsed =
     (exist \<and> (case parsed of None \<Rightarrow> False | Some localDir \<Rightarrow> localDir \<noteq> [] \<and> localDir ! 0 = CHR ''/''))"

end
