(* ===== verification/Web_Files.thy ===== *)
theory Web_Files
  imports Tar_Extract Go_Path
begin

text \<open>
  Files that come over HTTP: the downloads of \<^verbatim>\<open>util/util.go\<close> and \<^verbatim>\<open>w/jupyter.go\<close>, the upload handlers of
  \<^verbatim>\<open>w/w.go\<close> and \<^verbatim>\<open>w/main.go\<close>, and the set-up of a notebook server, which is made of them. The files are a
  map from paths to contents; what the network gives is an argument.
\<close>

section \<open>Writing files\<close>

text \<open>A file opened with \<^verbatim>\<open>O_CREATE|O_WRONLY\<close> is written from its beginning and keeps what follows.\<close>

definition write_over :: "string \<Rightarrow> bytes \<Rightarrow> (string \<rightharpoonup> bytes) \<Rightarrow> (string \<rightharpoonup> bytes)" where
  "write_over p b files = files(p \<mapsto> b @ drop (length b) (case files p of None \<Rightarrow> [] | Some old \<Rightarrow> old))"

text \<open>\<^verbatim>\<open>WriteFile\<close> empties the file first.\<close>

definition WriteFile :: "bool \<Rightarrow> string \<Rightarrow> bytes \<Rightarrow> (string \<rightharpoonup> bytes) \<Rightarrow> (string \<rightharpoonup> bytes)" where
  "WriteFile can_open p content files = (if can_open then files(p \<mapsto> content) else files)"

section \<open>Downloads\<close>

text \<open>An answer: its status, the bytes of its body, and whether the body came whole.\<close>

record http_answer =
  ha_status :: int
  ha_body :: bytes
  ha_whole :: bool

definition DownFile :: "http_answer option \<Rightarrow> bool \<Rightarrow> string \<Rightarrow> (string \<rightharpoonup> bytes) \<Rightarrow> bool \<times> (string \<rightharpoonup> bytes)" where
  "DownFile answer can_open target files =
     (case answer of
        None \<Rightarrow> (False, files)
      | Some a \<Rightarrow>
          if ha_status a \<noteq> 200 then (False, files)
          else if \<not> can_open then (False, files)
          else (ha_whole a, write_over target (ha_body a) files))"

text \<open>The copy in \<^verbatim>\<open>w/jupyter.go\<close> does not look at the status.\<close>

definition down_file :: "http_answer option \<Rightarrow> bool \<Rightarrow> string \<Rightarrow> (string \<rightharpoonup> bytes) \<Rightarrow> bool \<times> (string \<rightharpoonup> bytes)" where
  "down_file answer can_open target files =
     (case answer of
        None \<Rightarrow> (False, files)
      | Some a \<Rightarrow> if \<not> can_open then (False, files) else (ha_whole a, write_over target (ha_body a) files))"

text \<open>An archive: the status, whether it is a gzip stream, its entries.\<close>

definition DownTgz :: "'s tar_ops \<Rightarrow> (int \<times> bool \<times> tar_next list) option \<Rightarrow> string \<Rightarrow> 's \<Rightarrow> tar_result \<times> 's" where
  "DownTgz ops answer target s =
     (case answer of
        None \<Rightarrow> (TarFail, s)
      | Some (status, gz, es) \<Rightarrow> if status \<noteq> 200 then (TarFail, s) else ExtractTarGz ops gz es target s)"

text \<open>\<open>None\<close>: without an answer the process ends.\<close>

definition down_pkg :: "'s tar_ops \<Rightarrow> (int \<times> bool \<times> tar_next list) option \<Rightarrow> string \<Rightarrow> 's \<Rightarrow> (tar_result \<times> 's) option" where
  "down_pkg ops answer target s = map_option (\<lambda>(status, gz, es). ExtractTarGz ops gz es target s) answer"

text \<open>
  A download that reports success has the bytes of the answer in the file, followed by what a longer file
  had there before; no other file has changed.
\<close>
theorem DownFile_content:
  assumes "DownFile answer can_open target files = (True, files')"
  shows "\<exists>a. answer = Some a \<and> ha_status a = 200 \<and> ha_whole a \<and>
    files' target = Some (ha_body a @ drop (length (ha_body a)) (case files target of None \<Rightarrow> [] | Some old \<Rightarrow> old)) \<and>
    (\<forall>p. p \<noteq> target \<longrightarrow> files' p = files p)"
  using assms by (auto simp: DownFile_def write_over_def split: option.splits if_splits)

lemma DownFile_keeps_tail:
  "DownFile (Some \<lparr>ha_status = 200, ha_body = [1], ha_whole = True\<rparr>) True ''f'' [''f'' \<mapsto> [7, 8, 9]] = (True, files') \<Longrightarrow>
    files' ''f'' = Some [1, 8, 9]"
  by (auto simp: DownFile_def write_over_def)

lemma DownFile_refused:
  "ha_status a \<noteq> 200 \<Longrightarrow> DownFile (Some a) can_open target files = (False, files)"
  "down_file (Some a) True target files = (ha_whole a, write_over target (ha_body a) files)"
  by (simp_all add: DownFile_def down_file_def)

section \<open>Uploads\<close>

text \<open>
  The handler of \<^verbatim>\<open>fkme w\<close>: the form for \<^verbatim>\<open>GET\<close>; otherwise the file of the form, its name and bytes, if there
  is one, goes to the directory \<^verbatim>\<open>tpath\<close>.
\<close>

datatype upload_reply = ShowForm | NoFile | NotWritten | Written

definition upload ::
  "string \<Rightarrow> (string \<times> bytes) option \<Rightarrow> string \<Rightarrow> (string \<Rightarrow> bool) \<Rightarrow> (string \<rightharpoonup> bytes) \<Rightarrow> upload_reply \<times> (string \<rightharpoonup> bytes)" where
  "upload meth form tpath can_open files =
     (if meth = ''GET'' then (ShowForm, files)
      else case form of
             None \<Rightarrow> (NoFile, files)
           | Some (name, b) \<Rightarrow>
               (let path = (if tpath = [] then ''./test'' else tpath) @ ''/'' @ name
                in if \<not> can_open path then (NotWritten, files) else (Written, write_over path b files)))"

text \<open>\<^verbatim>\<open>filepath.Ext\<close>: from the last dot of the last element.\<close>

definition path_Ext :: "string \<Rightarrow> string" where
  "path_Ext p =
     (let name = rev (takeWhile (\<lambda>c. c \<noteq> CHR ''/'') (rev p))
      in if CHR ''.'' \<in> set name then CHR ''.'' # rev (takeWhile (\<lambda>c. c \<noteq> CHR ''.'') (rev name)) else [])"

text \<open>The other handler answers with a status, and names the file by the time in nanoseconds.\<close>

definition uploadHandler ::
  "string \<Rightarrow> bool \<Rightarrow> (string \<times> bytes \<times> bool) option \<Rightarrow> bool \<Rightarrow> bool \<Rightarrow> int \<Rightarrow> (string \<rightharpoonup> bytes) \<Rightarrow> int \<times> (string \<rightharpoonup> bytes)" where
  "uploadHandler meth small form can_mkdir can_create nano files =
     (if meth \<noteq> ''POST'' then (405, files)
      else if \<not> small then (400, files)
      else case form of
             None \<Rightarrow> (400, files)
           | Some (name, b, whole) \<Rightarrow>
               if \<not> can_mkdir \<or> \<not> can_create then (500, files)
               else (if whole then 200 else 500, files(''./uploads/'' @ Itoa nano @ path_Ext name \<mapsto> b)))"

text \<open>What was uploaded before is kept by the second handler and written over by the first.\<close>

lemma uploadHandler_keeps:
  "files (''./uploads/'' @ Itoa nano @ path_Ext name) = None \<Longrightarrow>
    uploadHandler meth small (Some (name, b, whole)) m cr nano files = (st, files') \<Longrightarrow> files p = Some old \<Longrightarrow> files' p = Some old"
  by (auto simp: uploadHandler_def split: if_splits)

lemma upload_writes_over:
  "snd (upload ''POST'' (Some (''f'', [1])) ''d'' (\<lambda>p. True) [''d/f'' \<mapsto> [7, 8]]) ''d/f'' = Some [1, 8]"
  by code_simp

section \<open>The notebook server\<close>

text \<open>Where the packages come from; too short a sum and too short an address are panics.\<close>

definition jupyter_url :: "string \<Rightarrow> string \<Rightarrow> string option" where
  "jupyter_url pkgaddr sha1sum = (if length sha1sum < 8 then None else Some (pkgaddr @ ''.'' @ take 8 sha1sum))"

definition jupyter_fsweb :: "string \<Rightarrow> string option" where
  "jupyter_fsweb pkgaddr =
     (let parts = go_Split pkgaddr Slash in if length parts < 3 then None else Some (go_Join (take 3 parts) Slash))"

lemma jupyter_fsweb_http:
  assumes "CHR ''/'' \<notin> set host"
  shows "jupyter_fsweb (''http://'' @ host @ ''/'' @ rest) = Some (''http://'' @ host)"
proof -
  have "go_Split (''http://'' @ host @ ''/'' @ rest) Slash = ''http:'' # [] # host # go_Split rest Slash"
    using go_Split_Cons [of "CHR ''/''" "''http:''" "CHR ''/'' # host @ CHR ''/'' # rest"]
      go_Split_Cons [of "CHR ''/''" "[]" "host @ CHR ''/'' # rest"] go_Split_Cons [OF assms, of rest]
    by (simp add: Slash_def)
  then show ?thesis
    by (simp add: jupyter_fsweb_def Let_def Slash_def)
qed

datatype jupyter_action =
    DownloadPackage string string
  | PrependPath string
  | Execute "string list"
  | DownloadTo string string
  | RunCron "string list"
  | RunOldForever

text \<open>
  \<^verbatim>\<open>StartJupyter\<close> after its arguments: \<open>newapp\<close> and \<open>conf\<close> tell whether the program and its configuration are
  there after the download (which ends the process if there is no answer), \<open>got\<close> whether the configuration
  could be fetched; how the executed command ends does not matter.
\<close>

definition StartJupyter :: "string \<Rightarrow> string \<Rightarrow> bool \<Rightarrow> bool \<Rightarrow> bool \<Rightarrow> jupyter_action list option" where
  "StartJupyter pkgaddr sha1sum newapp conf got =
     (case jupyter_url pkgaddr sha1sum of
        None \<Rightarrow> None
      | Some url \<Rightarrow>
          (case jupyter_fsweb pkgaddr of
             None \<Rightarrow> None
           | Some fsweb \<Rightarrow>
               Some (DownloadPackage url ''/data/.app'' # PrependPath ''/data/.local/bin:'' #
                 (if \<not> newapp then [RunOldForever]
                  else Execute [''/data/.app/fkme'', ''ju-init'', fsweb] #
                    (if conf then [RunCron [''-c'', ''/data/.app/jupyter.json'']]
                     else DownloadTo (fsweb @ ''/libs/f/jupyter.json'') ''/data/.app/jupyter.json'' #
                       (if got then [RunCron [''-c'', ''/data/.app/jupyter.json'']] else []))))))"

text \<open>
  The host of a package index: \<^verbatim>\<open>^http://([^/]+):\d+/?\<close>, whose group takes as much as it can, so it ends at
  the last colon before the first slash that digits follow.
\<close>

fun last_port_colon :: "string \<Rightarrow> nat \<Rightarrow> nat option" where
  "last_port_colon s 0 = None"
| "last_port_colon s (Suc n) =
     (if Suc n < length s \<and> s ! n = CHR '':'' \<and> is_digit (s ! Suc n) \<and> 0 < n then Some n else last_port_colon s n)"

definition pypi_host :: "string \<Rightarrow> string" where
  "pypi_host pypi =
     (if \<not> HasPrefix pypi ''http://'' then []
      else let s = drop 7 pypi; host = takeWhile (\<lambda>c. c \<noteq> CHR ''/'') s
        in case last_port_colon s (length host) of None \<Rightarrow> [] | Some n \<Rightarrow> take n s)"

lemma pypi_host_examples:
  "pypi_host ''http://172.18.243.19:1777'' = ''172.18.243.19''" "pypi_host ''http://h:1:2/x'' = ''h:1''"
  "pypi_host ''https://h:1'' = []" "pypi_host ''http://h/:1'' = []" "pypi_host ''http://:1'' = []"
  by code_simp+

definition pip_conf :: "string \<Rightarrow> string" where
  "pip_conf pypi = ''[global]'' @ [CHR 0x0A] @ ''index-url='' @ pypi @ [CHR 0x0A] @ ''trusted-host='' @ pypi_host pypi @ [CHR 0x0A]"

end
