(* ===== verification/Addr_Code.thy ===== *)
theory Addr_Code
  imports Prelude
begin

text \<open>
  \<^verbatim>\<open>decodeAddr\<close> of \<^verbatim>\<open>sftpcli.go\<close>: an address with a password is written down as \<^verbatim>\<open>base64(aes("host:port:user:pass"))\<close>
  under a fixed key. A text with a colon is encoded, one without is decoded. AES on one block is an argument;
  its chaining, the padding and base64 are here.
\<close>

section \<open>Base64\<close>

definition b64_alphabet :: string where
  "b64_alphabet = ''ABCDEFGHIJKLMNOPQRSTUVWXYZabcdefghijklmnopqrstuvwxyz0123456789+/''"

definition b64_char :: "nat \<Rightarrow> char" where
  "b64_char n = b64_alphabet ! n"

definition b64_val :: "char \<Rightarrow> nat option" where
  "b64_val c = map_of (zip b64_alphabet [0..<64]) c"

fun b64_enc :: "nat list \<Rightarrow> string" where
  "b64_enc [] = []"
| "b64_enc [a] = [b64_char (a div 4), b64_char (a mod 4 * 16), CHR ''='', CHR ''='']"
| "b64_enc [a, b] = [b64_char (a div 4), b64_char (a mod 4 * 16 + b div 16), b64_char (b mod 16 * 4), CHR ''='']"
| "b64_enc (a # b # c # r) =
     b64_char (a div 4) # b64_char (a mod 4 * 16 + b div 16) # b64_char (b mod 16 * 4 + c div 64) # b64_char (c mod 64) # b64_enc r"

fun b64_quads :: "string \<Rightarrow> nat list option" where
  "b64_quads [] = Some []"
| "b64_quads (w # x # y # z # r) =
     (case (b64_val w, b64_val x) of
        (Some w, Some x) \<Rightarrow>
          if y = CHR ''='' \<and> z = CHR ''='' then (if r = [] then Some [w * 4 + x div 16] else None)
          else (case b64_val y of
                  None \<Rightarrow> None
                | Some y \<Rightarrow>
                    if z = CHR ''='' then (if r = [] then Some [w * 4 + x div 16, x mod 16 * 16 + y div 4] else None)
                    else (case b64_val z of
                            None \<Rightarrow> None
                          | Some z \<Rightarrow> map_option (\<lambda>bs. (w * 4 + x div 16) # (x mod 16 * 16 + y div 4) # (y mod 4 * 64 + z) # bs) (b64_quads r)))
      | _ \<Rightarrow> None)"
| "b64_quads _ = None"

text \<open>\<^verbatim>\<open>StdEncoding\<close>: ends of lines are passed over.\<close>

definition EncodeToString :: "bytes \<Rightarrow> string" where
  "EncodeToString bb = b64_enc (map unat bb)"

definition DecodeString :: "string \<Rightarrow> bytes option" where
  "DecodeString s = map_option (map of_nat) (b64_quads (filter (\<lambda>c. c \<noteq> CHR 0x0A \<and> c \<noteq> CHR 0x0D) s))"

section \<open>Padding and chaining\<close>

definition pad :: "bytes \<Rightarrow> bytes" where
  "pad bb = bb @ replicate (16 - length bb mod 16) (of_nat (16 - length bb mod 16))"

text \<open>\<open>None\<close> is an index out of range.\<close>

definition unpad :: "bytes \<Rightarrow> bytes option" where
  "unpad bb = (if bb = [] \<or> unat (last bb) > length bb then None else Some (take (length bb - unat (last bb)) bb))"

definition xor_block :: "bytes \<Rightarrow> bytes \<Rightarrow> bytes" where
  "xor_block = map2 (XOR)"

function cbc_encrypt :: "(bytes \<Rightarrow> bytes) \<Rightarrow> bytes \<Rightarrow> bytes \<Rightarrow> bytes" where
  "cbc_encrypt E iv bs =
     (if bs = [] then [] else (let c = E (xor_block (take 16 bs) iv) in c @ cbc_encrypt E c (drop 16 bs)))"
  by auto
termination by (relation "measure (\<lambda>(E, iv, bs). length bs)") auto

function cbc_decrypt :: "(bytes \<Rightarrow> bytes) \<Rightarrow> bytes \<Rightarrow> bytes \<Rightarrow> bytes" where
  "cbc_decrypt D iv bs =
     (if bs = [] then [] else xor_block (D (take 16 bs)) iv @ cbc_decrypt D (take 16 bs) (drop 16 bs))"
  by auto
termination by (relation "measure (\<lambda>(D, iv, bs). length bs)") auto

declare cbc_encrypt.simps [simp del] cbc_decrypt.simps [simp del]

section \<open>Addresses\<close>

definition addr_key :: bytes where
  "addr_key = str_bytes ''thisis32bitlongpassphraseimusing''"

definition addr_iv :: bytes where
  "addr_iv = str_bytes ''1234567890abcdef''"

definition AES_ENC :: "(bytes \<Rightarrow> bytes \<Rightarrow> bytes) \<Rightarrow> string \<Rightarrow> bytes \<Rightarrow> bytes \<Rightarrow> string" where
  "AES_ENC enc plain key iv = EncodeToString (cbc_encrypt (enc key) iv (pad (str_bytes plain)))"

datatype addr_result = AddrOk string | AddrFatal | AddrPanic

text \<open>A ciphertext that is not made of whole blocks, or is empty, is a panic.\<close>

definition AES_DEC :: "(bytes \<Rightarrow> bytes \<Rightarrow> bytes) \<Rightarrow> string \<Rightarrow> bytes \<Rightarrow> bytes \<Rightarrow> addr_result" where
  "AES_DEC dec text key iv =
     (case DecodeString text of
        None \<Rightarrow> AddrFatal
      | Some bb \<Rightarrow>
          if length bb mod 16 \<noteq> 0 then AddrPanic
          else (case unpad (cbc_decrypt (dec key) iv bb) of None \<Rightarrow> AddrPanic | Some p \<Rightarrow> AddrOk (bytes_str p)))"

definition decodeAddr :: "(bytes \<Rightarrow> bytes \<Rightarrow> bytes) \<Rightarrow> (bytes \<Rightarrow> bytes \<Rightarrow> bytes) \<Rightarrow> string \<Rightarrow> addr_result" where
  "decodeAddr enc dec addr =
     (if CHR '':'' \<in> set addr then AddrOk (AES_ENC enc addr addr_key addr_iv) else AES_DEC dec addr addr_key addr_iv)"

section \<open>Base64 is read back\<close>

lemma b64_alphabet_props:
  "length b64_alphabet = 64" "distinct b64_alphabet" "CHR ''='' \<notin> set b64_alphabet" "CHR '':'' \<notin> set b64_alphabet"
  "CHR 0x0A \<notin> set b64_alphabet" "CHR 0x0D \<notin> set b64_alphabet"
  by (simp_all add: b64_alphabet_def)

lemma b64_val_char [simp]: "n < 64 \<Longrightarrow> b64_val (b64_char n) = Some n"
  using b64_alphabet_props by (simp add: b64_val_def b64_char_def map_of_zip_nth)

lemma b64_char_in [simp]: "n < 64 \<Longrightarrow> b64_char n \<in> set b64_alphabet"
  using b64_alphabet_props by (simp add: b64_char_def)

lemma b64_char_not_pad [simp]: "n < 64 \<Longrightarrow> b64_char n \<noteq> CHR ''=''"
  using b64_char_in [of n] b64_alphabet_props(3) by metis

lemma byte_parts:
  fixes a :: nat
  assumes "a < 256"
  shows "a div 4 < 64" "a mod 4 * 16 < 64" "a mod 16 * 4 < 64" "a mod 64 < 64"
    "b < 256 \<Longrightarrow> a mod 4 * 16 + b div 16 < 64" "b < 256 \<Longrightarrow> a mod 16 * 4 + b div 64 < 64"
  using assms by auto

lemma byte_halves:
  fixes b :: nat
  assumes "b < 256"
  shows "b div 16 div 16 = 0" "b div 16 mod 16 = b div 16" "b div 64 div 4 = 0" "b div 64 mod 4 = b div 64"
  using assms by (simp_all flip: div_mult2_eq)

lemma b64_quads_enc: "list_all (\<lambda>a. a < 256) as \<Longrightarrow> b64_quads (b64_enc as) = Some as"
  by (induction as rule: b64_enc.induct) (simp_all add: byte_parts byte_halves)

lemma b64_enc_chars: "list_all (\<lambda>a. a < 256) as \<Longrightarrow> set (b64_enc as) \<subseteq> insert (CHR ''='') (set b64_alphabet)"
  by (induction as rule: b64_enc.induct) (simp_all add: byte_parts)

lemma unat_bytes: "list_all (\<lambda>a. a < 256) (map unat (bb :: bytes))"
proof -
  have "unat (b :: byte) < 256" for b
    using unsigned_less [of b, where 'a = nat] by simp
  then show ?thesis by (auto simp: list_all_iff)
qed

lemma Decode_Encode: "DecodeString (EncodeToString bb) = Some bb"
proof -
  have "\<forall>c \<in> set (b64_enc (map unat bb)). c \<noteq> CHR 0x0A \<and> c \<noteq> CHR 0x0D"
    using b64_enc_chars [OF unat_bytes, of bb] b64_alphabet_props(5,6) by auto
  then have "filter (\<lambda>c. c \<noteq> CHR 0x0A \<and> c \<noteq> CHR 0x0D) (b64_enc (map unat bb)) = b64_enc (map unat bb)"
    by (simp add: filter_id_conv)
  then show ?thesis
    by (simp add: DecodeString_def EncodeToString_def b64_quads_enc [OF unat_bytes] o_def)
qed

lemma Encode_no_colon: "CHR '':'' \<notin> set (EncodeToString bb)"
  using b64_enc_chars [OF unat_bytes, of bb] b64_alphabet_props(4) by (auto simp: EncodeToString_def)

section \<open>The round trip of an address\<close>

lemma xor_block_length [simp]: "length (xor_block a b) = min (length a) (length b)"
  by (simp add: xor_block_def)

lemma xor_block_twice: "length a = length b \<Longrightarrow> xor_block (xor_block a b) b = a"
  by (induction a b rule: list_induct2) (simp_all add: xor_block_def xor.assoc)

text \<open>What is asked of the cipher for one block.\<close>

definition block_cipher :: "(bytes \<Rightarrow> bytes) \<Rightarrow> (bytes \<Rightarrow> bytes) \<Rightarrow> bool" where
  "block_cipher E D \<longleftrightarrow> (\<forall>b. length b = 16 \<longrightarrow> length (E b) = 16 \<and> D (E b) = b)"

lemma cbc_decrypt_encrypt:
  assumes "block_cipher E D"
  shows "length iv = 16 \<Longrightarrow> length bs mod 16 = 0 \<Longrightarrow>
    cbc_decrypt D iv (cbc_encrypt E iv bs) = bs \<and> length (cbc_encrypt E iv bs) = length bs"
proof (induction "length bs" arbitrary: bs iv rule: less_induct)
  case less
  show ?case
  proof (cases "bs = []")
    case False
    then have len: "16 \<le> length bs" using less.prems(2) by (metis length_0_conv linorder_not_less mod_less)
    define c where "c = E (xor_block (take 16 bs) iv)"
    have "length (xor_block (take 16 bs) iv) = 16"
      using len less.prems(1) by simp
    then have c: "length c = 16" "D c = xor_block (take 16 bs) iv"
      using assms by (simp_all add: block_cipher_def c_def)
    then have "c \<noteq> []" by auto
    note c = c this
    have "length (drop 16 bs) mod 16 = 0" using less.prems(2) len by (simp add: le_mod_geq)
    from less.hyps [OF _ c(1) this] False have IH:
        "cbc_decrypt D c (cbc_encrypt E c (drop 16 bs)) = drop 16 bs" "length (cbc_encrypt E c (drop 16 bs)) = length bs - 16"
      by auto
    have "cbc_encrypt E iv bs = c @ cbc_encrypt E c (drop 16 bs)"
      using False by (subst cbc_encrypt.simps) (simp add: c_def Let_def)
    moreover have "cbc_decrypt D iv (c @ cbc_encrypt E c (drop 16 bs)) = xor_block (D c) iv @ cbc_decrypt D c (cbc_encrypt E c (drop 16 bs))"
      using c by (subst cbc_decrypt.simps) simp
    ultimately show ?thesis
      using IH c len less.prems(1) by (simp add: xor_block_twice)
  qed (simp add: cbc_encrypt.simps [of E iv "[]"] cbc_decrypt.simps [of D iv "[]"])
qed

lemma pad_length: "length (pad bb) mod 16 = 0"
proof -
  have "length (pad bb) = length bb + (16 - length bb mod 16)" by (simp add: pad_def)
  then show ?thesis by presburger
qed

lemma unpad_pad: "unpad (pad bb) = Some bb"
proof -
  define n where "n = 16 - length bb mod 16"
  have n: "0 < n" "n \<le> 16" by (simp_all add: n_def)
  then have "unat (of_nat n :: byte) = n" by (simp add: unat_of_nat)
  moreover have "pad bb = bb @ replicate n (of_nat n)" by (simp add: pad_def n_def)
  ultimately show ?thesis using n(1) by (simp add: unpad_def)
qed

text \<open>A plain address comes out as a text without a colon.\<close>

lemma decodeAddr_plain: "CHR '':'' \<in> set addr \<Longrightarrow> \<exists>text. decodeAddr enc dec addr = AddrOk text \<and> CHR '':'' \<notin> set text"
  by (simp add: decodeAddr_def AES_ENC_def Encode_no_colon)

text \<open>
  An address that is encoded is decoded again. Whatever the cipher, if decrypting a block undoes
  encrypting it, encoding an address (a text with a colon) gives a text without a colon, and the same
  function applied to that gives the address back.
\<close>
theorem addr_roundtrip:
  assumes "block_cipher (enc addr_key) (dec addr_key)" and "CHR '':'' \<in> set addr"
  shows "\<exists>text. decodeAddr enc dec addr = AddrOk text \<and> decodeAddr enc dec text = AddrOk addr"
proof -
  define c where "c = cbc_encrypt (enc addr_key) addr_iv (pad (str_bytes addr))"
  have "length addr_iv = 16" by (simp add: addr_iv_def str_bytes_def)
  from cbc_decrypt_encrypt [OF assms(1) this pad_length, of "str_bytes addr"]
  have c: "cbc_decrypt (dec addr_key) addr_iv c = pad (str_bytes addr)" "length c mod 16 = 0"
    using pad_length [of "str_bytes addr"] by (simp_all add: c_def)
  have "decodeAddr enc dec addr = AddrOk (EncodeToString c)"
    using assms(2) by (simp add: decodeAddr_def AES_ENC_def c_def)
  moreover have "decodeAddr enc dec (EncodeToString c) = AddrOk addr"
    using c by (simp add: decodeAddr_def Encode_no_colon AES_DEC_def Decode_Encode unpad_pad)
  ultimately show ?thesis by blast
qed

text \<open>With the key itself in place of AES.\<close>
theorem addr_roundtrip_witness:
  "\<exists>text. decodeAddr (\<lambda>k b. xor_block b (take 16 k)) (\<lambda>k b. xor_block b (take 16 k)) ''h:22:u:p'' = AddrOk text \<and>
     decodeAddr (\<lambda>k b. xor_block b (take 16 k)) (\<lambda>k b. xor_block b (take 16 k)) text = AddrOk ''h:22:u:p''"
proof (rule addr_roundtrip)
  have "length (take 16 addr_key) = 16" by (simp add: addr_key_def str_bytes_def)
  then show "block_cipher (\<lambda>b. xor_block b (take 16 addr_key)) (\<lambda>b. xor_block b (take 16 addr_key))"
    by (simp add: block_cipher_def xor_block_twice)
qed simp

text \<open>What is not such a text is no error but a panic: the empty one, and one that is cut off.\<close>

lemma decodeAddr_panics: "decodeAddr enc dec [] = AddrPanic" "decodeAddr enc dec ''QUJD'' = AddrPanic" "decodeAddr enc dec ''QUJ'' = AddrFatal"
  by (simp_all add: decodeAddr_def AES_DEC_def DecodeString_def b64_val_def b64_alphabet_def unpad_def cbc_decrypt.simps upt_conv_Cons)

end
