(* ===== verification/Cli_Workers.thy ===== *)
theory Cli_Workers
  imports Sftp_Cli Scp_Workers
begin

text \<open>
  The concurrent transfers of \<^verbatim>\<open>sftpcli.go\<close>, the earlier form of those of \<^verbatim>\<open>scp/scp.go\<close>: the same channel,
  the same workers and the same mark for the end, so the pool of \<^verbatim>\<open>Scp_Workers\<close> runs them too.
\<close>

text \<open>What the walk makes of a directory: the directories it creates on the way, and the pairs it sends.\<close>

record chan_plan =
  cp_dirs :: "string list"
  cp_pairs :: "file_pair list"

definition cli_upload_plan :: "string \<Rightarrow> ltree \<Rightarrow> string \<Rightarrow> chan_plan" where
  "cli_upload_plan local_dir t remote_dir =
     (let plen = length local_dir; ps = walked local_dir t
      in \<lparr>cp_dirs = [remote_dir @ drop plen path. (path, d) \<leftarrow> ps, d],
          cp_pairs = [(path, remote_name remote_dir plen path). (path, d) \<leftarrow> ps, \<not> d]\<rparr>)"

definition cli_download_plan :: "string \<Rightarrow> (string \<times> bool) list \<Rightarrow> string \<Rightarrow> chan_plan" where
  "cli_download_plan remote_dir ws local_dir =
     (let plen = length remote_dir
      in \<lparr>cp_dirs = [local_dir @ drop plen path. (path, d) \<leftarrow> ws, d],
          cp_pairs = [(local_dir @ drop plen path, path). (path, d) \<leftarrow> ws, \<not> d]\<rparr>)"

text \<open>
  \<^verbatim>\<open>ChanUpload\<close> and \<^verbatim>\<open>ChanDownload\<close>: the process ends, one file is transferred, or the pool is started. \<open>st\<close> is
  what is found at the source: whether it is a directory.
\<close>

datatype chan_start = ChanExit | ChanOne string string | ChanPool chan_plan pool

definition cli_ChanUpload :: "bool option \<Rightarrow> ltree \<Rightarrow> string \<Rightarrow> string \<Rightarrow> nat \<Rightarrow> chan_start" where
  "cli_ChanUpload st t local_dir remote_dir go_count =
     (case st of
        None \<Rightarrow> ChanExit
      | Some False \<Rightarrow> ChanOne local_dir remote_dir
      | Some True \<Rightarrow>
          (let p = cli_upload_plan local_dir t remote_dir in ChanPool p (start_pool (cp_pairs p) go_count)))"

definition cli_ChanDownload :: "bool option \<Rightarrow> (string \<times> bool) list \<Rightarrow> string \<Rightarrow> string \<Rightarrow> nat \<Rightarrow> chan_start" where
  "cli_ChanDownload st ws remote_dir local_dir go_count =
     (case st of
        None \<Rightarrow> ChanExit
      | Some False \<Rightarrow> ChanOne local_dir remote_dir
      | Some True \<Rightarrow>
          (let p = cli_download_plan remote_dir ws local_dir in ChanPool p (start_pool (cp_pairs p) go_count)))"

text \<open>The later form sends the same pairs.\<close>

lemma cli_plans:
  "cp_pairs (cli_upload_plan local_dir t remote_dir) = ChanUpload_pairs local_dir t remote_dir"
  "cp_pairs (cli_download_plan remote_dir ws local_dir) = ChanDownload_pairs remote_dir ws local_dir"
  by (simp_all add: cli_upload_plan_def cli_download_plan_def ChanUpload_pairs_def ChanDownload_pairs_def Let_def)

text \<open>Every path of a walk from a clean directory is one.\<close>

lemma walk_paths_clean:
  "clean_dir p \<Longrightarrow> tree_ok t \<Longrightarrow> (q, d) \<in> set (snd (walk (\<lambda>p d s. (WOk, s @ [(p, d)])) p t s)) \<Longrightarrow> (q, d) \<in> set s \<or> clean_dir q"
  "clean_dir p \<Longrightarrow> list_all (\<lambda>(n, t). plain_name n \<and> tree_ok t) es \<Longrightarrow>
    (q, d) \<in> set (snd (walk_entries (\<lambda>p d s. (WOk, s @ [(p, d)])) p es s)) \<Longrightarrow> (q, d) \<in> set s \<or> clean_dir q"
proof (induction p t and p es arbitrary: s and s rule: tree_files_tree_files_entries.induct)
  case (3 p es)
  have "(q, d) \<in> set (s @ [(p, True)]) \<or> clean_dir q"
    using 3(1) [OF 3(2), of "s @ [(p, True)]"] 3(3,4) by simp
  then show ?case using 3(2) by auto
next
  case (5 p n t es)
  have q: "path_Join [p, n] = p @ CHR ''/'' # n" "clean_dir (p @ CHR ''/'' # n)"
    using 5(3,4) path_Join_entry [of p n] clean_dir_entry [of p n] by auto
  obtain r s1 where w: "walk (\<lambda>p d s. (WOk, s @ [(p, d)])) (p @ CHR ''/'' # n) t s = (r, s1)"
    by (rule prod.exhaust)
  have one: "(q, d) \<in> set s1 \<Longrightarrow> (q, d) \<in> set s \<or> clean_dir q"
    using 5(1) [OF q(2), of s] 5(4) w by simp
  have rest: "(q, d) \<in> set (snd (walk_entries (\<lambda>p d s. (WOk, s @ [(p, d)])) p es s1)) \<Longrightarrow> (q, d) \<in> set s1 \<or> clean_dir q"
    using 5(2) [OF 5(3)] 5(4) by simp
  show ?case
    using 5(5) one rest w q by (auto split: walk_result.splits if_splits)
qed auto

lemma upload_pairs_unmarked:
  assumes "clean_dir local_dir" "tree_ok t" "CHR 0x5C \<notin> set remote_dir" "remote_dir \<noteq> []"
  shows "list_all (\<lambda>p. \<not> is_mark p) (cp_pairs (cli_upload_plan local_dir t remote_dir))"
proof -
  have "path \<noteq> []" if "(path, d) \<in> set (walked local_dir t)" for path d
  proof -
    have "(path, d) \<in> set (snd (walk (\<lambda>p d s. (WOk, s @ [(p, d)])) local_dir t []))"
      using that unfolding walked_def Walk_def by (auto split: prod.splits walk_result.splits)
    from walk_paths_clean(1) [OF assms(1,2) this] show ?thesis by (auto simp: clean_dir_def)
  qed
  moreover have "remote_name remote_dir plen path \<noteq> []" for plen path
  proof -
    have "go_Join (go_Split f [CHR 0x5C]) Slash \<noteq> []" if "f = remote_dir @ x" for f x
    proof -
      obtain c r where r: "remote_dir = c # r" using assms(4) by (cases remote_dir) auto
      have "hd (go_Split f [CHR 0x5C]) \<noteq> []"
      proof (cases "CHR 0x5C \<in> set f")
        case True
        then obtain y z where "f = y @ CHR 0x5C # z" "CHR 0x5C \<notin> set y" by (meson split_list_first)
        with go_Split_Cons [of "CHR 0x5C" y z] that r assms(3) show ?thesis by (cases y) auto
      next
        case False
        with go_Split_field [of "CHR 0x5C" f] that r show ?thesis by simp
      qed
      then show ?thesis
        using go_Split_nonempty [of f "[CHR 0x5C]"] by (cases "go_Split f [CHR 0x5C]") (auto simp: go_Join_Cons elim: go_Join.elims)
    qed
    then show ?thesis
      using assms(4) by (auto simp: remote_name_def ReplaceAll_def Let_def split: option.split nat.split)
  qed
  ultimately show ?thesis
    by (auto simp: cli_upload_plan_def Let_def list_all_iff is_mark_def)
qed

text \<open>
  Every file of a directory is uploaded once by the older client too, whatever the order of its workers.
\<close>
theorem cli_workers_complete:
  assumes "clean_dir local_dir" "tree_ok t" "CHR 0x5C \<notin> set remote_dir" "remote_dir \<noteq> []" "0 < n"
    and "cli_ChanUpload (Some True) t local_dir remote_dir n = ChanPool plan start"
    and "s = foldl pool_do start es"
  shows "pool_finished s \<and> mset (po_done s) = mset (cp_pairs plan) \<or> (\<exists>e. pool_step e s \<noteq> None)"
proof -
  have p: "plan = cli_upload_plan local_dir t remote_dir" "start = start_pool (cp_pairs plan) n"
    using assms(6) by (auto simp: cli_ChanUpload_def Let_def)
  have "pool_inv (cp_pairs plan) n s"
    unfolding assms(7) p(2) by (rule pool.run_inv [OF pool_start]) (use upload_pairs_unmarked [OF assms(1-4)] p(1) in simp)
  from pool_not_stuck [OF this assms(5)] show ?thesis .
qed

text \<open>No workers and a file: the first send waits for ever.\<close>

lemma cli_no_workers:
  assumes "pairs \<noteq> []" shows "pool_step e (start_pool pairs 0) = None \<and> \<not> pool_finished (start_pool pairs 0)"
  using assms by (cases e; cases pairs) (auto simp: start_pool_def pool_finished_def)

end
