(* ===== verification/Scp_Run.thy ===== *)
theory Scp_Run
  imports Watch_Sync Cli_Workers
begin

text \<open>
  The commands of \<^verbatim>\<open>scp/scp.go\<close> and \<^verbatim>\<open>sftpcli.go\<close> from the parsed flags to the end of the process: logging in,
  the transfer that the arguments choose, the exit status. The libraries (SSH, SFTP, the proxy) are
  arguments, as functions on the state \<open>'w\<close> of the network; the local files and those of the server are
  two stores.
\<close>

section \<open>Logging in\<close>

datatype 'k auth = PasswordAuth string | KeyAuth 'k

record 'k ssh_client =
  sc_User :: string
  sc_Auth :: "'k auth"

text \<open>Whether a path exists, what is read from it (nothing after an error, which is not looked at), private
  keys; connecting to a SOCKS proxy and through it to an address, the handshake over such a connection;
  connecting directly; SFTP over an SSH connection; closing.\<close>

record ('k, 'n, 'c, 's, 'w) net =
  net_Stat :: "string \<Rightarrow> bool"
  net_ReadFile :: "string \<Rightarrow> string"
  net_ParsePrivateKey :: "string \<Rightarrow> 'k option"
  net_SOCKS5 :: "string \<Rightarrow> bool"
  net_ProxyDial :: "string \<Rightarrow> string \<Rightarrow> 'w \<Rightarrow> 'n option \<times> 'w"
  net_NewClientConn :: "'n \<Rightarrow> string \<Rightarrow> 'k ssh_client \<Rightarrow> 'w \<Rightarrow> 'c option \<times> 'w"
  net_Dial :: "string \<Rightarrow> 'k ssh_client \<Rightarrow> 'w \<Rightarrow> 'c option \<times> 'w"
  net_NewClient :: "'c \<Rightarrow> 'w \<Rightarrow> 's option \<times> 'w"
  net_CloseSftp :: "'s \<Rightarrow> 'w \<Rightarrow> 'w"
  net_CloseSsh :: "'c \<Rightarrow> 'w \<Rightarrow> 'w"

record ('c, 's) cli =
  cl_Ssh :: "'c option"
  cl_Sftp :: "'s option"
  cl_user :: string
  cl_remote :: string
  cl_pass :: string
  cl_port :: int
  cl_socks5 :: string

definition new_cli :: "('c, 's) cli" where
  "new_cli = \<lparr>cl_Ssh = None, cl_Sftp = None, cl_user = [], cl_remote = [], cl_pass = [], cl_port = 0, cl_socks5 = []\<rparr>"

text \<open>The password may be the name of a private key's file.\<close>

definition auth_of :: "('k, 'n, 'c, 's, 'w) net \<Rightarrow> string \<Rightarrow> 'k auth" where
  "auth_of net pass =
     (if net_Stat net pass
      then case net_ParsePrivateKey net (net_ReadFile net pass) of Some k \<Rightarrow> KeyAuth k | None \<Rightarrow> PasswordAuth pass
      else PasswordAuth pass)"

definition client_of :: "('k, 'n, 'c, 's, 'w) net \<Rightarrow> string \<Rightarrow> string \<Rightarrow> 'k ssh_client" where
  "client_of net user pass = \<lparr>sc_User = user, sc_Auth = auth_of net pass\<rparr>"

definition dial_addr :: "string \<Rightarrow> int \<Rightarrow> string" where
  "dial_addr remote port = remote @ '':'' @ Itoa port"

definition proxiedSSHClient ::
  "('k, 'n, 'c, 's, 'w) net \<Rightarrow> string \<Rightarrow> string \<Rightarrow> 'k ssh_client \<Rightarrow> 'w \<Rightarrow> 'c option \<times> 'w" where
  "proxiedSSHClient net proxy addr config w =
     (if \<not> net_SOCKS5 net proxy then (None, w)
      else case net_ProxyDial net proxy addr w of
             (None, w1) \<Rightarrow> (None, w1)
           | (Some conn, w1) \<Rightarrow> net_NewClientConn net conn addr config w1)"

text \<open>\<open>None\<close>: the process ends (\<^verbatim>\<open>log.Fatal\<close>).\<close>

definition login ::
  "('k, 'n, 'c, 's, 'w) net \<Rightarrow> string \<Rightarrow> int \<Rightarrow> string \<Rightarrow> string \<Rightarrow> ('c, 's) cli \<Rightarrow> 'c option \<times> 'w \<Rightarrow> ('c, 's) cli option \<times> 'w" where
  "login net remote port user pass c dialled =
     (case dialled of
        (None, w1) \<Rightarrow> (None, w1)
      | (Some conn, w1) \<Rightarrow>
          (case net_NewClient net conn w1 of
             (None, w2) \<Rightarrow> (None, w2)
           | (Some client, w2) \<Rightarrow>
               (Some (c\<lparr>cl_Ssh := Some conn, cl_Sftp := Some client, cl_user := user, cl_remote := remote,
                  cl_pass := pass, cl_port := port\<rparr>), w2)))"

definition scp_Connect ::
  "('k, 'n, 'c, 's, 'w) net \<Rightarrow> string \<Rightarrow> int \<Rightarrow> string \<Rightarrow> string \<Rightarrow> ('c, 's) cli \<Rightarrow> 'w \<Rightarrow> ('c, 's) cli option \<times> 'w" where
  "scp_Connect net remote port user pass c w =
     (let config = client_of net user pass; addr = dial_addr remote port
      in login net remote port user pass c
           (if cl_socks5 c \<noteq> [] then proxiedSSHClient net (cl_socks5 c) addr config w else net_Dial net addr config w))"

text \<open>\<^verbatim>\<open>Cli.connect\<close>: the connection of a worker.\<close>

definition worker_connect :: "('k, 'n, 'c, 's, 'w) net \<Rightarrow> ('c, 's) cli \<Rightarrow> 'w \<Rightarrow> ('c, 's) cli option \<times> 'w" where
  "worker_connect net c w = scp_Connect net (cl_remote c) (cl_port c) (cl_user c) (cl_pass c) new_cli w"

definition reconnect :: "('k, 'n, 'c, 's, 'w) net \<Rightarrow> ('c, 's) cli \<Rightarrow> 'w \<Rightarrow> ('c, 's) cli option \<times> 'w" where
  "reconnect net c w =
     (case cl_Ssh c of
        None \<Rightarrow> scp_Connect net (cl_remote c) (cl_port c) (cl_user c) (cl_pass c) c w
      | Some h \<Rightarrow>
          scp_Connect net (cl_remote c) (cl_port c) (cl_user c) (cl_pass c) (c\<lparr>cl_Ssh := None\<rparr>)
            (net_CloseSsh net h ((case cl_Sftp c of Some s \<Rightarrow> net_CloseSftp net s | None \<Rightarrow> id) w)))"

text \<open>The older \<^verbatim>\<open>Connect\<close> knows no proxy.\<close>

definition cli_Connect ::
  "('k, 'n, 'c, 's, 'w) net \<Rightarrow> string \<Rightarrow> int \<Rightarrow> string \<Rightarrow> string \<Rightarrow> ('c, 's) cli \<Rightarrow> 'w \<Rightarrow> ('c, 's) cli option \<times> 'w" where
  "cli_Connect net remote port user pass c w =
     login net remote port user pass c (net_Dial net (dial_addr remote port) (client_of net user pass) w)"

text \<open>The free function keeps the connection only, so such a client cannot start workers.\<close>

definition cli_Connect_new ::
  "('k, 'n, 'c, 's, 'w) net \<Rightarrow> string \<Rightarrow> int \<Rightarrow> string \<Rightarrow> string \<Rightarrow> 'w \<Rightarrow> ('c, 's) cli option \<times> 'w" where
  "cli_Connect_new net remote port user pass w =
     (case net_Dial net (dial_addr remote port) (client_of net user pass) w of
        (None, w1) \<Rightarrow> (None, w1)
      | (Some conn, w1) \<Rightarrow>
          (case net_NewClient net conn w1 of
             (None, w2) \<Rightarrow> (None, w2)
           | (Some client, w2) \<Rightarrow> (Some (new_cli\<lparr>cl_Ssh := Some conn, cl_Sftp := Some client\<rparr>), w2)))"

text \<open>The client remembers how it logged in: connecting again and the workers use the same address, user and
  credentials, but the workers not the proxy.\<close>

lemma login_remembers:
  assumes "login net remote port user pass c d = (Some c', w')"
  shows "cl_remote c' = remote \<and> cl_port c' = port \<and> cl_user c' = user \<and> cl_pass c' = pass \<and> cl_socks5 c' = cl_socks5 c \<and>
    cl_Ssh c' \<noteq> None \<and> cl_Sftp c' \<noteq> None"
  using assms by (auto simp: login_def split: prod.splits option.splits)

lemma scp_Connect_remembers:
  assumes "scp_Connect net remote port user pass c w = (Some c', w')"
  shows "cl_remote c' = remote \<and> cl_port c' = port \<and> cl_user c' = user \<and> cl_pass c' = pass \<and> cl_socks5 c' = cl_socks5 c \<and>
    cl_Ssh c' \<noteq> None \<and> cl_Sftp c' \<noteq> None"
  using assms by (simp add: scp_Connect_def Let_def login_remembers)

lemma login_irrelevant:
  "cl_socks5 c = cl_socks5 c1 \<Longrightarrow> login net remote port user pass (c :: ('c, 's) cli) d = login net remote port user pass c1 d"
  by (cases c; cases c1) (auto simp: login_def split: prod.split option.split)

lemma worker_connect_direct:
  assumes "scp_Connect net remote port user pass c w = (Some c', w')"
  shows "worker_connect net c' v = cli_Connect net remote port user pass new_cli v"
  using scp_Connect_remembers [OF assms]
  by (simp add: worker_connect_def scp_Connect_def cli_Connect_def Let_def new_cli_def)

lemma reconnect_same:
  assumes "scp_Connect net remote port user pass c w = (Some c', w')"
  shows "\<exists>v'. reconnect net c' v = scp_Connect net remote port user pass c v'"
proof -
  note r = scp_Connect_remembers [OF assms]
  then obtain h s where hs: "cl_Ssh c' = Some h" "cl_Sftp c' = Some s" by auto
  have "scp_Connect net remote port user pass (c'\<lparr>cl_Ssh := None\<rparr>) u = scp_Connect net remote port user pass c u" for u
    using r login_irrelevant [where net = net, of "c'\<lparr>cl_Ssh := None\<rparr>" c] by (simp add: scp_Connect_def Let_def)
  with r hs show ?thesis by (auto simp: reconnect_def)
qed

lemma cli_Connect_plain: "cl_socks5 c = [] \<Longrightarrow> cli_Connect net remote port user pass c w = scp_Connect net remote port user pass c w"
  by (simp add: cli_Connect_def scp_Connect_def Let_def)

section \<open>Concurrent transfers\<close>

definition ChanDownload :: "bool option \<Rightarrow> (string \<times> bool) list \<Rightarrow> string \<Rightarrow> string \<Rightarrow> nat \<Rightarrow> chan_start" where
  "ChanDownload st ws remote_dir local_dir go_count =
     (case st of
        None \<Rightarrow> ChanExit
      | Some False \<Rightarrow> ChanOne local_dir remote_dir
      | Some True \<Rightarrow>
          (let pairs = ChanDownload_pairs remote_dir ws local_dir
           in ChanPool \<lparr>cp_dirs = [local_dir @ drop (length remote_dir) path. (path, d) \<leftarrow> ws, d], cp_pairs = pairs\<rparr>
                (start_pool pairs go_count)))"

definition ChanUpload :: "bool option \<Rightarrow> ltree \<Rightarrow> string \<Rightarrow> string \<Rightarrow> nat \<Rightarrow> chan_start" where
  "ChanUpload st t local_dir remote_dir go_count =
     (case st of
        None \<Rightarrow> ChanExit
      | Some False \<Rightarrow> ChanOne local_dir remote_dir
      | Some True \<Rightarrow>
          (let pairs = ChanUpload_pairs local_dir t remote_dir
           in ChanPool \<lparr>cp_dirs = [remote_dir @ drop (length local_dir) path. (path, d) \<leftarrow> walked local_dir t, d], cp_pairs = pairs\<rparr>
                (start_pool pairs go_count)))"

text \<open>Both programs start the same pools.\<close>

lemma chan_same: "ChanUpload = cli_ChanUpload" "ChanDownload = cli_ChanDownload"
  by (simp_all add: fun_eq_iff ChanUpload_def cli_ChanUpload_def ChanDownload_def cli_ChanDownload_def cli_upload_plan_def
    cli_download_plan_def ChanUpload_pairs_def ChanDownload_pairs_def Let_def split: option.split bool.split)

section \<open>The surroundings of a run\<close>

text \<open>
  The operations of both stores and the times of their files; what is below a local directory, the contents
  of the ignore file in it, absolute paths; what a walk on the server gives; changing modes there, whether
  a session can be opened, and what a command prints (nothing: it failed).
\<close>

record ('l, 'r) around =
  ar_lo :: "'l store_ops"
  ar_ro :: "'r store_ops"
  ar_ltime :: "'l \<Rightarrow> string \<Rightarrow> int"
  ar_rtime :: "'r \<Rightarrow> string \<Rightarrow> int"
  ar_tree :: "'l \<Rightarrow> string \<Rightarrow> ltree"
  ar_ignore :: "'l \<Rightarrow> string \<Rightarrow> string option"
  ar_Abs :: "string \<Rightarrow> string option"
  ar_walk :: "'r \<Rightarrow> string \<Rightarrow> (string \<times> bool) list"
  ar_Chmod :: "'r \<Rightarrow> string \<Rightarrow> 'r"
  ar_NewSession :: "'r \<Rightarrow> bool"
  ar_CombinedOutput :: "string \<Rightarrow> 'r \<Rightarrow> string option \<times> 'r"

text \<open>How the process ends (with what the command has printed, if one was run), or what goes on: the workers
  of a pool, or the watching of a directory.\<close>

datatype run_end =
  Finished "string option" | ExitStatus nat | RunPanic | Pooled chan_plan pool | Watching string nat string

definition end_of :: "nat \<Rightarrow> outcome \<Rightarrow> run_end" where
  "end_of n out =
     (case out of Returned True \<Rightarrow> Finished None | Returned False \<Rightarrow> ExitStatus n | Exited \<Rightarrow> ExitStatus 1 | Panicked \<Rightarrow> RunPanic)"

definition stat_dir :: "'s store_ops \<Rightarrow> 's \<Rightarrow> string \<Rightarrow> bool option" where
  "stat_dir ops s p = map_option fst (fo_stat ops s p)"

definition executeCmd :: "('l, 'r) around \<Rightarrow> string \<Rightarrow> 'r \<Rightarrow> string option \<times> 'r" where
  "executeCmd ar cmd r =
     (if \<not> ar_NewSession ar r then (None, r)
      else case ar_CombinedOutput ar cmd r of (None, r') \<Rightarrow> (Some [], r') | (Some out, r') \<Rightarrow> (Some out, r'))"

text \<open>\<open>None\<close>: the session that could not be opened is nil.\<close>

section \<open>\<^verbatim>\<open>fkme scp\<close>\<close>

definition run_download :: "('l, 'r) around \<Rightarrow> int \<Rightarrow> string \<Rightarrow> string \<Rightarrow> 'l \<Rightarrow> 'r \<Rightarrow> run_end \<times> 'l" where
  "run_download ar cc remote local l r =
     (if cc > 1 then
        (case ChanDownload (stat_dir (ar_ro ar) r remote) (ar_walk ar r remote) remote local (nat cc) of
           ChanExit \<Rightarrow> (ExitStatus 1, l)
         | ChanOne lf rf \<Rightarrow>
             (case Download (ar_ro ar) r (ar_lo ar) rf lf l of
                (Returned _, l') \<Rightarrow> (Finished None, l') | (x, l') \<Rightarrow> (end_of 1 x, l'))
         | ChanPool p q \<Rightarrow> (Pooled p q, l))
      else case DownloadDir (ar_ro ar) r (ar_lo ar) (ar_walk ar r remote) remote local l of (x, l') \<Rightarrow> (end_of 3 x, l'))"

definition run_exec :: "('l, 'r) around \<Rightarrow> scp_args \<Rightarrow> string \<Rightarrow> string \<Rightarrow> 'l \<Rightarrow> 'r \<Rightarrow> run_end \<times> 'r" where
  "run_exec ar a local remote l r =
     (case exec_command a (stat_dir (ar_lo ar) l local = Some False) remote of
        None \<Rightarrow> (Finished None, r)
      | Some cmd \<Rightarrow>
          (case executeCmd ar cmd (ar_Chmod ar r remote) of
             (None, r') \<Rightarrow> (RunPanic, r') | (Some out, r') \<Rightarrow> (Finished (Some out), r')))"

definition run_upload_dir :: "('l, 'r) around \<Rightarrow> string \<Rightarrow> string \<Rightarrow> 'l \<Rightarrow> 'r \<Rightarrow> outcome \<times> 'r" where
  "run_upload_dir ar local remote l r =
     UploadDir (ar_lo ar) l (ar_ro ar) (ar_tree ar l local) (ar_ignore ar l local) local remote r"

definition run_upload :: "('l, 'r) around \<Rightarrow> scp_args \<Rightarrow> string \<Rightarrow> string \<Rightarrow> 'l \<Rightarrow> 'r \<Rightarrow> run_end \<times> 'r" where
  "run_upload ar a local remote l r =
     (if sa_cc a > 1 then
        (case ChanUpload (stat_dir (ar_lo ar) l local) (ar_tree ar l local) local remote (nat (sa_cc a)) of
           ChanExit \<Rightarrow> (ExitStatus 1, r)
         | ChanOne lf rf \<Rightarrow> (Finished None, snd (Upload (ar_lo ar) l (ar_ro ar) lf rf r))
         | ChanPool p q \<Rightarrow> (Pooled p q, r))
      else if sa_daemon a then
        (case run_upload_dir ar local remote l r of
           (Returned True, r') \<Rightarrow>
             (case ar_Abs ar local of
                None \<Rightarrow> (Finished None, r')
              | Some lpath \<Rightarrow> (Watching local (length lpath) remote, r'))
         | (x, r') \<Rightarrow> (end_of 4 x, r'))
      else case run_upload_dir ar local remote l r of
             (Returned True, r') \<Rightarrow> run_exec ar a local remote l r'
           | (x, r') \<Rightarrow> (end_of 3 x, r'))"

text \<open>\<^verbatim>\<open>Run\<close>. The invalid arguments are noticed when \<^verbatim>\<open>connect\<close> has come back without a local path, so an
  empty one is noticed after logging in.\<close>

definition scp_Run ::
  "nat \<Rightarrow> file_system \<Rightarrow> ('k, 'n, 'c, 's, 'w) net \<Rightarrow> ('l, 'r) around \<Rightarrow> scp_args \<Rightarrow> 'w \<Rightarrow> 'l \<Rightarrow> 'r \<Rightarrow> run_end \<times> 'w \<times> 'l \<times> 'r" where
  "scp_Run depth fs net ar a w l r =
     (case scp_connect depth fs a of
        ChoicePanic \<Rightarrow> (RunPanic, w, l, r)
      | NotChosen \<Rightarrow> (ExitStatus 2, w, l, r)
      | Chosen g \<Rightarrow>
          (case scp_Connect net (tg_host g) (tg_port g) (tg_user g) (tg_pass g) (new_cli\<lparr>cl_socks5 := sa_s5 a\<rparr>) w of
             (None, w') \<Rightarrow> (ExitStatus 1, w', l, r)
           | (Some _, w') \<Rightarrow>
               if tg_local g = [] then (ExitStatus 2, w', l, r)
               else if tg_to_remote g
                    then (case run_upload ar a (tg_local g) (tg_remote g) l r of (e, r') \<Rightarrow> (e, w', l, r'))
                    else (case run_download ar (sa_cc a) (tg_remote g) (tg_local g) l r of (e, l') \<Rightarrow> (e, w', l', r))))"

section \<open>What a run does\<close>

text \<open>Each direction writes one side; transfers with workers report no failure of a file.\<close>

lemma run_download_ends:
  "run_download ar cc remote local l r = (e, l') \<Longrightarrow> e = ExitStatus n \<Longrightarrow> n = 1 \<or> n = 3 \<and> \<not> cc > 1"
  by (auto simp: run_download_def end_of_def split: if_splits chan_start.splits prod.splits outcome.splits bool.splits)

lemma run_upload_ends:
  "run_upload ar a local remote l r = (e, r') \<Longrightarrow> e = ExitStatus n \<Longrightarrow>
     n = 1 \<or> n = (if sa_daemon a then 4 else 3) \<and> \<not> sa_cc a > 1"
  by (auto simp: run_upload_def run_exec_def end_of_def split: if_splits chan_start.splits prod.splits outcome.splits bool.splits option.splits)

lemma run_upload_finished:
  assumes "run_upload ar a local remote l r = (Finished out, r')" "\<not> sa_cc a > 1" "\<not> sa_daemon a"
  obtains r1 where "run_upload_dir ar local remote l r = (Returned True, r1)" "run_exec ar a local remote l r1 = (Finished out, r')"
  using assms by (auto simp: run_upload_def end_of_def split: prod.splits outcome.splits bool.splits)

lemma run_exec_dir: "stat_dir (ar_lo ar) l local \<noteq> Some False \<Longrightarrow> run_exec ar a local remote l r = (Finished None, r)"
  by (simp add: run_exec_def exec_command_def)

lemma scp_Run_upload:
  assumes "scp_connect depth fs a = Chosen g" "tg_to_remote g" "tg_local g \<noteq> []"
  shows "scp_Run depth fs net ar a w l r =
    (case scp_Connect net (tg_host g) (tg_port g) (tg_user g) (tg_pass g) (new_cli\<lparr>cl_socks5 := sa_s5 a\<rparr>) w of
       (None, w') \<Rightarrow> (ExitStatus 1, w', l, r)
     | (Some _, w') \<Rightarrow> (case run_upload ar a (tg_local g) (tg_remote g) l r of (e, r') \<Rightarrow> (e, w', l, r')))"
  using assms by (simp add: scp_Run_def split: prod.split option.split)

text \<open>How the transfer of a run without workers came out.\<close>

definition transfer_outcome :: "('l, 'r) around \<Rightarrow> scp_target \<Rightarrow> 'l \<Rightarrow> 'r \<Rightarrow> outcome" where
  "transfer_outcome ar g l r =
     (if tg_to_remote g then fst (run_upload_dir ar (tg_local g) (tg_remote g) l r)
      else fst (DownloadDir (ar_ro ar) r (ar_lo ar) (ar_walk ar r (tg_remote g)) (tg_remote g) (tg_local g) l))"

text \<open>With workers: whether the file or directory to transfer is not there, or a single file could not be
  downloaded; other failures are not reported.\<close>

definition workers_fail :: "('l, 'r) around \<Rightarrow> scp_target \<Rightarrow> 'l \<Rightarrow> 'r \<Rightarrow> bool" where
  "workers_fail ar g l r \<longleftrightarrow>
     (if tg_to_remote g then stat_dir (ar_lo ar) l (tg_local g) = None
      else stat_dir (ar_ro ar) r (tg_remote g) = None \<or>
        stat_dir (ar_ro ar) r (tg_remote g) = Some False \<and>
        fst (Download (ar_ro ar) r (ar_lo ar) (tg_remote g) (tg_local g) l) = Exited)"

definition is_exit :: "run_end \<Rightarrow> bool" where
  "is_exit e = (case e of ExitStatus _ \<Rightarrow> True | _ \<Rightarrow> False)"

lemma run_exec_no_exit: "run_exec ar a local remote l r = (e, r') \<Longrightarrow> \<not> is_exit e"
  by (auto simp: run_exec_def is_exit_def split: option.splits prod.splits)

lemma run_upload_plain:
  assumes "run_upload ar a local remote l r = (e, r')" "\<not> sa_cc a > 1"
  shows "case fst (run_upload_dir ar local remote l r) of
      Returned True \<Rightarrow> \<not> is_exit e
    | Returned False \<Rightarrow> e = ExitStatus (if sa_daemon a then 4 else 3)
    | Exited \<Rightarrow> e = ExitStatus 1 | Panicked \<Rightarrow> e = RunPanic"
proof -
  obtain x r1 where x: "run_upload_dir ar local remote l r = (x, r1)" by fastforce
  show ?thesis
  proof (cases "x = Returned True")
    case True
    with assms x show ?thesis
      by (auto simp: run_upload_def is_exit_def [of "Finished None"] is_exit_def [of "Watching _ _ _"]
          dest: run_exec_no_exit split: if_splits option.splits)
  next
    case False
    with assms x show ?thesis
      by (cases x) (auto simp: run_upload_def end_of_def split: if_splits bool.splits)
  qed
qed

lemma run_download_plain:
  assumes "run_download ar cc remote local l r = (e, l')" "\<not> cc > 1"
  shows "case fst (DownloadDir (ar_ro ar) r (ar_lo ar) (ar_walk ar r remote) remote local l) of
      Returned True \<Rightarrow> \<not> is_exit e | Returned False \<Rightarrow> e = ExitStatus 3
    | Exited \<Rightarrow> e = ExitStatus 1 | Panicked \<Rightarrow> e = RunPanic"
  using assms by (auto simp: run_download_def end_of_def is_exit_def split: prod.splits outcome.splits bool.splits)

lemma run_workers:
  assumes "sa_cc a > 1"
  shows "run_upload ar a (tg_local g) (tg_remote g) l r = (e, r') \<Longrightarrow> tg_to_remote g \<Longrightarrow>
      (if workers_fail ar g l r then e = ExitStatus 1 else \<not> is_exit e)"
    and "run_download ar (sa_cc a) (tg_remote g) (tg_local g) l r = (e, l') \<Longrightarrow> \<not> tg_to_remote g \<Longrightarrow>
      (if workers_fail ar g l r then e = ExitStatus 1 else \<not> is_exit e)"
  using assms
  by (auto simp: run_upload_def run_download_def ChanUpload_def ChanDownload_def workers_fail_def end_of_def is_exit_def Let_def
      split: option.splits bool.splits prod.splits outcome.splits)



section \<open>A sample run\<close>

text \<open>A network that keeps the addresses dialled and lets everybody in; a server with one file.\<close>

definition sample_net :: "(unit, unit, unit, unit, string list) net" where
  "sample_net =
     \<lparr>net_Stat = (\<lambda>_. False), net_ReadFile = (\<lambda>_. []), net_ParsePrivateKey = (\<lambda>_. None), net_SOCKS5 = (\<lambda>_. True),
      net_ProxyDial = (\<lambda>p addr w. (Some (), w @ [p])), net_NewClientConn = (\<lambda>_ addr _ w. (Some (), w @ [addr])),
      net_Dial = (\<lambda>addr _ w. (Some (), w @ [addr])), net_NewClient = (\<lambda>_ w. (Some (), w)),
      net_CloseSftp = (\<lambda>_ w. w), net_CloseSsh = (\<lambda>_ w. w)\<rparr>"

definition sample_around :: "(string \<rightharpoonup> bytes option, string \<rightharpoonup> bytes option) around" where
  "sample_around =
     \<lparr>ar_lo = path_store, ar_ro = path_store, ar_ltime = (\<lambda>_ _. 0), ar_rtime = (\<lambda>_ _. 0), ar_tree = (\<lambda>_ _. sample_tree),
      ar_ignore = (\<lambda>_ _. Some ''.git/''), ar_Abs = Some, ar_walk = (\<lambda>_ _. []), ar_Chmod = (\<lambda>r _. r), ar_NewSession = (\<lambda>_. True),
      ar_CombinedOutput = (\<lambda>_ r. (None, r))\<rparr>"

definition sample_args :: "string list \<Rightarrow> scp_args" where
  "sample_args args = \<lparr>sa_key_file = [], sa_passcode = ''pw'', sa_port = 2022, sa_cc = 1, sa_conf_file = [], sa_s5 = ''127.0.0.1:8007'',
     sa_daemon = False, sa_exec = [], sa_args = args\<rparr>"

definition no_files :: file_system where
  "no_files = \<lparr>fs_ReadFile = (\<lambda>_. None), fs_Glob = (\<lambda>_. None), fs_Expand = (\<lambda>_. None)\<rparr>"

definition sample_server :: "string \<rightharpoonup> bytes option" where
  "sample_server = [''/r/a'' \<mapsto> Some [7, 7], ''/z'' \<mapsto> Some [5]]"

definition upload_args :: scp_args where
  "upload_args = sample_args [''/w'', ''me@h:/r'']"

lemma sample_target:
  "scp_connect 0 no_files upload_args = Chosen \<lparr>tg_host = ''h'', tg_port = 2022, tg_user = ''me'', tg_pass = ''pw'',
     tg_to_remote = True, tg_local = ''/w'', tg_remote = ''/r''\<rparr>"
  by code_simp

lemma sample_run:
  "\<exists>r'. scp_Run 0 no_files sample_net sample_around upload_args [] sample_files sample_server =
     (Finished None, [''127.0.0.1:8007'', ''h:2022''], sample_files, r')"
proof -
  have "run_upload_dir sample_around ''/w'' ''/r'' sample_files sample_server =
      UploadDir path_store sample_files path_store sample_tree (Some ''.git/'') ''/w'' ''/r'' sample_server"
    by (simp add: run_upload_dir_def sample_around_def)
  moreover have "fst (UploadDir path_store sample_files path_store sample_tree (Some ''.git/'') ''/w'' ''/r'' sample_server) = Returned True"
    unfolding sample_server_def by code_simp
  ultimately obtain r' where d: "run_upload_dir sample_around ''/w'' ''/r'' sample_files sample_server = (Returned True, r')"
    by (metis prod.collapse)
  have a: "\<not> sa_cc upload_args > 1" "\<not> sa_daemon upload_args" "sa_exec upload_args = []" "sa_s5 upload_args = ''127.0.0.1:8007''"
    by (simp_all add: upload_args_def sample_args_def)
  have "dial_addr ''h'' 2022 = ''h:2022''" by code_simp
  then have "scp_Connect sample_net ''h'' 2022 ''me'' ''pw'' (new_cli\<lparr>cl_socks5 := ''127.0.0.1:8007''\<rparr>) [] =
      (Some (new_cli\<lparr>cl_Ssh := Some (), cl_Sftp := Some (), cl_user := ''me'', cl_remote := ''h'', cl_pass := ''pw'', cl_port := 2022,
         cl_socks5 := ''127.0.0.1:8007''\<rparr>), [''127.0.0.1:8007'', ''h:2022''])"
    by (simp add: scp_Connect_def login_def proxiedSSHClient_def sample_net_def new_cli_def)
  with d a show ?thesis
    by (simp add: scp_Run_upload [OF sample_target] run_upload_def run_exec_def exec_command_def)
qed



end
