(* ===== verification/Cli_Run.thy ===== *)
theory Cli_Run
  imports Scp_Run Addr_Code
begin

text \<open>
  The command lines of \<^verbatim>\<open>sftpcli.go\<close>, from which that of \<^verbatim>\<open>scp/scp.go\<close> was made: \<^verbatim>\<open>Cli.Run\<close>, \<^verbatim>\<open>main___\<close> (the same
  without a configuration), \<^verbatim>\<open>main_2\<close> (\<^verbatim>\<open>FileTran\<close>), \<^verbatim>\<open>main_\<close> (\<^verbatim>\<open>send\<close> and \<^verbatim>\<open>recv\<close>), and how they compare with the
  later one.
\<close>

section \<open>\<^verbatim>\<open>Cli.Run\<close>\<close>

definition cli_run_download :: "('l, 'r) around \<Rightarrow> int \<Rightarrow> string \<Rightarrow> string \<Rightarrow> 'l \<Rightarrow> 'r \<Rightarrow> run_end \<times> 'l" where
  "cli_run_download ar cc remote local l r =
     (if cc > 1 then
        (case cli_ChanDownload (stat_dir (ar_ro ar) r remote) (ar_walk ar r remote) remote local (nat cc) of
           ChanExit \<Rightarrow> (ExitStatus 1, l)
         | ChanOne lf rf \<Rightarrow>
             (case cli_Download (ar_ro ar) r (ar_lo ar) rf lf l of (x, l') \<Rightarrow> (end_of 1 x, l'))
         | ChanPool p q \<Rightarrow> (Pooled p q, l))
      else case cli_DownloadDir (ar_ro ar) r (ar_lo ar) (ar_walk ar r remote) remote local l of (x, l') \<Rightarrow> (end_of 1 x, l'))"

definition cli_run_upload :: "('l, 'r) around \<Rightarrow> int \<Rightarrow> string \<Rightarrow> string \<Rightarrow> 'l \<Rightarrow> 'r \<Rightarrow> run_end \<times> 'r" where
  "cli_run_upload ar cc local remote l r =
     (if cc > 1 then
        (case cli_ChanUpload (stat_dir (ar_lo ar) l local) (ar_tree ar l local) local remote (nat cc) of
           ChanExit \<Rightarrow> (ExitStatus 1, r)
         | ChanOne lf rf \<Rightarrow>
             (case cli_Upload (ar_lo ar) l (ar_ro ar) lf rf r of (x, r') \<Rightarrow> (end_of 1 x, r'))
         | ChanPool p q \<Rightarrow> (Pooled p q, r))
      else case cli_UploadDir (ar_lo ar) (ar_ltime ar) l (ar_ro ar) (ar_rtime ar) (ar_tree ar l local) local remote r of
             (x, r') \<Rightarrow> (end_of 1 x, r'))"

text \<open>Logging in and transferring, with so many workers.\<close>

definition cli_transfer ::
  "('k, 'n, 'c, 's, 'w) net \<Rightarrow> ('l, 'r) around \<Rightarrow> int \<Rightarrow> scp_target scp_choice \<Rightarrow> 'w \<Rightarrow> 'l \<Rightarrow> 'r \<Rightarrow> run_end \<times> 'w \<times> 'l \<times> 'r" where
  "cli_transfer net ar cc t w l r =
     (case t of
        ChoicePanic \<Rightarrow> (RunPanic, w, l, r)
      | NotChosen \<Rightarrow> (Finished None, w, l, r)
      | Chosen g \<Rightarrow>
          (case cli_Connect net (tg_host g) (tg_port g) (tg_user g) (tg_pass g) new_cli w of
             (None, w') \<Rightarrow> (ExitStatus 1, w', l, r)
           | (Some _, w') \<Rightarrow>
               if tg_to_remote g
               then (case cli_run_upload ar cc (tg_local g) (tg_remote g) l r of (e, r') \<Rightarrow> (e, w', l, r'))
               else (case cli_run_download ar cc (tg_remote g) (tg_local g) l r of (e, l') \<Rightarrow> (e, w', l', r))))"

text \<open>With a configuration file the number of workers is not looked at.\<close>

definition cli_Run ::
  "nat \<Rightarrow> file_system \<Rightarrow> ('k, 'n, 'c, 's, 'w) net \<Rightarrow> ('l, 'r) around \<Rightarrow> scp_args \<Rightarrow> 'w \<Rightarrow> 'l \<Rightarrow> 'r \<Rightarrow> run_end \<times> 'w \<times> 'l \<times> 'r" where
  "cli_Run depth fs net ar a w l r =
     (case sa_args a of
        [src, dst] \<Rightarrow>
          if sa_conf_file a \<noteq> [] then cli_transfer net ar 1 (config_target depth fs (sa_conf_file a) src dst) w l r
          else cli_transfer net ar (sa_cc a) (plain_target a src dst) w l r
      | _ \<Rightarrow> (Finished None, w, l, r))"

definition cli_main ::
  "('k, 'n, 'c, 's, 'w) net \<Rightarrow> ('l, 'r) around \<Rightarrow> scp_args \<Rightarrow> 'w \<Rightarrow> 'l \<Rightarrow> 'r \<Rightarrow> run_end \<times> 'w \<times> 'l \<times> 'r" where
  "cli_main net ar a w l r =
     (case sa_args a of
        [src, dst] \<Rightarrow> cli_transfer net ar (sa_cc a) (plain_target a src dst) w l r
      | _ \<Rightarrow> (Finished None, w, l, r))"

lemma cli_main_Run: "sa_conf_file a = [] \<Longrightarrow> cli_Run depth fs net ar a w l r = cli_main net ar a w l r"
  by (simp add: cli_Run_def cli_main_def split: list.split)

text \<open>So \<^verbatim>\<open>-c\<close> is ignored beside \<^verbatim>\<open>-conf\<close>.\<close>

theorem cli_conf_ignores_count:
  assumes "sa_conf_file a \<noteq> []"
  shows "cli_Run depth fs net ar (a\<lparr>sa_cc := n\<rparr>) w l r = cli_Run depth fs net ar a w l r"
  using assms by (simp add: cli_Run_def split: list.split)

section \<open>The older command and the later one\<close>

lemma older_download:
  "Download ro r lo remote local l = (x, l') \<Longrightarrow> x \<noteq> Exited \<Longrightarrow> cli_Download ro r lo remote local l = (Returned True, l')"
  by (simp add: cli_Download_eq)

lemma older_download_all:
  "download_all ro r lo plen local_dir ps l = (Returned True, l') \<Longrightarrow>
     cli_download_all ro r lo plen local_dir ps l = (Returned True, l')"
  by (induction ps arbitrary: l)
    (auto simp: Let_def older_download split: if_splits prod.splits outcome.splits bool.splits)

lemma older_DownloadDir:
  "DownloadDir ro r lo ws remote local l = (Returned True, l') \<Longrightarrow>
     cli_DownloadDir ro r lo ws remote local l = (Returned True, l')"
  by (auto simp: DownloadDir_def cli_DownloadDir_def older_download older_download_all split: option.splits prod.splits bool.splits)

lemma older_run_download:
  assumes "run_download ar cc remote local l r = (e, l')" "(\<exists>out. e = Finished out) \<or> (\<exists>p q. e = Pooled p q)"
  shows "cli_run_download ar cc remote local l r = (e, l')"
proof (cases "cc > 1")
  case True
  then show ?thesis using assms
    by (auto simp: run_download_def cli_run_download_def chan_same end_of_def older_download
        split: chan_start.splits prod.splits outcome.splits)
next
  case False
  with assms obtain x where x: "DownloadDir (ar_ro ar) r (ar_lo ar) (ar_walk ar r remote) remote local l = (x, l')" "e = end_of 3 x"
    by (auto simp: run_download_def split: prod.splits)
  with assms(2) have "x = Returned True" by (auto simp: end_of_def split: outcome.splits bool.splits)
  with False x older_DownloadDir [OF x(1) [unfolded this]] show ?thesis by (simp add: cli_run_download_def end_of_def)
qed
lemma older_run_upload:
  assumes "run_upload ar a local remote l r = (e, r')" "sa_cc a > 1" "stat_dir (ar_lo ar) l local = Some True"
  shows "cli_run_upload ar (sa_cc a) local remote l r = (e, r')"
  using assms by (simp add: run_upload_def cli_run_upload_def chan_same cli_ChanUpload_def Let_def)

lemma older_pooled_upload:
  assumes "run_upload ar a local remote l r = (Pooled p q, r')"
  shows "sa_cc a > 1 \<and> stat_dir (ar_lo ar) l local = Some True"
proof -
  have "sa_cc a > 1" using assms
    by (auto simp: run_upload_def run_exec_def end_of_def split: if_splits prod.splits outcome.splits bool.splits option.splits)
  with assms show ?thesis by (auto simp: run_upload_def ChanUpload_def split: option.splits bool.splits)
qed

text \<open>C27: without a proxy (which the older command does not know), and unless \<^verbatim>\<open>-conf\<close> is given together
  with a \<^verbatim>\<open>-c\<close> above 1 (the older command then ignores \<^verbatim>\<open>-c\<close>), the older command does what the later one
  does: when \<^verbatim>\<open>fkme scp\<close> ends a download with status 0 or starts workers, in either direction, the older
  command logs in in the same way, ends in the same way or starts the same workers with the same files,
  and leaves both sides as the later one does.\<close>

theorem older_command_agrees:
  assumes args: "sa_s5 a = []" "sa_conf_file a = [] \<or> sa_cc a \<le> 1"
    and target: "scp_connect depth fs a = Chosen g"
    and run: "scp_Run depth fs net ar a w l r = (e, w', l', r')"
    and good: "(\<exists>out. e = Finished out) \<and> \<not> tg_to_remote g \<or> (\<exists>p q. e = Pooled p q)"
  shows "cli_Run depth fs net ar a w l r = (e, w', l', r')"
proof -
  obtain src dst where sd: "sa_args a = [src, dst]"
    using target by (auto simp: scp_connect_def split: list.splits)
  have cli: "cli_Run depth fs net ar a w l r = cli_transfer net ar (if sa_conf_file a = [] then sa_cc a else 1) (Chosen g) w l r"
    using target by (simp add: cli_Run_def scp_connect_def sd split: if_splits)
  have conn: "scp_Connect net (tg_host g) (tg_port g) (tg_user g) (tg_pass g) (new_cli\<lparr>cl_socks5 := []\<rparr>) w =
      cli_Connect net (tg_host g) (tg_port g) (tg_user g) (tg_pass g) new_cli w"
    by (simp add: cli_Connect_plain [symmetric] new_cli_def)
  obtain c where c: "cli_Connect net (tg_host g) (tg_port g) (tg_user g) (tg_pass g) new_cli w = (Some c, w')"
    and down: "\<not> tg_to_remote g \<Longrightarrow> run_download ar (sa_cc a) (tg_remote g) (tg_local g) l r = (e, l') \<and> r' = r"
    and up: "tg_to_remote g \<Longrightarrow> run_upload ar a (tg_local g) (tg_remote g) l r = (e, r') \<and> l' = l"
    using run good by (auto simp: scp_Run_def target args(1) conn split: prod.splits option.splits if_splits)
  show ?thesis
  proof (cases "tg_to_remote g")
    case True
    with good obtain p q where e: "e = Pooled p q" by blast
    from True up have u: "run_upload ar a (tg_local g) (tg_remote g) l r = (e, r')" "l' = l" by simp_all
    note pool = older_pooled_upload [OF u(1) [unfolded e]]
    with args(2) have "sa_conf_file a = []" by auto
    with True u(2) pool older_run_upload [OF u(1)] c show ?thesis by (simp add: cli cli_transfer_def)
  next
    case False
    with down good have d: "run_download ar (sa_cc a) (tg_remote g) (tg_local g) l r = (e, l')" "r' = r" by simp_all
    have "cli_run_download ar (sa_cc a) (tg_remote g) (tg_local g) l r = (e, l')"
      by (rule older_run_download [OF d(1)]) (use good in auto)
    moreover have "cli_run_download ar 1 (tg_remote g) (tg_local g) l r = cli_run_download ar (sa_cc a) (tg_remote g) (tg_local g) l r"
      if "sa_conf_file a \<noteq> []" using args(2) that by (simp add: cli_run_download_def)
    ultimately show ?thesis using False d(2) c by (simp add: cli cli_transfer_def)
  qed
qed

section \<open>\<^verbatim>\<open>main_2\<close>\<close>

text \<open>Any error is status 1, a wrong number of arguments only prints the usage.\<close>

definition main_2 ::
  "(host \<Rightarrow> 's store_ops) \<Rightarrow> (host \<Rightarrow> string \<Rightarrow> ltree) \<Rightarrow> (host \<Rightarrow> string \<Rightarrow> bool) \<Rightarrow> string list \<Rightarrow> (host \<Rightarrow> 's) \<Rightarrow> run_end \<times> (host \<Rightarrow> 's)" where
  "main_2 ops tree absent args W =
     (case args of
        [src, dst] \<Rightarrow> (case FileTran ops tree absent src dst W of (x, W') \<Rightarrow> (end_of 1 x, W'))
      | _ \<Rightarrow> (Finished None, W))"

section \<open>\<^verbatim>\<open>main_\<close>\<close>

record op_flag =
  opType :: string
  servAddr :: string
  localDir :: string
  idStr :: string

text \<open>Logging in to the server that an encoded address names; what follows needs the connection.\<close>

definition serv_login ::
  "(bytes \<Rightarrow> bytes \<Rightarrow> bytes) \<Rightarrow> (bytes \<Rightarrow> bytes \<Rightarrow> bytes) \<Rightarrow> ('k, 'n, 'c, 's, 'w) net \<Rightarrow> string \<Rightarrow>
   (run_end \<times> 'l \<times> 'r) \<Rightarrow> 'w \<Rightarrow> 'l \<Rightarrow> 'r \<Rightarrow> run_end \<times> 'w \<times> 'l \<times> 'r" where
  "serv_login enc dec net addr go w l r =
     (case decodeAddr enc dec addr of
        AddrFatal \<Rightarrow> (ExitStatus 1, w, l, r)
      | AddrPanic \<Rightarrow> (RunPanic, w, l, r)
      | AddrOk text \<Rightarrow>
          (case serv_parts text of
             None \<Rightarrow> (RunPanic, w, l, r)
           | Some (host, port, user, pass) \<Rightarrow>
               (case cli_Connect net host port user pass new_cli w of
                  (None, w') \<Rightarrow> (ExitStatus 1, w', l, r)
                | (Some _, w') \<Rightarrow> (case go of (e, l', r') \<Rightarrow> (e, w', l', r')))))"

text \<open>\<open>lread\<close> and \<open>rread\<close> list a directory with the times of its entries.\<close>

definition cli_send ::
  "(bytes \<Rightarrow> bytes \<Rightarrow> bytes) \<Rightarrow> (bytes \<Rightarrow> bytes \<Rightarrow> bytes) \<Rightarrow> ('k, 'n, 'c, 's, 'w) net \<Rightarrow> ('l, 'r) around \<Rightarrow>
   ('l \<Rightarrow> string \<Rightarrow> (string \<times> int) list option) \<Rightarrow> op_flag \<Rightarrow> 'w \<Rightarrow> 'l \<Rightarrow> 'r \<Rightarrow> run_end \<times> 'w \<times> 'l \<times> 'r" where
  "cli_send enc dec net ar lread opts w l r =
     (case send_plan (ar_lo ar) lread l (localDir opts) (idStr opts) of
        None \<Rightarrow> (ExitStatus 1, w, l, r)
      | Some (local, remote) \<Rightarrow>
          serv_login enc dec net (servAddr opts) (case cli_run_upload ar 1 local remote l r of (e, r') \<Rightarrow> (e, l, r')) w l r)"

definition cli_recv ::
  "(bytes \<Rightarrow> bytes \<Rightarrow> bytes) \<Rightarrow> (bytes \<Rightarrow> bytes \<Rightarrow> bytes) \<Rightarrow> ('k, 'n, 'c, 's, 'w) net \<Rightarrow> ('l, 'r) around \<Rightarrow>
   ('r \<Rightarrow> string \<Rightarrow> (string \<times> int) list option) \<Rightarrow> op_flag \<Rightarrow> 'w \<Rightarrow> 'l \<Rightarrow> 'r \<Rightarrow> run_end \<times> 'w \<times> 'l \<times> 'r" where
  "cli_recv enc dec net ar rread opts w l r =
     serv_login enc dec net (servAddr opts)
       (case recv_plan (ar_ro ar) rread r (localDir opts) (idStr opts) of
          None \<Rightarrow> (ExitStatus 1, l, r)
        | Some (remote, local) \<Rightarrow> (case cli_run_download ar 1 remote local l r of (e, l') \<Rightarrow> (e, l', r))) w l r"

text \<open>\<^verbatim>\<open>enc\<close> prints the address encoded (or decoded); an operation of another name does nothing.\<close>

definition cli_main_ops ::
  "(bytes \<Rightarrow> bytes \<Rightarrow> bytes) \<Rightarrow> (bytes \<Rightarrow> bytes \<Rightarrow> bytes) \<Rightarrow> ('k, 'n, 'c, 's, 'w) net \<Rightarrow> ('l, 'r) around \<Rightarrow>
   ('l \<Rightarrow> string \<Rightarrow> (string \<times> int) list option) \<Rightarrow> ('r \<Rightarrow> string \<Rightarrow> (string \<times> int) list option) \<Rightarrow>
   op_flag \<Rightarrow> 'w \<Rightarrow> 'l \<Rightarrow> 'r \<Rightarrow> run_end \<times> 'w \<times> 'l \<times> 'r" where
  "cli_main_ops enc dec net ar lread rread opts w l r =
     (if opType opts = ''enc'' then
        (case decodeAddr enc dec (servAddr opts) of
           AddrOk text \<Rightarrow> (Finished (Some text), w, l, r)
         | AddrFatal \<Rightarrow> (ExitStatus 1, w, l, r)
         | AddrPanic \<Rightarrow> (RunPanic, w, l, r))
      else if opType opts = [] \<or> servAddr opts = [] \<or> localDir opts = [] \<or> idStr opts = [] then (ExitStatus 1, w, l, r)
      else if opType opts = ''send'' then cli_send enc dec net ar lread opts w l r
      else if opType opts = ''recv'' then cli_recv enc dec net ar rread opts w l r
      else (Finished None, w, l, r))"

section \<open>\<^verbatim>\<open>parse_ssh_config\<close>\<close>

text \<open>The file that is read where none is given; the environment gives an empty text for what is not set.\<close>

definition ssh_conf_file :: "(string \<Rightarrow> string) \<Rightarrow> string \<Rightarrow> string" where
  "ssh_conf_file env conf =
     (if conf \<noteq> [] then conf
      else if env ''HOME'' \<noteq> [] then env ''HOME'' @ ''/.ssh/config''
      else if env ''USERPROFILE'' \<noteq> [] then env ''USERPROFILE'' @ [CHR 0x5C] @ ''.ssh'' @ [CHR 0x5C] @ ''config''
      else [])"

text \<open>The names of the hosts, which it prints; \<open>None\<close>: the file is not there. The name to look for is not
  used, and neither the user nor the host is set.\<close>

definition parse_ssh_config ::
  "nat \<Rightarrow> file_system \<Rightarrow> (string \<Rightarrow> bool) \<Rightarrow> (string \<Rightarrow> string) \<Rightarrow> string \<Rightarrow> string \<Rightarrow> string list list parse_result option" where
  "parse_ssh_config depth fs exists env conf segname =
     (if \<not> exists (ssh_conf_file env conf) then None
      else Some (case ssh_Parse depth fs (ssh_conf_file env conf) of
                   PDone hosts \<Rightarrow> PDone (map sh_Host hosts)
                 | PErr e \<Rightarrow> PErr e | PBlocked \<Rightarrow> PBlocked | PDeep \<Rightarrow> PDeep))"

section \<open>Encoded addresses\<close>

lemma SplitN_field:
  "CHR '':'' \<notin> set x \<Longrightarrow> go_SplitN (Suc (Suc n)) (x @ CHR '':'' # t) '':'' = x # go_SplitN (Suc n) t '':''"
  using go_Index_char_append [of "CHR '':''" x t] by simp

lemma serv_parts_text:
  assumes "CHR '':'' \<notin> set host" "CHR '':'' \<notin> set port" "CHR '':'' \<notin> set user"
  shows "serv_parts (host @ CHR '':'' # port @ CHR '':'' # user @ CHR '':'' # pass) = Some (host, Atoi_value port, user, pass)"
proof -
  have 4: "(4::nat) = Suc (Suc (Suc (Suc 0)))" by simp
  show ?thesis using assms by (simp add: serv_parts_def 4 SplitN_field del: go_SplitN.simps) simp
qed

text \<open>C39: what \<^verbatim>\<open>-op enc\<close> prints for \<open>host:port:user:password\<close> is what \<^verbatim>\<open>-op send\<close> takes as the server: it logs in
  there as that user and uploads the newest file or directory to the place of the identifier.\<close>

theorem encoded_server:
  assumes "block_cipher (enc addr_key) (dec addr_key)"
    and "CHR '':'' \<notin> set host" "CHR '':'' \<notin> set port" "CHR '':'' \<notin> set user"
    and "servAddr o1 = host @ CHR '':'' # port @ CHR '':'' # user @ CHR '':'' # pass" "opType o1 = ''enc''"
    and "localDir o2 \<noteq> []" "idStr o2 \<noteq> []"
  shows "\<exists>text. cli_main_ops enc dec net ar lread rread o1 w l r = (Finished (Some text), w, l, r) \<and>
    cli_main_ops enc dec net ar lread rread (o2\<lparr>opType := ''send'', servAddr := text\<rparr>) w l r =
      (case send_plan (ar_lo ar) lread l (localDir o2) (idStr o2) of
         None \<Rightarrow> (ExitStatus 1, w, l, r)
       | Some (local, remote) \<Rightarrow>
           (case cli_Connect net host (Atoi_value port) user pass new_cli w of
              (None, w') \<Rightarrow> (ExitStatus 1, w', l, r)
            | (Some _, w') \<Rightarrow> (case cli_run_upload ar 1 local remote l r of (e, r') \<Rightarrow> (e, w', l, r'))))"
proof -
  have "CHR '':'' \<in> set (servAddr o1)" using assms(5) by simp
  from addr_roundtrip [of enc dec, OF assms(1) this] obtain enc_text where
    tx: "decodeAddr enc dec (servAddr o1) = AddrOk enc_text" "decodeAddr enc dec enc_text = AddrOk (servAddr o1)" by blast
  have "enc_text \<noteq> []" using tx(2) decodeAddr_panics(1) [of enc dec] by auto
  with tx assms(5-8) serv_parts_text [OF assms(2-4), of pass] show ?thesis
    by (intro exI [of _ enc_text]) (auto simp: cli_main_ops_def cli_send_def serv_login_def split: option.split prod.split)
qed

text \<open>A server given as it is, not encoded, is encoded instead of used, and then has no parts.\<close>

theorem plain_server_panics:
  assumes "opType opts = ''send''" "CHR '':'' \<in> set (servAddr opts)" "localDir opts \<noteq> []" "idStr opts \<noteq> []"
    and "send_plan (ar_lo ar) lread l (localDir opts) (idStr opts) = Some plan"
  shows "cli_main_ops enc dec net ar lread rread opts w l r = (RunPanic, w, l, r)"
proof -
  obtain enc_text where tx: "decodeAddr enc dec (servAddr opts) = AddrOk enc_text" "CHR '':'' \<notin> set enc_text"
    using decodeAddr_plain [OF assms(2)] by blast
  then have "serv_parts enc_text = None" by (simp add: serv_parts_def eval_nat_numeral go_Index_char_None [THEN iffD2])
  with tx assms show ?thesis by (cases plan) (auto simp: cli_main_ops_def cli_send_def serv_login_def)
qed

section \<open>Samples\<close>

theorem encoded_server_witness:
  "\<exists>text. cli_main_ops (\<lambda>k b. xor_block b (take 16 k)) (\<lambda>k b. xor_block b (take 16 k)) sample_net sample_around
        (\<lambda>_ _. Some [(''m1'', 3), (''m2'', 5)]) (\<lambda>_ _. None)
        \<lparr>opType = ''enc'', servAddr = ''h:22:u:p'', localDir = [], idStr = []\<rparr> [] [''/w'' \<mapsto> None, ''/w/m2'' \<mapsto> Some [1]] Map.empty =
      (Finished (Some text), [], [''/w'' \<mapsto> None, ''/w/m2'' \<mapsto> Some [1]], Map.empty) \<and>
    cli_main_ops (\<lambda>k b. xor_block b (take 16 k)) (\<lambda>k b. xor_block b (take 16 k)) sample_net sample_around
        (\<lambda>_ _. Some [(''m1'', 3), (''m2'', 5)]) (\<lambda>_ _. None)
        \<lparr>opType = ''send'', servAddr = text, localDir = ''/w'', idStr = ''job''\<rparr> [] [''/w'' \<mapsto> None, ''/w/m2'' \<mapsto> Some [1]] Map.empty =
      (Finished None, [''h:22''], [''/w'' \<mapsto> None, ''/w/m2'' \<mapsto> Some [1]], [''/models/job'' \<mapsto> Some [1]])"
proof -
  let ?x = "\<lambda>k b. xor_block b (take 16 k)" and ?l = "[''/w'' \<mapsto> None, ''/w/m2'' \<mapsto> Some [1 :: byte]]"
  let ?rd = "\<lambda>_ _. Some [(''m1'', 3), (''m2'', 5 :: int)]"
  have "length (take 16 addr_key) = 16" by (simp add: addr_key_def str_bytes_def)
  then have b: "block_cipher (?x addr_key) (?x addr_key)" by (simp add: block_cipher_def xor_block_twice)
  have plan: "send_plan (ar_lo sample_around) ?rd ?l ''/w'' ''job'' = Some (''/w/m2'', ''/models/job'')"
    by (simp add: send_plan_def findNewestFile_def sample_around_def path_store_def models_dir_def)
  have addr: "dial_addr ''h'' 22 = ''h:22''" "Atoi_value ''22'' = 22" by code_simp+
  have conn: "\<exists>c. cli_Connect sample_net ''h'' 22 ''u'' ''p'' new_cli [] = (Some c, [''h:22''])"
    by (simp add: cli_Connect_def login_def sample_net_def addr(1))
  have up: "cli_run_upload sample_around 1 ''/w/m2'' ''/models/job'' ?l Map.empty = (Finished None, [''/models/job'' \<mapsto> Some [1]])"
    by (simp add: cli_run_upload_def cli_UploadDir_def cli_Upload_def make_parent_def sample_around_def path_store_def end_of_def Let_def)
  have send: "(case send_plan (ar_lo sample_around) ?rd ?l ''/w'' ''job'' of
         None \<Rightarrow> (ExitStatus 1, [], ?l, Map.empty)
       | Some (local, remote) \<Rightarrow>
           (case cli_Connect sample_net ''h'' (Atoi_value ''22'') ''u'' ''p'' new_cli [] of
              (None, w') \<Rightarrow> (ExitStatus 1, w', ?l, Map.empty)
            | (Some _, w') \<Rightarrow> (case cli_run_upload sample_around 1 local remote ?l Map.empty of (e, r') \<Rightarrow> (e, w', ?l, r')))) =
      (Finished None, [''h:22''], ?l, [''/models/job'' \<mapsto> Some [1]])"
    using conn by (auto simp: plan addr(2) up)
  show ?thesis
    using encoded_server [of ?x ?x "''h''" "''22''" "''u''" "\<lparr>opType = ''enc'', servAddr = ''h:22:u:p'', localDir = [], idStr = []\<rparr>" "''p''"
      "\<lparr>opType = [], servAddr = [], localDir = ''/w'', idStr = ''job''\<rparr>" sample_net sample_around ?rd "\<lambda>_ _. None" "[]" ?l Map.empty, OF b]
      send by simp
qed

text \<open>Both commands download a file.\<close>

theorem older_command_agrees_witness:
  "\<exists>a l'. sa_args a = [''me@h:/w/a'', ''/d/a''] \<and>
     cli_Run 0 no_files sample_net sample_around a [] Map.empty sample_files = (Finished None, [''h:2022''], l', sample_files) \<and>
     l' = [''/d/a'' \<mapsto> the (sample_files ''/w/a'')]"
proof -
  define a where "a = (sample_args [''me@h:/w/a'', ''/d/a''])\<lparr>sa_s5 := []\<rparr>"
  define g where "g = \<lparr>tg_host = ''h'', tg_port = 2022, tg_user = ''me'', tg_pass = ''pw'', tg_to_remote = False, tg_local = ''/d/a'', tg_remote = ''/w/a''\<rparr>"
  have t: "scp_connect 0 no_files a = Chosen g" unfolding a_def g_def by code_simp
  have a: "sa_s5 a = []" "sa_conf_file a = []" "sa_cc a = 1" by (simp_all add: a_def sample_args_def)
  have "dial_addr ''h'' 2022 = ''h:2022''" by code_simp
  then have c: "\<exists>c. scp_Connect sample_net ''h'' 2022 ''me'' ''pw'' (new_cli\<lparr>cl_socks5 := []\<rparr>) [] = (Some c, [''h:2022''])"
    by (simp add: scp_Connect_def login_def sample_net_def new_cli_def)
  have d: "run_download sample_around 1 ''/w/a'' ''/d/a'' Map.empty sample_files = (Finished None, [''/d/a'' \<mapsto> the (sample_files ''/w/a'')])"
    by (simp add: run_download_def DownloadDir_def Download_def make_parent_def is_plain_file_def sample_around_def path_store_def
      sample_files_def end_of_def Let_def)
  have run: "scp_Run 0 no_files sample_net sample_around a [] Map.empty sample_files =
      (Finished None, [''h:2022''], [''/d/a'' \<mapsto> the (sample_files ''/w/a'')], sample_files)"
    using c d by (auto simp: scp_Run_def t g_def a)
  have "cli_Run 0 no_files sample_net sample_around a [] Map.empty sample_files =
      (Finished None, [''h:2022''], [''/d/a'' \<mapsto> the (sample_files ''/w/a'')], sample_files)"
    by (rule older_command_agrees [OF a(1) _ t run]) (simp_all add: a g_def)
  then show ?thesis by (intro exI [of _ a]) (simp add: a_def sample_args_def)
qed

end
