(* ===== verification/Ws_Forward.thy ===== *)
theory Ws_Forward
  imports Tunnel_Alive Tunnel_Config "HOL-Library.Sublist"
begin

text \<open>
  One connection of \<^verbatim>\<open>ws/ssh_tunnel.go\<close> in detail: the bytes of a forwarded connection (\<^verbatim>\<open>dialTunnel\<close>), the
  goroutines of the keep-alive monitor and what they add to the wait group (\<^verbatim>\<open>keepAliveMonitor\<close>), and the
  tunnel that the command line makes (\<^verbatim>\<open>WSTunnel_M\<close>). Both machines refine those of \<^verbatim>\<open>Tunnel_Alive\<close>.
\<close>

section \<open>A forwarded connection and its bytes\<close>

text \<open>One end: what has arrived there, how much of it has been read, whether its peer has stopped sending,
  what has been written to it, and whether it is still open.\<close>

record conn_end =
  ce_open :: bool
  ce_arrived :: bytes
  ce_read :: nat
  ce_fin :: bool
  ce_written :: bytes

definition new_end :: conn_end where
  "new_end = \<lparr>ce_open = True, ce_arrived = [], ce_read = 0, ce_fin = False, ce_written = []\<rparr>"

record link =
  lk_phase :: conn_phase
  lk_cancelled :: bool
  lk_cn1 :: conn_end
  lk_cn2 :: "conn_end option"
  lk_copy21 :: bool
  lk_copy12 :: bool

definition link_start :: link where
  "link_start = \<lparr>lk_phase = CDialling, lk_cancelled = False, lk_cn1 = new_end, lk_cn2 = None, lk_copy21 = False, lk_copy12 = False\<rparr>"

text \<open>
  Bytes arrive or the peer stops sending; the dialling ends; a copying reads some bytes at one end and
  writes them to the other, sees the end of what it reads, or has an error; the goroutines of the context
  close the ends.
\<close>

datatype link_event =
  Arrive1 bytes | Arrive2 bytes | Fin1 | Fin2 | LParent | LDialOk | LDialErr |
  Move12 nat | Move21 nat | End12 | End21 | Fail12 | Fail21 | LClose1 | LClose2

definition arrive :: "bytes \<Rightarrow> conn_end \<Rightarrow> conn_end option" where
  "arrive b c = (if ce_fin c then None else Some (c\<lparr>ce_arrived := ce_arrived c @ b\<rparr>))"

text \<open>One turn of \<^verbatim>\<open>io.Copy\<close>, from the first end to the second.\<close>

definition move :: "nat \<Rightarrow> conn_end \<Rightarrow> conn_end \<Rightarrow> (conn_end \<times> conn_end) option" where
  "move n c d =
     (if ce_open c \<and> ce_open d \<and> 0 < n \<and> ce_read c + n \<le> length (ce_arrived c)
      then Some (c\<lparr>ce_read := ce_read c + n\<rparr>, d\<lparr>ce_written := ce_written d @ take n (drop (ce_read c) (ce_arrived c))\<rparr>)
      else None)"

definition at_end :: "conn_end \<Rightarrow> bool" where
  "at_end c \<longleftrightarrow> ce_open c \<and> ce_fin c \<and> ce_read c = length (ce_arrived c)"

definition links_done :: "link \<Rightarrow> link" where
  "links_done s = (if \<not> lk_copy21 s \<and> \<not> lk_copy12 s then s\<lparr>lk_phase := CReturned\<rparr> else s)"

text \<open>A copying ends: \<^verbatim>\<open>defer cancel()\<close>.\<close>

definition end12 :: "link \<Rightarrow> link" where
  "end12 s = links_done (s\<lparr>lk_copy12 := False, lk_cancelled := True\<rparr>)"

definition end21 :: "link \<Rightarrow> link" where
  "end21 s = links_done (s\<lparr>lk_copy21 := False, lk_cancelled := True\<rparr>)"

fun link_step :: "link_event \<Rightarrow> link \<Rightarrow> link option" where
  "link_step (Arrive1 b) s = map_option (\<lambda>c. s\<lparr>lk_cn1 := c\<rparr>) (arrive b (lk_cn1 s))"
| "link_step (Arrive2 b) s =
     (case lk_cn2 s of None \<Rightarrow> None | Some c \<Rightarrow> map_option (\<lambda>c'. s\<lparr>lk_cn2 := Some c'\<rparr>) (arrive b c))"
| "link_step Fin1 s = Some (s\<lparr>lk_cn1 := (lk_cn1 s)\<lparr>ce_fin := True\<rparr>\<rparr>)"
| "link_step Fin2 s = map_option (\<lambda>c. s\<lparr>lk_cn2 := Some (c\<lparr>ce_fin := True\<rparr>)\<rparr>) (lk_cn2 s)"
| "link_step LParent s = Some (s\<lparr>lk_cancelled := True\<rparr>)"
| "link_step LDialOk s =
     (if lk_phase s = CDialling
      then Some (s\<lparr>lk_phase := CCopying, lk_cn2 := Some new_end, lk_copy21 := True, lk_copy12 := True\<rparr>) else None)"
| "link_step LDialErr s =
     (if lk_phase s = CDialling then Some (s\<lparr>lk_phase := CReturned, lk_cancelled := True\<rparr>) else None)"
| "link_step (Move12 n) s =
     (case lk_cn2 s of
        None \<Rightarrow> None
      | Some c2 \<Rightarrow>
          if lk_copy12 s then map_option (\<lambda>(c, d). s\<lparr>lk_cn1 := c, lk_cn2 := Some d\<rparr>) (move n (lk_cn1 s) c2) else None)"
| "link_step (Move21 n) s =
     (case lk_cn2 s of
        None \<Rightarrow> None
      | Some c2 \<Rightarrow>
          if lk_copy21 s then map_option (\<lambda>(c, d). s\<lparr>lk_cn1 := d, lk_cn2 := Some c\<rparr>) (move n c2 (lk_cn1 s)) else None)"
| "link_step End12 s = (if lk_copy12 s \<and> at_end (lk_cn1 s) then Some (end12 s) else None)"
| "link_step End21 s =
     (if lk_copy21 s \<and> (case lk_cn2 s of None \<Rightarrow> False | Some c \<Rightarrow> at_end c) then Some (end21 s) else None)"
| "link_step Fail12 s = (if lk_copy12 s then Some (end12 s) else None)"
| "link_step Fail21 s = (if lk_copy21 s then Some (end21 s) else None)"
| "link_step LClose1 s =
     (if lk_cancelled s \<and> ce_open (lk_cn1 s) then Some (s\<lparr>lk_cn1 := (lk_cn1 s)\<lparr>ce_open := False\<rparr>\<rparr>) else None)"
| "link_step LClose2 s =
     (case lk_cn2 s of
        None \<Rightarrow> None
      | Some c \<Rightarrow> if lk_cancelled s \<and> ce_open c then Some (s\<lparr>lk_cn2 := Some (c\<lparr>ce_open := False\<rparr>)\<rparr>) else None)"

text \<open>What of it the coarse machine sees.\<close>

definition link_abs :: "link \<Rightarrow> forwarded" where
  "link_abs s = \<lparr>fc_phase = lk_phase s, fc_cancelled = lk_cancelled s, fc_in = ce_open (lk_cn1 s),
     fc_out = map_option ce_open (lk_cn2 s), fc_copy_in = lk_copy21 s, fc_copy_out = lk_copy12 s\<rparr>"

fun link_ev :: "link_event \<Rightarrow> conn_event option" where
  "link_ev LParent = Some ParentDone" | "link_ev LDialOk = Some DialledOk" | "link_ev LDialErr = Some DialledErr"
| "link_ev End12 = Some CopyOutEnd" | "link_ev Fail12 = Some CopyOutEnd" | "link_ev End21 = Some CopyInEnd"
| "link_ev Fail21 = Some CopyInEnd" | "link_ev LClose1 = Some CloseIn" | "link_ev LClose2 = Some CloseOut" | "link_ev _ = None"

lemmas link_defs = link_abs_def arrive_def move_def at_end_def end12_def end21_def links_done_def copies_done_def new_end_def

interpretation link: machine_refines link_step forwarded_step link_abs link_ev
proof
  fix e s s' assume "link_step e s = Some s'"
  then show "case link_ev e of None \<Rightarrow> link_abs s' = link_abs s | Some a \<Rightarrow> forwarded_step a (link_abs s) = Some (link_abs s')"
    by (cases e) (auto simp: link_defs split: if_splits option.splits)
qed

section \<open>What is delivered\<close>

text \<open>What has been written at one end is what has been read at the other.\<close>

definition carried :: "conn_end \<Rightarrow> conn_end \<Rightarrow> bool" where
  "carried c d \<longleftrightarrow> ce_read c \<le> length (ce_arrived c) \<and> ce_written d = take (ce_read c) (ce_arrived c)"

lemma carried_new [simp]: "ce_read c = 0 \<Longrightarrow> carried c new_end"
  by (simp add: carried_def new_end_def)

lemma carried_arrive: "carried c d \<Longrightarrow> arrive b c = Some c' \<Longrightarrow> carried c' d"
  by (auto simp: carried_def arrive_def split: if_splits)

lemma carried_arrive': "carried d c \<Longrightarrow> arrive b c = Some c' \<Longrightarrow> carried d c'"
  by (auto simp: carried_def arrive_def split: if_splits)

lemma carried_move: "carried c d \<Longrightarrow> move n c d = Some (c', d') \<Longrightarrow> carried c' d'"
  by (auto simp: carried_def move_def take_add split: if_splits)

lemma carried_move': "carried d c \<Longrightarrow> move n c d = Some (c', d') \<Longrightarrow> carried d' c'"
  by (auto simp: carried_def move_def split: if_splits)

lemma carried_flags [simp]:
  "carried (c\<lparr>ce_fin := b\<rparr>) d = carried c d" "carried c (d\<lparr>ce_fin := b\<rparr>) = carried c d"
  "carried (c\<lparr>ce_open := b\<rparr>) d = carried c d" "carried c (d\<lparr>ce_open := b\<rparr>) = carried c d"
  by (simp_all add: carried_def)

definition link_inv :: "link \<Rightarrow> bool" where
  "link_inv s \<longleftrightarrow>
     (case lk_cn2 s of
        None \<Rightarrow> ce_read (lk_cn1 s) = 0 \<and> ce_written (lk_cn1 s) = [] \<and> \<not> lk_copy12 s \<and> \<not> lk_copy21 s
      | Some c \<Rightarrow> carried (lk_cn1 s) c \<and> carried c (lk_cn1 s))"

lemma link_dialling:
  "link_step e s = Some s' \<Longrightarrow> lk_phase s = CDialling \<longrightarrow> lk_cn2 s = None \<Longrightarrow> lk_phase s' = CDialling \<longrightarrow> lk_cn2 s' = None"
  by (cases e) (auto simp: end12_def end21_def links_done_def split: if_splits option.splits)

lemma link_step_inv:
  assumes "link_step e s = Some s'" "link_inv s" "lk_phase s = CDialling \<longrightarrow> lk_cn2 s = None" shows "link_inv s'"
proof -
  have new: "ce_read c = 0 \<Longrightarrow> ce_written c = [] \<Longrightarrow> carried c new_end \<and> carried new_end c" for c
    by (simp add: carried_def new_end_def)
  have phase: "lk_cn2 (links_done t) = lk_cn2 t" "lk_cn1 (links_done t) = lk_cn1 t" "lk_copy12 (links_done t) = lk_copy12 t"
    "lk_copy21 (links_done t) = lk_copy21 t" for t by (simp_all add: links_done_def)
  show ?thesis
  proof (cases e)
    case (Move12 n)
    with assms show ?thesis
      by (auto simp: link_inv_def split: option.splits if_splits intro: carried_move carried_move')
  next
    case (Move21 n)
    with assms show ?thesis
      by (auto simp: link_inv_def split: option.splits if_splits intro: carried_move carried_move')
  next
    case (Arrive1 b)
    with assms show ?thesis
      by (auto simp: link_inv_def arrive_def carried_def split: option.splits if_splits)
  next
    case (Arrive2 b)
    with assms show ?thesis
      by (auto simp: link_inv_def arrive_def carried_def split: option.splits if_splits)
  next
    case LDialOk
    with assms show ?thesis
      by (cases "lk_cn2 s") (auto simp: link_inv_def new split: if_splits)
  qed (use assms in \<open>auto simp: link_inv_def end12_def end21_def phase split: option.splits if_splits\<close>)
qed

text \<open>A copying that has had no error has ended because it has carried everything.\<close>

definition ended_all :: "link \<Rightarrow> bool" where
  "ended_all s \<longleftrightarrow> (lk_cn2 s \<noteq> None \<and> \<not> lk_copy12 s \<longrightarrow> ce_fin (lk_cn1 s) \<and> ce_read (lk_cn1 s) = length (ce_arrived (lk_cn1 s)))"

definition ended_all2 :: "link \<Rightarrow> bool" where
  "ended_all2 s \<longleftrightarrow> (\<forall>c. lk_cn2 s = Some c \<and> \<not> lk_copy21 s \<longrightarrow> ce_fin c \<and> ce_read c = length (ce_arrived c))"

lemma ended_step: "link_step e s = Some s' \<Longrightarrow> e \<noteq> Fail12 \<Longrightarrow> ended_all s \<Longrightarrow> ended_all s'"
  by (cases e) (auto simp: ended_all_def link_defs split: if_splits option.splits)

lemma ended_step2: "link_step e s = Some s' \<Longrightarrow> e \<noteq> Fail21 \<Longrightarrow> ended_all2 s \<Longrightarrow> ended_all2 s'"
  by (cases e) (auto simp: ended_all2_def link_defs split: if_splits option.splits)

lemma run_steps_keeps:
  assumes "\<And>e s s'. step e s = Some s' \<Longrightarrow> P e \<Longrightarrow> I s \<Longrightarrow> I s'"
  shows "run_steps step es s = Some s' \<Longrightarrow> \<forall>e\<in>set es. P e \<Longrightarrow> I s \<Longrightarrow> I s'"
  by (induction es arbitrary: s) (auto split: option.splits intro: assms)

lemma ended_run: "run_steps link_step es s = Some s' \<Longrightarrow> Fail12 \<notin> set es \<Longrightarrow> ended_all s \<Longrightarrow> ended_all s'"
  by (induction es arbitrary: s) (auto split: option.splits simp del: link_step.simps intro: ended_step)

lemma ended_run2: "run_steps link_step es s = Some s' \<Longrightarrow> Fail21 \<notin> set es \<Longrightarrow> ended_all2 s \<Longrightarrow> ended_all2 s'"
  by (induction es arbitrary: s) (auto split: option.splits simp del: link_step.simps intro: ended_step2)

lemma run_steps_do:
  "run_steps step es s = Some s' \<Longrightarrow> foldl (\<lambda>s e. case step e s of None \<Rightarrow> s | Some s' \<Rightarrow> s') s es = s'"
  by (induction es arbitrary: s) (auto split: option.splits)

lemma link_closes:
  assumes "run_steps link_step es link_start = Some s"
  shows "(lk_phase s = CReturned \<longrightarrow>
      (\<not> ce_open (lk_cn1 s) \<or> link_step LClose1 s \<noteq> None) \<and> (\<forall>c. lk_cn2 s = Some c \<longrightarrow> \<not> ce_open c \<or> link_step LClose2 s \<noteq> None)) \<and>
    (\<not> lk_cancelled s \<longrightarrow> ce_open (lk_cn1 s) \<and> (\<forall>c. lk_cn2 s = Some c \<longrightarrow> ce_open c))"
proof -
  have "link_abs link_start = forwarded_start" by (simp add: link_defs link_start_def forwarded_start_def)
  with link.run_refines [OF assms] have "run_steps forwarded_step (seen link_ev es) forwarded_start = Some (link_abs s)" by simp
  then have "link_abs s = foldl forwarded_do forwarded_start (seen link_ev es)"
    using run_steps_do [of forwarded_step] by (simp add: forwarded_do_def [abs_def])
  from forwarded_closes [OF this] show ?thesis by (auto simp: link_abs_def split: if_splits)
qed

text \<open>C29: at any time what a forwarded connection has written at either end is a prefix of what has arrived at
  the other, in order; a direction that ends without an error has carried everything; as long as nothing has
  ended both ends are open, and when the function has returned each is closed or its closing is due.\<close>

theorem link_delivers:
  assumes "run_steps link_step es link_start = Some s" "lk_cn2 s = Some c2"
  shows "prefix (ce_written c2) (ce_arrived (lk_cn1 s)) \<and> prefix (ce_written (lk_cn1 s)) (ce_arrived c2) \<and>
    (Fail12 \<notin> set es \<and> \<not> lk_copy12 s \<longrightarrow> ce_written c2 = ce_arrived (lk_cn1 s)) \<and>
    (Fail21 \<notin> set es \<and> \<not> lk_copy21 s \<longrightarrow> ce_written (lk_cn1 s) = ce_arrived c2) \<and>
    (\<not> lk_cancelled s \<longrightarrow> ce_open (lk_cn1 s) \<and> ce_open c2) \<and>
    (lk_phase s = CReturned \<longrightarrow> (\<not> ce_open (lk_cn1 s) \<or> link_step LClose1 s \<noteq> None) \<and> (\<not> ce_open c2 \<or> link_step LClose2 s \<noteq> None))"
proof -
  have "link_inv s \<and> (lk_phase s = CDialling \<longrightarrow> lk_cn2 s = None)"
  proof (rule run_steps_keeps [OF _ assms(1), of "\<lambda>_. True"])
    fix e s s' assume "link_step e s = Some s'" "link_inv s \<and> (lk_phase s = CDialling \<longrightarrow> lk_cn2 s = None)"
    then show "link_inv s' \<and> (lk_phase s' = CDialling \<longrightarrow> lk_cn2 s' = None)"
      using link_step_inv [of e s s'] link_dialling [of e s s'] by blast
  qed (simp_all add: link_inv_def link_start_def new_end_def)
  then have c: "carried (lk_cn1 s) c2" "carried c2 (lk_cn1 s)" by (simp_all add: link_inv_def assms(2))
  have "ended_all s" if "Fail12 \<notin> set es"
    by (rule ended_run [OF assms(1) that]) (simp add: ended_all_def link_start_def)
  moreover have "ended_all2 s" if "Fail21 \<notin> set es"
    by (rule ended_run2 [OF assms(1) that]) (simp add: ended_all2_def link_start_def)
  ultimately have "Fail12 \<notin> set es \<and> \<not> lk_copy12 s \<longrightarrow> ce_written c2 = ce_arrived (lk_cn1 s)"
    "Fail21 \<notin> set es \<and> \<not> lk_copy21 s \<longrightarrow> ce_written (lk_cn1 s) = ce_arrived c2"
    using c assms(2) unfolding carried_def ended_all_def ended_all2_def by simp_all
  moreover have "prefix (ce_written c2) (ce_arrived (lk_cn1 s))" "prefix (ce_written (lk_cn1 s)) (ce_arrived c2)"
    using c by (simp_all add: carried_def take_is_prefix)
  ultimately show ?thesis using link_closes [OF assms(1)] assms(2) by (simp del: link_step.simps)
qed

text \<open>A connection whose one direction has ended is closed as a whole: where the first end stops sending (as a
  client that has sent its request may), what is answered afterwards is not delivered.\<close>

definition half_closed :: "link_event list" where
  "half_closed = [LDialOk, Arrive1 [1], Move12 1, Fin1, End12, Arrive2 [2], LClose1, LClose2, Fail21]"

theorem half_close_loses:
  "map_option (\<lambda>s. (lk_phase s, map_option ce_arrived (lk_cn2 s), ce_written (lk_cn1 s))) (run_steps link_step half_closed link_start) =
   Some (CReturned, Some [2], [])"
  by code_simp

theorem link_delivers_witness:
  "\<exists>s c2. run_steps link_step [LDialOk, Arrive1 [1, 2], Move12 1, Arrive2 [3], Move21 1, Fin1, Move12 1, End12] link_start = Some s \<and>
     lk_cn2 s = Some c2 \<and> ce_written c2 = [1, 2] \<and> prefix (ce_written (lk_cn1 s)) (ce_arrived c2)"
proof -
  let ?es = "[LDialOk, Arrive1 [1, 2], Move12 1, Arrive2 [3], Move21 1, Fin1, Move12 1, End12]"
  have "map_option (\<lambda>s. (lk_copy12 s, ce_arrived (lk_cn1 s), lk_cn2 s \<noteq> None)) (run_steps link_step ?es link_start) = Some (False, [1, 2], True)"
    by code_simp
  then obtain s c2 where s: "run_steps link_step ?es link_start = Some s" "lk_cn2 s = Some c2" "\<not> lk_copy12 s" "ce_arrived (lk_cn1 s) = [1, 2]"
    by (auto split: option.splits)
  from link_delivers [OF s(1,2)] s show ?thesis by auto
qed

section \<open>The keep-alive monitor and its goroutines\<close>

text \<open>
  Beside the monitor a goroutine waits for the end of the connection and one for the answer to each request.
  \<open>wm_group\<close> is what they have added to the wait group; the channel \<^verbatim>\<open>wait\<close> holds one value.
\<close>

record ws_monitor =
  wm_aliveCount :: "32 word"
  wm_running :: bool
  wm_waiter :: bool
  wm_waited :: bool
  wm_pending :: nat
  wm_closed :: bool
  wm_gone :: bool
  wm_group :: int

definition wm_add :: "int \<Rightarrow> ws_monitor \<Rightarrow> ws_monitor" where
  "wm_add n m = m\<lparr>wm_group := wm_group m + n\<rparr>"

text \<open>The monitor's own \<^verbatim>\<open>wg.Add\<close> is that of \<^verbatim>\<open>bindTunnel\<close>.\<close>

definition ws_mon_start :: "alive_conf \<Rightarrow> ws_monitor" where
  "ws_mon_start k =
     (let on = \<not> (ka_Interval k = 0 \<or> ka_CountMax k = 0)
      in \<lparr>wm_aliveCount = 0, wm_running = on, wm_waiter = on, wm_waited = False, wm_pending = 0, wm_closed = False, wm_gone = False,
          wm_group = (if on then 2 else 0)\<rparr>)"

datatype mon_event = ConnLost | WaitReturns | TakeWait | TickerC | Answered | NotAnswered

fun ws_mon_step :: "alive_conf \<Rightarrow> mon_event \<Rightarrow> ws_monitor \<Rightarrow> ws_monitor option" where
  "ws_mon_step k ConnLost m = Some (m\<lparr>wm_gone := True\<rparr>)"
| "ws_mon_step k WaitReturns m =
     (if wm_waiter m \<and> (wm_gone m \<or> wm_closed m) then Some (wm_add (- 1) (m\<lparr>wm_waiter := False, wm_waited := True\<rparr>)) else None)"
| "ws_mon_step k TakeWait m =
     (if wm_running m \<and> wm_waited m then Some (wm_add (- 1) (m\<lparr>wm_running := False, wm_waited := False\<rparr>)) else None)"
| "ws_mon_step k TickerC m =
     (if \<not> wm_running m then None
      else let n = wm_aliveCount m + 1
        in if sint (ucast (ka_CountMax k) :: 32 word) < sint n
           then Some (wm_add (- 1) (m\<lparr>wm_aliveCount := n, wm_closed := True, wm_running := False\<rparr>))
           else Some (wm_add 1 (m\<lparr>wm_aliveCount := n, wm_pending := Suc (wm_pending m)\<rparr>)))"
| "ws_mon_step k Answered m =
     (case wm_pending m of 0 \<Rightarrow> None | Suc n \<Rightarrow> Some (wm_add (- 1) (m\<lparr>wm_aliveCount := 0, wm_pending := n\<rparr>)))"
| "ws_mon_step k NotAnswered m =
     (case wm_pending m of 0 \<Rightarrow> None | Suc n \<Rightarrow> Some (wm_add (- 1) (m\<lparr>wm_pending := n\<rparr>)))"

definition mon_abs :: "ws_monitor \<Rightarrow> monitor" where
  "mon_abs m = \<lparr>mo_aliveCount = wm_aliveCount m, mo_closed = wm_closed m, mo_ended = (\<not> wm_running m)\<rparr>"

fun mon_ev :: "mon_event \<Rightarrow> monitor_event option" where
  "mon_ev TakeWait = Some Gone" | "mon_ev TickerC = Some Tick" | "mon_ev Answered = Some ReplyOk"
| "mon_ev NotAnswered = Some ReplyErr" | "mon_ev _ = None"

interpretation ws_mon: machine_refines "ws_mon_step k" "\<lambda>e m. Some (monitor_step k m e)" mon_abs mon_ev for k
proof
  fix e s s' assume "ws_mon_step k e s = Some s'"
  then show "case mon_ev e of None \<Rightarrow> mon_abs s' = mon_abs s | Some a \<Rightarrow> Some (monitor_step k (mon_abs s) a) = Some (mon_abs s')"
    by (cases e) (auto simp: mon_abs_def wm_add_def Let_def split: if_splits nat.splits)
qed

lemma run_steps_total: "run_steps (\<lambda>e m. Some (f m e)) es m = Some (foldl f m es)"
  by (induction es arbitrary: m) simp_all

definition mon_inv :: "ws_monitor \<Rightarrow> bool" where
  "mon_inv m \<longleftrightarrow> wm_group m = of_bool (wm_running m) + of_bool (wm_waiter m) + int (wm_pending m) \<and> (wm_waited m \<longrightarrow> \<not> wm_waiter m)"

lemma mon_step_inv: "ws_mon_step k e m = Some m' \<Longrightarrow> mon_inv m \<Longrightarrow> mon_inv m'"
  by (cases e) (auto simp: mon_inv_def wm_add_def Let_def split: if_splits nat.splits)

lemma mon_run_inv: "run_steps (ws_mon_step k) es m = Some m' \<Longrightarrow> mon_inv m \<Longrightarrow> mon_inv m'"
  by (induction es arbitrary: m) (auto split: option.splits simp del: ws_mon_step.simps intro: mon_step_inv)

lemma seen_gone: "Gone \<in> set (seen mon_ev es) \<Longrightarrow> TakeWait \<in> set es"
proof (induction es)
  case (Cons e es)
  then show ?case by (cases e) auto
qed simp

lemma mon_drains:
  assumes "mon_inv m" "\<not> wm_running m" "wm_gone m \<or> wm_closed m"
  shows "ws_mon_step k e m = Some m' \<Longrightarrow> wm_group m' \<le> wm_group m \<and> \<not> wm_running m' \<and> (wm_gone m' \<or> wm_closed m')"
    and "wm_group m \<noteq> 0 \<Longrightarrow> \<exists>e m'. ws_mon_step k e m = Some m' \<and> wm_group m' = wm_group m - 1"
proof -
  show "ws_mon_step k e m = Some m' \<Longrightarrow> wm_group m' \<le> wm_group m \<and> \<not> wm_running m' \<and> (wm_gone m' \<or> wm_closed m')"
    using assms by (cases e) (auto simp: wm_add_def split: if_splits nat.splits)
  assume "wm_group m \<noteq> 0"
  with assms have "wm_waiter m \<or> wm_pending m \<noteq> 0" by (auto simp: mon_inv_def)
  then show "\<exists>e m'. ws_mon_step k e m = Some m' \<and> wm_group m' = wm_group m - 1"
  proof
    assume "wm_waiter m"
    with assms show ?thesis by (intro exI [of _ WaitReturns]) (auto simp: wm_add_def)
  next
    assume "wm_pending m \<noteq> 0"
    then obtain n where "wm_pending m = Suc n" by (cases "wm_pending m") auto
    then show ?thesis by (intro exI [of _ NotAnswered]) (simp add: wm_add_def)
  qed
qed

text \<open>C30: however the goroutines of the keep-alive monitor are interleaved, as long as the connection has not been
  reported lost, it is closed exactly when more ticks than the maximal count have come since the last
  answer; the wait group never goes below what is still running; and once the monitor has closed the
  connection nothing adds to the group any more, and some goroutine can always end until it is empty.\<close>

theorem ws_keepalive_exact:
  assumes "ka_Interval k \<noteq> 0" "ka_CountMax k \<noteq> 0" "max_silence k < 2 ^ 31 - 1"
    and "run_steps (ws_mon_step k) es (ws_mon_start k) = Some m" "TakeWait \<notin> set es"
  shows "(wm_closed m \<longleftrightarrow> (\<exists>p s. seen mon_ev es = p @ s \<and> max_silence k < silent p)) \<and>
    wm_group m = of_bool (wm_running m) + of_bool (wm_waiter m) + int (wm_pending m) \<and>
    (wm_closed m \<longrightarrow> (\<forall>e m'. ws_mon_step k e m = Some m' \<longrightarrow> wm_group m' \<le> wm_group m) \<and>
       (wm_group m \<noteq> 0 \<longrightarrow> (\<exists>e m'. ws_mon_step k e m = Some m' \<and> wm_group m' = wm_group m - 1)))"
proof -
  have gone: "Gone \<notin> set (seen mon_ev es)" using assms(5) seen_gone by blast
  have start: "mon_abs (ws_mon_start k) = monitor_start k" "mon_inv (ws_mon_start k)"
    using assms(1,2) by (simp_all add: mon_abs_def ws_mon_start_def monitor_start_def mon_inv_def)
  from ws_mon.run_refines [OF assms(4)] have abst: "mon_abs m = foldl (monitor_step k) (monitor_start k) (seen mon_ev es)"
    by (simp add: start run_steps_total)
  note run = monitor_run [OF assms(1-3) gone, folded abst]
  have inv: "mon_inv m" by (rule mon_run_inv [OF assms(4) start(2)])
  have "\<not> wm_running m" if "wm_closed m" using run that by (simp add: mon_abs_def)
  with mon_drains [OF inv] have "wm_closed m \<longrightarrow> (\<forall>e m'. ws_mon_step k e m = Some m' \<longrightarrow> wm_group m' \<le> wm_group m) \<and>
      (wm_group m \<noteq> 0 \<longrightarrow> (\<exists>e m'. ws_mon_step k e m = Some m' \<and> wm_group m' = wm_group m - 1))" by blast
  moreover have "wm_closed m \<longleftrightarrow> (\<exists>p s. seen mon_ev es = p @ s \<and> max_silence k < silent p)"
    using run by (simp add: mon_abs_def)
  ultimately show ?thesis using inv by (simp add: mon_inv_def)
qed

theorem ws_keepalive_exact_witness:
  "\<exists>m. run_steps (ws_mon_step \<lparr>ka_Interval = 30, ka_CountMax = 1\<rparr>) [TickerC, TickerC] (ws_mon_start \<lparr>ka_Interval = 30, ka_CountMax = 1\<rparr>) = Some m \<and>
     wm_closed m \<and> wm_pending m = 1 \<and> wm_group m = 2"
proof -
  define k :: alive_conf where "k = \<lparr>ka_Interval = 30, ka_CountMax = 1\<rparr>"
  have "map_option (\<lambda>m. (wm_running m, wm_waiter m, wm_pending m)) (run_steps (ws_mon_step k) [TickerC, TickerC] (ws_mon_start k)) = Some (False, True, 1)"
    unfolding k_def by code_simp
  then obtain m where m: "run_steps (ws_mon_step k) [TickerC, TickerC] (ws_mon_start k) = Some m" "\<not> wm_running m" "wm_waiter m" "wm_pending m = 1"
    by auto
  have "\<exists>p s. seen mon_ev [TickerC, TickerC] = p @ s \<and> max_silence k < silent p"
    by (intro exI [of _ "[Tick, Tick]"] exI [of _ "[]"]) (simp add: k_def max_silence_def silent_def)
  moreover have "ka_Interval k \<noteq> 0" "ka_CountMax k \<noteq> 0" "max_silence k < 2 ^ 31 - 1" by (simp_all add: k_def max_silence_def)
  ultimately show ?thesis using ws_keepalive_exact [of k "[TickerC, TickerC]" m] m unfolding k_def by auto
qed

section \<open>The tunnel of the command line\<close>

datatype side = LocalSide | ServerSide

definition bind_side :: "char \<Rightarrow> side option" where
  "bind_side mode = (if mode = CHR ''>'' then Some LocalSide else if mode = CHR ''<'' then Some ServerSide else None)"

definition dial_side :: "char \<Rightarrow> side option" where
  "dial_side mode = (if mode = CHR ''>'' then Some ServerSide else if mode = CHR ''<'' then Some LocalSide else None)"

record 'k ws_tunnel =
  wt_auth :: "'k list"
  wt_user :: string
  wt_hostAddr :: string
  wt_retryInterval :: nat
  wt_keepAlive :: alive_conf
  wt_ports :: "port_map list"

fun ports_of_args :: "string list \<Rightarrow> port_map list option" where
  "ports_of_args [] = Some []"
| "ports_of_args (pp # ps) =
     (case port_of_arg pp of None \<Rightarrow> None | Some p \<Rightarrow> map_option (\<lambda>xs. p # xs) (ports_of_args ps))"

text \<open>\<open>None\<close>: a port argument that cannot be taken apart panics. The retry interval is in seconds; no keep-alive
  is set.\<close>

definition WSTunnel_M :: "'k option \<Rightarrow> string \<Rightarrow> string list \<Rightarrow> 'k ws_tunnel option" where
  "WSTunnel_M signer ws_url ports =
     (case ports_of_args ports of
        None \<Rightarrow> None
      | Some ps \<Rightarrow> Some \<lparr>wt_auth = (case signer of None \<Rightarrow> [] | Some k \<Rightarrow> [k]), wt_user = ''_base_'', wt_hostAddr = ws_url,
          wt_retryInterval = 300, wt_keepAlive = \<lparr>ka_Interval = 0, ka_CountMax = 0\<rparr>, wt_ports = ps\<rparr>)"

text \<open>How the server is reached, and in which order the ports are bound: the first one by the loop itself, after the
  goroutines of the others have been started; none at all would be a panic.\<close>

definition over_websocket :: "'k ws_tunnel \<Rightarrow> bool" where
  "over_websocket t \<longleftrightarrow> HasPrefix (wt_hostAddr t) ''ws://'' \<or> HasPrefix (wt_hostAddr t) ''wss://''"

definition bound_ports :: "'k ws_tunnel \<Rightarrow> (port_map list \<times> port_map) option" where
  "bound_ports t = (case wt_ports t of [] \<Rightarrow> None | p # ps \<Rightarrow> Some (ps, p))"

lemma WSTunnel_M_one:
  assumes "CHR '';'' \<notin> set l" "CHR '';'' \<notin> set r"
  shows "map_option bound_ports (WSTunnel_M k url [l @ '';>;'' @ r]) =
      Some (Some ([], \<lparr>pt_mode = CHR ''>'', pt_bindAddr = CHR '':'' # l, pt_dialAddr = ''localhost:'' @ r\<rparr>))"
    and "map_option bound_ports (WSTunnel_M k url [l @ '';<;'' @ r]) =
      Some (Some ([], \<lparr>pt_mode = CHR ''<'', pt_bindAddr = ''localhost:'' @ r, pt_dialAddr = ''localhost:'' @ l\<rparr>))"
  using port_of_arg_print [OF assms] by (simp_all add: WSTunnel_M_def bound_ports_def)

lemma monitor_never_runs: "WSTunnel_M k url ps = Some t \<Longrightarrow> \<not> wm_running (ws_mon_start (wt_keepAlive t))"
  by (auto simp: WSTunnel_M_def ws_mon_start_def split: option.splits)

text \<open>The form that the comment gives panics. (So would no port at all, but the command looks for that.)\<close>

theorem ws_ports_panic:
  "WSTunnel_M k url [''8080.>.80''] = None" "map_option bound_ports (WSTunnel_M k url []) = Some None"
  by (simp_all add: WSTunnel_M_def bound_ports_def port_of_arg_def go_Split_field)

end
