(* ===== verification/Web_Routes.thy ===== *)
theory Web_Routes
  imports Web_Files Go_Walk
begin

text \<open>
  The web servers of the program (\<^verbatim>\<open>w/w.go\<close>, \<^verbatim>\<open>w/main.go\<close>, \<^verbatim>\<open>ws/ws.go\<close>, \<^verbatim>\<open>ws/ws_tun.go\<close>): their routes under
  \<^verbatim>\<open>net/http\<close>'s \<^verbatim>\<open>ServeMux\<close>, the directories of static files, and the upload from the client's form to the file on
  the server.
\<close>

section \<open>Clean paths below a directory\<close>

lemma clean_parts_append:
  "list_all (\<lambda>x. x = [] \<or> plain_name x) xs \<Longrightarrow>
     clean_parts rooted acc (ys @ xs) = clean_parts rooted acc ys @ filter (\<lambda>x. x \<noteq> []) xs"
proof (induction xs rule: rev_induct)
  case (snoc x xs)
  then show ?case
    using clean_parts_snoc [of x rooted acc "ys @ xs"] clean_parts_empty [of rooted acc "ys @ xs" "[]"]
    by (cases "x = []") (auto simp: plain_name_def)
qed simp

lemma clean_parts_plain:
  "list_all plain_name acc \<Longrightarrow> \<forall>x\<in>set xs. CHR ''/'' \<notin> set x \<Longrightarrow> list_all plain_name (clean_parts True acc xs)"
proof (induction True acc xs rule: clean_parts.induct)
  case (2 acc x xs)
  then show ?case by (cases acc) (auto simp: plain_name_def)
qed simp

lemma rooted_clean:
  assumes "HasPrefix p Slash"
  obtains ns where "path_Clean p = CHR ''/'' # go_Join ns Slash" "list_all plain_name ns"
  using assms clean_parts_plain [of "[]" "go_Split p Slash"] go_Split_parts [of _ p "CHR ''/''"] that
  by (auto simp: path_Clean_def Slash_def)

lemma split_plain:
  "list_all plain_name ns \<Longrightarrow> list_all (\<lambda>x. x = [] \<or> plain_name x) (go_Split (go_Join ns Slash) Slash)"
  "list_all plain_name ns \<Longrightarrow> filter (\<lambda>x. x \<noteq> []) (go_Split (go_Join ns Slash) Slash) = ns"
proof -
  assume ns: "list_all plain_name ns"
  have "go_Split (go_Join ns Slash) Slash = (if ns = [] then [[]] else ns)"
    using ns go_Split_Join [of ns "CHR ''/''"] by (auto simp: Slash_def list_all_iff plain_name_def go_Split_field)
  moreover have "filter (\<lambda>x. x \<noteq> []) ns = ns" using ns by (auto simp: filter_id_conv list_all_iff plain_name_def)
  ultimately show "list_all (\<lambda>x. x = [] \<or> plain_name x) (go_Split (go_Join ns Slash) Slash)"
    "filter (\<lambda>x. x \<noteq> []) (go_Split (go_Join ns Slash) Slash) = ns"
    using ns by (auto simp: list_all_iff)
qed

lemma go_Join_sub: "xs \<noteq> [] \<Longrightarrow> go_Join (xs @ ns) Slash = go_Join xs Slash @ sub_path ns"
proof (induction ns rule: rev_induct)
  case (snoc n ns)
  then show ?case using go_Join_snoc [of "xs @ ns" n Slash] by (simp add: Slash_def)
qed simp

text \<open>A clean directory followed by empty and plain parts.\<close>

lemma clean_below:
  assumes "clean_dir d" "list_all (\<lambda>x. x = [] \<or> plain_name x) (go_Split s Slash)"
  shows "path_Clean (d @ CHR ''/'' # s) = d @ sub_path (filter (\<lambda>x. x \<noteq> []) (go_Split s Slash))"
proof -
  define rooted where "rooted = HasPrefix d Slash"
  define parts where "parts = clean_parts rooted [] (go_Split d Slash)"
  have d: "d \<noteq> []" "d \<noteq> ''.''" "d \<noteq> ''/''" "path_Clean d = d" using assms(1) by (auto simp: clean_dir_def)
  have r: "HasPrefix (d @ CHR ''/'' # s) Slash = rooted"
    using d(1) by (cases d) (auto simp: rooted_def HasPrefix_def Slash_def)
  have p: "clean_parts rooted [] (go_Split (d @ CHR ''/'' # s) Slash) = parts @ filter (\<lambda>x. x \<noteq> []) (go_Split s Slash)"
    using clean_parts_append [OF assms(2), of rooted "[]" "go_Split d Slash"] by (simp add: parts_def Slash_def go_Split_append)
  have d': "d = (if rooted then Slash @ go_Join parts Slash else if parts = [] then ''.'' else go_Join parts Slash)"
    using d(4) unfolding path_Clean_def Let_def rooted_def [symmetric] parts_def [symmetric] by simp
  then have ne: "parts \<noteq> []" using d(2,3) by (auto simp: Slash_def split: if_splits)
  let ?f = "filter (\<lambda>x. x \<noteq> []) (go_Split s Slash)"
  have "path_Clean (d @ CHR ''/'' # s) = (if rooted then Slash @ go_Join parts Slash @ sub_path ?f else go_Join parts Slash @ sub_path ?f)"
    unfolding path_Clean_def Let_def r p using ne by (simp add: go_Join_sub)
  also have "\<dots> = (if rooted then Slash @ go_Join parts Slash else go_Join parts Slash) @ sub_path ?f" by simp
  also have "(if rooted then Slash @ go_Join parts Slash else go_Join parts Slash) = d"
    using d' [symmetric] ne by (cases rooted) simp_all
  finally show ?thesis .
qed

section \<open>Static files\<close>

text \<open>\<^verbatim>\<open>http.Dir.Open\<close>, and \<^verbatim>\<open>FileServer\<close> behind \<^verbatim>\<open>StripPrefix\<close>: the file that is opened (none: not found).\<close>

definition dir_Open :: "string \<Rightarrow> string \<Rightarrow> string" where
  "dir_Open dir name = path_Join [dir, path_Clean (Slash @ name)]"

definition serve_static :: "string \<Rightarrow> string \<Rightarrow> string \<Rightarrow> string option" where
  "serve_static uri dir path =
     (if HasPrefix path uri then
        (let rest = drop (length uri) path; upath = (if HasPrefix rest Slash then rest else Slash @ rest)
         in Some (dir_Open dir (path_Clean upath)))
      else None)"

text \<open>Whatever is asked for, what is opened is below the directory.\<close>

lemma dir_Open_below:
  assumes "clean_dir d" "HasPrefix p Slash"
  shows "\<exists>ns. list_all plain_name ns \<and> dir_Open (d @ Slash) (path_Clean p) = d @ sub_path ns \<and>
    path_Clean p = CHR ''/'' # go_Join ns Slash"
proof -
  obtain ns where ns: "path_Clean p = CHR ''/'' # go_Join ns Slash" "list_all plain_name ns" by (rule rooted_clean [OF assms(2)])
  have "clean_parts True [] ([[]] @ [[]] @ go_Split (go_Join ns Slash) Slash) = ns"
    using clean_parts_append [of "[[]] @ [[]] @ go_Split (go_Join ns Slash) Slash" True "[]" "[]"] split_plain [OF ns(2)] by simp
  then have "path_Clean (Slash @ path_Clean p) = CHR ''/'' # go_Join ns Slash"
    using go_Split_Cons [of "CHR ''/''" "[]"] unfolding ns(1) by (simp add: path_Clean_def Slash_def HasPrefix_def)
  moreover have "path_Clean (d @ CHR ''/'' # CHR ''/'' # CHR ''/'' # go_Join ns Slash) = d @ sub_path ns"
    using clean_below [OF assms(1), of "CHR ''/'' # CHR ''/'' # go_Join ns Slash"] split_plain [OF ns(2)]
      go_Split_Cons [of "CHR ''/''" "[]"] by (simp add: Slash_def)
  ultimately show ?thesis using assms(1) ns by (auto simp: dir_Open_def path_Join_def Slash_def clean_dir_def)
qed

section \<open>\<^verbatim>\<open>ServeMux\<close>\<close>

text \<open>
  Requests other than \<^verbatim>\<open>CONNECT\<close>. A pattern that ends in a slash stands for everything below it, one that does
  not begin with a slash begins with the name of a host. A path that is not clean is redirected, so is one
  that is registered with a slash only.
\<close>

datatype 'h mux_answer = Handled 'h | MovedTo string | NotFound404

definition clean_url :: "string \<Rightarrow> string" where
  "clean_url p =
     (if p = [] then Slash
      else let q = (if HasPrefix p Slash then p else Slash @ p); np = path_Clean q
        in if HasSuffix q Slash \<and> np \<noteq> Slash then np @ Slash else np)"

fun longest :: "(string \<times> 'h) option \<Rightarrow> (string \<times> 'h) list \<Rightarrow> (string \<times> 'h) option" where
  "longest best [] = best"
| "longest best (x # xs) =
     longest (case best of None \<Rightarrow> Some x | Some b \<Rightarrow> if length (fst b) < length (fst x) then Some x else Some b) xs"

definition mux_match :: "(string \<times> 'h) list \<Rightarrow> string \<Rightarrow> 'h option" where
  "mux_match routes path =
     (case map_of routes path of
        Some h \<Rightarrow> Some h
      | None \<Rightarrow> map_option snd (longest None (filter (\<lambda>(pat, _). HasSuffix pat Slash \<and> HasPrefix path pat) routes)))"

definition mux_find :: "(string \<times> 'h) list \<Rightarrow> string \<Rightarrow> string \<Rightarrow> 'h option" where
  "mux_find routes host path = (case mux_match routes (host @ path) of Some h \<Rightarrow> Some h | None \<Rightarrow> mux_match routes path)"

definition only_with_slash :: "(string \<times> 'h) list \<Rightarrow> string \<Rightarrow> string \<Rightarrow> bool" where
  "only_with_slash routes host path \<longleftrightarrow>
     map_of routes path = None \<and> map_of routes (host @ path) = None \<and> \<not> HasSuffix path Slash \<and>
     (map_of routes (path @ Slash) \<noteq> None \<or> map_of routes (host @ path @ Slash) \<noteq> None)"

definition mux_serve :: "(string \<times> 'h) list \<Rightarrow> string \<Rightarrow> string \<Rightarrow> 'h mux_answer" where
  "mux_serve routes host url =
     (let path = clean_url url
      in if only_with_slash routes host path then MovedTo (path @ Slash)
         else if path \<noteq> url then MovedTo path
         else case mux_find routes host path of None \<Rightarrow> NotFound404 | Some h \<Rightarrow> Handled h)"

text \<open>Registering an empty pattern, or one twice, panics.\<close>

definition mux_ok :: "(string \<times> 'h) list \<Rightarrow> bool" where
  "mux_ok routes \<longleftrightarrow> distinct (map fst routes) \<and> [] \<notin> set (map fst routes)"

section \<open>The routes\<close>

datatype page =
  RootPage | HelloPage | NamePage | UploadPage | IndexPage | UploadHandlerPage | PingPage | SocketPage | StaticFiles string string

definition w_routes :: "string \<Rightarrow> string \<Rightarrow> (string \<times> page) list" where
  "w_routes prefix svrdir =
     [(prefix @ ''/'', RootPage), (prefix @ ''/hello'', HelloPage), (prefix @ ''/test11'', NamePage), (prefix @ ''/upload'', UploadPage),
      (prefix @ ''/'' @ svrdir @ ''/'', StaticFiles (prefix @ ''/'' @ svrdir @ ''/'') (svrdir @ ''/''))]"

definition up_routes :: "(string \<times> page) list" where
  "up_routes = [(''/'', IndexPage), (''/upload'', UploadHandlerPage), (''/assets/'', StaticFiles ''/assets/'' ''./assets'')]"

definition serveServer_routes :: "string \<Rightarrow> (string \<times> page) list" where
  "serveServer_routes uri_prefix =
     [(uri_prefix @ ''/ping'', PingPage), (uri_prefix @ ''/static/'', StaticFiles (uri_prefix @ ''/static/'') ''static/''),
      (uri_prefix @ ''/ws'', SocketPage)]"

definition relay_routes :: "string \<Rightarrow> (string \<times> page) list" where
  "relay_routes uri_prefix =
     [(uri_prefix @ ''/ping'', PingPage), (uri_prefix @ ''/static/'', StaticFiles (uri_prefix @ ''/static/'') ''static/''),
      (uri_prefix @ ''/ws'', SocketPage)]"

text \<open>What a request for a static file opens.\<close>

definition static_file :: "(string \<times> page) list \<Rightarrow> string \<Rightarrow> string \<Rightarrow> string option" where
  "static_file routes host url =
     (case mux_serve routes host url of Handled (StaticFiles uri dir) \<Rightarrow> serve_static uri dir url | _ \<Rightarrow> None)"

lemma routes_examples:
  "mux_serve (w_routes [] ''kf'') ''h'' ''/kf/a/b'' = Handled (StaticFiles ''/kf/'' ''kf/'')"
  "static_file (w_routes [] ''kf'') ''h'' ''/kf/a/b'' = Some ''kf/a/b''"
  "mux_serve (w_routes [] ''kf'') ''h'' ''/kf/../../etc/passwd'' = MovedTo ''/etc/passwd''"
  "mux_serve (w_routes [] ''kf'') ''h'' ''/kf'' = MovedTo ''/kf/''"
  "mux_serve (w_routes [] ''kf'') ''h'' ''/nothing'' = Handled RootPage"
  "mux_serve (serveServer_routes ''/yt'') ''h'' ''/yt/ws'' = Handled SocketPage"
  "mux_serve (serveServer_routes ''yt'') ''h'' ''/yt/ws'' = NotFound404"
  "mux_serve up_routes ''h'' ''/assets/x'' = Handled (StaticFiles ''/assets/'' ''./assets'')"
  by code_simp+

text \<open>A prefix that does not begin with a slash is taken for the name of a host.\<close>

lemma longest_in: "longest best xs = Some x \<Longrightarrow> x \<in> set xs \<or> best = Some x"
  by (induction xs arbitrary: best) (auto split: option.splits if_splits)

lemma mux_match_in: "mux_match routes path = Some h \<Longrightarrow> \<exists>pat. (pat, h) \<in> set routes \<and> (pat = path \<or> HasSuffix pat Slash \<and> HasPrefix path pat)"
proof -
  assume m: "mux_match routes path = Some h"
  show ?thesis
  proof (cases "map_of routes path")
    case None
    with m obtain pat where "longest None (filter (\<lambda>(pat, _). HasSuffix pat Slash \<and> HasPrefix path pat) routes) = Some (pat, h)"
      by (auto simp: mux_match_def)
    from longest_in [OF this] show ?thesis by auto
  next
    case (Some h')
    with m show ?thesis by (auto simp: mux_match_def dest: map_of_SomeD)
  qed
qed

lemma mux_serve_clean: "mux_serve routes host url = Handled h \<Longrightarrow> clean_url url = url"
  by (auto simp: mux_serve_def Let_def split: if_splits option.splits)

lemma mux_serve_in:
  assumes "mux_serve routes host url = Handled h"
  shows "\<exists>pat. (pat, h) \<in> set routes"
proof -
  from assms have "mux_find routes host url = Some h"
    by (auto simp: mux_serve_def Let_def split: if_splits option.splits)
  then show ?thesis by (auto simp: mux_find_def dest: mux_match_in split: option.splits)
qed

text \<open>Whatever the address of a request, the file that the static-file route of \<^verbatim>\<open>fkme w\<close> opens for it is
  below the directory it was given (a clean one): its name is the directory followed by plain names.
  The other routes are not confined: the upload below writes wherever the form says.\<close>

theorem static_confined:
  assumes "clean_dir d" "static_file (w_routes prefix d) host url = Some f"
  shows "\<exists>ns. list_all plain_name ns \<and> f = d @ sub_path ns"
proof -
  obtain uri dir where m: "mux_serve (w_routes prefix d) host url = Handled (StaticFiles uri dir)" "serve_static uri dir url = Some f"
    using assms(2) by (auto simp: static_file_def split: mux_answer.splits page.splits)
  from mux_serve_in [OF m(1)] have dir: "dir = d @ Slash" by (auto simp: w_routes_def Slash_def)
  obtain p where p: "HasPrefix p Slash" "f = dir_Open dir (path_Clean p)"
  proof -
    define rest where "rest = drop (length uri) url"
    have "f = dir_Open dir (path_Clean (if HasPrefix rest Slash then rest else Slash @ rest))"
      using m(2) by (auto simp: serve_static_def rest_def Let_def split: if_splits)
    moreover have "HasPrefix (if HasPrefix rest Slash then rest else Slash @ rest) Slash" by (simp add: HasPrefix_append)
    ultimately show thesis using that by blast
  qed
  from dir_Open_below [OF assms(1) p(1)] p(2) dir show ?thesis by auto
qed

section \<open>What is served\<close>

lemma sub_path_Join: "ns \<noteq> [] \<Longrightarrow> sub_path ns = CHR ''/'' # go_Join ns Slash"
proof (induction ns)
  case (Cons n ns)
  then show ?case by (cases "ns = []") (simp_all add: go_Join_Cons Slash_def)
qed simp

lemma clean_dir_name: "plain_name m \<Longrightarrow> clean_dir m"
  by (cases m) (auto simp: clean_dir_def plain_name_def path_Clean_def Slash_def go_Split_field HasPrefix_def)

lemma sub_path_clean:
  assumes "list_all plain_name ns" "ns \<noteq> []"
  shows "clean_url (sub_path ns) = sub_path ns" "\<not> HasSuffix (sub_path ns) Slash" "path_Clean (sub_path ns) = sub_path ns"
proof -
  have "clean_parts True [] ([[]] @ go_Split (go_Join ns Slash) Slash) = ns"
    using clean_parts_append [of "[[]] @ go_Split (go_Join ns Slash) Slash" True "[]" "[]"] split_plain [OF assms(1)] by simp
  then show "path_Clean (sub_path ns) = sub_path ns"
    using go_Split_Cons [of "CHR ''/''" "[]" "go_Join ns Slash"] assms(2)
    by (simp add: path_Clean_def sub_path_Join HasPrefix_def Slash_def)
  moreover obtain n ns' where ns: "ns = ns' @ [n]" using assms(2) by (cases ns rule: rev_cases) auto
  then obtain c n' where "n = n' @ [c]" "c \<noteq> CHR ''/''" using assms(1) by (cases n rule: rev_cases) (auto simp: plain_name_def)
  then show s: "\<not> HasSuffix (sub_path ns) Slash" by (simp add: ns HasSuffix_def Slash_def)
  moreover have "HasPrefix (sub_path ns) Slash" "sub_path ns \<noteq> []" using assms(2) by (simp_all add: sub_path_Join HasPrefix_def Slash_def)
  ultimately show "clean_url (sub_path ns) = sub_path ns" by (simp add: clean_url_def)
qed

lemma mux_host:
  assumes "\<forall>x\<in>set routes. HasPrefix (fst x) Slash" "CHR ''/'' \<notin> set host" "HasPrefix path Slash"
  shows "mux_find routes host path = mux_match routes path"
    and "map_of routes (host @ path) = None \<or> host = []"
proof -
  have no: "\<not> HasPrefix (host @ path) Slash \<or> host = []"
    using assms(2) by (cases host) (auto simp: HasPrefix_def Slash_def)
  then show "map_of routes (host @ path) = None \<or> host = []"
    using assms(1) by (cases "map_of routes (host @ path)") (auto dest!: map_of_SomeD)
  have "mux_match routes (host @ path) = None" if "host \<noteq> []"
  proof (rule ccontr)
    assume "mux_match routes (host @ path) \<noteq> None"
    then obtain h where "mux_match routes (host @ path) = Some h" by blast
    from mux_match_in [OF this] obtain pat where "(pat, h) \<in> set routes" "HasPrefix (host @ path) pat"
      by (auto simp: HasPrefix_append)
    moreover from this assms(1) obtain t where "pat = Slash @ t" by (force simp: HasPrefix_append)
    ultimately show False using no that by (auto simp: HasPrefix_append)
  qed
  then show "mux_find routes host path = mux_match routes path"
    by (cases "host = []") (auto simp: mux_find_def split: option.split)
qed

lemma mux_serve_rooted:
  assumes "\<forall>x\<in>set routes. HasPrefix (fst x) Slash" "CHR ''/'' \<notin> set host" "list_all plain_name ns" "ns \<noteq> []"
    and "map_of routes (sub_path ns @ Slash) = None \<or> map_of routes (sub_path ns) \<noteq> None"
  shows "mux_serve routes host (sub_path ns) = (case mux_match routes (sub_path ns) of None \<Rightarrow> NotFound404 | Some h \<Rightarrow> Handled h)"
proof -
  have p: "HasPrefix (sub_path ns) Slash" "HasPrefix (sub_path ns @ Slash) Slash"
    using assms(4) by (simp_all add: sub_path_Join HasPrefix_def Slash_def)
  have "\<not> only_with_slash routes host (sub_path ns)"
    using mux_host(2) [OF assms(1,2) p(2)] assms(5) by (auto simp: only_with_slash_def)
  then show ?thesis
    by (simp add: mux_serve_def sub_path_clean(1) [OF assms(3,4)] mux_host(1) [OF assms(1,2) p(1)])
qed

lemma slash_in: "ns \<noteq> [] \<Longrightarrow> CHR ''/'' \<in> set (sub_path ns)"
  by (simp add: sub_path_Join)

text \<open>Behind any prefix, every file below the directory is served under its own name.\<close>

theorem static_served:
  assumes "list_all plain_name (ps @ m # ms @ ns)" "ns \<noteq> []" "CHR ''/'' \<notin> set host" "d = m @ sub_path ms"
  shows "static_file (w_routes (sub_path ps) d) host (sub_path (ps @ m # ms @ ns)) = Some (d @ sub_path ns)"
proof -
  let ?r = "w_routes (sub_path ps) d" and ?u = "sub_path ps @ ''/'' @ d @ ''/''" and ?ns = "ps @ m # ms @ ns"
  have path: "sub_path ?ns = sub_path ps @ CHR ''/'' # d @ sub_path ns" by (simp add: assms(4))
  obtain n ns' where n: "ns = n # ns'" "n \<noteq> []" "CHR ''/'' \<notin> set n" using assms(1,2) by (cases ns) (auto simp: plain_name_def)
  have sl: "CHR ''/'' \<in> set (d @ sub_path ns)" using slash_in [OF assms(2)] by auto
  have "d @ sub_path ns \<noteq> w" if "CHR ''/'' \<notin> set w" for w using sl that by auto
  from this [of "''hello''"] this [of "''test11''"] this [of "''upload''"]
  have ne: "d @ sub_path ns \<noteq> ''hello''" "d @ sub_path ns \<noteq> ''test11''" "d @ sub_path ns \<noteq> ''upload''" by simp_all
  have rooted: "\<forall>x\<in>set ?r. HasPrefix (fst x) Slash"
    by (cases ps) (auto simp: w_routes_def HasPrefix_def Slash_def)
  have none: "map_of ?r (sub_path ?ns) = None"
    unfolding path using n ne assms(4) by (auto simp: w_routes_def)
  have "map_of ?r (sub_path ?ns @ Slash) = None"
    unfolding path using n assms(4) by (auto simp: w_routes_def Slash_def dest!: arg_cong [where f = rev])
  then have "mux_serve ?r host (sub_path ?ns) = (case mux_match ?r (sub_path ?ns) of None \<Rightarrow> NotFound404 | Some h \<Rightarrow> Handled h)"
    using assms(1,2) by (intro mux_serve_rooted [OF rooted assms(3)]) auto
  moreover have "HasPrefix (sub_path ?ns) ?u" "HasPrefix (sub_path ?ns) (sub_path ps @ ''/'')"
    unfolding path unfolding n(1) by (simp_all add: HasPrefix_def)
  then have "mux_match ?r (sub_path ?ns) = Some (StaticFiles ?u (d @ ''/''))"
    using none by (auto simp: mux_match_def w_routes_def HasSuffix_def Slash_def)
  moreover have "serve_static ?u (d @ ''/'') (sub_path ?ns) = Some (d @ sub_path ns)"
  proof -
    have pre: "HasPrefix (sub_path ?ns) ?u" by fact
    have rest: "drop (length ?u) (sub_path ?ns) = go_Join ns Slash" unfolding path by (simp add: sub_path_Join [OF assms(2)])
    have hd: "\<not> HasPrefix (go_Join ns Slash) Slash" using n by (cases ns'; cases n) (auto simp: HasPrefix_def Slash_def go_Join_Cons)
    have up: "Slash @ go_Join ns Slash = sub_path ns" by (simp add: sub_path_Join [OF assms(2)] Slash_def)
    have "list_all plain_name ns" "plain_name m" "list_all plain_name ms" using assms(1) by auto
    moreover from this have dd: "clean_dir d" unfolding assms(4) by (intro clean_dir_sub clean_dir_name)
    moreover have "HasPrefix (sub_path ns) Slash" using up by (simp add: HasPrefix_append) metis
    ultimately obtain xs where xs: "dir_Open (d @ Slash) (path_Clean (sub_path ns)) = d @ sub_path xs"
        "path_Clean (sub_path ns) = CHR ''/'' # go_Join xs Slash"
      using dir_Open_below by blast
    have "path_Clean (sub_path ns) = sub_path ns" by (rule sub_path_clean(3)) (use assms(1,2) in auto)
    with xs(2) have j: "go_Join xs Slash = go_Join ns Slash" by (simp add: sub_path_Join [OF assms(2)])
    moreover have "go_Join ns Slash \<noteq> []" using n by (cases ns') (auto simp: go_Join_Cons)
    ultimately have "sub_path xs = sub_path ns" using sub_path_Join [of xs] sub_path_Join [OF assms(2)] by (cases "xs = []") auto
    with xs(1) pre rest hd up show ?thesis by (simp add: serve_static_def Slash_def)
  qed
  ultimately show ?thesis by (simp add: static_file_def)
qed

text \<open>A directory given by an absolute path is registered under a pattern with two slashes, which no clean path
  reaches.\<close>

lemma clean_url_rooted: "HasPrefix (clean_url url) Slash"
proof -
  define q where "q = (if HasPrefix url Slash then url else Slash @ url)"
  have "HasPrefix q Slash" by (simp add: q_def HasPrefix_append)
  then obtain ns where "path_Clean q = CHR ''/'' # go_Join ns Slash" by (rule rooted_clean)
  moreover have "clean_url url = Slash \<or> clean_url url = path_Clean q \<or> clean_url url = path_Clean q @ Slash"
    unfolding clean_url_def q_def [symmetric] Let_def by auto
  ultimately show ?thesis by (auto simp: HasPrefix_append Slash_def)
qed

lemma double_slash_unclean: "HasPrefix url ''//'' \<Longrightarrow> clean_url url \<noteq> url"
proof
  assume p: "HasPrefix url ''//''" "clean_url url = url"
  then obtain t where t: "url = ''//'' @ t" by (auto simp: HasPrefix_append)
  then have r: "HasPrefix url Slash" by (simp add: HasPrefix_def Slash_def)
  obtain ns where ns: "path_Clean url = CHR ''/'' # go_Join ns Slash" "list_all plain_name ns" by (rule rooted_clean [OF r])
  have "url = path_Clean url \<or> url = path_Clean url @ Slash \<and> path_Clean url \<noteq> Slash"
    using p(2) r t by (auto simp: clean_url_def Let_def split: if_splits)
  with ns t have j: "go_Join ns Slash = CHR ''/'' # t \<or> go_Join ns Slash @ Slash = CHR ''/'' # t \<and> go_Join ns Slash \<noteq> []"
    by (auto simp: Slash_def)
  show False
  proof (cases ns)
    case Nil
    with j show False by simp
  next
    case (Cons n ns')
    with ns(2) obtain c n' where "n = c # n'" "c \<noteq> CHR ''/''" by (cases n) (auto simp: plain_name_def)
    with j Cons show False by (cases ns') (auto simp: Slash_def)
  qed
qed

theorem w_absolute_dir:
  assumes "HasPrefix d Slash" "CHR ''/'' \<notin> set host"
  shows "static_file (w_routes [] d) host url = None"
proof (rule ccontr)
  assume "static_file (w_routes [] d) host url \<noteq> None"
  then obtain uri dir where m: "mux_serve (w_routes [] d) host url = Handled (StaticFiles uri dir)"
    by (auto simp: static_file_def split: mux_answer.splits page.splits)
  obtain t where t: "d = CHR ''/'' # t" using assms(1) by (auto simp: HasPrefix_append Slash_def)
  have rooted: "\<forall>x\<in>set (w_routes [] d). HasPrefix (fst x) Slash" by (simp add: w_routes_def HasPrefix_def Slash_def)
  have c: "clean_url url = url" by (rule mux_serve_clean [OF m])
  have "HasPrefix url Slash" using clean_url_rooted [of url] c by simp
  with m c have "mux_match (w_routes [] d) url = Some (StaticFiles uri dir)"
    using mux_host(1) [OF rooted assms(2), of url] by (auto simp: mux_serve_def split: if_splits option.splits)
  from mux_match_in [OF this] have "HasPrefix url ''//''"
    by (auto simp: w_routes_def t HasPrefix_append)
  with double_slash_unclean c show False by blast
qed

text \<open>Behind a prefix, the socket and the ping page of the tunnel servers answer at their addresses.\<close>

theorem tunnel_pages:
  assumes "list_all plain_name ps" "CHR ''/'' \<notin> set host"
  shows "mux_serve (serveServer_routes (sub_path ps)) host (sub_path ps @ ''/ws'') = Handled SocketPage"
    and "mux_serve (relay_routes (sub_path ps)) host (sub_path ps @ ''/ping'') = Handled PingPage"
proof -
  have rooted: "\<forall>x\<in>set (serveServer_routes (sub_path ps)). HasPrefix (fst x) Slash" "\<forall>x\<in>set (relay_routes (sub_path ps)). HasPrefix (fst x) Slash"
    by (cases ps; simp add: serveServer_routes_def relay_routes_def HasPrefix_def Slash_def)+
  have names: "plain_name ''ws''" "plain_name ''ping''" by (simp_all add: plain_name_def)
  show "mux_serve (serveServer_routes (sub_path ps)) host (sub_path ps @ ''/ws'') = Handled SocketPage"
    using mux_serve_rooted [OF rooted(1) assms(2), of "ps @ [''ws'']"] assms(1) names
    by (simp add: serveServer_routes_def mux_match_def)
  show "mux_serve (relay_routes (sub_path ps)) host (sub_path ps @ ''/ping'') = Handled PingPage"
    using mux_serve_rooted [OF rooted(2) assms(2), of "ps @ [''ping'']"] assms(1) names
    by (simp add: relay_routes_def mux_match_def)
qed

section \<open>The upload command and its handler\<close>

text \<open>A part of a form: a file with the name that the client gives, or a field.\<close>

datatype form_part = FilePart string string bytes | FieldPart string string

text \<open>\<^verbatim>\<open>Upload_client\<close>: the address and the form; \<open>open_file\<close> gives the bytes and whether reading ends without an
  error. Nothing is said about a failure, here or by the server.\<close>

definition Upload_client :: "(string \<Rightarrow> (bytes \<times> bool) option) \<Rightarrow> string list \<Rightarrow> (string \<times> form_part list) option" where
  "Upload_client open_file args =
     (case args of
        file # url # _ \<Rightarrow>
          (case open_file file of
             None \<Rightarrow> None
           | Some (b, whole) \<Rightarrow>
               if \<not> whole then None else Some (url, [FilePart ''uploadfile'' file b, FieldPart ''tpath'' []]))
      | _ \<Rightarrow> None)"

text \<open>\<^verbatim>\<open>FormFile\<close> (which keeps the last element of the name) and \<^verbatim>\<open>FormValue\<close>.\<close>

fun FormFile :: "string \<Rightarrow> form_part list \<Rightarrow> (string \<times> bytes) option" where
  "FormFile key [] = None"
| "FormFile key (FilePart k name b # ps) = (if k = key then Some (path_Base name, b) else FormFile key ps)"
| "FormFile key (FieldPart k v # ps) = FormFile key ps"

fun FormValue :: "string \<Rightarrow> form_part list \<Rightarrow> string" where
  "FormValue key [] = []"
| "FormValue key (FieldPart k v # ps) = (if k = key then v else FormValue key ps)"
| "FormValue key (FilePart k name b # ps) = FormValue key ps"

definition upload_request :: "form_part list \<Rightarrow> (string \<Rightarrow> bool) \<Rightarrow> (string \<rightharpoonup> bytes) \<Rightarrow> upload_reply \<times> (string \<rightharpoonup> bytes)" where
  "upload_request parts can_open files = upload ''POST'' (FormFile ''uploadfile'' parts) (FormValue ''tpath'' parts) can_open files"

text \<open>What \<^verbatim>\<open>fkme upfile\<close> sends arrives: the file is in \<^verbatim>\<open>./test\<close> on the server, under the last part of its name,
  with its bytes (followed by the end of a longer file that was there), and no other file has changed.\<close>

theorem upload_arrives:
  assumes "Upload_client open_file args = Some (url, parts)" "can_open (''./test/'' @ path_Base (hd args))"
    and "upload_request parts can_open files = (reply, files')"
  shows "\<exists>b. open_file (hd args) = Some (b, True) \<and> reply = Written \<and>
    files' (''./test/'' @ path_Base (hd args)) =
      Some (b @ drop (length b) (case files (''./test/'' @ path_Base (hd args)) of None \<Rightarrow> [] | Some old \<Rightarrow> old)) \<and>
    (\<forall>p. p \<noteq> ''./test/'' @ path_Base (hd args) \<longrightarrow> files' p = files p)"
  using assms
  by (auto simp: Upload_client_def upload_request_def upload_def write_over_def Let_def split: list.splits option.splits prod.splits if_splits)

section \<open>Samples\<close>

theorem upload_arrives_witness:
  "\<exists>files'. upload_request [FilePart ''uploadfile'' ''/home/me/a.bin'' [1, 2], FieldPart ''tpath'' []] (\<lambda>_. True) [''./test/a.bin'' \<mapsto> [7, 8, 9]] = (Written, files') \<and>
     files' ''./test/a.bin'' = Some [1, 2, 9]"
proof -
  let ?o = "\<lambda>p. if p = ''/home/me/a.bin'' then Some ([1, 2], True) else None"
  let ?parts = "[FilePart ''uploadfile'' ''/home/me/a.bin'' [1, 2], FieldPart ''tpath'' []]"
  obtain rep files' where r: "upload_request ?parts (\<lambda>_. True) [''./test/a.bin'' \<mapsto> [7, 8, 9]] = (rep, files')" by (metis surj_pair)
  have c: "Upload_client ?o [''/home/me/a.bin'', ''http://h:9191/upload''] = Some (''http://h:9191/upload'', ?parts)"
    by (simp add: Upload_client_def)
  have "path_Base ''/home/me/a.bin'' = ''a.bin''" by code_simp
  with upload_arrives [OF c _ r] r show ?thesis by simp
qed

theorem static_confined_witness:
  "\<exists>ns. list_all plain_name ns \<and> ''kf/etc/passwd'' = ''kf'' @ sub_path ns"
proof (rule static_confined)
  show "clean_dir ''kf''" by code_simp
  show "static_file (w_routes [] ''kf'') ''h'' ''/kf/etc/passwd'' = Some ''kf/etc/passwd''" by code_simp
qed

theorem static_served_witness:
  "static_file (w_routes ''/x'' ''kf/a'') ''h:9191'' ''/x/kf/a/b.txt'' = Some ''kf/a/b.txt''"
proof -
  have "list_all plain_name ([''x''] @ ''kf'' # [''a''] @ [''b.txt''])" by (simp add: plain_name_def)
  from static_served [OF this, of "''h:9191''" "''kf/a''"] show ?thesis by simp
qed

end
