(* ===== verification/Small_Tools.thy ===== *)
theory Small_Tools
  imports Web_Files Go_Walk "HOL-Library.Word" "HOL-Library.Sublist"
begin

text \<open>
  What is left of the program in small pieces: the pass that reads every file (\<^verbatim>\<open>ws/read_all_files.go\<close>), the
  preparation of a notebook (\<^verbatim>\<open>w/jupyter.go\<close>), the certificate and the echo over TLS (\<^verbatim>\<open>ws/tls.go\<close>), the outputs
  of the logger (\<^verbatim>\<open>logger/logger.go\<close>), the address of the SOCKS command and the disk status (\<^verbatim>\<open>util\<close>).
\<close>

section \<open>Reading every file\<close>

text \<open>\<^verbatim>\<open>filepath.Walk\<close> for a callback that looks at the error: it is told whether the directory could be read.\<close>

type_synonym 's visit_fn = "string \<Rightarrow> bool \<Rightarrow> bool \<Rightarrow> 's \<Rightarrow> walk_result \<times> 's"

fun ewalk :: "'s visit_fn \<Rightarrow> string \<Rightarrow> ltree \<Rightarrow> 's \<Rightarrow> walk_result \<times> 's"
  and ewalk_entries :: "'s visit_fn \<Rightarrow> string \<Rightarrow> (string \<times> ltree) list \<Rightarrow> 's \<Rightarrow> walk_result \<times> 's" where
  "ewalk f path LFile s = f path False False s"
| "ewalk f path (LDir None) s = f path True True s"
| "ewalk f path (LDir (Some es)) s =
     (case f path True False s of (WOk, s') \<Rightarrow> ewalk_entries f path es s' | r \<Rightarrow> r)"
| "ewalk_entries f path [] s = (WOk, s)"
| "ewalk_entries f path ((name, t) # es) s =
     (case ewalk f (path_Join [path, name]) t s of
        (WOk, s') \<Rightarrow> ewalk_entries f path es s'
      | (WSkip, s') \<Rightarrow> if is_dir t then ewalk_entries f path es s' else (WSkip, s')
      | r \<Rightarrow> r)"

text \<open>Reading one file, from what \<^verbatim>\<open>Read\<close> returns: the number of bytes, or none after an error.\<close>

datatype read_answer = ReadBytes nat | ReadEOF | ReadError

fun readfile_loop :: "nat \<Rightarrow> read_answer list \<Rightarrow> nat option" where
  "readfile_loop zeroes [] = None"
| "readfile_loop zeroes (ReadBytes n # rs) = readfile_loop (zeroes + n) rs"
| "readfile_loop zeroes (ReadEOF # rs) = Some zeroes"
| "readfile_loop zeroes (ReadError # rs) = None"

definition readfile :: "read_answer list option \<Rightarrow> nat option" where
  "readfile opened = (case opened of None \<Rightarrow> None | Some rs \<Rightarrow> readfile_loop 0 rs)"

text \<open>The callback; the state is the list of the files read so far.\<close>

definition read_visit :: "string list visit_fn" where
  "read_visit path dir err s =
     (if err then (WErr, s)
      else if dir then (WOk, s)
      else if HasSuffix path ''.log'' then (WOk, s)
      else (WOk, s @ [path]))"

definition iter_dir :: "string \<Rightarrow> ltree \<Rightarrow> walk_result \<times> string list" where
  "iter_dir path t = ewalk read_visit path t []"

lemma readfile_total: "\<forall>r\<in>set rs. \<exists>n. r = ReadBytes n \<Longrightarrow> readfile_loop z (rs @ [ReadEOF]) = Some (z + sum_list (map (\<lambda>r. case r of ReadBytes n \<Rightarrow> n | _ \<Rightarrow> 0) rs))"
  by (induction rs arbitrary: z) auto

lemma ewalk_reads:
  "clean_dir p \<Longrightarrow> tree_ok t \<Longrightarrow> readable t \<Longrightarrow>
     ewalk read_visit p t s = (WOk, s @ filter (\<lambda>f. \<not> HasSuffix f ''.log'') (tree_files p t))"
  "clean_dir p \<Longrightarrow> list_all (\<lambda>(n, t). plain_name n \<and> tree_ok t) es \<Longrightarrow> list_all (\<lambda>(n, t). readable t) es \<Longrightarrow>
     ewalk_entries read_visit p es s = (WOk, s @ filter (\<lambda>f. \<not> HasSuffix f ''.log'') (tree_files_entries p es))"
proof (induction p t and p es arbitrary: s and s rule: tree_files_tree_files_entries.induct)
  case (5 p n t es)
  then show ?case by (simp add: path_Join_entry clean_dir_entry)
qed (simp_all add: read_visit_def)

text \<open>Where every directory can be read, a pass reads each file once but the logs; one directory that cannot be read
  ends the pass.\<close>

theorem read_pass:
  assumes "clean_dir p" "tree_ok t" "readable t"
  shows "iter_dir p t = (WOk, filter (\<lambda>f. \<not> HasSuffix f ''.log'') (tree_files p t))"
  using ewalk_reads(1) [OF assms] by (simp add: iter_dir_def)

theorem read_pass_ends:
  "iter_dir ''/w'' (LDir (Some [(''a'', LFile), (''b'', LDir None), (''c'', LFile)])) = (WErr, [''/w/a''])"
  by code_simp

section \<open>\<^verbatim>\<open>JuInit\<close>\<close>

definition ju_config :: "string \<Rightarrow> string \<Rightarrow> string" where
  "ju_config token base_url =
     ''{\"NotebookApp\": {'' @ [CHR 0x0A] @
     ''            \"token\": \"'' @ token @ ''\",'' @ [CHR 0x0A] @
     ''            \"open_browser\": false,'' @ [CHR 0x0A] @
     ''            \"base_url\": \"'' @ base_url @ ''\",'' @ [CHR 0x0A] @
     ''            \"allow_origin\":\"*\" },'' @ [CHR 0x0A] @
     ''            \"ServerApp\":{'' @ [CHR 0x0A] @
     ''    \"allow_origin\":\"*\", \"ip\": \"*\" }}'' @ [CHR 0x0A]"

text \<open>The package that is unpacked into \<^verbatim>\<open>/data\<close>, and the files that are written; without an argument it panics.\<close>

definition JuInit :: "(string \<Rightarrow> string) \<Rightarrow> string list \<Rightarrow> (string \<times> (string \<times> string) list) option" where
  "JuInit env args =
     (case args of
        [] \<Rightarrow> None
      | fsweb # _ \<Rightarrow>
          Some (fsweb @ ''/libs/f/nbx.tgz'',
            [(''/data/.jupyter/jupyter_notebook_config.json'', ju_config (env ''_TOKEN_'') (env ''BASE_URI'')),
             (''/data/.config/pip/pip.conf'', pip_conf (env ''PYPI_SERVER''))]))"

text \<open>The token is not escaped: one with a quote adds settings of its own.\<close>

lemma ju_config_injection:
  "\<exists>a b. ju_config (''x\", \"ip\": \"0.0.0.0'') base = a @ ''\"token\": \"x\", \"ip\": \"0.0.0.0\",'' @ b"
  by (rule exI [of _ "''{\"NotebookApp\": {'' @ [CHR 0x0A] @ ''            ''"]) (simp add: ju_config_def)

section \<open>A certificate and an echo\<close>

text \<open>What the libraries give: a key, a serial number, the certificate for them, its PEM form, the key's encoding
  and PEM form; whether the two files can be written.\<close>

record 'k cert_env =
  ce_GenerateKey :: "'k option"
  ce_Int :: "int option"
  ce_CreateCertificate :: "int \<Rightarrow> 'k \<Rightarrow> bytes option"
  ce_EncodeCert :: "bytes \<Rightarrow> bytes option"
  ce_MarshalKey :: "'k \<Rightarrow> bytes option"
  ce_EncodeKey :: "bytes \<Rightarrow> bytes option"
  ce_can_write :: "string \<Rightarrow> bool"

text \<open>False: the process ends.\<close>

definition createCert :: "'k cert_env \<Rightarrow> (string \<rightharpoonup> bytes) \<Rightarrow> bool \<times> (string \<rightharpoonup> bytes)" where
  "createCert ce files =
     (case (ce_GenerateKey ce, ce_Int ce) of
        (Some key, Some serial) \<Rightarrow>
          (case Option.bind (ce_CreateCertificate ce serial key) (ce_EncodeCert ce) of
             None \<Rightarrow> (False, files)
           | Some pemCert \<Rightarrow>
               if \<not> ce_can_write ce ''cert.pem'' then (False, files)
               else (let files1 = files(''cert.pem'' \<mapsto> pemCert)
                 in case Option.bind (ce_MarshalKey ce key) (ce_EncodeKey ce) of
                      None \<Rightarrow> (False, files1)
                    | Some pemKey \<Rightarrow>
                        if \<not> ce_can_write ce ''key.pem'' then (False, files1)
                        else (True, files1(''key.pem'' \<mapsto> pemKey))))
      | _ \<Rightarrow> (False, files))"

text \<open>When it returns, certificate and key are both new and belong together; when the key cannot be written, the new
  certificate stands beside the key of an earlier one.\<close>

theorem createCert_pair:
  assumes "createCert ce files = (True, files')"
  shows "\<exists>key serial. ce_GenerateKey ce = Some key \<and>
    files' ''cert.pem'' = Option.bind (ce_CreateCertificate ce serial key) (ce_EncodeCert ce) \<and>
    files' ''key.pem'' = Option.bind (ce_MarshalKey ce key) (ce_EncodeKey ce) \<and> files' ''key.pem'' \<noteq> None \<and>
    (\<forall>p. p \<noteq> ''cert.pem'' \<and> p \<noteq> ''key.pem'' \<longrightarrow> files' p = files p)"
  using assms by (auto simp: createCert_def Let_def split: option.splits if_splits) metis

lemma createCert_stale_key:
  "createCert \<lparr>ce_GenerateKey = Some (), ce_Int = Some 1, ce_CreateCertificate = (\<lambda>_ _. Some [2]), ce_EncodeCert = Some, ce_MarshalKey = (\<lambda>_. Some [2]),
     ce_EncodeKey = Some, ce_can_write = (\<lambda>p. p \<noteq> ''key.pem'')\<rparr> [''cert.pem'' \<mapsto> [1], ''key.pem'' \<mapsto> [1]] = (False, files) \<Longrightarrow>
   files ''cert.pem'' = Some [2] \<and> files ''key.pem'' = Some [1]"
  by (auto simp: createCert_def)

text \<open>A connection of the server: \<^verbatim>\<open>io.Copy(c, c)\<close>, chunk by chunk, then it is closed.\<close>

fun echo_copy :: "bytes list \<Rightarrow> bytes \<Rightarrow> bytes" where
  "echo_copy [] sent = sent"
| "echo_copy (b # bs) sent = echo_copy bs (sent @ b)"

definition hello_server :: bytes where
  "hello_server = map (\<lambda>c. of_char c) (''Hello simple secure Server'' @ [CHR 0x0A])"

text \<open>The client, after it has connected: it writes, closes its side and reads once, at most 256 bytes; \<open>None\<close>: the
  process ends. \<open>got\<close> is what that one \<^verbatim>\<open>Read\<close> finds, false for an error other than the end.\<close>

definition tls_client :: "bool \<Rightarrow> bool \<Rightarrow> bool \<Rightarrow> bool \<Rightarrow> bool \<Rightarrow> bytes \<times> bool \<Rightarrow> bytes option" where
  "tls_client cert_read cert_parsed dialled written close_written got =
     (if \<not> cert_read \<or> \<not> cert_parsed \<or> \<not> dialled \<or> \<not> written \<or> \<not> close_written then None
      else if \<not> snd got then None
      else Some (take 256 (fst got)))"

lemma echo_all: "echo_copy bs sent = sent @ concat bs"
  by (induction bs arbitrary: sent) simp_all

text \<open>What the client prints is the beginning of what it has sent, all of it if it came in one piece.\<close>

theorem echo_greeting:
  assumes "concat bs = hello_server" "prefix got (echo_copy bs [])" "tls_client r p d w c (got, True) = Some out"
  shows "prefix out hello_server \<and> (got = echo_copy bs [] \<longrightarrow> out = hello_server)"
proof -
  have "length hello_server = 27" by (simp add: hello_server_def)
  with assms show ?thesis
    by (auto simp: tls_client_def echo_all split: if_splits intro: prefix_order.trans [OF take_is_prefix])
qed

section \<open>The outputs of the logger\<close>

text \<open>A logger is its outputs by name; \<open>fresh\<close> is what the library starts one with. The functions of the package
  (\<^verbatim>\<open>Info\<close> and the others) are those of the logger made last.\<close>

datatype log_output = ConsoleOutput string | FileOutput string nat nat string string

definition console_config :: log_output where
  "console_config = ConsoleOutput ''%timestamp_format% [%level_string%] %file%:%line% %body%''"

definition file_config :: "string \<Rightarrow> log_output" where
  "file_config logfile = FileOutput logfile (1024 * 1024) 100000 ''d'' ''%timestamp_format% [%level_string%] %body%''"

definition new_logger :: "(string \<rightharpoonup> log_output) \<Rightarrow> string \<Rightarrow> (string \<rightharpoonup> log_output)" where
  "new_logger fresh logfile =
     (let l = fresh(''console'' := None, ''console'' \<mapsto> console_config)
      in if logfile \<noteq> [] then l(''file'' \<mapsto> file_config logfile) else l)"

text \<open>The state: the outputs of the old loggers that are still attached, and the current one.\<close>

definition InitLogger ::
  "(string \<rightharpoonup> log_output) \<Rightarrow> string \<Rightarrow> (string \<rightharpoonup> log_output) list \<times> (string \<rightharpoonup> log_output) option \<Rightarrow>
   (string \<rightharpoonup> log_output) list \<times> (string \<rightharpoonup> log_output) option" where
  "InitLogger fresh logfile s =
     (case snd s of
        None \<Rightarrow> (fst s, Some (new_logger fresh logfile))
      | Some l \<Rightarrow> (fst s @ [l(''console'' := None, ''file'' := None)], Some (new_logger fresh logfile)))"

text \<open>However often it is called, the old loggers have no output left and the current one has the console, and a file
  exactly if the last call named one.\<close>

theorem one_logger:
  assumes "dom fresh \<subseteq> {''console''}" "files \<noteq> []"
  shows "\<exists>old l. foldl (\<lambda>s f. InitLogger fresh f s) ([], None) files = (old, Some l) \<and> (\<forall>o'\<in>set old. o' = Map.empty) \<and>
    length old = length files - 1 \<and> dom l = (if last files = [] then {''console''} else {''console'', ''file''})"
  using assms(2)
proof (induction files rule: rev_induct)
  case (snoc f files)
  have new: "dom (new_logger fresh f) = (if f = [] then {''console''} else {''console'', ''file''})" for f
    using assms(1) by (auto simp: new_logger_def Let_def)
  have gone: "l(''console'' := None, ''file'' := None) = Map.empty" if "dom l \<subseteq> {''console'', ''file''}" for l :: "string \<rightharpoonup> log_output"
    using that by (auto simp: fun_eq_iff dom_def)
  show ?case
  proof (cases "files = []")
    case True
    then show ?thesis by (simp add: InitLogger_def new)
  next
    case False
    with snoc obtain old l where l: "foldl (\<lambda>s f. InitLogger fresh f s) ([], None) files = (old, Some l)" "\<forall>o'\<in>set old. o' = Map.empty"
        "length old = length files - 1" "dom l = (if last files = [] then {''console''} else {''console'', ''file''})" by blast
    moreover from l(4) have "l(''console'' := None, ''file'' := None) = Map.empty" by (intro gone) auto
    ultimately show ?thesis using False by (simp add: InitLogger_def new Suc_diff_le)
  qed
qed simp

section \<open>The SOCKS command and the disk status\<close>

definition socks5_addr :: "string \<Rightarrow> int \<Rightarrow> string" where
  "socks5_addr host port = host @ '':'' @ Itoa port"

text \<open>\<open>None\<close>: the system call fails. All, used and free bytes, of 64 bits.\<close>

definition DiskUsage :: "(64 word \<times> 64 word \<times> 64 word) option \<Rightarrow> (64 word \<times> 64 word \<times> 64 word) option" where
  "DiskUsage st =
     (case st of
        None \<Rightarrow> None
      | Some (blocks, bfree, bsize) \<Rightarrow>
          (let whole = blocks * bsize; free = bfree * bsize in Some (whole, whole - free, free)))"

text \<open>The parts add up, even where the products wrap.\<close>

lemma disk_adds_up:
  "DiskUsage st = Some (whole, used, free) \<Longrightarrow> used + free = whole \<and> (\<exists>b f z. st = Some (b, f, z) \<and> used = (b - f) * z)"
  by (auto simp: DiskUsage_def Let_def left_diff_distrib split: option.splits)

end
