(* ===== verification/Tunnel_Command.thy ===== *)
theory Tunnel_Command
  imports Tunnel_Config Tunnel_Group
begin

text \<open>
  The command \<^verbatim>\<open>fkme tunnel\<close> as a whole (\<^verbatim>\<open>SSHTunnel\<close> of \<^verbatim>\<open>scp/tunnel.go\<close>, and \<^verbatim>\<open>main__\<close>, its earlier form): the
  configuration, a goroutine for each tunnel, the wait for all of them, and the end.
\<close>

text \<open>The tunnels that are started: those of the file, which the first argument names (a panic if there is none),
  or one of the two that are fixed; and the function that is deferred, the second result of the loading
  functions.\<close>

definition SSHTunnel :: "(string \<Rightarrow> tunnel_entry list option) \<Rightarrow> string list \<Rightarrow> (tunnel list \<times> close_fn) option" where
  "SSHTunnel read_conf args = (case args of [] \<Rightarrow> None | f # _ \<Rightarrow> Some (loadConf (read_conf f)))"

definition tunnel_main :: "string list \<Rightarrow> tunnel list \<times> close_fn" where
  "tunnel_main os_args = (case os_args of _ # a # _ \<Rightarrow> loadConfig (a \<noteq> ''client'') | _ \<Rightarrow> loadConfig True)"

definition start_tunnels :: "tunnel list \<Rightarrow> tunnels" where
  "start_tunnels ts = tunnels_start (length ts)"

datatype command_state = StillWaiting | WaitPanics | NilCloserPanics | CommandReturns

definition command_end :: "close_fn \<Rightarrow> tunnels \<Rightarrow> command_state" where
  "command_end closer s =
     (if wg_negative (tu_group s) then WaitPanics
      else if \<not> wg_over (tu_group s) then StillWaiting
      else case closer of None \<Rightarrow> NilCloserPanics | Some _ \<Rightarrow> CommandReturns)"

lemma closer_nil: "SSHTunnel read_conf args = Some (ts, closer) \<Longrightarrow> closer = None"
  by (auto simp: SSHTunnel_def loadConf_def unset_closer_def split: list.splits option.splits)

text \<open>C31: the command waits for every tunnel that it has started, and then, since nothing was ever assigned to the
  function it has deferred, it panics; it never returns. Without a valid tunnel it panics at once.\<close>

theorem tunnel_command_ends:
  assumes "SSHTunnel read_conf args = Some (ts, closer)"
    and "s = foldl (tunnel_do (scp_tunnel_step ka)) (start_tunnels ts) es"
  shows "command_end closer s =
    (if list_all (\<lambda>l. l = Ended) (tu_loops s) \<and> others s = 0 then NilCloserPanics else StillWaiting)"
proof -
  have inv: "tunnels_inv s"
    unfolding assms(2) start_tunnels_def by (rule scp_tunnels.run_inv [OF tunnels_start_inv])
  have "live_loops s = 0 \<longleftrightarrow> list_all (\<lambda>l. l = Ended) (tu_loops s)"
    by (simp add: live_loops_def filter_empty_conv list_all_iff)
  with inv closer_nil [OF assms(1)] show ?thesis by (auto simp: command_end_def tunnels_inv_def)
qed

text \<open>\<^verbatim>\<open>main__\<close> defers the same nil.\<close>

lemma tunnel_main_closer: "snd (tunnel_main os_args) = None"
  by (simp add: tunnel_main_def loadConfig_def unset_closer_def split: list.split)

lemma no_tunnel_panics:
  "loadConf (read_conf f) = ([], c) \<Longrightarrow> SSHTunnel read_conf (f # args) = Some (ts, closer) \<Longrightarrow>
   command_end closer (start_tunnels ts) = NilCloserPanics"
  by (frule closer_nil) (simp add: SSHTunnel_def start_tunnels_def tunnels_start_def command_end_def)

theorem tunnel_command_ends_witness:
  "\<exists>ts closer s. SSHTunnel (\<lambda>_. Some [\<lparr>te_Tunnel = ''a:1 -> b:2'', te_Server = ''app@h:22'', te_RetrySec = 30\<rparr>]) [''t.json''] = Some (ts, closer) \<and>
     length ts = 1 \<and> s = foldl (tunnel_do (scp_tunnel_step False)) (start_tunnels ts) [DialFails 0, Cancelled 0] \<and>
     command_end closer s = NilCloserPanics"
proof -
  let ?r = "\<lambda>_. Some [\<lparr>te_Tunnel = ''a:1 -> b:2'', te_Server = ''app@h:22'', te_RetrySec = 30\<rparr>]"
  have "map_option (length \<circ> fst) (SSHTunnel ?r [''t.json'']) = Some 1" by code_simp
  then obtain ts closer where ts: "SSHTunnel ?r [''t.json''] = Some (ts, closer)" "length ts = 1" by auto
  define s where "s = foldl (tunnel_do (scp_tunnel_step False)) (start_tunnels ts) [DialFails 0, Cancelled 0]"
  have "list_all (\<lambda>l. l = Ended) (tu_loops s) \<and> others s = 0"
    by (simp add: s_def start_tunnels_def tunnels_start_def ts(2) tunnel_do_def loop_step_def tu_wg_def others_def)
  then have "command_end closer s = NilCloserPanics" using tunnel_command_ends [OF ts(1) s_def] by simp
  with ts s_def show ?thesis by blast
qed

text \<open>The user and the port of a server have to be there, although a comment gives defaults for them.\<close>

lemma server_defaults_missing:
  "tunnel_of \<lparr>te_Tunnel = ''a:1 -> b:2'', te_Server = ''h:22'', te_RetrySec = 30\<rparr> = None"
  "tunnel_of \<lparr>te_Tunnel = ''a:1 -> b:2'', te_Server = ''app@h'', te_RetrySec = 30\<rparr> = None"
  by code_simp+

end
