(* ===== verification/Accept_Loops.thy ===== *)
theory Accept_Loops
  imports Port_Mapper Mole_Config Gpu_Log Ws_Tunnel Go_Walk
begin

text \<open>
  Loops that accept connections or wait for signals: the listener of the port mapper (\<^verbatim>\<open>util/pm.go\<close>), the server
  and client of the \<^verbatim>\<open>obfs4\<close> experiment (\<^verbatim>\<open>ws/ob.go\<close>), the keep-alive, the host keys and the copying of the SSH
  tunnels (\<^verbatim>\<open>ssh_ws/tunnel.go\<close>), and the command that watches a program (\<^verbatim>\<open>w/w1.go\<close>).
\<close>

section \<open>The listener of the port mapper\<close>

text \<open>Connections have the numbers of their acceptance. Those that are being joined come with the attempts made so
  far; a joined one comes with the target its last attempt went to. \<open>acc_on\<close>: the loop still accepts.\<close>

record 'c acceptor =
  acc_entry :: port_entry
  acc_on :: bool
  acc_next :: nat
  acc_trying :: "nat \<rightharpoonup> nat"
  acc_joined :: "nat \<rightharpoonup> string \<times> 'c"
  acc_closed :: "nat set"

text \<open>What happens: a connection or an error from \<^verbatim>\<open>Accept\<close>, the outcome of an attempt for a connection (none: it
  failed), and another binding of the port by \<^verbatim>\<open>bindOp\<close>.\<close>

datatype 'c pm_event = PmAccept | PmAcceptFails | PmDial nat "'c option" | PmRebind string

text \<open>\<open>None\<close>: the port cannot be listened on, and the process ends.\<close>

definition Listen_start :: "bool \<Rightarrow> port_entry \<Rightarrow> 'c acceptor option" where
  "Listen_start bound p =
     (if bound then Some \<lparr>acc_entry = p, acc_on = True, acc_next = 0, acc_trying = Map.empty, acc_joined = Map.empty, acc_closed = {}\<rparr>
      else None)"

definition Listen_step :: "'c acceptor \<Rightarrow> 'c pm_event \<Rightarrow> 'c acceptor" where
  "Listen_step s e =
     (case e of
        PmAccept \<Rightarrow>
          if acc_on s \<and> pe_running (acc_entry s)
          then s\<lparr>acc_next := Suc (acc_next s), acc_trying := (acc_trying s)(acc_next s \<mapsto> 0)\<rparr> else s
      | PmAcceptFails \<Rightarrow> s\<lparr>acc_on := False\<rparr>
      | PmDial k r \<Rightarrow>
          (case acc_trying s k of
             None \<Rightarrow> s
           | Some i \<Rightarrow>
               (case r of
                  Some c \<Rightarrow> s\<lparr>acc_trying := (acc_trying s)(k := None),
                              acc_joined := (acc_joined s)(k \<mapsto> (pe_Remote_addr (acc_entry s), c))\<rparr>
                | None \<Rightarrow>
                    if Suc i < 10 then s\<lparr>acc_trying := (acc_trying s)(k \<mapsto> Suc i)\<rparr>
                    else s\<lparr>acc_trying := (acc_trying s)(k := None), acc_closed := insert k (acc_closed s)\<rparr>))
      | PmRebind a \<Rightarrow> s\<lparr>acc_entry := (acc_entry s)\<lparr>pe_Remote_addr := a\<rparr>\<rparr>)"

definition acceptor_inv :: "'c acceptor \<Rightarrow> bool" where
  "acceptor_inv s \<longleftrightarrow>
     dom (acc_trying s) \<union> dom (acc_joined s) \<union> acc_closed s = {..<acc_next s} \<and>
     dom (acc_trying s) \<inter> dom (acc_joined s) = {} \<and> dom (acc_trying s) \<inter> acc_closed s = {} \<and>
     dom (acc_joined s) \<inter> acc_closed s = {} \<and> (\<forall>k i. acc_trying s k = Some i \<longrightarrow> i < 10)"

lemma Listen_step_inv: "acceptor_inv s \<Longrightarrow> acceptor_inv (Listen_step s e)"
proof (cases e)
  case PmAccept
  assume "acceptor_inv s"
  with PmAccept show ?thesis by (auto simp: acceptor_inv_def Listen_step_def lessThan_Suc)
next
  case (PmDial k r)
  assume "acceptor_inv s"
  with PmDial show ?thesis
    by (auto simp: acceptor_inv_def Listen_step_def split: option.splits)
qed (auto simp: acceptor_inv_def Listen_step_def)

interpretation pm_listener: inv_machine Listen_step acceptor_inv
  by unfold_locales (rule Listen_step_inv)

lemma Listen_start_inv: "Listen_start bound p = Some s \<Longrightarrow> acceptor_inv s"
  by (auto simp: Listen_start_def acceptor_inv_def split: if_splits)

text \<open>Every connection that was accepted is being joined, is joined or was closed again, and only one of the three.\<close>

theorem listener_accounts:
  assumes "Listen_start bound p = Some s0" "s = foldl Listen_step s0 es" "k < acc_next s"
  shows "of_bool (k \<in> dom (acc_trying s)) + of_bool (k \<in> dom (acc_joined s)) + of_bool (k \<in> acc_closed s) = (1::nat)"
proof -
  have "acceptor_inv s" unfolding assms(2) by (rule pm_listener.run_inv [OF Listen_start_inv [OF assms(1)]])
  with assms(3) have "k \<in> dom (acc_trying s) \<union> dom (acc_joined s) \<union> acc_closed s"
      and d: "\<And>x. x \<in> dom (acc_trying s) \<Longrightarrow> x \<notin> dom (acc_joined s) \<and> x \<notin> acc_closed s"
        "\<And>x. x \<in> dom (acc_joined s) \<Longrightarrow> x \<notin> acc_closed s"
    unfolding acceptor_inv_def by blast+
  then consider "k \<in> dom (acc_trying s)" | "k \<in> dom (acc_joined s)" | "k \<in> acc_closed s" by blast
  then show ?thesis by cases (use d in \<open>auto simp: of_bool_def\<close>)
qed

text \<open>Once it has been accepted, ten attempts for it settle it, whatever they give and whatever happens between
  them; the end of the listener does not matter to it.\<close>

definition dials_for :: "nat \<Rightarrow> 'c pm_event list \<Rightarrow> nat" where
  "dials_for k es = length (filter (\<lambda>e. \<exists>r. e = PmDial k r) es)"

lemma trying_step:
  assumes "acceptor_inv s" "k < acc_next s"
  shows "k < acc_next (Listen_step s e)"
    and "acc_trying s k = None \<Longrightarrow> acc_trying (Listen_step s e) k = None"
    and "acc_trying s k = Some i \<Longrightarrow> acc_trying (Listen_step s e) k \<in> {None, Some (i + dials_for k [e])}"
  using assms by (auto simp: Listen_step_def dials_for_def split: pm_event.split option.split)

lemma trying_run:
  assumes "acceptor_inv s" "k < acc_next s"
  shows "case acc_trying s k of None \<Rightarrow> acc_trying (foldl Listen_step s es) k = None
     | Some i \<Rightarrow> acc_trying (foldl Listen_step s es) k \<in> {None, Some (i + dials_for k es)}"
  using assms
proof (induction es arbitrary: s)
  case (Cons e es)
  have ih: "case acc_trying (Listen_step s e) k of None \<Rightarrow> acc_trying (foldl Listen_step (Listen_step s e) es) k = None
     | Some i \<Rightarrow> acc_trying (foldl Listen_step (Listen_step s e) es) k \<in> {None, Some (i + dials_for k es)}"
    using Cons.IH [of "Listen_step s e"] Cons.prems trying_step(1) [OF Cons.prems] by (simp add: Listen_step_inv)
  have split: "dials_for k (e # es) = dials_for k [e] + dials_for k es" by (simp add: dials_for_def)
  show ?case
  proof (cases "acc_trying s k")
    case None
    with trying_step(2) [OF Cons.prems None] ih show ?thesis by simp
  next
    case (Some i)
    with trying_step(3) [OF Cons.prems Some, of e] ih show ?thesis unfolding split by auto
  qed
qed (simp add: dials_for_def split: option.split)

theorem listener_settles:
  assumes "Listen_start bound p = Some s0" "s = foldl Listen_step s0 es" "k < acc_next s" "10 \<le> dials_for k later"
  shows "k \<in> dom (acc_joined (foldl Listen_step s later)) \<or> k \<in> acc_closed (foldl Listen_step s later)"
proof -
  let ?t = "foldl Listen_step s later"
  have inv: "acceptor_inv s" unfolding assms(2) by (rule pm_listener.run_inv [OF Listen_start_inv [OF assms(1)]])
  then have inv': "acceptor_inv ?t" by (rule pm_listener.run_inv)
  have "k < acc_next ?t"
  proof -
    have "k < acc_next (foldl Listen_step s es)" if "acceptor_inv s" "k < acc_next s" for s :: "'a acceptor" and es
      using that by (induction es arbitrary: s) (simp_all add: Listen_step_inv trying_step(1))
    with inv assms(3) show ?thesis by blast
  qed
  moreover have "acc_trying ?t k = None"
    using trying_run [OF inv assms(3), of later] inv' assms(4) by (fastforce simp: acceptor_inv_def split: option.splits)
  ultimately show ?thesis using inv' by (auto simp: acceptor_inv_def)
qed

text \<open>A connection that was accepted for one target may be joined to another: the target is looked at anew for every
  attempt.\<close>

lemma rebind_moves_waiting:
  "map_option (\<lambda>s0. acc_joined (foldl Listen_step s0 [PmAccept, PmDial 0 None, PmRebind ''b:2'', PmDial 0 (Some c)]) 0)
     (Listen_start True \<lparr>pe_Remote_addr = ''a:1'', pe_Listen_port = 80, pe_running = True, pe_repstr = []\<rparr>) = Some (Some (''b:2'', c))"
  by (simp add: Listen_start_def Listen_step_def)

section \<open>The experiment with \<^verbatim>\<open>obfs4\<close>\<close>

text \<open>What the server meets: an error of \<^verbatim>\<open>Accept\<close>; a connection that cannot be wrapped; one that is wrapped, and
  what the one \<^verbatim>\<open>Read\<close> gives (none: an error); a client that neither sends nor leaves.\<close>

datatype obfs_event = ObAcceptFails | ObUnwrapped | ObWrapped "bytes option" | ObSilent

datatype obfs_did = ObGreets | ObLogs bytes | ObCloses | ObCloseListener

text \<open>The connections are served one after the other, by the loop itself.\<close>

fun obfs_serve :: "obfs_event list \<Rightarrow> obfs_did list" where
  "obfs_serve [] = []"
| "obfs_serve (ObAcceptFails # es) = [ObCloseListener]"
| "obfs_serve (ObUnwrapped # es) = ObCloses # obfs_serve es"
| "obfs_serve (ObWrapped r # es) =
     ObGreets # (case r of None \<Rightarrow> [] | Some b \<Rightarrow> [ObLogs (take 1024 b)]) @ ObCloses # obfs_serve es"
| "obfs_serve (ObSilent # es) = [ObGreets]"

definition OServer1 :: "bool \<Rightarrow> bool \<Rightarrow> obfs_event list \<Rightarrow> obfs_did list" where
  "OServer1 factory listening es = (if \<not> factory \<or> \<not> listening then [] else obfs_serve es)"

text \<open>The connections the client leaves open.\<close>

definition OClient1 :: "bool \<Rightarrow> bool \<Rightarrow> nat" where
  "OClient1 factory dialled = (if \<not> factory then 0 else if \<not> dialled then 0 else 1)"

definition ob_ends :: "obfs_event \<Rightarrow> bool" where
  "ob_ends e \<longleftrightarrow> e = ObAcceptFails \<or> e = ObSilent"

text \<open>Every connection before the first failure or silent client is closed once, none after it is served; the
  listener is closed exactly if \<^verbatim>\<open>Accept\<close> failed before a client was silent.\<close>

theorem obfs_one_at_a_time:
  "count_list (obfs_serve es) ObCloses = length (takeWhile (\<lambda>e. \<not> ob_ends e) es) \<and>
   (ObCloseListener \<in> set (obfs_serve es) \<longleftrightarrow> (\<exists>rest. dropWhile (\<lambda>e. \<not> ob_ends e) es = ObAcceptFails # rest))"
  by (induction es rule: obfs_serve.induct) (auto simp: ob_ends_def split: option.split)

lemma obfs_silent_blocks: "\<forall>e\<in>set es. \<not> ob_ends e \<Longrightarrow> obfs_serve (es @ ObSilent # later) = obfs_serve (es @ [ObSilent])"
  by (induction es rule: obfs_serve.induct) (auto simp: ob_ends_def split: option.split)

text \<open>\<^verbatim>\<open>ServeClientSocks\<close>: once the server has answered, a SOCKS server is started and the function returns; nothing
  listens on the remote port. \<open>None\<close>: a panic; otherwise the address that is served, if one is.\<close>

definition ServeClientSocks :: "(string \<Rightarrow> (int \<times> bool) option) \<Rightarrow> int \<Rightarrow> string \<Rightarrow> int \<Rightarrow> string option option" where
  "ServeClientSocks get socks_port wsaddr rport =
     map_option (\<lambda>ok. if \<not> ok then None else Some (''127.0.0.1:'' @ Itoa socks_port)) (ws_ping get wsaddr)"

lemma ServeClientSocks_serves:
  "ServeClientSocks get p (''ws'' @ x @ ''/ws'') rport = Some (Some a) \<longleftrightarrow>
     get (''http'' @ x @ ''/ping'') = Some (200, True) \<and> a = ''127.0.0.1:'' @ Itoa p"
  unfolding ServeClientSocks_def ws_ping_def ping_url_ws by (auto split: option.split prod.split)

section \<open>Keep-alive, host keys and agent\<close>

text \<open>The loop of \<^verbatim>\<open>keepAlive\<close>: the ticks, with whether the request is answered, and the stop. How many requests were
  sent and how many warnings logged, and whether it has returned.\<close>

datatype ka_signal = KaTick bool | KaStop

fun keepAlive_loop :: "ka_signal list \<Rightarrow> nat \<times> nat \<Rightarrow> (nat \<times> nat) \<times> bool" where
  "keepAlive_loop [] c = (c, False)"
| "keepAlive_loop (KaTick ok # es) (n, w) = keepAlive_loop es (Suc n, if ok then w else Suc w)"
| "keepAlive_loop (KaStop # es) c = (c, True)"

text \<open>No failure ends the loop; only the stop does, and nothing is sent after it.\<close>

theorem keepAlive_until_stop:
  "keepAlive_loop es (0, 0) =
     ((length (takeWhile (\<lambda>e. e \<noteq> KaStop) es), length (filter (\<lambda>e. e = KaTick False) (takeWhile (\<lambda>e. e \<noteq> KaStop) es))),
      KaStop \<in> set es)"
proof -
  have "keepAlive_loop es (n, w) =
     ((n + length (takeWhile (\<lambda>e. e \<noteq> KaStop) es), w + length (filter (\<lambda>e. e = KaTick False) (takeWhile (\<lambda>e. e \<noteq> KaStop) es))),
      KaStop \<in> set es)" for n w
    by (induction es "(n, w)" arbitrary: n w rule: keepAlive_loop.induct) auto
  then show ?thesis by simp
qed

text \<open>A callback answers for a host name, an address and a key; the home directory and the parser of
  \<^verbatim>\<open>known_hosts\<close> may fail.\<close>

datatype known_error = ErrHomeDir | ErrKnownHosts string

definition knownHostsCallback ::
  "string option \<Rightarrow> (string \<Rightarrow> (string \<Rightarrow> string \<Rightarrow> string \<Rightarrow> bool) option) \<Rightarrow> bool \<Rightarrow> known_error + (string \<Rightarrow> string \<Rightarrow> string \<Rightarrow> bool)" where
  "knownHostsCallback home knownhosts_New insecure =
     (if insecure then Inr (\<lambda>_ _ _. True)
      else case home of
             None \<Rightarrow> Inl ErrHomeDir
           | Some h \<Rightarrow>
               (let f = path_Join [h, ''.ssh'', ''known_hosts'']
                in case knownhosts_New f of None \<Rightarrow> Inl (ErrKnownHosts f) | Some clb \<Rightarrow> Inr clb))"

text \<open>The signers of the agent: connected, then asked.\<close>

definition getAgentSigners :: "(string \<Rightarrow> 'c option) \<Rightarrow> ('c \<Rightarrow> string list option) \<Rightarrow> string \<Rightarrow> string list option" where
  "getAgentSigners Dial Signers addr = Option.bind (Dial addr) Signers"

definition stat_agent :: "(string \<Rightarrow> bool) \<Rightarrow> (string \<Rightarrow> string list option) \<Rightarrow> string \<Rightarrow> string list option option" where
  "stat_agent exists signers addr = (if exists addr then Some (signers addr) else None)"

text \<open>A connection is only ever made with a signer, the key's or one of the agent's; and, unless it was told to be
  insecure, with the host keys of the user's \<^verbatim>\<open>known_hosts\<close>.\<close>

theorem client_config_safe:
  assumes "sshClientConfig parse (stat_agent exists (getAgentSigners Dial Signers)) (\<not> isl (knownHostsCallback home New insecure))
      key sshAgent user = ClientConfig u signers"
  shows "u = user \<and> signers \<noteq> [] \<and>
    (\<forall>s\<in>set signers. (\<exists>k. key = Some k \<and> parse k = KeyOk s) \<or> (\<exists>c ss. Dial sshAgent = Some c \<and> Signers c = Some ss \<and> s \<in> set ss)) \<and>
    (\<not> insecure \<longrightarrow> (\<exists>h clb. home = Some h \<and> New (path_Join [h, ''.ssh'', ''known_hosts'']) = Some clb \<and>
       knownHostsCallback home New insecure = Inr clb))"
  using assms
  by (auto simp: sshClientConfig_def knownHostsCallback_def stat_agent_def getAgentSigners_def Let_def bind_eq_Some_conv
      split: if_splits option.splits key_result.splits)

text \<open>\<^verbatim>\<open>copyConn\<close>: what arrives is written until an error or the end, then both connections are closed.\<close>

record copy_pair =
  cq_written :: "bytes list"
  cq_writer_open :: bool
  cq_reader_open :: bool

fun copyConn :: "bytes option list \<Rightarrow> nat \<Rightarrow> copy_pair \<Rightarrow> copy_pair" where
  "copyConn (Some b # rs) (Suc w) s = copyConn rs w (s\<lparr>cq_written := cq_written s @ [b]\<rparr>)"
| "copyConn _ _ s = s\<lparr>cq_writer_open := False, cq_reader_open := False\<rparr>"

lemma copyConn_all:
  "copyConn rs w s = \<lparr>cq_written = cq_written s @ take w (map the (takeWhile (\<lambda>r. r \<noteq> None) rs)),
     cq_writer_open = False, cq_reader_open = False, \<dots> = copy_pair.more s\<rparr>"
  by (induction rs w s rule: copyConn.induct) auto

section \<open>Watching a program\<close>

text \<open>\<^verbatim>\<open>fkme w1\<close>: a panic without a command, an end when it is not found; otherwise the log file, the command, and
  the loop over its lines, which does not end with the program.\<close>

datatype run1_end = Run1Panics | Run1NotFound string | Run1Watches string "string list"

definition Run1 :: "(string \<Rightarrow> bool) \<Rightarrow> string list \<Rightarrow> run1_end" where
  "Run1 LookPath args =
     (case args of
        [] \<Rightarrow> Run1Panics
      | logfile # _ \<Rightarrow>
          (case run1_command args of
             Some (exe # cargs) \<Rightarrow> if LookPath exe then Run1Watches logfile (exe # cargs) else Run1NotFound exe
           | _ \<Rightarrow> Run1Panics))"

theorem Run1_runs_after_dashes:
  "Run1 LookPath args = Run1Watches logfile cmd \<Longrightarrow>
     LookPath (hd cmd) \<and> cmd \<noteq> [] \<and> args \<noteq> [] \<and> logfile = hd args \<and>
     (\<exists>before. args = before @ (if ''--'' \<in> set args then [''--''] else []) @ cmd \<and> ''--'' \<notin> set before \<and>
        (''--'' \<notin> set args \<longrightarrow> before = []))"
proof (induction args rule: list.induct)
  case (Cons a as)
  let ?args = "a # as"
  from Cons.prems have r: "run1_command ?args = Some cmd" "LookPath (hd cmd)" "cmd \<noteq> []" "logfile = a"
    by (auto simp: Run1_def split: option.splits list.splits if_splits)
  show ?case
  proof (cases "''--'' \<in> set ?args")
    case True
    then obtain b rest where rest: "?args = b @ ''--'' # rest" "''--'' \<notin> set b" by (meson split_list_first)
    then have "takeWhile (\<lambda>x. x \<noteq> ''--'') ?args = b" by (simp add: takeWhile_append)
    then have "run1_command ?args = (if rest = [] then None else Some rest)"
      using True by (simp add: run1_command_def rest(1))
    with r(1) have "cmd = rest" by (simp split: if_splits)
    moreover have "a = hd (b @ ''--'' # rest)" using rest(1) by (metis list.sel(1))
    ultimately show ?thesis using r rest True by auto
  next
    case False
    with r show ?thesis by (auto simp: run1_command_def split: if_splits)
  qed
qed (simp add: Run1_def)

lemma Run1_without_dashes: "Run1 LookPath [''/tmp/gpu.log'', ''nvidia-smi''] \<in> {Run1NotFound ''/tmp/gpu.log'', Run1Watches ''/tmp/gpu.log'' [''/tmp/gpu.log'', ''nvidia-smi'']}"
  by (simp add: Run1_def run1_command_def)

end
