(* ===== verification/Spec2Isabelle.thy ===== *)
theory Spec2Isabelle
  imports Smux_Receiver Ws_Conn Relay_Ends Socks5_Faults Scp_Command Tunnel_Config Tunnel_Group
    Watch_Sync Cron Sftp_Cli Tar_Extract Port_Mapper Mole_Tunnel Gpu_Log
    Ws_Tunnel File_Marks Sync_Loops Commands Web_Files Addr_Code Cli_Workers Cli_Run Ws_Forward Web_Routes Small_Tools Tunnel_Command
    Accept_Loops
begin

text \<open>
  A verification of the Go program \<^verbatim>\<open>fkme\<close>: one binary with a command per tool
  (\<^verbatim>\<open>main.go\<close>), for tunnelling and for moving files over SSH, WebSocket and SOCKS. It carries its own
  copies of the \<^verbatim>\<open>smux\<close> stream multiplexer and of a SOCKS 5 server.

  \<^bold>\<open>The program and how its parts meet.\<close>
  An entrance (\<^verbatim>\<open>WS_CliClient\<close>) takes local connections and passes each through a relay
  (\<^verbatim>\<open>SrvServer\<close>) to an exit (\<^verbatim>\<open>CliServer\<close>), which serves it with the SOCKS server or joins it to a
  target; the three speak over WebSocket connections dressed as byte streams (\<^verbatim>\<open>WSConn\<close>) and the
  relay keeps its slots and waiting clients in sharded maps. \<^verbatim>\<open>smux\<close> carries many streams over one such
  connection. \<^verbatim>\<open>fkme scp\<close> moves files and directories, finding its hosts in an OpenSSH configuration
  (\<^verbatim>\<open>sshconfig\<close>); \<^verbatim>\<open>fkme tunnel\<close> and \<^verbatim>\<open>fkme ws\<close> keep SSH port forwardings alive.

  \<^bold>\<open>Shared theories.\<close>
  \<^verbatim>\<open>Prelude\<close>: Go's fixed-width integers as words, little-endian accessors, and the interfaces
  \<open>inv_machine\<close> and \<open>inv_relation\<close> (what a step keeps, every run keeps) and \<open>codec\<close> (a
  self-delimiting wire format). \<^verbatim>\<open>Go_Heap\<close>: \<^verbatim>\<open>container/heap\<close> over any order that is strict where it
  is used (\<open>heap_order\<close>). \<^verbatim>\<open>Go_Strings\<close>: the functions of \<^verbatim>\<open>strings\<close> and \<^verbatim>\<open>strconv\<close> in use, on byte
  strings. \<^verbatim>\<open>Go_Path\<close>: \<^verbatim>\<open>path/filepath\<close>. \<^verbatim>\<open>Go_Walk\<close>: a file tree, \<^verbatim>\<open>filepath.Walk\<close> and the
  operations of a file store with the laws (\<open>store_laws\<close>) a client may use. \<^verbatim>\<open>Go_Bufio\<close>: a buffered
  reader over a connection that delivers arbitrary fragments.
\<close>

text \<open>
  \<^bold>\<open>smux\<close> (\<^verbatim>\<open>smux/*.go\<close>).
  \<^verbatim>\<open>Smux_Alloc\<close>: the buffer pools and the de Bruijn \<^verbatim>\<open>msb\<close>; a buffer has the least power of two that
  fits, and \<^verbatim>\<open>msb\<close> is the position of the most significant bit. \<^verbatim>\<open>Smux_Frame\<close>: header layout and
  accessors; what is sent is read back as the same frames. \<^verbatim>\<open>Smux_Shaper\<close>: the order of the write
  queue and its loop as a machine over the branches of its \<^verbatim>\<open>select\<close>; whatever order requests are offered in,
  of those it holds control goes before data and the lower number first; nothing lost, never more than 1025 requests. \<^verbatim>\<open>Smux_Config\<close>: \<^verbatim>\<open>Config\<close> and its check.
  \<^verbatim>\<open>Smux_State\<close>: streams and sessions as records; a stream is shared by pointer, so the streams are a
  store and are named by their index. \<^verbatim>\<open>Smux_Stream\<close>, \<^verbatim>\<open>Smux_Session\<close>: one definition per section
  between two blocking points; what a blocked call wakes up to is an event given as an argument.
  \<^verbatim>\<open>Smux_Write\<close>: what a write sends under each protocol version and why it stalls or does not.
  \<^verbatim>\<open>Smux_System\<close>: a session with its receive loop, its keep-alive and any number of goroutines, every
  interleaving of their sections a list of events; the token bucket balances exactly, memory is
  bounded, no wake-up is lost, no stream id is drawn twice or by both ends. \<^verbatim>\<open>Smux_EndToEnd\<close>: the receive loop
  run by itself, and what is written to a stream is what is read from it. \<^verbatim>\<open>Smux_Receiver\<close>: in every interleaving the
  receive loop simulates a machine of mailboxes (\<open>mail_step\<close>), one step for each frame that has arrived.
  Two things are coarser than the code: in \<^verbatim>\<open>streamClosed\<close> the addition to the bucket and the notification are one
  step, and the order of an iteration over a concurrent map is any one that lists each entry once
  (\<open>is_iteration\<close>), without the goroutines that read the shards.
  The counters are words of 32 bits and wrap as in the code; a theorem that needs a bound (2 GiB for a
  signed difference, 4 GiB for a counter) has it as a hypothesis.

  \<^bold>\<open>The relay\<close> (\<^verbatim>\<open>ws/ws_tun.go\<close>, \<^verbatim>\<open>ws/concurrent_map.go\<close>).
  \<^verbatim>\<open>Concurrent_Map\<close>: 32 shards under FNV-1; the locale \<open>kv_store\<close> states what a keyed store promises,
  and every sequence of operations on the shards answers as on one map. \<^verbatim>\<open>Ws_Conn\<close>: the byte stream over
  messages. \<^verbatim>\<open>Relay\<close>: the request handler, the loop of each slot and the copying of each pair, cut where
  another goroutine can come between, with the maps, the tables of connections and the logs of what each
  peer was told as the state; \<^verbatim>\<open>Relay_Props\<close> its invariant and the races that separate check and update
  allow, \<^verbatim>\<open>Relay_Pairs\<close> whom it joins, \<^verbatim>\<open>Relay_Runs\<close> runs: a connection from request to copying,
  heart-beats, a client stuck for ever. \<^verbatim>\<open>Relay_Ends\<close>: exit and entrance against that protocol.

  \<^bold>\<open>The SOCKS 5 server\<close> (\<^verbatim>\<open>go-socks5/*.go\<close>).
  \<^verbatim>\<open>Socks5_Wire\<close>: addresses, requests, replies; \<^verbatim>\<open>Socks5_Server\<close>: authentication, rules, the session;
  \<^verbatim>\<open>Socks5_Props\<close>, \<^verbatim>\<open>Socks5_Faults\<close>: nothing is dialled before the client's bytes have held a greeting and the
  credentials its method asks for, the client with the right password is joined to its target, each request has one reply, and a session over \<^verbatim>\<open>WSConn\<close> differs from one over TCP
  only by the panic that a negative count causes. Resolver, rewriter and dialler are arguments.
\<close>

text \<open>
  \<^bold>\<open>The OpenSSH configuration\<close> (\<^verbatim>\<open>sshconfig/*.go\<close>).
  \<^verbatim>\<open>Ssh_Lex\<close>: each state function as a scan of the rest of the input, chained by \<open>lexEnv\<close>, whose measure
  is what is left of the input; \<^verbatim>\<open>Ssh_Config\<close>: the parser over the items, with the file system and the
  home directory as arguments; \<^verbatim>\<open>Ssh_Roundtrip\<close>: a configuration printed line by line is parsed back.
  \<open>ssh_Parse\<close> follows includes to a depth given as an argument and answers \<open>PDeep\<close> beyond it: a depth of
  one more than the longest chain of includes is enough, and a file that includes itself exceeds every
  depth, as the program then never returns.

  \<^bold>\<open>Transfers\<close> (\<^verbatim>\<open>scp/scp.go\<close>).
  \<^verbatim>\<open>Scp_Transfer\<close>: upload and download of files and directories between two stores and the file of
  ignored names; \<^verbatim>\<open>Scp_Props\<close>: an upload of a directory makes the remote side agree and doing it again
  changes nothing; \<^verbatim>\<open>Scp_Workers\<close>: the channel and the workers of the concurrent form, every
  interleaving (a worker is done with a file whether or not its transfer succeeded, as in the code; that a
  transfer ends the process is not in this machine); \<^verbatim>\<open>Scp_Command\<close>: how the arguments and the configuration decide where to connect;
  \<^verbatim>\<open>Scp_Run\<close>: logging in and \<^verbatim>\<open>fkme scp\<close> as a whole, from the arguments to the exit status, over the state of
  the network and of both sides: status 0 means that the files are there (of the directories that can be
  read). \<^verbatim>\<open>Cli_Run\<close>: the older command lines of \<^verbatim>\<open>sftpcli.go\<close>, which agree with it where it succeeds, without a
  proxy and where \<^verbatim>\<open>-conf\<close> does not come with several workers.

  \<^bold>\<open>SSH tunnels\<close> (\<^verbatim>\<open>scp/tunnel.go\<close>, \<^verbatim>\<open>ws/ssh_tunnel.go\<close>).
  \<^verbatim>\<open>Tunnel_Config\<close>: the configuration file and the command line; \<^verbatim>\<open>Tunnel_Alive\<close>: the keep-alive monitor
  and a forwarded connection; \<^verbatim>\<open>Ws_Forward\<close>: both once more with the bytes that are carried and with every
  goroutine, as refinements of the former (the locale \<open>machine_refines\<close> of \<^verbatim>\<open>Prelude\<close>, interpreted on both);
  \<^verbatim>\<open>Tunnel_Group\<close>: the goroutines of both programs and the wait group; \<^verbatim>\<open>Tunnel_Command\<close>: \<^verbatim>\<open>fkme tunnel\<close> from its
  file to its end.

  \<^bold>\<open>The vendored SSH tunnels\<close> (\<^verbatim>\<open>ssh_ws/*.go\<close>, which the program carries but does not call).
  \<^verbatim>\<open>Mole_Config\<close>: hosts, keys, servers and channels; \<^verbatim>\<open>Mole_Tunnel\<close>: the goroutines of a tunnel as a step
  relation \<open>mole_step\<close> with its reachable states; one goroutine dials at a time, a channel is accepted on only with
  a listener, stopping the keep-alive never deadlocks (requests to the server are answered or fail in the end), and a remote tunnel does not recover from a lost connection.

  \<^bold>\<open>Watching and synchronising\<close> (\<^verbatim>\<open>util/util.go\<close>, \<^verbatim>\<open>cron/cron.go\<close>, \<^verbatim>\<open>fs_watcher.go\<close>, \<^verbatim>\<open>sftpcli.go\<close>).
  \<^verbatim>\<open>Dir_Watch\<close>: three programs watch directories with one shape of loop, a table of changed paths handed
  over when a timer fires; the locale \<open>watch_loop\<close> states what is common and is interpreted on each.
  \<^verbatim>\<open>Watch_Sync\<close>: \<^verbatim>\<open>fkme scp -daemon\<close> keeps a remote directory up to date. \<^verbatim>\<open>Cron\<close>: the process manager, its
  configuration, the environments and the files that start a process once. \<^verbatim>\<open>Sftp_Cli\<close>, \<^verbatim>\<open>File_Tran\<close>: the
  older client, whose transfers run between any two places (locale \<open>copy_target\<close>, interpreted on both); what had
  been written when the process ended by \<^verbatim>\<open>log.Fatal\<close> stays.
  \<^verbatim>\<open>Tar_Extract\<close>: archives over the operations of a file system.

  \<^verbatim>\<open>Cli_Workers\<close>: its concurrent transfers, which the pool of \<^verbatim>\<open>Scp_Workers\<close> runs too; \<^verbatim>\<open>Addr_Code\<close>: its encoded
  addresses (padding, chaining and base64 around a block cipher that is an argument). \<^verbatim>\<open>File_Sync\<close>,
  \<^verbatim>\<open>Sync_Loops\<close> (\<^verbatim>\<open>file_syncer.go\<close>, \<^verbatim>\<open>file_watcher.go\<close>, \<^verbatim>\<open>console_reader.go\<close>): what the syncer does to the
  remote store, and its three goroutines as a step relation.

  \<^bold>\<open>Smaller tools.\<close>
  \<^verbatim>\<open>Commands\<close> (\<^verbatim>\<open>main.go\<close>): the table of commands and the supervisor. \<^verbatim>\<open>Ws_Tunnel\<close> (\<^verbatim>\<open>ws/ws.go\<close>): the older
  WebSocket tunnel, a byte stream, and what its two ends count. \<^verbatim>\<open>File_Marks\<close> (\<^verbatim>\<open>util/azj_dec.go\<close>): marking
  and renaming over a walk, which rename exactly the files they should; the locale \<open>file_visit\<close> is a walk that does
  one thing with every file and is interpreted on both callbacks (what the company's tool does is not modelled). \<^verbatim>\<open>Web_Files\<close> (\<^verbatim>\<open>w/*.go\<close>): downloads, uploads, the notebook server.
  \<^verbatim>\<open>Web_Routes\<close>: the routes of the web servers under \<^verbatim>\<open>ServeMux\<close>, static files, which stay below their
  directory (the upload handler's do not), and the upload command against its handler. \<^verbatim>\<open>Small_Tools\<close>: the pass that reads every file, the
  preparation of a notebook, certificate and echo of \<^verbatim>\<open>ws/tls.go\<close>, the outputs of the logger, disk status.
  \<^verbatim>\<open>Port_Mapper\<close> (\<^verbatim>\<open>util/pm.go\<close>): the table of ports, connecting again, copying with replacement.
  \<^verbatim>\<open>Gpu_Log\<close> (\<^verbatim>\<open>w/w1.go\<close>): the averages of the lines of a monitor. \<^verbatim>\<open>Accept_Loops\<close>: the listener of the port
  mapper with its goroutines (every connection is settled by ten attempts), the experiments of \<^verbatim>\<open>ws/ob.go\<close>, the
  bodies of \<open>keepAlive\<close>, \<open>copyConn\<close> and \<open>knownHostsCallback\<close> of \<^verbatim>\<open>ssh_ws\<close>, and the choice of \<^verbatim>\<open>w1\<close>.

  \<^bold>\<open>Bounds.\<close>
  Loops that consume their input are functions with a measure. Fuel is used only in \<open>ws_copy\<close>, where it is
  shown that one unit per message or byte left is enough, and as the depth of includes. A goroutine that
  runs for ever is an event system: theorems speak of every finite list of events.
\<close>

text \<open>
  \<^bold>\<open>Not modelled.\<close>
  Cryptography, the SSH, SFTP, WebSocket, JSON, logging and flag libraries (their answers are arguments or
  events); \<^verbatim>\<open>time\<close> beyond the order of ticks and deadlines; the pages that only print something, the rate limit;
  the HTTP proxy of \<^verbatim>\<open>w/hx.go\<close>, one call of a library. \<^verbatim>\<open>ws/ob.go\<close>, the command lines of \<^verbatim>\<open>sftpcli.go\<close>,
  \<^verbatim>\<open>ws/tls.go\<close>, the file synchroniser and \<^verbatim>\<open>ssh_ws\<close> are modelled although nothing in the program calls them.
\<close>

end
